(* ===== verification/Prelude.thy ===== *)
theory Prelude
  imports Main "HOL-Library.Word"
begin

text \<open>
  Shared material of the development: the machine integer types, the result type of the
  modelled C functions (a fault or a value), little-endian encodings, the byte-addressed
  memory with its read and write operations, and the page arithmetic of \<open>riscv.h\<close>.
\<close>

unbundle bit_operations_syntax

named_theorems res_simps \<open>rewriting of sequenced results\<close>
named_theorems mem_simps \<open>reads over writes of the byte memory\<close>
named_theorems page_simps \<open>arithmetic of page addresses\<close>

section \<open>Machine integers and results\<close>

type_synonym u8 = "8 word"
type_synonym u16 = "16 word"
type_synonym u32 = "32 word"
type_synonym u64 = "64 word"

text \<open>
  A C function ends with a value, or stops the machine by \<open>panic\<close>, or does something the
  C text gives no meaning to (a null or wild pointer, an access outside an array). The last
  case is a fault of its own, so that no theorem can hide it.
\<close>

datatype fault = Panic string | Wild string

type_synonym 'a res = "fault + 'a"

fun bindE :: "'a res \<Rightarrow> ('a \<Rightarrow> 'b res) \<Rightarrow> 'b res" where
  "bindE (Inl e) f = Inl e"
| "bindE (Inr x) f = f x"

lemma bindE_cong [fundef_cong]:
  "r = r' \<Longrightarrow> (\<And>x. r' = Inr x \<Longrightarrow> f x = g x) \<Longrightarrow> bindE r f = bindE r' g"
  by (cases r') auto

lemma bindE_Inr_iff [res_simps]:
  "bindE r f = Inr y \<longleftrightarrow> (\<exists>x. r = Inr x \<and> f x = Inr y)"
  by (cases r) auto

lemma bindE_Inl_iff [res_simps]:
  "bindE r f = Inl e \<longleftrightarrow> r = Inl e \<or> (\<exists>x. r = Inr x \<and> f x = Inl e)"
  by (cases r) auto

lemma bindE_assoc [res_simps]: "bindE (bindE r f) g = bindE r (\<lambda>x. bindE (f x) g)"
  by (cases r) auto

lemma bindE_if: "bindE (if b then x else y) f = (if b then bindE x f else bindE y f)"
  by simp

section \<open>Lists\<close>

text \<open>The index of the first element that satisfies a predicate: a C search loop.\<close>

fun find_idx :: "('a \<Rightarrow> bool) \<Rightarrow> 'a list \<Rightarrow> nat option" where
  "find_idx P [] = None"
| "find_idx P (x # xs) = (if P x then Some 0 else map_option Suc (find_idx P xs))"

lemma find_idx_Some:
  "find_idx P xs = Some i \<longleftrightarrow> i < length xs \<and> P (xs ! i) \<and> (\<forall>j<i. \<not> P (xs ! j))"
proof (induction xs arbitrary: i)
  case (Cons x xs)
  show ?case
  proof (cases "P x")
    case True
    then show ?thesis by (cases i) auto
  next
    case False
    show ?thesis
      using False Cons.IH[of "i - 1"] by (cases i) (auto simp: less_Suc_eq_0_disj)
  qed
qed simp

lemma find_idx_None: "find_idx P xs = None \<longleftrightarrow> (\<forall>x \<in> set xs. \<not> P x)"
  by (induction xs) auto

lemma find_idx_less: "find_idx P xs = Some i \<Longrightarrow> i < length xs"
  by (simp add: find_idx_Some)

section \<open>Little-endian encodings\<close>

definition to_le :: "nat \<Rightarrow> 'a::len word \<Rightarrow> u8 list" where
  "to_le n v = map (\<lambda>i. ucast (drop_bit (8 * i) v)) [0..<n]"

primrec from_le :: "u8 list \<Rightarrow> 'a::len word" where
  "from_le [] = 0"
| "from_le (b # bs) = ucast b OR push_bit 8 (from_le bs)"

lemma length_to_le [simp]: "length (to_le n v) = n"
  by (simp add: to_le_def)

lemma to_le_Suc: "to_le (Suc n) v = ucast v # to_le n (drop_bit 8 v)"
  by (simp add: to_le_def upt_conv_Cons map_Suc_upt[symmetric] add.commute del: upt_Suc)

lemma from_le_to_le_take: "from_le (to_le n v) = (take_bit (8 * n) v :: 'a::len word)"
proof (induction n arbitrary: v)
  case 0
  then show ?case by (simp add: to_le_def)
next
  case (Suc n)
  have "from_le (to_le (Suc n) v)
        = (ucast (ucast v :: u8) OR push_bit 8 (take_bit (8 * n) (drop_bit 8 v)) :: 'a word)"
    by (simp add: to_le_Suc Suc)
  also have "\<dots> = take_bit (8 * Suc n) v"
    by (rule bit_word_eqI) (auto simp: bit_simps)
  finally show ?case .
qed

lemma from_le_to_le: "LENGTH('a) \<le> 8 * n \<Longrightarrow> from_le (to_le n v) = (v :: 'a::len word)"
  by (simp add: from_le_to_le_take take_bit_word_eq_self)

section \<open>Chunked loops\<close>

text \<open>\<open>MIN\<close> of \<open>kernel/defs.h\<close> on unsigned operands, and the progress of a loop that moves
  \<open>MIN(n - tot, ...)\<close> units at a time.\<close>

definition MIN32 :: "u32 \<Rightarrow> u32 \<Rightarrow> u32" where
  "MIN32 a b = (if a < b then a else b)"

lemma unat_MIN32: "unat (MIN32 a b) = min (unat a) (unat b)"
  by (auto simp: MIN32_def word_less_nat_alt min_def)

lemma progress_less: "0 < k \<Longrightarrow> k \<le> n - w \<Longrightarrow> unat (n - (w + k)) < unat (n - w :: u32)"
proof -
  assume k: "0 < k" "k \<le> n - w"
  have e: "n - (w + k) = (n - w) - k" by simp
  moreover have "unat ((n - w) - k) = unat (n - w) - unat k" using k(2) by (rule unat_sub)
  moreover have "0 < unat k" using k(1) by (simp add: word_less_nat_alt)
  moreover have "unat k \<le> unat (n - w)" using k(2) by (simp add: word_le_nat_alt)
  ultimately show ?thesis unfolding e by linarith
qed

end
