(* ===== verification/Memory.thy ===== *)
theory Memory
  imports Prelude
begin

text \<open>
  Physical memory as the kernel sees it (the kernel runs on an identity map), byte by byte,
  with multi-byte loads and stores, and the page arithmetic of \<open>kernel/riscv.h\<close>.
  The lemmas say when a read does not see a write.
\<close>

section \<open>Byte memory\<close>

type_synonym bmem = "u64 \<Rightarrow> u8"

definition rd :: "bmem \<Rightarrow> u64 \<Rightarrow> nat \<Rightarrow> u8 list" where
  "rd m a n = map (\<lambda>i. m (a + of_nat i)) [0..<n]"

definition wr :: "bmem \<Rightarrow> u64 \<Rightarrow> u8 list \<Rightarrow> bmem" where
  "wr m a bs = (\<lambda>x. let i = unat (x - a) in if i < length bs then bs ! i else m x)"

definition load64 :: "bmem \<Rightarrow> u64 \<Rightarrow> u64" where
  "load64 m a = from_le (rd m a 8)"

definition store64 :: "bmem \<Rightarrow> u64 \<Rightarrow> u64 \<Rightarrow> bmem" where
  "store64 m a v = wr m a (to_le 8 v)"

definition load32 :: "bmem \<Rightarrow> u64 \<Rightarrow> u32" where
  "load32 m a = from_le (rd m a 4)"

definition store32 :: "bmem \<Rightarrow> u64 \<Rightarrow> u32 \<Rightarrow> bmem" where
  "store32 m a v = wr m a (to_le 4 v)"

lemma length_rd [simp]: "length (rd m a n) = n"
  by (simp add: rd_def)

lemma nth_rd [simp]: "i < n \<Longrightarrow> rd m a n ! i = m (a + of_nat i)"
  by (simp add: rd_def)

lemma rd_0 [simp]: "rd m a 0 = []"
  by (simp add: rd_def)

lemma rd_Suc: "rd m a (Suc n) = m a # rd m (a + 1) n"
  by (simp add: rd_def upt_conv_Cons map_Suc_upt[symmetric] ac_simps del: upt_Suc)

lemma rd_add: "rd m a (n + k) = rd m a n @ rd m (a + of_nat n) k"
  by (rule nth_equalityI) (auto simp: nth_append algebra_simps)

lemma rd_cong: "(\<And>i. i < n \<Longrightarrow> m (a + of_nat i) = m' (a + of_nat i)) \<Longrightarrow> rd m a n = rd m' a n"
  by (simp add: rd_def)

lemma load64_cong:
  "(\<And>i. i < 8 \<Longrightarrow> m (a + of_nat i) = m' (a + of_nat i)) \<Longrightarrow> load64 m a = load64 m' a"
  unfolding load64_def by (subst rd_cong) auto

lemma wr_Nil [simp]: "wr m a [] = m"
  by (simp add: wr_def)

lemma uint_eq_iff [simp]: "uint (a :: 'a::len word) = uint b \<longleftrightarrow> a = b"
  by (simp add: word_uint_eq_iff)

lemma uint_eq_0_iff [simp]: "uint (a :: 'a::len word) = 0 \<longleftrightarrow> a = 0"
  by (rule uint_0_iff)

lemma uint_0_eq_iff [simp]: "0 = uint (a :: 'a::len word) \<longleftrightarrow> a = 0"
  by (metis uint_0_iff)

lemma unat_less_u64: "unat (x :: u64) < 2 ^ 64"
  using unsigned_less[where w = x and 'a = nat] by simp

lemma unat_less_u32: "unat (x :: u32) < 2 ^ 32"
  using unsigned_less[where w = x and 'a = nat] by simp

lemma unat_of_nat_u64: "i < 2 ^ 64 \<Longrightarrow> unat (of_nat i :: u64) = i"
  by (simp add: unsigned_of_nat take_bit_nat_eq_self)

lemma wr_in: "i < length bs \<Longrightarrow> i < 2 ^ 64 \<Longrightarrow> wr m a bs (a + of_nat i) = bs ! i"
  by (simp add: wr_def unat_of_nat_u64)

lemma wr_out: "length bs \<le> unat (x - a) \<Longrightarrow> wr m a bs x = m x"
  by (simp add: wr_def)

lemma rd_wr_same [mem_simps]: "length bs \<le> 2 ^ 64 \<Longrightarrow> n = length bs \<Longrightarrow> rd (wr m a bs) a n = bs"
  by (rule nth_equalityI) (auto simp: wr_in)

lemma load64_store64 [mem_simps]: "load64 (store64 m a v) a = v"
  by (simp add: load64_def store64_def mem_simps from_le_to_le)

lemma load32_store32 [mem_simps]: "load32 (store32 m a v) a = v"
  by (simp add: load32_def store32_def mem_simps from_le_to_le)

text \<open>A read and a write at offsets of one base address do not overlap.\<close>

lemma unat_of_nat_diff:
  assumes "x < 2 ^ 64" "y < 2 ^ 64"
  shows "unat (of_nat x - of_nat y :: u64) = (if y \<le> x then x - y else x + 2 ^ 64 - y)"
  using unat_of_nat_u64[OF assms(1)] unat_of_nat_u64[OF assms(2)] by (simp add: unat_sub_if')

lemma rd_wr_off:
  assumes "j + n \<le> i \<or> i + length bs \<le> j" "i + length bs \<le> 2 ^ 64" "j + n \<le> 2 ^ 64"
  shows "rd (wr m (a + of_nat i) bs) (a + of_nat j) n = rd m (a + of_nat j) n"
proof (cases "bs = []")
  case False
  then have len: "0 < length bs" by simp
  show ?thesis
  proof (rule rd_cong, rule wr_out)
    fix k assume k: "k < n"
    have "unat (of_nat (j + k) - of_nat i :: u64) = (if i \<le> j + k then j + k - i else j + k + 2 ^ 64 - i)"
      by (rule unat_of_nat_diff) (use assms k len in linarith)+
    moreover have "a + of_nat j + of_nat k - (a + of_nat i) = (of_nat (j + k) - of_nat i :: u64)"
      by simp
    moreover have "length bs \<le> (if i \<le> j + k then j + k - i else j + k + 2 ^ 64 - i)"
      using assms k by (auto split: if_splits)
    ultimately show "length bs \<le> unat (a + of_nat j + of_nat k - (a + of_nat i))" by metis
  qed
qed simp

lemma wr_out_Suc:
  assumes "i < n" "i < 2 ^ 64" "length bs \<le> 2 ^ 64"
    and "\<And>j. j < length bs \<Longrightarrow> a + of_nat i \<noteq> b + of_nat j"
  shows "wr m b bs (a + of_nat i) = m (a + of_nat i)"
proof (rule wr_out, rule ccontr)
  let ?j = "unat (a + of_nat i - b)"
  assume "\<not> length bs \<le> ?j"
  then have "a + of_nat i \<noteq> b + of_nat ?j"
    using assms(4)[of ?j] by simp
  then show False by simp
qed

lemma wr_append:
  assumes "length bs + length cs \<le> 2 ^ 64"
  shows "wr m a (bs @ cs) = wr (wr m a bs) (a + of_nat (length bs)) cs"
proof
  fix x
  let ?i = "unat (x - a)"
  have lt: "length bs < 2 ^ 64 \<or> cs = []" using assms by (cases cs) auto
  show "wr m a (bs @ cs) x = wr (wr m a bs) (a + of_nat (length bs)) cs x"
  proof (cases "cs = []")
    case False
    then have l: "length bs < 2 ^ 64" using lt by simp
    have d: "x - (a + of_nat (length bs)) = (x - a) - of_nat (length bs)" by simp
    have u: "unat ((x - a) - (of_nat (length bs) :: u64))
        = (if length bs \<le> ?i then ?i - length bs else ?i + 2 ^ 64 - length bs)"
      using l by (simp add: unat_sub_if' unat_of_nat_u64)
    show ?thesis
      using assms unat_less_u64[of "x - a"] l
      by (auto simp: wr_def Let_def d u nth_append)
  qed simp
qed

lemma wr_single: "wr m a [c] = m(a := c)"
  by (rule ext) (auto simp: wr_def unat_0_iff)

lemma wr_Cons: "length cs < 2 ^ 64 \<Longrightarrow> wr m a (c # cs) = wr (m(a := c)) (a + 1) cs"
  using wr_append[of "[c]" cs m a] by (simp add: wr_single)

lemma wr_snoc: "length bs < 2 ^ 64 \<Longrightarrow> wr m a (bs @ [c]) = (wr m a bs)(a + of_nat (length bs) := c)"
  using wr_append[of bs "[c]" m a] by (simp add: wr_single)

lemma rd_fun_upd: "(\<And>i. i < n \<Longrightarrow> x \<noteq> a + of_nat i) \<Longrightarrow> rd (m(x := v)) a n = rd m a n"
  by (intro rd_cong) (auto simp: eq_commute)

lemma wr_fun_upd: "length bs \<le> unat (x - a) \<Longrightarrow> wr (m(x := v)) a bs = (wr m a bs)(x := v)"
  by (rule ext) (auto simp: wr_def Let_def)

section \<open>Pages\<close>

abbreviation (input) PGSIZE :: u64 where "PGSIZE \<equiv> 4096"

definition PGROUNDDOWN :: "u64 \<Rightarrow> u64" where
  "PGROUNDDOWN a = a AND NOT 4095"

definition PGROUNDUP :: "u64 \<Rightarrow> u64" where
  "PGROUNDUP sz = (sz + 4096 - 1) AND NOT 4095"

definition aligned :: "u64 \<Rightarrow> bool" where
  "aligned a \<longleftrightarrow> a mod 4096 = 0"

lemma unat_eqI: "unat (a :: 'a::len word) = unat b \<Longrightarrow> a = b"
  by (simp add: word_unat_eq_iff)

lemma and_not_4095: "(a :: u64) AND NOT 4095 = push_bit 12 (drop_bit 12 a)"
proof -
  have eq: "(4095 :: u64) = mask 12" by (simp add: mask_eq_exp_minus_1)
  show ?thesis
    unfolding eq by (rule bit_word_eqI) (auto simp: bit_simps simp del: mask_numeral)
qed

lemma unat_PGROUNDDOWN: "unat (PGROUNDDOWN a) = unat a div 4096 * 4096"
proof -
  have "unat (PGROUNDDOWN a) = take_bit 64 (push_bit 12 (drop_bit 12 (unat a)))"
    unfolding PGROUNDDOWN_def and_not_4095
    by (simp only: unsigned_push_bit_eq unsigned_drop_bit_eq)
      (simp add: take_bit_nat_eq_self[OF unat_less_u64[of a]])
  also have "\<dots> = take_bit 64 (unat a div 4096 * 4096)"
    by (simp add: push_bit_eq_mult drop_bit_eq_div)
  also have "\<dots> = unat a div 4096 * 4096"
  proof -
    have "unat a div 4096 * 4096 \<le> unat a" by simp
    also have "\<dots> < 2 ^ 64" using unat_less_u64[of a] by simp
    finally show ?thesis by (simp add: take_bit_eq_mod)
  qed
  finally show ?thesis .
qed

lemma aligned_unat: "aligned a \<longleftrightarrow> unat a mod 4096 = 0"
  by (simp add: aligned_def unat_eq_0[symmetric] unat_mod del: unat_eq_0)

lemma aligned_PGROUNDDOWN [page_simps, simp]: "aligned (PGROUNDDOWN a)"
  by (simp add: aligned_unat unat_PGROUNDDOWN)

lemma aligned_0 [simp]: "aligned 0"
  by (simp add: aligned_def)

lemma PGROUNDDOWN_aligned [page_simps]: "aligned a \<Longrightarrow> PGROUNDDOWN a = a"
  unfolding aligned_unat by (rule unat_eqI) (auto simp: unat_PGROUNDDOWN)

lemma unat_aligned_add:
  assumes "aligned a" "i < 4096"
  shows "unat (a + of_nat i) = unat a + i"
proof -
  have "unat a + i < 2 ^ 64"
  proof -
    obtain q where q: "unat a = 4096 * q" using assms(1) by (auto simp: aligned_unat)
    have "unat a < 2 ^ 64" using unat_less_u64[of a] by simp
    then show ?thesis using q assms(2) by simp
  qed
  then show ?thesis
    using assms(2) by (simp add: unat_word_ariths unat_of_nat_u64)
qed

lemma page_of_offset [page_simps]:
  assumes "aligned a" "i < 4096"
  shows "PGROUNDDOWN (a + of_nat i) = a"
proof (rule unat_eqI)
  obtain q where q: "unat a = 4096 * q"
    using assms(1) by (auto simp: aligned_unat)
  then show "unat (PGROUNDDOWN (a + of_nat i)) = unat a"
    using assms(2) by (simp add: unat_PGROUNDDOWN unat_aligned_add[OF assms])
qed

lemma page_split: "x = PGROUNDDOWN x + of_nat (unat x mod 4096)"
proof (rule unat_eqI)
  have "unat (PGROUNDDOWN x + of_nat (unat x mod 4096)) = unat (PGROUNDDOWN x) + unat x mod 4096"
    by (rule unat_aligned_add) auto
  then show "unat x = unat (PGROUNDDOWN x + of_nat (unat x mod 4096))"
    by (simp add: unat_PGROUNDDOWN)
qed

lemma page_offset_bound: "x - PGROUNDDOWN x = of_nat (unat x mod 4096)"
  using page_split[of x] by (metis add_diff_cancel_left')

section \<open>Frames: memories that agree outside some pages\<close>

definition same_off :: "u64 set \<Rightarrow> bmem \<Rightarrow> bmem \<Rightarrow> bool" where
  "same_off P m m' \<longleftrightarrow> (\<forall>x. PGROUNDDOWN x \<notin> P \<longrightarrow> m' x = m x)"

lemma same_off_refl [simp, intro]: "same_off P m m"
  by (simp add: same_off_def)

lemma same_off_trans: "same_off P m m' \<Longrightarrow> same_off Q m' m'' \<Longrightarrow> P \<union> Q \<subseteq> R \<Longrightarrow> same_off R m m''"
  unfolding same_off_def by (metis UnCI subsetD)

lemma same_off_mono: "same_off P m m' \<Longrightarrow> P \<subseteq> Q \<Longrightarrow> same_off Q m m'"
  by (auto simp: same_off_def)

lemma same_offD: "same_off P m m' \<Longrightarrow> PGROUNDDOWN x \<notin> P \<Longrightarrow> m' x = m x"
  by (simp add: same_off_def)

lemma wr_same_off:
  assumes "aligned a" "k + length bs \<le> 4096"
  shows "same_off {a} m (wr m (a + of_nat k) bs)"
  unfolding same_off_def
proof (intro allI impI)
  fix x assume x: "PGROUNDDOWN x \<notin> {a}"
  show "wr m (a + of_nat k) bs x = m x"
  proof (rule wr_out, rule ccontr)
    let ?i = "unat (x - (a + of_nat k))"
    assume "\<not> length bs \<le> ?i"
    then have "k + ?i < 4096" using assms(2) by simp
    then have "PGROUNDDOWN (a + of_nat (k + ?i)) = a" by (rule page_of_offset[OF assms(1)])
    then show False using x by (simp add: ac_simps)
  qed
qed

lemma store64_same_off:
  assumes "aligned a" "k \<le> 4088"
  shows "same_off {a} m (store64 m (a + of_nat k) v)"
  unfolding store64_def using assms by (intro wr_same_off) auto

lemma store64_same_off0: "aligned a \<Longrightarrow> same_off {a} m (store64 m a v)"
  using store64_same_off[of a 0] by simp

lemma wr_same_off0: "aligned a \<Longrightarrow> length bs \<le> 4096 \<Longrightarrow> same_off {a} m (wr m a bs)"
  using wr_same_off[of a 0] by simp

lemma load64_same_off:
  assumes "same_off P m m'" "aligned a" "a \<notin> P" "k \<le> 4088"
  shows "load64 m' (a + of_nat k) = load64 m (a + of_nat k)"
proof (rule load64_cong)
  fix i :: nat assume "i < 8"
  then have "PGROUNDDOWN (a + of_nat (k + i)) = a"
    using assms by (intro page_of_offset) auto
  then show "m' (a + of_nat k + of_nat i) = m (a + of_nat k + of_nat i)"
    using assms(1,3) by (auto simp: ac_simps intro!: same_offD[OF assms(1)])
qed

lemma load64_same_off0:
  "same_off P m m' \<Longrightarrow> aligned a \<Longrightarrow> a \<notin> P \<Longrightarrow> load64 m' a = load64 m a"
  using load64_same_off[of P m m' a 0] by simp

lemma rd_same_off:
  assumes "same_off P m m'" "aligned a" "a \<notin> P" "k + n \<le> 4096"
  shows "rd m' (a + of_nat k) n = rd m (a + of_nat k) n"
proof (rule rd_cong)
  fix i assume "i < n"
  then have "PGROUNDDOWN (a + of_nat (k + i)) = a"
    using assms by (intro page_of_offset) auto
  then show "m' (a + of_nat k + of_nat i) = m (a + of_nat k + of_nat i)"
    using assms(1,3) by (auto simp: ac_simps intro!: same_offD[OF assms(1)])
qed

lemma rd_same_off0:
  "same_off P m m' \<Longrightarrow> aligned a \<Longrightarrow> a \<notin> P \<Longrightarrow> n \<le> 4096 \<Longrightarrow> rd m' a n = rd m a n"
  using rd_same_off[of P m m' a 0] by simp

text \<open>Two aligned 8-byte cells of one page are equal or disjoint.\<close>

lemma load64_store64_other:
  assumes "aligned a" "i < 512" "j < 512" "i \<noteq> j"
  shows "load64 (store64 m (a + of_nat (8 * i)) v) (a + of_nat (8 * j)) = load64 m (a + of_nat (8 * j))"
proof (rule load64_cong)
  fix k :: nat assume k: "k < 8"
  have "store64 m (a + of_nat (8 * i)) v (a + of_nat (8 * j + k)) = m (a + of_nat (8 * j + k))"
    unfolding store64_def
  proof (rule wr_out, rule ccontr)
    let ?d = "unat (a + of_nat (8 * j + k) - (a + of_nat (8 * i)))"
    assume "\<not> length (to_le 8 v) \<le> ?d"
    then have d: "?d < 8" by simp
    have "a + of_nat (8 * i + ?d) = a + of_nat (8 * j + k)" by simp
    then have "unat (a + of_nat (8 * i + ?d)) = unat (a + of_nat (8 * j + k))" by (rule arg_cong)
    moreover have "unat (a + of_nat (8 * i + ?d)) = unat a + (8 * i + ?d)"
      using assms d by (intro unat_aligned_add) auto
    moreover have "unat (a + of_nat (8 * j + k)) = unat a + (8 * j + k)"
      using assms k by (intro unat_aligned_add) auto
    ultimately have "8 * i + ?d = 8 * j + k" by linarith
    then have "(8 * i + ?d) div 8 = (8 * j + k) div 8" by simp
    then show False using d k assms(4) by (simp add: div_add1_eq)
  qed
  then show "store64 m (a + of_nat (8 * i)) v (a + of_nat (8 * j) + of_nat k)
    = m (a + of_nat (8 * j) + of_nat k)"
    by (simp add: ac_simps)
qed

text \<open>A page filled with one byte.\<close>

definition filled :: "bmem \<Rightarrow> u64 \<Rightarrow> u8 \<Rightarrow> bool" where
  "filled m a c \<longleftrightarrow> (\<forall>k<4096. m (a + of_nat k) = c)"

lemma filled_same_off:
  "filled m a c \<Longrightarrow> same_off P m m' \<Longrightarrow> aligned a \<Longrightarrow> a \<notin> P \<Longrightarrow> filled m' a c"
  by (auto simp: filled_def page_simps intro: trans[OF same_offD])

lemma load64_filled_0:
  assumes "filled m a 0" "i < 512"
  shows "load64 m (a + of_nat (8 * i)) = 0"
proof -
  have "rd m (a + of_nat (8 * i)) 8 = replicate 8 0"
  proof (rule nth_equalityI)
    fix k assume "k < length (rd m (a + of_nat (8 * i)) 8)"
    then have k: "k < 8" by simp
    then have "m (a + of_nat (8 * i + k)) = 0"
      using assms(1)[unfolded filled_def, rule_format, of "8 * i + k"] assms(2) k by simp
    then show "rd m (a + of_nat (8 * i)) 8 ! k = replicate 8 0 ! k"
      using k by (simp add: ac_simps)
  qed simp
  then show ?thesis
    by (simp add: load64_def numeral_eq_Suc)
qed

end
