(* ===== verification/CString.thy ===== *)
theory CString
  imports Memory
begin

text \<open>
  The memory and string routines of \<open>kernel/string.c\<close>. \<open>memset\<close>, \<open>memmove\<close> and \<open>memcpy\<close>
  work on the byte memory, loop by loop as in C, and are shown equal to one simultaneous
  write; \<open>memcmp\<close>, \<open>strncmp\<close>, \<open>strncpy\<close>, \<open>safestrcpy\<close> and \<open>strlen\<close> work on C arrays,
  lists of bytes, and fault when they run off the end of one.
\<close>

section \<open>Memory blocks\<close>

text \<open>\<open>for (i = 0; i < n; i++) cdst[i] = c;\<close>\<close>

function memset_loop :: "bmem \<Rightarrow> u64 \<Rightarrow> u8 \<Rightarrow> nat \<Rightarrow> nat \<Rightarrow> bmem" where
  "memset_loop m cdst c i n =
     (if i < n then memset_loop (m(cdst + of_nat i := c)) cdst c (Suc i) n else m)"
  by pat_completeness auto
termination by (relation "measure (\<lambda>(m, d, c, i, n). n - i)") auto

declare memset_loop.simps [simp del]

definition memset :: "bmem \<Rightarrow> u64 \<Rightarrow> u32 \<Rightarrow> u32 \<Rightarrow> bmem" where
  "memset m dst c n = memset_loop m dst (ucast c) 0 (unat n)"

text \<open>The two loops of \<open>memmove\<close>: \<open>*--d = *--s\<close> downwards, \<open>*d++ = *s++\<close> upwards.\<close>

primrec memmove_down :: "bmem \<Rightarrow> u64 \<Rightarrow> u64 \<Rightarrow> nat \<Rightarrow> bmem" where
  "memmove_down m d s 0 = m"
| "memmove_down m d s (Suc n) = memmove_down (m(d - 1 := m (s - 1))) (d - 1) (s - 1) n"

primrec memmove_up :: "bmem \<Rightarrow> u64 \<Rightarrow> u64 \<Rightarrow> nat \<Rightarrow> bmem" where
  "memmove_up m d s 0 = m"
| "memmove_up m d s (Suc n) = memmove_up (m(d := m s)) (d + 1) (s + 1) n"

definition memmove :: "bmem \<Rightarrow> u64 \<Rightarrow> u64 \<Rightarrow> u32 \<Rightarrow> bmem" where
  "memmove m dst src n =
     (if src < dst \<and> src + ucast n > dst
      then memmove_down m (dst + ucast n) (src + ucast n) (unat n)
      else memmove_up m dst src (unat n))"

definition memcpy :: "bmem \<Rightarrow> u64 \<Rightarrow> u64 \<Rightarrow> u32 \<Rightarrow> bmem" where
  "memcpy m dst src n = memmove m dst src n"

lemma memset_loop_wr:
  "i \<le> n \<Longrightarrow> n \<le> 2 ^ 32 \<Longrightarrow> memset_loop m d c i n = wr m (d + of_nat i) (replicate (n - i) c)"
proof (induction m d c i n rule: memset_loop.induct)
  case (1 m d c i n)
  show ?case
  proof (cases "i < n")
    case True
    have "memset_loop m d c i n = wr (m(d + of_nat i := c)) (d + of_nat i + 1) (replicate (n - Suc i) c)"
      unfolding memset_loop.simps[of m d c i n]
      using True "1.IH" "1.prems" by (simp del: fun_upd_apply add: ac_simps)
    also have "\<dots> = wr m (d + of_nat i) (c # replicate (n - Suc i) c)"
      using "1.prems" by (subst wr_Cons) auto
    also have "c # replicate (n - Suc i) c = replicate (n - i) c"
      using True by (metis Suc_diff_Suc replicate_Suc)
    finally show ?thesis .
  next
    case False
    then show ?thesis using 1(2) by (subst memset_loop.simps) simp
  qed
qed

lemma memset_wr: "memset m d c n = wr m d (replicate (unat n) (ucast c))"
proof -
  have "unat n \<le> 2 ^ 32" using unat_less_u32[of n] by simp
  then show ?thesis by (simp add: memset_def memset_loop_wr)
qed

lemma memmove_up_wr:
  "n < 2 ^ 64 \<Longrightarrow> (\<And>i j. i < j \<Longrightarrow> j < n \<Longrightarrow> d + of_nat i \<noteq> s + of_nat j)
   \<Longrightarrow> memmove_up m d s n = wr m d (rd m s n)"
proof (induction n arbitrary: m d s)
  case (Suc n)
  let ?m = "m(d := m s)"
  have "memmove_up ?m (d + 1) (s + 1) n = wr ?m (d + 1) (rd ?m (s + 1) n)"
  proof (rule Suc.IH)
    show "d + 1 + of_nat i \<noteq> s + 1 + of_nat j" if "i < j" "j < n" for i j
      using Suc.prems(2)[of "Suc i" "Suc j"] that by (simp add: ac_simps)
  qed (use Suc.prems(1) in simp)
  also have "rd ?m (s + 1) n = rd m (s + 1) n"
  proof (rule rd_fun_upd)
    show "d \<noteq> s + 1 + of_nat j" if "j < n" for j
      using Suc.prems(2)[of 0 "Suc j"] that by (simp add: ac_simps)
  qed
  also have "wr ?m (d + 1) (rd m (s + 1) n) = wr m d (rd m s (Suc n))"
    using Suc.prems(1) by (simp add: rd_Suc wr_Cons)
  finally show ?case unfolding memmove_up.simps .
qed simp

lemma memmove_down_wr:
  "n < 2 ^ 64 \<Longrightarrow> (\<And>i j. j < i \<Longrightarrow> i < n \<Longrightarrow> d + of_nat i \<noteq> s + of_nat j)
   \<Longrightarrow> memmove_down m (d + of_nat n) (s + of_nat n) n = wr m d (rd m s n)"
proof (induction n arbitrary: m)
  case (Suc n)
  let ?v = "m (s + of_nat n)"
  let ?m = "m(d + of_nat n := ?v)"
  have n: "unat (of_nat n :: u64) = n"
    using Suc.prems(1) by (intro unat_of_nat_u64) simp
  have "memmove_down ?m (d + of_nat n) (s + of_nat n) n = wr ?m d (rd ?m s n)"
    by (rule Suc.IH) (use Suc.prems in auto)
  also have "rd ?m s n = rd m s n"
    by (rule rd_fun_upd) (use Suc.prems(2)[of _ n] in auto)
  also have "wr ?m d (rd m s n) = (wr m d (rd m s n))(d + of_nat n := ?v)"
    using n by (intro wr_fun_upd) simp
  also have "\<dots> = wr m d (rd m s n @ [?v])"
    using Suc.prems(1) by (subst wr_snoc) auto
  also have "rd m s n @ [?v] = rd m s (Suc n)"
    by (simp add: rd_def)
  finally have "memmove_down ?m (d + of_nat n) (s + of_nat n) n = wr m d (rd m s (Suc n))" .
  moreover have "x + of_nat (Suc n) - 1 = x + of_nat n" for x :: u64 by simp
  ultimately show ?case by (simp only: memmove_down.simps)
qed simp

lemma memmove_wr:
  assumes "unat src + unat n < 2 ^ 64" "unat dst + unat n < 2 ^ 64"
  shows "memmove m dst src n = wr m dst (rd m src (unat n))"
proof -
  have n: "ucast n = (of_nat (unat n) :: u64)" by simp
  have nl: "unat n < 2 ^ 64" using assms by simp
  have u: "unat (x + of_nat i :: u64) = unat x + i" if "i \<le> unat n" "unat x + unat n < 2 ^ 64" for x i
    using that by (simp add: unat_word_ariths unat_of_nat_u64)
  have eqD: "unat dst + i = unat src + j" if "dst + of_nat i = src + of_nat j" "i \<le> unat n" "j \<le> unat n" for i j
    using arg_cong[OF that(1), of unat] u[OF that(2) assms(2)] u[OF that(3) assms(1)] by simp
  have end_gt: "src + ucast n > dst \<longleftrightarrow> unat src + unat n > unat dst"
    unfolding n word_less_nat_alt using u[OF order_refl assms(1)] by simp
  show ?thesis
  proof (cases "src < dst \<and> src + ucast n > dst")
    case True
    have "dst + of_nat i \<noteq> src + of_nat j" if "j < i" "i < unat n" for i j
      using eqD[of i j] that True by (auto simp: word_less_nat_alt)
    then have "memmove_down m (dst + of_nat (unat n)) (src + of_nat (unat n)) (unat n) = wr m dst (rd m src (unat n))"
      using nl by (intro memmove_down_wr)
    with True show ?thesis by (simp add: memmove_def)
  next
    case False
    then have f: "unat dst \<le> unat src \<or> unat src + unat n \<le> unat dst"
      using end_gt by (auto simp: word_less_nat_alt)
    have "dst + of_nat i \<noteq> src + of_nat j" if "i < j" "j < unat n" for i j
      using eqD[of i j] that f by auto
    then have "memmove_up m dst src (unat n) = wr m dst (rd m src (unat n))"
      using nl by (intro memmove_up_wr)
    with False show ?thesis by (auto simp: memmove_def)
  qed
qed

section \<open>Arrays and C strings\<close>

text \<open>
  A C array is the list of its bytes; reading or writing past its end faults. The \<open>uchar\<close>
  differences the comparisons return are taken in \<open>int\<close>, as C promotes them.
\<close>

fun memcmp :: "u8 list \<Rightarrow> u8 list \<Rightarrow> nat \<Rightarrow> int res" where
  "memcmp s1 s2 0 = Inr 0"
| "memcmp (a # s1) (b # s2) (Suc n) =
     (if a \<noteq> b then Inr (uint a - uint b) else memcmp s1 s2 n)"
| "memcmp s1 s2 (Suc n) = Inl (Wild ''memcmp: past the end'')"

fun strncmp :: "u8 list \<Rightarrow> u8 list \<Rightarrow> nat \<Rightarrow> int res" where
  "strncmp p q 0 = Inr 0"
| "strncmp (a # p) (b # q) (Suc n) =
     (if a \<noteq> 0 \<and> a = b then strncmp p q n else Inr (uint a - uint b))"
| "strncmp p q (Suc n) = Inl (Wild ''strncmp: past the end'')"

text \<open>The second loop of \<open>strncpy\<close>, which fills the rest with zeros, and the whole of it.\<close>

fun strnpad :: "u8 list \<Rightarrow> nat \<Rightarrow> u8 list res" where
  "strnpad s 0 = Inr s"
| "strnpad (_ # s) (Suc n) = bindE (strnpad s n) (\<lambda>r. Inr (0 # r))"
| "strnpad [] (Suc n) = Inl (Wild ''strncpy: past the end'')"

fun strncpy :: "u8 list \<Rightarrow> u8 list \<Rightarrow> nat \<Rightarrow> u8 list res" where
  "strncpy s t 0 = Inr s"
| "strncpy (_ # s) (c # t) (Suc n) =
     bindE (if c \<noteq> 0 then strncpy s t n else strnpad s n) (\<lambda>r. Inr (c # r))"
| "strncpy s t (Suc n) = Inl (Wild ''strncpy: past the end'')"

text \<open>
  \<open>while (--n > 0 && (*s++ = *t++) != 0); *s = 0;\<close>: when the terminator is copied, \<open>s\<close> has
  already moved on, and the byte after it is cleared too.
\<close>

fun safestrcpy_loop :: "u8 list \<Rightarrow> u8 list \<Rightarrow> nat \<Rightarrow> u8 list res" where
  "safestrcpy_loop (_ # s) t 0 = Inr (0 # s)"
| "safestrcpy_loop (_ # s) (c # t) (Suc n) =
     bindE (safestrcpy_loop s t (if c \<noteq> 0 then n else 0)) (\<lambda>r. Inr (c # r))"
| "safestrcpy_loop s t n = Inl (Wild ''safestrcpy: past the end'')"

fun safestrcpy :: "u8 list \<Rightarrow> u8 list \<Rightarrow> nat \<Rightarrow> u8 list res" where
  "safestrcpy s t 0 = Inr s"
| "safestrcpy s t (Suc n) = safestrcpy_loop s t n"

fun strlen :: "u8 list \<Rightarrow> nat res" where
  "strlen [] = Inl (Wild ''strlen: past the end'')"
| "strlen (c # s) = (if c = 0 then Inr 0 else bindE (strlen s) (\<lambda>n. Inr (Suc n)))"

text \<open>The string an array holds within its first \<open>n\<close> bytes.\<close>

definition cstrn :: "nat \<Rightarrow> u8 list \<Rightarrow> u8 list" where
  "cstrn n xs = takeWhile (\<lambda>c. c \<noteq> 0) (take n xs)"

text \<open>The first \<open>n\<close> bytes can be scanned: they are there, or a terminator comes first.\<close>

definition scannable :: "nat \<Rightarrow> u8 list \<Rightarrow> bool" where
  "scannable n xs \<longleftrightarrow> n \<le> length xs \<or> 0 \<in> set xs"

lemma cstrn_0 [simp]: "cstrn 0 xs = []"
  by (simp add: cstrn_def)

lemma cstrn_Suc [simp]: "cstrn (Suc n) (c # xs) = (if c = 0 then [] else c # cstrn n xs)"
  by (simp add: cstrn_def)

lemma cstrn_le: "length (cstrn n xs) \<le> n"
  unfolding cstrn_def by (rule order_trans[OF length_takeWhile_le]) simp

lemma scannable_0 [simp]: "scannable 0 xs"
  by (simp add: scannable_def)

lemma scannable_Suc [simp]:
  "scannable (Suc n) [] \<longleftrightarrow> False"
  "scannable (Suc n) (c # xs) \<longleftrightarrow> c = 0 \<or> scannable n xs"
  by (auto simp: scannable_def)

lemma memcmp_spec:
  "n \<le> length p \<Longrightarrow> n \<le> length q \<Longrightarrow> \<exists>r. memcmp p q n = Inr r \<and> (r = 0 \<longleftrightarrow> take n p = take n q)"
  by (induction p q n rule: memcmp.induct) auto

lemma strncmp_spec:
  "scannable n p \<Longrightarrow> scannable n q \<Longrightarrow>
   \<exists>r. strncmp p q n = Inr r \<and> (r = 0 \<longleftrightarrow> cstrn n p = cstrn n q)"
  by (induction p q n rule: strncmp.induct) (auto simp: gr0_conv_Suc split: if_splits)

lemma strncmp_0_iff: "strncmp p q n = Inr r \<Longrightarrow> r = 0 \<longleftrightarrow> cstrn n p = cstrn n q"
  by (induction p q n rule: strncmp.induct) (auto split: if_splits)

lemma strnpad_spec: "n \<le> length s \<Longrightarrow> strnpad s n = Inr (replicate n 0 @ drop n s)"
  by (induction s n rule: strnpad.induct) auto

lemma strncpy_spec:
  "n \<le> length s \<Longrightarrow> scannable n t \<Longrightarrow>
   strncpy s t n = Inr (cstrn n t @ replicate (n - length (cstrn n t)) 0 @ drop n s)"
  by (induction s t n rule: strncpy.induct) (auto simp: strnpad_spec)

lemma strncpy_cstrn:
  assumes "n \<le> length s" "scannable n t" "strncpy s t n = Inr r"
  shows "cstrn n r = cstrn n t"
proof -
  have "takeWhile (\<lambda>c. c \<noteq> 0) (cstrn n t @ replicate k 0 @ xs) = cstrn n t" if "k > 0 \<or> xs = []" for k xs
  proof -
    have "\<forall>c \<in> set (cstrn n t). c \<noteq> 0" by (auto simp: cstrn_def dest: set_takeWhileD)
    then show ?thesis using that by (cases k) (auto simp: takeWhile_append2)
  qed
  then have "takeWhile (\<lambda>c. c \<noteq> 0) (cstrn n t @ replicate (n - length (cstrn n t)) 0 @ []) = cstrn n t"
    by blast
  moreover have "take n r = cstrn n t @ replicate (n - length (cstrn n t)) 0"
    using assms strncpy_spec[OF assms(1,2)] cstrn_le[of n t] by auto
  ultimately show ?thesis by (simp add: cstrn_def)
qed

lemma length_pos_ne: "n < length s \<Longrightarrow> s \<noteq> []"
  by auto

lemma safestrcpy_loop_terminated:
  "safestrcpy_loop s t n = Inr r \<Longrightarrow> n < length s \<Longrightarrow> 0 \<in> set (take (Suc n) r) \<and> length r = length s"
  by (induction s t n arbitrary: r rule: safestrcpy_loop.induct)
    (auto simp: bindE_Inr_iff split: if_splits dest: length_pos_ne)

lemma strlen_spec: "0 \<in> set s \<Longrightarrow> strlen s = Inr (length (takeWhile (\<lambda>c. c \<noteq> 0) s))"
  by (induction s) auto

section \<open>Properties\<close>

text \<open>\<open>memmove\<close> copies as if the source had been read completely before the destination is
  written, for overlapping blocks in either direction, when no block wraps around.\<close>

theorem memmove_correct:
  assumes "unat src + unat n < 2 ^ 64" "unat dst + unat n < 2 ^ 64"
  shows "memmove m dst src n = wr m dst (rd m src (unat n))"
  by (rule memmove_wr[OF assms])

theorem memmove_correct_witness:
  "memmove (\<lambda>x. ucast x) 101 100 4 = wr (\<lambda>x. ucast x) 101 [100, 101, 102, 103]"
  using memmove_correct[of 100 4 101 "\<lambda>x. ucast x"] by (simp add: rd_def upt_rec)

text \<open>\<open>strncpy\<close> leaves in the first \<open>n\<close> bytes the string of the source, filled up with zeros,
  and does not touch the rest; \<open>strncmp\<close> then finds the two equal.\<close>

theorem strncpy_strncmp:
  assumes "n \<le> length s" "scannable n t"
  shows "\<exists>r. strncpy s t n = Inr r \<and> length r = length s \<and> drop n r = drop n s \<and> strncmp r t n = Inr 0"
proof -
  let ?r = "cstrn n t @ replicate (n - length (cstrn n t)) 0 @ drop n s"
  have r: "strncpy s t n = Inr ?r" by (rule strncpy_spec[OF assms])
  have l: "length ?r = length s" using assms(1) cstrn_le[of n t] by simp
  have "scannable n ?r" using assms(1) l by (simp add: scannable_def)
  then have "strncmp ?r t n = Inr 0"
    using strncmp_spec[of n ?r t] assms(2) strncpy_cstrn[OF assms r] by auto
  then show ?thesis using r l cstrn_le[of n t] by auto
qed

theorem strncpy_strncmp_witness:
  "\<exists>r. strncpy [9, 9, 9, 9, 9] [65, 66, 0, 7] 4 = Inr r \<and> length r = length [9, 9, 9, 9, 9 :: u8] \<and>
    drop 4 r = drop 4 [9, 9, 9, 9, 9] \<and> strncmp r [65, 66, 0, 7] 4 = Inr 0"
  by (rule strncpy_strncmp) (simp_all add: scannable_def)

text \<open>\<open>safestrcpy\<close> always leaves a terminated string in a destination of \<open>n > 0\<close> bytes and
  keeps its length.\<close>

theorem safestrcpy_terminated:
  assumes "safestrcpy s t n = Inr r" "0 < n" "n \<le> length s"
  shows "0 \<in> set (take n r) \<and> length r = length s"
proof -
  obtain k where "n = Suc k" using assms(2) gr0_conv_Suc by auto
  then show ?thesis using assms(1,3) safestrcpy_loop_terminated[of s t k r] by simp
qed

theorem safestrcpy_terminated_witness:
  "0 \<in> set (take 3 [65, 66, 0 :: u8]) \<and> length [65, 66, 0 :: u8] = length [9, 9, 9 :: u8]"
  by (rule safestrcpy_terminated[of "[9, 9, 9]" "[65, 66, 67, 68]"]) (simp_all add: numeral_3_eq_3)

end
