(* ===== verification/Kalloc.thy ===== *)
theory Kalloc
  imports CString
begin

text \<open>
  The physical page allocator, \<open>kernel/kalloc.c\<close>: a chain of free pages whose links are stored
  in the pages themselves. The state is the byte memory, the head of the chain and the link-time
  symbol \<open>ekernel\<close>; \<open>kmem_wf\<close> relates it to the list of free pages, and the interface locale
  \<open>page_pool\<close> states what the clients (page tables, pipes, user memory) rely on.
\<close>

section \<open>State and operations\<close>

record kmem =
  mem :: bmem
  freelist :: u64
  ekernel :: u64

definition PHYSTOP :: u64 where "PHYSTOP = 0x80000000 + 128 * 1024 * 1024"

definition kfree :: "u64 \<Rightarrow> 'a kmem_scheme \<Rightarrow> 'a kmem_scheme res" where
  "kfree pa s =
     (if pa mod PGSIZE \<noteq> 0 \<or> pa < ekernel s \<or> pa \<ge> PHYSTOP then Inl (Panic ''kfree'')
      else let m = memset (mem s) pa 1 4096;
               m = store64 m pa (freelist s)
           in Inr (s\<lparr>mem := m, freelist := pa\<rparr>))"

definition kalloc :: "'a kmem_scheme \<Rightarrow> u64 \<times> 'a kmem_scheme" where
  "kalloc s =
     (let l = freelist s
      in if l \<noteq> 0
         then (let s = s\<lparr>freelist := load64 (mem s) l\<rparr>
               in (l, s\<lparr>mem := memset (mem s) l 5 4096\<rparr>))
         else (l, s))"

text \<open>
  \<open>for (; p + PGSIZE <= pa_end; p += PGSIZE) kfree(p);\<close> The loop ends because \<open>kfree\<close> panics
  on a page at or above \<open>PHYSTOP\<close>, so that \<open>p\<close> cannot wrap around.
\<close>

lemma kfree_below_PHYSTOP: "kfree p s = Inr s' \<Longrightarrow> unat p < 2281701376"
  by (auto simp: kfree_def PHYSTOP_def word_le_nat_alt split: if_splits)

function freerange_loop :: "u64 \<Rightarrow> u64 \<Rightarrow> 'a kmem_scheme \<Rightarrow> 'a kmem_scheme res" where
  "freerange_loop p pa_end s =
     (if p + PGSIZE \<le> pa_end then bindE (kfree p s) (\<lambda>s. freerange_loop (p + PGSIZE) pa_end s)
      else Inr s)"
  by pat_completeness auto
termination
  by (relation "measure (\<lambda>(p, e, s). 2 ^ 64 - unat p)")
    (auto dest: kfree_below_PHYSTOP simp: unat_word_ariths)

declare freerange_loop.simps [simp del]

definition freerange :: "u64 \<Rightarrow> u64 \<Rightarrow> 'a kmem_scheme \<Rightarrow> 'a kmem_scheme res" where
  "freerange pa_start pa_end s = freerange_loop (PGROUNDUP pa_start) pa_end s"

definition kinit :: "'a kmem_scheme \<Rightarrow> 'a kmem_scheme res" where
  "kinit s = freerange (ekernel s) PHYSTOP (s\<lparr>freelist := 0\<rparr>)"

section \<open>The chain of free pages\<close>

definition page_ok :: "u64 \<Rightarrow> u64 \<Rightarrow> bool" where
  "page_ok ek a \<longleftrightarrow> aligned a \<and> ek \<le> a \<and> a < PHYSTOP"

primrec chain :: "bmem \<Rightarrow> u64 \<Rightarrow> u64 list \<Rightarrow> bool" where
  "chain m p [] \<longleftrightarrow> p = 0"
| "chain m p (a # as) \<longleftrightarrow> p = a \<and> p \<noteq> 0 \<and> chain m (load64 m a) as"

definition kmem_wf :: "'a kmem_scheme \<Rightarrow> u64 list \<Rightarrow> bool" where
  "kmem_wf s fps \<longleftrightarrow> chain (mem s) (freelist s) fps \<and> distinct fps \<and>
     (\<forall>a \<in> set fps. page_ok (ekernel s) a) \<and> 0 < ekernel s"

lemma page_ok_aligned [dest]: "page_ok ek a \<Longrightarrow> aligned a"
  by (simp add: page_ok_def)

lemma page_ok_nonzero: "page_ok ek a \<Longrightarrow> 0 < ek \<Longrightarrow> a \<noteq> 0"
  by (auto simp: page_ok_def)

lemma chain_same_off:
  "chain m p as \<Longrightarrow> same_off P m m' \<Longrightarrow> set as \<inter> P = {} \<Longrightarrow> (\<forall>a \<in> set as. aligned a) \<Longrightarrow> chain m' p as"
proof (induction as arbitrary: p)
  case (Cons a as)
  then have "load64 m' a = load64 m a"
    by (intro load64_same_off0) auto
  with Cons show ?case by auto
qed simp

lemma chain_unique: "chain m p as \<Longrightarrow> chain m p bs \<Longrightarrow> as = bs"
proof (induction as arbitrary: p bs)
  case Nil
  then show ?case by (cases bs) auto
next
  case (Cons a as)
  then show ?case by (cases bs) auto
qed

lemma memset_same_off: "aligned a \<Longrightarrow> same_off {a} m (memset m a c 4096)"
  unfolding memset_wr by (rule wr_same_off0) simp_all

lemma memset_filled: "filled (memset m a c 4096) a (ucast c)"
proof -
  have "wr m a (replicate 4096 (ucast c)) (a + of_nat k) = ucast c" if "k < 4096" for k
    using that by (subst wr_in) simp_all
  then show ?thesis
    unfolding filled_def memset_wr by simp
qed

lemma kfree_ok:
  assumes "kmem_wf s fps" "page_ok (ekernel s) a" "a \<notin> set fps"
  obtains s' where "kfree a s = Inr s'" "kmem_wf s' (a # fps)" "same_off {a} (mem s) (mem s')"
    "ekernel s' = ekernel s"
proof -
  let ?m1 = "memset (mem s) a 1 4096"
  let ?m2 = "store64 ?m1 a (freelist s)"
  let ?s = "s\<lparr>mem := ?m2, freelist := a\<rparr>"
  have al: "aligned a" using assms(2) by auto
  have off: "same_off {a} (mem s) ?m2"
    using same_off_trans[OF memset_same_off[OF al] store64_same_off0[OF al]] by blast
  have "kfree a s = Inr ?s"
    using assms(2) by (auto simp: kfree_def page_ok_def aligned_def Let_def not_less not_le)
  moreover have "chain ?m2 (freelist s) fps"
    using assms by (intro chain_same_off[OF _ off]) (auto simp: kmem_wf_def)
  then have "kmem_wf ?s (a # fps)"
    using assms by (auto simp: kmem_wf_def load64_store64 dest: page_ok_nonzero)
  ultimately show thesis using off that by simp
qed

lemma kfree_panics:
  "\<not> page_ok (ekernel s) a \<longleftrightarrow> kfree a s = Inl (Panic ''kfree'')"
  by (auto simp: kfree_def page_ok_def aligned_def Let_def)

lemma kalloc_Cons:
  assumes "kmem_wf s (a # fps)"
  obtains s' where "kalloc s = (a, s')" "kmem_wf s' fps" "same_off {a} (mem s) (mem s')"
    "filled (mem s') a 5" "ekernel s' = ekernel s"
proof -
  let ?m = "memset (mem s) a 5 4096"
  let ?s = "s\<lparr>freelist := load64 (mem s) a, mem := ?m\<rparr>"
  have al: "aligned a" using assms by (auto simp: kmem_wf_def)
  have h: "freelist s = a" "a \<noteq> 0" using assms by (auto simp: kmem_wf_def)
  have "kalloc s = (a, ?s)"
    using h by (simp add: kalloc_def Let_def)
  moreover have "chain ?m (load64 (mem s) a) fps"
    using assms by (intro chain_same_off[OF _ memset_same_off[OF al]]) (auto simp: kmem_wf_def)
  then have "kmem_wf ?s fps" using assms by (simp add: kmem_wf_def)
  moreover have "filled ?m a 5"
    using memset_filled[of "mem s" a 5] by simp
  ultimately show thesis using memset_same_off[OF al] that by simp
qed

lemma kalloc_Nil: "kmem_wf s [] \<Longrightarrow> kalloc s = (0, s)"
  by (simp add: kmem_wf_def kalloc_def)

lemma kmem_wf_unique: "kmem_wf s as \<Longrightarrow> kmem_wf s bs \<Longrightarrow> as = bs"
  by (auto simp: kmem_wf_def dest: chain_unique)

section \<open>Initialisation\<close>

lemma unat_PHYSTOP: "unat PHYSTOP = 2281701376"
  by (simp add: PHYSTOP_def)

lemma freerange_loop_ok:
  assumes "kmem_wf s fps" "aligned p" "ekernel s \<le> p" "\<forall>a \<in> set fps. a < p"
    and "unat p + 4096 * n = unat PHYSTOP"
  shows "\<exists>s'. freerange_loop p PHYSTOP s = Inr s' \<and> ekernel s' = ekernel s \<and>
    kmem_wf s' (rev (map (\<lambda>i. p + of_nat (4096 * i)) [0..<n]) @ fps)"
  using assms
proof (induction n arbitrary: s fps p)
  case 0
  then have "p = PHYSTOP" by (simp add: word_unat_eq_iff)
  then have "freerange_loop p PHYSTOP s = Inr s"
    by (subst freerange_loop.simps) (simp add: PHYSTOP_def)
  then show ?case using 0(1) by simp
next
  case (Suc n)
  have lt: "unat p + 4096 \<le> unat PHYSTOP" using Suc.prems(5) by simp
  have up: "unat (p + 4096) = unat p + 4096"
    using lt by (simp add: unat_word_ariths unat_PHYSTOP)
  have "page_ok (ekernel s) p"
    using Suc.prems lt by (auto simp: page_ok_def word_less_nat_alt)
  moreover have "p \<notin> set fps" using Suc.prems(4) by auto
  ultimately obtain s1 where s1: "kfree p s = Inr s1" "kmem_wf s1 (p # fps)" "ekernel s1 = ekernel s"
    using Suc.prems(1) by (rule_tac kfree_ok) auto
  have "\<exists>s'. freerange_loop (p + 4096) PHYSTOP s1 = Inr s' \<and> ekernel s' = ekernel s1 \<and>
      kmem_wf s' (rev (map (\<lambda>i. p + 4096 + of_nat (4096 * i)) [0..<n]) @ p # fps)"
  proof (rule Suc.IH[OF s1(2)])
    show "aligned (p + 4096)" using Suc.prems(2) up by (simp add: aligned_unat mod_simps)
    show "ekernel s1 \<le> p + 4096"
      using Suc.prems(3) s1(3) up by (simp add: word_le_nat_alt)
    show "\<forall>a\<in>set (p # fps). a < p + 4096"
      using Suc.prems(4) up by (auto simp: word_less_nat_alt)
    show "unat (p + 4096) + 4096 * n = unat PHYSTOP" using Suc.prems(5) up by simp
  qed
  moreover have "freerange_loop p PHYSTOP s = freerange_loop (p + 4096) PHYSTOP s1"
    using up lt s1(1) by (subst freerange_loop.simps) (simp add: word_le_nat_alt)
  moreover have "rev (map (\<lambda>i. p + of_nat (4096 * i)) [0..<Suc n]) @ fps
    = rev (map (\<lambda>i. p + 4096 + of_nat (4096 * i)) [0..<n]) @ p # fps"
    by (simp add: upt_conv_Cons map_Suc_upt[symmetric] algebra_simps del: upt_Suc)
  ultimately show ?case using s1(3) by simp
qed

lemma unat_PGROUNDUP:
  assumes "unat a + 4095 < 2 ^ 64"
  shows "unat (PGROUNDUP a) = (unat a + 4095) div 4096 * 4096"
proof -
  have "PGROUNDUP a = PGROUNDDOWN (a + 4095)"
    by (simp add: PGROUNDUP_def PGROUNDDOWN_def add.commute)
  moreover have "unat (a + 4095) = unat a + 4095"
    using assms by (simp add: unat_word_ariths)
  ultimately show ?thesis by (simp add: unat_PGROUNDDOWN)
qed

lemma aligned_PGROUNDUP [simp]: "aligned (PGROUNDUP a)"
  using aligned_PGROUNDDOWN[of "a + 4096 - 1"]
  by (simp add: PGROUNDUP_def PGROUNDDOWN_def add.commute)

definition kinit_pages :: "u64 \<Rightarrow> u64 list" where
  "kinit_pages ek = rev (map (\<lambda>i. PGROUNDUP ek + of_nat (4096 * i))
     [0..<(unat PHYSTOP - unat (PGROUNDUP ek)) div 4096])"

lemma kinit_ok:
  assumes "0 < ekernel s" "ekernel s \<le> PHYSTOP"
  obtains s' where "kinit s = Inr s'" "kmem_wf s' (kinit_pages (ekernel s))" "ekernel s' = ekernel s"
proof -
  let ?p = "PGROUNDUP (ekernel s)"
  let ?n = "(unat PHYSTOP - unat ?p) div 4096"
  have le: "unat (ekernel s) \<le> 2281701376"
    using assms(2) by (simp add: word_le_nat_alt unat_PHYSTOP)
  have up: "unat ?p = (unat (ekernel s) + 4095) div 4096 * 4096"
    by (rule unat_PGROUNDUP) (use le in simp)
  have "unat ?p \<le> unat PHYSTOP"
  proof -
    have "(unat (ekernel s) + 4095) div 4096 \<le> (2281701376 + 4095) div 4096"
      using le by (intro div_le_mono) simp
    then show ?thesis using up by (simp add: unat_PHYSTOP)
  qed
  then have n: "unat ?p + 4096 * ?n = unat PHYSTOP"
    using up by (simp add: unat_PHYSTOP)
  have ge: "ekernel s \<le> ?p" using up by (simp add: word_le_nat_alt)
  have "\<exists>s'. freerange_loop ?p PHYSTOP (s\<lparr>freelist := 0\<rparr>) = Inr s' \<and>
      ekernel s' = ekernel (s\<lparr>freelist := 0\<rparr>) \<and>
      kmem_wf s' (rev (map (\<lambda>i. ?p + of_nat (4096 * i)) [0..<?n]) @ [])"
    by (rule freerange_loop_ok) (use assms(1) ge n in \<open>auto simp: kmem_wf_def\<close>)
  then show thesis
    using that by (auto simp: kinit_def freerange_def kinit_pages_def)
qed

section \<open>The interface the clients of the allocator rely on\<close>

primrec alloc_many :: "('s \<Rightarrow> u64 \<times> 's) \<Rightarrow> nat \<Rightarrow> 's \<Rightarrow> u64 list \<times> 's" where
  "alloc_many al 0 s = ([], s)"
| "alloc_many al (Suc n) s =
     (case al s of (a, s) \<Rightarrow> case alloc_many al n s of (as, s) \<Rightarrow> (a # as, s))"

locale page_pool =
  fixes alloc :: "'s \<Rightarrow> u64 \<times> 's"
    and free :: "u64 \<Rightarrow> 's \<Rightarrow> 's res"
    and memory :: "'s \<Rightarrow> bmem"
    and valid :: "'s \<Rightarrow> u64 \<Rightarrow> bool"
    and pool :: "'s \<Rightarrow> u64 list \<Rightarrow> bool"
  assumes alloc_Cons: "pool s (a # fps) \<Longrightarrow> \<exists>s'. alloc s = (a, s') \<and> pool s' fps \<and>
      same_off {a} (memory s) (memory s') \<and> valid s' = valid s"
    and alloc_Nil: "pool s [] \<Longrightarrow> alloc s = (0, s)"
    and free_ok: "pool s fps \<Longrightarrow> valid s a \<Longrightarrow> a \<notin> set fps \<Longrightarrow> \<exists>s'. free a s = Inr s' \<and>
      pool s' (a # fps) \<and> same_off {a} (memory s) (memory s') \<and> valid s' = valid s"
    and pool_valid: "pool s fps \<Longrightarrow> a \<in> set fps \<Longrightarrow> valid s a \<and> a \<noteq> 0"
    and pool_distinct: "pool s fps \<Longrightarrow> distinct fps"
begin

lemma alloc_cases:
  assumes "pool s fps"
  obtains (empty) "fps = []" "alloc s = (0, s)"
  | (page) a rest s' where "fps = a # rest" "alloc s = (a, s')" "pool s' rest" "a \<noteq> 0" "valid s a"
      "a \<notin> set rest" "same_off {a} (memory s) (memory s')" "valid s' = valid s"
proof (cases fps)
  case Nil
  then show thesis using assms alloc_Nil empty by blast
next
  case (Cons a rest)
  then show thesis
    using assms alloc_Cons[of s a rest] pool_valid[of s fps a] pool_distinct[of s fps] page by auto
qed

lemma alloc_0_iff: "pool s fps \<Longrightarrow> fst (alloc s) = 0 \<longleftrightarrow> fps = []"
  by (erule alloc_cases) auto

lemma free_alloc:
  assumes "pool s fps" "valid s a" "a \<notin> set fps"
  shows "\<exists>s1 s2. free a s = Inr s1 \<and> alloc s1 = (a, s2) \<and> pool s2 fps \<and>
    same_off {a} (memory s) (memory s2)"
proof -
  obtain s1 where s1: "free a s = Inr s1" "pool s1 (a # fps)" "same_off {a} (memory s) (memory s1)"
    using free_ok[OF assms] by blast
  moreover obtain s2 where "alloc s1 = (a, s2)" "pool s2 fps" "same_off {a} (memory s1) (memory s2)"
    using alloc_Cons[OF s1(2)] by blast
  ultimately show ?thesis using same_off_trans[OF s1(3)] by blast
qed

lemma alloc_free:
  assumes "pool s fps" "alloc s = (a, s1)" "a \<noteq> 0"
  shows "\<exists>s2. free a s1 = Inr s2 \<and> pool s2 fps \<and> same_off {a} (memory s) (memory s2)"
  using assms(1)
proof (cases rule: alloc_cases)
  case (page a' rest s')
  then have eq: "a' = a" "s' = s1" using assms(2) by simp_all
  then obtain s2 where "free a s1 = Inr s2" "pool s2 (a # rest)" "same_off {a} (memory s1) (memory s2)"
    using page free_ok[of s1 rest a] by auto
  then show ?thesis using page eq same_off_trans[of "{a}" "memory s" "memory s1"] by blast
qed (use assms in simp)

lemma alloc_many_ok:
  "pool s fps \<Longrightarrow> n \<le> length fps \<Longrightarrow>
   \<exists>s'. alloc_many alloc n s = (take n fps, s') \<and> pool s' (drop n fps) \<and>
     same_off (set (take n fps)) (memory s) (memory s')"
proof (induction n arbitrary: s fps)
  case (Suc n)
  then obtain a rest where fps: "fps = a # rest" by (cases fps) auto
  obtain s1 where s1: "alloc s = (a, s1)" "pool s1 rest" "same_off {a} (memory s) (memory s1)"
    using alloc_Cons[of s a rest] Suc.prems(1) fps by blast
  obtain s2 where s2: "alloc_many alloc n s1 = (take n rest, s2)" "pool s2 (drop n rest)"
      "same_off (set (take n rest)) (memory s1) (memory s2)"
    using Suc.IH[OF s1(2)] Suc.prems(2) fps by auto
  have "same_off (set (take (Suc n) fps)) (memory s) (memory s2)"
    by (rule same_off_trans[OF s1(3) s2(3)]) (simp add: fps)
  moreover have "alloc_many alloc (Suc n) s = (take (Suc n) fps, s2)"
    by (simp add: s1(1) s2(1) fps)
  ultimately show ?case using s2(2) fps by auto
qed simp

end

interpretation kmem: page_pool kalloc kfree mem "\<lambda>s. page_ok (ekernel s)" kmem_wf
proof (unfold_locales, goal_cases)
  case (1 s a fps)
  then show ?case by (rule kalloc_Cons) auto
next
  case (2 s)
  then show ?case by (rule kalloc_Nil)
next
  case (3 s fps a)
  then show ?case by (rule kfree_ok) auto
next
  case (4 s fps a)
  then show ?case by (auto simp: kmem_wf_def dest: page_ok_nonzero)
next
  case (5 s fps)
  then show ?case by (simp add: kmem_wf_def)
qed

section \<open>Properties\<close>

text \<open>\<open>kinit\<close> puts every whole page between the end of the kernel and the top of memory on
  the free list, each once, and never panics.\<close>

theorem kinit_correct:
  assumes "0 < ekernel s" "ekernel s \<le> PHYSTOP"
  shows "\<exists>s'. kinit s = Inr s' \<and> kmem_wf s' (kinit_pages (ekernel s)) \<and> ekernel s' = ekernel s"
  by (rule kinit_ok[OF assms]) blast

theorem kinit_correct_witness:
  "\<exists>s'. kinit \<lparr>mem = (\<lambda>_. 0), freelist = 0, ekernel = 0x87ffe001\<rparr> = Inr s' \<and>
     kmem_wf s' (kinit_pages 0x87ffe001) \<and> ekernel s' = 0x87ffe001"
  using kinit_correct[of "\<lparr>mem = (\<lambda>_. 0), freelist = 0, ekernel = 0x87ffe001\<rparr>"]
  by (simp add: PHYSTOP_def)

text \<open>\<open>n\<close> calls of \<open>kalloc\<close> hand out \<open>n\<close> different pages of the pool, all valid and none of
  them still free, and write to no other page.\<close>

theorem kalloc_distinct:
  assumes "kmem_wf s fps" "n \<le> length fps"
  shows "\<exists>as s'. alloc_many kalloc n s = (as, s') \<and> length as = n \<and> distinct as \<and>
    (\<forall>a \<in> set as. a \<noteq> 0 \<and> page_ok (ekernel s) a) \<and> kmem_wf s' (drop n fps) \<and>
    set as \<inter> set (drop n fps) = {} \<and> same_off (set as) (mem s) (mem s')"
proof -
  obtain s' where s': "alloc_many kalloc n s = (take n fps, s')" "kmem_wf s' (drop n fps)"
    "same_off (set (take n fps)) (mem s) (mem s')"
    using kmem.alloc_many_ok[OF assms] by blast
  have "distinct (take n fps @ drop n fps)" using kmem.pool_distinct[OF assms(1)] by simp
  then have "distinct (take n fps)" "set (take n fps) \<inter> set (drop n fps) = {}"
    by (simp_all only: distinct_append)
  moreover have "a \<noteq> 0 \<and> page_ok (ekernel s) a" if "a \<in> set (take n fps)" for a
    using kmem.pool_valid[OF assms(1)] in_set_takeD[OF that] by blast
  ultimately show ?thesis using s' assms(2)
    by (intro exI[of _ "take n fps"] exI[of _ s']) (auto simp: min_def)
qed

theorem kalloc_distinct_witness:
  "\<exists>(s :: kmem) fps as s'. kmem_wf s fps \<and> alloc_many kalloc 2 s = (as, s') \<and> length as = 2 \<and> distinct as"
proof -
  let ?s = "\<lparr>mem = (\<lambda>_. 0), freelist = 0, ekernel = 0x80200000\<rparr>"
  have "\<exists>s'. freerange_loop 0x87ffc000 PHYSTOP ?s = Inr s' \<and> ekernel s' = ekernel ?s \<and>
      kmem_wf s' (rev (map (\<lambda>i. 0x87ffc000 + of_nat (4096 * i)) [0..<4]) @ [])"
    by (rule freerange_loop_ok) (simp_all add: kmem_wf_def aligned_def unat_PHYSTOP)
  then obtain s :: kmem where s: "kmem_wf s (rev (map (\<lambda>i. 0x87ffc000 + of_nat (4096 * i)) [0..<4]) @ [])" by blast
  then show ?thesis using kalloc_distinct[OF s, of 2] by (auto simp del: append_Nil2)
qed

text \<open>Freeing a page and allocating again returns that page and leaves the pool as it was;
  pages that are not whole pages of the pool's range are refused by a panic.\<close>

theorem kfree_kalloc:
  assumes "kmem_wf s fps" "a \<notin> set fps"
  shows "if page_ok (ekernel s) a
    then \<exists>s1 s2. kfree a s = Inr s1 \<and> kalloc s1 = (a, s2) \<and> kmem_wf s2 fps \<and> same_off {a} (mem s) (mem s2)
    else kfree a s = Inl (Panic ''kfree'')"
  using kmem.free_alloc[OF assms(1) _ assms(2)] kfree_panics[of s a] by auto

theorem kfree_kalloc_witness:
  "(\<exists>s1 s2. kfree 0x87000000 \<lparr>mem = (\<lambda>_. 0), freelist = 0, ekernel = 0x80200000\<rparr> = Inr s1 \<and>
      kalloc s1 = (0x87000000, s2)) \<and>
   kfree 0x87000008 \<lparr>mem = (\<lambda>_. 0), freelist = 0, ekernel = 0x80200000\<rparr> = Inl (Panic ''kfree'')"
  using kfree_kalloc[of "\<lparr>mem = (\<lambda>_. 0), freelist = 0, ekernel = 0x80200000\<rparr>" "[]" "0x87000000"]
    kfree_kalloc[of "\<lparr>mem = (\<lambda>_. 0), freelist = 0, ekernel = 0x80200000\<rparr>" "[]" "0x87000008"]
  by (auto simp: kmem_wf_def page_ok_def aligned_def PHYSTOP_def)

end
