(* ===== verification/Vm.thy ===== *)
theory Vm
  imports Kalloc
begin

text \<open>
  Sv39 page tables and the transfers between user and kernel memory, \<open>kernel/vm.c\<close> with the
  address macros of \<open>kernel/riscv.h\<close> and \<open>kernel/memory_layout.h\<close>. Page tables live in the
  byte memory; \<open>walk\<close>, \<open>mappages\<close> and the others read and write their 64-bit entries there.
\<close>

section \<open>Addresses and page-table entries\<close>

abbreviation (input) PTE_V :: u64 where "PTE_V \<equiv> 1"
abbreviation (input) PTE_R :: u64 where "PTE_R \<equiv> 2"
abbreviation (input) PTE_W :: u64 where "PTE_W \<equiv> 4"
abbreviation (input) PTE_X :: u64 where "PTE_X \<equiv> 8"
abbreviation (input) PTE_U :: u64 where "PTE_U \<equiv> 16"

definition PA2PTE :: "u64 \<Rightarrow> u64" where
  "PA2PTE pa = push_bit 10 (drop_bit 12 pa)"

definition PTE2PA :: "u64 \<Rightarrow> u64" where
  "PTE2PA pte = push_bit 12 (drop_bit 10 pte)"

definition PTE_FLAGS :: "u64 \<Rightarrow> u64" where
  "PTE_FLAGS pte = pte AND 0x3FF"

definition PXSHIFT :: "nat \<Rightarrow> nat" where
  "PXSHIFT level = 12 + 9 * level"

definition PX :: "nat \<Rightarrow> u64 \<Rightarrow> u64" where
  "PX level va = drop_bit (PXSHIFT level) va AND 0x1FF"

definition MAXVA :: u64 where "MAXVA = push_bit (9 + 9 + 9 + 12 - 1) 1"

definition TRAMPOLINE :: u64 where "TRAMPOLINE = MAXVA - PGSIZE"

definition TRAPFRAME :: u64 where "TRAPFRAME = TRAMPOLINE - PGSIZE"

definition KERNBASE :: u64 where "KERNBASE = 0x80200000"

definition VIRTIO0 :: u64 where "VIRTIO0 = 0x10001000"

definition PLIC :: u64 where "PLIC = 0x0c000000"

section \<open>Walking and editing a page table\<close>

text \<open>
  The loop of \<open>walk\<close> over levels 2 and 1; the pointer it returns is the address of an entry,
  or 0. Only \<open>alloc\<close> makes it change the state.
\<close>

fun walk_loop :: "nat \<Rightarrow> u64 \<Rightarrow> u64 \<Rightarrow> bool \<Rightarrow> 'a kmem_scheme \<Rightarrow> u64 \<times> 'a kmem_scheme" where
  "walk_loop 0 pagetable va alloc s = (pagetable + 8 * PX 0 va, s)"
| "walk_loop (Suc l) pagetable va alloc s =
     (let pte = pagetable + 8 * PX (Suc l) va;
          e = load64 (mem s) pte
      in if e AND PTE_V \<noteq> 0 then walk_loop l (PTE2PA e) va alloc s
         else if \<not> alloc then (0, s)
         else (case kalloc s of (pg, s) \<Rightarrow>
           if pg = 0 then (0, s)
           else let s = s\<lparr>mem := memset (mem s) pg 0 4096\<rparr>;
                    s = s\<lparr>mem := store64 (mem s) pte (PA2PTE pg OR PTE_V)\<rparr>
                in walk_loop l pg va alloc s))"

definition walk :: "u64 \<Rightarrow> u64 \<Rightarrow> bool \<Rightarrow> 'a kmem_scheme \<Rightarrow> (u64 \<times> 'a kmem_scheme) res" where
  "walk pagetable va alloc s =
     (if va \<ge> MAXVA then Inl (Panic ''walk'') else Inr (walk_loop 2 pagetable va alloc s))"

definition walkaddr :: "u64 \<Rightarrow> u64 \<Rightarrow> 'a kmem_scheme \<Rightarrow> u64 res" where
  "walkaddr pagetable va s =
     (if va \<ge> MAXVA then Inr 0
      else bindE (walk pagetable va False s) (\<lambda>(pte, s).
        if pte = 0 then Inr 0
        else if load64 (mem s) pte AND PTE_V = 0 then Inr 0
        else if load64 (mem s) pte AND PTE_U = 0 then Inr 0
        else Inr (PTE2PA (load64 (mem s) pte))))"

definition useraddr :: "u64 \<Rightarrow> u64 \<Rightarrow> 'a kmem_scheme \<Rightarrow> u64 res" where
  "useraddr pagetable va s =
     bindE (walkaddr pagetable va s) (\<lambda>pa. Inr (pa OR (va AND 0xFFF)))"

lemma walk_below_MAXVA: "walk pt va al s = Inr r \<Longrightarrow> unat va < 274877906944"
  by (auto simp: walk_def MAXVA_def word_le_nat_alt split: if_splits)

function mappages_loop ::
  "u64 \<Rightarrow> u64 \<Rightarrow> u64 \<Rightarrow> u64 \<Rightarrow> u64 \<Rightarrow> 'a kmem_scheme \<Rightarrow> (int \<times> 'a kmem_scheme) res" where
  "mappages_loop pagetable a lst pa perm s =
     bindE (walk pagetable a True s) (\<lambda>(pte, s).
       if pte = 0 then Inr (-1, s)
       else if load64 (mem s) pte AND PTE_V \<noteq> 0 then Inr (-1, s)
       else let s = s\<lparr>mem := store64 (mem s) pte (PA2PTE pa OR perm OR PTE_V)\<rparr>
            in if a = lst then Inr (0, s)
               else mappages_loop pagetable (a + PGSIZE) lst (pa + PGSIZE) perm s)"
  by pat_completeness auto
termination
  by (relation "measure (\<lambda>(pt, a, lst, pa, perm, s). 2 ^ 64 - unat a)")
    (auto dest!: walk_below_MAXVA simp: unat_word_ariths)

declare mappages_loop.simps [simp del]

text \<open>\<open>perm\<close> is a C \<open>int\<close>, widened when it is combined with the 64-bit entry.\<close>

definition mappages ::
  "u64 \<Rightarrow> u64 \<Rightarrow> u64 \<Rightarrow> u64 \<Rightarrow> u32 \<Rightarrow> 'a kmem_scheme \<Rightarrow> (int \<times> 'a kmem_scheme) res" where
  "mappages pagetable va sz pa perm s =
     mappages_loop pagetable (PGROUNDDOWN va) (PGROUNDDOWN (va + sz - 1)) pa (scast perm) s"

definition kvmmap ::
  "u64 \<Rightarrow> u64 \<Rightarrow> u64 \<Rightarrow> u64 \<Rightarrow> u32 \<Rightarrow> 'a kmem_scheme \<Rightarrow> 'a kmem_scheme res" where
  "kvmmap kpgtbl va pa sz perm s =
     bindE (mappages kpgtbl va sz pa perm s) (\<lambda>(r, s).
       if r \<noteq> 0 then Inl (Panic ''kvmmap'') else Inr s)"

text \<open>\<open>e_text\<close> and \<open>trampoline\<close> are addresses fixed by the linker. \<open>kalloc\<close> is not checked.\<close>

definition kvmmake :: "u64 \<Rightarrow> u64 \<Rightarrow> 'a kmem_scheme \<Rightarrow> (u64 \<times> 'a kmem_scheme) res" where
  "kvmmake e_text trampoline s =
     (case kalloc s of (kpgtbl, s) \<Rightarrow>
        let s = s\<lparr>mem := memset (mem s) kpgtbl 0 4096\<rparr>
        in bindE (kvmmap kpgtbl VIRTIO0 VIRTIO0 PGSIZE (2 OR 4) s) (\<lambda>s.
           bindE (kvmmap kpgtbl PLIC PLIC 0x400000 (2 OR 4) s) (\<lambda>s.
           bindE (kvmmap kpgtbl KERNBASE KERNBASE (e_text - KERNBASE) (2 OR 8) s) (\<lambda>s.
           bindE (kvmmap kpgtbl e_text e_text (PHYSTOP - e_text) (2 OR 4) s) (\<lambda>s.
           bindE (kvmmap kpgtbl TRAMPOLINE trampoline PGSIZE (2 OR 8) s) (\<lambda>s.
           Inr (kpgtbl, s)))))))"

function uvmunmap_loop :: "u64 \<Rightarrow> u64 \<Rightarrow> u64 \<Rightarrow> bool \<Rightarrow> 'a kmem_scheme \<Rightarrow> 'a kmem_scheme res" where
  "uvmunmap_loop pagetable a lst do_free s =
     (if a < lst
      then bindE (walk pagetable a False s) (\<lambda>(pte, s).
        if pte = 0 then Inl (Panic ''uvmunmap: walk'')
        else if load64 (mem s) pte AND PTE_V = 0 then Inl (Panic ''uvmunmap: not mapped'')
        else if PTE_FLAGS (load64 (mem s) pte) = PTE_V then Inl (Panic ''uvmunmap: not a leaf'')
        else bindE (if do_free then kfree (PTE2PA (load64 (mem s) pte)) s else Inr s) (\<lambda>s.
          uvmunmap_loop pagetable (a + PGSIZE) lst do_free (s\<lparr>mem := store64 (mem s) pte 0\<rparr>)))
      else Inr s)"
  by pat_completeness auto
termination
  by (relation "measure (\<lambda>(pt, a, lst, fr, s). 2 ^ 64 - unat a)")
    (auto dest!: walk_below_MAXVA simp: unat_word_ariths)

declare uvmunmap_loop.simps [simp del]

definition uvmunmap :: "u64 \<Rightarrow> u64 \<Rightarrow> u64 \<Rightarrow> bool \<Rightarrow> 'a kmem_scheme \<Rightarrow> 'a kmem_scheme res" where
  "uvmunmap pagetable va npages do_free s =
     (if va mod PGSIZE \<noteq> 0 then Inl (Panic ''uvmunmap: not aligned'')
      else uvmunmap_loop pagetable va (va + npages * PGSIZE) do_free s)"

definition uvmcreate :: "'a kmem_scheme \<Rightarrow> u64 \<times> 'a kmem_scheme" where
  "uvmcreate s =
     (case kalloc s of (pagetable, s) \<Rightarrow>
        if pagetable = 0 then (0, s)
        else (pagetable, s\<lparr>mem := memset (mem s) pagetable 0 4096\<rparr>))"

text \<open>\<open>npages\<close> is a C \<open>int\<close>, widened to 64 bits in the call.\<close>

definition uvmdealloc :: "u64 \<Rightarrow> u64 \<Rightarrow> u64 \<Rightarrow> 'a kmem_scheme \<Rightarrow> (u64 \<times> 'a kmem_scheme) res" where
  "uvmdealloc pagetable oldsz newsz s =
     (if newsz \<ge> oldsz then Inr (oldsz, s)
      else bindE
        (if PGROUNDUP newsz < PGROUNDUP oldsz
         then let npages = ucast ((PGROUNDUP oldsz - PGROUNDUP newsz) div PGSIZE) :: u32
              in uvmunmap pagetable (PGROUNDUP newsz) (scast npages) True s
         else Inr s)
        (\<lambda>s. Inr (newsz, s)))"

lemma mappages_below_MAXVA:
  assumes "mappages pt va sz pa perm s = Inr r"
  shows "unat va < 274877906944 + 4096"
proof -
  have "unat (PGROUNDDOWN va) < 274877906944"
    using assms unfolding mappages_def
    by (subst (asm) mappages_loop.simps) (auto simp: bindE_Inr_iff dest: walk_below_MAXVA)
  then show ?thesis by (simp add: unat_PGROUNDDOWN)
qed

function uvmalloc_loop ::
  "u64 \<Rightarrow> u64 \<Rightarrow> u64 \<Rightarrow> u64 \<Rightarrow> 'a kmem_scheme \<Rightarrow> (u64 \<times> 'a kmem_scheme) res" where
  "uvmalloc_loop pagetable oldsz a newsz s =
     (if a < newsz
      then (case kalloc s of (m, s) \<Rightarrow>
        if m = 0
        then bindE (uvmdealloc pagetable a oldsz s) (\<lambda>(_, s). Inr (0, s))
        else let s = s\<lparr>mem := memset (mem s) m 0 4096\<rparr>
             in bindE (mappages pagetable a PGSIZE m (4 OR 8 OR 2 OR 16) s) (\<lambda>(r, s).
               if r \<noteq> 0
               then bindE (kfree m s) (\<lambda>s.
                    bindE (uvmdealloc pagetable a oldsz s) (\<lambda>(_, s). Inr (0, s)))
               else uvmalloc_loop pagetable oldsz (a + PGSIZE) newsz s))
      else Inr (newsz, s))"
  by pat_completeness auto
termination
  by (relation "measure (\<lambda>(pt, oldsz, a, newsz, s). 2 ^ 64 - unat a)")
    (auto dest!: mappages_below_MAXVA simp: unat_word_ariths)

declare uvmalloc_loop.simps [simp del]

definition uvmalloc :: "u64 \<Rightarrow> u64 \<Rightarrow> u64 \<Rightarrow> 'a kmem_scheme \<Rightarrow> (u64 \<times> 'a kmem_scheme) res" where
  "uvmalloc pagetable oldsz newsz s =
     (if newsz < oldsz then Inr (oldsz, s)
      else uvmalloc_loop pagetable (PGROUNDUP oldsz) (PGROUNDUP oldsz) newsz s)"

text \<open>
  \<open>freewalk\<close> recurses through the tree it finds in memory. The depth argument bounds the
  recursion (a table of tables of tables has depth 2); a deeper chain is the stack overflow of
  the C code. The loop runs over the 512 entries, \<open>k\<close> of them to go.
\<close>

fun freewalk_loop :: "nat \<Rightarrow> nat \<Rightarrow> u64 \<Rightarrow> 'a kmem_scheme \<Rightarrow> 'a kmem_scheme res" where
  "freewalk_loop d 0 pagetable s = Inr s"
| "freewalk_loop 0 (Suc k) pagetable s =
     (let pte = load64 (mem s) (pagetable + 8 * of_nat (512 - Suc k))
      in if pte AND PTE_V \<noteq> 0 \<and> pte AND (2 OR 4 OR 8) = 0
         then Inl (Wild ''freewalk: depth'')
         else freewalk_loop 0 k pagetable s)"
| "freewalk_loop (Suc d) (Suc k) pagetable s =
     (let a = pagetable + 8 * of_nat (512 - Suc k); pte = load64 (mem s) a
      in if pte AND PTE_V \<noteq> 0 \<and> pte AND (2 OR 4 OR 8) = 0
         then bindE (freewalk_loop d 512 (PTE2PA pte) s) (\<lambda>s.
              bindE (kfree (PTE2PA pte) s) (\<lambda>s.
              freewalk_loop (Suc d) k pagetable (s\<lparr>mem := store64 (mem s) a 0\<rparr>)))
         else freewalk_loop (Suc d) k pagetable s)"

definition freewalk :: "nat \<Rightarrow> u64 \<Rightarrow> 'a kmem_scheme \<Rightarrow> 'a kmem_scheme res" where
  "freewalk d pagetable s = bindE (freewalk_loop d 512 pagetable s) (kfree pagetable)"

definition uvmfree :: "u64 \<Rightarrow> u64 \<Rightarrow> 'a kmem_scheme \<Rightarrow> 'a kmem_scheme res" where
  "uvmfree pagetable sz s =
     bindE (if sz > 0 then uvmunmap pagetable 0 (PGROUNDUP sz div PGSIZE) True s else Inr s)
       (freewalk 2 pagetable)"

definition uvmclear :: "u64 \<Rightarrow> u64 \<Rightarrow> 'a kmem_scheme \<Rightarrow> 'a kmem_scheme res" where
  "uvmclear pagetable va s =
     bindE (walk pagetable va False s) (\<lambda>(pte, s).
       if pte = 0 then Inl (Panic ''uvmclear'')
       else Inr (s\<lparr>mem := store64 (mem s) pte (load64 (mem s) pte AND NOT PTE_U)\<rparr>))"

text \<open>\<open>flags\<close> is a C \<open>uint\<close>; the copy of the page is one \<open>memmove\<close> of 4096 bytes.\<close>

function uvmcopy_loop ::
  "u64 \<Rightarrow> u64 \<Rightarrow> u64 \<Rightarrow> u64 \<Rightarrow> 'a kmem_scheme \<Rightarrow> (int \<times> 'a kmem_scheme) res" where
  "uvmcopy_loop old new i sz s =
     (if i < sz
      then bindE (walk old i False s) (\<lambda>(pte, s).
        if pte = 0 then Inl (Panic ''uvmcopy: pte should exist'')
        else let e = load64 (mem s) pte
        in if e AND PTE_V = 0 then Inl (Panic ''uvmcopy: page not present'')
        else let pa = PTE2PA e; flags = ucast (PTE_FLAGS e)
        in case kalloc s of (m, s) \<Rightarrow>
          if m = 0 then bindE (uvmunmap new 0 (i div PGSIZE) True s) (\<lambda>s. Inr (-1, s))
          else let s = s\<lparr>mem := memmove (mem s) m pa 4096\<rparr>
          in bindE (mappages new i PGSIZE m flags s) (\<lambda>(r, s).
            if r \<noteq> 0
            then bindE (kfree m s) (\<lambda>s.
                 bindE (uvmunmap new 0 (i div PGSIZE) True s) (\<lambda>s. Inr (-1, s)))
            else uvmcopy_loop old new (i + PGSIZE) sz s))
      else Inr (0, s))"
  by pat_completeness auto
termination
  by (relation "measure (\<lambda>(old, new, i, sz, s). 2 ^ 64 - unat i)")
    (auto dest!: mappages_below_MAXVA simp: unat_word_ariths)

declare uvmcopy_loop.simps [simp del]

definition uvmcopy :: "u64 \<Rightarrow> u64 \<Rightarrow> u64 \<Rightarrow> 'a kmem_scheme \<Rightarrow> (int \<times> 'a kmem_scheme) res" where
  "uvmcopy old new sz s = uvmcopy_loop old new 0 sz s"

section \<open>Transfers between kernel objects and user memory\<close>

text \<open>
  The part of a page a transfer touches: \<open>n = PGSIZE - (va - va0); if (n > len) n = len;\<close>
\<close>

definition chunk :: "u64 \<Rightarrow> nat \<Rightarrow> nat" where
  "chunk va len = (let n = unat (PGSIZE - (va - PGROUNDDOWN va)) in if n > len then len else n)"

lemma chunk_eq: "chunk va len = min (4096 - unat va mod 4096) len"
proof -
  have "unat (4096 - of_nat (unat va mod 4096) :: u64) = 4096 - unat va mod 4096"
    by (subst unat_sub) (simp_all add: word_le_nat_alt unat_of_nat_u64)
  then show ?thesis
    by (simp add: chunk_def page_offset_bound min_def)
qed

lemma chunk_pos: "0 < len \<Longrightarrow> 0 < chunk va len"
  by (simp add: chunk_eq)

text \<open>
  A kernel object is the list of its bytes: \<open>copyout\<close> takes the bytes it sends, \<open>copyin\<close> and
  \<open>copyinstr\<close> return the bytes they have stored in the destination, also when they fail.
\<close>

function copyout :: "u64 \<Rightarrow> u64 \<Rightarrow> u8 list \<Rightarrow> 'a kmem_scheme \<Rightarrow> (int \<times> 'a kmem_scheme) res" where
  "copyout pagetable dstva src s =
     (if src = [] then Inr (0, s)
      else let va0 = PGROUNDDOWN dstva
      in bindE (walkaddr pagetable va0 s) (\<lambda>pa0.
        if pa0 = 0 then Inr (-1, s)
        else let n = chunk dstva (length src);
                 s = s\<lparr>mem := wr (mem s) (pa0 + (dstva - va0)) (take n src)\<rparr>
        in copyout pagetable (va0 + PGSIZE) (drop n src) s))"
  by pat_completeness auto
termination
  by (relation "measure (\<lambda>(pt, va, src, s). length src)") (auto simp: chunk_pos)

declare copyout.simps [simp del]

function copyin :: "u64 \<Rightarrow> u64 \<Rightarrow> nat \<Rightarrow> 'a kmem_scheme \<Rightarrow> (int \<times> u8 list) res" where
  "copyin pagetable srcva len s =
     (if len = 0 then Inr (0, [])
      else let va0 = PGROUNDDOWN srcva
      in bindE (walkaddr pagetable va0 s) (\<lambda>pa0.
        if pa0 = 0 then Inr (-1, [])
        else let n = chunk srcva len; bs = rd (mem s) (pa0 + (srcva - va0)) n
        in bindE (copyin pagetable (va0 + PGSIZE) (len - n) s) (\<lambda>(r, cs). Inr (r, bs @ cs))))"
  by pat_completeness auto
termination
  by (relation "measure (\<lambda>(pt, va, len, s). len)") (auto simp: chunk_pos)

declare copyin.simps [simp del]

text \<open>The inner loop of \<open>copyinstr\<close>: the bytes stored, and whether the terminator was met.\<close>

fun str_scan :: "bmem \<Rightarrow> u64 \<Rightarrow> nat \<Rightarrow> u8 list \<times> bool" where
  "str_scan m p 0 = ([], False)"
| "str_scan m p (Suc n) =
     (if m p = 0 then ([0], True)
      else (case str_scan m (p + 1) n of (bs, got_null) \<Rightarrow> (m p # bs, got_null)))"

function copyinstr_loop ::
  "u64 \<Rightarrow> u64 \<Rightarrow> nat \<Rightarrow> nat \<Rightarrow> u8 list \<Rightarrow> 'a kmem_scheme \<Rightarrow> (int \<times> u8 list) res" where
  "copyinstr_loop pagetable srcva mx len dst s =
     (if mx = 0 then Inr (int len, dst)
      else let va0 = PGROUNDDOWN srcva
      in bindE (walkaddr pagetable va0 s) (\<lambda>pa0.
        if pa0 = 0 then Inr (-1, dst)
        else let n = chunk srcva mx
        in case str_scan (mem s) (pa0 + (srcva - va0)) n of (bs, got_null) \<Rightarrow>
          if got_null then Inr (int (len + length bs - 1), dst @ bs)
          else copyinstr_loop pagetable (va0 + PGSIZE) (mx - n) (len + n) (dst @ bs) s))"
  by pat_completeness auto
termination
  by (relation "measure (\<lambda>(pt, va, mx, len, dst, s). mx)") (auto simp: chunk_pos)

declare copyinstr_loop.simps [simp del]

definition copyinstr :: "u64 \<Rightarrow> u64 \<Rightarrow> nat \<Rightarrow> 'a kmem_scheme \<Rightarrow> (int \<times> u8 list) res" where
  "copyinstr pagetable srcva mx s = copyinstr_loop pagetable srcva mx 0 [] s"

end
