(* ===== verification/PageTable.thy ===== *)
theory PageTable
  imports Vm
begin

text \<open>
  Well-formed page tables. A table is a tree of pages reached from the root by paths of at most
  two 9-bit indices; \<open>pt_wf\<close> says that the tree is a tree (no page is reached by two paths) of
  aligned pages, and that the entries above the last level have no rights bits, which is how
  \<open>freewalk\<close> knows them, and the root's entries for addresses above \<open>MAXVA\<close> are not used. \<open>leaf\<close> is the entry a virtual address selects, so \<open>leaf\<close> as a function of the
  address is the abstract address space, and the operations of \<open>vm.c\<close> are shown to be updates
  of that function.
\<close>

section \<open>Index arithmetic\<close>

lemma unat_drop_bit: "unat (drop_bit n (x :: 'a::len word)) = unat x div 2 ^ n"
  by (simp only: unsigned_drop_bit_eq) (simp add: drop_bit_eq_div take_bit_nat_eq_self)

lemma unat_and_mask: "unat ((x :: 'a::len word) AND mask n) = unat x mod 2 ^ n"
proof -
  have "x AND mask n = take_bit n x" by (simp add: take_bit_eq_mask)
  then show ?thesis by (simp only: unsigned_take_bit_eq) (simp add: take_bit_eq_mod)
qed

lemma unat_PX: "unat (PX l va) = unat va div 2 ^ (12 + 9 * l) mod 512"
proof -
  have "PX l va = drop_bit (12 + 9 * l) va AND mask 9"
    by (simp add: PX_def PXSHIFT_def mask_eq_exp_minus_1)
  then show ?thesis by (simp only: unat_and_mask unat_drop_bit) simp
qed

lemma PX_less [simp]: "PX l va < 512"
  by (simp add: word_less_nat_alt unat_PX)

lemma unat_MAXVA: "unat MAXVA = 274877906944"
  by (simp add: MAXVA_def)

lemma PX_2_less: "va < MAXVA \<Longrightarrow> PX 2 va < 256"
  by (simp add: word_less_nat_alt unat_PX unat_MAXVA less_mult_imp_div_less mod_less)

text \<open>Below \<open>MAXVA\<close> the three indices determine the page, and conversely.\<close>

lemma base512_eq_iff:
  assumes "x < 134217728" "y < (134217728 :: nat)"
  shows "x div 512 div 512 = y div 512 div 512 \<and> x div 512 mod 512 = y div 512 mod 512 \<and>
    x mod 512 = y mod 512 \<longleftrightarrow> x = y"
  using div_mult_mod_eq[of x 512] div_mult_mod_eq[of y 512]
    div_mult_mod_eq[of "x div 512" 512] div_mult_mod_eq[of "y div 512" 512] by metis

lemma PX_eq_iff:
  assumes "va < MAXVA" "va' < MAXVA"
  shows "PX 2 va = PX 2 va' \<and> PX 1 va = PX 1 va' \<and> PX 0 va = PX 0 va'
    \<longleftrightarrow> PGROUNDDOWN va = PGROUNDDOWN va'"
proof -
  let ?n = "\<lambda>v. unat v div 4096"
  have b: "?n v < 134217728" if "v < MAXVA" for v
    using that by (simp add: word_less_nat_alt unat_MAXVA)
  have px: "unat (PX 1 v) = ?n v div 512 mod 512" "unat (PX 0 v) = ?n v mod 512" for v
    by (simp_all add: unat_PX div_mult2_eq[symmetric])
  have px2: "unat (PX 2 v) = ?n v div 512 div 512" if "v < MAXVA" for v
    using b[OF that] by (simp add: unat_PX div_mult2_eq[symmetric])
  have "PX 2 va = PX 2 va' \<and> PX 1 va = PX 1 va' \<and> PX 0 va = PX 0 va' \<longleftrightarrow> ?n va = ?n va'"
    unfolding word_unat_eq_iff px px2[OF assms(1)] px2[OF assms(2)]
    by (rule base512_eq_iff[OF b[OF assms(1)] b[OF assms(2)]])
  also have "\<dots> \<longleftrightarrow> PGROUNDDOWN va = PGROUNDDOWN va'"
    by (simp add: word_unat_eq_iff unat_PGROUNDDOWN)
  finally show ?thesis .
qed

lemma PX_PGROUNDDOWN [simp]: "PX l (PGROUNDDOWN va) = PX l va"
  by (simp add: word_unat_eq_iff unat_PX unat_PGROUNDDOWN power_add div_mult2_eq)

section \<open>Entries\<close>

lemma PTE2PA_flags:
  assumes "aligned pa" "unat pa < 2 ^ 54" "unat f < 1024"
  shows "PTE2PA (PA2PTE pa OR f) = pa"
proof -
  have f: "\<not> bit f n" if "n \<ge> 10" for n
  proof -
    have "f = take_bit 10 f"
      using assms(3) by (simp add: word_unat_eq_iff unsigned_take_bit_eq take_bit_nat_eq_self)
    then show ?thesis using that by (metis bit_take_bit_iff not_le)
  qed
  have hi: "\<not> bit pa n" if "n \<ge> 54" for n
  proof -
    have "pa = take_bit 54 pa"
      using assms(2) by (simp add: word_unat_eq_iff unsigned_take_bit_eq take_bit_nat_eq_self)
    then show ?thesis using that by (metis bit_take_bit_iff not_le)
  qed
  have lo: "\<not> bit pa n" if "n < 12" for n
  proof -
    have "take_bit 12 pa = 0"
      using assms(1) unfolding word_unat_eq_iff unsigned_take_bit_eq aligned_unat
      by (simp add: take_bit_eq_mod)
    then show ?thesis using that by (metis bit_take_bit_iff bit_0_eq bot_apply bot_bool_def)
  qed
  show ?thesis
    unfolding PTE2PA_def PA2PTE_def
  proof (rule bit_word_eqI)
    fix n assume "n < LENGTH(64)"
    then show "bit (push_bit 12 (drop_bit 10 (push_bit 10 (drop_bit 12 pa) OR f))) n = bit pa n"
      using f hi lo by (cases "n < 12") (auto simp: bit_simps)
  qed
qed

lemma PTE_flag_V [simp]: "(x OR f OR (1 :: u64)) AND 1 \<noteq> 0" "(x OR (1 :: u64)) AND 1 \<noteq> 0"
proof -
  have "bit ((x OR f OR (1 :: u64)) AND 1) 0" "bit ((x OR (1 :: u64)) AND 1) 0"
    by (simp_all add: bit_simps)
  then show "(x OR f OR (1 :: u64)) AND 1 \<noteq> 0" "(x OR (1 :: u64)) AND 1 \<noteq> 0"
    by auto
qed

lemma PTE_link_rights: "(PA2PTE n OR (1 :: u64)) AND 14 = 0"
proof -
  have "(PA2PTE n OR 1) AND 14 = (PA2PTE n AND 14) OR (1 AND 14)" by (rule bit.conj_disj_distrib2)
  moreover have "PA2PTE n AND mask 10 = 0"
    unfolding PA2PTE_def by (rule bit_word_eqI) (auto simp: bit_simps)
  then have "PA2PTE n AND (mask 10 AND 14) = 0" by (simp only: and.assoc[symmetric]) simp
  moreover have "mask 10 AND (14 :: u64) = 14" by (simp add: mask_eq_exp_minus_1)
  ultimately show ?thesis by simp
qed

section \<open>The tree of tables\<close>

text \<open>The table an entry points to, and the table at the end of a path of indices.\<close>

definition entry_page :: "bmem \<Rightarrow> u64 \<Rightarrow> u64 \<Rightarrow> u64 option" where
  "entry_page m a i =
     (let e = load64 m (a + 8 * i) in if e AND PTE_V \<noteq> 0 then Some (PTE2PA e) else None)"

fun ptpage :: "bmem \<Rightarrow> u64 \<Rightarrow> u64 list \<Rightarrow> u64 option" where
  "ptpage m root [] = Some root"
| "ptpage m root (i # is) =
     (case entry_page m root i of None \<Rightarrow> None | Some a \<Rightarrow> ptpage m a is)"

lemma ptpage_append:
  "ptpage m root (p @ q) = (case ptpage m root p of None \<Rightarrow> None | Some a \<Rightarrow> ptpage m a q)"
  by (induction p arbitrary: root) (auto split: option.splits)

lemma ptpage_snoc:
  "ptpage m root (p @ [i]) = (case ptpage m root p of None \<Rightarrow> None | Some a \<Rightarrow> entry_page m a i)"
  by (auto simp: ptpage_append split: option.splits)

lemma ptpage_snoc2:
  "ptpage m root (p @ [i, j]) = (case ptpage m root (p @ [i]) of None \<Rightarrow> None | Some a \<Rightarrow> entry_page m a j)"
  using ptpage_snoc[of m root "p @ [i]" j] by simp

definition path_ok :: "u64 list \<Rightarrow> bool" where
  "path_ok q \<longleftrightarrow> length q \<le> 2 \<and> (\<forall>i \<in> set q. i < 512)"

definition pt_pages :: "bmem \<Rightarrow> u64 \<Rightarrow> u64 set" where
  "pt_pages m root = {a. \<exists>q. path_ok q \<and> ptpage m root q = Some a}"

definition pt_wf :: "bmem \<Rightarrow> u64 \<Rightarrow> bool" where
  "pt_wf m root \<longleftrightarrow>
     (\<forall>a \<in> pt_pages m root. aligned a \<and> a \<noteq> 0) \<and>
     (\<forall>q r a. path_ok q \<and> path_ok r \<and> ptpage m root q = Some a \<and> ptpage m root r = Some a \<longrightarrow> q = r) \<and>
     (\<forall>q i a. path_ok (q @ [i]) \<and> ptpage m root q = Some a \<and> load64 m (a + 8 * i) AND PTE_V \<noteq> 0
        \<longrightarrow> load64 m (a + 8 * i) AND 14 = 0) \<and>
     (\<forall>i<512. 256 \<le> i \<longrightarrow> entry_page m root i = None)"

text \<open>The level-0 entry of an address; 0, an invalid entry, where there is no table for it.\<close>

definition leaf :: "bmem \<Rightarrow> u64 \<Rightarrow> u64 \<Rightarrow> u64" where
  "leaf m root va =
     (case ptpage m root [PX 2 va, PX 1 va] of None \<Rightarrow> 0 | Some a \<Rightarrow> load64 m (a + 8 * PX 0 va))"

lemma path_ok_Nil [simp]: "path_ok []"
  by (simp add: path_ok_def)

lemma path_ok_snoc: "path_ok (q @ [i]) \<longleftrightarrow> length q \<le> 1 \<and> path_ok q \<and> i < 512"
  by (auto simp: path_ok_def)

lemma path_ok_PX [simp]: "path_ok [PX 2 va, PX 1 va]"
  by (simp add: path_ok_def)

lemma in_pt_pages: "path_ok q \<Longrightarrow> ptpage m root q = Some a \<Longrightarrow> a \<in> pt_pages m root"
  by (auto simp: pt_pages_def)

lemma root_in_pt_pages [simp]: "root \<in> pt_pages m root"
  by (rule in_pt_pages[of "[]"]) simp_all

lemma pt_wf_page: "pt_wf m root \<Longrightarrow> a \<in> pt_pages m root \<Longrightarrow> aligned a \<and> a \<noteq> 0"
  by (simp add: pt_wf_def)

lemma pt_wf_inj:
  "pt_wf m root \<Longrightarrow> path_ok q \<Longrightarrow> path_ok r \<Longrightarrow> ptpage m root q = Some a \<Longrightarrow>
   ptpage m root r = Some a \<Longrightarrow> q = r"
  unfolding pt_wf_def by blast

lemma pt_wf_link:
  "pt_wf m root \<Longrightarrow> path_ok (q @ [i]) \<Longrightarrow> ptpage m root q = Some a \<Longrightarrow> load64 m (a + 8 * i) AND PTE_V \<noteq> 0 \<Longrightarrow>
   load64 m (a + 8 * i) AND 14 = 0"
  unfolding pt_wf_def by blast

lemma pt_wf_upper: "pt_wf m root \<Longrightarrow> i < 512 \<Longrightarrow> 256 \<le> i \<Longrightarrow> entry_page m root i = None"
  unfolding pt_wf_def by blast

lemma pt_wfI:
  assumes "\<And>a. a \<in> pt_pages m root \<Longrightarrow> aligned a \<and> a \<noteq> 0"
    "\<And>q r a. path_ok q \<Longrightarrow> path_ok r \<Longrightarrow> ptpage m root q = Some a \<Longrightarrow> ptpage m root r = Some a \<Longrightarrow> q = r"
    "\<And>q i a. path_ok (q @ [i]) \<Longrightarrow> ptpage m root q = Some a \<Longrightarrow> load64 m (a + 8 * i) AND PTE_V \<noteq> 0 \<Longrightarrow>
       load64 m (a + 8 * i) AND 14 = 0"
    "\<And>i. i < 512 \<Longrightarrow> 256 \<le> i \<Longrightarrow> entry_page m root i = None"
  shows "pt_wf m root"
  unfolding pt_wf_def using assms by blast

lemma idx_less: "(i :: u64) < 512 \<Longrightarrow> unat i < 512"
  by (simp add: word_less_nat_alt)

lemma entry_load_same_off:
  assumes "same_off P m m'" "aligned a" "a \<notin> P" "i < 512"
  shows "load64 m' (a + 8 * i) = load64 m (a + 8 * i)"
  using load64_same_off[OF assms(1-3), of "8 * unat i"] idx_less[OF assms(4)] by simp

lemma entry_page_same_off:
  "same_off P m m' \<Longrightarrow> aligned a \<Longrightarrow> a \<notin> P \<Longrightarrow> i < 512 \<Longrightarrow> entry_page m' a i = entry_page m a i"
  by (simp add: entry_page_def entry_load_same_off)

lemma entry_addr_page: "aligned a \<Longrightarrow> i < 512 \<Longrightarrow> PGROUNDDOWN (a + 8 * i) = a"
  using page_of_offset[of a "8 * unat i"] idx_less[of i] by simp

lemma entry_addr_nonzero: "aligned a \<Longrightarrow> a \<noteq> 0 \<Longrightarrow> i < 512 \<Longrightarrow> a + 8 * i \<noteq> 0"
  using entry_addr_page[of a i] by (auto simp: PGROUNDDOWN_def)

lemma store_entry_same_off: "aligned a \<Longrightarrow> i < 512 \<Longrightarrow> same_off {a} m (store64 m (a + 8 * i) v)"
  using store64_same_off[of a "8 * unat i"] idx_less[of i] by simp

lemma load_store_entry:
  assumes "aligned a" "i < 512" "j < 512"
  shows "load64 (store64 m (a + 8 * i) v) (a + 8 * j) = (if i = j then v else load64 m (a + 8 * j))"
proof (cases "i = j")
  case False
  then have "unat i \<noteq> unat j" by (simp add: word_unat_eq_iff)
  then show ?thesis
    using load64_store64_other[of a "unat i" "unat j" m v] assms False idx_less[of i] idx_less[of j]
    by simp
qed (simp add: mem_simps)

text \<open>Writes outside the tables do not change the tree or the leaves.\<close>

lemma ptpage_same_off:
  assumes "pt_wf m root" "same_off P m m'" "P \<inter> pt_pages m root = {}"
  shows "path_ok q \<Longrightarrow> ptpage m' root q = ptpage m root q"
proof (induction q rule: rev_induct)
  case (snoc i q)
  then have ok: "path_ok q" "i < 512" by (auto simp: path_ok_snoc)
  have "entry_page m' a i = entry_page m a i" if "ptpage m root q = Some a" for a
    using in_pt_pages[OF ok(1) that] assms ok(2)
    by (intro entry_page_same_off[OF assms(2)]) (auto dest: pt_wf_page)
  then show ?case
    using snoc.IH[OF ok(1)] by (simp add: ptpage_append split: option.splits)
qed simp

lemma pt_pages_same_off:
  assumes "pt_wf m root" "same_off P m m'" "P \<inter> pt_pages m root = {}"
  shows "pt_pages m' root = pt_pages m root"
  using ptpage_same_off[OF assms] by (auto simp: pt_pages_def)

lemma pt_wf_same_off:
  assumes "pt_wf m root" "same_off P m m'" "P \<inter> pt_pages m root = {}"
  shows "pt_wf m' root"
proof (rule pt_wfI)
  show "aligned a \<and> a \<noteq> 0" if "a \<in> pt_pages m' root" for a
    by (rule pt_wf_page[OF assms(1) that[unfolded pt_pages_same_off[OF assms]]])
  show "q = r" if "path_ok q" "path_ok r" "ptpage m' root q = Some a" "ptpage m' root r = Some a" for q r a
    using that pt_wf_inj[OF assms(1) that(1,2)] ptpage_same_off[OF assms] by simp
  show "load64 m' (a + 8 * i) AND 14 = 0"
    if q: "path_ok (q @ [i])" "ptpage m' root q = Some a" "load64 m' (a + 8 * i) AND PTE_V \<noteq> 0" for q i a
  proof -
    have ok: "path_ok q" "i < 512" using q(1) by (auto simp: path_ok_snoc)
    have a: "ptpage m root q = Some a" using q(2) ptpage_same_off[OF assms ok(1)] by simp
    have "load64 m' (a + 8 * i) = load64 m (a + 8 * i)"
      using in_pt_pages[OF ok(1) a] assms ok(2) by (intro entry_load_same_off[OF assms(2)]) (auto dest: pt_wf_page)
    then show ?thesis using pt_wf_link[OF assms(1) q(1) a] q(3) by simp
  qed
  show "entry_page m' root i = None" if "i < 512" "256 \<le> i" for i
  proof -
    have "root \<notin> P" using assms(3) root_in_pt_pages[of root m] by blast
    then show ?thesis
      using pt_wf_upper[OF assms(1) that] entry_page_same_off[OF assms(2) _ _ that(1), of root]
        pt_wf_page[OF assms(1) root_in_pt_pages] by simp
  qed
qed

lemma leaf_same_off:
  assumes "pt_wf m root" "same_off P m m'" "P \<inter> pt_pages m root = {}"
  shows "leaf m' root va = leaf m root va"
proof -
  have "load64 m' (a + 8 * PX 0 va) = load64 m (a + 8 * PX 0 va)"
    if "ptpage m root [PX 2 va, PX 1 va] = Some a" for a
    using in_pt_pages[OF path_ok_PX that] assms
    by (intro entry_load_same_off[OF assms(2)]) (auto dest: pt_wf_page)
  then show ?thesis
    using ptpage_same_off[OF assms path_ok_PX] by (simp add: leaf_def split: option.splits)
qed

section \<open>Linking a new table, writing a leaf\<close>

text \<open>
  \<open>walk\<close> with \<open>alloc\<close> clears a new page \<open>n\<close> and stores a pointer to it in an invalid entry of
  a table at depth 0 or 1: the tree gains exactly that page, and no leaf changes.
\<close>

definition link_table :: "bmem \<Rightarrow> u64 \<Rightarrow> u64 \<Rightarrow> u64 \<Rightarrow> bmem" where
  "link_table m a i n = store64 (memset m n 0 4096) (a + 8 * i) (PA2PTE n OR PTE_V)"

definition linkable :: "bmem \<Rightarrow> u64 \<Rightarrow> u64 list \<Rightarrow> u64 \<Rightarrow> u64 \<Rightarrow> u64 \<Rightarrow> bool" where
  "linkable m root p i a n \<longleftrightarrow> pt_wf m root \<and> path_ok (p @ [i]) \<and> ptpage m root p = Some a \<and>
     entry_page m a i = None \<and> aligned n \<and> n \<noteq> 0 \<and> n < PHYSTOP \<and> n \<notin> pt_pages m root \<and> (p = [] \<longrightarrow> i < 256)"

lemma linkableD:
  assumes "linkable m root p i a n"
  shows "pt_wf m root" "path_ok p" "length p \<le> 1" "i < 512" "ptpage m root p = Some a" "entry_page m a i = None"
    "aligned n" "n \<noteq> 0" "n < PHYSTOP" "n \<notin> pt_pages m root"
    "a \<in> pt_pages m root" "aligned a" "a \<noteq> n" "p = [] \<Longrightarrow> i < 256"
  using assms in_pt_pages[of p m root a] pt_wf_page[of m root a]
  by (auto simp: linkable_def path_ok_snoc)

lemma link_same_off:
  assumes "linkable m root p i a n"
  shows "same_off {a, n} m (link_table m a i n)"
  unfolding link_table_def
  by (rule same_off_trans[OF memset_same_off store_entry_same_off]) (use linkableD[OF assms] in auto)

lemma link_load_a:
  assumes "linkable m root p i a n" "j < 512"
  shows "load64 (link_table m a i n) (a + 8 * j)
     = (if i = j then PA2PTE n OR PTE_V else load64 m (a + 8 * j))"
  unfolding link_table_def
  using linkableD[OF assms(1)] assms(2) entry_load_same_off[OF memset_same_off, of n a j m 0]
  by (subst load_store_entry) auto

lemma link_load_n:
  assumes "linkable m root p i a n" "j < 512"
  shows "load64 (link_table m a i n) (n + 8 * j) = 0"
proof -
  have "load64 (memset m n 0 4096) (n + of_nat (8 * unat j)) = 0"
    by (rule load64_filled_0) (use memset_filled[of m n 0] idx_less[OF assms(2)] in auto)
  moreover have "load64 (link_table m a i n) (n + 8 * j) = load64 (memset m n 0 4096) (n + 8 * j)"
    unfolding link_table_def
    by (rule entry_load_same_off[OF store_entry_same_off]) (use linkableD[OF assms(1)] assms(2) in auto)
  ultimately show ?thesis by simp
qed

lemma link_entry:
  assumes "linkable m root p i a n" "b \<in> pt_pages m root" "j < 512"
  shows "entry_page (link_table m a i n) b j = (if b = a \<and> j = i then Some n else entry_page m b j)"
proof (cases "b = a")
  case True
  have "unat n < 2 ^ 54"
    using linkableD(9)[OF assms(1)] by (simp add: word_less_nat_alt unat_PHYSTOP)
  then show ?thesis
    using True assms linkableD(7)[OF assms(1)]
    by (auto simp: entry_page_def link_load_a[OF assms(1)] PTE2PA_flags)
next
  case False
  then have "entry_page (link_table m a i n) b j = entry_page m b j"
    using assms linkableD[OF assms(1)] pt_wf_page[of m root b]
    by (intro entry_page_same_off[OF link_same_off[OF assms(1)]]) auto
  with False show ?thesis by simp
qed

lemma link_ptpage:
  assumes L: "linkable m root p i a n"
  shows "path_ok q \<Longrightarrow>
    ptpage (link_table m a i n) root q = (if q = p @ [i] then Some n else ptpage m root q)"
proof (induction q rule: rev_induct)
  case (snoc j r)
  then have r: "path_ok r" "j < 512" "length r \<le> 1" by (auto simp: path_ok_snoc)
  note Ld = linkableD[OF L]
  have none: "ptpage m root (p @ [i]) = None" using Ld(5,6) by (simp add: ptpage_snoc)
  show ?case
  proof (cases "r = p @ [i]")
    case True
    have "entry_page (link_table m a i n) n j = None"
      using link_load_n[OF L r(2)] by (simp add: entry_page_def)
    then have "ptpage (link_table m a i n) root (r @ [j]) = None"
      unfolding ptpage_snoc[of _ _ r] using snoc.IH[OF r(1)] True by simp
    moreover have "ptpage m root (r @ [j]) = None"
      unfolding ptpage_snoc[of _ _ r] using none True by simp
    ultimately show ?thesis using True by simp
  next
    case False
    then have IH: "ptpage (link_table m a i n) root r = ptpage m root r"
      using snoc.IH[OF r(1)] by simp
    show ?thesis
    proof (cases "ptpage m root r")
      case None
      then show ?thesis using IH Ld(5) by (auto simp: ptpage_snoc)
    next
      case (Some b)
      have "b \<in> pt_pages m root" using in_pt_pages[OF r(1) Some] .
      moreover have "b = a \<longleftrightarrow> r = p"
        using pt_wf_inj[OF Ld(1) r(1) Ld(2)] Some Ld(5) by auto
      ultimately show ?thesis
        using IH Some link_entry[OF L, of b j] r(2) by (auto simp: ptpage_snoc)
    qed
  qed
qed (simp add: linkable_def)

lemma link_pt_pages:
  assumes L: "linkable m root p i a n"
  shows "pt_pages (link_table m a i n) root = insert n (pt_pages m root)"
proof (intro set_eqI iffI)
  fix b assume "b \<in> pt_pages (link_table m a i n) root"
  then obtain q where "path_ok q" "ptpage (link_table m a i n) root q = Some b"
    by (auto simp: pt_pages_def)
  then show "b \<in> insert n (pt_pages m root)"
    using link_ptpage[OF L, of q] in_pt_pages[of q m root b] by (auto split: if_splits)
next
  fix b assume b: "b \<in> insert n (pt_pages m root)"
  have none: "ptpage m root (p @ [i]) = None" using linkableD[OF L] by (simp add: ptpage_snoc)
  have pi: "path_ok (p @ [i])" using L by (simp add: linkable_def)
  show "b \<in> pt_pages (link_table m a i n) root"
  proof (cases "b = n")
    case True
    then show ?thesis using link_ptpage[OF L pi] pi by (intro in_pt_pages[of "p @ [i]"]) auto
  next
    case False
    then obtain q where q: "path_ok q" "ptpage m root q = Some b"
      using b by (auto simp: pt_pages_def)
    then have "q \<noteq> p @ [i]" using none by auto
    then show ?thesis using link_ptpage[OF L q(1)] q by (intro in_pt_pages[of q]) auto
  qed
qed

lemma link_pt_wf:
  assumes L: "linkable m root p i a n"
  shows "pt_wf (link_table m a i n) root"
proof -
  note Ld = linkableD[OF L]
  have "q = r" if q: "path_ok q" "path_ok r" "ptpage (link_table m a i n) root q = Some b"
    "ptpage (link_table m a i n) root r = Some b" for q r b
  proof -
    have "ptpage m root x \<noteq> Some n" if "path_ok x" for x
      using in_pt_pages[OF that] Ld(10) by auto
    then show ?thesis
      using q(3,4) q(1,2) pt_wf_inj[OF Ld(1) q(1,2)]
      unfolding link_ptpage[OF L q(1)] link_ptpage[OF L q(2)] by (auto split: if_splits)
  qed
  moreover have "aligned b \<and> b \<noteq> 0" if "b \<in> insert n (pt_pages m root)" for b
    using that Ld(7,8) pt_wf_page[OF Ld(1)] by auto
  moreover have "load64 (link_table m a i n) (b + 8 * j) AND 14 = 0"
    if q: "path_ok (q @ [j])" "ptpage (link_table m a i n) root q = Some b"
      "load64 (link_table m a i n) (b + 8 * j) AND PTE_V \<noteq> 0" for q j b
  proof -
    have ok: "path_ok q" "j < 512" using q(1) by (auto simp: path_ok_snoc)
    show ?thesis
    proof (cases "q = p @ [i]")
      case True
      then have "b = n" using q(2) link_ptpage[OF L ok(1)] by simp
      then show ?thesis using link_load_n[OF L ok(2)] by simp
    next
      case False
      then have b: "ptpage m root q = Some b" using q(2) link_ptpage[OF L ok(1)] by simp
      have bp: "b \<in> pt_pages m root" using in_pt_pages[OF ok(1) b] .
      have ld: "load64 (link_table m a i n) (b + 8 * j) = (if b = a \<and> j = i then PA2PTE n OR PTE_V else load64 m (b + 8 * j))"
      proof (cases "b = a")
        case True
        then show ?thesis using link_load_a[OF L ok(2)] by auto
      next
        case False
        then show ?thesis
          using bp Ld ok(2) pt_wf_page[OF Ld(1) bp] by (subst entry_load_same_off[OF link_same_off[OF L]]) auto
      qed
      show ?thesis
        using pt_wf_link[OF Ld(1) q(1) b] q(3) PTE_link_rights unfolding ld by (auto split: if_splits)
    qed
  qed
  moreover have "entry_page (link_table m a i n) root j = None" if j: "j < 512" "256 \<le> j" for j
  proof -
    have "\<not> (root = a \<and> j = i)"
    proof
      assume e: "root = a \<and> j = i"
      then have "p = []" using pt_wf_inj[OF Ld(1,2) path_ok_Nil Ld(5)] by simp
      then show False using Ld(14) e j(2) by simp
    qed
    then show ?thesis using link_entry[OF L root_in_pt_pages j(1)] pt_wf_upper[OF Ld(1) j] by auto
  qed
  ultimately show ?thesis by (intro pt_wfI) (auto simp: link_pt_pages[OF L])
qed

lemma link_leaf:
  assumes L: "linkable m root p i a n"
  shows "leaf (link_table m a i n) root va = leaf m root va"
proof -
  note Ld = linkableD[OF L]
  let ?q = "[PX 2 va, PX 1 va]"
  have none: "ptpage m root (p @ [i]) = None" using Ld(5,6) by (simp add: ptpage_snoc)
  have "load64 (link_table m a i n) (b + 8 * PX 0 va) = load64 m (b + 8 * PX 0 va)"
    if b: "ptpage m root ?q = Some b" for b
  proof -
    have "b \<noteq> a" using pt_wf_inj[OF Ld(1) path_ok_PX Ld(2) b] Ld(3,5) by auto
    then show ?thesis
      using in_pt_pages[OF path_ok_PX b] Ld(10) pt_wf_page[OF Ld(1)]
      by (intro entry_load_same_off[OF link_same_off[OF L]]) auto
  qed
  then show ?thesis
    unfolding leaf_def link_ptpage[OF L path_ok_PX]
    using none link_load_n[OF L, of "PX 0 va"] by (auto split: option.splits)
qed

text \<open>Writing an entry of a level-0 table changes one leaf and nothing else of the tree.\<close>

lemma leaf_store:
  assumes wf: "pt_wf m root" and a: "ptpage m root [PX 2 va, PX 1 va] = Some a"
    and m': "m' = store64 m (a + 8 * PX 0 va) v"
  shows "pt_wf m' root" "pt_pages m' root = pt_pages m root"
    "path_ok q \<Longrightarrow> ptpage m' root q = ptpage m root q"
    "va < MAXVA \<Longrightarrow> va' < MAXVA \<Longrightarrow>
       leaf m' root va' = (if PGROUNDDOWN va' = PGROUNDDOWN va then v else leaf m root va')"
proof -
  have ap: "a \<in> pt_pages m root" "aligned a"
    using in_pt_pages[OF path_ok_PX a] pt_wf_page[OF wf] by auto
  have off: "same_off {a} m m'" unfolding m' by (rule store_entry_same_off) (use ap in auto)
  have pt: "path_ok q \<Longrightarrow> ptpage m' root q = ptpage m root q" for q
  proof (induction q rule: rev_induct)
    case (snoc j r)
    then have r: "path_ok r" "j < 512" "length r \<le> 1" by (auto simp: path_ok_snoc)
    have "entry_page m' b j = entry_page m b j" if b: "ptpage m root r = Some b" for b
    proof -
      have "b \<noteq> a" using pt_wf_inj[OF wf path_ok_PX r(1) a] b r(3) by auto
      then show ?thesis
        using in_pt_pages[OF r(1) b] pt_wf_page[OF wf] r(2) by (intro entry_page_same_off[OF off]) auto
    qed
    then show ?case using snoc.IH[OF r(1)] by (simp add: ptpage_snoc split: option.splits)
  qed simp
  then show "path_ok q \<Longrightarrow> ptpage m' root q = ptpage m root q" .
  show pp: "pt_pages m' root = pt_pages m root" using pt by (auto simp: pt_pages_def)
  show "pt_wf m' root"
  proof (rule pt_wfI)
    show "aligned b \<and> b \<noteq> 0" if "b \<in> pt_pages m' root" for b
      by (rule pt_wf_page[OF wf that[unfolded pp]])
    show "q = r" if "path_ok q" "path_ok r" "ptpage m' root q = Some b" "ptpage m' root r = Some b" for q r b
      using that pt_wf_inj[OF wf that(1,2)] pt by simp
    show "load64 m' (b + 8 * i) AND 14 = 0"
      if q: "path_ok (q @ [i])" "ptpage m' root q = Some b" "load64 m' (b + 8 * i) AND PTE_V \<noteq> 0" for q i b
    proof -
      have ok: "path_ok q" "i < 512" "length q \<le> 1" using q(1) by (auto simp: path_ok_snoc)
      have b: "ptpage m root q = Some b" using q(2) pt[OF ok(1)] by simp
      have "b \<noteq> a" using pt_wf_inj[OF wf path_ok_PX ok(1) a] b ok(3) by auto
      then have "load64 m' (b + 8 * i) = load64 m (b + 8 * i)"
        using in_pt_pages[OF ok(1) b] pt_wf_page[OF wf] ok(2) by (intro entry_load_same_off[OF off]) auto
      then show ?thesis using pt_wf_link[OF wf q(1) b] q(3) by simp
    qed
    show "entry_page m' root i = None" if i: "i < 512" "256 \<le> i" for i
    proof -
      have "root \<noteq> a" using pt_wf_inj[OF wf path_ok_PX path_ok_Nil a] by auto
      then have "entry_page m' root i = entry_page m root i"
        using pt_wf_page[OF wf root_in_pt_pages] i(1) by (intro entry_page_same_off[OF off]) auto
      then show ?thesis using pt_wf_upper[OF wf i] by simp
    qed
  qed
  show "leaf m' root va' = (if PGROUNDDOWN va' = PGROUNDDOWN va then v else leaf m root va')"
    if "va < MAXVA" "va' < MAXVA"
  proof -
    have eq: "PGROUNDDOWN va' = PGROUNDDOWN va \<longleftrightarrow> [PX 2 va', PX 1 va'] = [PX 2 va, PX 1 va] \<and> PX 0 va' = PX 0 va"
      using PX_eq_iff[OF that(2,1)] by auto
    have "load64 m' (b + 8 * PX 0 va') = (if PGROUNDDOWN va' = PGROUNDDOWN va then v else load64 m (b + 8 * PX 0 va'))"
      if b: "ptpage m root [PX 2 va', PX 1 va'] = Some b" for b
    proof (cases "b = a")
      case True
      have "[PX 2 va', PX 1 va'] = [PX 2 va, PX 1 va]"
        using pt_wf_inj[OF wf path_ok_PX path_ok_PX b] a True by simp
      then show ?thesis using True ap(2) eq by (auto simp: m' load_store_entry)
    next
      case False
      then have "load64 m' (b + 8 * PX 0 va') = load64 m (b + 8 * PX 0 va')"
        using in_pt_pages[OF path_ok_PX b] pt_wf_page[OF wf] by (intro entry_load_same_off[OF off]) auto
      moreover have "PGROUNDDOWN va' \<noteq> PGROUNDDOWN va" using False eq a b by (metis option.inject)
      ultimately show ?thesis by simp
    qed
    then show ?thesis
      unfolding leaf_def pt[OF path_ok_PX] using eq a by (auto split: option.splits)
  qed
qed

section \<open>An address space next to the free pages\<close>

text \<open>
  \<open>vm_inv s root fps\<close>: the free pages are \<open>fps\<close>, the table at \<open>root\<close> is well formed and none of its
  pages is free. \<open>vm_ext\<close> is what an operation that may allocate table pages does to that:
  it takes pages from the pool, adds them to the table, and changes no leaf.
\<close>

definition vm_inv :: "'a kmem_scheme \<Rightarrow> u64 \<Rightarrow> u64 list \<Rightarrow> bool" where
  "vm_inv s root fps \<longleftrightarrow> kmem_wf s fps \<and> pt_wf (mem s) root \<and> pt_pages (mem s) root \<inter> set fps = {}"

definition vm_grow :: "'a kmem_scheme \<Rightarrow> u64 list \<Rightarrow> u64 \<Rightarrow> 'a kmem_scheme \<Rightarrow> u64 list \<Rightarrow> bool" where
  "vm_grow s fps root s' fps' \<longleftrightarrow> vm_inv s' root fps' \<and> set fps' \<subseteq> set fps \<and>
     pt_pages (mem s') root = pt_pages (mem s) root \<union> (set fps - set fps') \<and>
     same_off (pt_pages (mem s) root \<union> (set fps - set fps')) (mem s) (mem s') \<and>
     ekernel s' = ekernel s"

definition vm_ext :: "'a kmem_scheme \<Rightarrow> u64 list \<Rightarrow> u64 \<Rightarrow> 'a kmem_scheme \<Rightarrow> u64 list \<Rightarrow> bool" where
  "vm_ext s fps root s' fps' \<longleftrightarrow> vm_grow s fps root s' fps' \<and>
     (\<forall>va. leaf (mem s') root va = leaf (mem s) root va)"

lemma vm_grow_refl: "vm_inv s root fps \<Longrightarrow> vm_grow s fps root s fps"
  by (simp add: vm_grow_def)

lemma vm_grow_trans:
  assumes "vm_grow s fps root s1 fps1" "vm_grow s1 fps1 root s2 fps2"
  shows "vm_grow s fps root s2 fps2"
proof -
  have "same_off (pt_pages (mem s) root \<union> (set fps - set fps2)) (mem s) (mem s2)"
    by (rule same_off_trans[of "pt_pages (mem s) root \<union> (set fps - set fps1)" _ "mem s1"
          "pt_pages (mem s1) root \<union> (set fps1 - set fps2)"])
      (use assms in \<open>auto simp: vm_grow_def\<close>)
  then show ?thesis using assms unfolding vm_grow_def by auto
qed

lemma vm_ext_refl: "vm_inv s root fps \<Longrightarrow> vm_ext s fps root s fps"
  by (simp add: vm_ext_def vm_grow_refl)

lemma vm_ext_trans:
  "vm_ext s fps root s1 fps1 \<Longrightarrow> vm_ext s1 fps1 root s2 fps2 \<Longrightarrow> vm_ext s fps root s2 fps2"
  using vm_grow_trans by (fastforce simp: vm_ext_def)

lemma vm_grow_inv: "vm_grow s fps root s' fps' \<Longrightarrow> vm_inv s' root fps'"
  by (simp add: vm_grow_def)

lemma vm_ext_grow: "vm_ext s fps root s' fps' \<Longrightarrow> vm_grow s fps root s' fps'"
  by (simp add: vm_ext_def)

lemma vm_ext_inv: "vm_ext s fps root s' fps' \<Longrightarrow> vm_inv s' root fps'"
  by (simp add: vm_ext_def vm_grow_def)

lemma vm_ext_leaf: "vm_ext s fps root s' fps' \<Longrightarrow> leaf (mem s') root va = leaf (mem s) root va"
  by (simp add: vm_ext_def)

text \<open>One step of the walk that has to allocate.\<close>

lemma walk_alloc_step:
  assumes inv: "vm_inv s root (n # fps)" and p: "path_ok (p @ [i])" "ptpage (mem s) root p = Some a"
    and e: "entry_page (mem s) a i = None" and k: "kalloc s = (n, s1)" and up: "p = [] \<Longrightarrow> i < 256"
  defines "s2 \<equiv> s1\<lparr>mem := link_table (mem s1) a i n\<rparr>"
  shows "vm_ext s (n # fps) root s2 fps" "ptpage (mem s2) root (p @ [i]) = Some n"
proof -
  have kw: "kmem_wf s (n # fps)" and wf: "pt_wf (mem s) root"
    and disj: "pt_pages (mem s) root \<inter> set (n # fps) = {}"
    using inv by (auto simp: vm_inv_def)
  obtain s1': "kmem_wf s1 fps" "same_off {n} (mem s) (mem s1)" "ekernel s1 = ekernel s"
    using kalloc_Cons[OF kw] k by (metis prod.inject)
  have n: "page_ok (ekernel s) n" "n \<noteq> 0" "n \<notin> set fps"
    using kw kmem.pool_valid[OF kw, of n] kmem.pool_distinct[OF kw] by auto
  have nd: "{n} \<inter> pt_pages (mem s) root = {}" using disj by simp
  note pt1 = ptpage_same_off[OF wf s1'(2) nd] and pp1 = pt_pages_same_off[OF wf s1'(2) nd]
    and wf1 = pt_wf_same_off[OF wf s1'(2) nd] and leaf1 = leaf_same_off[OF wf s1'(2) nd]
  have pp: "path_ok p" "length p \<le> 1" "i < 512" using p(1) by (auto simp: path_ok_snoc)
  have ap: "a \<in> pt_pages (mem s) root" using in_pt_pages[OF pp(1) p(2)] .
  have "a \<notin> {n}" using ap nd by auto
  then have "entry_page (mem s1) a i = None"
    using entry_page_same_off[OF s1'(2) _ _ pp(3), of a] pt_wf_page[OF wf ap] e by simp
  then have L: "linkable (mem s1) root p i a n"
    using wf1 p pt1[OF pp(1)] n nd pp1 up unfolding linkable_def page_ok_def by auto
  have off: "same_off {a, n} (mem s) (mem s2)"
    unfolding s2_def by (simp, rule same_off_trans[OF s1'(2) link_same_off[OF L]]) auto
  have m2: "mem s2 = link_table (mem s1) a i n" by (simp add: s2_def)
  have "chain (mem s2) (freelist s1) fps"
  proof (rule chain_same_off[OF _ link_same_off[OF L], folded m2])
    show "set fps \<inter> {a, n} = {}" using ap disj n(3) by auto
  qed (use s1'(1) in \<open>auto simp: kmem_wf_def\<close>)
  then have kw2: "kmem_wf s2 fps" using s1'(1) by (simp add: kmem_wf_def s2_def)
  have pp2: "pt_pages (mem s2) root = insert n (pt_pages (mem s) root)"
    unfolding m2 link_pt_pages[OF L] pp1 ..
  have "vm_inv s2 root fps"
    unfolding vm_inv_def pp2 using kw2 link_pt_wf[OF L] m2 disj n(3) by auto
  moreover have "same_off (pt_pages (mem s) root \<union> (set (n # fps) - set fps)) (mem s) (mem s2)"
    by (rule same_off_mono[OF off]) (use ap n(3) in auto)
  ultimately show "vm_ext s (n # fps) root s2 fps"
    unfolding vm_ext_def vm_grow_def pp2 using n(3) s1'(3) link_leaf[OF L] leaf1 m2 by (auto simp: s2_def)
  show "ptpage (mem s2) root (p @ [i]) = Some n"
    unfolding m2 using link_ptpage[OF L p(1)] by simp
qed

text \<open>The path \<open>walk\<close> still has to follow at a given level.\<close>

primrec pxs :: "nat \<Rightarrow> u64 \<Rightarrow> u64 list" where
  "pxs 0 va = []"
| "pxs (Suc l) va = PX (Suc l) va # pxs l va"

lemma pxs_2: "pxs 2 va = [PX 2 va, PX 1 va]"
  by (simp add: numeral_2_eq_2)

lemma length_pxs [simp]: "length (pxs l va) = l"
  by (induction l) auto

lemma walk_loop_noalloc:
  "walk_loop l pt va False s =
     (case ptpage (mem s) pt (pxs l va) of None \<Rightarrow> 0 | Some a \<Rightarrow> a + 8 * PX 0 va, s)"
  by (induction l arbitrary: pt) (auto simp: entry_page_def Let_def)

lemma walk_loop_alloc:
  assumes "vm_inv s root fps" "path_ok p" "length p + l = 2" "ptpage (mem s) root p = Some pt" and va: "va < MAXVA"
  shows "\<exists>pte s' fps'. walk_loop l pt va True s = (pte, s') \<and> vm_ext s fps root s' fps' \<and>
     (pte \<noteq> 0 \<longrightarrow> (\<exists>a. ptpage (mem s') root (p @ pxs l va) = Some a \<and> pte = a + 8 * PX 0 va)) \<and>
     (pte = 0 \<longrightarrow> fps' = [] \<and> length fps < l) \<and> length fps \<le> length fps' + l"
  using assms(1-4)
proof (induction l arbitrary: s fps p pt)
  case 0
  have "pt \<in> pt_pages (mem s) root" using 0 in_pt_pages by blast
  then have "pt + 8 * PX 0 va \<noteq> 0"
    using 0(1) pt_wf_page[of "mem s" root pt] by (intro entry_addr_nonzero) (auto simp: vm_inv_def)
  then show ?case using 0 vm_ext_refl[OF 0(1)] by auto
next
  case (Suc l)
  let ?i = "PX (Suc l) va"
  have pi: "path_ok (p @ [?i])" "length (p @ [?i]) + l = 2"
    using Suc.prems(2,3) by (auto simp: path_ok_snoc)
  show ?case
  proof (cases "entry_page (mem s) pt ?i")
    case (Some pt')
    then have w: "walk_loop (Suc l) pt va True s = walk_loop l pt' va True s"
      by (auto simp: entry_page_def Let_def split: if_splits)
    have "ptpage (mem s) root (p @ [?i]) = Some pt'"
      using Suc.prems(4) Some by (simp add: ptpage_snoc)
    from Suc.IH[OF Suc.prems(1) pi this] show ?thesis unfolding w by fastforce
  next
    case None
    then have e: "load64 (mem s) (pt + 8 * ?i) AND 1 = 0"
      by (auto simp: entry_page_def Let_def split: if_splits)
    have kw: "kmem_wf s fps" using Suc.prems(1) by (simp add: vm_inv_def)
    from kw show ?thesis
    proof (cases rule: kmem.alloc_cases)
      case empty
      then have "walk_loop (Suc l) pt va True s = (0, s)" using e by (simp add: Let_def)
      then show ?thesis using vm_ext_refl[OF Suc.prems(1)] empty by auto
    next
      case (page n rest s1)
      let ?s2 = "s1\<lparr>mem := link_table (mem s1) pt ?i n\<rparr>"
      have w: "walk_loop (Suc l) pt va True s = walk_loop l n va True ?s2"
        using e page by (simp add: Let_def link_table_def)
      have up: "p = [] \<Longrightarrow> ?i < 256" using Suc.prems(3) PX_2_less[OF va] by (auto simp: numeral_2_eq_2)
      note st = walk_alloc_step[OF Suc.prems(1)[unfolded page(1)] pi(1) Suc.prems(4) None page(2) up]
      have "\<exists>pte s' fps'. walk_loop l n va True ?s2 = (pte, s') \<and> vm_ext ?s2 rest root s' fps' \<and>
         (pte \<noteq> 0 \<longrightarrow> (\<exists>a. ptpage (mem s') root ((p @ [?i]) @ pxs l va) = Some a \<and> pte = a + 8 * PX 0 va)) \<and>
         (pte = 0 \<longrightarrow> fps' = [] \<and> length rest < l) \<and> length rest \<le> length fps' + l"
        by (rule Suc.IH[OF vm_ext_inv[OF st(1)] pi st(2)])
      then show ?thesis
        unfolding w using vm_ext_trans[OF st(1)] page(1) by fastforce
    qed
  qed
qed

section \<open>Mapping a range\<close>

text \<open>Storing a leaf through the pointer \<open>walk\<close> returned.\<close>

lemma store_leaf_grow:
  assumes inv: "vm_inv s root fps" and a: "ptpage (mem s) root [PX 2 va, PX 1 va] = Some a"
    and s': "s' = s\<lparr>mem := store64 (mem s) (a + 8 * PX 0 va) v\<rparr>"
  shows "vm_grow s fps root s' fps"
    "va < MAXVA \<Longrightarrow> va' < MAXVA \<Longrightarrow> leaf (mem s') root va' =
       (if PGROUNDDOWN va' = PGROUNDDOWN va then v else leaf (mem s) root va')"
proof -
  have kw: "kmem_wf s fps" and wf: "pt_wf (mem s) root"
    and disj: "pt_pages (mem s) root \<inter> set fps = {}"
    using inv by (auto simp: vm_inv_def)
  have ap: "a \<in> pt_pages (mem s) root" using in_pt_pages[OF path_ok_PX a] .
  have off: "same_off {a} (mem s) (mem s')"
    unfolding s' using pt_wf_page[OF wf ap] by (simp add: store_entry_same_off)
  have m': "mem s' = store64 (mem s) (a + 8 * PX 0 va) v" by (simp add: s')
  note ls = leaf_store[OF wf a m']
  have "chain (mem s') (freelist s) fps"
    using kw ap disj by (intro chain_same_off[OF _ off]) (auto simp: kmem_wf_def)
  then have "kmem_wf s' fps" using kw by (simp add: kmem_wf_def s')
  then show "vm_grow s fps root s' fps"
    unfolding vm_grow_def vm_inv_def ls(2) using ls(1) disj same_off_mono[OF off] ap
    by (auto simp: s')
  show "leaf (mem s') root va' = (if PGROUNDDOWN va' = PGROUNDDOWN va then v else leaf (mem s) root va')"
    if "va < MAXVA" "va' < MAXVA" using ls(4)[OF that] .
qed

text \<open>The effect of mapping \<open>j\<close> pages from \<open>a\<close> on, with the frames from \<open>pa\<close> on.\<close>

definition map_range :: "u64 \<Rightarrow> u64 \<Rightarrow> u64 \<Rightarrow> nat \<Rightarrow> (u64 \<Rightarrow> u64) \<Rightarrow> (u64 \<Rightarrow> u64)" where
  "map_range a pa perm j lf = (\<lambda>va.
     let d = unat (PGROUNDDOWN va - a)
     in if d < 4096 * j then PA2PTE (pa + of_nat d) OR perm OR PTE_V else lf va)"

lemma map_range_0 [simp]: "map_range a pa perm 0 lf = lf"
  by (simp add: map_range_def)

lemma page_diff:
  assumes "unat a = 4096 * q" "unat v = 4096 * r" "unat a + 4096 * j < 2 ^ 64"
  shows "unat (v - a :: u64) < 4096 * j \<longleftrightarrow> q \<le> r \<and> r < q + j"
proof (cases "q \<le> r")
  case True
  then have "unat (v - a) = 4096 * r - 4096 * q"
    using assms by (simp add: unat_sub word_le_nat_alt)
  then show ?thesis using True by auto
next
  case False
  then have "unat (v - a) = unat v + 2 ^ 64 - unat a"
    using assms(1,2) by (simp add: unat_sub_if')
  then show ?thesis using False assms by linarith
qed

lemma map_range_Suc:
  assumes "aligned a" "unat a + 4096 * Suc j < 2 ^ 64"
  shows "map_range a pa perm (Suc j) lf va =
    map_range (a + 4096) (pa + 4096) perm j
      (\<lambda>v. if PGROUNDDOWN v = a then PA2PTE pa OR perm OR PTE_V else lf v) va"
proof -
  let ?v = "PGROUNDDOWN va"
  have a4: "unat (a + 4096) = unat a + 4096" using assms(2) by (simp add: unat_word_ariths)
  obtain q where q: "unat a = 4096 * q" using assms(1) by (auto simp: aligned_unat)
  obtain r where r: "unat ?v = 4096 * r" using aligned_PGROUNDDOWN[of va] by (auto simp: aligned_unat)
  have d: "unat (?v - a) < 4096 * Suc j \<longleftrightarrow> q \<le> r \<and> r < q + Suc j"
    by (rule page_diff[OF q r assms(2)])
  have d': "unat (?v - (a + 4096)) < 4096 * j \<longleftrightarrow> Suc q \<le> r \<and> r < Suc q + j"
    by (rule page_diff[OF _ r]) (use a4 q assms(2) in simp_all)
  have veq: "?v = a \<longleftrightarrow> r = q" using q r by (auto simp: word_unat_eq_iff)
  have off: "pa + of_nat (unat (?v - a)) = pa + 4096 + of_nat (unat (?v - (a + 4096)))" by simp
  show ?thesis
  proof (cases "r = q")
    case True
    then have "?v = a" using veq by simp
    then show ?thesis unfolding map_range_def Let_def d d' using True by simp
  next
    case False
    then have "q \<le> r \<and> r < q + Suc j \<longleftrightarrow> Suc q \<le> r \<and> r < Suc q + j" by auto
    then show ?thesis unfolding map_range_def Let_def d d' off using veq False by simp
  qed
qed

lemma map_range_out:
  assumes "j = 0 \<or> \<not> (unat a \<le> unat (PGROUNDDOWN va) \<and> unat (PGROUNDDOWN va) < unat a + 4096 * j)"
    "unat a + 4096 * j < 2 ^ 64"
  shows "map_range a pa perm j lf va = lf va"
  using assms unat_less_u64[of "PGROUNDDOWN va"] by (auto simp: map_range_def Let_def unat_sub_if')

lemma map_range_in:
  assumes "unat a \<le> unat (PGROUNDDOWN va)" "unat (PGROUNDDOWN va) < unat a + 4096 * j"
  shows "map_range a pa perm j lf va = PA2PTE (pa + (PGROUNDDOWN va - a)) OR perm OR PTE_V"
  using assms by (auto simp: map_range_def Let_def unat_sub_if')

lemma map_range_cong: "lf va = lf' va \<Longrightarrow> map_range a pa perm j lf va = map_range a pa perm j lf' va"
  by (simp add: map_range_def Let_def)

text \<open>One iteration of \<open>mappages\<close>: it fails and changes no leaf, or it writes the leaf of \<open>a\<close>.\<close>

lemma mappages_step:
  assumes inv: "vm_inv s root fps" and a: "aligned a" "a < MAXVA"
  obtains (fail) s' fps' where "mappages_loop root a lst pa perm s = Inr (-1, s')" "vm_ext s fps root s' fps'"
      "fps' = [] \<and> length fps < 2 \<or> leaf (mem s) root a AND 1 \<noteq> 0"
  | (stored) s' fps' where "mappages_loop root a lst pa perm s =
        (if a = lst then Inr (0, s') else mappages_loop root (a + 4096) lst (pa + 4096) perm s')"
      "vm_grow s fps root s' fps'" "leaf (mem s) root a AND 1 = 0"
      "\<And>va. va < MAXVA \<Longrightarrow> leaf (mem s') root va =
         (if PGROUNDDOWN va = a then PA2PTE pa OR perm OR PTE_V else leaf (mem s) root va)"
      "length fps \<le> length fps' + 2"
proof -
  obtain pte s1 fps1 where w: "walk_loop 2 root a True s = (pte, s1)" "vm_ext s fps root s1 fps1"
    "pte \<noteq> 0 \<Longrightarrow> \<exists>t. ptpage (mem s1) root [PX 2 a, PX 1 a] = Some t \<and> pte = t + 8 * PX 0 a"
    "pte = 0 \<Longrightarrow> fps1 = [] \<and> length fps < 2" "length fps \<le> length fps1 + 2"
    using walk_loop_alloc[OF inv path_ok_Nil _ _ a(2), of 2 root] unfolding pxs_2 by auto
  have walk: "walk root a True s = Inr (pte, s1)" using a(2) w(1) by (simp add: walk_def)
  note unf = mappages_loop.simps[of root a lst pa perm s, unfolded walk bindE.simps prod.case]
  show thesis
  proof (cases "pte = 0")
    case True
    show thesis by (rule fail[OF _ w(2)]) (use True w(4) unf in auto)
  next
    case False
    then obtain t where t: "ptpage (mem s1) root [PX 2 a, PX 1 a] = Some t" "pte = t + 8 * PX 0 a"
      using w(3) by auto
    have e: "load64 (mem s1) pte = leaf (mem s) root a"
      using vm_ext_leaf[OF w(2), of a] t unfolding leaf_def[of "mem s1"] t(1) by simp
    show thesis
    proof (cases "leaf (mem s) root a AND 1 = 0")
      case False
      show thesis by (rule fail[OF _ w(2)]) (use \<open>pte \<noteq> 0\<close> e False unf in auto)
    next
      case True
      let ?v = "PA2PTE pa OR perm OR PTE_V"
      let ?s = "s1\<lparr>mem := store64 (mem s1) (t + 8 * PX 0 a) ?v\<rparr>"
      note st = store_leaf_grow[OF vm_ext_inv[OF w(2)] t(1) refl, where v = ?v]
      show thesis
      proof (rule stored[OF _ vm_grow_trans[OF vm_ext_grow[OF w(2)] st(1)] True])
        show "mappages_loop root a lst pa perm s =
            (if a = lst then Inr (0, ?s) else mappages_loop root (a + 4096) lst (pa + 4096) perm ?s)"
          using \<open>pte \<noteq> 0\<close> e True t(2) unf by (simp add: Let_def)
        show "leaf (mem ?s) root va = (if PGROUNDDOWN va = a then ?v else leaf (mem s) root va)"
          if "va < MAXVA" for va
          unfolding st(2)[OF a(2) that] PGROUNDDOWN_aligned[OF a(1)] vm_ext_leaf[OF w(2)] by simp
        show "length fps \<le> length fps1 + 2" using w(5) .
      qed
    qed
  qed
qed

lemma mappages_loop_ok:
  assumes "vm_inv s root fps" "aligned a" "unat a + 4096 * n < unat MAXVA" "lst = a + of_nat (4096 * n)"
  shows "\<exists>r s' fps' j. mappages_loop root a lst pa perm s = Inr (r, s') \<and> vm_grow s fps root s' fps' \<and>
    (\<forall>va<MAXVA. leaf (mem s') root va = map_range a pa perm j (leaf (mem s) root) va) \<and>
    (r = 0 \<and> j = Suc n \<or>
     r = -1 \<and> j \<le> n \<and> (fps' = [] \<or> leaf (mem s) root (a + of_nat (4096 * j)) AND 1 \<noteq> 0))"
  using assms
proof (induction n arbitrary: a pa s fps)
  case 0
  have aM: "a < MAXVA" using 0(3) by (simp add: word_less_nat_alt)
  have one: "map_range a pa perm (Suc 0) lf va = (if PGROUNDDOWN va = a then PA2PTE pa OR perm OR PTE_V else lf va)"
    for lf va using 0(2,3) by (subst map_range_Suc) (auto simp: unat_MAXVA)
  from 0(1,2) aM show ?case
  proof (cases rule: mappages_step[where lst = lst and pa = pa and perm = perm])
    case (fail s' fps')
    then show ?thesis
      by (intro exI[of _ "-1"] exI[of _ s'] exI[of _ fps'] exI[of _ 0]) (auto simp: vm_ext_def)
  next
    case (stored s' fps')
    then show ?thesis
      using 0(4) by (intro exI[of _ 0] exI[of _ s'] exI[of _ fps'] exI[of _ "Suc 0"]) (simp add: one)
  qed
next
  case (Suc n)
  have aM: "a < MAXVA" using Suc.prems(3) by (simp add: word_less_nat_alt)
  have a4: "unat (a + 4096) = unat a + 4096"
    using Suc.prems(3) by (simp add: unat_word_ariths unat_MAXVA)
  have ne: "a \<noteq> lst"
  proof -
    have "unat lst = unat a + 4096 * Suc n"
      using Suc.prems(3,4) by (simp add: unat_word_ariths unat_of_nat_u64 unat_MAXVA)
    then show ?thesis by auto
  qed
  from Suc.prems(1,2) aM show ?case
  proof (cases rule: mappages_step[where lst = lst and pa = pa and perm = perm])
    case (fail s' fps')
    then show ?thesis
      by (intro exI[of _ "-1"] exI[of _ s'] exI[of _ fps'] exI[of _ 0]) (auto simp: vm_ext_def)
  next
    case (stored s1 fps1)
    have "aligned (a + 4096)" using Suc.prems(2) a4 by (simp add: aligned_unat mod_simps)
    moreover have "unat (a + 4096) + 4096 * n < unat MAXVA" using Suc.prems(3) a4 by simp
    moreover have "lst = a + 4096 + of_nat (4096 * n)" using Suc.prems(4) by (simp add: algebra_simps)
    ultimately obtain r s' fps' j where IH:
      "mappages_loop root (a + 4096) lst (pa + 4096) perm s1 = Inr (r, s')" "vm_grow s1 fps1 root s' fps'"
      "\<And>va. va < MAXVA \<Longrightarrow> leaf (mem s') root va = map_range (a + 4096) (pa + 4096) perm j (leaf (mem s1) root) va"
      "r = 0 \<and> j = Suc n \<or> r = -1 \<and> j \<le> n \<and>
         (fps' = [] \<or> leaf (mem s1) root (a + 4096 + of_nat (4096 * j)) AND 1 \<noteq> 0)"
      using Suc.IH[OF vm_grow_inv[OF stored(2)], of "a + 4096" "pa + 4096"] by blast
    have j: "j \<le> Suc n" using IH(4) by auto
    have lf: "leaf (mem s') root va = map_range a pa perm (Suc j) (leaf (mem s) root) va" if "va < MAXVA" for va
    proof -
      have "map_range a pa perm (Suc j) (leaf (mem s) root) va
        = map_range (a + 4096) (pa + 4096) perm j
            (\<lambda>v. if PGROUNDDOWN v = a then PA2PTE pa OR perm OR PTE_V else leaf (mem s) root v) va"
        using Suc.prems(2,3) j by (intro map_range_Suc) (auto simp: unat_MAXVA)
      then show ?thesis
        unfolding IH(3)[OF that] using map_range_cong[where lf = "leaf (mem s1) root"
          and lf' = "\<lambda>v. if PGROUNDDOWN v = a then PA2PTE pa OR perm OR PTE_V else leaf (mem s) root v"
          and va = va and a = "a + 4096", OF stored(4)[OF that]] by simp
    qed
    have last: "leaf (mem s1) root (a + 4096 + of_nat (4096 * j)) = leaf (mem s) root (a + of_nat (4096 * Suc j))"
      if "j \<le> n"
    proof -
      let ?b = "a + 4096 + of_nat (4096 * j)"
      have ub: "unat ?b = unat a + 4096 * Suc j"
        using Suc.prems(3) that a4 by (simp add: unat_word_ariths unat_of_nat_u64 unat_MAXVA)
      then have "?b < MAXVA" using Suc.prems(3) that by (simp add: word_less_nat_alt)
      moreover have "aligned ?b" using ub Suc.prems(2) unfolding aligned_unat by (metis mod_mult_self2)
      then have "PGROUNDDOWN ?b = ?b" by (rule PGROUNDDOWN_aligned)
      moreover have "unat ?b \<noteq> unat a" using ub by simp
      moreover have "?b = a + of_nat (4096 * Suc j)" by (simp add: algebra_simps)
      ultimately show ?thesis using stored(4)[of ?b] by metis
    qed
    have "r = 0 \<and> Suc j = Suc (Suc n) \<or> r = -1 \<and> Suc j \<le> Suc n \<and>
        (fps' = [] \<or> leaf (mem s) root (a + of_nat (4096 * Suc j)) AND 1 \<noteq> 0)"
      using IH(4) last by auto
    moreover have "mappages_loop root a lst pa perm s = Inr (r, s')" using stored(1) ne IH(1) by simp
    ultimately show ?thesis using lf vm_grow_trans[OF stored(2) IH(2)] by blast
  qed
qed

text \<open>Two free pages are always enough to map one page.\<close>

lemma mappages_one:
  assumes inv: "vm_inv s root fps" and a: "aligned a" "a < MAXVA"
    and e: "leaf (mem s) root a AND 1 = 0" and two: "2 \<le> length fps"
  obtains s' fps' where "mappages_loop root a a pa perm s = Inr (0, s')" "vm_grow s fps root s' fps'"
    "\<And>va. va < MAXVA \<Longrightarrow> leaf (mem s') root va =
       (if PGROUNDDOWN va = a then PA2PTE pa OR perm OR PTE_V else leaf (mem s) root va)"
    "length fps \<le> length fps' + 2"
  using inv a
proof (cases rule: mappages_step[where lst = a and pa = pa and perm = perm])
  case (stored s' fps')
  then show thesis using that by simp
qed (use e two in simp)

end
