(* ===== verification/UserMem.thy ===== *)
theory UserMem
  imports PageTable
begin

text \<open>
  User memory through a page table: what \<open>walkaddr\<close>, \<open>copyin\<close>, \<open>copyout\<close> and \<open>copyinstr\<close> of
  \<open>kernel/vm.c\<close> compute, in terms of the partial map from user addresses to physical bytes.
  The loops of the C code go page by page; the specifications go byte by byte.
\<close>

section \<open>The user view of an address space\<close>

text \<open>The frame of a user page (0 where the user has no access) and the address of a byte.\<close>

definition upage :: "bmem \<Rightarrow> u64 \<Rightarrow> u64 \<Rightarrow> u64" where
  "upage m root va =
     (if va < MAXVA \<and> leaf m root va AND PTE_V \<noteq> 0 \<and> leaf m root va AND PTE_U \<noteq> 0
      then PTE2PA (leaf m root va) else 0)"

definition upa :: "bmem \<Rightarrow> u64 \<Rightarrow> u64 \<Rightarrow> u64" where
  "upa m root va = upage m root (PGROUNDDOWN va) + (va - PGROUNDDOWN va)"

definition uok :: "bmem \<Rightarrow> u64 \<Rightarrow> u64 \<Rightarrow> bool" where
  "uok m root va \<longleftrightarrow> upage m root (PGROUNDDOWN va) \<noteq> 0"

text \<open>The offsets a transfer of \<open>len\<close> bytes from \<open>va\<close> on reaches before the first page fault.\<close>

definition ureach :: "bmem \<Rightarrow> u64 \<Rightarrow> u64 \<Rightarrow> nat \<Rightarrow> nat list" where
  "ureach m root va len = takeWhile (\<lambda>i. uok m root (va + of_nat i)) [0..<len]"

definition uall :: "bmem \<Rightarrow> u64 \<Rightarrow> u64 \<Rightarrow> nat \<Rightarrow> bool" where
  "uall m root va len \<longleftrightarrow> (\<forall>i<len. uok m root (va + of_nat i))"

lemma ureach_all: "uall m root va len \<Longrightarrow> ureach m root va len = [0..<len]"
  by (auto simp: ureach_def uall_def takeWhile_eq_all_conv)

lemma walk_noalloc:
  assumes "pt_wf (mem s) root" "va < MAXVA"
  obtains (none) "walk root va False s = Inr (0, s)" "leaf (mem s) root va = 0"
      "ptpage (mem s) root [PX 2 va, PX 1 va] = None"
  | (some) a where "walk root va False s = Inr (a + 8 * PX 0 va, s)" "a + 8 * PX 0 va \<noteq> 0"
      "ptpage (mem s) root [PX 2 va, PX 1 va] = Some a" "load64 (mem s) (a + 8 * PX 0 va) = leaf (mem s) root va"
proof (cases "ptpage (mem s) root [PX 2 va, PX 1 va]")
  case None
  show thesis
    by (rule none) (use None assms(2) in \<open>simp_all add: walk_def walk_loop_noalloc pxs_2 leaf_def\<close>)
next
  case (Some a)
  have "a \<in> pt_pages (mem s) root" using in_pt_pages[OF path_ok_PX Some] .
  then have "a + 8 * PX 0 va \<noteq> 0"
    using pt_wf_page[OF assms(1)] by (intro entry_addr_nonzero) auto
  then show thesis
    by (intro some) (use Some assms(2) in \<open>simp_all add: walk_def walk_loop_noalloc pxs_2 leaf_def\<close>)
qed

lemma walkaddr_spec:
  assumes "pt_wf (mem s) root"
  shows "walkaddr root va s = Inr (upage (mem s) root va)"
proof (cases "va < MAXVA")
  case True
  from assms True show ?thesis
    by (cases rule: walk_noalloc) (use True in \<open>auto simp: walkaddr_def upage_def\<close>)
qed (auto simp: walkaddr_def upage_def not_less)

lemma aligned_PTE2PA [simp]: "aligned (PTE2PA x)"
proof -
  have "take_bit 12 (PTE2PA x) = 0"
    unfolding PTE2PA_def by (rule bit_word_eqI) (simp add: bit_simps)
  then have "unat (take_bit 12 (PTE2PA x)) = 0" by simp
  then show ?thesis unfolding aligned_unat unsigned_take_bit_eq by (simp add: take_bit_eq_mod)
qed

lemma aligned_upage [simp]: "aligned (upage m root va)"
  by (simp add: upage_def)

lemma unat_page_offset: "unat (va - PGROUNDDOWN va) = unat va mod 4096"
  by (simp add: page_offset_bound unat_of_nat_u64)

lemma page_upa: "PGROUNDDOWN (upa m root va) = upage m root (PGROUNDDOWN va)"
  unfolding upa_def page_offset_bound by (rule page_of_offset) auto

text \<open>Within the part of a page a transfer touches, the page does not change.\<close>

lemma in_chunk:
  assumes "k < chunk va len"
  shows "PGROUNDDOWN (va + of_nat k) = PGROUNDDOWN va"
    "va + of_nat k - PGROUNDDOWN va = va - PGROUNDDOWN va + of_nat k"
proof -
  have k: "unat va mod 4096 + k < 4096" using assms unfolding chunk_eq by linarith
  have "va + of_nat k = PGROUNDDOWN va + of_nat (unat va mod 4096 + k)"
    using page_split[of va] by (simp add: add.assoc[symmetric])
  then show "PGROUNDDOWN (va + of_nat k) = PGROUNDDOWN va"
    using page_of_offset[OF aligned_PGROUNDDOWN k] by metis
qed simp

lemma chunk_le: "chunk va len \<le> len"
  by (simp add: chunk_eq)

lemma chunk_next:
  assumes "chunk va len < len"
  shows "va + of_nat (chunk va len) = PGROUNDDOWN va + 4096"
proof -
  have k: "chunk va len = 4096 - unat va mod 4096" using assms by (auto simp: chunk_eq min_def split: if_splits)
  have "unat va mod 4096 + (4096 - unat va mod 4096) = 4096"
    using mod_less_divisor[of 4096 "unat va"] by linarith
  then have "of_nat (unat va mod 4096) + of_nat (4096 - unat va mod 4096) = (4096 :: u64)"
    by (metis of_nat_add of_nat_numeral)
  then show ?thesis unfolding k by (subst (1) page_split[of va]) (simp add: add.assoc)
qed

lemma uok_chunk: "k < chunk va len \<Longrightarrow> uok m root (va + of_nat k) \<longleftrightarrow> upage m root (PGROUNDDOWN va) \<noteq> 0"
  by (simp add: uok_def in_chunk)

lemma upa_chunk:
  "k < chunk va len \<Longrightarrow> upa m root (va + of_nat k) = upage m root (PGROUNDDOWN va) + (va - PGROUNDDOWN va) + of_nat k"
  unfolding upa_def by (simp only: in_chunk add.assoc)

lemma ureach_chunk:
  assumes "0 < len" "n = chunk va len"
  shows "ureach m root va len =
    (if upage m root (PGROUNDDOWN va) = 0 then []
     else [0..<n] @ map (\<lambda>i. n + i) (ureach m root (PGROUNDDOWN va + 4096) (len - n)))"
proof -
  have pos: "0 < n" using assms chunk_pos by simp
  have nle: "n \<le> len" using assms chunk_le by simp
  have split: "[0..<len] = [0..<n] @ map (\<lambda>i. n + i) [0..<len - n]"
    using nle by (intro nth_equalityI) (auto simp: nth_append)
  show ?thesis
  proof (cases "upage m root (PGROUNDDOWN va) = 0")
    case True
    have "[0..<len] = 0 # [1..<len]" using assms(1) by (simp add: upt_conv_Cons)
    moreover have "\<not> uok m root va" using True by (simp add: uok_def)
    ultimately show ?thesis using True by (simp add: ureach_def)
  next
    case False
    have "\<forall>i \<in> set [0..<n]. uok m root (va + of_nat i)"
      using uok_chunk[of _ va len] False assms(2) by auto
    then have "ureach m root va len = [0..<n] @ takeWhile (\<lambda>i. uok m root (va + of_nat i)) (map (\<lambda>i. n + i) [0..<len - n])"
      unfolding ureach_def split by (subst takeWhile_append2) auto
    also have "takeWhile (\<lambda>i. uok m root (va + of_nat i)) (map (\<lambda>i. n + i) [0..<len - n])
        = map (\<lambda>i. n + i) (ureach m root (PGROUNDDOWN va + 4096) (len - n))"
    proof (cases "n < len")
      case True
      have "va + of_nat (n + i) = PGROUNDDOWN va + 4096 + of_nat i" for i
        using chunk_next[of va len] True assms(2) by (simp add: add.assoc[symmetric])
      then show ?thesis unfolding ureach_def takeWhile_map o_def by presburger
    qed (simp add: ureach_def)
    finally show ?thesis using False by simp
  qed
qed

lemma length_ureach: "length (ureach m root va len) \<le> len"
  unfolding ureach_def by (rule order_trans[OF length_takeWhile_le]) simp

lemma uall_ureach: "uall m root va len \<longleftrightarrow> length (ureach m root va len) = len"
proof
  assume "length (ureach m root va len) = len"
  then have "ureach m root va len = [0..<len]"
    unfolding ureach_def by (metis length_upt minus_nat.diff_0 takeWhile_eq_take take_all_iff order_refl)
  then show "uall m root va len"
    unfolding ureach_def takeWhile_eq_all_conv uall_def by auto
qed (simp add: ureach_all)

lemma uall_chunk:
  assumes "0 < len" "n = chunk va len"
  shows "uall m root va len \<longleftrightarrow>
    upage m root (PGROUNDDOWN va) \<noteq> 0 \<and> uall m root (PGROUNDDOWN va + 4096) (len - n)"
  unfolding uall_ureach ureach_chunk[OF assms]
  using assms chunk_le[of va len] by (auto dest: arg_cong[of _ _ length])

section \<open>Copying from user memory\<close>

definition ubytes :: "bmem \<Rightarrow> u64 \<Rightarrow> u64 \<Rightarrow> nat \<Rightarrow> u8 list" where
  "ubytes m root va len = map (\<lambda>i. m (upa m root (va + of_nat i))) (ureach m root va len)"

lemma rd_chunk:
  "n = chunk va len \<Longrightarrow>
   rd m (upage m root (PGROUNDDOWN va) + (va - PGROUNDDOWN va)) n
   = map (\<lambda>i. m (upa m root (va + of_nat i))) [0..<n]"
  by (auto simp: rd_def upa_chunk[of _ va len])

lemma ubytes_chunk:
  assumes "0 < len" "n = chunk va len" "upage m root (PGROUNDDOWN va) \<noteq> 0"
  shows "ubytes m root va len = rd m (upage m root (PGROUNDDOWN va) + (va - PGROUNDDOWN va)) n
    @ ubytes m root (PGROUNDDOWN va + 4096) (len - n)"
proof -
  have eq: "va + of_nat (n + i) = PGROUNDDOWN va + 4096 + of_nat i"
    if "i \<in> set (ureach m root (PGROUNDDOWN va + 4096) (len - n))" for i
  proof -
    have "i < len - n" using that unfolding ureach_def by (auto dest: set_takeWhileD)
    then show ?thesis using chunk_next[of va len] assms(2) by (simp add: add.assoc[symmetric])
  qed
  show ?thesis
    unfolding ubytes_def ureach_chunk[OF assms(1,2)] rd_chunk[OF assms(2)]
    using assms(3) eq by (simp add: o_def del: of_nat_add cong: map_cong)
qed

lemma ubytes_fault: "0 < len \<Longrightarrow> upage m root (PGROUNDDOWN va) = 0 \<Longrightarrow> ubytes m root va len = []"
  by (simp add: ubytes_def ureach_chunk[OF _ refl])

lemma ubytes_0 [simp]: "ubytes m root va 0 = []"
  by (simp add: ubytes_def ureach_def)

lemma uall_0 [simp]: "uall m root va 0"
  by (simp add: uall_def)

lemma copyin_ok:
  "pt_wf (mem s) root \<Longrightarrow>
   copyin root va len s = Inr (if uall (mem s) root va len then 0 else -1, ubytes (mem s) root va len)"
proof (induction len arbitrary: va rule: less_induct)
  case (less len)
  show ?case
  proof (cases "len = 0")
    case True
    then show ?thesis by (subst copyin.simps) simp
  next
    case False
    let ?n = "chunk va len" and ?u = "upage (mem s) root (PGROUNDDOWN va)"
    have dec: "len - ?n < len" using False chunk_pos[of len va] by simp
    show ?thesis
    proof (cases "?u = 0")
      case True
      then show ?thesis
        using False less.prems uall_chunk[OF _ refl, of len] ubytes_fault[of len "mem s" root va]
        by (subst copyin.simps) (simp add: walkaddr_spec)
    next
      case u: False
      have "copyin root va len s = bindE (copyin root (PGROUNDDOWN va + 4096) (len - ?n) s)
          (\<lambda>(r, cs). Inr (r, rd (mem s) (?u + (va - PGROUNDDOWN va)) ?n @ cs))"
        using False u less.prems by (subst copyin.simps) (simp add: walkaddr_spec Let_def)
      then show ?thesis
        using less.IH[OF dec less.prems, of "PGROUNDDOWN va + 4096"] u False
          uall_chunk[OF _ refl, of len "mem s" root va] ubytes_chunk[OF _ refl u, of len] by simp
    qed
  qed
qed

section \<open>Copying to user memory\<close>

text \<open>
  The writes of a transfer, byte by byte. The accessible bytes must not lie in the table itself,
  otherwise the transfer changes the translation it is using.
\<close>

definition uput :: "bmem \<Rightarrow> u64 \<Rightarrow> u64 \<Rightarrow> u8 list \<Rightarrow> nat list \<Rightarrow> bmem \<Rightarrow> bmem" where
  "uput m root va src is m' = fold (\<lambda>i m'. m'(upa m root (va + of_nat i) := src ! i)) is m'"

definition uframes :: "bmem \<Rightarrow> u64 \<Rightarrow> u64 \<Rightarrow> nat \<Rightarrow> u64 set" where
  "uframes m root va len = (\<lambda>i. upage m root (PGROUNDDOWN (va + of_nat i))) ` set (ureach m root va len)"

lemma wr_fold: "n \<le> length src \<Longrightarrow> n < 2 ^ 64 \<Longrightarrow>
   wr m a (take n src) = fold (\<lambda>i m'. m'(a + of_nat i := src ! i)) [0..<n] m"
proof (induction n)
  case (Suc n)
  then have "take (Suc n) src = take n src @ [src ! n]" by (simp add: take_Suc_conv_app_nth)
  then show ?case using Suc by (simp add: wr_snoc min_def)
qed simp

lemma fold_map_comp: "fold f (map g xs) s = fold (\<lambda>x. f (g x)) xs s"
  by (induction xs arbitrary: s) auto

lemma upage_same_off:
  assumes "pt_wf m root" "same_off P m m'" "P \<inter> pt_pages m root = {}"
  shows "upage m' root va = upage m root va"
  unfolding upage_def leaf_same_off[OF assms] ..

lemma ureach_same_off:
  assumes "pt_wf m root" "same_off P m m'" "P \<inter> pt_pages m root = {}"
  shows "ureach m' root va len = ureach m root va len"
  unfolding ureach_def uok_def upage_same_off[OF assms] ..

lemma uframes_same_off:
  assumes "pt_wf m root" "same_off P m m'" "P \<inter> pt_pages m root = {}"
  shows "uframes m' root va len = uframes m root va len"
  unfolding uframes_def ureach_same_off[OF assms] upage_same_off[OF assms] ..

lemma uput_same_off:
  assumes "pt_wf m root" "same_off P m m'" "P \<inter> pt_pages m root = {}"
  shows "uput m' root va src is m'' = uput m root va src is m''"
  unfolding uput_def upa_def upage_same_off[OF assms] ..

lemma uall_same_off:
  assumes "pt_wf m root" "same_off P m m'" "P \<inter> pt_pages m root = {}"
  shows "uall m' root va len = uall m root va len"
  unfolding uall_def uok_def upage_same_off[OF assms] ..

lemma uframes_chunk:
  assumes "0 < len" "n = chunk va len" "upage m root (PGROUNDDOWN va) \<noteq> 0"
  shows "uframes m root va len =
    insert (upage m root (PGROUNDDOWN va)) (uframes m root (PGROUNDDOWN va + 4096) (len - n))"
proof -
  have eq: "va + of_nat (n + i) = PGROUNDDOWN va + 4096 + of_nat i"
    if "i \<in> set (ureach m root (PGROUNDDOWN va + 4096) (len - n))" for i
  proof -
    have "i < len - n" using that unfolding ureach_def by (auto dest: set_takeWhileD)
    then show ?thesis using chunk_next[of va len] assms(2) by (simp add: add.assoc[symmetric])
  qed
  have "(\<lambda>i. upage m root (PGROUNDDOWN (va + of_nat i))) ` {0..<n} = {upage m root (PGROUNDDOWN va)}"
    using in_chunk(1)[of _ va len] chunk_pos[OF assms(1), of va] assms(2) by force
  then show ?thesis
    unfolding uframes_def ureach_chunk[OF assms(1,2)] using assms(3) eq
    by (simp add: image_Un image_image del: of_nat_add cong: image_cong)
qed

lemma uput_chunk:
  assumes "src \<noteq> []" "n = chunk va (length src)" "upage m root (PGROUNDDOWN va) \<noteq> 0"
  shows "uput m root va src (ureach m root va (length src)) m' =
    uput m root (PGROUNDDOWN va + 4096) (drop n src)
      (ureach m root (PGROUNDDOWN va + 4096) (length (drop n src)))
      (wr m' (upage m root (PGROUNDDOWN va) + (va - PGROUNDDOWN va)) (take n src))"
proof -
  let ?f = "\<lambda>i m'. m'(upa m root (va + of_nat i) := src ! i)"
  let ?is = "ureach m root (PGROUNDDOWN va + 4096) (length src - n)"
  have nle: "n \<le> length src" "n < 2 ^ 64" using assms(2) by (simp_all add: chunk_eq)
  have "fold ?f [0..<n] m' = fold (\<lambda>i m'. m'(upage m root (PGROUNDDOWN va) + (va - PGROUNDDOWN va) + of_nat i := src ! i)) [0..<n] m'"
    using assms(2) by (intro fold_cong) (auto simp: upa_chunk[of _ va "length src"])
  then have one: "fold ?f [0..<n] m' = wr m' (upage m root (PGROUNDDOWN va) + (va - PGROUNDDOWN va)) (take n src)"
    using wr_fold[OF nle] by simp
  have two: "fold ?f (map (\<lambda>i. n + i) ?is) m'' =
      fold (\<lambda>i m'. m'(upa m root (PGROUNDDOWN va + 4096 + of_nat i) := drop n src ! i)) ?is m''" for m''
    unfolding fold_map_comp
  proof (rule fold_cong[OF refl refl])
    fix i assume "i \<in> set ?is"
    then have "i < length src - n" unfolding ureach_def by (auto dest: set_takeWhileD)
    moreover from this have "va + of_nat (n + i) = PGROUNDDOWN va + 4096 + of_nat i"
      using chunk_next[of va "length src"] assms(2) by (simp add: add.assoc[symmetric])
    ultimately show "?f (n + i) = (\<lambda>m'. m'(upa m root (PGROUNDDOWN va + 4096 + of_nat i) := drop n src ! i))"
      by (simp del: of_nat_add)
  qed
  show ?thesis
    using assms(1,3) one two ureach_chunk[of "length src" n va m root] assms(2)
    by (simp add: uput_def)
qed

lemma copyout_ok:
  "pt_wf (mem s) root \<Longrightarrow> uframes (mem s) root va (length src) \<inter> pt_pages (mem s) root = {} \<Longrightarrow>
   copyout root va src s = Inr (if uall (mem s) root va (length src) then 0 else -1,
     s\<lparr>mem := uput (mem s) root va src (ureach (mem s) root va (length src)) (mem s)\<rparr>)"
proof (induction "length src" arbitrary: va src s rule: less_induct)
  case (less src)
  show ?case
  proof (cases "src = []")
    case True
    then show ?thesis by (subst copyout.simps) (simp add: uput_def ureach_def)
  next
    case ne: False
    let ?n = "chunk va (length src)" and ?u = "upage (mem s) root (PGROUNDDOWN va)"
    have len: "0 < length src" using ne by simp
    show ?thesis
    proof (cases "?u = 0")
      case True
      then show ?thesis
        using ne less.prems(1) uall_chunk[OF len refl, of "mem s" root] ureach_chunk[OF len refl, of "mem s" root va]
        by (subst copyout.simps) (simp add: walkaddr_spec uput_def)
    next
      case u: False
      obtain m where m: "m = wr (mem s) (?u + (va - PGROUNDDOWN va)) (take ?n src)" by simp
      have off: "same_off {?u} (mem s) m"
        unfolding m page_offset_bound by (rule wr_same_off) (auto simp: chunk_eq)
      note fr = uframes_chunk[OF len refl u]
      have d: "{?u} \<inter> pt_pages (mem s) root = {}" using less.prems(2) unfolding fr by blast
      note so = less.prems(1) off d
      have dec: "length (drop ?n src) < length src" using len chunk_pos[OF len, of va] by simp
      have "uframes (mem s) root (PGROUNDDOWN va + 4096) (length (drop ?n src)) \<inter> pt_pages (mem s) root = {}"
        using less.prems(2) unfolding fr length_drop by blast
      then have fr': "uframes m root (PGROUNDDOWN va + 4096) (length (drop ?n src)) \<inter> pt_pages m root = {}"
        by (simp only: uframes_same_off[OF so] pt_pages_same_off[OF so])
      have "copyout root va src s = copyout root (PGROUNDDOWN va + 4096) (drop ?n src) (s\<lparr>mem := m\<rparr>)"
        using ne u less.prems(1) unfolding m by (subst copyout.simps) (simp add: walkaddr_spec Let_def)
      also have "\<dots> = Inr (if uall m root (PGROUNDDOWN va + 4096) (length (drop ?n src)) then 0 else -1,
          (s\<lparr>mem := m\<rparr>)\<lparr>mem := uput m root (PGROUNDDOWN va + 4096) (drop ?n src)
            (ureach m root (PGROUNDDOWN va + 4096) (length (drop ?n src))) m\<rparr>)"
        using less.hyps[OF dec, of "s\<lparr>mem := m\<rparr>" "PGROUNDDOWN va + 4096"] pt_wf_same_off[OF so] fr' by simp
      also have "\<dots> = Inr (if uall (mem s) root (PGROUNDDOWN va + 4096) (length (drop ?n src)) then 0 else -1,
          s\<lparr>mem := uput (mem s) root va src (ureach (mem s) root va (length src)) (mem s)\<rparr>)"
        unfolding uput_chunk[OF ne refl u] m[symmetric]
          uall_same_off[OF so] ureach_same_off[OF so] uput_same_off[OF so] by simp
      finally show ?thesis using uall_chunk[OF len refl, of "mem s" root va] u by simp
    qed
  qed
qed

lemma uput_other: "x \<notin> (\<lambda>i. upa m root (va + of_nat i)) ` set is \<Longrightarrow> uput m root va src is m' x = m' x"
  unfolding uput_def by (induction "is" arbitrary: m') auto

lemma uput_at:
  "inj_on (\<lambda>i. upa m root (va + of_nat i)) (set is) \<Longrightarrow> i \<in> set is \<Longrightarrow>
   uput m root va src is m' (upa m root (va + of_nat i)) = src ! i"
proof (induction "is" arbitrary: m')
  case (Cons j js)
  show ?case
  proof (cases "i \<in> set js")
    case True
    then show ?thesis using Cons by (simp add: uput_def)
  next
    case False
    then have "upa m root (va + of_nat i) \<notin> (\<lambda>i. upa m root (va + of_nat i)) ` set js"
      using Cons.prems unfolding inj_on_def by auto
    moreover have "i = j" using False Cons.prems(2) by simp
    ultimately show ?thesis
      using uput_other[of "upa m root (va + of_nat i)" m root va js src] by (simp add: uput_def)
  qed
qed simp

lemma copyout_same_off:
  assumes "pt_wf (mem s) root" "uframes (mem s) root va (length src) \<inter> pt_pages (mem s) root = {}"
    and "copyout root va src s = Inr (r, s')"
  shows "same_off (uframes (mem s) root va (length src)) (mem s) (mem s')"
proof -
  let ?is = "ureach (mem s) root va (length src)"
  have "mem s' = uput (mem s) root va src ?is (mem s)"
    using copyout_ok[OF assms(1,2)] assms(3) by auto
  moreover have "x \<notin> (\<lambda>i. upa (mem s) root (va + of_nat i)) ` set ?is"
    if "PGROUNDDOWN x \<notin> uframes (mem s) root va (length src)" for x
    using that by (auto simp: uframes_def page_upa)
  ultimately show ?thesis by (simp add: same_off_def uput_other)
qed

lemma copyout_copyin_ok:
  assumes wf: "pt_wf (mem s) root" and fr: "uframes (mem s) root va (length src) \<inter> pt_pages (mem s) root = {}"
    and all: "uall (mem s) root va (length src)"
    and inj: "inj_on (\<lambda>i. upa (mem s) root (va + of_nat i)) {..<length src}"
  obtains s' where "copyout root va src s = Inr (0, s')" "copyin root va (length src) s' = Inr (0, src)"
proof -
  let ?m = "mem s" and ?n = "length src"
  obtain s' where s': "copyout root va src s = Inr (0, s')"
    "mem s' = uput ?m root va src [0..<?n] ?m"
    using copyout_ok[OF wf fr] all by (simp add: ureach_all)
  note so = wf copyout_same_off[OF wf fr s'(1)] fr
  have "copyin root va ?n s' = Inr (0, ubytes (mem s') root va ?n)"
    using copyin_ok[OF pt_wf_same_off[OF so]] all by (simp add: uall_same_off[OF so])
  also have "ubytes (mem s') root va ?n = map (\<lambda>i. mem s' (upa ?m root (va + of_nat i))) [0..<?n]"
    unfolding ubytes_def ureach_same_off[OF so] ureach_all[OF all] upa_def upage_same_off[OF so] ..
  also have "\<dots> = src"
    by (rule nth_equalityI) (use inj in \<open>auto simp: s'(2) uput_at lessThan_atLeast0\<close>)
  finally show thesis using that s'(1) by blast
qed

section \<open>Strings\<close>

lemma str_scan_rd:
  "str_scan m p n = (if 0 \<in> set (rd m p n) then (takeWhile (\<lambda>c. c \<noteq> 0) (rd m p n) @ [0], True) else (rd m p n, False))"
  by (induction m p n rule: str_scan.induct) (auto simp: rd_Suc)

lemma copyinstr_loop_ok:
  "pt_wf (mem s) root \<Longrightarrow> bs = ubytes (mem s) root va mx \<Longrightarrow>
   copyinstr_loop root va mx len dst s = Inr (
     if 0 \<in> set bs
     then (int (len + length (takeWhile (\<lambda>c. c \<noteq> 0) bs)), dst @ takeWhile (\<lambda>c. c \<noteq> 0) bs @ [0])
     else (if uall (mem s) root va mx then int (len + mx) else -1, dst @ bs))"
proof (induction mx arbitrary: va len dst bs rule: less_induct)
  case (less mx)
  show ?case
  proof (cases "mx = 0")
    case True
    then show ?thesis using less.prems by (subst copyinstr_loop.simps) simp
  next
    case False
    then have pos: "0 < mx" by simp
    let ?n = "chunk va mx" and ?u = "upage (mem s) root (PGROUNDDOWN va)"
    have dec: "mx - ?n < mx" using False chunk_pos[of mx va] by simp
    show ?thesis
    proof (cases "?u = 0")
      case True
      then show ?thesis
        using False less.prems uall_chunk[OF pos refl, of "mem s" root va] ubytes_fault[OF pos True]
        by (subst copyinstr_loop.simps) (simp add: walkaddr_spec)
    next
      case u: False
      let ?bs = "rd (mem s) (?u + (va - PGROUNDDOWN va)) ?n"
      let ?cs = "ubytes (mem s) root (PGROUNDDOWN va + 4096) (mx - ?n)"
      have bs: "bs = ?bs @ ?cs" using less.prems(2) ubytes_chunk[OF pos refl u] by simp
      have step: "copyinstr_loop root va mx len dst s =
        (if 0 \<in> set ?bs then Inr (int (len + length (takeWhile (\<lambda>c. c \<noteq> 0) ?bs)), dst @ takeWhile (\<lambda>c. c \<noteq> 0) ?bs @ [0])
         else copyinstr_loop root (PGROUNDDOWN va + 4096) (mx - ?n) (len + ?n) (dst @ ?bs) s)"
        using False u less.prems(1)
        by (subst copyinstr_loop.simps) (simp add: walkaddr_spec Let_def str_scan_rd)
      show ?thesis
      proof (cases "0 \<in> set ?bs")
        case True
        then have "takeWhile (\<lambda>c. c \<noteq> 0) bs = takeWhile (\<lambda>c. c \<noteq> 0) ?bs"
          unfolding bs by (rule takeWhile_append1) simp
        then show ?thesis using step True bs by simp
      next
        case nz: False
        then have "takeWhile (\<lambda>c. c \<noteq> 0) bs = ?bs @ takeWhile (\<lambda>c. c \<noteq> 0) ?cs"
          unfolding bs by (subst takeWhile_append2) auto
        then show ?thesis
          using step nz bs less.IH[OF dec less.prems(1) refl, of "PGROUNDDOWN va + 4096" "len + ?n" "dst @ ?bs"]
            uall_chunk[OF pos refl, of "mem s" root va] u chunk_le[of va mx] by simp
      qed
    qed
  qed
qed

section \<open>Unmapping\<close>

definition ustep :: "u64 \<Rightarrow> nat \<Rightarrow> u64" where
  "ustep a i = a + of_nat (4096 * i)"

definition uframe_list :: "bmem \<Rightarrow> u64 \<Rightarrow> u64 \<Rightarrow> nat \<Rightarrow> u64 list" where
  "uframe_list m root a n = map (\<lambda>i. PTE2PA (leaf m root (ustep a i))) [0..<n]"

text \<open>The leaves after the pages from \<open>a\<close> on were unmapped.\<close>

definition clear_range :: "u64 \<Rightarrow> nat \<Rightarrow> (u64 \<Rightarrow> u64) \<Rightarrow> (u64 \<Rightarrow> u64)" where
  "clear_range a n lf = (\<lambda>va. if unat (PGROUNDDOWN va - a) < 4096 * n then 0 else lf va)"

lemma ustep_Suc: "ustep a (Suc i) = ustep (a + 4096) i"
  by (simp add: ustep_def algebra_simps)

lemma uframe_list_Suc:
  "uframe_list m root a (Suc n) = PTE2PA (leaf m root a) # uframe_list m root (a + 4096) n"
  by (simp add: uframe_list_def ustep_def upt_conv_Cons map_Suc_upt[symmetric] algebra_simps del: upt_Suc)

lemma clear_range_Suc:
  assumes "aligned a" "unat a + 4096 * Suc n < 2 ^ 64"
  shows "clear_range a (Suc n) lf va =
    clear_range (a + 4096) n (\<lambda>v. if PGROUNDDOWN v = a then 0 else lf v) va"
proof -
  let ?v = "PGROUNDDOWN va"
  have a4: "unat (a + 4096) = unat a + 4096" using assms(2) by (simp add: unat_word_ariths)
  obtain q where q: "unat a = 4096 * q" using assms(1) by (auto simp: aligned_unat)
  obtain r where r: "unat ?v = 4096 * r" using aligned_PGROUNDDOWN[of va] by (auto simp: aligned_unat)
  have "unat (?v - a) < 4096 * Suc n \<longleftrightarrow> q \<le> r \<and> r < q + Suc n"
    by (rule page_diff[OF q r assms(2)])
  moreover have "unat (?v - (a + 4096)) < 4096 * n \<longleftrightarrow> Suc q \<le> r \<and> r < Suc q + n"
    by (rule page_diff[OF _ r]) (use a4 q assms(2) in simp_all)
  moreover have "?v = a \<longleftrightarrow> r = q" using q r by (auto simp: word_unat_eq_iff)
  ultimately show ?thesis unfolding clear_range_def by auto
qed

definition unmappable :: "bmem \<Rightarrow> u64 \<Rightarrow> u64 \<Rightarrow> bool" where
  "unmappable m root va \<longleftrightarrow> leaf m root va AND PTE_V \<noteq> 0 \<and> PTE_FLAGS (leaf m root va) \<noteq> PTE_V"

text \<open>The frames may be given back: proper pages, each mapped once, neither free nor in the table.\<close>

definition releasable :: "'a kmem_scheme \<Rightarrow> u64 \<Rightarrow> u64 list \<Rightarrow> u64 list \<Rightarrow> bool" where
  "releasable s root fps fs \<longleftrightarrow> distinct fs \<and> set fs \<inter> set fps = {} \<and>
     set fs \<inter> pt_pages (mem s) root = {} \<and> (\<forall>f \<in> set fs. page_ok (ekernel s) f)"

lemma uvmunmap_step:
  assumes inv: "vm_inv s root fps" and a: "aligned a" "a < MAXVA" "a < lst"
    and um: "unmappable (mem s) root a"
    and rel: "fr \<Longrightarrow> releasable s root fps [PTE2PA (leaf (mem s) root a)]"
  obtains s' where "uvmunmap_loop root a lst fr s = uvmunmap_loop root (a + 4096) lst fr s'"
    "vm_inv s' root ((if fr then [PTE2PA (leaf (mem s) root a)] else []) @ fps)"
    "pt_pages (mem s') root = pt_pages (mem s) root" "ekernel s' = ekernel s"
    "\<And>va. va < MAXVA \<Longrightarrow> leaf (mem s') root va = (if PGROUNDDOWN va = a then 0 else leaf (mem s) root va)"
    "same_off (pt_pages (mem s) root \<union> (if fr then {PTE2PA (leaf (mem s) root a)} else {})) (mem s) (mem s')"
proof -
  let ?f = "PTE2PA (leaf (mem s) root a)"
  have wf: "pt_wf (mem s) root" using inv by (simp add: vm_inv_def)
  from wf a(2) obtain t where t: "walk root a False s = Inr (t + 8 * PX 0 a, s)" "t + 8 * PX 0 a \<noteq> 0"
    "ptpage (mem s) root [PX 2 a, PX 1 a] = Some t" "load64 (mem s) (t + 8 * PX 0 a) = leaf (mem s) root a"
    by (cases rule: walk_noalloc) (use um in \<open>auto simp: unmappable_def\<close>)
  obtain s1 where s1: "(if fr then kfree ?f s else Inr s) = Inr s1"
    "vm_inv s1 root ((if fr then [?f] else []) @ fps)" "ekernel s1 = ekernel s"
    "pt_pages (mem s1) root = pt_pages (mem s) root"
    "ptpage (mem s1) root [PX 2 a, PX 1 a] = Some t" "\<And>va. leaf (mem s1) root va = leaf (mem s) root va"
    "same_off (pt_pages (mem s) root \<union> (if fr then {?f} else {})) (mem s) (mem s1)"
  proof (cases fr)
    case True
    have r: "page_ok (ekernel s) ?f" "?f \<notin> set fps" "{?f} \<inter> pt_pages (mem s) root = {}"
      using rel[OF True] by (auto simp: releasable_def)
    have kw: "kmem_wf s fps" using inv by (simp add: vm_inv_def)
    from kw r(1,2) obtain s1 where s1: "kfree ?f s = Inr s1" "kmem_wf s1 (?f # fps)"
      "same_off {?f} (mem s) (mem s1)" "ekernel s1 = ekernel s" by (rule kfree_ok)
    note so = wf s1(3) r(3)
    show thesis
      by (rule that[of s1])
        (use True s1 pt_wf_same_off[OF so] pt_pages_same_off[OF so] ptpage_same_off[OF so path_ok_PX] t(3)
          leaf_same_off[OF so] r(3) inv same_off_mono[OF s1(3)] in \<open>auto simp: vm_inv_def\<close>)
  qed (use that[of s] inv t in simp)
  let ?s = "s1\<lparr>mem := store64 (mem s1) (t + 8 * PX 0 a) 0\<rparr>"
  note st = store_leaf_grow[OF s1(2,5) refl, where v = 0]
  have tp: "t \<in> pt_pages (mem s) root" using in_pt_pages[OF path_ok_PX t(3)] .
  show thesis
  proof (rule that)
    show "uvmunmap_loop root a lst fr s = uvmunmap_loop root (a + 4096) lst fr ?s"
      using a(3) t um s1(1) by (subst uvmunmap_loop.simps) (cases fr, simp_all add: unmappable_def)
    show "vm_inv ?s root ((if fr then [?f] else []) @ fps)" by (rule vm_grow_inv[OF st(1)])
    show "pt_pages (mem ?s) root = pt_pages (mem s) root"
      using leaf_store(2)[of "mem s1" root a t "mem ?s" 0] s1 by (simp add: vm_inv_def)
    show "leaf (mem ?s) root va = (if PGROUNDDOWN va = a then 0 else leaf (mem s) root va)" if "va < MAXVA" for va
      unfolding st(2)[OF a(2) that] PGROUNDDOWN_aligned[OF a(1)] s1(6) ..
    have "same_off {t} (mem s1) (mem ?s)"
      using pt_wf_page[OF wf tp] by (simp add: store_entry_same_off)
    then show "same_off (pt_pages (mem s) root \<union> (if fr then {?f} else {})) (mem s) (mem ?s)"
      by (rule same_off_trans[OF s1(7)]) (use tp in auto)
  qed (use s1(3) in simp)
qed

lemma unat_ustep: "unat a + 4096 * i < 2 ^ 64 \<Longrightarrow> unat (ustep a i) = unat a + 4096 * i"
  unfolding ustep_def by (simp add: unat_word_ariths unat_of_nat_u64 del: of_nat_mult)

lemma uvmunmap_loop_ok:
  assumes "vm_inv s root fps" "aligned a" "unat a + 4096 * n \<le> unat MAXVA" "lst = ustep a n"
    "\<forall>i<n. unmappable (mem s) root (ustep a i)"
    "fr \<Longrightarrow> releasable s root fps (uframe_list (mem s) root a n)"
  shows "\<exists>s'. uvmunmap_loop root a lst fr s = Inr s' \<and>
    vm_inv s' root ((if fr then rev (uframe_list (mem s) root a n) else []) @ fps) \<and>
    pt_pages (mem s') root = pt_pages (mem s) root \<and> ekernel s' = ekernel s \<and>
    (\<forall>va<MAXVA. leaf (mem s') root va = clear_range a n (leaf (mem s) root) va) \<and>
    same_off (pt_pages (mem s) root \<union> (if fr then set (uframe_list (mem s) root a n) else {})) (mem s) (mem s')"
  using assms
proof (induction n arbitrary: a s fps)
  case 0
  then have "uvmunmap_loop root a lst fr s = Inr s"
    by (subst uvmunmap_loop.simps) (simp add: ustep_def)
  then show ?case using 0(1) by (auto simp: uframe_list_def clear_range_def)
next
  case (Suc n)
  let ?fs = "uframe_list (mem s) root (a + 4096) n" and ?f = "PTE2PA (leaf (mem s) root a)"
  have a4: "unat (a + 4096) = unat a + 4096"
    using Suc.prems(3) by (simp add: unat_word_ariths unat_MAXVA)
  have aM: "a < MAXVA" using Suc.prems(3) by (simp add: word_less_nat_alt)
  have ul: "unat lst = unat a + 4096 * Suc n"
    unfolding Suc.prems(4) by (rule unat_ustep) (use Suc.prems(3) in \<open>simp add: unat_MAXVA\<close>)
  then have al: "a < lst" by (simp add: word_less_nat_alt)
  have um: "unmappable (mem s) root a" using Suc.prems(5)[rule_format, of 0] by (simp add: ustep_def)
  have rel: "releasable s root fps [?f]" if fr
    using Suc.prems(6)[OF that] unfolding uframe_list_Suc by (auto simp: releasable_def)
  obtain s1 where s1: "uvmunmap_loop root a lst fr s = uvmunmap_loop root (a + 4096) lst fr s1"
    "vm_inv s1 root ((if fr then [?f] else []) @ fps)"
    "pt_pages (mem s1) root = pt_pages (mem s) root" "ekernel s1 = ekernel s"
    "\<And>va. va < MAXVA \<Longrightarrow> leaf (mem s1) root va = (if PGROUNDDOWN va = a then 0 else leaf (mem s) root va)"
    "same_off (pt_pages (mem s) root \<union> (if fr then {?f} else {})) (mem s) (mem s1)"
    using uvmunmap_step[OF Suc.prems(1,2) aM al um rel] by blast
  have step: "leaf (mem s1) root (ustep (a + 4096) i) = leaf (mem s) root (ustep (a + 4096) i)" if "i < n" for i
  proof -
    have u: "unat (ustep (a + 4096) i) = unat (a + 4096) + 4096 * i"
      by (rule unat_ustep) (use Suc.prems(3) that a4 in \<open>simp add: unat_MAXVA\<close>)
    then have m: "ustep (a + 4096) i < MAXVA" using Suc.prems(3) that a4 by (simp add: word_less_nat_alt)
    have "unat (PGROUNDDOWN (ustep (a + 4096) i)) \<noteq> unat a"
      using u a4 Suc.prems(2) by (auto simp: unat_PGROUNDDOWN aligned_unat)
    then show ?thesis using s1(5)[OF m] by auto
  qed
  have fs: "uframe_list (mem s1) root (a + 4096) n = ?fs"
    unfolding uframe_list_def using step by simp
  have "\<exists>s'. uvmunmap_loop root (a + 4096) lst fr s1 = Inr s' \<and>
    vm_inv s' root ((if fr then rev ?fs else []) @ (if fr then [?f] else []) @ fps) \<and>
    pt_pages (mem s') root = pt_pages (mem s1) root \<and> ekernel s' = ekernel s1 \<and>
    (\<forall>va<MAXVA. leaf (mem s') root va = clear_range (a + 4096) n (leaf (mem s1) root) va) \<and>
    same_off (pt_pages (mem s1) root \<union> (if fr then set ?fs else {})) (mem s1) (mem s')"
  proof (rule Suc.IH[OF s1(2), of "a + 4096", unfolded fs])
    show "aligned (a + 4096)" using Suc.prems(2) a4 by (simp add: aligned_unat mod_simps)
    show "unat (a + 4096) + 4096 * n \<le> unat MAXVA" using Suc.prems(3) a4 by simp
    show "lst = ustep (a + 4096) n" using Suc.prems(4) by (simp add: ustep_Suc)
    show "\<forall>i<n. unmappable (mem s1) root (ustep (a + 4096) i)"
      using Suc.prems(5) step by (auto simp: unmappable_def ustep_Suc[symmetric])
    show "releasable s1 root ((if fr then [?f] else []) @ fps) ?fs" if fr
      using Suc.prems(6)[OF that] that s1(3,4) unfolding uframe_list_Suc by (auto simp: releasable_def)
  qed
  then obtain s' where s': "uvmunmap_loop root (a + 4096) lst fr s1 = Inr s'"
    "vm_inv s' root ((if fr then rev ?fs else []) @ (if fr then [?f] else []) @ fps)"
    "pt_pages (mem s') root = pt_pages (mem s1) root" "ekernel s' = ekernel s1"
    "\<And>va. va < MAXVA \<Longrightarrow> leaf (mem s') root va = clear_range (a + 4096) n (leaf (mem s1) root) va"
    "same_off (pt_pages (mem s1) root \<union> (if fr then set ?fs else {})) (mem s1) (mem s')" by blast
  have "leaf (mem s') root va = clear_range a (Suc n) (leaf (mem s) root) va" if "va < MAXVA" for va
  proof -
    have "clear_range a (Suc n) (leaf (mem s) root) va =
        clear_range (a + 4096) n (\<lambda>v. if PGROUNDDOWN v = a then 0 else leaf (mem s) root v) va"
      by (rule clear_range_Suc[OF Suc.prems(2)]) (use Suc.prems(3) in \<open>simp add: unat_MAXVA\<close>)
    then show ?thesis unfolding s'(5)[OF that] by (simp add: clear_range_def s1(5)[OF that])
  qed
  moreover have "same_off (pt_pages (mem s) root \<union> (if fr then set (uframe_list (mem s) root a (Suc n)) else {})) (mem s) (mem s')"
    by (rule same_off_trans[OF s1(6) s'(6)]) (auto simp: uframe_list_Suc s1(3))
  ultimately show ?case using s' s1 by (auto simp: uframe_list_Suc)
qed

section \<open>Mapping at the level of the C function\<close>

definition npages :: "u64 \<Rightarrow> u64 \<Rightarrow> nat" where
  "npages va sz = Suc ((unat va + unat sz - 1) div 4096 - unat va div 4096)"

lemma last_page:
  assumes "0 < sz" "unat va + unat sz \<le> unat MAXVA"
  shows "unat (PGROUNDDOWN va) + 4096 * (npages va sz - 1) < unat MAXVA"
    "PGROUNDDOWN (va + sz - 1) = ustep (PGROUNDDOWN va) (npages va sz - 1)"
proof -
  obtain x y where xy: "x = unat va div 4096" "y = (unat va + unat sz - 1) div 4096" by simp
  have sz: "0 < unat sz" using assms(1) by (simp add: word_less_nat_alt)
  have "x \<le> y" unfolding xy by (rule div_le_mono) (use sz in simp)
  then have lt: "x * 4096 + 4096 * (y - x) = y * 4096" by (simp add: diff_mult_distrib2)
  have n: "npages va sz - 1 = y - x" by (simp add: npages_def xy)
  have "y * 4096 \<le> unat va + unat sz - 1" unfolding xy by (rule div_times_less_eq_dividend)
  then have yl: "y * 4096 < unat MAXVA" using assms(2) sz by linarith
  show 1: "unat (PGROUNDDOWN va) + 4096 * (npages va sz - 1) < unat MAXVA"
    unfolding n unat_PGROUNDDOWN xy(1)[symmetric] lt by (rule yl)
  have vs: "unat (va + sz) = unat va + unat sz" using assms(2) by (simp add: unat_word_ariths unat_MAXVA)
  have u: "unat (va + sz - 1) = unat va + unat sz - 1"
    using vs sz by (subst unat_sub) (simp_all add: word_le_nat_alt)
  show "PGROUNDDOWN (va + sz - 1) = ustep (PGROUNDDOWN va) (npages va sz - 1)"
  proof (rule unat_eqI)
    have "unat (ustep (PGROUNDDOWN va) (y - x)) = unat (PGROUNDDOWN va) + 4096 * (y - x)"
      by (rule unat_ustep) (rule less_trans[OF 1[unfolded n unat_MAXVA]], simp)
    then show "unat (PGROUNDDOWN (va + sz - 1)) = unat (ustep (PGROUNDDOWN va) (npages va sz - 1))"
      unfolding n unat_PGROUNDDOWN u xy[symmetric] lt by simp
  qed
qed

lemma mappages_ok:
  assumes "vm_inv s root fps" "0 < sz" "unat va + unat sz \<le> unat MAXVA"
  shows "\<exists>r s' fps' j. mappages root va sz pa perm s = Inr (r, s') \<and> vm_grow s fps root s' fps' \<and>
    (\<forall>v<MAXVA. leaf (mem s') root v = map_range (PGROUNDDOWN va) pa (scast perm) j (leaf (mem s) root) v) \<and>
    (r = 0 \<and> j = npages va sz \<or>
     r = -1 \<and> j < npages va sz \<and> (fps' = [] \<or> leaf (mem s) root (ustep (PGROUNDDOWN va) j) AND 1 \<noteq> 0))"
proof -
  have n: "npages va sz = Suc (npages va sz - 1)" by (simp add: npages_def)
  show ?thesis
    using mappages_loop_ok[OF assms(1) aligned_PGROUNDDOWN last_page(1)[OF assms(2,3)]
        last_page(2)[OF assms(2,3), unfolded ustep_def], of pa "scast perm"]
    unfolding mappages_def ustep_def using n by (metis less_Suc_eq_le)
qed

lemma uvmunmap_ok:
  assumes "vm_inv s root fps" "aligned va" "unat va + 4096 * unat n \<le> unat MAXVA"
    "\<forall>i<unat n. unmappable (mem s) root (ustep va i)"
    "fr \<Longrightarrow> releasable s root fps (uframe_list (mem s) root va (unat n))"
  shows "\<exists>s'. uvmunmap root va n fr s = Inr s' \<and>
    vm_inv s' root ((if fr then rev (uframe_list (mem s) root va (unat n)) else []) @ fps) \<and>
    pt_pages (mem s') root = pt_pages (mem s) root \<and> ekernel s' = ekernel s \<and>
    (\<forall>v<MAXVA. leaf (mem s') root v = clear_range va (unat n) (leaf (mem s) root) v) \<and>
    same_off (pt_pages (mem s) root \<union> (if fr then set (uframe_list (mem s) root va (unat n)) else {})) (mem s) (mem s')"
proof -
  have "va + n * 4096 = ustep va (unat n)" by (simp add: ustep_def)
  then show ?thesis
    using uvmunmap_loop_ok[OF assms(1-3) _ assms(4,5), of "va + n * 4096"] assms(2)
    by (simp add: uvmunmap_def aligned_def)
qed

text \<open>What a successful mapping makes visible to the user.\<close>

lemma PTE_bits:
  assumes "bit f 4" "aligned pa" "unat pa < 2 ^ 54" "unat f < 1024"
  shows "(PA2PTE pa OR f OR 1) AND 1 \<noteq> 0" "(PA2PTE pa OR f OR 1) AND 16 \<noteq> 0"
    "PTE2PA (PA2PTE pa OR f OR 1) = pa"
proof -
  have "bit ((PA2PTE pa OR f OR 1) AND 16) 4" using assms(1) by (simp add: bit_simps)
  then show "(PA2PTE pa OR f OR 1) AND 16 \<noteq> 0" by auto
  have "unat (f OR 1) < 1024"
  proof -
    have "take_bit 10 f = f"
      using assms(4) by (simp add: word_unat_eq_iff unsigned_take_bit_eq take_bit_nat_eq_self)
    then have "f OR 1 = take_bit 10 (f OR 1)" by (simp add: take_bit_or)
    then have "unat (f OR 1) = take_bit 10 (unat (f OR 1))" by (metis unsigned_take_bit_eq)
    then show ?thesis using take_bit_nat_less_exp[of 10 "unat (f OR 1)"] by simp
  qed
  then show "PTE2PA (PA2PTE pa OR f OR 1) = pa"
    using PTE2PA_flags[OF assms(2,3), of "f OR 1"] by (simp add: or.assoc)
qed simp

section \<open>The empty table\<close>

lemma filled_entry:
  assumes "filled m a 0" "i < 512"
  shows "load64 m (a + 8 * i) = 0" "entry_page m a i = None"
  using load64_filled_0[OF assms(1), of "unat i"] idx_less[OF assms(2)] by (simp_all add: entry_page_def)

lemma empty_table:
  assumes "filled m root 0"
  shows "path_ok q \<Longrightarrow> ptpage m root q = (if q = [] then Some root else None)"
    "pt_pages m root = {root}" "aligned root \<Longrightarrow> root \<noteq> 0 \<Longrightarrow> pt_wf m root" "leaf m root va = 0"
proof -
  have pt: "ptpage m root q = (if q = [] then Some root else None)" if "path_ok q" for q
    using that filled_entry(2)[OF assms] by (cases q) (auto simp: path_ok_def)
  then show "path_ok q \<Longrightarrow> ptpage m root q = (if q = [] then Some root else None)" .
  show pp: "pt_pages m root = {root}"
    unfolding pt_pages_def using pt by (auto split: if_splits intro: exI[of _ "[]"])
  show "pt_wf m root" if "aligned root" "root \<noteq> 0"
  proof (rule pt_wfI)
    show "load64 m (a + 8 * i) AND 14 = 0" if "path_ok (q @ [i])" "ptpage m root q = Some a" for q i a
      using that pt[of q] filled_entry(1)[OF assms, of i] by (auto simp: path_ok_snoc split: if_splits)
    show "entry_page m root i = None" if "i < 512" "256 \<le> i" for i by (rule filled_entry(2)[OF assms that(1)])
  qed (use that pt in \<open>auto simp: pp split: if_splits\<close>)
  show "leaf m root va = 0" unfolding leaf_def pt[OF path_ok_PX] by simp
qed

lemma uvmcreate_ok:
  assumes "kmem_wf s fps"
  obtains (empty) "fps = []" "uvmcreate s = (0, s)"
  | (table) root rest s' where "fps = root # rest" "uvmcreate s = (root, s')" "vm_inv s' root rest"
      "filled (mem s') root 0" "same_off {root} (mem s) (mem s')" "ekernel s' = ekernel s"
proof (cases fps)
  case Nil
  then show thesis using assms kalloc_Nil[of s] empty by (simp add: uvmcreate_def)
next
  case (Cons root rest)
  then obtain s1 where s1: "kalloc s = (root, s1)" "kmem_wf s1 rest" "same_off {root} (mem s) (mem s1)"
    "ekernel s1 = ekernel s" using assms kalloc_Cons by metis
  have r: "page_ok (ekernel s) root" "root \<noteq> 0" "root \<notin> set rest"
    using assms kmem.pool_valid[OF assms, of root] kmem.pool_distinct[OF assms] unfolding Cons by auto
  let ?s = "s1\<lparr>mem := memset (mem s1) root 0 4096\<rparr>"
  have off: "same_off {root} (mem s1) (mem ?s)" using memset_same_off[OF page_ok_aligned[OF r(1)]] by simp
  have "chain (mem ?s) (freelist s1) rest"
    using s1(2) r(3) by (intro chain_same_off[OF _ off]) (auto simp: kmem_wf_def)
  then have kw: "kmem_wf ?s rest" using s1(2) by (simp add: kmem_wf_def)
  have fl: "filled (mem ?s) root 0" using memset_filled[of "mem s1" root 0] by simp
  have "vm_inv ?s root rest"
    unfolding vm_inv_def empty_table(2)[OF fl] using kw empty_table(3)[OF fl] r by auto
  moreover have "same_off {root} (mem s) (mem ?s)" by (rule same_off_trans[OF s1(3) off]) simp
  moreover have "uvmcreate s = (root, ?s)" using s1(1) r(2) by (simp add: uvmcreate_def)
  ultimately show thesis using table Cons fl s1(4) by simp
qed

text \<open>A concrete allocator state with four free pages, for the examples below.\<close>

lemma four_pages: "\<exists>s :: kmem. kmem_wf s [0x87fff000, 0x87ffe000, 0x87ffd000, 0x87ffc000] \<and> ekernel s = 0x80200000"
proof -
  let ?s = "\<lparr>mem = (\<lambda>_. 0), freelist = 0, ekernel = 0x80200000\<rparr>"
  have "\<exists>s'. freerange_loop 0x87ffc000 PHYSTOP ?s = Inr s' \<and> ekernel s' = ekernel ?s \<and>
      kmem_wf s' (rev (map (\<lambda>i. 0x87ffc000 + of_nat (4096 * i)) [0..<4]) @ [])"
    by (rule freerange_loop_ok) (simp_all add: kmem_wf_def aligned_def unat_PHYSTOP)
  then show ?thesis by (simp add: upt_rec) blast
qed

lemma new_table: "\<exists>s :: kmem. vm_inv s 0x87fff000 [0x87ffe000, 0x87ffd000, 0x87ffc000] \<and>
   filled (mem s) 0x87fff000 0 \<and> ekernel s = 0x80200000"
proof -
  obtain s :: kmem where "kmem_wf s [0x87fff000, 0x87ffe000, 0x87ffd000, 0x87ffc000]" "ekernel s = 0x80200000"
    using four_pages by blast
  then show ?thesis by (cases rule: uvmcreate_ok[of s]) auto
qed

section \<open>Properties\<close>

text \<open>C14: \<open>mappages\<close> returns. On success exactly the pages of the range are mapped, to consecutive
  frames with the given permissions, and no other address changes its translation; on failure
  a prefix of the range is mapped, and the cause is that the allocator ran dry or that the next page
  was mapped already. The table stays well-formed and takes its pages from the free list.\<close>

theorem mappages_correct:
  assumes "vm_inv s root fps" "0 < sz" "unat va + unat sz \<le> unat MAXVA"
  shows "\<exists>r s' fps' j. mappages root va sz pa perm s = Inr (r, s') \<and> vm_grow s fps root s' fps' \<and>
    (\<forall>v<MAXVA. leaf (mem s') root v = map_range (PGROUNDDOWN va) pa (scast perm) j (leaf (mem s) root) v) \<and>
    (r = 0 \<and> j = npages va sz \<or>
     r = -1 \<and> j < npages va sz \<and> (fps' = [] \<or> leaf (mem s) root (ustep (PGROUNDDOWN va) j) AND 1 \<noteq> 0))"
  by (rule mappages_ok[OF assms])

theorem mappages_correct_witness:
  "\<exists>(s :: kmem) r s' fps' j. mappages 0x87fff000 0x1ff8 0x1010 0x80400000 0x17 s = Inr (r, s') \<and>
    vm_grow s [0x87ffe000, 0x87ffd000, 0x87ffc000] 0x87fff000 s' fps' \<and>
    (r = 0 \<and> j = npages 0x1ff8 0x1010 \<or> r = -1 \<and> fps' = [])"
proof -
  obtain s :: kmem where s: "vm_inv s 0x87fff000 [0x87ffe000, 0x87ffd000, 0x87ffc000]"
    "filled (mem s) 0x87fff000 0" using new_table by blast
  show ?thesis
    using mappages_correct[OF s(1), of "0x1010" "0x1ff8" "0x80400000" "0x17"] empty_table(4)[OF s(2)]
    by (simp add: unat_MAXVA) blast
qed

text \<open>C16: \<open>uvmunmap\<close> on mapped pages succeeds, clears exactly their entries, and with \<open>do_free\<close>
  returns exactly their frames to the allocator; nothing else in memory changes.\<close>

theorem uvmunmap_correct:
  assumes "vm_inv s root fps" "aligned va" "unat va + 4096 * unat n \<le> unat MAXVA"
    "\<forall>i<unat n. unmappable (mem s) root (ustep va i)"
    "fr \<Longrightarrow> releasable s root fps (uframe_list (mem s) root va (unat n))"
  shows "\<exists>s'. uvmunmap root va n fr s = Inr s' \<and>
    vm_inv s' root ((if fr then rev (uframe_list (mem s) root va (unat n)) else []) @ fps) \<and>
    pt_pages (mem s') root = pt_pages (mem s) root \<and> ekernel s' = ekernel s \<and>
    (\<forall>v<MAXVA. leaf (mem s') root v = clear_range va (unat n) (leaf (mem s) root) v) \<and>
    same_off (pt_pages (mem s) root \<union> (if fr then set (uframe_list (mem s) root va (unat n)) else {})) (mem s) (mem s')"
  by (rule uvmunmap_ok[OF assms])

text \<open>A table with one user page, for the examples.\<close>

lemma one_page_table:
  "\<exists>(s :: kmem) fps. vm_inv s 0x87fff000 fps \<and> set fps \<subseteq> {0x87ffe000, 0x87ffd000, 0x87ffc000} \<and>
     (\<forall>va<MAXVA. leaf (mem s) 0x87fff000 va = (if PGROUNDDOWN va = 0x1000 then PA2PTE 0x87000000 OR 0x16 OR 1 else 0)) \<and>
     ekernel s = 0x80200000 \<and>
     pt_pages (mem s) 0x87fff000 \<subseteq> {0x87fff000, 0x87ffe000, 0x87ffd000, 0x87ffc000}"
proof -
  let ?fps = "[0x87ffe000, 0x87ffd000, 0x87ffc000] :: u64 list"
  obtain s :: kmem where s: "vm_inv s 0x87fff000 ?fps" "filled (mem s) 0x87fff000 0" "ekernel s = 0x80200000"
    using new_table by blast
  note e = empty_table[OF s(2)]
  have al: "aligned 0x1000" "(0x1000 :: u64) < MAXVA" by (simp_all add: aligned_def MAXVA_def)
  obtain s' fps' where s': "vm_grow s ?fps 0x87fff000 s' fps'"
    "\<And>va. va < MAXVA \<Longrightarrow> leaf (mem s') 0x87fff000 va =
       (if PGROUNDDOWN va = 0x1000 then PA2PTE 0x87000000 OR 0x16 OR PTE_V else leaf (mem s) 0x87fff000 va)"
    by (rule mappages_one[OF s(1) al, where pa = "0x87000000" and perm = "0x16"]) (use e(4) in auto)
  show ?thesis
    by (rule exI[of _ s'], rule exI[of _ fps'])
      (use s'(1) s'(2) e(2,4) s(3) in \<open>auto simp: vm_grow_def\<close>)
qed

theorem uvmunmap_correct_witness:
  "\<exists>(s :: kmem) s' fps. uvmunmap 0x87fff000 0x1000 1 True s = Inr s' \<and>
     vm_inv s' 0x87fff000 (0x87000000 # fps) \<and> leaf (mem s) 0x87fff000 0x1000 \<noteq> 0 \<and> leaf (mem s') 0x87fff000 0x1000 = 0"
proof -
  obtain s :: kmem and fps where s: "vm_inv s 0x87fff000 fps" "set fps \<subseteq> {0x87ffe000, 0x87ffd000, 0x87ffc000}"
    "\<And>va. va < MAXVA \<Longrightarrow> leaf (mem s) 0x87fff000 va = (if PGROUNDDOWN va = 0x1000 then PA2PTE 0x87000000 OR 0x16 OR 1 else 0)"
    "ekernel s = 0x80200000" "pt_pages (mem s) 0x87fff000 \<subseteq> {0x87fff000, 0x87ffe000, 0x87ffd000, 0x87ffc000}"
    using one_page_table by blast
  have l: "leaf (mem s) 0x87fff000 0x1000 = 0x21C00017"
    using s(3)[of "0x1000"] by (simp add: MAXVA_def PGROUNDDOWN_def PA2PTE_def)
  have fl: "uframe_list (mem s) 0x87fff000 0x1000 (Suc 0) = [0x87000000]"
    by (simp add: uframe_list_def ustep_def l PTE2PA_def)
  have "\<exists>s'. uvmunmap 0x87fff000 0x1000 1 True s = Inr s' \<and>
    vm_inv s' 0x87fff000 ((if True then rev (uframe_list (mem s) 0x87fff000 0x1000 (unat (1 :: u64))) else []) @ fps) \<and>
    pt_pages (mem s') 0x87fff000 = pt_pages (mem s) 0x87fff000 \<and> ekernel s' = ekernel s \<and>
    (\<forall>v<MAXVA. leaf (mem s') 0x87fff000 v = clear_range 0x1000 (unat (1 :: u64)) (leaf (mem s) 0x87fff000) v) \<and>
    same_off (pt_pages (mem s) 0x87fff000 \<union> (if True then set (uframe_list (mem s) 0x87fff000 0x1000 (unat (1 :: u64))) else {})) (mem s) (mem s')"
  proof (rule uvmunmap_correct[OF s(1)])
    show "releasable s 0x87fff000 fps (uframe_list (mem s) 0x87fff000 0x1000 (unat (1 :: u64)))"
      using s(2,4,5) by (auto simp: fl releasable_def page_ok_def aligned_def PHYSTOP_def)
  qed (simp_all add: aligned_def unat_MAXVA unmappable_def ustep_def l PTE_FLAGS_def)
  then obtain s' where "uvmunmap 0x87fff000 0x1000 1 True s = Inr s'" "vm_inv s' 0x87fff000 (0x87000000 # fps)"
    "leaf (mem s') 0x87fff000 0x1000 = 0"
    by (auto simp: fl clear_range_def PGROUNDDOWN_def MAXVA_def)
  then show ?thesis using l by (intro exI[of _ s] exI[of _ s'] exI[of _ fps]) simp
qed

text \<open>C30: \<open>copyin\<close> returns the user bytes up to the first page fault, and 0 exactly when every
  byte of the range is accessible to the user, whatever the alignment of the range.\<close>

theorem copyin_correct:
  assumes "pt_wf (mem s) root"
  shows "copyin root va len s =
    Inr (if uall (mem s) root va len then 0 else -1, ubytes (mem s) root va len)"
  by (rule copyin_ok[OF assms])

lemma example_access:
  assumes l: "\<forall>va<MAXVA. leaf m r va = (if PGROUNDDOWN va = 0x1000 then PA2PTE 0x87000000 OR 0x16 OR 1 else 0)"
  shows "upage m r 0x1000 = 0x87000000" "upage m r 0x2000 = 0"
proof -
  have "leaf m r 0x1000 = 0x21C00017" "leaf m r 0x2000 = 0"
    using l[rule_format, of "0x1000"] l[rule_format, of "0x2000"] by (simp_all add: MAXVA_def PGROUNDDOWN_def PA2PTE_def)
  then show "upage m r 0x1000 = 0x87000000" "upage m r 0x2000 = 0"
    by (simp_all add: upage_def MAXVA_def PTE2PA_def)
qed

lemma example_reach:
  assumes l: "\<forall>va<MAXVA. leaf m r va = (if PGROUNDDOWN va = 0x1000 then PA2PTE 0x87000000 OR 0x16 OR 1 else 0)"
  shows "ureach m r 0x1ffe 4 = [0, 1]" "uall m r 0x1ffc 4" "uframes m r 0x1ffc 4 = {0x87000000}"
    "upa m r (0x1ffc + x) = upage m r (PGROUNDDOWN (0x1ffc + x)) + ((0x1ffc + x) - PGROUNDDOWN (0x1ffc + x))"
    "i < 4 \<Longrightarrow> upa m r (0x1ffc + of_nat i) = 0x87000ffc + of_nat i"
proof -
  note e = example_access[OF l]
  have u: "upt 0 4 = [0, 1, 2, 3]" by (simp add: upt_rec)
  have lt4: "(i < 4) = (i = 0 \<or> i = 1 \<or> i = 2 \<or> i = 3)" for i :: nat by auto
  show "ureach m r 0x1ffe 4 = [0, 1]" using e by (simp add: ureach_def u uok_def PGROUNDDOWN_def)
  show a: "uall m r 0x1ffc 4" using e by (auto simp: uall_def lt4 uok_def PGROUNDDOWN_def)
  show "uframes m r 0x1ffc 4 = {0x87000000}"
    unfolding uframes_def ureach_all[OF a] u using e by (simp add: PGROUNDDOWN_def)
  show "i < 4 \<Longrightarrow> upa m r (0x1ffc + of_nat i) = 0x87000ffc + of_nat i"
    using e by (auto simp: lt4 upa_def PGROUNDDOWN_def)
qed (simp add: upa_def)

theorem copyin_correct_witness:
  "\<exists>s :: kmem. copyin 0x87fff000 0x1ffe 4 s = Inr (-1, [mem s 0x87000ffe, mem s 0x87000fff])"
proof -
  obtain s :: kmem and fps where s: "vm_inv s 0x87fff000 fps"
    "\<forall>va<MAXVA. leaf (mem s) 0x87fff000 va = (if PGROUNDDOWN va = 0x1000 then PA2PTE 0x87000000 OR 0x16 OR 1 else 0)"
    using one_page_table by blast
  note r = example_reach(1)[OF s(2)] and e = example_access[OF s(2)]
  have "\<not> uall (mem s) 0x87fff000 0x1ffe 4" unfolding uall_ureach r by simp
  moreover have "ubytes (mem s) 0x87fff000 0x1ffe 4 = [mem s 0x87000ffe, mem s 0x87000fff]"
    unfolding ubytes_def r using e by (simp add: upa_def PGROUNDDOWN_def)
  ultimately have "copyin 0x87fff000 0x1ffe 4 s = Inr (-1, [mem s 0x87000ffe, mem s 0x87000fff])"
    using copyin_correct[of s "0x87fff000" "0x1ffe" 4] s(1) by (simp add: vm_inv_def)
  then show ?thesis by blast
qed

text \<open>C22: what \<open>copyout\<close> stores is what \<open>copyin\<close> reads back, when the pages of the range are
  accessible, hold no table page, and no two addresses share a byte.\<close>

theorem copyout_copyin:
  assumes "pt_wf (mem s) root" "uframes (mem s) root va (length src) \<inter> pt_pages (mem s) root = {}"
    and "uall (mem s) root va (length src)"
    and "inj_on (\<lambda>i. upa (mem s) root (va + of_nat i)) {..<length src}"
  shows "\<exists>s'. copyout root va src s = Inr (0, s') \<and> copyin root va (length src) s' = Inr (0, src)"
  using copyout_copyin_ok[OF assms] by metis

theorem copyout_copyin_witness:
  "\<exists>(s :: kmem) s'. copyout 0x87fff000 0x1ffc [1, 2, 3, 4] s = Inr (0, s') \<and>
     copyin 0x87fff000 0x1ffc 4 s' = Inr (0, [1, 2, 3, 4])"
proof -
  obtain s :: kmem and fps where s: "vm_inv s 0x87fff000 fps"
    "\<forall>va<MAXVA. leaf (mem s) 0x87fff000 va = (if PGROUNDDOWN va = 0x1000 then PA2PTE 0x87000000 OR 0x16 OR 1 else 0)"
    "pt_pages (mem s) 0x87fff000 \<subseteq> {0x87fff000, 0x87ffe000, 0x87ffd000, 0x87ffc000}"
    using one_page_table by blast
  note r = example_reach[OF s(2)]
  have len: "length [1, 2, 3, 4 :: u8] = 4" by simp
  have inj: "inj_on (\<lambda>i. upa (mem s) 0x87fff000 (0x1ffc + of_nat i)) {..<4}"
  proof (rule inj_onI)
    fix i j :: nat
    assume a: "i \<in> {..<4}" "j \<in> {..<4}"
      "upa (mem s) 0x87fff000 (0x1ffc + of_nat i) = upa (mem s) 0x87fff000 (0x1ffc + of_nat j)"
    then have "(of_nat i :: u64) = of_nat j" using r(5)[of i] r(5)[of j] by simp
    then have "unat (of_nat i :: u64) = unat (of_nat j :: u64)" by (rule arg_cong)
    then show "i = j" using a(1,2) by (simp add: unat_of_nat_u64)
  qed
  have "\<exists>s'. copyout 0x87fff000 0x1ffc [1, 2, 3, 4] s = Inr (0, s') \<and>
      copyin 0x87fff000 0x1ffc (length [1, 2, 3, 4 :: u8]) s' = Inr (0, [1, 2, 3, 4])"
    by (rule copyout_copyin; (unfold len)?)
      (use s(1,3) r(2,3) inj in \<open>auto simp: vm_inv_def\<close>)
  then show ?thesis unfolding len by blast
qed

text \<open>C31: \<open>copyout\<close> changes no byte outside the user frames it was asked to write, also when it
  fails half way; in particular no kernel page and no page of another address space.\<close>

theorem copyout_frame:
  assumes "pt_wf (mem s) root" "uframes (mem s) root va (length src) \<inter> pt_pages (mem s) root = {}"
    and "copyout root va src s = Inr (r, s')"
  shows "same_off (uframes (mem s) root va (length src)) (mem s) (mem s') \<and>
    freelist s' = freelist s \<and> ekernel s' = ekernel s"
  using copyout_same_off[OF assms] copyout_ok[OF assms(1,2)] assms(3) by auto

theorem copyout_frame_witness:
  "\<exists>(s :: kmem) s'. copyout 0x87fff000 0x1ffc [1, 2, 3, 4] s = Inr (0, s') \<and> same_off {0x87000000} (mem s) (mem s')"
proof -
  obtain s :: kmem and fps where s: "vm_inv s 0x87fff000 fps"
    "\<forall>va<MAXVA. leaf (mem s) 0x87fff000 va = (if PGROUNDDOWN va = 0x1000 then PA2PTE 0x87000000 OR 0x16 OR 1 else 0)"
    "pt_pages (mem s) 0x87fff000 \<subseteq> {0x87fff000, 0x87ffe000, 0x87ffd000, 0x87ffc000}"
    using one_page_table by blast
  note r = example_reach[OF s(2)]
  let ?b = "[1, 2, 3, 4 :: u8]"
  have len: "length ?b = 4" by simp
  have wf: "pt_wf (mem s) 0x87fff000" using s(1) by (simp add: vm_inv_def)
  have fr: "uframes (mem s) 0x87fff000 0x1ffc (length ?b) \<inter> pt_pages (mem s) 0x87fff000 = {}"
    unfolding len r using s(3) by auto
  obtain s' where s': "copyout 0x87fff000 0x1ffc ?b s = Inr (0, s')"
    using copyout_ok[OF wf fr] unfolding len using r(2) by simp
  show ?thesis using copyout_frame[OF wf fr s'] s' unfolding len r(3) by blast
qed



end
