(* ===== verification/MemOnly.thy ===== *)
theory MemOnly
  imports UserMem
begin

text \<open>
  The operations of \<open>kalloc.c\<close> and \<open>vm.c\<close> change the memory and the head of the free list and no
  other part of a state that extends theirs. \<open>mem_only\<close> says so; the collection \<open>frame_intros\<close>
  carries it through every operation.
\<close>

named_theorems frame_intros \<open>operations that change only memory\<close>

definition mem_only :: "'a kmem_scheme \<Rightarrow> 'a kmem_scheme \<Rightarrow> bool" where
  "mem_only s s' \<longleftrightarrow> ekernel s' = ekernel s \<and> kmem.more s' = kmem.more s"

lemma mem_only_refl [simp, frame_intros]: "mem_only s s"
  by (simp add: mem_only_def)

lemma mem_only_trans: "mem_only s s' \<Longrightarrow> mem_only s' s'' \<Longrightarrow> mem_only s s''"
  by (simp add: mem_only_def)

lemma mem_only_mem [simp]: "mem_only s (s'\<lparr>mem := m\<rparr>) \<longleftrightarrow> mem_only s s'"
  by (simp add: mem_only_def)

lemma kfree_mem_only [frame_intros]: "kfree a s = Inr s' \<Longrightarrow> mem_only s s'"
  by (auto simp: kfree_def mem_only_def Let_def split: if_splits)

lemma kalloc_mem_only [frame_intros]: "kalloc s = (a, s') \<Longrightarrow> mem_only s s'"
  by (auto simp: kalloc_def mem_only_def Let_def split: if_splits)

lemma walk_loop_mem_only [frame_intros]: "walk_loop l pt va al s = (a, s') \<Longrightarrow> mem_only s s'"
proof (induction l arbitrary: pt s)
  case (Suc l)
  let ?e = "load64 (mem s) (pt + 8 * PX (Suc l) va)"
  obtain p s1 where k: "kalloc s = (p, s1)" by fastforce
  show ?case
  proof (cases "?e AND 1 \<noteq> 0 \<or> \<not> al \<or> p = 0")
    case True
    then show ?thesis
      using Suc.prems Suc.IH kalloc_mem_only[OF k] k
      by (auto simp: Let_def mem_only_refl split: if_splits)
  next
    case False
    then have "mem_only (s1\<lparr>mem := store64 (memset (mem s1) p 0 4096) (pt + 8 * PX (Suc l) va) (PA2PTE p OR PTE_V)\<rparr>) s'"
      using Suc.prems k by (intro Suc.IH[of p]) (auto simp: Let_def)
    moreover have "mem_only s (s1\<lparr>mem := store64 (memset (mem s1) p 0 4096) (pt + 8 * PX (Suc l) va) (PA2PTE p OR PTE_V)\<rparr>)"
      using kalloc_mem_only[OF k] by simp
    ultimately show ?thesis using mem_only_trans by blast
  qed
qed (auto intro: mem_only_refl)

lemma walk_mem_only [frame_intros]: "walk pt va al s = Inr (a, s') \<Longrightarrow> mem_only s s'"
  by (auto simp: walk_def split: if_splits intro: walk_loop_mem_only)

lemma mappages_loop_mem_only: "mappages_loop pt a lst pa perm s = Inr (r, s') \<Longrightarrow> mem_only s s'"
proof (induction pt a lst pa perm s rule: mappages_loop.induct)
  case (1 pt a lst pa perm s)
  obtain pte s1 where w: "walk pt a True s = Inr (pte, s1)"
    using 1(2) by (subst (asm) mappages_loop.simps) (auto simp: bindE_Inr_iff)
  note m = walk_mem_only[OF w]
  let ?s = "s1\<lparr>mem := store64 (mem s1) pte (PA2PTE pa OR perm OR PTE_V)\<rparr>"
  show ?case
  proof (cases "pte = 0 \<or> load64 (mem s1) pte AND 1 \<noteq> 0 \<or> a = lst")
    case True
    then show ?thesis
      using 1(2) w m by (subst (asm) mappages_loop.simps) (auto simp: Let_def split: if_splits)
  next
    case False
    then have "mappages_loop pt (a + 4096) lst (pa + 4096) perm ?s = Inr (r, s')"
      using 1(2) w by (subst (asm) mappages_loop.simps) (auto simp: Let_def)
    then have "mem_only ?s s'" using 1(1)[OF w refl, of ?s] False by auto
    moreover have "mem_only s ?s" using m by simp
    ultimately show ?thesis using mem_only_trans by blast
  qed
qed

lemma mappages_mem_only [frame_intros]: "mappages pt va z pa perm s = Inr (r, s') \<Longrightarrow> mem_only s s'"
  unfolding mappages_def by (rule mappages_loop_mem_only)

lemma uvmcreate_mem_only [frame_intros]: "uvmcreate s = (pt, s') \<Longrightarrow> mem_only s s'"
  by (auto simp: uvmcreate_def split: prod.splits if_splits dest: kalloc_mem_only)

lemma uvmunmap_loop_mem_only: "uvmunmap_loop pt a lst fr s = Inr s' \<Longrightarrow> mem_only s s'"
proof (induction pt a lst fr s rule: uvmunmap_loop.induct)
  case (1 pt a lst fr s)
  show ?case
  proof (cases "a < lst")
    case True
    obtain pte s1 where w: "walk pt a False s = Inr (pte, s1)"
      using 1(2) True by (subst (asm) uvmunmap_loop.simps) (auto simp: bindE_Inr_iff)
    have g: "pte \<noteq> 0" "load64 (mem s1) pte AND 1 \<noteq> 0" "PTE_FLAGS (load64 (mem s1) pte) \<noteq> 1"
      using 1(2) True w by (subst (asm) uvmunmap_loop.simps; auto split: if_splits)+
    obtain s2 where f: "(if fr then kfree (PTE2PA (load64 (mem s1) pte)) s1 else Inr s1) = Inr s2"
      using 1(2) True w g by (subst (asm) uvmunmap_loop.simps) (auto simp: bindE_Inr_iff split: if_splits)
    let ?s = "s2\<lparr>mem := store64 (mem s2) pte 0\<rparr>"
    have "uvmunmap_loop pt (a + 4096) lst fr ?s = Inr s'"
      using 1(2) True w g f by (subst (asm) uvmunmap_loop.simps) (simp del: if_split)
    then have "mem_only ?s s'" using 1(1)[OF True w refl] g f by auto
    moreover have "mem_only s ?s"
      using walk_mem_only[OF w] f kfree_mem_only[of _ s1 s2] mem_only_trans[of s s1 s2]
      by (auto split: if_splits)
    ultimately show ?thesis using mem_only_trans by blast
  next
    case False
    then show ?thesis using 1(2) by (subst (asm) uvmunmap_loop.simps) simp
  qed
qed

lemma uvmunmap_mem_only [frame_intros]: "uvmunmap pt va n fr s = Inr s' \<Longrightarrow> mem_only s s'"
  by (auto simp: uvmunmap_def split: if_splits intro: uvmunmap_loop_mem_only)

lemma freewalk_loop_mem_only: "freewalk_loop d k pt s = Inr s' \<Longrightarrow> mem_only s s'"
proof (induction d k pt s arbitrary: s' rule: freewalk_loop.induct)
  case (1 d pt s)
  then show ?case by simp
next
  case (2 k pt s)
  let ?e = "load64 (mem s) (pt + 8 * of_nat (512 - Suc k))"
  have n: "\<not> (?e AND PTE_V \<noteq> 0 \<and> ?e AND (2 OR 4 OR 8) = 0)"
  proof
    assume c: "?e AND PTE_V \<noteq> 0 \<and> ?e AND (2 OR 4 OR 8) = 0"
    show False using 2(2) unfolding freewalk_loop.simps(2) Let_def if_P[OF c] by (rule sum.distinct(1)[THEN notE])
  qed
  have "freewalk_loop 0 k pt s = Inr s'"
    using 2(2) unfolding freewalk_loop.simps(2) Let_def if_not_P[OF n] .
  then show ?case using 2(1)[OF refl n] by blast
next
  case (3 d k pt s)
  let ?a = "pt + 8 * of_nat (512 - Suc k)"
  let ?e = "load64 (mem s) ?a"
  show ?case
  proof (cases "?e AND PTE_V \<noteq> 0 \<and> ?e AND (2 OR 4 OR 8) = 0")
    case True
    then obtain s1 s2 where s: "freewalk_loop d 512 (PTE2PA ?e) s = Inr s1" "kfree (PTE2PA ?e) s1 = Inr s2"
      "freewalk_loop (Suc d) k pt (s2\<lparr>mem := store64 (mem s2) ?a 0\<rparr>) = Inr s'"
      using 3(4) unfolding freewalk_loop.simps(3) Let_def if_P[OF True] bindE_Inr_iff by blast
    have "mem_only s s1" using 3(1)[OF refl refl True s(1)] .
    moreover have "mem_only s1 s2" using kfree_mem_only[OF s(2)] .
    moreover have "mem_only (s2\<lparr>mem := store64 (mem s2) ?a 0\<rparr>) s'"
      using 3(2)[OF refl refl True s] .
    ultimately show ?thesis unfolding mem_only_def by simp
  next
    case False
    have "freewalk_loop (Suc d) k pt s = Inr s'"
      using 3(4) unfolding freewalk_loop.simps(3) Let_def if_not_P[OF False] .
    then show ?thesis using 3(3)[OF refl refl False] by blast
  qed
qed

lemma freewalk_mem_only [frame_intros]: "freewalk d pt s = Inr s' \<Longrightarrow> mem_only s s'"
  by (auto simp: freewalk_def bindE_Inr_iff intro: mem_only_trans freewalk_loop_mem_only kfree_mem_only)

lemma uvmfree_mem_only [frame_intros]: "uvmfree pt z s = Inr s' \<Longrightarrow> mem_only s s'"
  by (auto simp: uvmfree_def bindE_Inr_iff split: if_splits
      intro: mem_only_trans freewalk_mem_only uvmunmap_mem_only)

lemma copyout_mem_only [frame_intros]: "copyout pt va src s = Inr (r, s') \<Longrightarrow> mem_only s s'"
proof (induction pt va src s rule: copyout.induct)
  case (1 pt va src s)
  show ?case
  proof (cases "src = []")
    case False
    obtain pa where w: "walkaddr pt (PGROUNDDOWN va) s = Inr pa"
      using 1(2) False by (subst (asm) copyout.simps) (auto simp: Let_def bindE_Inr_iff)
    show ?thesis
    proof (cases "pa = 0")
      case True
      then show ?thesis using 1(2) False w by (subst (asm) copyout.simps) (simp add: Let_def)
    next
      case pa: False
      let ?n = "chunk va (length src)"
      let ?s = "s\<lparr>mem := wr (mem s) (pa + (va - PGROUNDDOWN va)) (take ?n src)\<rparr>"
      have "copyout pt (PGROUNDDOWN va + 4096) (drop ?n src) ?s = Inr (r, s')"
        using 1(2) False w pa by (subst (asm) copyout.simps) (simp add: Let_def)
      then have "mem_only ?s s'" using 1(1)[OF False refl w pa refl refl] by blast
      moreover have "mem_only s ?s" by simp
      ultimately show ?thesis using mem_only_trans by blast
    qed
  qed (use 1(2) in \<open>subst (asm) copyout.simps, simp\<close>)
qed

end
