(* ===== verification/Proc.thy ===== *)
theory Proc
  imports MemOnly
begin

text \<open>
  The process table, \<open>kernel/proc.h\<close> and the operations of \<open>kernel/proc.c\<close> that need only it and
  the page tables: initialisation, allocation of a process and its page table, descriptors,
  lookup by pid, priorities, the time structure, and the per-process mailbox. The life cycle
  (fork, exec, wait, exit, spawn and the scheduler) is in the theory Lifecycle.
\<close>

section \<open>State\<close>

datatype procstate = UNUSED | USED | SLEEPING | RUNNABLE | RUNNING | ZOMBIE

record cpu_context =
  ctx_ra :: u64
  ctx_sp :: u64
  ctx_s :: "u64 list"

text \<open>\<open>struct Mailbox\<close>: 17 slots of 256 bytes; the \<open>int\<close> fields stay far below their bounds.\<close>

record mbox =
  mb_head :: int
  mb_tail :: int
  mb_len :: "int list"
  mails :: "u8 list list"

text \<open>A \<open>struct proc *\<close> points to \<open>idle\<close> or into \<open>pool\<close>; the null pointer is \<open>None\<close>.\<close>

datatype pref = Idle | Pool nat

record proc =
  pstate :: procstate
  killed :: int
  pid :: int
  pagetable :: u64
  ustack :: u64
  kstack :: u64
  trapframe :: u64
  ctx :: cpu_context
  psz :: u64
  parent :: "pref option"
  exit_code :: u64
  files :: "nat option list"
  mailbox :: mbox
  stride :: u64
  prio :: u64
  pass :: u64

text \<open>
  The state of \<open>proc.c\<close>, and the addresses the linker fixes. A \<open>struct file *\<close> is an index of
  \<open>filepool\<close>. The trapframes and kernel stacks are in memory, at the addresses stored here.
\<close>

record kproc = kmem +
  pool :: "proc list"
  idle :: proc
  current_proc :: "pref option"
  curr_pid :: int
  PID :: int
  e_text :: u64
  trampoline :: u64
  usertrapret :: u64
  kstack_arr :: u64
  ustack_arr :: u64
  boot_stack_top :: u64

text \<open>The table as the loader leaves it: static storage, cleared.\<close>

definition mbox0 :: mbox where
  "mbox0 = \<lparr>mb_head = 0, mb_tail = 0, mb_len = replicate 17 0, mails = replicate 17 (replicate 256 0)\<rparr>"

definition proc0 :: proc where
  "proc0 = \<lparr>pstate = UNUSED, killed = 0, pid = 0, pagetable = 0, ustack = 0, kstack = 0, trapframe = 0,
     ctx = \<lparr>ctx_ra = 0, ctx_sp = 0, ctx_s = replicate 12 0\<rparr>, psz = 0, parent = None, exit_code = 0,
     files = replicate 16 None, mailbox = mbox0, stride = 0, prio = 0, pass = 0\<rparr>"

definition kproc0 :: "bmem \<Rightarrow> kproc" where
  "kproc0 m = \<lparr>mem = m, freelist = 0, ekernel = 0x80240000, pool = replicate 256 proc0, idle = proc0,
     current_proc = None, curr_pid = 0, PID = 1, e_text = 0x80210000, trampoline = 0x80200000,
     usertrapret = 0x80201000, kstack_arr = 0x80230000, ustack_arr = 0x80238000, boot_stack_top = 0x80220000\<rparr>"

definition curr_proc :: "'a kproc_scheme \<Rightarrow> pref" where
  "curr_proc s = (case current_proc s of None \<Rightarrow> Idle | Some r \<Rightarrow> r)"

definition proc_at :: "'a kproc_scheme \<Rightarrow> pref \<Rightarrow> proc" where
  "proc_at s r = (case r of Idle \<Rightarrow> idle s | Pool i \<Rightarrow> pool s ! i)"

definition set_proc :: "pref \<Rightarrow> proc \<Rightarrow> 'a kproc_scheme \<Rightarrow> 'a kproc_scheme" where
  "set_proc r p s = (case r of Idle \<Rightarrow> s\<lparr>idle := p\<rparr> | Pool i \<Rightarrow> s\<lparr>pool := (pool s)[i := p]\<rparr>)"

abbreviation cproc :: "'a kproc_scheme \<Rightarrow> proc" where
  "cproc s \<equiv> proc_at s (curr_proc s)"

text \<open>
  A store through a kernel pointer that came from a user: the kernel page table maps the RAM from
  the end of the text on for writing, everything else traps. Device registers do not count.
\<close>

definition kwritable :: "'a kproc_scheme \<Rightarrow> u64 \<Rightarrow> nat \<Rightarrow> bool" where
  "kwritable s a n \<longleftrightarrow> e_text s \<le> a \<and> unat a + n \<le> unat PHYSTOP"

section \<open>Lookup\<close>

definition get_proc :: "int \<Rightarrow> 'a kproc_scheme \<Rightarrow> nat option" where
  "get_proc i s = find_idx (\<lambda>p. pid p = i) (pool s)"

definition get_proc_by_id :: "int \<Rightarrow> 'a kproc_scheme \<Rightarrow> nat option" where
  "get_proc_by_id i s = find_idx (\<lambda>p. pstate p \<noteq> UNUSED \<and> pid p = i) (pool s)"

section \<open>Initialisation and allocation\<close>

text \<open>The loop of \<open>procinit\<close> over the slots from \<open>i\<close> on, \<open>n\<close> of them to go.\<close>

fun procinit_loop :: "nat \<Rightarrow> nat \<Rightarrow> 'a kproc_scheme \<Rightarrow> 'a kproc_scheme" where
  "procinit_loop 0 i s = s"
| "procinit_loop (Suc n) i s =
     (let p = (pool s ! i)\<lparr>pstate := UNUSED, kstack := kstack_arr s + 4096 * of_nat i,
                            ustack := ustack_arr s + 4096 * of_nat i\<rparr>
      in case kalloc s of (tf, s) \<Rightarrow>
        procinit_loop n (Suc i) (s\<lparr>pool := (pool s)[i := p\<lparr>trapframe := tf, pid := 0\<rparr>]\<rparr>))"

definition procinit :: "'a kproc_scheme \<Rightarrow> 'a kproc_scheme" where
  "procinit s =
     (let s = procinit_loop 256 0 s
      in s\<lparr>idle := (idle s)\<lparr>kstack := boot_stack_top s, pid := 0, killed := 0\<rparr>\<rparr>)"

definition allocpid :: "'a kproc_scheme \<Rightarrow> int \<times> 'a kproc_scheme" where
  "allocpid s = (PID s, s\<lparr>PID := PID s + 1\<rparr>)"

text \<open>\<open>proc_pagetable\<close> is given the trapframe address of its process; the structure has 36 words.\<close>

definition proc_pagetable :: "u64 \<Rightarrow> 'a kproc_scheme \<Rightarrow> (u64 \<times> 'a kproc_scheme) res" where
  "proc_pagetable tf s =
     (case uvmcreate s of (pt, s) \<Rightarrow>
       if pt = 0 then Inl (Panic '''')
       else bindE (mappages pt TRAMPOLINE PGSIZE (trampoline s) (2 OR 8) s) (\<lambda>(r, s).
         if r < 0 then bindE (uvmfree pt 0 s) (\<lambda>s. Inr (0, s))
         else let s = s\<lparr>mem := memset (mem s) tf 0 288\<rparr>
              in bindE (mappages pt TRAPFRAME PGSIZE tf (2 OR 4) s) (\<lambda>(r, s).
                if r < 0 then Inl (Panic '''') else Inr (pt, s))))"

definition proc_freepagetable :: "u64 \<Rightarrow> u64 \<Rightarrow> 'a kproc_scheme \<Rightarrow> 'a kproc_scheme res" where
  "proc_freepagetable pt sz s =
     bindE (uvmunmap pt TRAMPOLINE 1 False s) (\<lambda>s.
     bindE (uvmunmap pt TRAPFRAME 1 False s) (\<lambda>s.
     uvmfree pt sz s))"

definition allocproc :: "'a kproc_scheme \<Rightarrow> (nat option \<times> 'a kproc_scheme) res" where
  "allocproc s =
     (case find_idx (\<lambda>p. pstate p = UNUSED) (pool s) of
        None \<Rightarrow> Inr (None, s)
      | Some i \<Rightarrow>
        (case allocpid s of (newpid, s) \<Rightarrow>
         let p = (pool s ! i)\<lparr>pid := newpid, pstate := USED, psz := 0, exit_code := -1,
                                parent := None, ustack := 0\<rparr>;
             s = s\<lparr>pool := (pool s)[i := p]\<rparr>
         in bindE (proc_pagetable (trapframe p) s) (\<lambda>(pt, s).
           let p = p\<lparr>pagetable := pt\<rparr>
           in if pt = 0 then Inl (Panic '''')
              else let s = s\<lparr>mem := memset (mem s) (trapframe p) 0 4096\<rparr>;
                       s = s\<lparr>mem := memset (mem s) (kstack p) 0 4096\<rparr>;
                       p = p\<lparr>ctx := \<lparr>ctx_ra = usertrapret s, ctx_sp = kstack p + 4096, ctx_s = replicate 12 0\<rparr>,
                             prio := 16, pass := 100000 div 16, stride := 0\<rparr>
                   in Inr (Some i, s\<lparr>pool := (pool s)[i := p]\<rparr>))))"

section \<open>Descriptors, priority, time\<close>

text \<open>\<open>for (int i = 3; i < FD_MAX; ++i) if (p->files[i] == 0)\<close>\<close>

definition fdalloc :: "nat \<Rightarrow> 'a kproc_scheme \<Rightarrow> int \<times> 'a kproc_scheme" where
  "fdalloc f s =
     (let p = cproc s
      in case find_idx (\<lambda>e. e = None) (take 13 (drop 3 (files p))) of
           None \<Rightarrow> (-1, s)
         | Some k \<Rightarrow> (int (k + 3), set_proc (curr_proc s) (p\<lparr>files := (files p)[k + 3 := Some f]\<rparr>) s))"

definition set_priority :: "int \<Rightarrow> 'a kproc_scheme \<Rightarrow> u64 \<times> 'a kproc_scheme" where
  "set_priority code s =
     (if code \<ge> 2 \<and> code \<le> 2147483647
      then let p = (cproc s)\<lparr>prio := of_int code\<rparr>; p = p\<lparr>pass := 100000 div prio p\<rparr>
           in (of_int code, set_proc (curr_proc s) p s)
      else (-1, s))"

text \<open>The two reads of the cycle counter are inputs.\<close>

definition get_time :: "u64 \<Rightarrow> u64 \<Rightarrow> u64 \<Rightarrow> 'a kproc_scheme \<Rightarrow> (u64 \<times> 'a kproc_scheme) res" where
  "get_time cycle1 cycle2 ts s =
     (if \<not> kwritable s ts 16 then Inl (Wild ''get_time: store'')
      else let m = store64 (mem s) ts (cycle1 div 12500000);
               m = store64 m (ts + 8) (cycle2 mod 12500000 * 10 div 125)
           in Inr (0, s\<lparr>mem := m\<rparr>))"

section \<open>Copies to and from the current process\<close>

text \<open>
  With \<open>user_dst = 0\<close> the destination is a kernel object, and the bytes it receives are returned;
  with \<open>user_src = 0\<close> the source is one, given as its bytes from the source address on.
\<close>

definition either_copyout ::
  "bool \<Rightarrow> u64 \<Rightarrow> u8 list \<Rightarrow> 'a kproc_scheme \<Rightarrow> (int \<times> u8 list \<times> 'a kproc_scheme) res" where
  "either_copyout user_dst dst src s =
     (if user_dst
      then bindE (copyout (pagetable (cproc s)) dst src s) (\<lambda>(r, s). Inr (r, [], s))
      else Inr (0, src, s))"

definition either_copyin ::
  "bool \<Rightarrow> u64 \<Rightarrow> u8 list \<Rightarrow> nat \<Rightarrow> 'a kproc_scheme \<Rightarrow> (int \<times> u8 list) res" where
  "either_copyin user_src src ksrc len s =
     (if user_src then copyin (pagetable (cproc s)) src len s
      else if len \<le> length ksrc then Inr (0, take len ksrc)
      else Inl (Wild ''memmove: past the end of a kernel object''))"

section \<open>The mailbox\<close>

text \<open>
  A negative length is converted to a huge \<open>uint64\<close> and runs off the end of the 256-byte slot.
\<close>

definition mail_read :: "u64 \<Rightarrow> int \<Rightarrow> 'a kproc_scheme \<Rightarrow> (int \<times> 'a kproc_scheme) res" where
  "mail_read buf len s =
     (let p = cproc s; mb = mailbox p
      in if mb_tail mb = mb_head mb then Inr (-1, s)
         else if len = 0 then Inr (0, s)
         else let hd = nat (mb_head mb);
                  len = (if len > mb_len mb ! hd then mb_len mb ! hd else len)
              in if len < 0 \<or> int (length (mails mb ! hd)) < len then Inl (Wild ''mail_read: past the slot'')
                 else bindE (copyout (pagetable p) buf (take (nat len) (mails mb ! hd)) s) (\<lambda>(ret, s).
                   if ret = -1 then Inr (-1, s)
                   else Inr (len, set_proc (curr_proc s)
                     (p\<lparr>mailbox := mb\<lparr>mb_head := (1 + mb_head mb) mod 17\<rparr>\<rparr>) s)))"

definition mail_write :: "nat \<Rightarrow> u64 \<Rightarrow> int \<Rightarrow> 'a kproc_scheme \<Rightarrow> (int \<times> 'a kproc_scheme) res" where
  "mail_write i buf len s =
     (let p = pool s ! i; mb = mailbox p
      in if (1 + mb_tail mb) mod 17 = mb_head mb then Inr (-1, s)
         else if len = 0 then Inr (0, s)
         else let len = (if len > 256 then 256 else len);
                  tl = nat (mb_tail mb);
                  mb = mb\<lparr>mb_len := (mb_len mb)[tl := len]\<rparr>
              in if len < 0 then Inl (Wild ''mail_write: past the slot'')
                 else bindE (copyin (pagetable (cproc s)) buf (nat len) s) (\<lambda>(ret, bs).
                   let mb = mb\<lparr>mails := (mails mb)[tl := bs @ drop (length bs) (mails mb ! tl)]\<rparr>
                   in if ret = -1 then Inr (-1, s\<lparr>pool := (pool s)[i := p\<lparr>mailbox := mb\<rparr>]\<rparr>)
                      else Inr (len, s\<lparr>pool := (pool s)[i :=
                             p\<lparr>mailbox := mb\<lparr>mb_tail := (1 + mb_tail mb) mod 17\<rparr>\<rparr>]\<rparr>)))"

section \<open>Frames\<close>

lemma mem_only_fields:
  assumes "mem_only s s'"
  shows "pool s' = pool s" "idle s' = idle s" "current_proc s' = current_proc s" "curr_pid s' = curr_pid s"
    "PID s' = PID s" "e_text s' = e_text s" "trampoline s' = trampoline s" "usertrapret s' = usertrapret s"
    "ekernel s' = ekernel s"
  using assms by (cases s; cases s'; simp add: mem_only_def)+

lemma mem_only_curr_proc: "mem_only s s' \<Longrightarrow> curr_proc s' = curr_proc s"
  by (simp add: curr_proc_def mem_only_fields)

lemma mem_only_proc_at: "mem_only s s' \<Longrightarrow> proc_at s' r = proc_at s r"
  by (simp add: proc_at_def mem_only_fields split: pref.split)

end
