(* ===== verification/Fifo.thy ===== *)
theory Fifo
  imports Prelude
begin

text \<open>
  Bounded queues. The pipe and the mailbox keep their contents in a ring of slots with two
  counters; the locale \<open>fifo\<close> is the contract both are shown to satisfy (Pipe, Mailbox), and the
  stream theorem is proved once from it. The ring arithmetic they share comes first.
\<close>

section \<open>Rings\<close>

text \<open>The elements from position \<open>r\<close> on in a ring of \<open>N\<close> slots.\<close>

definition ring_list :: "nat \<Rightarrow> (nat \<Rightarrow> 'a) \<Rightarrow> nat \<Rightarrow> nat \<Rightarrow> 'a list" where
  "ring_list N f r n = map (\<lambda>i. f ((r + i) mod N)) [0..<n]"

lemma length_ring_list [simp]: "length (ring_list N f r n) = n"
  by (simp add: ring_list_def)

lemma ring_list_cong:
  "(\<And>i. i < n \<Longrightarrow> f ((r + i) mod N) = g ((r + i) mod N)) \<Longrightarrow> ring_list N f r n = ring_list N g r n"
  by (simp add: ring_list_def)

lemma ring_list_mod: "ring_list N f (r mod N) n = ring_list N f r n"
  by (simp add: ring_list_def mod_simps)

lemma ring_list_drop: "k \<le> n \<Longrightarrow> drop k (ring_list N f r n) = ring_list N f (r + k) (n - k)"
  by (rule nth_equalityI) (auto simp: ring_list_def ac_simps)

lemma ring_list_take: "k \<le> n \<Longrightarrow> take k (ring_list N f r n) = ring_list N f r k"
  by (rule nth_equalityI) (auto simp: ring_list_def)

lemma ring_list_append: "ring_list N f r n @ ring_list N f (r + n) k = ring_list N f r (n + k)"
  by (rule nth_equalityI) (auto simp: ring_list_def nth_append)

lemma ring_list_linear: "r mod N + n \<le> N \<Longrightarrow> ring_list N f r n = map (\<lambda>i. f (r mod N + i)) [0..<n]"
proof -
  assume a: "r mod N + n \<le> N"
  have "(r + i) mod N = r mod N + i" if "i < n" for i
  proof -
    have "(r mod N + i) mod N = r mod N + i" using a that by simp
    then show ?thesis by (simp add: mod_simps)
  qed
  then show ?thesis by (simp add: ring_list_def)
qed

text \<open>Two positions of a ring at a distance below its size are different.\<close>

lemma ring_distinct:
  assumes "i < j" "j < i + N"
  shows "(r + i) mod N \<noteq> (r + j) mod (N :: nat)"
proof
  assume "(r + i) mod N = (r + j) mod N"
  then have "(j - i) mod N = 0"
    using assms by (metis (no_types, lifting) add_diff_cancel_left less_imp_le mod_eq_dvd_iff_nat dvd_imp_mod_0 nat_add_left_cancel_le)
  then show False using assms by simp
qed

section \<open>The contract\<close>

datatype 'a fop = Put "'a list" | Get nat

primrec put_of :: "'a fop \<Rightarrow> 'a list" where
  "put_of (Put xs) = xs"
| "put_of (Get n) = []"

locale fifo =
  fixes inv :: "'s \<Rightarrow> bool"
    and contents :: "'s \<Rightarrow> 'a list"
    and cap :: nat
    and put :: "'a list \<Rightarrow> 's \<Rightarrow> 's"
    and get :: "nat \<Rightarrow> 's \<Rightarrow> 'a list \<times> 's"
    and can_put :: "'s \<Rightarrow> 'a list \<Rightarrow> bool"
    and can_get :: "'s \<Rightarrow> nat \<Rightarrow> bool"
  assumes put_ok: "inv s \<Longrightarrow> can_put s xs \<Longrightarrow> inv (put xs s) \<and> contents (put xs s) = contents s @ xs"
    and get_ok: "inv s \<Longrightarrow> can_get s n \<Longrightarrow> n \<le> length (contents s) \<and> inv (snd (get n s)) \<and>
      fst (get n s) = take n (contents s) \<and> contents (snd (get n s)) = drop n (contents s)"
    and bounded: "inv s \<Longrightarrow> length (contents s) \<le> cap"
begin

text \<open>A sequence of operations; \<open>None\<close> when one of them is not enabled.\<close>

primrec run :: "'a fop list \<Rightarrow> 's \<Rightarrow> ('a list \<times> 's) option" where
  "run [] s = Some ([], s)"
| "run (x # xs) s =
     (case x of
        Put ys \<Rightarrow> if can_put s ys then run xs (put ys s) else None
      | Get n \<Rightarrow> if can_get s n
          then (case get n s of (ys, s) \<Rightarrow>
                 case run xs s of None \<Rightarrow> None | Some (zs, s) \<Rightarrow> Some (ys @ zs, s))
          else None)"

lemma run_stream:
  "inv s \<Longrightarrow> run xs s = Some (out, s') \<Longrightarrow>
   inv s' \<and> out @ contents s' = contents s @ concat (map put_of xs)"
proof (induction xs arbitrary: s out)
  case (Cons x xs)
  show ?case
  proof (cases x)
    case (Put ys)
    then have "can_put s ys" "run xs (put ys s) = Some (out, s')"
      using Cons.prems(2) by (auto split: if_splits)
    then show ?thesis using Cons.IH[of "put ys s" out] put_ok[OF Cons.prems(1)] Put by auto
  next
    case (Get n)
    then have c: "can_get s n" using Cons.prems(2) by (auto split: if_splits)
    obtain ys s1 where g: "get n s = (ys, s1)" by fastforce
    then obtain zs where r: "run xs s1 = Some (zs, s')" "out = ys @ zs"
      using Cons.prems(2) Get c by (auto split: option.splits)
    have ys: "inv s1" "ys = take n (contents s)" "contents s1 = drop n (contents s)"
      using get_ok[OF Cons.prems(1) c] g by auto
    have "inv s' \<and> zs @ contents s' = contents s1 @ concat (map put_of xs)"
      by (rule Cons.IH[OF ys(1) r(1)])
    moreover have "contents s = ys @ contents s1" using ys by simp
    ultimately show ?thesis using r(2) Get by auto
  qed
qed simp

lemma run_bounded:
  assumes "inv s" "run xs s = Some (out, s')"
  shows "length (concat (map put_of xs)) \<le> length out + cap"
proof -
  have "length out + length (contents s') = length (contents s) + length (concat (map put_of xs))"
    using arg_cong[OF conjunct2[OF run_stream[OF assms]], of length] by simp
  moreover have "length (contents s') \<le> cap" using bounded run_stream[OF assms] by blast
  ultimately show ?thesis by linarith
qed

end

end
