(* ===== verification/Pipe.thy ===== *)
theory Pipe
  imports Proc Fifo
begin

text \<open>
  Pipes, \<open>kernel/pipe.c\<close> and \<open>struct pipe\<close> of \<open>kernel/file.h\<close>. A pipe is a page of the allocator:
  512 bytes of data and four 32-bit words. The counters \<open>nread\<close> and \<open>nwrite\<close> wrap around, and
  the abstract contents are the bytes between them. \<open>pipealloc\<close>, which fills two files, is in
  the theory File.
\<close>

section \<open>The structure in memory\<close>

definition pipe_nread :: "u64 \<Rightarrow> bmem \<Rightarrow> u32" where "pipe_nread pi m = load32 m (pi + 512)"
definition pipe_nwrite :: "u64 \<Rightarrow> bmem \<Rightarrow> u32" where "pipe_nwrite pi m = load32 m (pi + 516)"
definition pipe_readopen :: "u64 \<Rightarrow> bmem \<Rightarrow> u32" where "pipe_readopen pi m = load32 m (pi + 520)"
definition pipe_writeopen :: "u64 \<Rightarrow> bmem \<Rightarrow> u32" where "pipe_writeopen pi m = load32 m (pi + 524)"

text \<open>Storing a chunk at \<open>data[nwrite % PIPESIZE]\<close> and advancing \<open>nwrite\<close>; the reading half.\<close>

definition pipe_put :: "u64 \<Rightarrow> u8 list \<Rightarrow> bmem \<Rightarrow> bmem" where
  "pipe_put pi bs m =
     (let w = pipe_nwrite pi m; m = wr m (pi + ucast (w mod 512)) bs
      in store32 m (pi + 516) (w + of_nat (length bs)))"

definition pipe_data :: "u64 \<Rightarrow> nat \<Rightarrow> bmem \<Rightarrow> u8 list" where
  "pipe_data pi n m = rd m (pi + ucast (pipe_nread pi m mod 512)) n"

definition pipe_skip :: "u64 \<Rightarrow> nat \<Rightarrow> bmem \<Rightarrow> bmem" where
  "pipe_skip pi n m = store32 m (pi + 512) (pipe_nread pi m + of_nat n)"

text \<open>The stores of \<open>pipealloc\<close> into a fresh page.\<close>

definition pipe_init :: "u64 \<Rightarrow> bmem \<Rightarrow> bmem" where
  "pipe_init pi m =
     (let m = memset m pi 0 4096;
          m = store32 m (pi + 520) 1;
          m = store32 m (pi + 524) 1;
          m = store32 m (pi + 516) 0
      in store32 m (pi + 512) 0)"

section \<open>Operations\<close>

definition pipeclose :: "u64 \<Rightarrow> bool \<Rightarrow> 'a kproc_scheme \<Rightarrow> 'a kproc_scheme res" where
  "pipeclose pi writable s =
     (let s = (if writable then s\<lparr>mem := store32 (mem s) (pi + 524) 0\<rparr>
               else s\<lparr>mem := store32 (mem s) (pi + 520) 0\<rparr>)
      in if pipe_readopen pi (mem s) = 0 \<and> pipe_writeopen pi (mem s) = 0 then kfree pi s else Inr s)"

text \<open>A blocking call returns, or gives up the processor with the progress it has made.\<close>

datatype 'r run = Ret 'r | Yield u32

definition pw_size :: "u32 \<Rightarrow> u32 \<Rightarrow> u32 \<Rightarrow> u32 \<Rightarrow> u32" where
  "pw_size n w nread nwrite = MIN32 (MIN32 (n - w) (nread + 512 - nwrite)) (512 - nwrite mod 512)"

definition pr_size :: "u32 \<Rightarrow> u32 \<Rightarrow> u32 \<Rightarrow> u32 \<Rightarrow> u32" where
  "pr_size n r nread nwrite = MIN32 (MIN32 (n - r) (nwrite - nread)) (512 - nread mod 512)"

lemma chunk512_pos: "0 < (512 - x mod 512 :: u32)"
proof -
  have "x mod 512 < 512" by (simp add: word_mod_less_divisor)
  then have "512 - x mod 512 \<noteq> 0" by auto
  then show ?thesis by (simp add: word_gt_0)
qed

lemma pw_size_pos: "w \<noteq> n \<Longrightarrow> nwrite \<noteq> nread + 512 \<Longrightarrow> 0 < pw_size n w nread nwrite"
  using chunk512_pos[of nwrite] by (auto simp: pw_size_def MIN32_def word_gt_0)

lemma pw_size_le: "pw_size n w nread nwrite \<le> n - w"
  by (auto simp: pw_size_def MIN32_def)

lemma pr_size_pos: "r \<noteq> n \<Longrightarrow> nwrite \<noteq> nread \<Longrightarrow> 0 < pr_size n r nread nwrite"
  using chunk512_pos[of nread] by (auto simp: pr_size_def MIN32_def word_gt_0)

lemma pr_size_le: "pr_size n r nread nwrite \<le> n - r"
  by (auto simp: pr_size_def MIN32_def)

text \<open>\<open>w\<close> and \<open>n\<close> are C \<open>int\<close>s; the loop resumes with the same \<open>w\<close> after \<open>yield\<close>.\<close>

function pipewrite_loop ::
  "u64 \<Rightarrow> u64 \<Rightarrow> u64 \<Rightarrow> u32 \<Rightarrow> u32 \<Rightarrow> 'a kmem_scheme \<Rightarrow> (u32 run \<times> 'a kmem_scheme) res" where
  "pipewrite_loop pi pt addr n w s =
     (if sint w < sint n
      then if pipe_readopen pi (mem s) = 0 then Inr (Ret (-1), s)
           else if pipe_nwrite pi (mem s) = pipe_nread pi (mem s) + 512 then Inr (Yield w, s)
           else let size = pw_size n w (pipe_nread pi (mem s)) (pipe_nwrite pi (mem s))
                in bindE (copyin pt (addr + scast w) (unat size) s) (\<lambda>(r, bs).
                     if r < 0 then Inl (Panic ''copyin'')
                     else pipewrite_loop pi pt addr n (w + size) (s\<lparr>mem := pipe_put pi bs (mem s)\<rparr>))
      else Inr (Ret w, s))"
  by pat_completeness auto
termination
  by (relation "measure (\<lambda>(pi, pt, addr, n, w, s). unat (n - w))")
    (auto intro!: progress_less pw_size_pos pw_size_le)

declare pipewrite_loop.simps [simp del]

definition pipewrite :: "u64 \<Rightarrow> u64 \<Rightarrow> u32 \<Rightarrow> 'a kproc_scheme \<Rightarrow> (u32 run \<times> 'a kproc_scheme) res" where
  "pipewrite pi addr n s =
     (if sint n \<le> 0 then Inl (Panic ''invalid read num'')
      else pipewrite_loop pi (pagetable (cproc s)) addr n 0 s)"

function piperead_loop ::
  "u64 \<Rightarrow> u64 \<Rightarrow> u64 \<Rightarrow> u32 \<Rightarrow> u32 \<Rightarrow> u64 \<Rightarrow> 'a kmem_scheme \<Rightarrow> (u32 run \<times> 'a kmem_scheme) res" where
  "piperead_loop pi pt addr n r lsize s =
     (if sint r < sint n \<and> lsize \<noteq> 0
      then if pipe_nread pi (mem s) = pipe_nwrite pi (mem s) then Inr (Ret r, s)
           else let sz = pr_size n r (pipe_nread pi (mem s)) (pipe_nwrite pi (mem s))
                in bindE (copyout pt (addr + scast r) (pipe_data pi (unat sz) (mem s)) s) (\<lambda>(c, s).
                     if c < 0 then Inl (Panic ''copyout'')
                     else piperead_loop pi pt addr n (r + sz) (ucast sz)
                            (s\<lparr>mem := pipe_skip pi (unat sz) (mem s)\<rparr>))
      else Inr (Ret r, s))"
  by pat_completeness auto
termination
  by (relation "measure (\<lambda>(pi, pt, addr, n, r, lsize, s). unat (n - r))")
    (auto intro!: progress_less pr_size_pos pr_size_le)

declare piperead_loop.simps [simp del]

definition piperead :: "u64 \<Rightarrow> u64 \<Rightarrow> u32 \<Rightarrow> 'a kproc_scheme \<Rightarrow> (u32 run \<times> 'a kproc_scheme) res" where
  "piperead pi addr n s =
     (if sint n \<le> 0 then Inl (Panic ''invalid read num'')
      else if pipe_nread pi (mem s) = pipe_nwrite pi (mem s)
           then (if pipe_writeopen pi (mem s) \<noteq> 0 then Inr (Yield 0, s) else Inr (Ret (-1), s))
           else piperead_loop pi (pagetable (cproc s)) addr n 0 (-1) s)"

section \<open>Contents\<close>

definition pipe_count :: "u64 \<Rightarrow> bmem \<Rightarrow> nat" where
  "pipe_count pi m = unat (pipe_nwrite pi m - pipe_nread pi m)"

definition pipe_contents :: "u64 \<Rightarrow> bmem \<Rightarrow> u8 list" where
  "pipe_contents pi m = ring_list 512 (\<lambda>k. m (pi + of_nat k)) (unat (pipe_nread pi m)) (pipe_count pi m)"

definition pipe_inv :: "u64 \<Rightarrow> bmem \<Rightarrow> bool" where
  "pipe_inv pi m \<longleftrightarrow> pipe_count pi m \<le> 512"

lemma length_pipe_contents [simp]: "length (pipe_contents pi m) = pipe_count pi m"
  by (simp add: pipe_contents_def)

lemma off_eq: "pi + 512 = pi + of_nat 512" "pi + 516 = pi + of_nat 516" "pi + 520 = pi + of_nat 520"
  "pi + 524 = pi + (of_nat 524 :: u64)"
  by simp_all

lemma unat_numeral_512: "unat (512 :: u32) = 512"
  by simp

lemma slot_eq: "pi + ucast (x mod 512 :: u32) = pi + (of_nat (unat x mod 512) :: u64)"
proof -
  have "ucast (x mod 512) = (of_nat (unat (x mod 512)) :: u64)" by (rule of_nat_unat[symmetric])
  then show ?thesis by (simp only: unat_mod unat_numeral_512)
qed

lemma word_at: "load32 (wr m (pi + of_nat i) bs) (pi + of_nat j) = load32 m (pi + of_nat j)"
  if "j + 4 \<le> i \<or> i + length bs \<le> j" "i + length bs \<le> 1024" "j \<le> 1020"
  using that unfolding load32_def by (subst rd_wr_off) auto

lemma load32_store32_off: "load32 (store32 m (pi + of_nat i) v) (pi + of_nat j) = (if i = j then v else load32 m (pi + of_nat j))"
  if "i = j \<or> i + 4 \<le> j \<or> j + 4 \<le> i" "i \<le> 1020" "j \<le> 1020"
proof (cases "i = j")
  case False
  then show ?thesis using that unfolding store32_def by (subst word_at) auto
qed (simp add: mem_simps)

lemma byte_store32_off: "store32 m (pi + of_nat i) v (pi + of_nat k) = m (pi + of_nat k)"
  if "k < i \<or> i + 4 \<le> k" "i \<le> 1020" "k \<le> 1020"
  using rd_wr_off[of k 1 i "to_le 4 v" m pi] that by (simp add: store32_def rd_def Suc_le_eq)

lemma byte_wr_off: "wr m (pi + of_nat i) bs (pi + of_nat k) = (if i \<le> k \<and> k < i + length bs then bs ! (k - i) else m (pi + of_nat k))"
  if "i + length bs \<le> 1024" "k \<le> 1020"
proof (cases "i \<le> k \<and> k < i + length bs")
  case True
  then have "k - i < length bs" "pi + of_nat i + of_nat (k - i) = pi + of_nat k" by auto
  then show ?thesis using wr_in[of "k - i" bs m "pi + of_nat i"] that True by simp
next
  case False
  then show ?thesis using rd_wr_off[of k 1 i bs m pi] that by (auto simp: rd_def not_less Suc_le_eq)
qed

lemma nwrite_ring: "unat (pipe_nwrite pi m) mod 512 = (unat (pipe_nread pi m) + pipe_count pi m) mod 512"
proof -
  let ?r = "pipe_nread pi m" and ?d = "pipe_nwrite pi m - pipe_nread pi m"
  have "unat (?r + ?d) = (unat ?r + unat ?d) mod 2 ^ 32" unfolding unat_word_ariths(1) by simp
  moreover have "?r + ?d = pipe_nwrite pi m" by simp
  ultimately have "unat (pipe_nwrite pi m) = (unat ?r + unat ?d) mod 2 ^ 32" by metis
  moreover have "x mod 2 ^ 32 mod 512 = x mod (512 :: nat)" for x
    by (rule mod_mod_cancel) simp
  ultimately show ?thesis by (simp add: pipe_count_def)
qed

definition pipe_room :: "u64 \<Rightarrow> bmem \<Rightarrow> u8 list \<Rightarrow> bool" where
  "pipe_room pi m bs \<longleftrightarrow> pipe_count pi m + length bs \<le> 512 \<and>
     unat (pipe_nwrite pi m) mod 512 + length bs \<le> 512"

definition pipe_avail :: "u64 \<Rightarrow> bmem \<Rightarrow> nat \<Rightarrow> bool" where
  "pipe_avail pi m n \<longleftrightarrow> n \<le> pipe_count pi m \<and> unat (pipe_nread pi m) mod 512 + n \<le> 512"

lemma pipe_put_eq:
  "pipe_put pi bs m = store32 (wr m (pi + of_nat (unat (pipe_nwrite pi m) mod 512)) bs) (pi + of_nat 516)
     (pipe_nwrite pi m + of_nat (length bs))"
  by (simp add: pipe_put_def Let_def slot_eq)

lemma pipe_put_word:
  assumes "pipe_room pi m bs" "j = 512 \<or> j = 520 \<or> j = 524"
  shows "load32 (pipe_put pi bs m) (pi + of_nat j) = load32 m (pi + of_nat j)"
proof -
  have "load32 (pipe_put pi bs m) (pi + of_nat j)
      = load32 (wr m (pi + of_nat (unat (pipe_nwrite pi m) mod 512)) bs) (pi + of_nat j)"
    unfolding pipe_put_eq by (subst load32_store32_off) (use assms(2) in auto)
  also have "\<dots> = load32 m (pi + of_nat j)"
    by (rule word_at) (use assms in \<open>auto simp: pipe_room_def\<close>)
  finally show ?thesis .
qed

lemma pipe_put_counters:
  assumes "pipe_room pi m bs"
  shows "pipe_nread pi (pipe_put pi bs m) = pipe_nread pi m"
    "pipe_nwrite pi (pipe_put pi bs m) = pipe_nwrite pi m + of_nat (length bs)"
    "pipe_readopen pi (pipe_put pi bs m) = pipe_readopen pi m"
    "pipe_writeopen pi (pipe_put pi bs m) = pipe_writeopen pi m"
  using pipe_put_word[OF assms, of 512] pipe_put_word[OF assms, of 520] pipe_put_word[OF assms, of 524]
  by (simp_all add: pipe_nread_def pipe_readopen_def pipe_writeopen_def)
    (simp add: pipe_put_def pipe_nwrite_def Let_def mem_simps)

lemma pipe_put_byte:
  assumes "pipe_room pi m bs" "k < 512"
  shows "pipe_put pi bs m (pi + of_nat k) = (let w = unat (pipe_nwrite pi m) mod 512
    in if w \<le> k \<and> k < w + length bs then bs ! (k - w) else m (pi + of_nat k))"
proof -
  have "pipe_put pi bs m (pi + of_nat k) = wr m (pi + of_nat (unat (pipe_nwrite pi m) mod 512)) bs (pi + of_nat k)"
    unfolding pipe_put_eq by (rule byte_store32_off) (use assms(2) in auto)
  then show ?thesis
    using byte_wr_off[of "unat (pipe_nwrite pi m) mod 512" bs k m pi] assms by (simp add: pipe_room_def Let_def)
qed

lemma pipe_put_count:
  assumes "pipe_room pi m bs"
  shows "pipe_count pi (pipe_put pi bs m) = pipe_count pi m + length bs"
proof -
  have l: "pipe_count pi m + length bs \<le> 512" using assms by (simp add: pipe_room_def)
  have "pipe_nwrite pi (pipe_put pi bs m) - pipe_nread pi (pipe_put pi bs m)
      = (pipe_nwrite pi m - pipe_nread pi m) + of_nat (length bs)"
    by (simp add: pipe_put_counters[OF assms])
  moreover have "unat ((pipe_nwrite pi m - pipe_nread pi m) + of_nat (length bs)) = pipe_count pi m + length bs"
    using l by (simp add: pipe_count_def unat_word_ariths unsigned_of_nat take_bit_nat_eq_self)
  ultimately show ?thesis unfolding pipe_count_def by simp
qed

lemma pipe_put_contents:
  assumes "pipe_room pi m bs"
  shows "pipe_contents pi (pipe_put pi bs m) = pipe_contents pi m @ bs"
proof -
  let ?m = "pipe_put pi bs m" and ?R = "unat (pipe_nread pi m)" and ?c = "pipe_count pi m"
  let ?w = "unat (pipe_nwrite pi m) mod 512"
  let ?f = "\<lambda>k. m (pi + of_nat k)" and ?g = "\<lambda>k. ?m (pi + of_nat k)"
  have r: "?c + length bs \<le> 512" "?w + length bs \<le> 512" using assms by (auto simp: pipe_room_def)
  have w: "(?R + ?c) mod 512 = ?w" by (simp add: nwrite_ring)
  have old: "ring_list 512 ?g ?R ?c = ring_list 512 ?f ?R ?c"
  proof (rule ring_list_cong)
    fix i assume i: "i < ?c"
    have "(?R + i) mod 512 \<noteq> ?w + j" if "j < length bs" for j
    proof -
      have "(?R + i) mod 512 \<noteq> (?R + (?c + j)) mod 512"
        by (rule ring_distinct) (use i r(1) that in auto)
      moreover have "(?R + (?c + j)) mod 512 = (?w + j) mod 512"
        unfolding w[symmetric] by (simp add: mod_simps add.assoc)
      ultimately show ?thesis using r(2) that by simp
    qed
    from this[of "(?R + i) mod 512 - ?w"]
    have "\<not> (?w \<le> (?R + i) mod 512 \<and> (?R + i) mod 512 < ?w + length bs)" by linarith
    then show "?g ((?R + i) mod 512) = ?f ((?R + i) mod 512)"
      using pipe_put_byte[OF assms, of "(?R + i) mod 512"] by (simp only: Let_def if_False)
  qed
  have "ring_list 512 ?g (?R + ?c) (length bs) = map (\<lambda>i. ?g (?w + i)) [0..<length bs]"
    using ring_list_linear[of "?R + ?c" 512 "length bs" ?g] r(2) unfolding w by simp
  also have "\<dots> = map (\<lambda>i. bs ! i) [0..<length bs]"
  proof (rule map_cong[OF refl])
    fix i assume "i \<in> set [0..<length bs]"
    then show "?g (?w + i) = bs ! i"
      using pipe_put_byte[OF assms, of "?w + i"] r(2) by (simp add: Let_def del: of_nat_add)
  qed
  also have "\<dots> = bs" by (simp add: map_nth)
  finally have new: "ring_list 512 ?g (?R + ?c) (length bs) = bs" .
  show ?thesis
    unfolding pipe_contents_def pipe_put_count[OF assms] pipe_put_counters(1)[OF assms]
      ring_list_append[symmetric] old new ..
qed

lemma pipe_skip_counters:
  "pipe_nread pi (pipe_skip pi n m) = pipe_nread pi m + of_nat n"
  "pipe_nwrite pi (pipe_skip pi n m) = pipe_nwrite pi m"
  "pipe_readopen pi (pipe_skip pi n m) = pipe_readopen pi m"
  "pipe_writeopen pi (pipe_skip pi n m) = pipe_writeopen pi m"
  using load32_store32_off[of 512 516 m pi] load32_store32_off[of 512 520 m pi] load32_store32_off[of 512 524 m pi]
  by (simp_all add: pipe_skip_def pipe_nread_def pipe_nwrite_def pipe_readopen_def pipe_writeopen_def mem_simps)

lemma pipe_skip_byte: "k < 512 \<Longrightarrow> pipe_skip pi n m (pi + of_nat k) = m (pi + of_nat k)"
  using byte_store32_off[of k 512 m pi] by (simp add: pipe_skip_def)

lemma pipe_skip_count:
  assumes "n \<le> pipe_count pi m" "pipe_count pi m \<le> 512"
  shows "pipe_count pi (pipe_skip pi n m) = pipe_count pi m - n"
proof -
  have n: "unat (of_nat n :: u32) = n" using assms by (simp add: unsigned_of_nat take_bit_nat_eq_self)
  have e: "pipe_nwrite pi m - (pipe_nread pi m + of_nat n) = (pipe_nwrite pi m - pipe_nread pi m) - of_nat n"
    by (rule diff_diff_eq[symmetric])
  have "unat ((pipe_nwrite pi m - pipe_nread pi m) - of_nat n) = pipe_count pi m - n"
    using assms n by (subst unat_sub) (simp_all add: word_le_nat_alt pipe_count_def)
  then show ?thesis unfolding pipe_count_def[of pi "pipe_skip pi n m"] pipe_skip_counters e .
qed

lemma pipe_skip_contents:
  assumes "n \<le> pipe_count pi m" "pipe_count pi m \<le> 512"
  shows "pipe_contents pi (pipe_skip pi n m) = drop n (pipe_contents pi m)"
proof -
  let ?f = "\<lambda>k. m (pi + of_nat k)" and ?g = "\<lambda>k. pipe_skip pi n m (pi + of_nat k)"
  have r: "unat (pipe_nread pi m + of_nat n) mod 512 = (unat (pipe_nread pi m) + n) mod 512"
  proof -
    have "unat (of_nat n :: u32) = n" using assms by (simp add: unsigned_of_nat take_bit_nat_eq_self)
    then have "unat (pipe_nread pi m + of_nat n) = (unat (pipe_nread pi m) + n) mod 2 ^ 32"
      by (simp add: unat_word_ariths)
    moreover have "x mod 2 ^ 32 mod 512 = x mod (512 :: nat)" for x by (rule mod_mod_cancel) simp
    ultimately show ?thesis by simp
  qed
  have "ring_list 512 ?g (unat (pipe_nread pi m + of_nat n)) (pipe_count pi m - n)
      = ring_list 512 ?g (unat (pipe_nread pi m) + n) (pipe_count pi m - n)"
    by (subst (1 2) ring_list_mod[symmetric]) (simp only: r)
  also have "\<dots> = ring_list 512 ?f (unat (pipe_nread pi m) + n) (pipe_count pi m - n)"
    by (rule ring_list_cong) (rule pipe_skip_byte, simp)
  also have "\<dots> = drop n (pipe_contents pi m)"
    unfolding pipe_contents_def by (rule ring_list_drop[symmetric, OF assms(1)])
  finally show ?thesis
    unfolding pipe_contents_def[of pi "pipe_skip pi n m"] pipe_skip_count[OF assms] pipe_skip_counters .
qed

lemma pipe_data_contents:
  assumes "pipe_avail pi m n"
  shows "pipe_data pi n m = take n (pipe_contents pi m)"
proof -
  let ?f = "\<lambda>k. m (pi + of_nat k)" and ?r = "unat (pipe_nread pi m)"
  have a: "n \<le> pipe_count pi m" "?r mod 512 + n \<le> 512" using assms by (auto simp: pipe_avail_def)
  have "take n (pipe_contents pi m) = ring_list 512 ?f ?r n"
    unfolding pipe_contents_def by (rule ring_list_take[OF a(1)])
  also have "\<dots> = map (\<lambda>i. ?f (?r mod 512 + i)) [0..<n]" by (rule ring_list_linear[OF a(2)])
  also have "\<dots> = pipe_data pi n m"
    unfolding pipe_data_def slot_eq rd_def by (simp add: add.assoc)
  finally show ?thesis ..
qed

section \<open>The pipe is a bounded queue\<close>

text \<open>The queue operations the loops of \<open>pipewrite\<close> and \<open>piperead\<close> perform on the page.\<close>

interpretation pipe: fifo "\<lambda>(pi, m). pipe_inv pi m" "\<lambda>(pi, m). pipe_contents pi m" 512
  "\<lambda>bs (pi, m). (pi, pipe_put pi bs m)" "\<lambda>n (pi, m). (pipe_data pi n m, (pi, pipe_skip pi n m))"
  "\<lambda>(pi, m). pipe_room pi m" "\<lambda>(pi, m). pipe_avail pi m"
proof (unfold_locales, goal_cases)
  case (1 s bs)
  then show ?case
    by (cases s) (auto simp: pipe_put_contents pipe_inv_def pipe_put_count pipe_room_def)
next
  case (2 s n)
  then show ?case
    by (cases s)
      (auto simp: pipe_data_contents pipe_inv_def pipe_skip_contents pipe_skip_count pipe_avail_def)
next
  case (3 s)
  then show ?case by (cases s) (auto simp: pipe_inv_def)
qed

section \<open>What a call transfers\<close>

text \<open>A part of an accessible user range, read on its own.\<close>

lemma copyin_part:
  assumes wf: "pt_wf (mem s) root" and all: "uall (mem s) root va n" and le: "w + k \<le> n"
  shows "copyin root (va + of_nat w) k s = Inr (0, take k (drop w (ubytes (mem s) root va n)))"
proof -
  have e: "va + of_nat w + of_nat i = va + of_nat (w + i)" for i by simp
  have a: "uall (mem s) root (va + of_nat w) k"
    unfolding uall_def e using all le by (auto simp: uall_def simp del: of_nat_add)
  have "ubytes (mem s) root (va + of_nat w) k = take k (drop w (ubytes (mem s) root va n))"
    unfolding ubytes_def ureach_all[OF a] ureach_all[OF all]
    by (rule nth_equalityI) (use le in \<open>auto simp: add.assoc\<close>)
  then show ?thesis using copyin_ok[OF wf, of "va + of_nat w" k] a by simp
qed

lemma ubytes_same_off:
  assumes "pt_wf m root" "same_off P m m'" "P \<inter> pt_pages m root = {}" "P \<inter> uframes m root va n = {}"
  shows "ubytes m' root va n = ubytes m root va n"
proof -
  have "m' (upa m root (va + of_nat i)) = m (upa m root (va + of_nat i))" if "i \<in> set (ureach m root va n)" for i
  proof (rule same_offD[OF assms(2)])
    have "upage m root (PGROUNDDOWN (va + of_nat i)) \<in> uframes m root va n"
      using that by (auto simp: uframes_def)
    then show "PGROUNDDOWN (upa m root (va + of_nat i)) \<notin> P" using assms(4) page_upa by auto
  qed
  then show ?thesis
    unfolding ubytes_def ureach_same_off[OF assms(1-3)] upa_def upage_same_off[OF assms(1-3)]
    by (simp add: upa_def)
qed

lemma u32_nat: "k < 2 ^ 32 \<Longrightarrow> unat (of_nat k :: u32) = k"
  by (simp add: unsigned_of_nat take_bit_nat_eq_self)

lemma sint_nat: "k < 2 ^ 31 \<Longrightarrow> sint (of_nat k :: u32) = int k"
  by (simp add: signed_of_nat signed_take_bit_int_eq_self)

lemma scast_nat: "k < 2 ^ 31 \<Longrightarrow> (scast (of_nat k :: u32) :: u64) = of_nat k"
proof -
  assume "k < 2 ^ 31"
  then have "sint (of_nat k :: u32) = int k" by (rule sint_nat)
  then show ?thesis by (metis of_int_of_nat_eq of_int_sint)
qed

lemma unat_chunk512: "unat (512 - x mod 512 :: u32) = 512 - unat x mod 512"
proof -
  have "x mod 512 \<le> 512" by (simp add: word_mod_less_divisor less_imp_le)
  then show ?thesis by (simp add: unat_sub unat_mod)
qed

lemma unat_nat_diff: "w \<le> n \<Longrightarrow> n < 2 ^ 31 \<Longrightarrow> unat (of_nat n - of_nat w :: u32) = n - w"
  using u32_nat[of "n - w"] by (simp add: of_nat_diff)

lemma unat_free:
  assumes "unat (nw - nr) \<le> 512"
  shows "unat (nr + 512 - nw :: u32) = 512 - unat (nw - nr)"
proof -
  have e: "nr + 512 - nw = 512 - (nw - nr)" by simp
  have "nw - nr \<le> 512" using assms by (simp add: word_le_nat_alt)
  then show ?thesis unfolding e by (subst unat_sub) simp_all
qed

lemma full_iff:
  shows "nw = (nr :: u32) + 512 \<longleftrightarrow> unat (nw - nr) = (512 :: nat)"
proof
  assume "unat (nw - nr) = 512"
  then have "nw - nr = 512" by (metis unat_numeral_512 word_unat_eq_iff)
  then show "nw = nr + 512" by (simp add: diff_eq_eq add.commute)
qed simp

lemma wr_pipe_same_off:
  assumes "aligned pi" "i + length bs \<le> 4096"
  shows "same_off {pi} m (wr m (pi + of_nat i) bs)"
  by (rule wr_same_off[OF assms])

lemma pipe_put_same_off:
  assumes "aligned pi" "pipe_room pi m bs"
  shows "same_off {pi} m (pipe_put pi bs m)"
proof -
  let ?w = "unat (pipe_nwrite pi m) mod 512"
  have "same_off {pi} m (wr m (pi + of_nat ?w) bs)"
    using assms by (intro wr_pipe_same_off) (auto simp: pipe_room_def)
  moreover have "same_off {pi} (wr m (pi + of_nat ?w) bs) (pipe_put pi bs m)"
    unfolding pipe_put_eq store32_def by (rule wr_pipe_same_off[OF assms(1)]) simp
  ultimately show ?thesis by (rule same_off_trans) simp
qed

lemma pipe_skip_same_off: "aligned pi \<Longrightarrow> same_off {pi} m (pipe_skip pi n m)"
  unfolding pipe_skip_def store32_def off_eq by (rule wr_pipe_same_off) simp_all

text \<open>A user range a pipe transfer may use: accessible, away from the tables and from the pipe.\<close>

definition pipe_range :: "bmem \<Rightarrow> u64 \<Rightarrow> u64 \<Rightarrow> u64 \<Rightarrow> nat \<Rightarrow> bool" where
  "pipe_range m pi pt addr n \<longleftrightarrow> pt_wf m pt \<and> aligned pi \<and> pi \<notin> pt_pages m pt \<and>
     uall m pt addr n \<and> pi \<notin> uframes m pt addr n"

lemma pipe_range_same_off:
  assumes "pipe_range m pi pt addr n" "same_off {pi} m m'"
  shows "pipe_range m' pi pt addr n" "ubytes m' pt addr n = ubytes m pt addr n"
proof -
  have so: "pt_wf m pt" "same_off {pi} m m'" "{pi} \<inter> pt_pages m pt = {}"
    using assms by (auto simp: pipe_range_def)
  show "pipe_range m' pi pt addr n"
    using assms(1) pt_wf_same_off[OF so]
    by (simp add: pipe_range_def pt_pages_same_off[OF so] uall_same_off[OF so] uframes_same_off[OF so])
  show "ubytes m' pt addr n = ubytes m pt addr n"
    by (rule ubytes_same_off[OF so]) (use assms(1) in \<open>simp add: pipe_range_def\<close>)
qed

lemma length_ubytes: "uall m pt addr n \<Longrightarrow> length (ubytes m pt addr n) = n"
  by (simp add: ubytes_def ureach_all)

lemma pipewrite_loop_ok:
  assumes "pipe_range (mem s) pi pt addr N" "pipe_inv pi (mem s)" "N < 2 ^ 31" "w \<le> N"
    "pipe_readopen pi (mem s) \<noteq> 0" "k = min (N - w) (512 - pipe_count pi (mem s))"
  shows "\<exists>s'. pipewrite_loop pi pt addr (of_nat N) (of_nat w) s =
      Inr (if k = N - w then Ret (of_nat N) else Yield (of_nat (w + k)), s') \<and>
    pipe_contents pi (mem s') = pipe_contents pi (mem s) @ take k (drop w (ubytes (mem s) pt addr N)) \<and>
    pipe_inv pi (mem s') \<and> same_off {pi} (mem s) (mem s') \<and> pipe_readopen pi (mem s') \<noteq> 0 \<and>
    freelist s' = freelist s \<and> ekernel s' = ekernel s"
  using assms
proof (induction "N - w" arbitrary: w k s rule: less_induct)
  case (less w k s)
  let ?m = "mem s" and ?U = "ubytes (mem s) pt addr N"
  have sN: "sint (of_nat N :: u32) = int N" "sint (of_nat w :: u32) = int w"
    using less.prems by (auto intro!: sint_nat)
  have cnt: "pipe_count pi ?m \<le> 512" using less.prems(2) by (simp add: pipe_inv_def)
  show ?case
  proof (cases "w < N")
    case False
    then have "w = N" using less.prems(4) by simp
    then show ?thesis
      using less.prems sN by (subst pipewrite_loop.simps) simp
  next
    case w: True
    show ?thesis
    proof (cases "pipe_count pi ?m = 512")
      case True
      then have full: "pipe_nwrite pi ?m = pipe_nread pi ?m + 512"
        unfolding full_iff by (simp add: pipe_count_def)
      have "k = 0" using less.prems(6) True by simp
      moreover have "pipewrite_loop pi pt addr (of_nat N) (of_nat w) s = Inr (Yield (of_nat w), s)"
        using w sN full less.prems(5) by (subst pipewrite_loop.simps) simp
      ultimately show ?thesis using w less.prems by auto
    next
      case notfull: False
      then have nfull: "pipe_nwrite pi ?m \<noteq> pipe_nread pi ?m + 512"
        unfolding full_iff by (simp add: pipe_count_def)
      define z where "z = pw_size (of_nat N) (of_nat w) (pipe_nread pi ?m) (pipe_nwrite pi ?m)"
      have uz: "unat z = min (min (N - w) (512 - pipe_count pi ?m)) (512 - unat (pipe_nwrite pi ?m) mod 512)"
        unfolding z_def pw_size_def unat_MIN32 unat_chunk512
        using unat_nat_diff[OF less.prems(4,3)] unat_free[of "pipe_nwrite pi ?m" "pipe_nread pi ?m"] cnt
        by (simp add: pipe_count_def)
      have zpos: "0 < unat z"
        using uz w notfull cnt by simp
      have zle: "unat z \<le> k" unfolding uz less.prems(6) by (rule min.cobounded1)
      let ?bs = "take (unat z) (drop w ?U)"
      have lU: "length ?U = N" using less.prems(1) by (simp add: pipe_range_def length_ubytes)
      have zb: "unat z \<le> N - w" "unat z \<le> 512 - pipe_count pi ?m"
        "unat z \<le> 512 - unat (pipe_nwrite pi ?m) mod 512"
        unfolding uz by auto
      have lb: "length ?bs = unat z" using lU zb(1) by simp
      have room: "pipe_room pi ?m ?bs" unfolding pipe_room_def lb using zb cnt mod_less_divisor[of 512 "unat (pipe_nwrite pi ?m)"] by linarith
      have ci: "copyin pt (addr + of_nat w) (unat z) s = Inr (0, ?bs)"
        by (rule copyin_part) (use less.prems(1) zb(1) w in \<open>auto simp: pipe_range_def\<close>)
      let ?s = "s\<lparr>mem := pipe_put pi ?bs ?m\<rparr>"
      have zw: "of_nat w + z = (of_nat (w + unat z) :: u32)" by simp
      have step: "pipewrite_loop pi pt addr (of_nat N) (of_nat w) s
          = pipewrite_loop pi pt addr (of_nat N) (of_nat (w + unat z)) ?s"
        using w sN less.prems(3,5) nfull ci unfolding zw[symmetric]
        by (subst pipewrite_loop.simps) (simp add: Let_def z_def[symmetric] scast_nat)
      have off: "same_off {pi} ?m (mem ?s)"
        using pipe_put_same_off[OF _ room] less.prems(1) by (simp add: pipe_range_def)
      note pr = pipe_range_same_off[OF less.prems(1) off]
      have "\<exists>s'. pipewrite_loop pi pt addr (of_nat N) (of_nat (w + unat z)) ?s =
          Inr (if k - unat z = N - (w + unat z) then Ret (of_nat N) else Yield (of_nat (w + unat z + (k - unat z))), s') \<and>
        pipe_contents pi (mem s') = pipe_contents pi (mem ?s) @ take (k - unat z) (drop (w + unat z) (ubytes (mem ?s) pt addr N)) \<and>
        pipe_inv pi (mem s') \<and> same_off {pi} (mem ?s) (mem s') \<and> pipe_readopen pi (mem s') \<noteq> 0 \<and>
        freelist s' = freelist ?s \<and> ekernel s' = ekernel ?s"
      proof (rule less.hyps[OF _ pr(1)])
        show "N - (w + unat z) < N - w" using zpos w by simp
        show "pipe_inv pi (mem ?s)" using pipe_put_count[OF room] room lb by (simp add: pipe_inv_def pipe_room_def)
        show "w + unat z \<le> N" using zb(1) w by simp
        show "pipe_readopen pi (mem ?s) \<noteq> 0" using pipe_put_counters(3)[OF room] less.prems(5) by simp
        show "k - unat z = min (N - (w + unat z)) (512 - pipe_count pi (mem ?s))"
          using less.prems(6) pipe_put_count[OF room, unfolded lb] zb by (auto simp: min_def)
      qed (use less.prems(3) in simp)
      then obtain s' where s': "pipewrite_loop pi pt addr (of_nat N) (of_nat (w + unat z)) ?s =
          Inr (if k - unat z = N - (w + unat z) then Ret (of_nat N) else Yield (of_nat (w + unat z + (k - unat z))), s')"
        "pipe_contents pi (mem s') = pipe_contents pi (mem ?s) @ take (k - unat z) (drop (w + unat z) (ubytes (mem ?s) pt addr N))"
        "pipe_inv pi (mem s')" "same_off {pi} (mem ?s) (mem s')" "pipe_readopen pi (mem s') \<noteq> 0"
        "freelist s' = freelist s" "ekernel s' = ekernel s" by auto
      have "take k (drop w ?U) = ?bs @ take (k - unat z) (drop (w + unat z) ?U)"
        using zle by (metis add.commute drop_drop le_add_diff_inverse take_add)
      then have "pipe_contents pi (mem s') = pipe_contents pi ?m @ take k (drop w ?U)"
        using s'(2) pipe_put_contents[OF room] pr(2) by simp
      moreover have "(k - unat z = N - (w + unat z)) = (k = N - w)" "w + unat z + (k - unat z) = w + k"
        using zle zb less.prems(6) by (auto simp: min_def)
      ultimately show ?thesis
        using s' step same_off_trans[OF off s'(4)] by (intro exI[of _ s']) simp
    qed
  qed
qed

text \<open>A part of a user range written on its own.\<close>

lemma copyout_part:
  assumes wf: "pt_wf (mem s) root" and all: "uall (mem s) root va n"
    and fr: "uframes (mem s) root va n \<inter> pt_pages (mem s) root = {}"
    and inj: "inj_on (\<lambda>i. upa (mem s) root (va + of_nat i)) {..<n}" and le: "w + length bs \<le> n"
  shows "\<exists>s1. copyout root (va + of_nat w) bs s = Inr (0, s1) \<and> s1 = s\<lparr>mem := mem s1\<rparr> \<and>
    same_off (uframes (mem s) root va n) (mem s) (mem s1) \<and>
    (\<forall>i<n. mem s1 (upa (mem s) root (va + of_nat i)) =
       (if w \<le> i \<and> i < w + length bs then bs ! (i - w) else mem s (upa (mem s) root (va + of_nat i))))"
proof -
  let ?m = "mem s" and ?l = "length bs"
  have e: "va + of_nat w + of_nat i = va + of_nat (w + i)" for i by simp
  have a: "uall ?m root (va + of_nat w) ?l"
    unfolding uall_def e using all le by (auto simp: uall_def simp del: of_nat_add)
  have sub: "uframes ?m root (va + of_nat w) ?l \<subseteq> uframes ?m root va n"
    unfolding uframes_def ureach_all[OF a] ureach_all[OF all] e using le by (auto simp del: of_nat_add)
  then have fr': "uframes ?m root (va + of_nat w) ?l \<inter> pt_pages ?m root = {}" using fr by blast
  let ?s = "s\<lparr>mem := uput ?m root (va + of_nat w) bs [0..<?l] ?m\<rparr>"
  have c: "copyout root (va + of_nat w) bs s = Inr (0, ?s)"
    using copyout_ok[OF wf fr'] a by (simp add: ureach_all[OF a])
  have "mem ?s (upa ?m root (va + of_nat i)) =
      (if w \<le> i \<and> i < w + ?l then bs ! (i - w) else ?m (upa ?m root (va + of_nat i)))" if i: "i < n" for i
  proof (cases "w \<le> i \<and> i < w + ?l")
    case True
    have inj': "inj_on (\<lambda>i. upa ?m root (va + of_nat w + of_nat i)) (set [0..<?l])"
      unfolding e
    proof (rule inj_onI)
      fix x y assume xy: "x \<in> set [0..<?l]" "y \<in> set [0..<?l]"
        "upa ?m root (va + of_nat (w + x)) = upa ?m root (va + of_nat (w + y))"
      have "w + x = w + y"
        by (rule inj_onD[OF inj xy(3)]) (use xy le in auto)
      then show "x = y" by simp
    qed
    have "va + of_nat w + of_nat (i - w) = va + of_nat i" unfolding e using True by simp
    moreover have "i - w < ?l" using True by auto
    ultimately show ?thesis using uput_at[OF inj', of "i - w" bs ?m] True by simp
  next
    case False
    have "upa ?m root (va + of_nat i) \<notin> (\<lambda>i. upa ?m root (va + of_nat w + of_nat i)) ` set [0..<?l]"
    proof
      assume "upa ?m root (va + of_nat i) \<in> (\<lambda>i. upa ?m root (va + of_nat w + of_nat i)) ` set [0..<?l]"
      then obtain j where j: "j < ?l" "upa ?m root (va + of_nat i) = upa ?m root (va + of_nat (w + j))"
        unfolding e by auto
      have "i = w + j" by (rule inj_onD[OF inj j(2)]) (use j i le in auto)
      then show False using False j by auto
    qed
    then show ?thesis using False by (auto simp: uput_other)
  qed
  moreover have "same_off (uframes ?m root va n) ?m (mem ?s)"
    using same_off_mono[OF copyout_same_off[OF wf fr' c] sub] .
  ultimately show ?thesis using c by (intro exI[of _ ?s]) simp
qed

definition pipe_sink :: "bmem \<Rightarrow> u64 \<Rightarrow> u64 \<Rightarrow> u64 \<Rightarrow> nat \<Rightarrow> bool" where
  "pipe_sink m pi pt addr n \<longleftrightarrow> pipe_range m pi pt addr n \<and>
     uframes m pt addr n \<inter> pt_pages m pt = {} \<and> inj_on (\<lambda>i. upa m pt (addr + of_nat i)) {..<n}"

lemma pipe_sink_same_off:
  assumes "pipe_sink m pi pt addr n" "same_off (insert pi (uframes m pt addr n)) m m'"
  shows "pipe_sink m' pi pt addr n" "upa m' pt va = upa m pt va" "uframes m' pt addr n = uframes m pt addr n"
proof -
  have so: "pt_wf m pt" "same_off (insert pi (uframes m pt addr n)) m m'"
    "insert pi (uframes m pt addr n) \<inter> pt_pages m pt = {}"
    using assms by (auto simp: pipe_range_def pipe_sink_def)
  show u: "upa m' pt va = upa m pt va" for va unfolding upa_def upage_same_off[OF so] ..
  show "uframes m' pt addr n = uframes m pt addr n" by (rule uframes_same_off[OF so])
  show "pipe_sink m' pi pt addr n"
    using assms(1) pt_wf_same_off[OF so]
    by (simp add: pipe_sink_def pipe_range_def pt_pages_same_off[OF so] uall_same_off[OF so]
        uframes_same_off[OF so] u)
qed

lemma same_off_word: "same_off P m m' \<Longrightarrow> aligned a \<Longrightarrow> a \<notin> P \<Longrightarrow> k + 4 \<le> 4096 \<Longrightarrow>
    load32 m' (a + of_nat k) = load32 m (a + of_nat k)"
  unfolding load32_def by (subst rd_same_off) auto

lemma pipe_same_off:
  assumes "same_off P m m'" "aligned pi" "pi \<notin> P"
  shows "pipe_nread pi m' = pipe_nread pi m" "pipe_nwrite pi m' = pipe_nwrite pi m"
    "pipe_readopen pi m' = pipe_readopen pi m" "pipe_writeopen pi m' = pipe_writeopen pi m"
    "pipe_contents pi m' = pipe_contents pi m" "pipe_count pi m' = pipe_count pi m"
proof -
  note w = same_off_word[OF assms]
  show r: "pipe_nread pi m' = pipe_nread pi m" "pipe_nwrite pi m' = pipe_nwrite pi m"
    "pipe_readopen pi m' = pipe_readopen pi m" "pipe_writeopen pi m' = pipe_writeopen pi m"
    using w[of 512] w[of 516] w[of 520] w[of 524]
    by (simp_all add: pipe_nread_def pipe_nwrite_def pipe_readopen_def pipe_writeopen_def)
  show c: "pipe_count pi m' = pipe_count pi m" by (simp add: pipe_count_def r)
  have "m' (pi + of_nat k) = m (pi + of_nat k)" if "k < 512" for k
    by (rule same_offD[OF assms(1)]) (use page_of_offset[OF assms(2), of k] that assms(3) in simp)
  then show "pipe_contents pi m' = pipe_contents pi m"
    unfolding pipe_contents_def r c by (intro ring_list_cong) simp
qed

lemma piperead_loop_ok:
  assumes "pipe_sink (mem s) pi pt addr N" "pipe_inv pi (mem s)" "N < 2 ^ 31" "r \<le> N" "sz \<noteq> 0"
    "k = min (N - r) (pipe_count pi (mem s))"
  shows "\<exists>s'. piperead_loop pi pt addr (of_nat N) (of_nat r) sz s = Inr (Ret (of_nat (r + k)), s') \<and>
    pipe_contents pi (mem s') = drop k (pipe_contents pi (mem s)) \<and> pipe_inv pi (mem s') \<and>
    same_off (insert pi (uframes (mem s) pt addr N)) (mem s) (mem s') \<and>
    (\<forall>i<N. mem s' (upa (mem s) pt (addr + of_nat i)) =
       (if r \<le> i \<and> i < r + k then pipe_contents pi (mem s) ! (i - r) else mem s (upa (mem s) pt (addr + of_nat i)))) \<and>
    freelist s' = freelist s \<and> ekernel s' = ekernel s"
  using assms
proof (induction "N - r" arbitrary: r k sz s rule: less_induct)
  case (less r k sz s)
  let ?m = "mem s" and ?C = "pipe_contents pi (mem s)" and ?F = "uframes (mem s) pt addr N"
  let ?u = "\<lambda>i. upa ?m pt (addr + of_nat i)"
  have sN: "sint (of_nat N :: u32) = int N" "sint (of_nat r :: u32) = int r"
    using less.prems by (auto intro!: sint_nat)
  have cnt: "pipe_count pi ?m \<le> 512" using less.prems(2) by (simp add: pipe_inv_def)
  have rng: "pt_wf ?m pt" "aligned pi" "pi \<notin> pt_pages ?m pt" "uall ?m pt addr N" "pi \<notin> ?F"
    "?F \<inter> pt_pages ?m pt = {}" "inj_on ?u {..<N}"
    using less.prems(1) by (auto simp: pipe_sink_def pipe_range_def)
  have empty: "pipe_nread pi ?m = pipe_nwrite pi ?m \<longleftrightarrow> pipe_count pi ?m = 0"
    by (auto simp: pipe_count_def unat_eq_0)
  show ?case
  proof (cases "r < N \<and> pipe_count pi ?m \<noteq> 0")
    case False
    then have "k = 0" using less.prems(4,6) by auto
    moreover have "piperead_loop pi pt addr (of_nat N) (of_nat r) sz s = Inr (Ret (of_nat r), s)"
      using False sN empty less.prems(4) by (subst piperead_loop.simps) auto
    ultimately show ?thesis using less.prems by auto
  next
    case True
    define z where "z = pr_size (of_nat N) (of_nat r) (pipe_nread pi ?m) (pipe_nwrite pi ?m)"
    have uz: "unat z = min (min (N - r) (pipe_count pi ?m)) (512 - unat (pipe_nread pi ?m) mod 512)"
      unfolding z_def pr_size_def unat_MIN32 unat_chunk512
      using unat_nat_diff[OF less.prems(4,3)] by (simp add: pipe_count_def)
    have zb: "unat z \<le> N - r" "unat z \<le> pipe_count pi ?m" "unat z \<le> 512 - unat (pipe_nread pi ?m) mod 512" "unat z \<le> k"
      unfolding uz less.prems(6) by auto
    have zpos: "0 < unat z" using uz True by simp
    have av: "pipe_avail pi ?m (unat z)"
      unfolding pipe_avail_def using zb mod_less_divisor[of 512 "unat (pipe_nread pi ?m)"] by linarith
    let ?bs = "take (unat z) ?C"
    have lb: "length ?bs = unat z" using zb(2) by simp
    have rz: "r + length ?bs \<le> N" unfolding lb using zb(1) True by linarith
    obtain s1 where s1: "copyout pt (addr + of_nat r) ?bs s = Inr (0, s1)" "s1 = s\<lparr>mem := mem s1\<rparr>"
      "same_off ?F ?m (mem s1)"
      "\<And>i. i < N \<Longrightarrow> mem s1 (?u i) = (if r \<le> i \<and> i < r + length ?bs then ?bs ! (i - r) else ?m (?u i))"
      using copyout_part[OF rng(1,4,6,7) rz] by blast
    note p1 = pipe_same_off[OF s1(3) rng(2,5)]
    let ?s = "s1\<lparr>mem := pipe_skip pi (unat z) (mem s1)\<rparr>"
    have c1: "unat z \<le> pipe_count pi (mem s1)" "pipe_count pi (mem s1) \<le> 512" using zb(2) cnt p1 by auto
    have off2: "same_off {pi} (mem s1) (mem ?s)" using pipe_skip_same_off[OF rng(2)] by simp
    have off: "same_off (insert pi ?F) ?m (mem ?s)" by (rule same_off_trans[OF s1(3) off2]) auto
    note ps = pipe_sink_same_off[OF less.prems(1) off]
    have zr: "of_nat r + z = (of_nat (r + unat z) :: u32)" by simp
    have "unat (ucast z :: u64) = unat z" using unat_less_u32[of z] by (simp add: unsigned_ucast_eq take_bit_nat_eq_self)
    then have z0: "(ucast z :: u64) \<noteq> 0" using zpos by auto
    have step: "piperead_loop pi pt addr (of_nat N) (of_nat r) sz s
        = piperead_loop pi pt addr (of_nat N) (of_nat (r + unat z)) (ucast z) ?s"
      using True sN less.prems(3,5) empty s1(1) unfolding zr[symmetric]
      by (subst piperead_loop.simps)
        (simp add: Let_def z_def[symmetric] scast_nat pipe_data_contents[OF av])
    have "\<exists>s'. piperead_loop pi pt addr (of_nat N) (of_nat (r + unat z)) (ucast z) ?s
        = Inr (Ret (of_nat (r + unat z + (k - unat z))), s') \<and>
      pipe_contents pi (mem s') = drop (k - unat z) (pipe_contents pi (mem ?s)) \<and> pipe_inv pi (mem s') \<and>
      same_off (insert pi (uframes (mem ?s) pt addr N)) (mem ?s) (mem s') \<and>
      (\<forall>i<N. mem s' (upa (mem ?s) pt (addr + of_nat i)) =
         (if r + unat z \<le> i \<and> i < r + unat z + (k - unat z) then pipe_contents pi (mem ?s) ! (i - (r + unat z))
          else mem ?s (upa (mem ?s) pt (addr + of_nat i)))) \<and>
      freelist s' = freelist ?s \<and> ekernel s' = ekernel ?s"
    proof (rule less.hyps[OF _ ps(1)])
      show "N - (r + unat z) < N - r" using zpos True by linarith
      show "pipe_inv pi (mem ?s)" using pipe_skip_count[OF c1] c1 by (simp add: pipe_inv_def)
      show "r + unat z \<le> N" using rz unfolding lb .
      show "k - unat z = min (N - (r + unat z)) (pipe_count pi (mem ?s))"
        using less.prems(6) pipe_skip_count[OF c1] p1(6) zb by (auto simp: min_def)
    qed (use less.prems(3) z0 in auto)
    then obtain s' where s': "piperead_loop pi pt addr (of_nat N) (of_nat r) sz s = Inr (Ret (of_nat (r + k)), s')"
      "pipe_contents pi (mem s') = drop (k - unat z) (drop (unat z) ?C)" "pipe_inv pi (mem s')"
      "same_off (insert pi ?F) (mem ?s) (mem s')"
      "\<And>i. i < N \<Longrightarrow> mem s' (?u i) =
         (if r + unat z \<le> i \<and> i < r + k then drop (unat z) ?C ! (i - (r + unat z)) else mem ?s (?u i))"
      "freelist s' = freelist s1" "ekernel s' = ekernel s1"
      using pipe_skip_contents[OF c1] zb(4) unfolding step ps(2,3) by (auto simp: p1(5))
    have "mem ?s (?u i) = mem s1 (?u i)" if "i < N" for i
    proof (rule same_offD[OF off2])
      show "PGROUNDDOWN (?u i) \<notin> {pi}"
        using rng(5) that unfolding page_upa uframes_def ureach_all[OF rng(4)] by auto
    qed
    then have bytes: "mem s' (?u i) = (if r \<le> i \<and> i < r + k then ?C ! (i - r) else ?m (?u i))" if "i < N" for i
      using s'(5)[OF that] s1(4)[OF that] that lb zb(2,4) less.prems(6) by (auto simp: not_less not_le)
    have "pipe_contents pi (mem s') = drop k ?C" using s'(2) zb(4) by simp
    moreover have "same_off (insert pi ?F) ?m (mem s')" by (rule same_off_trans[OF off s'(4)]) simp
    moreover have "freelist s' = freelist s" "ekernel s' = ekernel s"
      using s'(6,7) by (simp_all add: s1(2)[THEN arg_cong, of freelist] s1(2)[THEN arg_cong, of ekernel])
    ultimately show ?thesis using s'(1,3) bytes by blast
  qed
qed

section \<open>A fresh pipe\<close>

lemma pipe_init_ok:
  assumes "aligned pi"
  shows "same_off {pi} m (pipe_init pi m)" "pipe_inv pi (pipe_init pi m)" "pipe_contents pi (pipe_init pi m) = []"
    "pipe_readopen pi (pipe_init pi m) = 1" "pipe_writeopen pi (pipe_init pi m) = 1"
proof -
  define m1 where "m1 = memset m pi 0 4096"
  have e: "pipe_init pi m = store32 (store32 (store32 (store32 m1 (pi + of_nat 520) 1) (pi + of_nat 524) 1)
     (pi + of_nat 516) 0) (pi + of_nat 512) 0"
    by (simp add: pipe_init_def m1_def Let_def)
  have w: "pipe_nread pi (pipe_init pi m) = 0" "pipe_nwrite pi (pipe_init pi m) = 0"
    "pipe_readopen pi (pipe_init pi m) = 1" "pipe_writeopen pi (pipe_init pi m) = 1"
    unfolding pipe_nread_def pipe_nwrite_def pipe_readopen_def pipe_writeopen_def off_eq e
    by (simp_all add: load32_store32_off del: of_nat_numeral)
  then show "pipe_readopen pi (pipe_init pi m) = 1" "pipe_writeopen pi (pipe_init pi m) = 1" by simp_all
  have c: "pipe_count pi (pipe_init pi m) = 0" by (simp add: pipe_count_def w)
  then show "pipe_inv pi (pipe_init pi m)" "pipe_contents pi (pipe_init pi m) = []"
    by (simp_all add: pipe_inv_def pipe_contents_def ring_list_def)
  have s: "same_off {pi} m' (store32 m' (pi + of_nat k) v)" if "k \<le> 4092" for m' k v
    unfolding store32_def by (rule wr_pipe_same_off[OF assms]) (use that in simp)
  have t: "same_off {pi} m m' \<Longrightarrow> k \<le> 4092 \<Longrightarrow> same_off {pi} m (store32 m' (pi + of_nat k) v)" for m' k v
    by (rule same_off_trans[OF _ s]) auto
  show "same_off {pi} m (pipe_init pi m)"
    unfolding e using memset_same_off[OF assms] by (intro t) (simp_all add: m1_def)
qed

section \<open>Properties\<close>

text \<open>C23: any sequence of the chunk transfers that \<open>pipewrite\<close> and \<open>piperead\<close> perform on a pipe
  delivers the bytes in order, without loss or duplication, whatever the counters are (they
  wrap around at 32 bits): what was read, followed by what is still in the pipe, is what was
  in the pipe followed by what was written; and never more than 512 bytes are in flight.\<close>

theorem pipe_stream:
  assumes "pipe_inv pi m" "pipe.run ops (pi, m) = Some (out, (pi', m'))"
  shows "out @ pipe_contents pi' m' = pipe_contents pi m @ concat (map put_of ops) \<and>
    length (concat (map put_of ops)) \<le> length out + 512"
  using pipe.run_stream[of "(pi, m)" ops out "(pi', m')"] pipe.run_bounded[of "(pi, m)" ops out "(pi', m')"] assms
  by simp

theorem pipe_stream_witness:
  "\<exists>out pi' m'. pipe.run [Put [1, 2, 3], Get 2, Put [4], Get 1] (4096, pipe_init 4096 (\<lambda>_. 0)) = Some (out, (pi', m')) \<and>
     out @ pipe_contents pi' m' = [1, 2, 3, 4]"
proof -
  let ?m = "pipe_init 4096 (\<lambda>_. 0)"
  have al: "aligned 4096" by (simp add: aligned_def)
  note i = pipe_init_ok[OF al, of "\<lambda>_. 0"]
  have r0: "pipe_nread 4096 ?m = 0" "pipe_nwrite 4096 ?m = 0" "pipe_count 4096 ?m = 0"
    unfolding pipe_count_def pipe_nread_def pipe_nwrite_def pipe_init_def off_eq
    by (simp_all add: load32_store32_off Let_def mem_simps del: of_nat_numeral)
  have "pipe_room 4096 ?m [1, 2, 3]" by (simp add: pipe_room_def r0)
  note c1 = pipe_put_counters[OF this] pipe_put_count[OF this]
  let ?m1 = "pipe_put 4096 [1, 2, 3] ?m"
  have r1: "pipe_nread 4096 ?m1 = 0" "pipe_nwrite 4096 ?m1 = 3" "pipe_count 4096 ?m1 = 3"
    using c1 r0 by simp_all
  have av1: "pipe_avail 4096 ?m1 2" by (simp add: pipe_avail_def r1)
  let ?m2 = "pipe_skip 4096 2 ?m1"
  have r2: "pipe_nread 4096 ?m2 = 2" "pipe_nwrite 4096 ?m2 = 3" "pipe_count 4096 ?m2 = 1"
    using pipe_skip_counters[of 4096 2 ?m1] pipe_skip_count[of 2 4096 ?m1] r1 by simp_all
  have rm2: "pipe_room 4096 ?m2 [4]" by (simp add: pipe_room_def r2)
  let ?m3 = "pipe_put 4096 [4] ?m2"
  have r3: "pipe_nread 4096 ?m3 = 2" "pipe_count 4096 ?m3 = 2"
    using pipe_put_counters[OF rm2] pipe_put_count[OF rm2] r2 by simp_all
  have av3: "pipe_avail 4096 ?m3 1" by (simp add: pipe_avail_def r3)
  have "\<exists>out pi' m'. pipe.run [Put [1, 2, 3], Get 2, Put [4], Get 1] (4096, ?m) = Some (out, (pi', m'))"
    using \<open>pipe_room 4096 ?m [1, 2, 3]\<close> av1 rm2 av3 by (simp del: One_nat_def)
  then obtain out pi' m' where o: "pipe.run [Put [1, 2, 3], Get 2, Put [4], Get 1] (4096, ?m) = Some (out, (pi', m'))"
    by blast
  show ?thesis using pipe_stream[OF i(2) o] i(3) o by auto
qed

text \<open>C33: a \<open>pipewrite\<close> of \<open>N\<close> bytes appends to the pipe as many bytes of the user's buffer as fit,
  in order. It returns \<open>N\<close> when all of them fit, otherwise it yields with the pipe full and resumes
  with the rest; it changes only the pipe's page.\<close>

theorem pipewrite_correct:
  assumes "pipe_range (mem s) pi (pagetable (cproc s)) addr N" "pipe_inv pi (mem s)"
    "0 < N" "N < 2 ^ 31" "pipe_readopen pi (mem s) \<noteq> 0"
    "k = min N (512 - pipe_count pi (mem s))"
  shows "\<exists>s'. pipewrite pi addr (of_nat N) s = Inr (if k = N then Ret (of_nat N) else Yield (of_nat k), s') \<and>
    pipe_contents pi (mem s') = pipe_contents pi (mem s) @ take k (ubytes (mem s) (pagetable (cproc s)) addr N) \<and>
    pipe_inv pi (mem s') \<and> same_off {pi} (mem s) (mem s')"
proof -
  have "sint (of_nat N :: u32) > 0" using assms(3,4) by (simp add: sint_nat)
  then show ?thesis
    using pipewrite_loop_ok[OF assms(1,2,4), of 0 k] assms(5,6) by (auto simp: pipewrite_def)
qed

text \<open>A concrete state: a user page at 0x1000 and an empty pipe in a page of its own.\<close>

lemma pipe_example:
  "\<exists>m. pipe_sink m 0x87001000 0x87fff000 0x1ffc 4 \<and> pipe_inv 0x87001000 m \<and>
     pipe_contents 0x87001000 m = [] \<and> pipe_readopen 0x87001000 m = 1 \<and> pipe_writeopen 0x87001000 m = 1"
proof -
  obtain s :: kmem and fps where s: "vm_inv s 0x87fff000 fps"
    "\<forall>va<MAXVA. leaf (mem s) 0x87fff000 va = (if PGROUNDDOWN va = 0x1000 then PA2PTE 0x87000000 OR 0x16 OR 1 else 0)"
    "pt_pages (mem s) 0x87fff000 \<subseteq> {0x87fff000, 0x87ffe000, 0x87ffd000, 0x87ffc000}"
    using one_page_table by blast
  note r = example_reach[OF s(2)]
  have inj: "inj_on (\<lambda>i. upa (mem s) 0x87fff000 (0x1ffc + of_nat i)) {..<4}"
  proof (rule inj_onI)
    fix i j :: nat
    assume a: "i \<in> {..<4}" "j \<in> {..<4}"
      "upa (mem s) 0x87fff000 (0x1ffc + of_nat i) = upa (mem s) 0x87fff000 (0x1ffc + of_nat j)"
    then have "(of_nat i :: u64) = of_nat j" using r(5)[of i] r(5)[of j] by simp
    then have "unat (of_nat i :: u64) = unat (of_nat j :: u64)" by (rule arg_cong)
    then show "i = j" using a(1,2) by (simp add: unat_of_nat_u64)
  qed
  have al: "aligned 0x87001000" by (simp add: aligned_def)
  have sink: "pipe_sink (mem s) 0x87001000 0x87fff000 0x1ffc 4"
    using s(1,3) r(2,3) inj al by (auto simp: pipe_sink_def pipe_range_def vm_inv_def)
  note i = pipe_init_ok[OF al, of "mem s"]
  have "same_off (insert 0x87001000 (uframes (mem s) 0x87fff000 0x1ffc 4)) (mem s) (pipe_init 0x87001000 (mem s))"
    by (rule same_off_mono[OF i(1)]) simp
  from pipe_sink_same_off(1)[OF sink this] show ?thesis
    using i by (intro exI[of _ "pipe_init 0x87001000 (mem s)"]) simp
qed

lemma example_cproc: "cproc (kproc0 m\<lparr>idle := proc0\<lparr>pagetable := pt\<rparr>\<rparr>) = proc0\<lparr>pagetable := pt\<rparr>"
  by (simp add: kproc0_def curr_proc_def proc_at_def)

theorem pipewrite_correct_witness:
  "\<exists>(s :: kproc) s'. pipewrite 0x87001000 0x1ffc 4 s = Inr (Ret 4, s') \<and>
     pipe_contents 0x87001000 (mem s') = ubytes (mem s) 0x87fff000 0x1ffc 4"
proof -
  obtain m where m: "pipe_sink m 0x87001000 0x87fff000 0x1ffc 4" "pipe_inv 0x87001000 m"
    "pipe_contents 0x87001000 m = []" "pipe_readopen 0x87001000 m = 1" using pipe_example by blast
  let ?s = "kproc0 m\<lparr>idle := proc0\<lparr>pagetable := 0x87fff000\<rparr>\<rparr>"
  have ms: "mem ?s = m" by (simp add: kproc0_def)
  have pt: "pagetable (cproc ?s) = 0x87fff000" unfolding example_cproc by (simp add: proc0_def)
  have "length (pipe_contents 0x87001000 m) = 0" using m(3) by simp
  then have c: "pipe_count 0x87001000 m = 0" by simp
  have "\<exists>s'. pipewrite 0x87001000 0x1ffc (of_nat 4) ?s = Inr (if 4 = (4 :: nat) then Ret (of_nat 4) else Yield (of_nat 4), s') \<and>
    pipe_contents 0x87001000 (mem s') = pipe_contents 0x87001000 (mem ?s) @ take 4 (ubytes (mem ?s) (pagetable (cproc ?s)) 0x1ffc 4) \<and>
    pipe_inv 0x87001000 (mem s') \<and> same_off {0x87001000} (mem ?s) (mem s')"
    by (rule pipewrite_correct) (use m c in \<open>simp_all add: ms pt pipe_sink_def\<close>)
  then obtain s' where "pipewrite 0x87001000 0x1ffc 4 ?s = Inr (Ret 4, s')"
    "pipe_contents 0x87001000 (mem s') = take 4 (ubytes m 0x87fff000 0x1ffc 4)" using m(3) by (auto simp: ms pt)
  moreover have "length (ubytes m 0x87fff000 0x1ffc 4) = 4"
    using m(1) by (intro length_ubytes) (simp add: pipe_sink_def pipe_range_def)
  ultimately show ?thesis by (intro exI[of _ ?s] exI[of _ s']) (simp add: ms)
qed

text \<open>C34: a \<open>piperead\<close> of \<open>N\<close> bytes from a pipe that is not empty returns without waiting: it
  delivers the oldest bytes of the pipe, \<open>N\<close> of them or all there are, to the user's buffer and
  removes exactly those. On an empty pipe it yields while a writer is open, else returns -1.\<close>

theorem piperead_correct:
  assumes "pipe_sink (mem s) pi (pagetable (cproc s)) addr N" "pipe_inv pi (mem s)"
    "0 < N" "N < 2 ^ 31" "k = min N (pipe_count pi (mem s))"
  shows "\<exists>s'. piperead pi addr (of_nat N) s =
      Inr (if k = 0 then (if pipe_writeopen pi (mem s) \<noteq> 0 then Yield 0 else Ret (-1)) else Ret (of_nat k), s') \<and>
    pipe_contents pi (mem s') = drop k (pipe_contents pi (mem s)) \<and> pipe_inv pi (mem s') \<and>
    same_off (insert pi (uframes (mem s) (pagetable (cproc s)) addr N)) (mem s) (mem s') \<and>
    (\<forall>i<k. mem s' (upa (mem s) (pagetable (cproc s)) (addr + of_nat i)) = pipe_contents pi (mem s) ! i)"
proof -
  have n0: "sint (of_nat N :: u32) > 0" using assms(3,4) by (simp add: sint_nat)
  have empty: "pipe_nread pi (mem s) = pipe_nwrite pi (mem s) \<longleftrightarrow> pipe_count pi (mem s) = 0"
    by (auto simp: pipe_count_def unat_eq_0)
  show ?thesis
  proof (cases "pipe_count pi (mem s) = 0")
    case True
    then show ?thesis using n0 empty assms by (intro exI[of _ s]) (simp add: piperead_def)
  next
    case False
    have m1: "(-1 :: u64) \<noteq> 0" by simp
    have k: "k = min (N - 0) (pipe_count pi (mem s))" using assms(5) by simp
    obtain s' where "piperead_loop pi (pagetable (cproc s)) addr (of_nat N) 0 (-1) s = Inr (Ret (of_nat k), s')"
      "pipe_contents pi (mem s') = drop k (pipe_contents pi (mem s))" "pipe_inv pi (mem s')"
      "same_off (insert pi (uframes (mem s) (pagetable (cproc s)) addr N)) (mem s) (mem s')"
      "\<forall>i<N. mem s' (upa (mem s) (pagetable (cproc s)) (addr + of_nat i)) =
        (if i < k then pipe_contents pi (mem s) ! i else mem s (upa (mem s) (pagetable (cproc s)) (addr + of_nat i)))"
      using piperead_loop_ok[OF assms(1,2,4) le0 m1 k] by auto
    moreover have "k \<noteq> 0" "k \<le> N" using assms(3,5) False by auto
    ultimately show ?thesis using n0 empty False by (intro exI[of _ s']) (simp add: piperead_def)
  qed
qed

theorem piperead_correct_witness:
  "\<exists>(s :: kproc) s'. piperead 0x87001000 0x1ffc 4 s = Inr (Yield 0, s') \<and> pipe_contents 0x87001000 (mem s') = []"
proof -
  obtain m where m: "pipe_sink m 0x87001000 0x87fff000 0x1ffc 4" "pipe_inv 0x87001000 m"
    "pipe_contents 0x87001000 m = []" "pipe_writeopen 0x87001000 m = 1" using pipe_example by blast
  let ?s = "kproc0 m\<lparr>idle := proc0\<lparr>pagetable := 0x87fff000\<rparr>\<rparr>"
  have ms: "mem ?s = m" by (simp add: kproc0_def)
  have pt: "pagetable (cproc ?s) = 0x87fff000" unfolding example_cproc by (simp add: proc0_def)
  have "length (pipe_contents 0x87001000 m) = 0" using m(3) by simp
  then have c: "pipe_count 0x87001000 m = 0" by simp
  show ?thesis
    using piperead_correct[of ?s "0x87001000" "0x1ffc" 4 0] m c by (auto simp: ms pt)
qed

end
