(* ===== verification/Mailbox.thy ===== *)
theory Mailbox
  imports Pipe
begin

text \<open>
  The mailbox of a process as a bounded queue of messages: 17 slots of which one stays empty, so
  that at most 16 messages are waiting. \<open>mail_read\<close> and \<open>mail_write\<close> of \<open>kernel/proc.c\<close> (theory
  Proc) are the queue's operations, wrapped in a transfer from or to user memory.
\<close>

section \<open>Contents\<close>

definition mbox_inv :: "mbox \<Rightarrow> bool" where
  "mbox_inv mb \<longleftrightarrow> 0 \<le> mb_head mb \<and> mb_head mb < 17 \<and> 0 \<le> mb_tail mb \<and> mb_tail mb < 17 \<and>
     length (mb_len mb) = 17 \<and> length (mails mb) = 17 \<and>
     (\<forall>k<17. 0 \<le> mb_len mb ! k \<and> mb_len mb ! k \<le> 256 \<and> length (mails mb ! k) = 256)"

definition mail_at :: "mbox \<Rightarrow> nat \<Rightarrow> u8 list" where
  "mail_at mb k = take (nat (mb_len mb ! k)) (mails mb ! k)"

definition mbox_count :: "mbox \<Rightarrow> nat" where
  "mbox_count mb = nat ((mb_tail mb - mb_head mb) mod 17)"

definition mbox_contents :: "mbox \<Rightarrow> u8 list list" where
  "mbox_contents mb = ring_list 17 (mail_at mb) (nat (mb_head mb)) (mbox_count mb)"

text \<open>What the two operations do to the structure.\<close>

definition mbox_put :: "u8 list \<Rightarrow> mbox \<Rightarrow> mbox" where
  "mbox_put bs mb = (let tl = nat (mb_tail mb)
     in mb\<lparr>mb_len := (mb_len mb)[tl := int (length bs)],
           mails := (mails mb)[tl := bs @ drop (length bs) (mails mb ! tl)],
           mb_tail := (1 + mb_tail mb) mod 17\<rparr>)"

definition mbox_skip :: "mbox \<Rightarrow> mbox" where
  "mbox_skip mb = mb\<lparr>mb_head := (1 + mb_head mb) mod 17\<rparr>"

lemma length_mbox_contents [simp]: "length (mbox_contents mb) = mbox_count mb"
  by (simp add: mbox_contents_def)

lemma mbox_count_le: "mbox_count mb \<le> 16"
proof -
  have "(mb_tail mb - mb_head mb) mod 17 < 17" by simp
  then show ?thesis by (simp add: mbox_count_def)
qed

lemma mod17: "-17 < x \<Longrightarrow> x < 17 \<Longrightarrow> x mod 17 = (if 0 \<le> x then x else x + (17 :: int))"
proof -
  assume x: "-17 < x" "x < 17"
  have "(x + 17) mod 17 = x mod 17" by simp
  moreover have "(x + 17) mod 17 = x + 17" if "x < 0" using x that by (intro mod_pos_pos_trivial) auto
  ultimately show ?thesis using x by auto
qed

lemma ring17:
  fixes h t :: int
  assumes "0 \<le> h" "h < 17" "0 \<le> t" "t < 17"
  shows "(1 + t) mod 17 = h \<longleftrightarrow> nat ((t - h) mod 17) = 16" "t = h \<longleftrightarrow> nat ((t - h) mod 17) = 0"
    "nat ((t - h) mod 17) < 16 \<Longrightarrow> nat (((1 + t) mod 17 - h) mod 17) = Suc (nat ((t - h) mod 17))"
    "0 < nat ((t - h) mod 17) \<Longrightarrow> nat ((t - (1 + h) mod 17) mod 17) = nat ((t - h) mod 17) - 1"
proof -
  have a: "(t - h) mod 17 = (if h \<le> t then t - h else t - h + 17)"
    using assms mod17[of "t - h"] by auto
  have b: "(1 + t) mod 17 = (if t = 16 then 0 else t + 1)" "(1 + h) mod 17 = (if h = 16 then 0 else h + 1)"
    using assms by auto
  show "(1 + t) mod 17 = h \<longleftrightarrow> nat ((t - h) mod 17) = 16" "t = h \<longleftrightarrow> nat ((t - h) mod 17) = 0"
    unfolding a b using assms by auto
  show "nat ((t - h) mod 17) < 16 \<Longrightarrow> nat (((1 + t) mod 17 - h) mod 17) = Suc (nat ((t - h) mod 17))"
    unfolding a b using assms mod17[of "0 - h"] mod17[of "t + 1 - h"] by (auto split: if_splits)
  show "0 < nat ((t - h) mod 17) \<Longrightarrow> nat ((t - (1 + h) mod 17) mod 17) = nat ((t - h) mod 17) - 1"
    unfolding a b using assms mod17[of "t - 0"] mod17[of "t - (h + 1)"] by (auto split: if_splits)
qed

lemma mbox_full: "mbox_inv mb \<Longrightarrow> (1 + mb_tail mb) mod 17 = mb_head mb \<longleftrightarrow> mbox_count mb = 16"
  unfolding mbox_inv_def mbox_count_def using ring17(1) by blast

lemma mbox_empty: "mbox_inv mb \<Longrightarrow> mb_tail mb = mb_head mb \<longleftrightarrow> mbox_count mb = 0"
  unfolding mbox_inv_def mbox_count_def using ring17(2) by blast

lemma mbox_tail_ring:
  assumes "mbox_inv mb"
  shows "nat (mb_tail mb) = (nat (mb_head mb) + mbox_count mb) mod 17"
proof -
  have "mb_tail mb = (mb_head mb + (mb_tail mb - mb_head mb) mod 17) mod 17"
    using assms by (simp add: mbox_inv_def mod_simps)
  also have "\<dots> = int ((nat (mb_head mb) + mbox_count mb) mod 17)"
    using assms by (simp add: mbox_count_def mbox_inv_def zmod_int)
  finally show ?thesis by simp
qed

lemma mbox_put_inv: "mbox_inv mb \<Longrightarrow> length bs \<le> 256 \<Longrightarrow> mbox_inv (mbox_put bs mb)"
  by (auto simp: mbox_inv_def mbox_put_def Let_def nth_list_update)

lemma mbox_skip_inv: "mbox_inv mb \<Longrightarrow> mbox_inv (mbox_skip mb)"
  by (simp add: mbox_inv_def mbox_skip_def)

lemma mbox_put_count:
  "mbox_inv mb \<Longrightarrow> mbox_count mb < 16 \<Longrightarrow> mbox_count (mbox_put bs mb) = Suc (mbox_count mb)"
  unfolding mbox_inv_def mbox_count_def mbox_put_def Let_def using ring17(3) by simp

lemma mbox_put_contents:
  assumes inv: "mbox_inv mb" and room: "mbox_count mb < 16" and len: "length bs \<le> 256"
  shows "mbox_contents (mbox_put bs mb) = mbox_contents mb @ [bs]"
proof -
  let ?h = "nat (mb_head mb)" and ?c = "mbox_count mb" and ?t = "nat (mb_tail mb)"
  have t: "?t = (?h + ?c) mod 17" "?t < 17" using mbox_tail_ring[OF inv] inv by (auto simp: mbox_inv_def)
  have at: "mail_at (mbox_put bs mb) k = (if k = ?t then bs else mail_at mb k)" if "k < 17" for k
    using inv t(2) that by (auto simp: mail_at_def mbox_put_def Let_def mbox_inv_def nth_list_update)
  have "ring_list 17 (mail_at (mbox_put bs mb)) ?h ?c = ring_list 17 (mail_at mb) ?h ?c"
  proof (rule ring_list_cong)
    fix i assume "i < ?c"
    then have "(?h + i) mod 17 \<noteq> (?h + ?c) mod 17" using room by (intro ring_distinct) auto
    then show "mail_at (mbox_put bs mb) ((?h + i) mod 17) = mail_at mb ((?h + i) mod 17)"
      using at[of "(?h + i) mod 17"] t(1) by simp
  qed
  moreover have "ring_list 17 (mail_at (mbox_put bs mb)) (?h + ?c) 1 = [bs]"
    using at[of ?t] t by (simp add: ring_list_def)
  moreover have "mb_head (mbox_put bs mb) = mb_head mb" by (simp add: mbox_put_def Let_def)
  ultimately show ?thesis
    unfolding mbox_contents_def mbox_put_count[OF inv room]
    using ring_list_append[of 17 "mail_at (mbox_put bs mb)" ?h ?c 1] by simp
qed

lemma mbox_skip_contents:
  assumes inv: "mbox_inv mb" and ne: "0 < mbox_count mb"
  shows "mbox_contents mb = mail_at mb (nat (mb_head mb)) # mbox_contents (mbox_skip mb)"
proof -
  let ?h = "nat (mb_head mb)" and ?c = "mbox_count mb"
  have c: "mbox_count (mbox_skip mb) = ?c - 1"
    using inv ne unfolding mbox_inv_def mbox_count_def mbox_skip_def using ring17(4) by simp
  have h: "nat (mb_head (mbox_skip mb)) = Suc ?h mod 17"
    using inv by (simp add: mbox_inv_def mbox_skip_def nat_mod_distrib nat_add_distrib)
  have at: "mail_at (mbox_skip mb) = mail_at mb" by (simp add: fun_eq_iff mail_at_def mbox_skip_def)
  have "?h < 17" using inv by (auto simp: mbox_inv_def)
  then have h17: "?h mod 17 = ?h" by simp
  have "mbox_contents mb = ring_list 17 (mail_at mb) ?h 1 @ ring_list 17 (mail_at mb) (?h + 1) (?c - 1)"
    unfolding mbox_contents_def using ring_list_append[of 17 "mail_at mb" ?h 1 "?c - 1"] ne by simp
  also have "ring_list 17 (mail_at mb) ?h 1 = [mail_at mb ?h]" by (simp add: ring_list_def h17)
  also have "ring_list 17 (mail_at mb) (?h + 1) (?c - 1) = mbox_contents (mbox_skip mb)"
    unfolding mbox_contents_def h c at by (simp add: ring_list_mod)
  finally show ?thesis by simp
qed

interpretation mailq: fifo mbox_inv mbox_contents 16
  "\<lambda>xs. mbox_put (hd xs)" "\<lambda>n mb. ([mail_at mb (nat (mb_head mb))], mbox_skip mb)"
  "\<lambda>mb xs. mbox_count mb < 16 \<and> length xs = 1 \<and> length (hd xs) \<le> 256" "\<lambda>mb n. n = 1 \<and> 0 < mbox_count mb"
proof (unfold_locales, goal_cases)
  case (1 s xs)
  then obtain x where "xs = [x]" by (cases xs) auto
  with 1 show ?case by (simp add: mbox_put_inv mbox_put_contents)
next
  case (2 s n)
  then show ?case using mbox_skip_contents[of s] by (simp add: mbox_skip_inv)
next
  case (3 s)
  then show ?case by (simp add: mbox_count_le)
qed

section \<open>The operations of the kernel\<close>

lemma mail_write_full:
  "mbox_inv (mailbox (pool s ! i)) \<Longrightarrow> mbox_count (mailbox (pool s ! i)) = 16 \<Longrightarrow>
   mail_write i buf len s = Inr (-1, s)"
  using mbox_full by (simp add: mail_write_def)

lemma mail_write_sends:
  assumes inv: "mbox_inv (mailbox (pool s ! i))" and room: "mbox_count (mailbox (pool s ! i)) < 16"
    and len: "0 < len" "n = nat (min len 256)"
    and wf: "pt_wf (mem s) pt" "uall (mem s) pt buf n" "pt = pagetable (cproc s)"
  shows "mail_write i buf len s = Inr (int n, s\<lparr>pool := (pool s)[i :=
    (pool s ! i)\<lparr>mailbox := mbox_put (ubytes (mem s) pt buf n) (mailbox (pool s ! i))\<rparr>]\<rparr>)"
proof -
  let ?mb = "mailbox (pool s ! i)" and ?bs = "ubytes (mem s) pt buf n"
  have nf: "(1 + mb_tail ?mb) mod 17 \<noteq> mb_head ?mb" using mbox_full[OF inv] room by simp
  have lb: "length ?bs = n" using length_ubytes[OF wf(2)] .
  have ci: "copyin (pagetable (cproc s)) buf n s = Inr (0, ?bs)"
    using copyin_ok[OF wf(1), of buf n] wf(2,3) by simp
  have l: "(if len > 256 then 256 else len) = int n" "n \<noteq> 0" "\<not> int n < 0" "len \<noteq> 0" using len by auto
  show ?thesis
    using nf ci lb l unfolding mail_write_def Let_def l(1)
    by (simp add: mbox_put_def Let_def)
qed

lemma mail_read_empty:
  "mbox_inv (mailbox (cproc s)) \<Longrightarrow> mbox_contents (mailbox (cproc s)) = [] \<Longrightarrow>
   mail_read buf len s = Inr (-1, s)"
  using mbox_empty[of "mailbox (cproc s)"] length_mbox_contents[of "mailbox (cproc s)"]
  by (simp add: mail_read_def Let_def)

lemma mail_read_delivers:
  assumes inv: "mbox_inv (mailbox (cproc s))" and ne: "mbox_contents (mailbox (cproc s)) = msg # rest"
    and len: "0 < len" "bs = take (nat len) msg"
    and co: "copyout (pagetable (cproc s)) buf bs s = Inr (r, s1)" "r \<noteq> -1"
  shows "mail_read buf len s = Inr (int (length bs), set_proc (curr_proc s)
      ((cproc s)\<lparr>mailbox := mbox_skip (mailbox (cproc s))\<rparr>) s1)"
    "mbox_contents (mbox_skip (mailbox (cproc s))) = rest" "mbox_inv (mbox_skip (mailbox (cproc s)))"
proof -
  let ?mb = "mailbox (cproc s)" and ?h = "nat (mb_head (mailbox (cproc s)))"
  have c: "0 < mbox_count ?mb" using length_mbox_contents[of ?mb] ne by simp
  have msg: "msg = mail_at ?mb ?h" "rest = mbox_contents (mbox_skip ?mb)"
    using mbox_skip_contents[OF inv c] ne by auto
  then show "mbox_contents (mbox_skip ?mb) = rest" "mbox_inv (mbox_skip ?mb)"
    using mbox_skip_inv[OF inv] by simp_all
  have h: "?h < 17" "0 \<le> mb_len ?mb ! ?h" "mb_len ?mb ! ?h \<le> 256" "length (mails ?mb ! ?h) = 256"
    using inv by (auto simp: mbox_inv_def)
  define l where "l = (if len > mb_len ?mb ! ?h then mb_len ?mb ! ?h else len)"
  have l: "0 \<le> l" "l \<le> 256" using h len by (auto simp: l_def)
  have bs: "bs = take (nat l) (mails ?mb ! ?h)"
    unfolding len(2) msg mail_at_def l_def using h len(1) by (simp add: min_def)
  have lb: "int (length bs) = l" unfolding bs using l h by simp
  have "mb_tail ?mb \<noteq> mb_head ?mb" using mbox_empty[OF inv] c by simp
  moreover have "\<not> (l < 0 \<or> int (length (mails ?mb ! ?h)) < l)" using l h by simp
  moreover have "len \<noteq> 0" using len by simp
  moreover have "curr_proc s1 = curr_proc s" by (rule mem_only_curr_proc[OF copyout_mem_only[OF co(1)]])
  ultimately show "mail_read buf len s = Inr (int (length bs), set_proc (curr_proc s) ((cproc s)\<lparr>mailbox := mbox_skip ?mb\<rparr>) s1)"
    unfolding lb using co unfolding bs
    by (simp add: mail_read_def Let_def l_def[symmetric] mbox_skip_def)
qed

text \<open>With a negative length both operations run past the 256 bytes of a slot.\<close>

lemma mail_negative_length:
  assumes "len < 0"
  shows "mbox_inv (mailbox (cproc s)) \<Longrightarrow> mbox_contents (mailbox (cproc s)) \<noteq> [] \<Longrightarrow>
      mail_read buf len s = Inl (Wild ''mail_read: past the slot'')"
    "mbox_inv (mailbox (pool s ! i)) \<Longrightarrow> mbox_count (mailbox (pool s ! i)) < 16 \<Longrightarrow>
      mail_write i buf len s = Inl (Wild ''mail_write: past the slot'')"
proof -
  assume inv: "mbox_inv (mailbox (cproc s))" and ne: "mbox_contents (mailbox (cproc s)) \<noteq> []"
  have "mbox_count (mailbox (cproc s)) \<noteq> 0"
    using ne length_mbox_contents[of "mailbox (cproc s)"] by (metis length_0_conv)
  then have "mb_tail (mailbox (cproc s)) \<noteq> mb_head (mailbox (cproc s))" using mbox_empty[OF inv] by simp
  moreover have "nat (mb_head (mailbox (cproc s))) < 17" using inv by (auto simp: mbox_inv_def)
  then have "0 \<le> mb_len (mailbox (cproc s)) ! nat (mb_head (mailbox (cproc s)))"
    using inv by (auto simp: mbox_inv_def)
  ultimately show "mail_read buf len s = Inl (Wild ''mail_read: past the slot'')"
    using assms by (simp add: mail_read_def Let_def)
next
  assume "mbox_inv (mailbox (pool s ! i))" "mbox_count (mailbox (pool s ! i)) < 16"
  then show "mail_write i buf len s = Inl (Wild ''mail_write: past the slot'')"
    using assms mbox_full[of "mailbox (pool s ! i)"] by (simp add: mail_write_def Let_def)
qed

section \<open>Properties\<close>

text \<open>C35: \<open>mail_write\<close> of a positive length appends one message, the first \<open>min len 256\<close> bytes
  of the user's buffer, to the target's mailbox and returns its length, or returns -1 and changes
  nothing when 16 messages are waiting. No other process and no memory is touched.\<close>

theorem mail_write_correct:
  assumes "i < length (pool s)" "mbox_inv (mailbox (pool s ! i))" "0 < len" "n = nat (min len 256)"
    "pt_wf (mem s) (pagetable (cproc s))" "uall (mem s) (pagetable (cproc s)) buf n"
  shows "\<exists>s'. mail_write i buf len s =
      Inr (if mbox_count (mailbox (pool s ! i)) = 16 then -1 else int n, s') \<and>
    mbox_inv (mailbox (pool s' ! i)) \<and>
    mbox_contents (mailbox (pool s' ! i)) = mbox_contents (mailbox (pool s ! i)) @
      (if mbox_count (mailbox (pool s ! i)) = 16 then [] else [ubytes (mem s) (pagetable (cproc s)) buf n]) \<and>
    (\<forall>j. j \<noteq> i \<longrightarrow> pool s' ! j = pool s ! j) \<and> mem s' = mem s"
proof (cases "mbox_count (mailbox (pool s ! i)) = 16")
  case True
  then show ?thesis using mail_write_full[OF assms(2)] assms(2) by simp
next
  case False
  then have room: "mbox_count (mailbox (pool s ! i)) < 16"
    using mbox_count_le[of "mailbox (pool s ! i)"] by simp
  let ?bs = "ubytes (mem s) (pagetable (cproc s)) buf n"
  have "length ?bs \<le> 256" using length_ubytes[OF assms(6)] assms(4) by simp
  then show ?thesis
    using mail_write_sends[OF assms(2) room assms(3,4,5,6) refl] assms(1,2) False
      mbox_put_inv[OF assms(2)] mbox_put_contents[OF assms(2) room] by simp
qed

lemma mbox0_ok: "mbox_inv mbox0" "mbox_contents mbox0 = []" "mbox_count mbox0 = 0"
  by (simp_all add: mbox_inv_def mbox0_def mbox_contents_def mbox_count_def ring_list_def)

theorem mail_write_correct_witness:
  "\<exists>(s :: kproc) s'. mail_write 0 0x1ffc 4 s = Inr (4, s') \<and>
     mbox_contents (mailbox (pool s' ! 0)) = [ubytes (mem s) 0x87fff000 0x1ffc 4]"
proof -
  obtain m where m: "pipe_sink m 0x87001000 0x87fff000 0x1ffc 4" using pipe_example by blast
  let ?s = "kproc0 m\<lparr>idle := proc0\<lparr>pagetable := 0x87fff000\<rparr>\<rparr>"
  have ms: "mem ?s = m" "pool ?s = replicate 256 proc0" by (simp_all add: kproc0_def)
  have pt: "pagetable (cproc ?s) = 0x87fff000" unfolding example_cproc by (simp add: proc0_def)
  have mp: "mailbox proc0 = mbox0" by (simp add: proc0_def)
  then have mb: "mailbox (pool ?s ! 0) = mbox0" by (simp add: kproc0_def)
  have "\<exists>s'. mail_write 0 0x1ffc 4 ?s = Inr (if mbox_count (mailbox (pool ?s ! 0)) = 16 then -1 else int 4, s') \<and>
    mbox_inv (mailbox (pool s' ! 0)) \<and>
    mbox_contents (mailbox (pool s' ! 0)) = mbox_contents (mailbox (pool ?s ! 0)) @
      (if mbox_count (mailbox (pool ?s ! 0)) = 16 then [] else [ubytes (mem ?s) (pagetable (cproc ?s)) 0x1ffc 4]) \<and>
    (\<forall>j. j \<noteq> 0 \<longrightarrow> pool s' ! j = pool ?s ! j) \<and> mem s' = mem ?s"
    by (rule mail_write_correct) (use m in \<open>simp_all only: mb mbox0_ok ms pt\<close>, simp_all add: pipe_sink_def pipe_range_def mp mbox0_ok)
  then have "\<exists>s'. mail_write 0 0x1ffc 4 ?s = Inr (4, s') \<and>
      mbox_contents (mailbox (pool s' ! 0)) = [ubytes (mem ?s) 0x87fff000 0x1ffc 4]"
    unfolding mb mbox0_ok pt by auto
  then show ?thesis by blast
qed



end
