(* ===== verification/Bio.thy ===== *)
theory Bio
  imports Proc
begin

text \<open>
  The buffer cache, \<open>kernel/bio.c\<close> and \<open>struct buf\<close> of \<open>kernel/buf.h\<close>: 30 buffers in a circular
  doubly linked list through a head, most recently used first. Pointers are indices, 30 is
  \<open>&bcache.head\<close>. The disk is a map from block numbers to blocks, which \<open>virtio_disk_rw\<close> reads
  and writes; its driver is in the theory Virtio. The pointer surgery is shown to implement
  the usual operations on the list of buffers.
\<close>

section \<open>State\<close>

record buf =
  b_valid :: bool
  b_disk :: bool
  b_dev :: u32
  b_blockno :: u32
  b_refcnt :: u32
  b_prev :: nat
  b_next :: nat
  b_data :: "u8 list"

abbreviation (input) NBUF :: nat where "NBUF \<equiv> 30"

abbreviation (input) bhead :: nat where "bhead \<equiv> 30"

text \<open>\<open>bufs\<close> has 31 entries: \<open>bcache.buf\<close> and then \<open>bcache.head\<close>.\<close>

record kdisk = kproc +
  disk :: "u32 \<Rightarrow> u8 list"
  bufs :: "buf list"

definition upd_buf :: "nat \<Rightarrow> (buf \<Rightarrow> buf) \<Rightarrow> 'a kdisk_scheme \<Rightarrow> 'a kdisk_scheme" where
  "upd_buf i f s = s\<lparr>bufs := (bufs s)[i := f (bufs s ! i)]\<rparr>"

definition buf_data :: "nat \<Rightarrow> 'a kdisk_scheme \<Rightarrow> u8 list" where
  "buf_data i s = b_data (bufs s ! i)"

definition set_data :: "nat \<Rightarrow> u8 list \<Rightarrow> 'a kdisk_scheme \<Rightarrow> 'a kdisk_scheme" where
  "set_data i d s = upd_buf i (\<lambda>b. b\<lparr>b_data := d\<rparr>) s"

section \<open>Operations\<close>

text \<open>Assignments through pointers.\<close>

definition set_next :: "nat \<Rightarrow> nat \<Rightarrow> buf list \<Rightarrow> buf list" where
  "set_next i v bs = bs[i := (bs ! i)\<lparr>b_next := v\<rparr>]"

definition set_prev :: "nat \<Rightarrow> nat \<Rightarrow> buf list \<Rightarrow> buf list" where
  "set_prev i v bs = bs[i := (bs ! i)\<lparr>b_prev := v\<rparr>]"

text \<open>Linking \<open>b\<close> in after the head: the last four assignments of \<open>binit\<close>'s loop and of \<open>brelse\<close>.\<close>

definition link_front :: "nat \<Rightarrow> buf list \<Rightarrow> buf list" where
  "link_front b bs =
     (let bs = set_next b (b_next (bs ! bhead)) bs;
          bs = set_prev b bhead bs;
          bs = set_prev (b_next (bs ! bhead)) b bs
      in set_next bhead b bs)"

primrec binit_loop :: "nat \<Rightarrow> nat \<Rightarrow> buf list \<Rightarrow> buf list" where
  "binit_loop 0 b bs = bs"
| "binit_loop (Suc n) b bs = binit_loop n (Suc b) (link_front b bs)"

definition binit :: "'a kdisk_scheme \<Rightarrow> 'a kdisk_scheme" where
  "binit s =
     (let bs = set_prev bhead bhead (bufs s);
          bs = set_next bhead bhead bs
      in s\<lparr>bufs := binit_loop NBUF 0 bs\<rparr>)"

text \<open>
  The two searches of \<open>bget\<close>. The fuel is one more than the number of buffers; a walk that uses it
  up has met a list that does not lead back to the head, on which the C loop does not end.
\<close>

fun bsearch_next :: "nat \<Rightarrow> (buf \<Rightarrow> bool) \<Rightarrow> nat \<Rightarrow> buf list \<Rightarrow> nat option res" where
  "bsearch_next 0 P b bs = Inl (Wild ''bget: endless list'')"
| "bsearch_next (Suc n) P b bs =
     (if b = bhead then Inr None
      else if P (bs ! b) then Inr (Some b)
      else bsearch_next n P (b_next (bs ! b)) bs)"

fun bsearch_prev :: "nat \<Rightarrow> (buf \<Rightarrow> bool) \<Rightarrow> nat \<Rightarrow> buf list \<Rightarrow> nat option res" where
  "bsearch_prev 0 P b bs = Inl (Wild ''bget: endless list'')"
| "bsearch_prev (Suc n) P b bs =
     (if b = bhead then Inr None
      else if P (bs ! b) then Inr (Some b)
      else bsearch_prev n P (b_prev (bs ! b)) bs)"

definition bget :: "u32 \<Rightarrow> u32 \<Rightarrow> 'a kdisk_scheme \<Rightarrow> (nat \<times> 'a kdisk_scheme) res" where
  "bget dev blockno s =
     bindE (bsearch_next (Suc NBUF) (\<lambda>b. b_dev b = dev \<and> b_blockno b = blockno) (b_next (bufs s ! bhead)) (bufs s)) (\<lambda>r.
       case r of
         Some i \<Rightarrow> Inr (i, upd_buf i (\<lambda>b. b\<lparr>b_refcnt := b_refcnt b + 1\<rparr>) s)
       | None \<Rightarrow>
         bindE (bsearch_prev (Suc NBUF) (\<lambda>b. b_refcnt b = 0) (b_prev (bufs s ! bhead)) (bufs s)) (\<lambda>r.
           case r of
             Some i \<Rightarrow> Inr (i, upd_buf i (\<lambda>b. b\<lparr>b_dev := dev, b_blockno := blockno,
                                                b_valid := False, b_refcnt := 1\<rparr>) s)
           | None \<Rightarrow> Inl (Panic ''bget: no buffers'')))"

text \<open>What the device does for the driver: it transfers one block of 1024 bytes.\<close>

definition disk_rw :: "nat \<Rightarrow> bool \<Rightarrow> 'a kdisk_scheme \<Rightarrow> 'a kdisk_scheme" where
  "disk_rw i write s =
     (let b = bufs s ! i
      in if write then s\<lparr>disk := (disk s)(b_blockno b := b_data b)\<rparr>
         else set_data i (disk s (b_blockno b)) s)"

definition bread :: "u32 \<Rightarrow> u32 \<Rightarrow> 'a kdisk_scheme \<Rightarrow> (nat \<times> 'a kdisk_scheme) res" where
  "bread dev blockno s =
     bindE (bget dev blockno s) (\<lambda>(i, s).
       if \<not> b_valid (bufs s ! i)
       then Inr (i, upd_buf i (\<lambda>b. b\<lparr>b_valid := True\<rparr>) (disk_rw i False s))
       else Inr (i, s))"

definition bwrite :: "nat \<Rightarrow> 'a kdisk_scheme \<Rightarrow> 'a kdisk_scheme" where
  "bwrite i s = disk_rw i True s"

definition brelse :: "nat \<Rightarrow> 'a kdisk_scheme \<Rightarrow> 'a kdisk_scheme" where
  "brelse i s =
     (let s = upd_buf i (\<lambda>b. b\<lparr>b_refcnt := b_refcnt b - 1\<rparr>) s
      in if b_refcnt (bufs s ! i) = 0
         then let bs = bufs s;
                  bs = set_prev (b_next (bs ! i)) (b_prev (bs ! i)) bs;
                  bs = set_next (b_prev (bs ! i)) (b_next (bs ! i)) bs
              in s\<lparr>bufs := link_front i bs\<rparr>
         else s)"

definition bpin :: "nat \<Rightarrow> 'a kdisk_scheme \<Rightarrow> 'a kdisk_scheme" where
  "bpin i s = upd_buf i (\<lambda>b. b\<lparr>b_refcnt := b_refcnt b + 1\<rparr>) s"

definition bunpin :: "nat \<Rightarrow> 'a kdisk_scheme \<Rightarrow> 'a kdisk_scheme" where
  "bunpin i s = upd_buf i (\<lambda>b. b\<lparr>b_refcnt := b_refcnt b - 1\<rparr>) s"

section \<open>Doubly linked lists\<close>

text \<open>\<open>dpath nx pv a xs b\<close>: from \<open>a\<close> one reaches \<open>b\<close> through \<open>xs\<close>, and back.\<close>

fun dpath :: "(nat \<Rightarrow> nat) \<Rightarrow> (nat \<Rightarrow> nat) \<Rightarrow> nat \<Rightarrow> nat list \<Rightarrow> nat \<Rightarrow> bool" where
  "dpath nx pv a [] b \<longleftrightarrow> nx a = b \<and> pv b = a"
| "dpath nx pv a (x # xs) b \<longleftrightarrow> nx a = x \<and> pv x = a \<and> dpath nx pv x xs b"

lemma dpath_append: "dpath nx pv a (xs @ y # ys) b \<longleftrightarrow> dpath nx pv a xs y \<and> dpath nx pv y ys b"
  by (induction xs arbitrary: a) auto

lemma dpath_snoc: "dpath nx pv a (xs @ [y]) b \<longleftrightarrow> dpath nx pv a xs y \<and> nx y = b \<and> pv b = y"
  by (simp add: dpath_append)

lemma dpath_cong:
  "(\<And>x. x \<in> insert a (set xs) \<Longrightarrow> nx' x = nx x) \<Longrightarrow> (\<And>x. x \<in> insert b (set xs) \<Longrightarrow> pv' x = pv x) \<Longrightarrow>
   dpath nx' pv' a xs b = dpath nx pv a xs b"
  by (induction xs arbitrary: a) auto

text \<open>Taking an element out, and putting one in after the head.\<close>

lemma dpath_unlink:
  assumes "dpath nx pv h (xs @ i # ys) h" "distinct (h # xs @ i # ys)"
  shows "dpath (nx(pv i := nx i)) (pv(nx i := pv i)) h (xs @ ys) h"
proof -
  have p: "dpath nx pv h xs i" "dpath nx pv i ys h" using assms(1) by (simp_all add: dpath_append)
  let ?nx = "nx(pv i := nx i)" and ?pv = "pv(nx i := pv i)"
  show ?thesis
  proof (cases xs rule: rev_cases)
    case Nil
    then have h: "pv i = h" "nx h = i" using p(1) by auto
    show ?thesis
    proof (cases ys)
      case Nil
      then show ?thesis using \<open>xs = []\<close> p h by simp
    next
      case (Cons y zs)
      then have "nx i = y" "pv y = i" "dpath nx pv y zs h" using p(2) by auto
      moreover have "dpath ?nx ?pv y zs h = dpath nx pv y zs h"
        by (rule dpath_cong) (use assms(2) Cons h calculation in auto)
      ultimately show ?thesis using \<open>xs = []\<close> Cons h by simp
    qed
  next
    case (snoc us u)
    then have u: "dpath nx pv h us u" "nx u = i" "pv i = u" using p(1) by (auto simp: dpath_snoc)
    show ?thesis
    proof (cases ys)
      case Nil
      then have "nx i = h" "pv h = i" using p(2) by auto
      moreover have "dpath ?nx ?pv h us u = dpath nx pv h us u"
        by (rule dpath_cong) (use assms(2) snoc Nil u calculation in auto)
      ultimately show ?thesis using snoc Nil u by (simp add: dpath_snoc)
    next
      case (Cons y zs)
      then have y: "nx i = y" "pv y = i" "dpath nx pv y zs h" using p(2) by auto
      have "dpath ?nx ?pv h us u = dpath nx pv h us u"
        by (rule dpath_cong) (use assms(2) snoc Cons u y in auto)
      moreover have "dpath ?nx ?pv y zs h = dpath nx pv y zs h"
        by (rule dpath_cong) (use assms(2) snoc Cons u y in auto)
      ultimately show ?thesis using snoc Cons u y by (simp add: dpath_append)
    qed
  qed
qed

lemma dpath_link:
  assumes "dpath nx pv h xs h" "i \<notin> set (h # xs)" "distinct (h # xs)"
  shows "dpath (nx(i := nx h, h := i)) (pv(i := h, nx h := i)) h (i # xs) h"
proof (cases xs)
  case Nil
  then show ?thesis using assms by auto
next
  case (Cons y zs)
  then have y: "nx h = y" "dpath nx pv y zs h" using assms(1) by auto
  have "dpath (nx(i := nx h, h := i)) (pv(i := h, nx h := i)) y zs h = dpath nx pv y zs h"
    by (rule dpath_cong) (use assms Cons y in auto)
  then show ?thesis using assms Cons y by auto
qed

section \<open>The list of buffers\<close>

definition blist :: "buf list \<Rightarrow> nat list \<Rightarrow> bool" where
  "blist bs xs \<longleftrightarrow> length bs = 31 \<and> dpath (\<lambda>i. b_next (bs ! i)) (\<lambda>i. b_prev (bs ! i)) bhead xs bhead \<and>
     distinct xs \<and> set xs \<subseteq> {..<30}"

lemma length_set_next [simp]: "length (set_next i v bs) = length bs" "length (set_prev i v bs) = length bs"
  by (simp_all add: set_next_def set_prev_def)

lemma nx_set: "i < length bs \<Longrightarrow> (\<lambda>j. b_next (set_next i v bs ! j)) = (\<lambda>j. b_next (bs ! j))(i := v)"
  "i < length bs \<Longrightarrow> (\<lambda>j. b_prev (set_next i v bs ! j)) = (\<lambda>j. b_prev (bs ! j))"
  "i < length bs \<Longrightarrow> (\<lambda>j. b_next (set_prev i v bs ! j)) = (\<lambda>j. b_next (bs ! j))"
  "i < length bs \<Longrightarrow> (\<lambda>j. b_prev (set_prev i v bs ! j)) = (\<lambda>j. b_prev (bs ! j))(i := v)"
  by (auto simp: set_next_def set_prev_def nth_list_update fun_eq_iff)

lemma nth_list_update_if: "xs[i := x] ! j = (if i = j \<and> i < length xs then x else xs ! j)"
  by (cases "i < length xs") (simp_all add: nth_list_update list_update_beyond)

text \<open>The fields that are not links.\<close>

definition same_contents :: "buf list \<Rightarrow> buf list \<Rightarrow> bool" where
  "same_contents bs bs' \<longleftrightarrow> length bs' = length bs \<and> (\<forall>i. b_valid (bs' ! i) = b_valid (bs ! i) \<and>
     b_dev (bs' ! i) = b_dev (bs ! i) \<and> b_blockno (bs' ! i) = b_blockno (bs ! i) \<and>
     b_refcnt (bs' ! i) = b_refcnt (bs ! i) \<and> b_data (bs' ! i) = b_data (bs ! i))"

lemma same_contents_refl: "same_contents bs bs"
  by (simp add: same_contents_def)

lemma same_contents_trans: "same_contents a b \<Longrightarrow> same_contents b c \<Longrightarrow> same_contents a c"
  by (simp add: same_contents_def)

lemma same_contents_set: "same_contents bs (set_next i v bs)" "same_contents bs (set_prev i v bs)"
  by (simp_all add: same_contents_def set_next_def set_prev_def nth_list_update_if)

lemma link_front_contents: "same_contents bs (link_front i bs)"
  unfolding link_front_def Let_def by (meson same_contents_set same_contents_trans)

lemma link_front_ok:
  assumes "blist bs xs" "i < 30" "i \<notin> set xs"
  shows "blist (link_front i bs) (i # xs)"
proof -
  have l: "length bs = 31" using assms(1) by (simp add: blist_def)
  let ?nx = "\<lambda>j. b_next (bs ! j)" and ?pv = "\<lambda>j. b_prev (bs ! j)"
  have p: "dpath ?nx ?pv 30 xs 30" "distinct (30 # xs)" "i \<notin> set (30 # xs)"
    using assms by (auto simp: blist_def)
  have h: "?nx 30 < 31" using p(1) assms(1) by (cases xs) (auto simp: blist_def)
  define b1 where "b1 = set_prev i 30 (set_next i (b_next (bs ! 30)) bs)"
  have l1: "length b1 = 31" by (simp add: b1_def l)
  have n1: "(\<lambda>j. b_next (b1 ! j)) = ?nx(i := ?nx 30)" "(\<lambda>j. b_prev (b1 ! j)) = ?pv(i := 30)"
    unfolding b1_def using assms(2) l by (simp_all add: nx_set)
  have h1: "b_next (b1 ! 30) = ?nx 30" using fun_cong[OF n1(1), of 30] assms(2) by simp
  define b2 where "b2 = set_next 30 i (set_prev (b_next (b1 ! 30)) i b1)"
  have e: "link_front i bs = b2"
    unfolding b2_def b1_def link_front_def Let_def ..
  have "(\<lambda>j. b_next (b2 ! j)) = ?nx(i := ?nx 30, 30 := i)" "(\<lambda>j. b_prev (b2 ! j)) = ?pv(i := 30, ?nx 30 := i)"
    unfolding b2_def h1 using h l1 by (simp_all add: nx_set n1)
  then show ?thesis
    unfolding e blist_def using dpath_link[OF p(1,3,2)] l1 assms by (simp add: b2_def blist_def)
qed

lemma unlink_ok:
  assumes "blist bs xs" "i \<in> set xs"
  defines "b1 \<equiv> set_prev (b_next (bs ! i)) (b_prev (bs ! i)) bs"
  shows "blist (set_next (b_prev (b1 ! i)) (b_next (b1 ! i)) b1) (remove1 i xs)"
    "same_contents bs (set_next (b_prev (b1 ! i)) (b_next (b1 ! i)) b1)"
proof -
  show "same_contents bs (set_next (b_prev (b1 ! i)) (b_next (b1 ! i)) b1)"
    unfolding b1_def by (meson same_contents_set same_contents_trans)
  let ?nx = "\<lambda>j. b_next (bs ! j)" and ?pv = "\<lambda>j. b_prev (bs ! j)"
  obtain us ys where xs: "xs = us @ i # ys" "i \<notin> set us" using assms(2) split_list_first by metis
  have b: "length bs = 31" "dpath ?nx ?pv 30 (us @ i # ys) 30" "distinct (30 # us @ i # ys)" "set xs \<subseteq> {..<30}"
    using assms(1) xs by (auto simp: blist_def)
  have i: "i < 30" using b(4) xs by auto
  have p: "dpath ?nx ?pv 30 us i" "dpath ?nx ?pv i ys 30" using b(2) by (simp_all add: dpath_append)
  have ni: "?nx i \<noteq> i" "?nx i < 31" using p(2) b(3,4) i xs by (cases ys; auto)+
  have pi: "?pv i < 31" using p(1) b(4) xs by (cases us rule: rev_cases) (auto simp: dpath_snoc)
  have l1: "length b1 = 31" by (simp add: b1_def b(1))
  have n1: "(\<lambda>j. b_next (b1 ! j)) = ?nx" "(\<lambda>j. b_prev (b1 ! j)) = ?pv(?nx i := ?pv i)"
    unfolding b1_def using ni b(1) by (simp_all add: nx_set)
  have e: "b_next (b1 ! i) = ?nx i" "b_prev (b1 ! i) = ?pv i"
    using fun_cong[OF n1(1), of i] fun_cong[OF n1(2), of i] ni by simp_all
  have "(\<lambda>j. b_next (set_next (?pv i) (?nx i) b1 ! j)) = ?nx(?pv i := ?nx i)"
    "(\<lambda>j. b_prev (set_next (?pv i) (?nx i) b1 ! j)) = ?pv(?nx i := ?pv i)"
    using pi l1 by (simp_all add: nx_set n1)
  moreover have "remove1 i xs = us @ ys" using xs by (simp add: remove1_append)
  ultimately show "blist (set_next (b_prev (b1 ! i)) (b_next (b1 ! i)) b1) (remove1 i xs)"
    unfolding blist_def e using dpath_unlink[OF b(2,3)] l1 b xs by auto
qed

lemma binit_loop_ok:
  "blist bs xs \<Longrightarrow> \<forall>j. b \<le> j \<and> j < b + n \<longrightarrow> j < 30 \<and> j \<notin> set xs \<Longrightarrow>
   blist (binit_loop n b bs) (rev [b..<b + n] @ xs)"
proof (induction n arbitrary: b bs xs)
  case (Suc n)
  have "blist (link_front b bs) (b # xs)" using Suc.prems by (intro link_front_ok) auto
  then have "blist (binit_loop n (Suc b) (link_front b bs)) (rev [Suc b..<Suc b + n] @ b # xs)"
    using Suc.prems(2) by (intro Suc.IH) auto
  moreover have "rev [b..<b + Suc n] @ xs = rev [Suc b..<Suc b + n] @ b # xs"
    by (simp add: upt_conv_Cons del: upt_Suc)
  ultimately show ?case by simp
qed simp

lemma binit_blist:
  assumes "length (bufs s) = 31"
  shows "blist (bufs (binit s)) (rev [0..<30])"
proof -
  let ?bs = "set_next 30 30 (set_prev 30 30 (bufs s))"
  have "blist ?bs []" using assms by (simp add: blist_def set_next_def set_prev_def)
  then have "blist (binit_loop 30 0 ?bs) (rev [0..<0 + 30] @ [])" by (rule binit_loop_ok) auto
  then show ?thesis by (simp add: binit_def Let_def)
qed

text \<open>The walks are searches in the list, forwards and backwards.\<close>

lemma bsearch_next_find:
  "dpath (\<lambda>i. b_next (bs ! i)) pv a xs 30 \<Longrightarrow> 30 \<notin> set xs \<Longrightarrow> length xs < n \<Longrightarrow>
   bsearch_next n P (b_next (bs ! a)) bs = Inr (find (\<lambda>i. P (bs ! i)) xs)"
proof (induction xs arbitrary: a n)
  case Nil
  then show ?case by (cases n) auto
next
  case (Cons x xs)
  then obtain k where "n = Suc k" by (cases n) auto
  with Cons show ?case by auto
qed

lemma bsearch_prev_find:
  "dpath nx (\<lambda>i. b_prev (bs ! i)) a xs b \<Longrightarrow> a = 30 \<Longrightarrow> 30 \<notin> set xs \<Longrightarrow> length xs < n \<Longrightarrow>
   bsearch_prev n P (b_prev (bs ! b)) bs = Inr (find (\<lambda>i. P (bs ! i)) (rev xs))"
proof (induction xs arbitrary: b n rule: rev_induct)
  case Nil
  then show ?case by (cases n) auto
next
  case (snoc x xs)
  then obtain k where "n = Suc k" by (cases n) auto
  with snoc show ?case by (auto simp: dpath_snoc)
qed

lemma blist_length: "blist bs xs \<Longrightarrow> length xs \<le> 30"
proof -
  assume "blist bs xs"
  then have "distinct xs" "set xs \<subseteq> {..<30}" by (auto simp: blist_def)
  then have "card (set xs) \<le> card {..<30 :: nat}" by (intro card_mono) auto
  then show ?thesis using \<open>distinct xs\<close> by (simp add: distinct_card)
qed

lemma bsearches:
  assumes "blist bs xs"
  shows "bsearch_next 31 P (b_next (bs ! 30)) bs = Inr (find (\<lambda>i. P (bs ! i)) xs)"
    "bsearch_prev 31 P (b_prev (bs ! 30)) bs = Inr (find (\<lambda>i. P (bs ! i)) (rev xs))"
proof -
  have d: "dpath (\<lambda>i. b_next (bs ! i)) (\<lambda>i. b_prev (bs ! i)) 30 xs 30" "30 \<notin> set xs"
    using assms by (auto simp: blist_def)
  have l: "length xs < 31" using blist_length[OF assms] by simp
  show "bsearch_next 31 P (b_next (bs ! 30)) bs = Inr (find (\<lambda>i. P (bs ! i)) xs)"
    by (rule bsearch_next_find[OF d l])
  show "bsearch_prev 31 P (b_prev (bs ! 30)) bs = Inr (find (\<lambda>i. P (bs ! i)) (rev xs))"
    by (rule bsearch_prev_find[OF d(1) refl d(2) l])
qed

end
