(* ===== verification/Cache.thy ===== *)
theory Cache
  imports Bio
begin

text \<open>
  What the buffer cache promises. The abstract state is \<open>bview\<close>, the contents of every block as
  a client sees it through the cache. \<open>cache_inv\<close> is the invariant: a proper list of 30 buffers,
  one buffer per block, and unreferenced buffers that agree with the disk. The locale
  \<open>block_store\<close> is the contract the file system relies on.
\<close>

section \<open>The invariant and the view\<close>

definition refs :: "'a kdisk_scheme \<Rightarrow> nat \<Rightarrow> u32" where
  "refs s i = (if i < 30 then b_refcnt (bufs s ! i) else 0)"

definition holds :: "'a kdisk_scheme \<Rightarrow> nat \<Rightarrow> u32 \<Rightarrow> bool" where
  "holds s i b \<longleftrightarrow> i < 30 \<and> b_valid (bufs s ! i) \<and> b_dev (bufs s ! i) = 1 \<and> b_blockno (bufs s ! i) = b"

definition cache_inv :: "'a kdisk_scheme \<Rightarrow> bool" where
  "cache_inv s \<longleftrightarrow> (\<exists>xs. blist (bufs s) xs \<and> set xs = {..<30}) \<and>
     (\<forall>i<30. b_dev (bufs s ! i) = 0 \<and> \<not> b_valid (bufs s ! i) \<and> b_refcnt (bufs s ! i) = 0 \<or> b_dev (bufs s ! i) = 1) \<and>
     (\<forall>i<30. \<forall>j<30. b_dev (bufs s ! i) = 1 \<and> b_dev (bufs s ! j) = 1 \<and>
        b_blockno (bufs s ! i) = b_blockno (bufs s ! j) \<longrightarrow> i = j) \<and>
     (\<forall>i<30. b_refcnt (bufs s ! i) = 0 \<and> b_valid (bufs s ! i) \<longrightarrow> b_data (bufs s ! i) = disk s (b_blockno (bufs s ! i))) \<and>
     (\<forall>i<30. b_valid (bufs s ! i) \<longrightarrow> length (b_data (bufs s ! i)) = 1024) \<and> (\<forall>b. length (disk s b) = 1024)"

definition bview :: "'a kdisk_scheme \<Rightarrow> u32 \<Rightarrow> u8 list" where
  "bview s b = (case find_idx (\<lambda>x. b_valid x \<and> b_dev x = 1 \<and> b_blockno x = b) (take 30 (bufs s)) of
     Some i \<Rightarrow> b_data (bufs s ! i) | None \<Rightarrow> disk s b)"

text \<open>The rest of the state.\<close>

definition nodisk :: "'a kdisk_scheme \<Rightarrow> 'a kdisk_scheme" where
  "nodisk s = s\<lparr>disk := (\<lambda>_. []), bufs := []\<rparr>"

lemma nodisk_upd [simp]: "nodisk (s\<lparr>bufs := x\<rparr>) = nodisk s" "nodisk (s\<lparr>disk := d\<rparr>) = nodisk s"
  "nodisk (upd_buf i f s) = nodisk s"
  by (simp_all add: nodisk_def upd_buf_def)

lemma cache_invI:
  assumes "\<exists>xs. blist (bufs s) xs \<and> set xs = {..<30}"
    "\<And>i. i < 30 \<Longrightarrow> b_dev (bufs s ! i) = 0 \<and> \<not> b_valid (bufs s ! i) \<and> b_refcnt (bufs s ! i) = 0 \<or> b_dev (bufs s ! i) = 1"
    "\<And>i j. i < 30 \<Longrightarrow> j < 30 \<Longrightarrow> b_dev (bufs s ! i) = 1 \<Longrightarrow> b_dev (bufs s ! j) = 1 \<Longrightarrow>
        b_blockno (bufs s ! i) = b_blockno (bufs s ! j) \<Longrightarrow> i = j"
    "\<And>i. i < 30 \<Longrightarrow> b_refcnt (bufs s ! i) = 0 \<Longrightarrow> b_valid (bufs s ! i) \<Longrightarrow>
        b_data (bufs s ! i) = disk s (b_blockno (bufs s ! i))"
    "\<And>i. i < 30 \<Longrightarrow> b_valid (bufs s ! i) \<Longrightarrow> length (b_data (bufs s ! i)) = 1024"
    "\<And>b. length (disk s b) = 1024"
  shows "cache_inv s"
  unfolding cache_inv_def using assms by blast

lemma cache_invD:
  assumes "cache_inv s"
  shows "\<exists>xs. blist (bufs s) xs \<and> set xs = {..<30}"
    "i < 30 \<Longrightarrow> b_dev (bufs s ! i) = 0 \<and> \<not> b_valid (bufs s ! i) \<and> b_refcnt (bufs s ! i) = 0 \<or> b_dev (bufs s ! i) = 1"
    "i < 30 \<Longrightarrow> j < 30 \<Longrightarrow> b_dev (bufs s ! i) = 1 \<Longrightarrow> b_dev (bufs s ! j) = 1 \<Longrightarrow>
        b_blockno (bufs s ! i) = b_blockno (bufs s ! j) \<Longrightarrow> i = j"
    "i < 30 \<Longrightarrow> b_refcnt (bufs s ! i) = 0 \<Longrightarrow> b_valid (bufs s ! i) \<Longrightarrow>
        b_data (bufs s ! i) = disk s (b_blockno (bufs s ! i))"
    "i < 30 \<Longrightarrow> b_valid (bufs s ! i) \<Longrightarrow> length (b_data (bufs s ! i)) = 1024"
    "length (disk s b) = 1024"
  using assms unfolding cache_inv_def by blast+

lemma inv_length: "cache_inv s \<Longrightarrow> length (bufs s) = 31"
  by (auto simp: cache_inv_def blist_def)

lemma bview_holds:
  assumes "cache_inv s" "holds s i b"
  shows "bview s b = b_data (bufs s ! i)"
proof -
  let ?P = "\<lambda>x. b_valid x \<and> b_dev x = 1 \<and> b_blockno x = b"
  have l: "length (bufs s) = 31" by (rule inv_length[OF assms(1)])
  have "find_idx ?P (take 30 (bufs s)) = Some i"
    unfolding find_idx_Some
  proof (intro conjI allI impI)
    fix j assume j: "j < i"
    show "\<not> ?P (take 30 (bufs s) ! j)"
    proof
      assume "?P (take 30 (bufs s) ! j)"
      moreover have "j < 30" "i < 30" using j assms(2) by (auto simp: holds_def)
      ultimately have "j = i" using assms unfolding cache_inv_def holds_def by auto
      then show False using j by simp
    qed
  qed (use assms(2) l in \<open>auto simp: holds_def\<close>)
  then show ?thesis by (simp add: bview_def)
qed

lemma bview_unheld:
  assumes "cache_inv s" "\<And>i. \<not> holds s i b"
  shows "bview s b = disk s b"
proof -
  have "find_idx (\<lambda>x. b_valid x \<and> b_dev x = 1 \<and> b_blockno x = b) (take 30 (bufs s)) = None"
    unfolding find_idx_None
  proof
    fix x assume "x \<in> set (take 30 (bufs s))"
    then obtain i where "i < 30" "x = bufs s ! i"
      using inv_length[OF assms(1)] by (auto simp: in_set_conv_nth)
    then show "\<not> (b_valid x \<and> b_dev x = 1 \<and> b_blockno x = b)"
      using assms(2)[of i] by (auto simp: holds_def)
  qed
  then show ?thesis by (simp add: bview_def)
qed

lemma bview_cases:
  assumes "cache_inv s"
  obtains (held) i where "holds s i b" "bview s b = b_data (bufs s ! i)"
  | (unheld) "\<And>i. \<not> holds s i b" "bview s b = disk s b"
  using bview_holds[OF assms] bview_unheld[OF assms] by blast

lemma bview_length: "cache_inv s \<Longrightarrow> length (bview s b) = 1024"
  by (cases rule: bview_cases[of s b]) (auto simp: cache_inv_def holds_def)

lemma holds_unique: "cache_inv s \<Longrightarrow> holds s i b \<Longrightarrow> holds s j b \<Longrightarrow> i = j"
  unfolding cache_inv_def holds_def by blast

lemma holds_fun: "holds s i b \<Longrightarrow> holds s i c \<Longrightarrow> b = c"
  by (simp add: holds_def)

section \<open>Operations on a held buffer\<close>

lemma nth_upd_buf: "i < length (bufs s) \<Longrightarrow> bufs (upd_buf i f s) ! j = (if j = i then f (bufs s ! i) else bufs s ! j)"
  by (simp add: upd_buf_def nth_list_update)

lemma upd_buf_simps [simp]: "disk (upd_buf i f s) = disk s" "length (bufs (upd_buf i f s)) = length (bufs s)"
  by (simp_all add: upd_buf_def)

lemma blist_upd_buf:
  assumes "blist (bufs s) xs" "i < 30" "\<And>x. b_next (f x) = b_next x" "\<And>x. b_prev (f x) = b_prev x"
  shows "blist (bufs (upd_buf i f s)) xs"
proof -
  have l: "length (bufs s) = 31" using assms(1) by (simp add: blist_def)
  have "(\<lambda>j. b_next (bufs (upd_buf i f s) ! j)) = (\<lambda>j. b_next (bufs s ! j))"
    "(\<lambda>j. b_prev (bufs (upd_buf i f s) ! j)) = (\<lambda>j. b_prev (bufs s ! j))"
    using nth_upd_buf[of i s f] assms(2-) l by (auto simp: fun_eq_iff)
  then show ?thesis using assms(1) by (simp add: blist_def)
qed

lemma set_data_ok:
  assumes inv: "cache_inv s" and h: "holds s i b" and r: "refs s i \<noteq> 0" and len: "length d = 1024"
  shows "cache_inv (set_data i d s)" "bview (set_data i d s) = (bview s)(b := d)"
    "refs (set_data i d s) = refs s" "holds (set_data i d s) j c = holds s j c"
    "disk (set_data i d s) = disk s" "nodisk (set_data i d s) = nodisk s"
    "buf_data j (set_data i d s) = (if j = i then d else buf_data j s)"
proof -
  let ?s = "set_data i d s"
  have i: "i < 30" using h by (simp add: holds_def)
  have l: "length (bufs s) = 31" by (rule inv_length[OF inv])
  have nth: "bufs ?s ! j = (if j = i then (bufs s ! i)\<lparr>b_data := d\<rparr> else bufs s ! j)" for j
    unfolding set_data_def using i l by (simp add: nth_upd_buf)
  show rf: "refs ?s = refs s" by (auto simp: refs_def nth fun_eq_iff)
  show hs: "holds ?s j c = holds s j c" for j c by (simp add: holds_def nth)
  show dk: "disk ?s = disk s" "nodisk ?s = nodisk s" by (simp_all add: set_data_def)
  show "buf_data j ?s = (if j = i then d else buf_data j s)" by (simp add: buf_data_def nth)
  obtain xs where xs: "blist (bufs s) xs" "set xs = {..<30}" using inv by (auto simp: cache_inv_def)
  have "blist (bufs ?s) xs" unfolding set_data_def by (rule blist_upd_buf[OF xs(1) i]) simp_all
  moreover have "b_refcnt (bufs s ! i) \<noteq> 0" using r i by (simp add: refs_def)
  ultimately show inv': "cache_inv ?s"
  proof (intro cache_invI)
    show "\<And>i j. i < 30 \<Longrightarrow> j < 30 \<Longrightarrow> b_dev (bufs ?s ! i) = 1 \<Longrightarrow> b_dev (bufs ?s ! j) = 1 \<Longrightarrow>
        b_blockno (bufs ?s ! i) = b_blockno (bufs ?s ! j) \<Longrightarrow> i = j"
      using cache_invD(3)[OF inv] by (simp add: nth split: if_splits)
  qed (use xs(2) len cache_invD[OF inv] in \<open>auto simp: nth dk split: if_splits\<close>)
  show "bview ?s = (bview s)(b := d)"
  proof
    fix c
    show "bview ?s c = ((bview s)(b := d)) c"
    proof (cases "c = b")
      case True
      then show ?thesis using bview_holds[OF inv', of i b] h hs nth by simp
    next
      case False
      from inv show ?thesis
      proof (cases rule: bview_cases[of s c])
        case (held j)
        then have "j \<noteq> i" using h False holds_fun by blast
        then show ?thesis using bview_holds[OF inv', of j c] held hs nth False by simp
      next
        case unheld
        then show ?thesis using bview_unheld[OF inv', of c] hs dk False by simp
      qed
    qed
  qed
qed

lemma bwrite_ok:
  assumes inv: "cache_inv s" and h: "holds s i b"
  shows "cache_inv (bwrite i s)" "bview (bwrite i s) = bview s" "refs (bwrite i s) = refs s"
    "holds (bwrite i s) j c = holds s j c" "disk (bwrite i s) = (disk s)(b := bview s b)"
    "nodisk (bwrite i s) = nodisk s" "buf_data j (bwrite i s) = buf_data j s"
proof -
  let ?s = "bwrite i s"
  have bf: "bufs ?s = bufs s" by (simp add: bwrite_def disk_rw_def Let_def)
  show hs: "holds ?s j c = holds s j c" for j c by (simp add: holds_def bf)
  show "refs ?s = refs s" by (simp add: fun_eq_iff refs_def bf)
  show "nodisk ?s = nodisk s" by (simp add: bwrite_def disk_rw_def Let_def)
  show "buf_data j ?s = buf_data j s" by (simp add: buf_data_def bf)
  have b: "b_blockno (bufs s ! i) = b" using h by (simp add: holds_def)
  show dk: "disk ?s = (disk s)(b := bview s b)"
    using bview_holds[OF inv h] b by (simp add: bwrite_def disk_rw_def Let_def)
  have "b_data (bufs s ! j) = ((disk s)(b := bview s b)) (b_blockno (bufs s ! j))"
    if "j < 30" "b_refcnt (bufs s ! j) = 0 \<and> b_valid (bufs s ! j)" for j
  proof (cases "b_blockno (bufs s ! j) = b")
    case True
    then have "holds s j b" using that cache_invD(2)[OF inv, of j] by (auto simp: holds_def)
    then show ?thesis using bview_holds[OF inv] True by simp
  next
    case False
    then show ?thesis using that cache_invD(4)[OF inv] by simp
  qed
  then show inv': "cache_inv ?s"
  proof (intro cache_invI)
    show "\<And>i j. i < 30 \<Longrightarrow> j < 30 \<Longrightarrow> b_dev (bufs ?s ! i) = 1 \<Longrightarrow> b_dev (bufs ?s ! j) = 1 \<Longrightarrow>
        b_blockno (bufs ?s ! i) = b_blockno (bufs ?s ! j) \<Longrightarrow> i = j"
      unfolding bf by (rule cache_invD(3)[OF inv])
  qed (use bview_length[OF inv, of b] cache_invD[OF inv] in \<open>auto simp: bf dk\<close>)
  show "bview ?s = bview s"
  proof
    fix c
    from inv show "bview ?s c = bview s c"
    proof (cases rule: bview_cases[of s c])
      case (held j)
      then show ?thesis using bview_holds[OF inv', of j c] hs bf by simp
    next
      case unheld
      then have "c \<noteq> b" using h by blast
      then show ?thesis using bview_unheld[OF inv', of c] hs unheld dk by simp
    qed
  qed
qed

section \<open>Getting and releasing a buffer\<close>

text \<open>The state after \<open>bread\<close>: buffer \<open>i\<close> holds block \<open>b\<close> with reference count \<open>r\<close>.\<close>

definition install :: "nat \<Rightarrow> u32 \<Rightarrow> u32 \<Rightarrow> 'a kdisk_scheme \<Rightarrow> 'a kdisk_scheme" where
  "install i b r s = upd_buf i (\<lambda>x. x\<lparr>b_valid := True, b_dev := 1, b_blockno := b, b_refcnt := r,
     b_data := bview s b\<rparr>) s"

lemma install_ok:
  assumes inv: "cache_inv s" and i: "i < 30" and r: "r \<noteq> 0"
    and c: "b_dev (bufs s ! i) = 1 \<and> b_blockno (bufs s ! i) = b \<or>
       refs s i = 0 \<and> (\<forall>j<30. \<not> (b_dev (bufs s ! j) = 1 \<and> b_blockno (bufs s ! j) = b))"
  shows "cache_inv (install i b r s)" "bview (install i b r s) = bview s"
    "refs (install i b r s) = (refs s)(i := r)" "holds (install i b r s) i b"
    "disk (install i b r s) = disk s" "nodisk (install i b r s) = nodisk s"
    "buf_data i (install i b r s) = bview s b"
    "j \<noteq> i \<Longrightarrow> holds (install i b r s) j k = holds s j k"
    "j \<noteq> i \<Longrightarrow> buf_data j (install i b r s) = buf_data j s"
proof -
  let ?s = "install i b r s"
  have l: "length (bufs s) = 31" by (rule inv_length[OF inv])
  have nth: "bufs ?s ! j = (if j = i then (bufs s ! i)\<lparr>b_valid := True, b_dev := 1, b_blockno := b, b_refcnt := r,
     b_data := bview s b\<rparr> else bufs s ! j)" for j
    unfolding install_def using i l by (simp add: nth_upd_buf)
  show dk: "disk ?s = disk s" "nodisk ?s = nodisk s" by (simp_all add: install_def)
  show "refs ?s = (refs s)(i := r)" using i by (auto simp: refs_def nth fun_eq_iff)
  show hi: "holds ?s i b" "buf_data i ?s = bview s b" using i by (simp_all add: holds_def buf_data_def nth)
  show hj: "j \<noteq> i \<Longrightarrow> holds ?s j k = holds s j k" "j \<noteq> i \<Longrightarrow> buf_data j ?s = buf_data j s" for j k
    by (simp_all add: holds_def buf_data_def nth)
  obtain xs where xs: "blist (bufs s) xs" "set xs = {..<30}" using cache_invD(1)[OF inv] by blast
  have "blist (bufs ?s) xs" unfolding install_def by (rule blist_upd_buf[OF xs(1) i]) simp_all
  moreover have un: "b_blockno (bufs s ! j) \<noteq> b" if "j < 30" "j \<noteq> i" "b_dev (bufs s ! j) = 1" for j
    using c cache_invD(3)[OF inv, of j i] that i by auto
  ultimately show inv': "cache_inv ?s"
  proof (intro cache_invI)
    fix j k assume jk: "j < 30" "k < 30" "b_dev (bufs ?s ! j) = 1" "b_dev (bufs ?s ! k) = 1"
      "b_blockno (bufs ?s ! j) = b_blockno (bufs ?s ! k)"
    show "j = k"
    proof (rule ccontr)
      assume ne: "j \<noteq> k"
      show False
        using jk ne un[of j] un[of k] cache_invD(3)[OF inv jk(1,2)] by (auto simp: nth split: if_splits)
    qed
  qed (use xs(2) r bview_length[OF inv] cache_invD[OF inv] in \<open>auto simp: nth dk split: if_splits\<close>)
  show "bview ?s = bview s"
  proof
    fix d
    show "bview ?s d = bview s d"
    proof (cases "d = b")
      case True
      then show ?thesis using bview_holds[OF inv' hi(1)] hi(2) by (simp add: buf_data_def)
    next
      case False
      from inv show ?thesis
      proof (cases rule: bview_cases[of s d])
        case (held j)
        show ?thesis
        proof (cases "j = i")
          case True
          then have "b_refcnt (bufs s ! i) = 0" "b_valid (bufs s ! i)" "b_blockno (bufs s ! i) = d"
            using c held False i by (auto simp: holds_def refs_def)
          then have "bview s d = disk s d" using cache_invD(4)[OF inv i] held True by simp
          moreover have "\<not> holds ?s j d" for j
          proof
            assume h: "holds ?s j d"
            have "j \<noteq> i" using h False by (auto simp: holds_def nth)
            then have "holds s j d" using h hj by simp
            then have "j = i" using holds_unique[OF inv] held(1) True by blast
            then show False using \<open>j \<noteq> i\<close> by simp
          qed
          then have "bview ?s d = disk ?s d" by (rule bview_unheld[OF inv'])
          ultimately show ?thesis using dk by simp
        next
          case False
          then show ?thesis using bview_holds[OF inv', of j d] hj held by (simp add: nth)
        qed
      next
        case unheld
        have "\<not> holds ?s j d" for j
          using unheld(1)[of j] hj(1)[of j d] False by (cases "j = i") (auto simp: holds_def nth)
        then show ?thesis using bview_unheld[OF inv', of d] unheld(2) dk by simp
      qed
    qed
  qed
qed

lemma find_SomeD: "find P xs = Some x \<Longrightarrow> x \<in> set xs \<and> P x"
  by (induction xs) (auto split: if_splits)

lemma find_NoneD: "find P xs = None \<Longrightarrow> x \<in> set xs \<Longrightarrow> \<not> P x"
  by (induction xs) (auto split: if_splits)

lemma upd_buf_cong: "f (bufs s ! i) = g (bufs s ! i) \<Longrightarrow> upd_buf i f s = upd_buf i g s"
  by (simp add: upd_buf_def)

lemma upd_buf_twice: "i < length (bufs s) \<Longrightarrow> upd_buf i f (upd_buf i g s) = upd_buf i (\<lambda>x. f (g x)) s"
  by (simp add: upd_buf_def)

lemma read_install:
  assumes "i < length (bufs s)" "b_blockno (g (bufs s ! i)) = b" "bview s b = disk s b"
    "(g (bufs s ! i))\<lparr>b_data := disk s b, b_valid := True\<rparr> = (bufs s ! i)\<lparr>b_valid := True, b_dev := 1, b_blockno := b,
       b_refcnt := r, b_data := disk s b\<rparr>"
  shows "upd_buf i (\<lambda>x. x\<lparr>b_valid := True\<rparr>) (disk_rw i False (upd_buf i g s)) = install i b r s"
proof -
  have "disk_rw i False (upd_buf i g s) = upd_buf i (\<lambda>x. x\<lparr>b_data := disk s b\<rparr>) (upd_buf i g s)"
    using nth_upd_buf[OF assms(1), of g i] assms(2) by (simp add: disk_rw_def set_data_def Let_def)
  also have "\<dots> = upd_buf i (\<lambda>x. (g x)\<lparr>b_data := disk s b\<rparr>) s" by (rule upd_buf_twice[OF assms(1)])
  finally have e: "disk_rw i False (upd_buf i g s) = upd_buf i (\<lambda>x. (g x)\<lparr>b_data := disk s b\<rparr>) s" .
  show ?thesis
    unfolding e upd_buf_twice[OF assms(1)] install_def assms(3)
    by (rule upd_buf_cong) (simp only: assms(4))
qed

lemma bread_install:
  assumes inv: "cache_inv s" and free: "\<exists>i<30. refs s i = 0"
  obtains i where "bread 1 b s = Inr (i, install i b (refs s i + 1) s)" "i < 30"
    "b_dev (bufs s ! i) = 1 \<and> b_blockno (bufs s ! i) = b \<or>
     refs s i = 0 \<and> (\<forall>j<30. \<not> (b_dev (bufs s ! j) = 1 \<and> b_blockno (bufs s ! j) = b))"
proof -
  obtain xs where xs: "blist (bufs s) xs" "set xs = {..<30}" using cache_invD(1)[OF inv] by blast
  have l: "length (bufs s) = 31" by (rule inv_length[OF inv])
  let ?P = "\<lambda>x. b_dev x = 1 \<and> b_blockno x = b"
  note se = bsearches[OF xs(1)]
  have sc: "Suc 30 = 31" by simp
  show thesis
  proof (cases "find (\<lambda>i. ?P (bufs s ! i)) xs")
    case (Some i)
    then have i: "i < 30" "?P (bufs s ! i)" using find_SomeD[OF Some] xs(2) by auto
    let ?s1 = "upd_buf i (\<lambda>x. x\<lparr>b_refcnt := b_refcnt x + 1\<rparr>) s"
    have g: "bget 1 b s = Inr (i, ?s1)" unfolding bget_def sc se(1) Some by simp
    have nth1: "bufs ?s1 ! i = (bufs s ! i)\<lparr>b_refcnt := b_refcnt (bufs s ! i) + 1\<rparr>"
      using nth_upd_buf[of i s] i l by simp
    have "bread 1 b s = Inr (i, install i b (refs s i + 1) s)"
    proof (cases "b_valid (bufs s ! i)")
      case True
      then have "bview s b = b_data (bufs s ! i)" using bview_holds[OF inv, of i b] i by (simp add: holds_def)
      then have "install i b (refs s i + 1) s = ?s1"
        unfolding install_def using i True by (intro upd_buf_cong) (simp add: refs_def)
      then show ?thesis using g True nth1 by (simp add: bread_def)
    next
      case False
      have "\<not> holds s j b" for j
      proof
        assume h: "holds s j b"
        have "i = j" by (rule cache_invD(3)[OF inv i(1)]) (use h i(2) in \<open>simp_all add: holds_def\<close>)
        then show False using h False by (simp add: holds_def)
      qed
      then have "bview s b = disk s b" by (rule bview_unheld[OF inv])
      then have "upd_buf i (\<lambda>x. x\<lparr>b_valid := True\<rparr>) (disk_rw i False ?s1) = install i b (refs s i + 1) s"
        by (intro read_install) (use i l in \<open>simp_all add: refs_def\<close>)
      then show ?thesis using g False nth1 by (simp add: bread_def)
    qed
    then show thesis using that i by blast
  next
    case None
    then have no: "\<forall>j<30. \<not> ?P (bufs s ! j)" using find_NoneD[OF None] xs(2) by auto
    obtain k where k: "k < 30" "b_refcnt (bufs s ! k) = 0" using free by (auto simp: refs_def)
    obtain i where f: "find (\<lambda>i. b_refcnt (bufs s ! i) = 0) (rev xs) = Some i"
      using find_NoneD[of "\<lambda>i. b_refcnt (bufs s ! i) = 0" "rev xs" k] k xs(2) by fastforce
    then have i: "i < 30" "b_refcnt (bufs s ! i) = 0" using find_SomeD[OF f] xs(2) by auto
    let ?s1 = "upd_buf i (\<lambda>x. x\<lparr>b_dev := 1, b_blockno := b, b_valid := False, b_refcnt := 1\<rparr>) s"
    have g: "bget 1 b s = Inr (i, ?s1)" unfolding bget_def sc se None by (simp add: f)
    have nth1: "bufs ?s1 ! i = (bufs s ! i)\<lparr>b_dev := 1, b_blockno := b, b_valid := False, b_refcnt := 1\<rparr>"
      using nth_upd_buf[of i s] i l by simp
    have "\<not> holds s j b" for j using no by (auto simp: holds_def)
    then have "bview s b = disk s b" by (rule bview_unheld[OF inv])
    then have "upd_buf i (\<lambda>x. x\<lparr>b_valid := True\<rparr>) (disk_rw i False ?s1) = install i b (refs s i + 1) s"
      by (intro read_install) (use i l in \<open>simp_all add: refs_def\<close>)
    then have "bread 1 b s = Inr (i, install i b (refs s i + 1) s)" using g nth1 by (simp add: bread_def)
    then show thesis using that i no by (auto simp: refs_def)
  qed
qed

lemma same_contents_ok:
  assumes inv: "cache_inv s" and sc: "same_contents (bufs s) bs" and bl: "blist bs ys" "set ys = {..<30}"
  shows "cache_inv (s\<lparr>bufs := bs\<rparr>)" "bview (s\<lparr>bufs := bs\<rparr>) = bview s" "refs (s\<lparr>bufs := bs\<rparr>) = refs s"
    "holds (s\<lparr>bufs := bs\<rparr>) i b = holds s i b" "buf_data i (s\<lparr>bufs := bs\<rparr>) = buf_data i s"
proof -
  let ?s = "s\<lparr>bufs := bs\<rparr>"
  have f: "b_valid (bs ! i) = b_valid (bufs s ! i)" "b_dev (bs ! i) = b_dev (bufs s ! i)"
    "b_blockno (bs ! i) = b_blockno (bufs s ! i)" "b_refcnt (bs ! i) = b_refcnt (bufs s ! i)"
    "b_data (bs ! i) = b_data (bufs s ! i)" for i
    using sc by (auto simp: same_contents_def)
  show "refs ?s = refs s" by (simp add: fun_eq_iff refs_def f)
  show hs: "holds ?s i b = holds s i b" for i b by (simp add: holds_def f)
  show "buf_data i ?s = buf_data i s" by (simp add: buf_data_def f)
  show inv': "cache_inv ?s"
  proof (intro cache_invI)
    show "\<And>i j. i < 30 \<Longrightarrow> j < 30 \<Longrightarrow> b_dev (bufs ?s ! i) = 1 \<Longrightarrow> b_dev (bufs ?s ! j) = 1 \<Longrightarrow>
        b_blockno (bufs ?s ! i) = b_blockno (bufs ?s ! j) \<Longrightarrow> i = j"
      using cache_invD(3)[OF inv] by (simp add: f)
  qed (use bl cache_invD[OF inv] in \<open>auto simp: f\<close>)
  show "bview ?s = bview s"
  proof
    fix b
    from inv show "bview ?s b = bview s b"
    proof (cases rule: bview_cases[of s b])
      case (held j)
      then show ?thesis using bview_holds[OF inv', of j b] hs f by simp
    next
      case unheld
      then show ?thesis using bview_unheld[OF inv', of b] hs by simp
    qed
  qed
qed

lemma brelse_ok:
  assumes inv: "cache_inv s" and h: "holds s i b" and r: "refs s i \<noteq> 0"
    and cl: "refs s i = 1 \<Longrightarrow> disk s b = bview s b"
  shows "cache_inv (brelse i s)" "bview (brelse i s) = bview s" "refs (brelse i s) = (refs s)(i := refs s i - 1)"
    "holds (brelse i s) j c = holds s j c" "disk (brelse i s) = disk s" "nodisk (brelse i s) = nodisk s"
    "buf_data j (brelse i s) = buf_data j s"
proof -
  let ?s1 = "upd_buf i (\<lambda>b. b\<lparr>b_refcnt := b_refcnt b - 1\<rparr>) s"
  have i: "i < 30" "b_valid (bufs s ! i)" "b_dev (bufs s ! i) = 1" "b_blockno (bufs s ! i) = b"
    using h by (auto simp: holds_def)
  have l: "length (bufs s) = 31" by (rule inv_length[OF inv])
  have nth: "bufs ?s1 ! j = (if j = i then (bufs s ! i)\<lparr>b_refcnt := refs s i - 1\<rparr> else bufs s ! j)" for j
    using nth_upd_buf[of i s] i l by (simp add: refs_def)
  obtain xs where xs: "blist (bufs s) xs" "set xs = {..<30}" using cache_invD(1)[OF inv] by blast
  have bl: "blist (bufs ?s1) xs" by (rule blist_upd_buf[OF xs(1) i(1)]) simp_all
  have hs: "holds ?s1 j c = holds s j c" for j c by (simp add: holds_def nth)
  have data: "bview s b = b_data (bufs s ! i)" using bview_holds[OF inv h] .
  have z: "refs s i - 1 = 0 \<Longrightarrow> b_data (bufs s ! i) = disk s b"
    using cl data by simp
  have inv1: "cache_inv ?s1"
  proof (intro cache_invI)
    show "\<exists>xs. blist (bufs ?s1) xs \<and> set xs = {..<30}" using bl xs(2) by blast
    show "\<And>j k. j < 30 \<Longrightarrow> k < 30 \<Longrightarrow> b_dev (bufs ?s1 ! j) = 1 \<Longrightarrow> b_dev (bufs ?s1 ! k) = 1 \<Longrightarrow>
        b_blockno (bufs ?s1 ! j) = b_blockno (bufs ?s1 ! k) \<Longrightarrow> j = k"
      using cache_invD(3)[OF inv] by (simp add: nth split: if_splits)
  qed (use i z cache_invD(2,4,5,6)[OF inv] in \<open>auto simp: nth split: if_splits\<close>)
  have view1: "bview ?s1 = bview s"
  proof
    fix c
    from inv show "bview ?s1 c = bview s c"
    proof (cases rule: bview_cases[of s c])
      case (held j)
      then show ?thesis using bview_holds[OF inv1, of j c] hs nth by simp
    next
      case unheld
      then show ?thesis using bview_unheld[OF inv1, of c] hs by simp
    qed
  qed
  have refs1: "refs ?s1 = (refs s)(i := refs s i - 1)" using i by (auto simp: refs_def nth fun_eq_iff)
  have data1: "buf_data j ?s1 = buf_data j s" for j by (simp add: buf_data_def nth)
  show "disk (brelse i s) = disk s" "nodisk (brelse i s) = nodisk s" by (simp_all add: brelse_def Let_def)
  show "cache_inv (brelse i s)" "bview (brelse i s) = bview s" "refs (brelse i s) = (refs s)(i := refs s i - 1)"
    "holds (brelse i s) j c = holds s j c" "buf_data j (brelse i s) = buf_data j s"
  proof -
    have "cache_inv (brelse i s) \<and> bview (brelse i s) = bview s \<and> refs (brelse i s) = (refs s)(i := refs s i - 1) \<and>
      holds (brelse i s) j c = holds s j c \<and> buf_data j (brelse i s) = buf_data j s"
    proof (cases "refs s i - 1 = 0")
      case True
      let ?b1 = "set_prev (b_next (bufs ?s1 ! i)) (b_prev (bufs ?s1 ! i)) (bufs ?s1)"
      let ?b2 = "set_next (b_prev (?b1 ! i)) (b_next (?b1 ! i)) ?b1"
      have e: "brelse i s = ?s1\<lparr>bufs := link_front i ?b2\<rparr>"
        using True nth[of i] by (simp add: brelse_def Let_def)
      have mem: "i \<in> set xs" using xs(2) i(1) by simp
      note u = unlink_ok[OF bl mem]
      have dx: "distinct xs" using xs(1) by (simp add: blist_def)
      obtain b2 where b2: "b2 = link_front i ?b2" by simp
      have b2l: "blist b2 (i # remove1 i xs)"
        unfolding b2 by (rule link_front_ok[OF u(1) i(1)]) (simp add: dx)
      have b2s: "set (i # remove1 i xs) = {..<30}" using xs(2) dx i(1) by auto
      have b2c: "same_contents (bufs ?s1) b2"
        unfolding b2 by (rule same_contents_trans[OF u(2) link_front_contents])
      note ok = same_contents_ok[OF inv1 b2c b2l b2s]
      show ?thesis unfolding e b2[symmetric] ok(2-5) view1 refs1 hs data1 using ok(1) by simp
    next
      case False
      then have "brelse i s = ?s1" using nth[of i] by (simp add: brelse_def Let_def)
      then show ?thesis using inv1 view1 refs1 hs data1 by simp
    qed
    then show "cache_inv (brelse i s)" "bview (brelse i s) = bview s" "refs (brelse i s) = (refs s)(i := refs s i - 1)"
      "holds (brelse i s) j c = holds s j c" "buf_data j (brelse i s) = buf_data j s" by blast+
  qed
qed

section \<open>The contract of the file system\<close>

text \<open>
  Between file system operations the cache and the disk agree. \<open>rest\<close> is what a balanced use of
  the cache leaves alone: the other components, the reference counts, and the buffers others hold.
\<close>

definition synced :: "'a kdisk_scheme \<Rightarrow> bool" where
  "synced s \<longleftrightarrow> cache_inv s \<and> bview s = disk s \<and> (\<forall>i. refs s i \<noteq> 0 \<longrightarrow> (\<exists>c. holds s i c))"

definition pinned :: "'a kdisk_scheme \<Rightarrow> (nat \<times> u32) set" where
  "pinned s = {(j, c). refs s j \<noteq> 0 \<and> holds s j c}"

definition rest :: "'a kdisk_scheme \<Rightarrow> 'a kdisk_scheme \<times> (nat \<Rightarrow> u32) \<times> (nat \<times> u32) set" where
  "rest s = (nodisk s, refs s, pinned s)"

definition ready :: "'a kdisk_scheme \<Rightarrow> bool" where
  "ready s \<longleftrightarrow> synced s \<and> (\<exists>i<30. refs s i = 0) \<and> (\<forall>i. refs s i \<noteq> -1)"

lemma bread_ready:
  assumes "ready s"
  obtains i s1 where "bread 1 b s = Inr (i, s1)" "synced s1" "disk s1 = disk s" "nodisk s1 = nodisk s"
    "refs s1 = (refs s)(i := refs s i + 1)" "refs s1 i \<noteq> 0" "holds s1 i b" "buf_data i s1 = disk s b" "i < 30"
    "\<And>j c. refs s j \<noteq> 0 \<Longrightarrow> holds s1 j c = holds s j c"
proof -
  have inv: "cache_inv s" "bview s = disk s" "\<exists>i<30. refs s i = 0" "\<And>i. refs s i \<noteq> -1"
    "\<And>i. refs s i \<noteq> 0 \<Longrightarrow> \<exists>c. holds s i c"
    using assms by (auto simp: ready_def synced_def)
  obtain i where i: "bread 1 b s = Inr (i, install i b (refs s i + 1) s)" "i < 30"
    "b_dev (bufs s ! i) = 1 \<and> b_blockno (bufs s ! i) = b \<or>
     refs s i = 0 \<and> (\<forall>j<30. \<not> (b_dev (bufs s ! j) = 1 \<and> b_blockno (bufs s ! j) = b))"
    by (rule bread_install[OF inv(1,3)])
  have r: "refs s i + 1 \<noteq> 0"
    using inv(4)[of i] by (metis add.commute add_eq_0_iff)
  note ok = install_ok[OF inv(1) i(2) r i(3)]
  have hs: "holds (install i b (refs s i + 1) s) j c = holds s j c" if rj: "refs s j \<noteq> 0" for j c
  proof (cases "j = i")
    case True
    then have d: "b_blockno (bufs s ! i) = b" using i(3) rj by auto
    obtain c' where "holds s i c'" using inv(5) rj True by blast
    then have "holds s i b" using d by (simp add: holds_def)
    then show ?thesis using ok(4) True holds_fun by blast
  qed (rule ok(8))
  have "\<exists>c. holds (install i b (refs s i + 1) s) j c" if "refs (install i b (refs s i + 1) s) j \<noteq> 0" for j
  proof (cases "j = i")
    case False
    then show ?thesis using hs[of j] inv(5)[of j] that ok(3) by auto
  qed (use ok(4) in blast)
  then have sy: "synced (install i b (refs s i + 1) s)"
    using ok(1,2,5) inv(2) by (simp add: synced_def)
  show thesis
    by (rule that[OF i(1) sy ok(5,6,3) _ ok(4) _ i(2) hs]) (use r ok(3,7) inv(2) in simp_all)
qed

lemma update_synced:
  assumes "synced s" "holds s i b" "refs s i \<noteq> 0" "length d = 1024" "s' = bwrite i (set_data i d s)"
  shows "synced s'" "disk s' = (disk s)(b := d)" "nodisk s' = nodisk s" "refs s' = refs s"
    "holds s' j c = holds s j c" "buf_data j s' = (if j = i then d else buf_data j s)"
proof -
  have inv: "cache_inv s" "bview s = disk s" "\<And>i. refs s i \<noteq> 0 \<Longrightarrow> \<exists>c. holds s i c"
    using assms(1) by (auto simp: synced_def)
  note sd = set_data_ok[OF inv(1) assms(2-4)]
  have h': "holds (set_data i d s) i b" using sd(4) assms(2) by simp
  note bw = bwrite_ok[OF sd(1) h', folded assms(5)]
  show dk: "disk s' = (disk s)(b := d)" "nodisk s' = nodisk s" and rf: "refs s' = refs s"
    and hs: "\<And>j c. holds s' j c = holds s j c"
    using bw sd inv(2) by simp_all
  show "buf_data j s' = (if j = i then d else buf_data j s)" using bw(7) sd(7) by simp
  have "\<exists>c. holds s' i c" if "refs s' i \<noteq> 0" for i using inv(3)[of i] that unfolding rf hs by blast
  then show "synced s'" unfolding synced_def using bw(1,2) sd(2) inv(2) dk by simp
qed

lemma brelse_synced:
  assumes "synced s" "holds s i b" "refs s i \<noteq> 0"
  shows "synced (brelse i s)" "disk (brelse i s) = disk s" "nodisk (brelse i s) = nodisk s"
    "refs (brelse i s) = (refs s)(i := refs s i - 1)" "holds (brelse i s) j c = holds s j c"
    "buf_data j (brelse i s) = buf_data j s"
proof -
  have inv: "cache_inv s" "bview s = disk s" "\<And>i. refs s i \<noteq> 0 \<Longrightarrow> \<exists>c. holds s i c"
    using assms(1) by (auto simp: synced_def)
  note br = brelse_ok[OF inv(1) assms(2,3)]
  have cl: "refs s i = 1 \<Longrightarrow> disk s b = bview s b" using inv(2) by simp
  show dk: "disk (brelse i s) = disk s" "nodisk (brelse i s) = nodisk s"
    and rf: "refs (brelse i s) = (refs s)(i := refs s i - 1)"
    and hs: "\<And>j c. holds (brelse i s) j c = holds s j c"
    "buf_data j (brelse i s) = buf_data j s"
    using br[OF cl] by simp_all
  have "\<exists>c. holds (brelse i s) j c" if "refs (brelse i s) j \<noteq> 0" for j
    using inv(3)[of j] that assms(3) unfolding rf hs by (cases "j = i") auto
  then show "synced (brelse i s)"
    unfolding synced_def using br(1,2)[OF cl] dk inv(2) by simp
qed

text \<open>Reading a block, and rewriting a block: the two balanced uses of the cache.\<close>

definition cache_load :: "u32 \<Rightarrow> 'a kdisk_scheme \<Rightarrow> (u8 list \<times> 'a kdisk_scheme) res" where
  "cache_load b s = bindE (bread 1 b s) (\<lambda>(i, s). Inr (buf_data i s, brelse i s))"

definition cache_store :: "u32 \<Rightarrow> (u8 list \<Rightarrow> u8 list) \<Rightarrow> 'a kdisk_scheme \<Rightarrow> 'a kdisk_scheme res" where
  "cache_store b f s = bindE (bread 1 b s) (\<lambda>(i, s). Inr (brelse i (bwrite i (set_data i (f (buf_data i s)) s))))"

lemma ready_length: "ready s \<Longrightarrow> length (disk s b) = 1024"
  unfolding ready_def synced_def using cache_invD(6) by blast

lemma balanced_release:
  assumes "ready s" "synced s2" "nodisk s2 = nodisk s" "refs s2 = (refs s)(i := refs s i + 1)" "refs s2 i \<noteq> 0"
    "holds s2 i b" "\<And>j c. refs s j \<noteq> 0 \<Longrightarrow> holds s2 j c = holds s j c"
  shows "ready (brelse i s2)" "disk (brelse i s2) = disk s2" "rest (brelse i s2) = rest s"
proof -
  note br = brelse_synced[OF assms(2,6,5)]
  have rf: "refs (brelse i s2) = refs s" using br(4) assms(4) by (simp add: fun_eq_iff)
  show "disk (brelse i s2) = disk s2" by (rule br(2))
  show "ready (brelse i s2)" using br(1) rf assms(1) by (simp add: ready_def)
  show "rest (brelse i s2) = rest s" unfolding rest_def pinned_def using rf br(3,5) assms(3,7) by auto
qed

lemma cache_load_ok:
  assumes "ready s"
  shows "\<exists>s'. cache_load b s = Inr (disk s b, s') \<and> ready s' \<and> disk s' = disk s \<and> rest s' = rest s"
proof -
  obtain i s1 where s1: "bread 1 b s = Inr (i, s1)" "synced s1" "disk s1 = disk s" "nodisk s1 = nodisk s"
    "refs s1 = (refs s)(i := refs s i + 1)" "refs s1 i \<noteq> 0" "holds s1 i b" "buf_data i s1 = disk s b"
    "\<And>j c. refs s j \<noteq> 0 \<Longrightarrow> holds s1 j c = holds s j c"
    by (rule bread_ready[OF assms, of b]) blast
  note r = balanced_release[OF assms s1(2,4,5,6,7,9)]
  show ?thesis using s1(1,3,8) r by (simp add: cache_load_def)
qed

lemma cache_store_ok:
  assumes "ready s" "length (f (disk s b)) = 1024"
  shows "\<exists>s'. cache_store b f s = Inr s' \<and> ready s' \<and> disk s' = (disk s)(b := f (disk s b)) \<and> rest s' = rest s"
proof -
  obtain i s1 where s1: "bread 1 b s = Inr (i, s1)" "synced s1" "disk s1 = disk s" "nodisk s1 = nodisk s"
    "refs s1 = (refs s)(i := refs s i + 1)" "refs s1 i \<noteq> 0" "holds s1 i b" "buf_data i s1 = disk s b"
    "\<And>j c. refs s j \<noteq> 0 \<Longrightarrow> holds s1 j c = holds s j c"
    by (rule bread_ready[OF assms(1), of b]) blast
  note u = update_synced[OF s1(2,7,6) assms(2) refl]
  have "synced (bwrite i (set_data i (f (disk s b)) s1))" by (rule u(1))
  note r = balanced_release[OF assms(1) u(1), of i b]
  have "ready (brelse i (bwrite i (set_data i (f (disk s b)) s1))) \<and>
    disk (brelse i (bwrite i (set_data i (f (disk s b)) s1))) = (disk s)(b := f (disk s b)) \<and>
    rest (brelse i (bwrite i (set_data i (f (disk s b)) s1))) = rest s"
    using r u s1 by simp
  then show ?thesis using s1(1,8) by (simp add: cache_store_def)
qed

text \<open>A sequence of block rewrites, on plain block contents.\<close>

primrec put_blocks :: "(u32 \<times> (u8 list \<Rightarrow> u8 list)) list \<Rightarrow> (u32 \<Rightarrow> u8 list) \<Rightarrow> (u32 \<Rightarrow> u8 list)" where
  "put_blocks [] d = d"
| "put_blocks (x # xs) d = put_blocks xs (d(fst x := snd x (d (fst x))))"

definition keeps_length :: "(u32 \<times> (u8 list \<Rightarrow> u8 list)) list \<Rightarrow> bool" where
  "keeps_length xs \<longleftrightarrow> (\<forall>x \<in> set xs. \<forall>d. length d = 1024 \<longrightarrow> length (snd x d) = 1024)"

locale block_store =
  fixes ok :: "'s \<Rightarrow> bool"
    and blk :: "'s \<Rightarrow> u32 \<Rightarrow> u8 list"
    and frame :: "'s \<Rightarrow> 'f"
    and load :: "u32 \<Rightarrow> 's \<Rightarrow> (u8 list \<times> 's) res"
    and store :: "u32 \<Rightarrow> (u8 list \<Rightarrow> u8 list) \<Rightarrow> 's \<Rightarrow> 's res"
  assumes blk_length: "ok s \<Longrightarrow> length (blk s b) = 1024"
    and load_ok: "ok s \<Longrightarrow> \<exists>s'. load b s = Inr (blk s b, s') \<and> ok s' \<and> blk s' = blk s \<and> frame s' = frame s"
    and store_ok: "ok s \<Longrightarrow> length (f (blk s b)) = 1024 \<Longrightarrow>
      \<exists>s'. store b f s = Inr s' \<and> ok s' \<and> blk s' = (blk s)(b := f (blk s b)) \<and> frame s' = frame s"
begin

primrec stores :: "(u32 \<times> (u8 list \<Rightarrow> u8 list)) list \<Rightarrow> 's \<Rightarrow> 's res" where
  "stores [] s = Inr s"
| "stores (x # xs) s = bindE (store (fst x) (snd x) s) (stores xs)"

lemma stores_ok:
  "ok s \<Longrightarrow> keeps_length xs \<Longrightarrow>
   \<exists>s'. stores xs s = Inr s' \<and> ok s' \<and> blk s' = put_blocks xs (blk s) \<and> frame s' = frame s"
proof (induction xs arbitrary: s)
  case (Cons x xs)
  have "length (snd x (blk s (fst x))) = 1024"
    using Cons.prems(2) blk_length[OF Cons.prems(1)] by (simp add: keeps_length_def)
  then obtain s1 where s1: "store (fst x) (snd x) s = Inr s1" "ok s1"
    "blk s1 = (blk s)(fst x := snd x (blk s (fst x)))" "frame s1 = frame s"
    using store_ok[OF Cons.prems(1), of "snd x" "fst x"] by blast
  have "keeps_length xs" using Cons.prems(2) by (simp add: keeps_length_def)
  then obtain s2 where "stores xs s1 = Inr s2" "ok s2" "blk s2 = put_blocks xs (blk s1)" "frame s2 = frame s1"
    using Cons.IH[OF s1(2)] by blast
  then show ?case using s1 by simp
qed simp

lemma stores_load:
  assumes "ok s" "keeps_length xs"
  shows "\<exists>s1 s2. stores xs s = Inr s1 \<and> blk s1 = put_blocks xs (blk s) \<and>
    load b s1 = Inr (put_blocks xs (blk s) b, s2) \<and> ok s2 \<and> blk s2 = blk s1 \<and> frame s2 = frame s"
proof -
  obtain s1 where s1: "stores xs s = Inr s1" "ok s1" "blk s1 = put_blocks xs (blk s)"
    "frame s1 = frame s" using stores_ok[OF assms] by blast
  then show ?thesis using load_ok[OF s1(2), of b] by auto
qed

end

interpretation cache: block_store ready disk rest cache_load cache_store
proof (unfold_locales, goal_cases)
  case (1 s b)
  then show ?case by (rule ready_length)
next
  case (2 s b)
  then show ?case by (rule cache_load_ok)
next
  case (3 s f b)
  then show ?case by (rule cache_store_ok)
qed

section \<open>Initialisation\<close>

definition buf0 :: buf where
  "buf0 = \<lparr>b_valid = False, b_disk = False, b_dev = 0, b_blockno = 0, b_refcnt = 0, b_prev = 0, b_next = 0,
     b_data = replicate 1024 0\<rparr>"

lemma binit_loop_contents: "same_contents bs (binit_loop n b bs)"
proof (induction n arbitrary: b bs)
  case (Suc n)
  show ?case using same_contents_trans[OF link_front_contents Suc.IH] by simp
qed (simp add: same_contents_refl)

lemma binit_fields:
  assumes "bufs s = replicate 31 buf0" "i < 30"
  shows "b_valid (bufs (binit s) ! i) = False" "b_dev (bufs (binit s) ! i) = 0" "b_refcnt (bufs (binit s) ! i) = 0"
proof -
  have "same_contents (bufs s) (bufs (binit s))"
    unfolding binit_def Let_def
    by simp (meson binit_loop_contents same_contents_set same_contents_trans)
  then show "b_valid (bufs (binit s) ! i) = False" "b_dev (bufs (binit s) ! i) = 0" "b_refcnt (bufs (binit s) ! i) = 0"
    using assms by (simp_all add: same_contents_def buf0_def)
qed

lemma binit_ready:
  assumes "bufs s = replicate 31 buf0" "\<And>b. length (disk s b) = 1024"
  shows "ready (binit s)"
proof -
  note f = binit_fields[OF assms(1)]
  have dk: "disk (binit s) = disk s" by (simp add: binit_def Let_def)
  have bl: "blist (bufs (binit s)) (rev [0..<30])" by (rule binit_blist) (simp add: assms(1))
  have inv: "cache_inv (binit s)"
  proof (intro cache_invI)
    show "\<exists>xs. blist (bufs (binit s)) xs \<and> set xs = {..<30}" using bl by (intro exI[of _ "rev [0..<30]"]) auto
  qed (use f assms(2) dk in auto)
  have nh: "\<not> holds (binit s) i b" for i b using f by (auto simp: holds_def)
  have "bview (binit s) = disk (binit s)" using bview_unheld[OF inv] nh by blast
  moreover have r: "refs (binit s) i = 0" for i using f by (simp add: refs_def)
  moreover have "\<exists>i<30. refs (binit s) i = 0" using r[of 0] by (intro exI[of _ 0]) simp
  ultimately show ?thesis using inv by (simp add: ready_def synced_def)
qed

section \<open>Properties\<close>

text \<open>C12: the cache is transparent: after any sequence of block rewrites through \<open>bread\<close>,
  \<open>bwrite\<close> and \<open>brelse\<close>, the disk holds exactly the rewritten blocks, a read through the cache
  returns what was last written, no reference is leaked and nothing else in the kernel changed.\<close>

theorem cache_coherent:
  assumes "ready s" "keeps_length xs"
  shows "\<exists>s1 s2. cache.stores xs s = Inr s1 \<and> disk s1 = put_blocks xs (disk s) \<and>
    cache_load b s1 = Inr (put_blocks xs (disk s) b, s2) \<and> ready s2 \<and> disk s2 = disk s1 \<and> rest s2 = rest s"
  by (rule cache.stores_load[OF assms])

text \<open>The boot state of the cache, for the examples.\<close>

definition kdisk0 :: "bmem \<Rightarrow> (u32 \<Rightarrow> u8 list) \<Rightarrow> kdisk" where
  "kdisk0 m d = \<lparr>mem = m, freelist = 0, ekernel = 0x80240000, pool = replicate 256 proc0, idle = proc0,
     current_proc = None, curr_pid = 0, PID = 1, e_text = 0x80210000, trampoline = 0x80200000,
     usertrapret = 0x80201000, kstack_arr = 0x80230000, ustack_arr = 0x80238000, boot_stack_top = 0x80220000,
     disk = d, bufs = replicate 31 buf0\<rparr>"

lemma kdisk0_ready: "(\<And>b. length (d b) = 1024) \<Longrightarrow> ready (binit (kdisk0 m d))" "disk (binit (kdisk0 m d)) = d"
  by (auto intro!: binit_ready simp: kdisk0_def) (simp add: binit_def Let_def)

theorem cache_coherent_witness:
  "\<exists>s1 s2. cache.stores [(7, \<lambda>d. d[0 := 5]), (9, \<lambda>d. d), (7, \<lambda>d. d[1 := 6])]
      (binit (kdisk0 (\<lambda>_. 0) (\<lambda>_. replicate 1024 0))) = Inr s1 \<and>
    cache_load 7 s1 = Inr ((replicate 1024 0)[0 := 5, 1 := 6], s2)"
proof -
  let ?xs = "[(7, \<lambda>d. d[0 := 5]), (9, \<lambda>d. d), (7, \<lambda>d. d[1 := 6])] :: (u32 \<times> (u8 list \<Rightarrow> u8 list)) list"
  have r: "ready (binit (kdisk0 (\<lambda>_. 0) (\<lambda>_. replicate 1024 0)))" by (rule kdisk0_ready) simp
  have k: "keeps_length ?xs" by (simp add: keeps_length_def)
  have "put_blocks ?xs (\<lambda>_. replicate 1024 0) 7 = (replicate 1024 0)[0 := 5, 1 := 6]" by simp
  then show ?thesis using cache_coherent[OF r k, of 7] unfolding kdisk0_ready(2) by auto
qed

text \<open>C37: replacement is least recently used. On a miss \<open>bget\<close> takes the unreferenced buffer that
  was released longest ago and panics only when all 30 are referenced; on a hit it returns the
  cached buffer; \<open>brelse\<close> of the last reference moves the buffer to the front, whatever its place.\<close>

theorem bget_lru:
  assumes "blist (bufs s) xs"
  shows "bget dev b s =
      (case filter (\<lambda>i. b_dev (bufs s ! i) = dev \<and> b_blockno (bufs s ! i) = b) xs of
         i # _ \<Rightarrow> Inr (i, upd_buf i (\<lambda>b. b\<lparr>b_refcnt := b_refcnt b + 1\<rparr>) s)
       | [] \<Rightarrow> (case rev (filter (\<lambda>i. b_refcnt (bufs s ! i) = 0) xs) of
           i # _ \<Rightarrow> Inr (i, upd_buf i (\<lambda>x. x\<lparr>b_dev := dev, b_blockno := b, b_valid := False, b_refcnt := 1\<rparr>) s)
         | [] \<Rightarrow> Inl (Panic ''bget: no buffers''))) \<and>
    (\<forall>i \<in> set xs. blist (bufs (brelse i s)) (if b_refcnt (bufs s ! i) = 1 then i # remove1 i xs else xs))"
proof (intro conjI ballI)
  have f: "find P ys = (case filter P ys of [] \<Rightarrow> None | x # _ \<Rightarrow> Some x)" for P and ys :: "nat list"
    by (induction ys) auto
  show "bget dev b s = (case filter (\<lambda>i. b_dev (bufs s ! i) = dev \<and> b_blockno (bufs s ! i) = b) xs of
         i # _ \<Rightarrow> Inr (i, upd_buf i (\<lambda>b. b\<lparr>b_refcnt := b_refcnt b + 1\<rparr>) s)
       | [] \<Rightarrow> (case rev (filter (\<lambda>i. b_refcnt (bufs s ! i) = 0) xs) of
           i # _ \<Rightarrow> Inr (i, upd_buf i (\<lambda>x. x\<lparr>b_dev := dev, b_blockno := b, b_valid := False, b_refcnt := 1\<rparr>) s)
         | [] \<Rightarrow> Inl (Panic ''bget: no buffers'')))"
    unfolding bget_def using bsearches[OF assms] by (simp add: f rev_filter split: list.splits)
  fix i assume i: "i \<in> set xs"
  let ?s1 = "upd_buf i (\<lambda>b. b\<lparr>b_refcnt := b_refcnt b - 1\<rparr>) s"
  have i30: "i < 30" "length (bufs s) = 31" using i assms by (auto simp: blist_def)
  have bl: "blist (bufs ?s1) xs" by (rule blist_upd_buf[OF assms i30(1)]) simp_all
  have rc: "b_refcnt (bufs ?s1 ! i) = b_refcnt (bufs s ! i) - 1" using nth_upd_buf[of i s] i30 by simp
  show "blist (bufs (brelse i s)) (if b_refcnt (bufs s ! i) = 1 then i # remove1 i xs else xs)"
  proof (cases "b_refcnt (bufs s ! i) = 1")
    case True
    let ?b1 = "set_prev (b_next (bufs ?s1 ! i)) (b_prev (bufs ?s1 ! i)) (bufs ?s1)"
    let ?b2 = "set_next (b_prev (?b1 ! i)) (b_next (?b1 ! i)) ?b1"
    have e: "brelse i s = ?s1\<lparr>bufs := link_front i ?b2\<rparr>"
      using True rc by (simp add: brelse_def Let_def)
    have dx: "distinct xs" using assms by (simp add: blist_def)
    have "blist (link_front i ?b2) (i # remove1 i xs)"
      by (rule link_front_ok[OF unlink_ok(1)[OF bl i] i30(1)]) (simp add: dx)
    then show ?thesis unfolding e using True by simp
  next
    case False
    then have "brelse i s = ?s1" using rc by (simp add: brelse_def Let_def)
    then show ?thesis using bl False by simp
  qed
qed

theorem bget_lru_witness:
  "bget 1 5 (binit (kdisk0 (\<lambda>_. 0) (\<lambda>_. replicate 1024 0))) =
     Inr (0, upd_buf 0 (\<lambda>x. x\<lparr>b_dev := 1, b_blockno := 5, b_valid := False, b_refcnt := 1\<rparr>)
       (binit (kdisk0 (\<lambda>_. 0) (\<lambda>_. replicate 1024 0))))"
proof -
  let ?s = "binit (kdisk0 (\<lambda>_. 0) (\<lambda>_. replicate 1024 0))"
  have b0: "bufs (kdisk0 (\<lambda>_. 0) (\<lambda>_. replicate 1024 0)) = replicate 31 buf0" by (simp add: kdisk0_def)
  have bl: "blist (bufs ?s) (rev [0..<30])" by (rule binit_blist) (simp add: b0)
  have f: "b_dev (bufs ?s ! i) = 0" "b_refcnt (bufs ?s ! i) = 0" if "i \<in> set (rev [0..<30])" for i
    using binit_fields[OF b0] that by auto
  have "filter (\<lambda>i. b_dev (bufs ?s ! i) = 1 \<and> b_blockno (bufs ?s ! i) = 5) (rev [0..<30]) = []"
    using f by (auto simp: filter_empty_conv)
  moreover have "filter (\<lambda>i. b_refcnt (bufs ?s ! i) = 0) (rev [0..<30]) = rev [0..<30]"
    using f by (simp add: filter_id_conv)
  moreover have "[0..<30] = 0 # [1..<30]" by (simp add: upt_conv_Cons)
  ultimately show ?thesis using bget_lru[OF bl, of 1 5] by simp
qed

end
