(* ===== verification/Fs.thy ===== *)
theory Fs
  imports Cache
begin

text \<open>
  The file system, \<open>kernel/fs.c\<close> with the on-disk format of \<open>kernel/fs.h\<close>: block bitmap, inodes,
  file contents, directories. Blocks are lists of 1024 bytes, decoded where the code casts them;
  an \<open>struct inode *\<close> is an index of \<open>itable\<close>. Every operation goes through the buffer cache
  (theory Bio) exactly where the code does.
\<close>

section \<open>State and on-disk format\<close>

record superblock =
  sb_magic :: u32
  sb_size :: u32
  sb_nblocks :: u32
  sb_ninodes :: u32
  sb_inodestart :: u32
  sb_bmapstart :: u32

record inode =
  i_dev :: u32
  i_inum :: u32
  i_ref :: int
  i_valid :: bool
  i_type :: int
  i_size :: u32
  i_addrs :: "u32 list"

record kfs = kdisk +
  sb :: superblock
  itable :: "inode list"

definition get32 :: "nat \<Rightarrow> u8 list \<Rightarrow> u32" where
  "get32 off d = from_le (take 4 (drop off d))"

definition get16 :: "nat \<Rightarrow> u8 list \<Rightarrow> u16" where
  "get16 off d = from_le (take 2 (drop off d))"

definition put_at :: "nat \<Rightarrow> u8 list \<Rightarrow> u8 list \<Rightarrow> u8 list" where
  "put_at off bs d = take off d @ bs @ drop (off + length bs) d"

definition T_DIR :: int where "T_DIR = 1"
definition T_FILE :: int where "T_FILE = 2"
definition ROOTDEV :: u32 where "ROOTDEV = 1"
definition ROOTINO :: u32 where "ROOTINO = 1"
definition DIRSIZ :: nat where "DIRSIZ = 14"
definition FSMAGIC :: u32 where "FSMAGIC = 0x10203040"

text \<open>16 inodes of 64 bytes in a block; one bitmap block describes 8192 blocks.\<close>

definition IBLOCK :: "u32 \<Rightarrow> superblock \<Rightarrow> u32" where
  "IBLOCK i b = i div 16 + sb_inodestart b"

definition BBLOCK :: "u32 \<Rightarrow> superblock \<Rightarrow> u32" where
  "BBLOCK b s = b div 8192 + sb_bmapstart s"

definition dinode_off :: "u32 \<Rightarrow> nat" where
  "dinode_off inum = unat (inum mod 16) * 64"

definition bmask :: "nat \<Rightarrow> u8" where
  "bmask bi = push_bit (bi mod 8) 1"

definition upd_inode :: "nat \<Rightarrow> (inode \<Rightarrow> inode) \<Rightarrow> 'a kfs_scheme \<Rightarrow> 'a kfs_scheme" where
  "upd_inode ip f s = s\<lparr>itable := (itable s)[ip := f (itable s ! ip)]\<rparr>"

text \<open>The cache leaves the super block and the inode table alone.\<close>

lemma bget_nodisk:
  assumes "bget dev b s = Inr (i, s')"
  shows "nodisk s' = nodisk s"
proof -
  let ?fwd = "bsearch_next (Suc 30) (\<lambda>x. b_dev x = dev \<and> b_blockno x = b) (b_next (bufs s ! 30)) (bufs s)"
  let ?bwd = "bsearch_prev (Suc 30) (\<lambda>x. b_refcnt x = 0) (b_prev (bufs s ! 30)) (bufs s)"
  obtain r where r: "?fwd = Inr r" using assms by (cases ?fwd) (simp_all add: bget_def del: bsearch_next.simps bsearch_prev.simps)
  show ?thesis
  proof (cases r)
    case (Some j)
    then show ?thesis using assms unfolding bget_def r by (auto simp del: bsearch_next.simps bsearch_prev.simps)
  next
    case None
    obtain q where q: "?bwd = Inr q" using assms unfolding bget_def r None
      by (cases ?bwd) (simp_all del: bsearch_next.simps bsearch_prev.simps)
    show ?thesis using assms unfolding bget_def r None bindE.simps option.case q by (cases q) auto
  qed
qed

lemma bread_nodisk: "bread dev b s = Inr (i, s') \<Longrightarrow> nodisk s' = nodisk s"
  using bget_nodisk[of dev b s]
  by (cases "bget dev b s") (auto simp: bread_def disk_rw_def set_data_def split: if_splits)

lemma brelse_nodisk: "nodisk (brelse i s) = nodisk s"
  by (simp add: brelse_def Let_def)

lemma nodisk_kfs:
  assumes "nodisk s' = nodisk s"
  shows "sb s' = sb s" "itable s' = itable s"
  using arg_cong[OF assms, of sb] arg_cong[OF assms, of itable] by (simp_all add: nodisk_def)

lemma bread_kfs: "bread dev b s = Inr (i, s') \<Longrightarrow> sb s' = sb s \<and> itable s' = itable s"
  using nodisk_kfs[OF bread_nodisk] by blast

lemma brelse_kfs [simp]: "sb (brelse i s) = sb s" "itable (brelse i s) = itable s"
  using nodisk_kfs[OF brelse_nodisk] by blast+

section \<open>Super block\<close>

definition readsb :: "u32 \<Rightarrow> 'a kfs_scheme \<Rightarrow> 'a kfs_scheme res" where
  "readsb dev s =
     bindE (bread dev 1 s) (\<lambda>(bp, s).
       let d = buf_data bp s;
           s = s\<lparr>sb := \<lparr>sb_magic = get32 0 d, sb_size = get32 4 d, sb_nblocks = get32 8 d,
                      sb_ninodes = get32 12 d, sb_inodestart = get32 16 d, sb_bmapstart = get32 20 d\<rparr>\<rparr>
       in Inr (brelse bp s))"

definition fsinit :: "'a kfs_scheme \<Rightarrow> 'a kfs_scheme res" where
  "fsinit s =
     bindE (readsb ROOTDEV s) (\<lambda>s.
       if sb_magic (sb s) \<noteq> FSMAGIC then Inl (Panic ''invalid file system'') else Inr s)"

section \<open>Blocks\<close>

definition bzero :: "u32 \<Rightarrow> u32 \<Rightarrow> 'a kfs_scheme \<Rightarrow> 'a kfs_scheme res" where
  "bzero dev bno s =
     bindE (bread dev bno s) (\<lambda>(bp, s).
       let s = set_data bp (replicate 1024 0) s in Inr (brelse bp (bwrite bp s)))"

text \<open>The inner loop of \<open>balloc\<close>: the first clear bit from \<open>bi\<close> on, \<open>n\<close> of them to look at.\<close>

fun find_clear :: "u8 list \<Rightarrow> nat \<Rightarrow> nat \<Rightarrow> nat option" where
  "find_clear d bi 0 = None"
| "find_clear d bi (Suc n) = (if d ! (bi div 8) AND bmask bi = 0 then Some bi else find_clear d (Suc bi) n)"

function balloc_loop :: "u32 \<Rightarrow> nat \<Rightarrow> 'a kfs_scheme \<Rightarrow> (u32 \<times> 'a kfs_scheme) res" where
  "balloc_loop dev b s =
     (if b < unat (sb_size (sb s))
      then bindE (bread dev (BBLOCK (of_nat b) (sb s)) s) (\<lambda>(bp, s').
        let d = buf_data bp s'
        in case find_clear d 0 (min 8192 (unat (sb_size (sb s)) - b)) of
             Some bi \<Rightarrow>
               let s' = set_data bp (d[bi div 8 := d ! (bi div 8) OR bmask bi]) s';
                   s' = brelse bp (bwrite bp s')
               in bindE (bzero dev (of_nat (b + bi)) s') (\<lambda>s'. Inr (of_nat (b + bi), s'))
           | None \<Rightarrow> balloc_loop dev (b + 8192) (brelse bp s'))
      else Inl (Panic ''balloc: out of blocks''))"
  by pat_completeness auto
termination
  by (relation "measure (\<lambda>(dev, b, s). unat (sb_size (sb s)) - b)")
    (auto dest: bread_kfs)

declare balloc_loop.simps [simp del]

definition balloc :: "u32 \<Rightarrow> 'a kfs_scheme \<Rightarrow> (u32 \<times> 'a kfs_scheme) res" where
  "balloc dev s = balloc_loop dev 0 s"

definition bfree :: "u32 \<Rightarrow> u32 \<Rightarrow> 'a kfs_scheme \<Rightarrow> 'a kfs_scheme res" where
  "bfree dev b s =
     bindE (bread dev (BBLOCK b (sb s)) s) (\<lambda>(bp, s).
       let bi = unat (b mod 8192); d = buf_data bp s
       in if d ! (bi div 8) AND bmask bi = 0 then Inl (Panic ''freeing free block'')
          else let s = set_data bp (d[bi div 8 := d ! (bi div 8) AND NOT (bmask bi)]) s
               in Inr (brelse bp (bwrite bp s)))"

section \<open>Inodes\<close>

text \<open>The fields of \<open>struct dinode\<close> that the kernel uses: type at 0, size at 8, addresses at 12.\<close>

definition get_addrs :: "nat \<Rightarrow> u8 list \<Rightarrow> u32 list" where
  "get_addrs off d = map (\<lambda>i. get32 (off + 12 + 4 * i) d) [0..<13]"

definition put_addrs :: "u32 list \<Rightarrow> u8 list" where
  "put_addrs as = concat (map (to_le 4) as)"

definition iget :: "u32 \<Rightarrow> u32 \<Rightarrow> 'a kfs_scheme \<Rightarrow> (nat \<times> 'a kfs_scheme) res" where
  "iget dev inum s =
     (case find_idx (\<lambda>x. i_ref x > 0 \<and> i_dev x = dev \<and> i_inum x = inum) (itable s) of
        Some ip \<Rightarrow> Inr (ip, upd_inode ip (\<lambda>x. x\<lparr>i_ref := i_ref x + 1\<rparr>) s)
      | None \<Rightarrow>
        (case find_idx (\<lambda>x. i_ref x = 0) (itable s) of
           None \<Rightarrow> Inl (Panic ''iget: no inodes'')
         | Some ip \<Rightarrow> Inr (ip, upd_inode ip (\<lambda>x. x\<lparr>i_dev := dev, i_inum := inum, i_ref := 1, i_valid := False\<rparr>) s)))"

function ialloc_loop :: "u32 \<Rightarrow> u16 \<Rightarrow> nat \<Rightarrow> 'a kfs_scheme \<Rightarrow> (nat \<times> 'a kfs_scheme) res" where
  "ialloc_loop dev typ inum s =
     (if inum < unat (sb_ninodes (sb s))
      then bindE (bread dev (IBLOCK (of_nat inum) (sb s)) s) (\<lambda>(bp, s').
        let d = buf_data bp s'; off = dinode_off (of_nat inum)
        in if get16 off d = 0
           then let s' = set_data bp (put_at off (to_le 2 typ) (put_at off (replicate 64 0) d)) s'
                in iget dev (of_nat inum) (brelse bp (bwrite bp s'))
           else ialloc_loop dev typ (Suc inum) (brelse bp s'))
      else Inl (Panic ''ialloc: no inodes''))"
  by pat_completeness auto
termination
  by (relation "measure (\<lambda>(dev, typ, i, s). unat (sb_ninodes (sb s)) - i)")
    (auto dest: bread_kfs)

declare ialloc_loop.simps [simp del]

definition ialloc :: "u32 \<Rightarrow> u16 \<Rightarrow> 'a kfs_scheme \<Rightarrow> (nat \<times> 'a kfs_scheme) res" where
  "ialloc dev typ s = ialloc_loop dev typ 1 s"

definition iupdate :: "nat \<Rightarrow> 'a kfs_scheme \<Rightarrow> 'a kfs_scheme res" where
  "iupdate ip s =
     (let x = itable s ! ip
      in bindE (bread (i_dev x) (IBLOCK (i_inum x) (sb s)) s) (\<lambda>(bp, s).
        let off = dinode_off (i_inum x); d = buf_data bp s;
            d = put_at off (to_le 2 (of_int (i_type x) :: u16)) d;
            d = put_at (off + 8) (to_le 4 (i_size x)) d;
            d = put_at (off + 12) (put_addrs (i_addrs x)) d
        in Inr (brelse bp (bwrite bp (set_data bp d s)))))"

definition idup :: "nat \<Rightarrow> 'a kfs_scheme \<Rightarrow> 'a kfs_scheme" where
  "idup ip s = upd_inode ip (\<lambda>x. x\<lparr>i_ref := i_ref x + 1\<rparr>) s"

definition ivalid :: "nat \<Rightarrow> 'a kfs_scheme \<Rightarrow> 'a kfs_scheme res" where
  "ivalid ip s =
     (let x = itable s ! ip
      in if i_valid x then Inr s
         else bindE (bread (i_dev x) (IBLOCK (i_inum x) (sb s)) s) (\<lambda>(bp, s).
           let off = dinode_off (i_inum x); d = buf_data bp s;
               x = x\<lparr>i_type := sint (get16 off d), i_size := get32 (off + 8) d, i_addrs := get_addrs off d\<rparr>;
               s = brelse bp s;
               x = x\<lparr>i_valid := True\<rparr>
           in if i_type x = 0 then Inl (Panic ''ivalid: no type'')
              else Inr (upd_inode ip (\<lambda>_. x) s)))"

text \<open>The branch of \<open>iput\<close> that would free the inode has a constant false condition in the code.\<close>

definition iput :: "nat \<Rightarrow> 'a kfs_scheme \<Rightarrow> 'a kfs_scheme" where
  "iput ip s = upd_inode ip (\<lambda>x. x\<lparr>i_ref := i_ref x - 1\<rparr>) s"

section \<open>Contents\<close>

definition set_addr :: "nat \<Rightarrow> nat \<Rightarrow> u32 \<Rightarrow> 'a kfs_scheme \<Rightarrow> 'a kfs_scheme" where
  "set_addr ip i a s = upd_inode ip (\<lambda>x. x\<lparr>i_addrs := (i_addrs x)[i := a]\<rparr>) s"

text \<open>The address in entry \<open>i\<close> of \<open>ip->addrs\<close>, allocated when it is 0.\<close>

definition addr_alloc :: "nat \<Rightarrow> nat \<Rightarrow> 'a kfs_scheme \<Rightarrow> (u32 \<times> 'a kfs_scheme) res" where
  "addr_alloc ip i s =
     (let addr = i_addrs (itable s ! ip) ! i
      in if addr = 0
         then bindE (balloc (i_dev (itable s ! ip)) s) (\<lambda>(addr, s). Inr (addr, set_addr ip i addr s))
         else Inr (addr, s))"

definition bmap :: "nat \<Rightarrow> u32 \<Rightarrow> 'a kfs_scheme \<Rightarrow> (u32 \<times> 'a kfs_scheme) res" where
  "bmap ip bn s =
     (if bn < 12 then addr_alloc ip (unat bn) s
      else let bn = bn - 12
      in if bn < 256
         then bindE (addr_alloc ip 12 s) (\<lambda>(addr, s).
           bindE (bread (i_dev (itable s ! ip)) addr s) (\<lambda>(bp, s).
             let a = get32 (4 * unat bn) (buf_data bp s)
             in if a = 0
                then bindE (balloc (i_dev (itable s ! ip)) s) (\<lambda>(a, s).
                  let s = set_data bp (put_at (4 * unat bn) (to_le 4 a) (buf_data bp s)) s
                  in Inr (a, brelse bp (bwrite bp s)))
                else Inr (a, brelse bp s)))
         else Inl (Panic ''bmap: out of range''))"

text \<open>The loops of \<open>itrunc\<close> over the direct addresses and over the indirect block, \<open>n\<close> to go.\<close>

fun itrunc_direct :: "nat \<Rightarrow> nat \<Rightarrow> 'a kfs_scheme \<Rightarrow> 'a kfs_scheme res" where
  "itrunc_direct 0 ip s = Inr s"
| "itrunc_direct (Suc n) ip s =
     (let i = 12 - Suc n; a = i_addrs (itable s ! ip) ! i
      in bindE (if a \<noteq> 0
                then bindE (bfree (i_dev (itable s ! ip)) a s) (\<lambda>s. Inr (set_addr ip i 0 s))
                else Inr s)
           (itrunc_direct n ip))"

fun itrunc_indirect :: "nat \<Rightarrow> nat \<Rightarrow> nat \<Rightarrow> 'a kfs_scheme \<Rightarrow> 'a kfs_scheme res" where
  "itrunc_indirect 0 ip bp s = Inr s"
| "itrunc_indirect (Suc n) ip bp s =
     (let j = 256 - Suc n; a = get32 (4 * j) (buf_data bp s)
      in bindE (if a \<noteq> 0 then bfree (i_dev (itable s ! ip)) a s else Inr s)
           (itrunc_indirect n ip bp))"

definition itrunc :: "nat \<Rightarrow> 'a kfs_scheme \<Rightarrow> 'a kfs_scheme res" where
  "itrunc ip s =
     bindE (itrunc_direct 12 ip s) (\<lambda>s.
       let a = i_addrs (itable s ! ip) ! 12
       in bindE (if a \<noteq> 0
                 then bindE (bread (i_dev (itable s ! ip)) a s) (\<lambda>(bp, s).
                      bindE (itrunc_indirect 256 ip bp s) (\<lambda>s.
                      bindE (bfree (i_dev (itable s ! ip)) a (brelse bp s)) (\<lambda>s.
                      Inr (set_addr ip 12 0 s))))
                 else Inr s)
            (\<lambda>s. iupdate ip (upd_inode ip (\<lambda>x. x\<lparr>i_size := 0\<rparr>) s)))"

section \<open>Reading and writing\<close>

definition rw_size :: "u32 \<Rightarrow> u32 \<Rightarrow> u32 \<Rightarrow> u32" where
  "rw_size n tot off = MIN32 (n - tot) (1024 - off mod 1024)"

lemma chunk1024_pos: "0 < (1024 - x mod 1024 :: u32)"
proof -
  have "x mod 1024 < 1024" by (simp add: word_mod_less_divisor)
  then have "1024 - x mod 1024 \<noteq> 0" by auto
  then show ?thesis by (simp add: word_gt_0)
qed

lemma rw_size_pos: "tot \<noteq> n \<Longrightarrow> 0 < rw_size n tot off"
  using chunk1024_pos[of off] by (auto simp: rw_size_def MIN32_def word_gt_0)

lemma rw_size_le: "rw_size n tot off \<le> n - tot"
  by (auto simp: rw_size_def MIN32_def)

text \<open>
  The loop of \<open>readi\<close>; the result is \<open>tot\<close>, and the bytes a kernel destination receives.
\<close>

function readi_loop ::
  "nat \<Rightarrow> bool \<Rightarrow> u64 \<Rightarrow> u32 \<Rightarrow> u32 \<Rightarrow> u32 \<Rightarrow> 'a kfs_scheme \<Rightarrow> (u32 \<times> u8 list \<times> 'a kfs_scheme) res" where
  "readi_loop ip user_dst dst off n tot s =
     (if tot < n
      then bindE (bmap ip (off div 1024) s) (\<lambda>(bno, s).
           bindE (bread (i_dev (itable s ! ip)) bno s) (\<lambda>(bp, s).
             let m = rw_size n tot off; o1 = unat (off mod 1024)
             in bindE (either_copyout user_dst dst (take (unat m) (drop o1 (buf_data bp s))) s) (\<lambda>(r, bs, s).
               let s = brelse bp s
               in if r = -1 then Inr (-1, [], s)
                  else bindE (readi_loop ip user_dst (dst + ucast m) (off + m) n (tot + m) s) (\<lambda>(r, cs, s).
                       Inr (r, bs @ cs, s)))))
      else Inr (tot, [], s))"
  by pat_completeness auto
termination
  by (relation "measure (\<lambda>(ip, u, dst, off, n, tot, s). unat (n - tot))")
    (auto intro!: progress_less rw_size_pos rw_size_le)

declare readi_loop.simps [simp del]

definition readi ::
  "nat \<Rightarrow> bool \<Rightarrow> u64 \<Rightarrow> u32 \<Rightarrow> u32 \<Rightarrow> 'a kfs_scheme \<Rightarrow> (u32 \<times> u8 list \<times> 'a kfs_scheme) res" where
  "readi ip user_dst dst off n s =
     (let sz = i_size (itable s ! ip)
      in if off > sz \<or> off + n < off then Inr (0, [], s)
         else readi_loop ip user_dst dst off (if off + n > sz then sz - off else n) 0 s)"

text \<open>
  The loop of \<open>writei\<close>; the result is \<open>tot\<close> and \<open>off\<close>. \<open>ksrc\<close> is the kernel object at \<open>src\<close>.
  A failing \<open>copyin\<close> leaves its partial copy in the cached block, which is not written back.
\<close>

function writei_loop ::
  "nat \<Rightarrow> bool \<Rightarrow> u64 \<Rightarrow> u8 list \<Rightarrow> u32 \<Rightarrow> u32 \<Rightarrow> u32 \<Rightarrow> 'a kfs_scheme \<Rightarrow> (u32 \<times> u32 \<times> 'a kfs_scheme) res" where
  "writei_loop ip user_src src ksrc off n tot s =
     (if tot < n
      then bindE (bmap ip (off div 1024) s) (\<lambda>(bno, s).
           bindE (bread (i_dev (itable s ! ip)) bno s) (\<lambda>(bp, s).
             let m = rw_size n tot off; o1 = unat (off mod 1024)
             in bindE (either_copyin user_src src ksrc (unat m) s) (\<lambda>(r, bs).
               let s = set_data bp (put_at o1 bs (buf_data bp s)) s
               in if r = -1 then Inr (tot, off, brelse bp s)
                  else writei_loop ip user_src (src + ucast m) (drop (unat m) ksrc) (off + m) n (tot + m)
                         (brelse bp (bwrite bp s)))))
      else Inr (tot, off, s))"
  by pat_completeness auto
termination
  by (relation "measure (\<lambda>(ip, u, src, k, off, n, tot, s). unat (n - tot))")
    (auto intro!: progress_less rw_size_pos rw_size_le)

declare writei_loop.simps [simp del]

text \<open>The \<open>int\<close> result is the 32-bit word; -1 is \<open>0xFFFFFFFF\<close>. \<open>MAXFILE * BSIZE\<close> is 274432.\<close>

definition writei ::
  "nat \<Rightarrow> bool \<Rightarrow> u64 \<Rightarrow> u8 list \<Rightarrow> u32 \<Rightarrow> u32 \<Rightarrow> 'a kfs_scheme \<Rightarrow> (u32 \<times> 'a kfs_scheme) res" where
  "writei ip user_src src ksrc off n s =
     (if off > i_size (itable s ! ip) \<or> off + n < off then Inr (-1, s)
      else if off + n > 274432 then Inr (-1, s)
      else bindE (writei_loop ip user_src src ksrc off n 0 s) (\<lambda>(tot, off, s).
        let s = (if off > i_size (itable s ! ip) then upd_inode ip (\<lambda>x. x\<lparr>i_size := off\<rparr>) s else s)
        in bindE (iupdate ip s) (\<lambda>s. Inr (tot, s))))"

section \<open>Directories\<close>

text \<open>\<open>struct dirent\<close>: two bytes of inode number and 14 bytes of name.\<close>

definition de_inum :: "u8 list \<Rightarrow> u16" where "de_inum de = get16 0 de"

definition de_name :: "u8 list \<Rightarrow> u8 list" where "de_name de = drop 2 de"

text \<open>What reading a directory may change of the inode table: allocated block addresses only.\<close>

definition isizes :: "'a kfs_scheme \<Rightarrow> nat \<Rightarrow> u32" where
  "isizes s = (\<lambda>ip. i_size (itable s ! ip))"

lemma isizes_bufs [simp]: "isizes (brelse i s) = isizes s" "isizes (bwrite i s) = isizes s"
  "isizes (set_data i d s) = isizes s"
  by (simp_all add: isizes_def bwrite_def disk_rw_def set_data_def upd_buf_def Let_def)

lemma isizes_set_addr [simp]: "isizes (set_addr ip i a s) = isizes s"
proof (cases "ip < length (itable s)")
  case False
  then show ?thesis by (simp add: isizes_def set_addr_def upd_inode_def list_update_beyond)
qed (auto simp: isizes_def set_addr_def upd_inode_def nth_list_update)

lemma bread_isizes: "bread dev b s = Inr (i, s') \<Longrightarrow> isizes s' = isizes s"
  by (auto simp: isizes_def dest: bread_kfs)

lemma bwrite_nodisk: "nodisk (bwrite i s) = nodisk s" "nodisk (set_data i d s) = nodisk s"
  by (simp_all add: bwrite_def disk_rw_def set_data_def Let_def)

lemma nodisk_isizes: "nodisk s' = nodisk s \<Longrightarrow> isizes s' = isizes s"
  unfolding isizes_def by (drule nodisk_kfs(2)) simp

lemma bzero_nodisk: "bzero dev b s = Inr s' \<Longrightarrow> nodisk s' = nodisk s"
  by (auto simp: bzero_def Let_def res_simps brelse_nodisk bwrite_nodisk dest: bread_nodisk)

lemma balloc_loop_nodisk: "balloc_loop dev b s = Inr (a, s') \<Longrightarrow> nodisk s' = nodisk s"
proof (induction dev b s rule: balloc_loop.induct)
  case (1 dev b s)
  have b: "b < unat (sb_size (sb s))"
    using 1(2) by (subst (asm) balloc_loop.simps) (simp split: if_splits)
  obtain bp s1 where s1: "bread dev (BBLOCK (of_nat b) (sb s)) s = Inr (bp, s1)"
    using 1(2) b by (subst (asm) balloc_loop.simps) (auto simp: res_simps)
  note n1 = bread_nodisk[OF s1]
  show ?case
  proof (cases "find_clear (buf_data bp s1) 0 (min 8192 (unat (sb_size (sb s)) - b))")
    case None
    then have "balloc_loop dev (b + 8192) (brelse bp s1) = Inr (a, s')"
      using 1(2) b s1 by (subst (asm) balloc_loop.simps) simp
    then have "nodisk s' = nodisk (brelse bp s1)" by (rule 1(1)[OF b s1 refl refl None])
    then show ?thesis using n1 by (simp add: brelse_nodisk)
  next
    case (Some bi)
    then show ?thesis
      using 1(2) b s1 n1 by (subst (asm) balloc_loop.simps)
        (auto simp: res_simps Let_def brelse_nodisk bwrite_nodisk dest!: bzero_nodisk)
  qed
qed

lemma balloc_nodisk: "balloc dev s = Inr (a, s') \<Longrightarrow> nodisk s' = nodisk s"
  unfolding balloc_def by (rule balloc_loop_nodisk)

lemma bfree_nodisk: "bfree dev b s = Inr s' \<Longrightarrow> nodisk s' = nodisk s"
  by (auto simp: bfree_def Let_def res_simps brelse_nodisk bwrite_nodisk split: if_splits dest!: bread_nodisk)

lemma balloc_isizes: "balloc dev s = Inr (a, s') \<Longrightarrow> isizes s' = isizes s"
  by (rule nodisk_isizes[OF balloc_nodisk])

lemma add_le_of_le_sub: "(tot :: u32) \<le> n \<Longrightarrow> m \<le> n - tot \<Longrightarrow> tot + m \<le> n"
proof -
  assume a: "tot \<le> n" "m \<le> n - tot"
  have "unat m \<le> unat n - unat tot" using a(2) unat_sub[OF a(1)] by (simp add: word_le_nat_alt)
  then have "unat tot + unat m \<le> unat n" using a(1) by (simp add: word_le_nat_alt)
  then show ?thesis using unat_add_lem[of tot m] unat_less_u32[of n]
    by (simp add: word_le_nat_alt)
qed

lemma addr_alloc_isizes: "addr_alloc ip i s = Inr (a, s') \<Longrightarrow> isizes s' = isizes s"
  by (auto simp: addr_alloc_def Let_def res_simps split: if_splits dest: balloc_isizes)

lemma bmap_isizes:
  assumes "bmap ip bn s = Inr (a, s')"
  shows "isizes s' = isizes s"
proof (cases "bn < 12")
  case False
  then have l: "bn - 12 < 256" using assms by (simp add: bmap_def Let_def split: if_splits)
  obtain addr s1 where s1: "addr_alloc ip 12 s = Inr (addr, s1)"
    using assms False l by (auto simp: bmap_def Let_def res_simps)
  obtain bp s2 where s2: "bread (i_dev (itable s1 ! ip)) addr s1 = Inr (bp, s2)"
    using assms False l s1 by (auto simp: bmap_def Let_def res_simps)
  have i2: "isizes s2 = isizes s" using addr_alloc_isizes[OF s1] bread_isizes[OF s2] by simp
  show ?thesis
  proof (cases "get32 (4 * unat (bn - 12)) (buf_data bp s2) = 0")
    case True
    then obtain c s3 where s3: "balloc (i_dev (itable s2 ! ip)) s2 = Inr (c, s3)" "isizes s' = isizes s3"
      using assms False l s1 s2 by (auto simp: bmap_def Let_def res_simps)
    then show ?thesis using balloc_isizes[OF s3(1)] i2 by simp
  next
    case nz: False
    then show ?thesis using assms False l s1 s2 i2 by (auto simp: bmap_def Let_def res_simps)
  qed
qed (use assms in \<open>auto simp: bmap_def dest: addr_alloc_isizes\<close>)

lemma mem_only_isizes: "mem_only s s' \<Longrightarrow> isizes s' = isizes s"
  by (cases s; cases s') (auto simp: mem_only_def isizes_def)

lemma either_copyout_isizes: "either_copyout u dst src s = Inr (r, bs, s') \<Longrightarrow> isizes s' = isizes s"
  by (auto simp: either_copyout_def res_simps split: if_splits dest: copyout_mem_only mem_only_isizes)

lemma readi_loop_kernel:
  "readi_loop ip False dst off n tot s = Inr (r, bs, s') \<Longrightarrow> tot \<le> n \<Longrightarrow> r \<le> n \<and> isizes s' = isizes s"
proof (induction ip False dst off n tot s arbitrary: r bs s' rule: readi_loop.induct)
  case (1 ip dst off n tot s)
  show ?case
  proof (cases "tot < n")
    case True
    let ?m = "rw_size n tot off"
    obtain bno s1 where s1: "bmap ip (off div 1024) s = Inr (bno, s1)"
      using 1(2) True by (subst (asm) readi_loop.simps) (auto simp: res_simps)
    obtain bp s2 where s2: "bread (i_dev (itable s1 ! ip)) bno s1 = Inr (bp, s2)"
      using 1(2) True s1 by (subst (asm) readi_loop.simps) (auto simp: res_simps)
    let ?bs = "take (unat ?m) (drop (unat (off mod 1024)) (buf_data bp s2))"
    obtain cs where rec: "readi_loop ip False (dst + ucast ?m) (off + ?m) n (tot + ?m) (brelse bp s2) = Inr (r, cs, s')"
      using 1(2) True s1 s2 by (subst (asm) readi_loop.simps) (auto simp: res_simps either_copyout_def Let_def)
    have "tot + ?m \<le> n" using True rw_size_le[of n tot off] by (intro add_le_of_le_sub) simp_all
    moreover have "either_copyout False dst ?bs s2 = Inr (0, ?bs, s2)" by (simp add: either_copyout_def)
    moreover have "(0 :: int) \<noteq> -1" by simp
    ultimately have "r \<le> n \<and> isizes s' = isizes (brelse bp s2)"
      using "1.hyps"[OF True s1 refl s2 refl refl refl _ refl refl refl _ rec] by blast
    then show ?thesis using bmap_isizes[OF s1] bread_isizes[OF s2] by simp
  next
    case False
    then show ?thesis using 1(2,3) by (subst (asm) readi_loop.simps) simp
  qed
qed

lemma readi_kernel:
  assumes "readi ip False dst off n s = Inr (r, bs, s')"
  shows "isizes s' = isizes s" "r = 0 \<or> unat off + unat r \<le> unat (i_size (itable s ! ip))"
proof -
  let ?sz = "i_size (itable s ! ip)"
  show "isizes s' = isizes s"
    using assms by (auto simp: readi_def Let_def split: if_splits dest: readi_loop_kernel)
  show "r = 0 \<or> unat off + unat r \<le> unat ?sz"
  proof (cases "off > ?sz \<or> off + n < off")
    case False
    then have o: "off \<le> ?sz" "off \<le> off + n" by auto
    have le: "r \<le> (if off + n > ?sz then ?sz - off else n)"
      using assms False readi_loop_kernel[of ip dst off _ 0 s r bs s'] by (auto simp: readi_def Let_def)
    have "unat ?sz - unat off \<ge> unat r"
    proof (cases "off + n > ?sz")
      case True
      then show ?thesis using le unat_sub[OF o(1)] by (simp add: word_le_nat_alt)
    next
      case no: False
      then have "unat (off + n) \<le> unat ?sz" unfolding word_le_nat_alt[symmetric] by simp
      moreover have "unat n = unat (off + n) - unat off" using unat_sub[OF o(2)] by simp
      moreover have "unat r \<le> unat n" using le no by (simp add: word_le_nat_alt)
      ultimately show ?thesis by simp
    qed
    then show ?thesis using o(1) unfolding word_le_nat_alt by linarith
  qed (use assms in \<open>auto simp: readi_def Let_def\<close>)
qed

lemma readi_entry:
  assumes "readi ip False dst off 16 s = Inr (16, bs, s')"
  shows "unat (i_size (itable s' ! ip)) - unat (off + 16) < unat (i_size (itable s ! ip)) - unat off"
proof -
  have "i_size (itable s' ! ip) = i_size (itable s ! ip)" using readi_kernel(1)[OF assms] by (metis isizes_def)
  moreover have le: "unat off + 16 \<le> unat (i_size (itable s ! ip))" using readi_kernel(2)[OF assms] by simp
  moreover have "unat (off + 16) = unat off + 16"
    using le unat_less_u32[of "i_size (itable s ! ip)"] by (simp add: unat_word_ariths)
  ultimately show ?thesis by simp
qed

text \<open>
  The loops over the entries of a directory, from \<open>off\<close> on, and what they find: the entry and its
  offset. \<open>dir_find\<close> is the loop of \<open>dirlookup\<close>, \<open>dir_free\<close> that of \<open>dirlink\<close> and \<open>dir_match\<close>
  that of \<open>dirunlink\<close>.
\<close>

function dir_find :: "nat \<Rightarrow> u8 list \<Rightarrow> u32 \<Rightarrow> 'a kfs_scheme \<Rightarrow> ((u16 \<times> u32) option \<times> 'a kfs_scheme) res" where
  "dir_find dp name off s =
     (if off < i_size (itable s ! dp)
      then bindE (readi dp False 0 off 16 s) (\<lambda>(r, de, s').
        if r \<noteq> 16 then Inl (Panic ''dirlookup read'')
        else if de_inum de = 0 then dir_find dp name (off + 16) s'
        else bindE (strncmp name (de_name de) DIRSIZ) (\<lambda>c.
          if c = 0 then Inr (Some (de_inum de, off), s')
          else dir_find dp name (off + 16) s'))
      else Inr (None, s))"
  by pat_completeness auto
termination
  by (relation "measure (\<lambda>(dp, name, off, s). unat (i_size (itable s ! dp)) - unat off)")
    (auto dest: readi_entry)

declare dir_find.simps [simp del]

definition dirlookup :: "nat \<Rightarrow> u8 list \<Rightarrow> 'a kfs_scheme \<Rightarrow> ((nat \<times> u32) option \<times> 'a kfs_scheme) res" where
  "dirlookup dp name s =
     (if i_type (itable s ! dp) \<noteq> T_DIR then Inl (Panic ''dirlookup not DIR'')
      else bindE (dir_find dp name 0 s) (\<lambda>(r, s).
        case r of
          None \<Rightarrow> Inr (None, s)
        | Some (inum, off) \<Rightarrow> bindE (iget (i_dev (itable s ! dp)) (ucast inum) s) (\<lambda>(ip, s).
            Inr (Some (ip, off), s))))"

function dir_free :: "nat \<Rightarrow> u32 \<Rightarrow> 'a kfs_scheme \<Rightarrow> (u32 \<times> 'a kfs_scheme) res" where
  "dir_free dp off s =
     (if off < i_size (itable s ! dp)
      then bindE (readi dp False 0 off 16 s) (\<lambda>(r, de, s').
        if r \<noteq> 16 then Inl (Panic ''dirlink read'')
        else if de_inum de = 0 then Inr (off, s')
        else dir_free dp (off + 16) s')
      else Inr (off, s))"
  by pat_completeness auto
termination
  by (relation "measure (\<lambda>(dp, off, s). unat (i_size (itable s ! dp)) - unat off)")
    (auto dest: readi_entry)

declare dir_free.simps [simp del]

definition dirlink :: "nat \<Rightarrow> u8 list \<Rightarrow> u32 \<Rightarrow> 'a kfs_scheme \<Rightarrow> (int \<times> 'a kfs_scheme) res" where
  "dirlink dp name inum s =
     bindE (dirlookup dp name s) (\<lambda>(r, s).
       case r of
         Some (ip, _) \<Rightarrow> Inr (-1, iput ip s)
       | None \<Rightarrow>
         bindE (dir_free dp 0 s) (\<lambda>(off, s).
         bindE (strncpy (replicate 14 0) name DIRSIZ) (\<lambda>nm.
         bindE (writei dp False 0 (to_le 2 (ucast inum :: u16) @ nm) off 16 s) (\<lambda>(r, s).
           if r \<noteq> 16 then Inl (Panic ''dirlink'') else Inr (0, s)))))"

definition root_dir :: "'a kfs_scheme \<Rightarrow> (nat \<times> 'a kfs_scheme) res" where
  "root_dir s =
     bindE (iget ROOTDEV ROOTINO s) (\<lambda>(r, s). bindE (ivalid r s) (\<lambda>s. Inr (r, s)))"

function dir_match ::
  "nat \<Rightarrow> u8 list \<Rightarrow> u32 \<Rightarrow> u8 list \<Rightarrow> 'a kfs_scheme \<Rightarrow> (u32 \<times> u8 list \<times> 'a kfs_scheme) res" where
  "dir_match dp name off de s =
     (if off < i_size (itable s ! dp)
      then bindE (readi dp False 0 off 16 s) (\<lambda>(r, de, s').
        if r \<noteq> 16 then Inl (Panic ''dirlink read'')
        else bindE (strlen name) (\<lambda>len. bindE (strncmp (de_name de) name len) (\<lambda>c.
          if c = 0 then Inr (off, de, s')
          else dir_match dp name (off + 16) de s')))
      else Inr (off, de, s))"
  by pat_completeness auto
termination
  by (relation "measure (\<lambda>(dp, name, off, de, s). unat (i_size (itable s ! dp)) - unat off)")
    (auto dest: readi_entry)

declare dir_match.simps [simp del]

text \<open>
  The entry that is cleared is the first one of which \<open>name\<close> is a prefix, free entries included,
  which need not be the one \<open>dirlookup\<close> found; the reference \<open>dirlookup\<close> took is kept.
\<close>

definition dirunlink :: "nat \<Rightarrow> u8 list \<Rightarrow> 'a kfs_scheme \<Rightarrow> (int \<times> 'a kfs_scheme) res" where
  "dirunlink dp name s =
     bindE (dirlookup dp name s) (\<lambda>(r, s).
       case r of
         None \<Rightarrow> Inr (-1, s)
       | Some _ \<Rightarrow>
         bindE (dir_match dp name 0 [] s) (\<lambda>(off, de, s).
           if off = i_size (itable s ! dp) then Inr (-1, s)
           else bindE (writei dp False 0 (to_le 2 (0 :: u16) @ de_name de) off 16 s) (\<lambda>(_, s).
             Inr (0, s))))"

definition namei :: "u8 list \<Rightarrow> 'a kfs_scheme \<Rightarrow> (nat option \<times> 'a kfs_scheme) res" where
  "namei path s =
     bindE (root_dir s) (\<lambda>(dp, s).
     bindE (dirlookup dp path s) (\<lambda>(r, s). Inr (map_option fst r, s)))"

end
