(* ===== verification/File.thy ===== *)
theory File
  imports Pipe Fs
begin

text \<open>
  Open files, \<open>kernel/file.c\<close> with \<open>struct file\<close> of \<open>kernel/file.h\<close>, and the part of
  \<open>kernel/pipe.c\<close> that makes a pipe out of two of them. A \<open>struct file *\<close> is an index of
  \<open>filepool\<close>; the null pointer is \<open>None\<close>. Log output is not part of the state.
\<close>

section \<open>State\<close>

datatype ftype = FD_NONE | FD_PIPE | FD_INODE

record ofile =
  f_type :: ftype
  f_ref :: int
  f_readable :: bool
  f_writable :: bool
  f_pipe :: u64
  f_ip :: "nat option"
  f_off :: u32

record kfile = kfs +
  filepool :: "ofile list"

text \<open>128 * 16 entries, cleared.\<close>

definition file0 :: ofile where
  "file0 = \<lparr>f_type = FD_NONE, f_ref = 0, f_readable = False, f_writable = False, f_pipe = 0, f_ip = None, f_off = 0\<rparr>"

definition upd_file :: "nat \<Rightarrow> (ofile \<Rightarrow> ofile) \<Rightarrow> 'a kfile_scheme \<Rightarrow> 'a kfile_scheme" where
  "upd_file f g s = s\<lparr>filepool := (filepool s)[f := g (filepool s ! f)]\<rparr>"

abbreviation (input) O_WRONLY :: u64 where "O_WRONLY \<equiv> 1"
abbreviation (input) O_RDWR :: u64 where "O_RDWR \<equiv> 2"
abbreviation (input) O_CREATE :: u64 where "O_CREATE \<equiv> 0x200"
abbreviation (input) O_TRUNC :: u64 where "O_TRUNC \<equiv> 0x400"

section \<open>Allocation and release\<close>

definition filealloc :: "'a kfile_scheme \<Rightarrow> nat option \<times> 'a kfile_scheme" where
  "filealloc s =
     (case find_idx (\<lambda>f. f_ref f = 0) (filepool s) of
        Some i \<Rightarrow> (Some i, upd_file i (\<lambda>f. f\<lparr>f_ref := 1\<rparr>) s)
      | None \<Rightarrow> (None, s))"

definition iput_ptr :: "nat option \<Rightarrow> 'a kfs_scheme \<Rightarrow> 'a kfs_scheme res" where
  "iput_ptr p s = (case p of Some ip \<Rightarrow> Inr (iput ip s) | None \<Rightarrow> Inl (Wild ''iput: null pointer''))"

definition fileclose :: "nat \<Rightarrow> 'a kfile_scheme \<Rightarrow> 'a kfile_scheme res" where
  "fileclose f s =
     (if f_ref (filepool s ! f) < 1 then Inl (Panic ''fileclose'')
      else let s = upd_file f (\<lambda>x. x\<lparr>f_ref := f_ref x - 1\<rparr>) s; x = filepool s ! f
      in if f_ref x > 0 then Inr s
         else bindE (case f_type x of
                       FD_PIPE \<Rightarrow> pipeclose (f_pipe x) (f_writable x) s
                     | FD_INODE \<Rightarrow> iput_ptr (f_ip x) s
                     | FD_NONE \<Rightarrow> Inr s)
           (\<lambda>s. Inr (upd_file f (\<lambda>x. x\<lparr>f_off := 0, f_readable := False, f_writable := False,
                                        f_ref := 0, f_type := FD_NONE\<rparr>) s)))"

text \<open>
  \<open>pipealloc\<close> gets the results of two unchecked calls of \<open>filealloc\<close>.
\<close>

definition pipealloc :: "nat option \<Rightarrow> nat option \<Rightarrow> 'a kfile_scheme \<Rightarrow> (int \<times> 'a kfile_scheme) res" where
  "pipealloc f0 f1 s =
     (case kalloc s of (pi, s) \<Rightarrow>
        if pi = 0 then Inr (-1, s)
        else let s = s\<lparr>mem := pipe_init pi (mem s)\<rparr>
        in case (f0, f1) of
             (Some f0, Some f1) \<Rightarrow>
               let s = upd_file f0 (\<lambda>x. x\<lparr>f_type := FD_PIPE, f_readable := True, f_writable := False, f_pipe := pi\<rparr>) s;
                   s = upd_file f1 (\<lambda>x. x\<lparr>f_type := FD_PIPE, f_readable := False, f_writable := True, f_pipe := pi\<rparr>) s
               in Inr (0, s)
           | _ \<Rightarrow> Inl (Wild ''pipealloc: null pointer''))"

section \<open>Opening, reading, writing\<close>

definition create :: "u8 list \<Rightarrow> u16 \<Rightarrow> 'a kfs_scheme \<Rightarrow> (nat option \<times> 'a kfs_scheme) res" where
  "create path typ s =
     bindE (root_dir s) (\<lambda>(dp, s).
     bindE (ivalid dp s) (\<lambda>s.
     bindE (dirlookup dp path s) (\<lambda>(r, s).
       case r of
         Some (ip, _) \<Rightarrow>
           bindE (ivalid ip (iput dp s)) (\<lambda>s.
             if sint typ = T_FILE \<and> i_type (itable s ! ip) = T_FILE then Inr (Some ip, s)
             else Inr (None, iput ip s))
       | None \<Rightarrow>
           bindE (ialloc (i_dev (itable s ! dp)) typ s) (\<lambda>(ip, s).
           bindE (ivalid ip s) (\<lambda>s.
           bindE (iupdate ip s) (\<lambda>s.
           bindE (dirlink dp path (i_inum (itable s ! ip)) s) (\<lambda>(r, s).
             if r < 0 then Inl (Panic ''create: dirlink'')
             else Inr (Some ip, iput dp s))))))))"

text \<open>The inode \<open>fileopen\<close> goes on with, if any.\<close>

definition open_inode :: "u8 list \<Rightarrow> u64 \<Rightarrow> 'a kfs_scheme \<Rightarrow> (nat option \<times> 'a kfs_scheme) res" where
  "open_inode path omode s =
     (if omode AND O_CREATE \<noteq> 0 then create path 2 s
      else bindE (namei path s) (\<lambda>(r, s).
        case r of None \<Rightarrow> Inr (None, s) | Some ip \<Rightarrow> bindE (ivalid ip s) (\<lambda>s. Inr (Some ip, s))))"

definition fileopen :: "u8 list \<Rightarrow> u64 \<Rightarrow> 'a kfile_scheme \<Rightarrow> (int \<times> 'a kfile_scheme) res" where
  "fileopen path omode s =
     bindE (open_inode path omode s) (\<lambda>(r, s).
       case r of
         None \<Rightarrow> Inr (-1, s)
       | Some ip \<Rightarrow>
         if i_type (itable s ! ip) \<noteq> T_FILE then Inl (Panic ''unsupported file inode type'')
         else (case filealloc s of
           (None, s) \<Rightarrow> Inr (-1, iput ip s)
         | (Some f, s) \<Rightarrow>
           (case fdalloc f s of (fd, s) \<Rightarrow>
             if fd < 0 then bindE (fileclose f s) (\<lambda>s. Inr (-1, iput ip s))
             else let s = upd_file f (\<lambda>x. x\<lparr>f_type := FD_INODE, f_off := 0, f_ip := Some ip,
                            f_readable := (omode AND O_WRONLY = 0),
                            f_writable := (omode AND O_WRONLY \<noteq> 0 \<or> omode AND O_RDWR \<noteq> 0)\<rparr>) s
                  in bindE (if omode AND O_TRUNC \<noteq> 0 \<and> i_type (itable s ! ip) = T_FILE then itrunc ip s else Inr s)
                       (\<lambda>s. Inr (fd, s)))))"

text \<open>\<open>len\<close> is truncated to 32 bits; the \<open>int\<close> result is sign-extended.\<close>

definition with_inode :: "nat \<Rightarrow> (nat \<Rightarrow> 'a kfile_scheme \<Rightarrow> 'b res) \<Rightarrow> 'a kfile_scheme \<Rightarrow> 'b res" where
  "with_inode f g s =
     (case f_ip (filepool s ! f) of
        None \<Rightarrow> Inl (Wild ''ivalid: null pointer'')
      | Some ip \<Rightarrow> bindE (ivalid ip s) (g ip))"

definition advance :: "nat \<Rightarrow> u32 \<Rightarrow> 'a kfile_scheme \<Rightarrow> 'a kfile_scheme" where
  "advance f r s = (if sint r > 0 then upd_file f (\<lambda>x. x\<lparr>f_off := f_off x + r\<rparr>) s else s)"

definition filewrite :: "nat \<Rightarrow> u64 \<Rightarrow> u64 \<Rightarrow> 'a kfile_scheme \<Rightarrow> (u64 \<times> 'a kfile_scheme) res" where
  "filewrite f va len s =
     with_inode f (\<lambda>ip s.
       bindE (writei ip True va [] (f_off (filepool s ! f)) (ucast len) s) (\<lambda>(r, s).
         Inr (scast r, advance f r s))) s"

definition fileread :: "nat \<Rightarrow> u64 \<Rightarrow> u64 \<Rightarrow> 'a kfile_scheme \<Rightarrow> (u64 \<times> 'a kfile_scheme) res" where
  "fileread f va len s =
     with_inode f (\<lambda>ip s.
       bindE (readi ip True va (f_off (filepool s ! f)) (ucast len) s) (\<lambda>(r, _, s).
         Inr (scast r, advance f r s))) s"

end
