(* ===== verification/Loader.thy ===== *)
theory Loader
  imports File
begin

text \<open>
  The loader, \<open>kernel/loader.c\<close>: the table of embedded programs, and the image of a new process.
  The linked-in data are inputs: \<open>app_array\<close> holds the words of \<open>_app_num\<close> (the number of programs
  and then their bounds in memory), and \<open>app_names\<close> the bytes of \<open>_app_names\<close>.
\<close>

section \<open>State\<close>

record kload = kfile +
  app_num :: int
  app_info :: "u64 list"
  names :: "u8 list list"

text \<open>The state the boot loader leaves, with memory \<open>m\<close> and disk \<open>d\<close>: static storage, cleared.\<close>

definition inode0 :: inode where
  "inode0 = \<lparr>i_dev = 0, i_inum = 0, i_ref = 0, i_valid = False, i_type = 0, i_size = 0, i_addrs = replicate 13 0\<rparr>"

definition kload0 :: "bmem \<Rightarrow> (u32 \<Rightarrow> u8 list) \<Rightarrow> kload" where
  "kload0 m d = \<lparr>mem = m, freelist = 0, ekernel = 0x80440000, pool = replicate 256 proc0, idle = proc0,
     current_proc = None, curr_pid = 0, PID = 1, e_text = 0x80210000, trampoline = 0x80200000,
     usertrapret = 0x80201000, kstack_arr = 0x80230000, ustack_arr = 0x80330000, boot_stack_top = 0x80220000,
     disk = d, bufs = replicate 31 buf0,
     sb = \<lparr>sb_magic = 0, sb_size = 0, sb_nblocks = 0, sb_ninodes = 0, sb_inodestart = 0, sb_bmapstart = 0\<rparr>,
     itable = replicate 50 inode0, filepool = replicate 2048 file0,
     app_num = 0, app_info = [], names = replicate 30 (replicate 100 0)\<rparr>"

definition set_tf :: "u64 \<Rightarrow> u64 \<Rightarrow> u64 \<Rightarrow> 'a kmem_scheme \<Rightarrow> 'a kmem_scheme" where
  "set_tf tf off v s = s\<lparr>mem := store64 (mem s) (tf + off) v\<rparr>"

abbreviation (input) tf_epc :: u64 where "tf_epc \<equiv> 24"
abbreviation (input) tf_sp :: u64 where "tf_sp \<equiv> 48"
abbreviation (input) tf_a0 :: u64 where "tf_a0 \<equiv> 112"
abbreviation (input) tf_a7 :: u64 where "tf_a7 \<equiv> 168"

section \<open>The program table\<close>

text \<open>\<open>names\<close> has 30 entries of 100 bytes; \<open>n\<close> names are still to be copied, the next is number \<open>i\<close>.\<close>

fun batchinit_loop :: "nat \<Rightarrow> nat \<Rightarrow> u8 list \<Rightarrow> u8 list list \<Rightarrow> u8 list list res" where
  "batchinit_loop 0 i s nms = Inr nms"
| "batchinit_loop (Suc n) i s nms =
     bindE (strlen s) (\<lambda>len.
       if i \<ge> length nms then Inl (Wild ''batchinit: names'')
       else bindE (strncpy (nms ! i) s len) (\<lambda>nm.
         batchinit_loop n (Suc i) (drop (len + 1) s) (nms[i := nm])))"

definition batchinit :: "u64 list \<Rightarrow> u8 list \<Rightarrow> 'a kload_scheme \<Rightarrow> 'a kload_scheme res" where
  "batchinit app_array app_names s =
     (let num = sint (ucast (hd app_array) :: u32)
      in bindE (batchinit_loop (nat num) 0 app_names (names s)) (\<lambda>nms.
           Inr (s\<lparr>app_num := num, app_info := tl app_array, names := nms\<rparr>)))"

fun name_search :: "u8 list \<Rightarrow> u8 list list \<Rightarrow> nat \<Rightarrow> nat \<Rightarrow> int res" where
  "name_search name nms i 0 = Inr (-1)"
| "name_search name nms i (Suc n) =
     (if i \<ge> length nms then Inl (Wild ''get_id_by_name: names'')
      else bindE (strncmp name (nms ! i) 100) (\<lambda>c.
        if c = 0 then Inr (int i) else name_search name nms (Suc i) n))"

definition get_id_by_name :: "u8 list \<Rightarrow> 'a kload_scheme \<Rightarrow> int res" where
  "get_id_by_name name s = name_search name (names s) 0 (nat (app_num s))"

section \<open>The image\<close>

definition BASE_ADDRESS :: u64 where "BASE_ADDRESS = 0x1000"
definition USTACK_BOTTOM :: u64 where "USTACK_BOTTOM = 0"

definition alloc_ustack :: "pref \<Rightarrow> 'a kproc_scheme \<Rightarrow> 'a kproc_scheme res" where
  "alloc_ustack r s =
     (case kalloc s of (page, s) \<Rightarrow>
        if page = 0 then Inl (Panic ''can't alloc user stack'')
        else let s = s\<lparr>mem := memset (mem s) page 0 4096\<rparr>
        in bindE (mappages (pagetable (proc_at s r)) USTACK_BOTTOM 4096 page (16 OR 2 OR 4 OR 8) s) (\<lambda>(c, s).
             if c \<noteq> 0 then Inl (Panic '''')
             else let s = set_proc r ((proc_at s r)\<lparr>ustack := USTACK_BOTTOM\<rparr>) s;
                      tf = trapframe (proc_at s r); sp = ustack (proc_at s r) + 4096;
                      s = set_tf tf tf_sp sp s
                  in if sp > BASE_ADDRESS then Inl (Panic ''error memory_layout'') else Inr s))"

text \<open>The loop of \<open>bin_loader\<close>; the image is whole pages, so the last page below \<open>e\<close> ends it.\<close>

function load_loop :: "u64 \<Rightarrow> u64 \<Rightarrow> u64 \<Rightarrow> u64 \<Rightarrow> 'a kmem_scheme \<Rightarrow> 'a kmem_scheme res" where
  "load_loop pt va pa e s =
     (if pa < e
      then (case kalloc s of (page, s) \<Rightarrow>
        if page = 0 then Inl (Panic '''')
        else let s = s\<lparr>mem := memmove (mem s) page pa 4096\<rparr>
        in bindE (mappages pt va PGSIZE page (16 OR 2 OR 4 OR 8) s) (\<lambda>(c, s).
             if c \<noteq> 0 then Inl (Panic '''') else load_loop pt (va + PGSIZE) (pa + PGSIZE) e s))
      else Inr s)"
  by pat_completeness auto

termination
  by (relation "measure (\<lambda>(pt, va, pa, e, s). 2 ^ 64 - unat va)")
    (auto dest!: mappages_below_MAXVA simp: unat_word_ariths)

declare load_loop.simps [simp del]

definition bin_loader :: "u64 \<Rightarrow> u64 \<Rightarrow> pref \<Rightarrow> 'a kproc_scheme \<Rightarrow> 'a kproc_scheme res" where
  "bin_loader start endp r s =
     (let b = PGROUNDDOWN start; e = PGROUNDUP endp; length = e - b
      in bindE (load_loop (pagetable (proc_at s r)) BASE_ADDRESS b e s) (\<lambda>s.
         bindE (alloc_ustack r (set_tf (trapframe (proc_at s r)) tf_epc BASE_ADDRESS s)) (\<lambda>s.
           Inr (set_proc r ((proc_at s r)\<lparr>psz := 4096 + length\<rparr>) s))))"

definition loader :: "int \<Rightarrow> pref \<Rightarrow> 'a kload_scheme \<Rightarrow> 'a kload_scheme res" where
  "loader i r s = bin_loader (app_info s ! nat i) (app_info s ! nat (i + 1)) r s"

text \<open>\<open>''ch5_usershell''\<close> is the first program.\<close>

definition usershell :: "u8 list" where
  "usershell = map of_char (''ch5_usershell'') @ [0]"

definition run_all_app :: "'a kload_scheme \<Rightarrow> 'a kload_scheme res" where
  "run_all_app s =
     bindE (allocproc s) (\<lambda>(p, s).
       case p of
         None \<Rightarrow> Inl (Wild ''run_all_app: null pointer'')
       | Some i \<Rightarrow>
         let s = s\<lparr>pool := (pool s)[i := (pool s ! i)\<lparr>parent := None\<rparr>]\<rparr>
         in bindE (get_id_by_name usershell s) (\<lambda>k.
              if k < 0 then Inl (Panic ''no user shell'')
              else bindE (loader k (Pool i) s) (\<lambda>s.
                Inr (s\<lparr>pool := (pool s)[i := (pool s ! i)\<lparr>pstate := RUNNABLE\<rparr>]\<rparr>))))"

end
