(* ===== verification/Lifecycle.thy ===== *)
theory Lifecycle
  imports Loader
begin

text \<open>
  The life cycle of processes, the rest of \<open>kernel/proc.c\<close>: fork, exec, wait, spawn, exit, and the
  scheduler. \<open>swtch\<close> saves the registers of one thread of control and loads those of another;
  what the model keeps of it is who runs next. A kernel call that gives up the processor ends
  with \<open>Yield\<close>; \<open>sched_pick\<close> then resumes the scheduler's loop where it was.
\<close>

section \<open>Release\<close>

text \<open>The loop of \<open>freeproc\<close> over the descriptors from \<open>i\<close> on, \<open>n\<close> of them to go.\<close>

fun close_loop :: "nat \<Rightarrow> nat \<Rightarrow> pref \<Rightarrow> 'a kfile_scheme \<Rightarrow> 'a kfile_scheme res" where
  "close_loop 0 i r s = Inr s"
| "close_loop (Suc n) i r s =
     (case files (proc_at s r) ! i of
        None \<Rightarrow> close_loop n (Suc i) r s
      | Some f \<Rightarrow> bindE (fileclose f s) (\<lambda>s.
          close_loop n (Suc i) r
            (set_proc r ((proc_at s r)\<lparr>files := (files (proc_at s r))[i := None]\<rparr>) s)))"

definition freeproc :: "pref \<Rightarrow> 'a kfile_scheme \<Rightarrow> 'a kfile_scheme res" where
  "freeproc r s =
     bindE (if pagetable (proc_at s r) \<noteq> 0
            then proc_freepagetable (pagetable (proc_at s r)) (psz (proc_at s r)) s
            else Inr s) (\<lambda>s.
       close_loop 16 0 r (set_proc r ((proc_at s r)\<lparr>pagetable := 0, pstate := UNUSED\<rparr>) s))"

section \<open>Giving up the processor\<close>

definition sched :: "'a kproc_scheme \<Rightarrow> 'a kproc_scheme res" where
  "sched s =
     (if pstate (cproc s) = RUNNING then Inl (Panic ''sched running'')
      else Inr (s\<lparr>current_proc := Some Idle\<rparr>))"

definition yield :: "'a kproc_scheme \<Rightarrow> 'a kproc_scheme res" where
  "yield s = sched (set_proc (curr_proc s) ((cproc s)\<lparr>pstate := RUNNABLE\<rparr>) s)"

definition exit :: "int \<Rightarrow> 'a kfile_scheme \<Rightarrow> 'a kfile_scheme res" where
  "exit code s =
     (let r = curr_proc s; s = set_proc r ((proc_at s r)\<lparr>exit_code := of_int code\<rparr>) s
      in bindE (freeproc r s) (\<lambda>s.
           sched (if parent (proc_at s r) \<noteq> None
                  then set_proc r ((proc_at s r)\<lparr>pstate := ZOMBIE\<rparr>) s else s)))"

section \<open>The scheduler\<close>

definition switch_to :: "nat \<Rightarrow> 'a kproc_scheme \<Rightarrow> 'a kproc_scheme" where
  "switch_to i s =
     (let p = (pool s ! i)\<lparr>pstate := RUNNING\<rparr>
      in s\<lparr>pool := (pool s)[i := p], current_proc := Some (Pool i), curr_pid := pid p\<rparr>)"

text \<open>
  The loops of \<open>scheduler\<close> up to the next \<open>swtch\<close>, from slot \<open>i\<close> of the inner loop on, with the flag
  \<open>all_done\<close>. The result is the process that is switched to; the scheduler is resumed, when it
  gives up the processor, at the slot after it with the flag cleared.
\<close>

function sched_pick :: "nat \<Rightarrow> bool \<Rightarrow> 'a kproc_scheme \<Rightarrow> (nat \<times> 'a kproc_scheme) res" where
  "sched_pick i all_done s =
     (if i < length (pool s)
      then if pstate (pool s ! i) = RUNNABLE then Inr (i, switch_to i s)
           else sched_pick (Suc i) all_done s
      else if all_done then Inl (Panic ''all apps over'')
      else sched_pick 0 True s)"
  by pat_completeness auto
termination
  by (relation "measures [\<lambda>(i, d, s). if d then 0 else 1, \<lambda>(i, d, s). length (pool s) - i]") auto

declare sched_pick.simps [simp del]

section \<open>Creating processes\<close>

text \<open>\<open>np->files[i] = p->files[i]\<close> for every open file, from \<open>i\<close> on, \<open>n\<close> of them to go.\<close>

fun dup_loop :: "nat \<Rightarrow> nat \<Rightarrow> pref \<Rightarrow> pref \<Rightarrow> 'a kfile_scheme \<Rightarrow> 'a kfile_scheme" where
  "dup_loop 0 i p np s = s"
| "dup_loop (Suc n) i p np s =
     dup_loop n (Suc i) p np
       (case files (proc_at s p) ! i of
          None \<Rightarrow> s
        | Some f \<Rightarrow>
          if f_type (filepool s ! f) = FD_NONE then s
          else let s = upd_file f (\<lambda>x. x\<lparr>f_ref := f_ref x + 1\<rparr>) s
               in set_proc np ((proc_at s np)\<lparr>files := (files (proc_at s np))[i := Some f]\<rparr>) s)"

text \<open>
  When the table is full, \<open>np\<close> is the parent itself; when the copy of the memory fails, the child
  is left \<open>USED\<close> and its pid returned.
\<close>

definition fork :: "'a kfile_scheme \<Rightarrow> (int \<times> 'a kfile_scheme) res" where
  "fork s =
     (let p = curr_proc s
      in bindE (allocproc s) (\<lambda>(r, s).
           let np = (case r of None \<Rightarrow> curr_proc s | Some i \<Rightarrow> Pool i)
           in bindE (uvmcopy (pagetable (proc_at s p)) (pagetable (proc_at s np)) (psz (proc_at s p)) s) (\<lambda>(c, s).
                if c < 0 then Inr (pid (proc_at s np), s)
                else let s = set_proc np ((proc_at s np)\<lparr>psz := psz (proc_at s p)\<rparr>) s;
                         tf = trapframe (proc_at s np);
                         s = s\<lparr>mem := wr (mem s) tf (rd (mem s) (trapframe (proc_at s p)) 288)\<rparr>;
                         s = dup_loop 16 0 p np s;
                         s = set_tf tf tf_a0 0 s;
                         pd = pid (proc_at s np)
                     in Inr (pd, set_proc np ((proc_at s np)\<lparr>parent := Some p, pstate := RUNNABLE\<rparr>) s))))"

definition exec :: "u8 list \<Rightarrow> 'a kload_scheme \<Rightarrow> (int \<times> 'a kload_scheme) res" where
  "exec name s =
     bindE (get_id_by_name name s) (\<lambda>k.
       if k < 0 then Inr (-1, s)
       else let r = curr_proc s
       in bindE (proc_freepagetable (pagetable (proc_at s r)) (psz (proc_at s r)) s) (\<lambda>s.
          let s = set_proc r ((proc_at s r)\<lparr>psz := 0\<rparr>) s
          in bindE (proc_pagetable (trapframe (proc_at s r)) s) (\<lambda>(pt, s).
             if pt = 0 then Inl (Panic '''')
             else bindE (loader k r (set_proc r ((proc_at s r)\<lparr>pagetable := pt\<rparr>) s)) (\<lambda>s.
               Inr (0, s)))))"

text \<open>A name that is not found leaves the new process runnable, without memory.\<close>

definition spawn :: "u8 list \<Rightarrow> 'a kload_scheme \<Rightarrow> (u64 \<times> 'a kload_scheme) res" where
  "spawn name s =
     (let p = curr_proc s
      in bindE (allocproc s) (\<lambda>(r, s).
           case r of
             None \<Rightarrow> Inl (Panic ''allocproc'')
           | Some i \<Rightarrow>
             let pd = pid (pool s ! i);
                 s = s\<lparr>pool := (pool s)[i := (pool s ! i)\<lparr>parent := Some p, pstate := RUNNABLE\<rparr>]\<rparr>
             in bindE (get_id_by_name name s) (\<lambda>k.
                  if k < 0 then Inr (-1, s)
                  else bindE (loader k (Pool i) s) (\<lambda>s. Inr (of_int pd, s)))))"

section \<open>Waiting\<close>

definition is_child :: "pref \<Rightarrow> int \<Rightarrow> proc \<Rightarrow> bool" where
  "is_child p pd np \<longleftrightarrow> pstate np \<noteq> UNUSED \<and> parent np = Some p \<and> (pd \<le> 0 \<or> pid np = pd)"

text \<open>
  One scan of \<open>wait\<close>'s loop. Without an exited child the caller gives up the processor, and the
  scan starts again when it is resumed. \<open>code\<close> is the address the exit code is stored at.
\<close>

definition wait :: "int \<Rightarrow> u64 \<Rightarrow> 'a kproc_scheme \<Rightarrow> (int run \<times> 'a kproc_scheme) res" where
  "wait pd code s =
     (let p = curr_proc s
      in case find_idx (\<lambda>np. is_child p pd np \<and> pstate np = ZOMBIE) (pool s) of
           Some i \<Rightarrow>
             let np = pool s ! i; s = s\<lparr>pool := (pool s)[i := np\<lparr>pstate := UNUSED\<rparr>]\<rparr>
             in if \<not> kwritable s code 4 then Inl (Wild ''wait: store'')
                else Inr (Ret (pid np), s\<lparr>mem := store32 (mem s) code (ucast (exit_code np))\<rparr>)
         | None \<Rightarrow>
             if \<not> (\<exists>np \<in> set (pool s). is_child p pd np) then Inr (Ret (-1), s)
             else bindE (sched (set_proc p ((proc_at s p)\<lparr>pstate := RUNNABLE\<rparr>) s)) (\<lambda>s. Inr (Yield 0, s)))"

end
