(* ===== verification/Syscall.thy ===== *)
theory Syscall
  imports Lifecycle
begin

text \<open>
  The system calls, \<open>kernel/syscall.c\<close>. The devices they reach are inputs of the state: the
  characters of the console (\<open>kernel/console.c\<close>, \<open>kernel/sbi.c\<close>) and the cycle counter
  (\<open>kernel/timer.c\<close>) are sequences that are read one after the other. Stack memory that a function
  never wrote is not readable in the model, except for the padding that \<open>sys_fstat\<close> copies out,
  which is the input \<open>stack_junk\<close>.
\<close>

section \<open>State\<close>

record kdev = kload +
  con_out :: "u8 list"
  con_in :: "nat \<Rightarrow> u32"
  con_reads :: nat
  clock :: "nat \<Rightarrow> u64"
  clock_reads :: nat
  stack_junk :: "u8 list"

text \<open>
  A kernel entry returns a value, or returns without one, or gives up the processor at a point where
  the code goes on later: back to user mode, with a value, or inside a blocking call.
  \<open>KNever\<close> is the end of a process.
\<close>

datatype kcont = KUser | KRet u64 | KWrite u64 u64 u32 u32 | KRead u64 u64 u32 | KWait int u64 | KNever

datatype kresult = Done u64 | Back | Block kcont

section \<open>Console and time\<close>

definition consputc :: "u8 \<Rightarrow> 'a kdev_scheme \<Rightarrow> 'a kdev_scheme" where
  "consputc c s = s\<lparr>con_out := con_out s @ [c]\<rparr>"

definition console_getchar :: "'a kdev_scheme \<Rightarrow> u32 \<times> 'a kdev_scheme" where
  "console_getchar s = (con_in s (con_reads s), s\<lparr>con_reads := con_reads s + 1\<rparr>)"

definition get_cycle :: "'a kdev_scheme \<Rightarrow> u64 \<times> 'a kdev_scheme" where
  "get_cycle s = (clock s (clock_reads s), s\<lparr>clock_reads := clock_reads s + 1\<rparr>)"

definition get_time_ms :: "'a kdev_scheme \<Rightarrow> u64 \<times> 'a kdev_scheme" where
  "get_time_ms s = (case get_cycle s of (c, s) \<Rightarrow> (c div (12500000 div 1000), s))"

definition console_write :: "u64 \<Rightarrow> u64 \<Rightarrow> 'a kdev_scheme \<Rightarrow> (u64 \<times> 'a kdev_scheme) res" where
  "console_write va len s =
     bindE (copyinstr (pagetable (cproc s)) va (unat (if len < 200 then len else 200)) s) (\<lambda>(size, str).
       Inr (of_int size, fold consputc (take (nat size) str) s))"

fun getchars :: "nat \<Rightarrow> 'a kdev_scheme \<Rightarrow> u8 list \<times> 'a kdev_scheme" where
  "getchars 0 s = ([], s)"
| "getchars (Suc n) s =
     (case console_getchar s of (c, s) \<Rightarrow> case getchars n s of (cs, s) \<Rightarrow> (ucast c # cs, s))"

text \<open>\<open>copyout\<close> is given \<open>len\<close>, which may be more than the 200 bytes of the buffer.\<close>

definition console_read :: "u64 \<Rightarrow> u64 \<Rightarrow> 'a kdev_scheme \<Rightarrow> (u64 \<times> 'a kdev_scheme) res" where
  "console_read va len s =
     (case getchars (unat (if len < 200 then len else 200)) s of (str, s) \<Rightarrow>
        if len > 200 then Inl (Wild ''console_read: past the buffer'')
        else bindE (copyout (pagetable (cproc s)) va str s) (\<lambda>(_, s). Inr (len, s)))"

section \<open>Files\<close>

text \<open>The dereferenced pointer \<open>p->files[fd]\<close>.\<close>

definition fd_file :: "int \<Rightarrow> 'a kproc_scheme \<Rightarrow> nat res" where
  "fd_file fd s =
     (if fd < 0 \<or> fd \<ge> 16 then Inl (Wild ''files: index'')
      else case files (cproc s) ! nat fd of
             None \<Rightarrow> Inl (Wild ''files: null pointer'')
           | Some f \<Rightarrow> Inr f)"

definition returns :: "(u64 \<times> 'a) res \<Rightarrow> (kresult \<times> 'a) res" where
  "returns r = bindE r (\<lambda>(v, s). Inr (Done v, s))"

definition write_cont ::
  "u64 \<Rightarrow> u64 \<Rightarrow> u32 \<Rightarrow> (u32 run \<times> 'a kproc_scheme) res \<Rightarrow> (kresult \<times> 'a kproc_scheme) res" where
  "write_cont pi va n r =
     bindE r (\<lambda>(x, s). case x of
       Ret v \<Rightarrow> Inr (Done (scast v), s)
     | Yield w \<Rightarrow> bindE (yield s) (\<lambda>s. Inr (Block (KWrite pi va n w), s)))"

definition read_cont ::
  "u64 \<Rightarrow> u64 \<Rightarrow> u32 \<Rightarrow> (u32 run \<times> 'a kproc_scheme) res \<Rightarrow> (kresult \<times> 'a kproc_scheme) res" where
  "read_cont pi va n r =
     bindE r (\<lambda>(x, s). case x of
       Ret v \<Rightarrow> Inr (Done (scast v), s)
     | Yield w \<Rightarrow> bindE (yield s) (\<lambda>s. Inr (Block (KRead pi va n), s)))"

definition sys_write :: "int \<Rightarrow> u64 \<Rightarrow> u64 \<Rightarrow> 'a kdev_scheme \<Rightarrow> (kresult \<times> 'a kdev_scheme) res" where
  "sys_write fd va len s =
     (if fd > 15 then Inr (Done (-1), s)
      else if fd \<le> 2 then returns (console_write va len s)
      else bindE (fd_file fd s) (\<lambda>f.
        case f_type (filepool s ! f) of
          FD_PIPE \<Rightarrow> let pi = f_pipe (filepool s ! f) in write_cont pi va (ucast len) (pipewrite pi va (ucast len) s)
        | FD_INODE \<Rightarrow> returns (filewrite f va len s)
        | FD_NONE \<Rightarrow> Inl (Panic ''syswrite: unknown file type'')))"

definition sys_read :: "int \<Rightarrow> u64 \<Rightarrow> u64 \<Rightarrow> 'a kdev_scheme \<Rightarrow> (kresult \<times> 'a kdev_scheme) res" where
  "sys_read fd va len s =
     (if fd = 0 then returns (console_read va len s)
      else bindE (fd_file fd s) (\<lambda>f.
        case f_type (filepool s ! f) of
          FD_PIPE \<Rightarrow> let pi = f_pipe (filepool s ! f) in read_cont pi va (ucast len) (piperead pi va (ucast len) s)
        | FD_INODE \<Rightarrow> returns (fileread f va len s)
        | FD_NONE \<Rightarrow> Inl (Panic ''sysread: unknown file type'')))"

definition sys_openat :: "u64 \<Rightarrow> u64 \<Rightarrow> 'a kfile_scheme \<Rightarrow> (u64 \<times> 'a kfile_scheme) res" where
  "sys_openat va omode s =
     bindE (copyinstr (pagetable (cproc s)) va 200 s) (\<lambda>(_, path).
     bindE (fileopen path omode s) (\<lambda>(r, s). Inr (of_int r, s)))"

definition clear_fd :: "int \<Rightarrow> 'a kproc_scheme \<Rightarrow> 'a kproc_scheme res" where
  "clear_fd fd s =
     (if fd < 0 \<or> fd \<ge> 16 then Inl (Wild ''files: index'')
      else Inr (set_proc (curr_proc s) ((cproc s)\<lparr>files := (files (cproc s))[nat fd := None]\<rparr>) s))"

definition sys_close :: "int \<Rightarrow> 'a kfile_scheme \<Rightarrow> (u64 \<times> 'a kfile_scheme) res" where
  "sys_close fd s =
     (if fd = 0 then Inr (0, s)
      else bindE (fd_file fd s) (\<lambda>f.
           bindE (fileclose f s) (\<lambda>s.
           bindE (clear_fd fd s) (\<lambda>s. Inr (0, s)))))"

definition sys_pipe :: "u64 \<Rightarrow> 'a kfile_scheme \<Rightarrow> (u64 \<times> 'a kfile_scheme) res" where
  "sys_pipe fdarray s =
     (case filealloc s of (f0, s) \<Rightarrow> case filealloc s of (f1, s) \<Rightarrow>
      bindE (pipealloc f0 f1 s) (\<lambda>(r, s).
        if r < 0 then Inr (-1, s)
        else case fdalloc (the f0) s of (fd0, s) \<Rightarrow> case fdalloc (the f1) s of (fd1, s) \<Rightarrow>
          bindE (copyout (pagetable (cproc s)) fdarray (to_le 8 (of_int fd0 :: u64)) s) (\<lambda>(r0, s).
          bindE (if r0 < 0 then Inr (r0, s)
                 else copyout (pagetable (cproc s)) (fdarray + 8) (to_le 8 (of_int fd1 :: u64)) s) (\<lambda>(r1, s).
            if r1 < 0
            then bindE (fileclose (the f0) s) (\<lambda>s.
                 bindE (fileclose (the f1) s) (\<lambda>s.
                 bindE (clear_fd fd0 s) (\<lambda>s.
                 bindE (clear_fd fd1 s) (\<lambda>s. Inr (-1, s)))))
            else Inr (0, s)))))"

section \<open>Processes and time\<close>

definition sys_getpid :: "'a kproc_scheme \<Rightarrow> u64" where
  "sys_getpid s = of_int (pid (cproc s))"

definition sys_clone :: "'a kfile_scheme \<Rightarrow> (u64 \<times> 'a kfile_scheme) res" where
  "sys_clone s = bindE (fork s) (\<lambda>(r, s). Inr (of_int r, s))"

definition sys_exec :: "u64 \<Rightarrow> 'a kload_scheme \<Rightarrow> (u64 \<times> 'a kload_scheme) res" where
  "sys_exec va s =
     bindE (copyinstr (pagetable (cproc s)) va 200 s) (\<lambda>(_, name).
     bindE (exec name s) (\<lambda>(r, s). Inr (of_int r, s)))"

definition sys_spawn :: "u64 \<Rightarrow> 'a kload_scheme \<Rightarrow> (u64 \<times> 'a kload_scheme) res" where
  "sys_spawn va s =
     bindE (copyinstr (pagetable (cproc s)) va 200 s) (\<lambda>(_, name). spawn name s)"

definition wait_cont :: "int \<Rightarrow> u64 \<Rightarrow> (int run \<times> 'a) res \<Rightarrow> (kresult \<times> 'a) res" where
  "wait_cont pd code r =
     bindE r (\<lambda>(x, s). case x of
       Ret v \<Rightarrow> Inr (Done (of_int v), s)
     | Yield _ \<Rightarrow> Inr (Block (KWait pd code), s))"

definition sys_wait :: "int \<Rightarrow> u64 \<Rightarrow> 'a kproc_scheme \<Rightarrow> (kresult \<times> 'a kproc_scheme) res" where
  "sys_wait pd va s =
     bindE (useraddr (pagetable (cproc s)) va s) (\<lambda>code. wait_cont pd code (wait pd code s))"

definition sys_exit :: "int \<Rightarrow> 'a kfile_scheme \<Rightarrow> (kresult \<times> 'a kfile_scheme) res" where
  "sys_exit code s = bindE (exit code s) (\<lambda>s. Inr (Block KNever, s))"

definition sys_sched_yield :: "'a kproc_scheme \<Rightarrow> (kresult \<times> 'a kproc_scheme) res" where
  "sys_sched_yield s = bindE (yield s) (\<lambda>s. Inr (Block (KRet 0), s))"

definition sys_get_time :: "u64 \<Rightarrow> 'a kdev_scheme \<Rightarrow> (u64 \<times> 'a kdev_scheme) res" where
  "sys_get_time ts s =
     bindE (useraddr (pagetable (cproc s)) ts s) (\<lambda>pa.
       case get_cycle s of (c1, s) \<Rightarrow> case get_cycle s of (c2, s) \<Rightarrow> get_time c1 c2 pa s)"

definition sys_mailwrite :: "int \<Rightarrow> u64 \<Rightarrow> int \<Rightarrow> 'a kproc_scheme \<Rightarrow> (u64 \<times> 'a kproc_scheme) res" where
  "sys_mailwrite pd buf len s =
     (case get_proc pd s of
        None \<Rightarrow> Inr (-1, s)
      | Some i \<Rightarrow> bindE (mail_write i buf len s) (\<lambda>(r, s). Inr (of_int r, s)))"

definition sys_mailread :: "u64 \<Rightarrow> int \<Rightarrow> 'a kproc_scheme \<Rightarrow> (u64 \<times> 'a kproc_scheme) res" where
  "sys_mailread buf len s = bindE (mail_read buf len s) (\<lambda>(r, s). Inr (of_int r, s))"

section \<open>Memory\<close>

text \<open>\<open>while (len % 4096 != 0) len++;\<close>\<close>

lemma round_len_progress:
  assumes "(x::u64) mod 4096 \<noteq> 0"
  shows "(4096 - unat (x + 1) mod 4096) mod 4096 < (4096 - unat x mod 4096) mod 4096"
proof -
  have "unat (x mod 4096) = unat x mod 4096" by (simp add: unat_mod)
  then have m: "unat x mod 4096 \<noteq> 0" using assms by (metis unat_eq_0)
  have "unat (x + 1) mod 4096 = (unat x + 1) mod 4096"
    by (simp add: unat_word_ariths mod_mod_cancel)
  moreover have "unat x mod 4096 < 4096" by simp
  ultimately show ?thesis using m by (simp add: mod_Suc) linarith
qed

function round_len :: "u64 \<Rightarrow> u64" where
  "round_len len = (if len mod 4096 \<noteq> 0 then round_len (len + 1) else len)"
  by pat_completeness auto
termination
  by (relation "measure (\<lambda>len. (4096 - unat len mod 4096) mod 4096)") (use round_len_progress in simp_all)

declare round_len.simps [simp del]

text \<open>The loop of \<open>sys_mmap\<close> at page \<open>i\<close>, \<open>n\<close> pages to go, with the last result of \<open>mappages\<close>.\<close>

fun mmap_loop :: "nat \<Rightarrow> nat \<Rightarrow> int \<Rightarrow> u64 \<Rightarrow> u64 \<Rightarrow> u32 \<Rightarrow> 'a kmem_scheme \<Rightarrow> (int \<times> 'a kmem_scheme) res" where
  "mmap_loop 0 i r pt start perm s = Inr (r, s)"
| "mmap_loop (Suc n) i r pt start perm s =
     (case kalloc s of (pa, s) \<Rightarrow>
        bindE (mappages pt (start + of_nat i * PGSIZE) PGSIZE pa perm s) (\<lambda>(r, s).
          mmap_loop n (Suc i) r pt start perm s))"

function munmap_check :: "u64 \<Rightarrow> u64 \<Rightarrow> u64 \<Rightarrow> 'a kmem_scheme \<Rightarrow> bool res" where
  "munmap_check pt a e s =
     (if a < e
      then bindE (walk pt a False s) (\<lambda>(pte, s).
        if pte = 0 then Inl (Wild ''sys_munmap: null pointer'')
        else if load64 (mem s) pte AND PTE_V = 0 then Inr False
        else munmap_check pt (a + PGSIZE) e s)
      else Inr True)"
  by pat_completeness auto
termination
  by (relation "measure (\<lambda>(pt, a, e, s). 2 ^ 64 - unat a)")
    (auto dest!: walk_below_MAXVA simp: unat_word_ariths)

declare munmap_check.simps [simp del]

text \<open>The permission bits: \<open>port << 1\<close> with \<open>PTE_U\<close> and \<open>PTE_V\<close>.\<close>

definition sys_mmap :: "u64 \<Rightarrow> u64 \<Rightarrow> u64 \<Rightarrow> 'a kproc_scheme \<Rightarrow> (u64 \<times> 'a kproc_scheme) res" where
  "sys_mmap start len port s =
     (if port < 1 \<or> port > 7 then Inr (-1, s)
      else let len = round_len len
      in if start mod 4096 \<noteq> 0 then Inr (-1, s)
         else bindE (mmap_loop (unat (len div PGSIZE)) 0 0 (pagetable (cproc s)) start
                       (ucast (push_bit 1 port OR 16 OR 1)) s) (\<lambda>(r, s).
           Inr (if r = 0 then len else -1, s)))"

definition sys_munmap :: "u64 \<Rightarrow> u64 \<Rightarrow> 'a kproc_scheme \<Rightarrow> (u64 \<times> 'a kproc_scheme) res" where
  "sys_munmap start len s =
     (if start mod 4096 \<noteq> 0 then Inr (-1, s)
      else let len = round_len len; n = len div PGSIZE
      in bindE (munmap_check (pagetable (cproc s)) start (start + n * PGSIZE) s) (\<lambda>ok.
           if \<not> ok then Inr (-1, s)
           else bindE (uvmunmap (pagetable (cproc s)) start n True s) (\<lambda>s. Inr (len, s))))"

section \<open>Links\<close>

definition sys_linkat :: "u64 \<Rightarrow> u64 \<Rightarrow> 'a kfs_scheme \<Rightarrow> (u64 \<times> 'a kfs_scheme) res" where
  "sys_linkat uold unew s =
     bindE (copyin (pagetable (cproc s)) uold 14 s) (\<lambda>(_, oldpath).
     bindE (copyin (pagetable (cproc s)) unew 14 s) (\<lambda>(_, newpath).
     bindE (root_dir s) (\<lambda>(dp, s).
     bindE (strncmp oldpath newpath DIRSIZ) (\<lambda>c.
       if c = 0 then Inr (-1, s)
       else bindE (dirlookup dp oldpath s) (\<lambda>(r, s).
         case r of
           None \<Rightarrow> Inr (-1, s)
         | Some (ip, _) \<Rightarrow>
           bindE (dirlink dp newpath (i_inum (itable s ! ip)) s) (\<lambda>(r, s).
             Inr (if r < 0 then -1 else 0, s)))))))"

definition sys_unlinkat :: "u64 \<Rightarrow> 'a kfs_scheme \<Rightarrow> (u64 \<times> 'a kfs_scheme) res" where
  "sys_unlinkat upath s =
     bindE (copyin (pagetable (cproc s)) upath 14 s) (\<lambda>(_, path).
     bindE (root_dir s) (\<lambda>(dp, s).
     bindE (dirlookup dp path s) (\<lambda>(r, s).
       if r = None then Inr (-1, s)
       else bindE (dirunlink dp path s) (\<lambda>(r, s). Inr (if r < 0 then -1 else 0, s)))))"

text \<open>The loop of \<open>sys_fstat\<close> that counts the entries of an inode; \<open>None\<close> is its early return.\<close>

function count_links :: "nat \<Rightarrow> nat option \<Rightarrow> u32 \<Rightarrow> u32 \<Rightarrow> 'a kfs_scheme \<Rightarrow> (u32 option \<times> 'a kfs_scheme) res" where
  "count_links dp p off nlink s =
     (if off < i_size (itable s ! dp)
      then bindE (readi dp False 0 off 16 s) (\<lambda>(r, de, s').
        if r \<noteq> 16 then Inr (None, s')
        else case p of
          None \<Rightarrow> Inl (Wild ''sys_fstat: null pointer'')
        | Some ip \<Rightarrow>
          count_links dp p (off + 16) (if ucast (de_inum de) = i_inum (itable s' ! ip) then nlink + 1 else nlink) s')
      else Inr (Some nlink, s))"
  by pat_completeness auto
termination
  by (relation "measure (\<lambda>(dp, p, off, n, s). unat (i_size (itable s ! dp)) - unat off)")
    (auto dest: readi_entry)

declare count_links.simps [simp del]

text \<open>\<open>struct Stat\<close>: 80 bytes, the last 56 of them never written by the kernel.\<close>

definition stat_bytes :: "u32 \<Rightarrow> u32 \<Rightarrow> u32 \<Rightarrow> u32 \<Rightarrow> u8 list \<Rightarrow> u8 list" where
  "stat_bytes dev ino mode nlink junk =
     to_le 8 (ucast dev :: u64) @ to_le 8 (ucast ino :: u64) @ to_le 4 mode @ to_le 4 nlink @ take 56 junk"

definition sys_fstat :: "u64 \<Rightarrow> u64 \<Rightarrow> 'a kdev_scheme \<Rightarrow> (u64 \<times> 'a kdev_scheme) res" where
  "sys_fstat fd st s =
     (if fd \<ge> 16 then Inr (-1, s)
      else bindE (root_dir s) (\<lambda>(dp, s).
           bindE (fd_file (uint fd) s) (\<lambda>f.
           let p = f_ip (filepool s ! f)
           in bindE (count_links dp p 0 0 s) (\<lambda>(r, s).
             case r of
               None \<Rightarrow> Inr (-1, s)
             | Some nlink \<Rightarrow>
               (case p of
                  None \<Rightarrow> Inl (Wild ''sys_fstat: null pointer'')
                | Some ip \<Rightarrow>
                  let x = itable s ! ip
                  in if i_type x \<noteq> T_DIR \<and> i_type x \<noteq> T_FILE then Inr (-1, s)
                     else bindE (copyout (pagetable (cproc s)) st
                            (stat_bytes (i_dev x) (i_inum x) (if i_type x = T_DIR then 0x040000 else 0x100000)
                               nlink (stack_junk s)) s) (\<lambda>(c, s).
                       Inr (if c < 0 then -1 else 0, s)))))))"

section \<open>Dispatch\<close>

text \<open>The numbers of \<open>kernel/syscall_ids.h\<close> that the dispatcher knows.\<close>

datatype sysid =
  SYS_unlinkat | SYS_linkat | SYS_openat | SYS_close | SYS_pipe2 | SYS_read | SYS_write | SYS_fstat | SYS_exit
| SYS_sched_yield | SYS_setpriority | SYS_times | SYS_gettimeofday | SYS_getpid | SYS_munmap | SYS_clone
| SYS_execve | SYS_mmap | SYS_wait4 | SYS_spawn | SYS_mailread | SYS_mailwrite

definition sysids :: "(int \<times> sysid) list" where
  "sysids = [(35, SYS_unlinkat), (37, SYS_linkat), (56, SYS_openat), (57, SYS_close), (59, SYS_pipe2), (63, SYS_read),
     (64, SYS_write), (80, SYS_fstat), (93, SYS_exit), (124, SYS_sched_yield), (140, SYS_setpriority), (153, SYS_times),
     (169, SYS_gettimeofday), (172, SYS_getpid), (215, SYS_munmap), (220, SYS_clone), (221, SYS_execve), (222, SYS_mmap),
     (260, SYS_wait4), (400, SYS_spawn), (401, SYS_mailread), (402, SYS_mailwrite)]"

definition as_int :: "u64 \<Rightarrow> int" where
  "as_int v = sint (ucast v :: u32)"

text \<open>\<open>SYS_spawn\<close> has no \<open>break\<close>: the code goes on with the case of \<open>SYS_mailread\<close>.\<close>

definition dispatch :: "sysid \<Rightarrow> u64 list \<Rightarrow> 'a kdev_scheme \<Rightarrow> (kresult \<times> 'a kdev_scheme) res" where
  "dispatch k a s =
     (case k of
        SYS_write \<Rightarrow> sys_write (as_int (a ! 0)) (a ! 1) (a ! 2) s
      | SYS_read \<Rightarrow> sys_read (as_int (a ! 0)) (a ! 1) (a ! 2) s
      | SYS_openat \<Rightarrow> returns (sys_openat (a ! 0) (a ! 1) s)
      | SYS_close \<Rightarrow> returns (sys_close (as_int (a ! 0)) s)
      | SYS_exit \<Rightarrow> sys_exit (as_int (a ! 0)) s
      | SYS_sched_yield \<Rightarrow> sys_sched_yield s
      | SYS_getpid \<Rightarrow> Inr (Done (sys_getpid s), s)
      | SYS_clone \<Rightarrow> returns (sys_clone s)
      | SYS_execve \<Rightarrow> returns (sys_exec (a ! 0) s)
      | SYS_wait4 \<Rightarrow> sys_wait (as_int (a ! 0)) (a ! 1) s
      | SYS_times \<Rightarrow> returns (Inr (get_time_ms s))
      | SYS_pipe2 \<Rightarrow> returns (sys_pipe (a ! 0) s)
      | SYS_setpriority \<Rightarrow> returns (Inr (set_priority (as_int (a ! 0)) s))
      | SYS_gettimeofday \<Rightarrow> returns (sys_get_time (a ! 0) s)
      | SYS_mmap \<Rightarrow> returns (sys_mmap (a ! 0) (a ! 1) (a ! 2) s)
      | SYS_munmap \<Rightarrow> returns (sys_munmap (a ! 0) (a ! 1) s)
      | SYS_spawn \<Rightarrow> bindE (sys_spawn (a ! 0) s) (\<lambda>(_, s). returns (sys_mailread (a ! 0) (as_int (a ! 1)) s))
      | SYS_mailread \<Rightarrow> returns (sys_mailread (a ! 0) (as_int (a ! 1)) s)
      | SYS_mailwrite \<Rightarrow> returns (sys_mailwrite (as_int (a ! 0)) (a ! 1) (as_int (a ! 2)) s)
      | SYS_linkat \<Rightarrow> returns (sys_linkat (a ! 1) (a ! 3) s)
      | SYS_fstat \<Rightarrow> returns (sys_fstat (a ! 0) (a ! 1) s)
      | SYS_unlinkat \<Rightarrow> returns (sys_unlinkat (a ! 1) s))"

text \<open>\<open>ret\<close> is an \<open>int\<close>; storing it in \<open>a0\<close> sign-extends it.\<close>

definition set_ret :: "u64 \<Rightarrow> kresult \<Rightarrow> 'a kmem_scheme \<Rightarrow> 'a kmem_scheme" where
  "set_ret tf r s = (case r of Done v \<Rightarrow> set_tf tf tf_a0 (of_int (as_int v)) s | _ \<Rightarrow> s)"

definition syscall :: "'a kdev_scheme \<Rightarrow> (kresult \<times> 'a kdev_scheme) res" where
  "syscall s =
     (let tf = trapframe (cproc s);
          k = as_int (load64 (mem s) (tf + tf_a7));
          a = map (\<lambda>i. load64 (mem s) (tf + tf_a0 + 8 * of_nat i)) [0..<7]
      in bindE (case map_of sysids k of None \<Rightarrow> Inr (Done (-1), s) | Some c \<Rightarrow> dispatch c a s) (\<lambda>(r, s).
           Inr (r, set_ret tf r s)))"

text \<open>What the kernel goes on with when a process that gave up the processor is switched to again.\<close>

definition resume :: "kcont \<Rightarrow> 'a kdev_scheme \<Rightarrow> (kresult \<times> 'a kdev_scheme) res" where
  "resume k s =
     bindE (case k of
              KUser \<Rightarrow> Inr (Back, s)
            | KRet v \<Rightarrow> Inr (Done v, s)
            | KWrite pi va n w \<Rightarrow> write_cont pi va n (pipewrite_loop pi (pagetable (cproc s)) va n w s)
            | KRead pi va n \<Rightarrow> read_cont pi va n (piperead pi va n s)
            | KWait pd code \<Rightarrow> wait_cont pd code (wait pd code s)
            | KNever \<Rightarrow> Inl (Wild ''resume: ended process''))
       (\<lambda>(r, s). Inr (r, set_ret (trapframe (cproc s)) r s))"

end
