(* ===== verification/Virtio.thy ===== *)
theory Virtio
  imports Cache
begin

text \<open>
  The disk driver, \<open>kernel/virtio_disk.c\<close> with the structures of \<open>kernel/virtio.h\<close>. The state is
  \<open>struct disk\<close>; addresses the driver hands to the device are named by what they point to. The
  device itself is not part of the sources: it is a parameter, one step of it at a time, with
  the behaviour the virtio specification documents as a hypothesis of the theorems.
\<close>

section \<open>State\<close>

datatype daddr = Null | OpsAt nat | DataAt nat | StatusAt nat

record virtq_desc =
  d_addr :: daddr
  d_len :: u32
  d_flags :: u16
  d_next :: u16

record virtio_blk_req =
  r_type :: u32
  r_reserved :: u32
  r_sector :: u64

record vdisk =
  desc :: "virtq_desc list"
  avail_idx :: u16
  avail_ring :: "u16 list"
  used_dev_idx :: u16
  used_ring :: "u32 list"
  vfree :: "bool list"
  used_idx :: u16
  info_b :: "nat option list"
  info_status :: "u8 list"
  ops :: "virtio_blk_req list"
  mmio :: "u32 \<Rightarrow> u32"

abbreviation (input) NUM :: nat where "NUM \<equiv> 8"
abbreviation (input) F_NEXT :: u16 where "F_NEXT \<equiv> 1"
abbreviation (input) F_WRITE :: u16 where "F_WRITE \<equiv> 2"

definition desc0 :: virtq_desc where
  "desc0 = \<lparr>d_addr = Null, d_len = 0, d_flags = 0, d_next = 0\<rparr>"

section \<open>Initialisation\<close>

definition wreg :: "u32 \<Rightarrow> u32 \<Rightarrow> vdisk \<Rightarrow> vdisk" where
  "wreg r v d = d\<lparr>mmio := (mmio d)(r := v)\<rparr>"

definition virtio_features :: "u32 \<Rightarrow> u32" where
  "virtio_features f = f AND NOT (push_bit 5 1) AND NOT (push_bit 7 1) AND NOT (push_bit 11 1) AND NOT (push_bit 12 1)
     AND NOT (push_bit 27 1) AND NOT (push_bit 29 1) AND NOT (push_bit 28 1)"

text \<open>\<open>pages\<close> is the address of \<open>disk.pages\<close>, two pages that are cleared.\<close>

definition virtio_disk_init :: "u64 \<Rightarrow> vdisk \<Rightarrow> vdisk res" where
  "virtio_disk_init pages d =
     (if mmio d 0x000 \<noteq> 0x74726976 \<or> mmio d 0x004 \<noteq> 1 \<or> mmio d 0x008 \<noteq> 2 \<or> mmio d 0x00c \<noteq> 0x554d4551
      then Inl (Panic ''could not find virtio disk'')
      else let d = wreg 0x070 1 d;
               d = wreg 0x070 (1 OR 2) d;
               d = wreg 0x020 (virtio_features (mmio d 0x010)) d;
               d = wreg 0x070 (1 OR 2 OR 8) d;
               d = wreg 0x070 (1 OR 2 OR 8 OR 4) d;
               d = wreg 0x028 4096 d;
               d = wreg 0x030 0 d;
               mx = mmio d 0x034
      in if mx = 0 then Inl (Panic ''virtio disk has no queue 0'')
         else if mx < 8 then Inl (Panic ''virtio disk max queue too short'')
         else let d = wreg 0x038 8 d;
                  d = d\<lparr>desc := replicate NUM desc0, avail_idx := 0, avail_ring := replicate NUM 0,
                        used_dev_idx := 0, used_ring := replicate NUM 0\<rparr>;
                  d = wreg 0x040 (ucast (drop_bit 12 pages)) d
              in Inr (d\<lparr>vfree := replicate NUM True\<rparr>))"

section \<open>Descriptors\<close>

definition alloc_desc :: "vdisk \<Rightarrow> nat option \<times> vdisk" where
  "alloc_desc d =
     (case find_idx (\<lambda>f. f) (vfree d) of
        Some i \<Rightarrow> (Some i, d\<lparr>vfree := (vfree d)[i := False]\<rparr>)
      | None \<Rightarrow> (None, d))"

definition free_desc :: "nat \<Rightarrow> vdisk \<Rightarrow> vdisk res" where
  "free_desc i d =
     (if i \<ge> NUM then Inl (Panic ''free_desc 1'')
      else if vfree d ! i then Inl (Panic ''free_desc 2'')
      else Inr (d\<lparr>desc := (desc d)[i := desc0], vfree := (vfree d)[i := True]\<rparr>))"

text \<open>
  A chain longer than the number of descriptors meets a freed one and panics: nine rounds are enough.
\<close>

fun free_chain :: "nat \<Rightarrow> nat \<Rightarrow> vdisk \<Rightarrow> vdisk res" where
  "free_chain 0 i d = Inl (Wild ''free_chain: endless chain'')"
| "free_chain (Suc n) i d =
     (let flag = d_flags (desc d ! i); nxt = unat (d_next (desc d ! i))
      in bindE (free_desc i d) (\<lambda>d.
           if flag AND F_NEXT \<noteq> 0 then free_chain n nxt d else Inr d))"

definition alloc3_desc :: "vdisk \<Rightarrow> ((nat \<times> nat \<times> nat) option \<times> vdisk) res" where
  "alloc3_desc d =
     (case alloc_desc d of
        (None, d) \<Rightarrow> Inr (None, d)
      | (Some i, d) \<Rightarrow>
        (case alloc_desc d of
           (None, d) \<Rightarrow> bindE (free_desc i d) (\<lambda>d. Inr (None, d))
         | (Some j, d) \<Rightarrow>
           (case alloc_desc d of
              (None, d) \<Rightarrow> bindE (free_desc i d) (\<lambda>d. bindE (free_desc j d) (\<lambda>d. Inr (None, d)))
            | (Some k, d) \<Rightarrow> Inr (Some (i, j, k), d))))"

section \<open>A request\<close>

definition upd_desc :: "nat \<Rightarrow> virtq_desc \<Rightarrow> vdisk \<Rightarrow> vdisk" where
  "upd_desc i x d = d\<lparr>desc := (desc d)[i := x]\<rparr>"

definition submit :: "nat \<Rightarrow> u32 \<Rightarrow> bool \<Rightarrow> nat \<times> nat \<times> nat \<Rightarrow> vdisk \<Rightarrow> vdisk" where
  "submit b blockno write idx d =
     (case idx of (i, j, k) \<Rightarrow>
      let d = d\<lparr>ops := (ops d)[i := \<lparr>r_type = (if write then 1 else 0), r_reserved = 0,
                                   r_sector = ucast (blockno * (1024 div 512))\<rparr>]\<rparr>;
          d = upd_desc i \<lparr>d_addr = OpsAt i, d_len = 16, d_flags = F_NEXT, d_next = of_nat j\<rparr> d;
          d = upd_desc j \<lparr>d_addr = DataAt b, d_len = 1024, d_flags = (if write then 0 else F_WRITE) OR F_NEXT,
                          d_next = of_nat k\<rparr> d;
          d = d\<lparr>info_status := (info_status d)[i := 0xfb]\<rparr>;
          d = upd_desc k \<lparr>d_addr = StatusAt i, d_len = 1, d_flags = F_WRITE, d_next = 0\<rparr> d;
          d = d\<lparr>info_b := (info_b d)[i := Some b]\<rparr>;
          d = d\<lparr>avail_ring := (avail_ring d)[unat (avail_idx d mod 8) := of_nat i]\<rparr>;
          d = d\<lparr>avail_idx := avail_idx d + 1\<rparr>
      in wreg 0x050 0 d)"

lemma word_dec_less: "(x :: 'a::len word) \<noteq> y \<Longrightarrow> unat (y - (x + 1)) < unat (y - x)"
proof -
  assume "x \<noteq> y"
  then have "y - x \<noteq> 0" by simp
  then have "unat (y - x - 1) < unat (y - x)"
    by (metis unat_minus_one unat_gt_0 diff_less zero_less_one)
  then show ?thesis by (simp add: diff_diff_eq)
qed

text \<open>
  The interrupt handler takes the completed requests off the used ring, at most 65535 of them.
\<close>

function intr_loop :: "'a kdisk_scheme \<times> vdisk \<Rightarrow> ('a kdisk_scheme \<times> vdisk) res" where
  "intr_loop (s, d) =
     (if used_idx d \<noteq> used_dev_idx d
      then let i = unat (used_ring d ! unat (used_idx d mod 8))
      in if i \<ge> NUM then Inl (Wild ''virtio_disk_intr: index'')
         else if info_status d ! i \<noteq> 0 then Inl (Panic ''virtio_disk_intr status'')
         else (case info_b d ! i of
                 None \<Rightarrow> Inl (Wild ''virtio_disk_intr: null pointer'')
               | Some b \<Rightarrow> intr_loop (upd_buf b (\<lambda>x. x\<lparr>b_disk := False\<rparr>) s, d\<lparr>used_idx := used_idx d + 1\<rparr>))
      else Inr (s, d))"
  by pat_completeness auto

termination
  by (relation "measure (\<lambda>(s, d). unat (used_dev_idx d - used_idx d))") (auto intro: word_dec_less)

declare intr_loop.simps [simp del]

definition virtio_disk_intr :: "'a kdisk_scheme \<times> vdisk \<Rightarrow> ('a kdisk_scheme \<times> vdisk) res" where
  "virtio_disk_intr sd = (case sd of (s, d) \<Rightarrow> intr_loop (s, wreg 0x064 (mmio d 0x060 AND 0x3) d))"

text \<open>
  \<open>while (_b->disk == 1)\<close> with interrupts enabled: in round \<open>t\<close> the device makes the step \<open>dev t\<close>,
  after which it may raise its interrupt. The fuel is the number of rounds; the C loop has none.
\<close>

type_synonym 'a device = "nat \<Rightarrow> 'a kdisk_scheme \<times> vdisk \<Rightarrow> ('a kdisk_scheme \<times> vdisk) \<times> bool"

fun wait_loop ::
  "'a device \<Rightarrow> nat \<Rightarrow> nat \<Rightarrow> nat \<Rightarrow> 'a kdisk_scheme \<times> vdisk \<Rightarrow> ('a kdisk_scheme \<times> vdisk) option res" where
  "wait_loop dev t 0 b sd = Inr (if b_disk (bufs (fst sd) ! b) then None else Some sd)"
| "wait_loop dev t (Suc n) b sd =
     (if \<not> b_disk (bufs (fst sd) ! b) then Inr (Some sd)
      else (case dev t sd of (sd, irq) \<Rightarrow>
        bindE (if irq then virtio_disk_intr sd else Inr sd) (wait_loop dev (Suc t) n b)))"

text \<open>
  \<open>None\<close>: the fuel is used up, or no descriptors are free, where the code yields.
\<close>

definition virtio_disk_rw ::
  "'a device \<Rightarrow> nat \<Rightarrow> nat \<Rightarrow> bool \<Rightarrow> 'a kdisk_scheme \<times> vdisk \<Rightarrow> ('a kdisk_scheme \<times> vdisk) option res" where
  "virtio_disk_rw dev n b write sd =
     (case sd of (s, d) \<Rightarrow>
      bindE (alloc3_desc d) (\<lambda>(r, d). case r of
        None \<Rightarrow> Inr None
      | Some idx \<Rightarrow>
        bindE (wait_loop dev 0 n b
                 (upd_buf b (\<lambda>x. x\<lparr>b_disk := True\<rparr>) s, submit b (b_blockno (bufs s ! b)) write idx d)) (\<lambda>r.
          case r of
            None \<Rightarrow> Inr None
          | Some (s, d) \<Rightarrow>
            let i = fst idx
            in bindE (free_chain (Suc NUM) i (d\<lparr>info_b := (info_b d)[i := None]\<rparr>)) (\<lambda>d. Inr (Some (s, d))))))"

end
