(* ===== verification/Trap.thy ===== *)
theory Trap
  imports Syscall Virtio
begin

text \<open>
  Traps and start-up: \<open>kernel/trap.c\<close>, \<open>kernel/timer.c\<close>, \<open>kernel/plic.c\<close>, \<open>kernel/main.c\<close> and
  \<open>kvminit\<close> of \<open>kernel/vm.c\<close>. The control registers of \<open>kernel/riscv.h\<close> are fields of the state.
  The assembly of the trampoline is not modelled: \<open>usertrapret\<close> ends with the address it jumps to
  and the two arguments.
\<close>

section \<open>State\<close>

record csrs =
  sstatus :: u64
  sie :: u64
  stvec :: u64
  sepc :: u64
  scause :: u64
  satp :: u64
  tp :: u64

text \<open>The last six fields are addresses the linker fixes.\<close>

record ktrap = kdev +
  csr :: csrs
  vd :: vdisk
  plic :: "u64 \<Rightarrow> u32"
  timecmp :: u64
  kernel_pagetable :: u64
  uservec :: u64
  userret :: u64
  kernelvec :: u64
  usertrap_fn :: u64
  disk_pages :: u64
  bss :: "u64 \<times> u64"

definition set_csr :: "(csrs \<Rightarrow> csrs) \<Rightarrow> 'a ktrap_scheme \<Rightarrow> 'a ktrap_scheme" where
  "set_csr f s = s\<lparr>csr := f (csr s)\<rparr>"

abbreviation (input) SSTATUS_SPP :: u64 where "SSTATUS_SPP \<equiv> push_bit 8 1"
abbreviation (input) SSTATUS_SPIE :: u64 where "SSTATUS_SPIE \<equiv> push_bit 5 1"

definition MAKE_SATP :: "u64 \<Rightarrow> u64" where
  "MAKE_SATP pt = push_bit 60 8 OR drop_bit 12 pt"

section \<open>Vectors, timer, interrupt controller\<close>

definition set_usertrap :: "'a ktrap_scheme \<Rightarrow> 'a ktrap_scheme" where
  "set_usertrap s = set_csr (\<lambda>c. c\<lparr>stvec := (TRAMPOLINE + (uservec s - trampoline s)) AND NOT 0x3\<rparr>) s"

definition set_kerneltrap :: "'a ktrap_scheme \<Rightarrow> 'a ktrap_scheme" where
  "set_kerneltrap s = set_csr (\<lambda>c. c\<lparr>stvec := kernelvec s AND NOT 0x3\<rparr>) s"

definition trapinit :: "'a ktrap_scheme \<Rightarrow> 'a ktrap_scheme" where
  "trapinit s = set_csr (\<lambda>c. c\<lparr>sie := sie c OR (push_bit 9 1 OR push_bit 5 1 OR push_bit 1 1)\<rparr>) (set_kerneltrap s)"

definition set_next_timer :: "'a ktrap_scheme \<Rightarrow> 'a ktrap_scheme" where
  "set_next_timer s = (case get_cycle s of (c, s) \<Rightarrow> s\<lparr>timecmp := c + 12500000 div 100\<rparr>)"

definition timerinit :: "'a ktrap_scheme \<Rightarrow> 'a ktrap_scheme" where
  "timerinit s = set_next_timer (set_csr (\<lambda>c. c\<lparr>sie := sie c OR push_bit 5 1\<rparr>) s)"

definition plic_write :: "u64 \<Rightarrow> u32 \<Rightarrow> 'a ktrap_scheme \<Rightarrow> 'a ktrap_scheme" where
  "plic_write a v s = s\<lparr>plic := (plic s)(a := v)\<rparr>"

definition plicinit :: "'a ktrap_scheme \<Rightarrow> 'a ktrap_scheme" where
  "plicinit s =
     plic_write (PLIC + 0x201000) 0 (plic_write (PLIC + 0x2080) (push_bit 1 1) (plic_write (PLIC + 1 * 4) 1 s))"

text \<open>Reading the claim register is an access to the device: its value is an input.\<close>

definition plic_claim :: "'a ktrap_scheme \<Rightarrow> u32" where
  "plic_claim s = plic s (PLIC + 0x201004)"

definition plic_complete :: "u32 \<Rightarrow> 'a ktrap_scheme \<Rightarrow> 'a ktrap_scheme" where
  "plic_complete irq s = plic_write (PLIC + 0x201004) irq s"

section \<open>Interrupts and exceptions\<close>

definition unknown_trap :: "'a kfile_scheme \<Rightarrow> (kresult \<times> 'a kfile_scheme) res" where
  "unknown_trap s = sys_exit (-1) s"

text \<open>The enumerations of \<open>kernel/trap.h\<close>.\<close>

datatype exc =
  InstructionMisaligned | InstructionFault | IllegalInstruction | Breakpoint | LoadMisaligned | LoadFault
| StoreMisaligned | StoreFault | UserEnvCall | SupervisorEnvCall | MachineEnvCall | InstructionPageFault
| LoadPageFault | StorePageFault

datatype interrupt = UserSoft | SupervisorSoft | UserTimer | SupervisorTimer | UserExternal | SupervisorExternal

definition exc_codes :: "(u64 \<times> exc) list" where
  "exc_codes = [(0, InstructionMisaligned), (1, InstructionFault), (2, IllegalInstruction), (3, Breakpoint),
     (4, LoadMisaligned), (5, LoadFault), (6, StoreMisaligned), (7, StoreFault), (8, UserEnvCall),
     (9, SupervisorEnvCall), (11, MachineEnvCall), (12, InstructionPageFault), (13, LoadPageFault),
     (15, StorePageFault)]"

definition int_codes :: "(u64 \<times> interrupt) list" where
  "int_codes = [(0, UserSoft), (1, SupervisorSoft), (4, UserTimer), (5, SupervisorTimer), (8, UserExternal),
     (9, SupervisorExternal)]"

definition disk_intr :: "'a ktrap_scheme \<Rightarrow> 'a ktrap_scheme res" where
  "disk_intr s = bindE (virtio_disk_intr (s, vd s)) (\<lambda>(s, d). Inr (s\<lparr>vd := d\<rparr>))"

definition devintr :: "u64 \<Rightarrow> 'a ktrap_scheme \<Rightarrow> (kresult \<times> 'a ktrap_scheme) res" where
  "devintr cause s =
     (case map_of int_codes cause of
        Some SupervisorTimer \<Rightarrow>
          let s = set_next_timer s
          in if sstatus (csr s) AND SSTATUS_SPP = 0
             then bindE (yield s) (\<lambda>s. Inr (Block KUser, s))
             else Inr (Back, s)
      | Some SupervisorExternal \<Rightarrow>
          let irq = plic_claim s
          in bindE (if irq = 10 then Inr s else if irq = 1 then disk_intr s else Inr s) (\<lambda>s.
               Inr (Back, if irq \<noteq> 0 then plic_complete irq s else s))
      | _ \<Rightarrow> unknown_trap s)"

definition usertrapret :: "'a ktrap_scheme \<Rightarrow> (u64 \<times> u64 \<times> u64) \<times> 'a ktrap_scheme" where
  "usertrapret s =
     (let s = set_usertrap s;
          tf = trapframe (cproc s);
          s = set_tf tf 0 (satp (csr s)) s;
          s = set_tf tf 8 (kstack (cproc s) + PGSIZE) s;
          s = set_tf tf 16 (usertrap_fn s) s;
          s = set_tf tf 32 (tp (csr s)) s;
          s = set_csr (\<lambda>c. c\<lparr>sepc := load64 (mem s) (tf + tf_epc)\<rparr>) s;
          s = set_csr (\<lambda>c. c\<lparr>sstatus := sstatus c AND NOT SSTATUS_SPP OR SSTATUS_SPIE\<rparr>) s
      in ((TRAMPOLINE + (userret s - trampoline s), TRAPFRAME, MAKE_SATP (pagetable (cproc s))), s))"

text \<open>How a kernel entry ends: in user mode, or with another process to be scheduled.\<close>

datatype kend = ToUser "u64 \<times> u64 \<times> u64" | Blocked kcont

definition kexit :: "kresult \<times> 'a ktrap_scheme \<Rightarrow> kend \<times> 'a ktrap_scheme" where
  "kexit rs = (case rs of (r, s) \<Rightarrow> case r of
     Block k \<Rightarrow> (Blocked k, s)
   | _ \<Rightarrow> (case usertrapret s of (j, s) \<Rightarrow> (ToUser j, s)))"

definition usertrap :: "'a ktrap_scheme \<Rightarrow> (kend \<times> 'a ktrap_scheme) res" where
  "usertrap s =
     (let s = set_kerneltrap s; tf = trapframe (cproc s); cause = scause (csr s)
      in if sstatus (csr s) AND SSTATUS_SPP \<noteq> 0 then Inl (Panic ''usertrap: not from user mode'')
         else bindE
           (if cause AND push_bit 63 1 \<noteq> 0 then devintr (cause AND 0xff) s
            else (case map_of exc_codes cause of
                Some UserEnvCall \<Rightarrow> syscall (set_tf tf tf_epc (load64 (mem s) (tf + tf_epc) + 4) s)
              | Some StoreFault \<Rightarrow> sys_exit (-2) s
              | Some StorePageFault \<Rightarrow> sys_exit (-2) s
              | Some InstructionFault \<Rightarrow> sys_exit (-2) s
              | Some InstructionPageFault \<Rightarrow> sys_exit (-2) s
              | Some LoadFault \<Rightarrow> sys_exit (-2) s
              | Some LoadPageFault \<Rightarrow> sys_exit (-2) s
              | Some IllegalInstruction \<Rightarrow> sys_exit (-3) s
              | _ \<Rightarrow> unknown_trap s))
           (\<lambda>r. Inr (kexit r)))"

definition kerneltrap :: "'a ktrap_scheme \<Rightarrow> (kresult \<times> 'a ktrap_scheme) res" where
  "kerneltrap s =
     (let pc = sepc (csr s); st = sstatus (csr s); cause = scause (csr s)
      in if st AND SSTATUS_SPP = 0 then Inl (Panic ''kerneltrap: not from supervisor mode'')
         else bindE (if cause AND push_bit 63 1 \<noteq> 0 then devintr (cause AND 0xff) s else sys_exit (-1) s) (\<lambda>(r, s).
           Inr (r, set_csr (\<lambda>c. c\<lparr>sepc := pc, sstatus := st\<rparr>) s)))"

section \<open>Start-up\<close>

definition kvminit :: "'a ktrap_scheme \<Rightarrow> 'a ktrap_scheme res" where
  "kvminit s =
     bindE (kvmmake (e_text s) (trampoline s) s) (\<lambda>(pt, s).
       Inr (set_csr (\<lambda>c. c\<lparr>satp := MAKE_SATP pt\<rparr>) (s\<lparr>kernel_pagetable := pt\<rparr>)))"

definition clean_bss :: "'a ktrap_scheme \<Rightarrow> 'a ktrap_scheme" where
  "clean_bss s =
     (case bss s of (b, e) \<Rightarrow> s\<lparr>mem := (\<lambda>a. if b \<le> a \<and> a < e then 0 else mem s a)\<rparr>)"

text \<open>
  \<open>main\<close> up to the first switch to a process. The structured objects of the static memory are
  fields of the state, cleared already when \<open>main\<close> starts.
\<close>

definition main :: "u64 list \<Rightarrow> u8 list \<Rightarrow> 'a ktrap_scheme \<Rightarrow> (nat \<times> 'a ktrap_scheme) res" where
  "main app_array app_names s =
     (let s = plicinit (trapinit (clean_bss s))
      in bindE (kinit s) (\<lambda>s.
         bindE (kvminit (procinit s)) (\<lambda>s.
         bindE (batchinit app_array app_names s) (\<lambda>s.
         let s = binit (plicinit s)
         in bindE (virtio_disk_init (disk_pages s) (vd s)) (\<lambda>d.
            bindE (fsinit (s\<lparr>vd := d\<rparr>)) (\<lambda>s.
            bindE (run_all_app (timerinit s)) (\<lambda>s.
              sched_pick 0 True s)))))))"

end
