(* ===== verification/Mkfs.thy ===== *)
theory Mkfs
  imports Fs
begin

text \<open>
  The tool that makes the disk image, \<open>nfs/fs.c\<close>. The image is a map from block numbers to blocks;
  the calls of the host that read and write the image file are taken to succeed. The files to be
  added are given by their names and the chunks that \<open>read\<close> returns, each of 1 to 1024 bytes.
\<close>

section \<open>State\<close>

record mkfs =
  img :: "u32 \<Rightarrow> u8 list"
  m_sb :: superblock
  freeinode :: u32
  freeblock :: u32

definition ninodeblocks :: u32 where "ninodeblocks = 200 div 16 + 1"
definition nbitmap :: u32 where "nbitmap = 1000 div (1024 * 8) + 1"
definition nmeta :: u32 where "nmeta = 2 + ninodeblocks + nbitmap"

text \<open>Conversion to the byte order of the image, on a little-endian host.\<close>

definition xshort :: "u16 \<Rightarrow> u16" where
  "xshort x = from_le [ucast x, ucast (drop_bit 8 x)]"

definition xint :: "u32 \<Rightarrow> u32" where
  "xint x = from_le [ucast x, ucast (drop_bit 8 x), ucast (drop_bit 16 x), ucast (drop_bit 24 x)]"

definition wsect :: "u32 \<Rightarrow> u8 list \<Rightarrow> mkfs \<Rightarrow> mkfs" where
  "wsect sec buf s = s\<lparr>img := (img s)(sec := buf)\<rparr>"

definition rsect :: "u32 \<Rightarrow> mkfs \<Rightarrow> u8 list" where
  "rsect sec s = img s sec"

section \<open>Inodes\<close>

text \<open>A \<open>struct dinode\<close> is its 64 bytes.\<close>

definition winode :: "u32 \<Rightarrow> u8 list \<Rightarrow> mkfs \<Rightarrow> mkfs" where
  "winode inum din s =
     (let bn = IBLOCK inum (m_sb s) in wsect bn (put_at (dinode_off inum) din (rsect bn s)) s)"

definition rinode :: "u32 \<Rightarrow> mkfs \<Rightarrow> u8 list" where
  "rinode inum s = take 64 (drop (dinode_off inum) (rsect (IBLOCK inum (m_sb s)) s))"

definition din_size :: "u8 list \<Rightarrow> u32" where "din_size din = get32 8 din"
definition din_addr :: "u8 list \<Rightarrow> nat \<Rightarrow> u32" where "din_addr din i = get32 (12 + 4 * i) din"

definition set_din_size :: "u32 \<Rightarrow> u8 list \<Rightarrow> u8 list" where
  "set_din_size v din = put_at 8 (to_le 4 v) din"

definition set_din_addr :: "nat \<Rightarrow> u32 \<Rightarrow> u8 list \<Rightarrow> u8 list" where
  "set_din_addr i v din = put_at (12 + 4 * i) (to_le 4 v) din"

definition ialloc_m :: "u16 \<Rightarrow> mkfs \<Rightarrow> u32 \<times> mkfs" where
  "ialloc_m typ s =
     (let inum = freeinode s;
          s = s\<lparr>freeinode := inum + 1\<rparr>;
          din = put_at 0 (to_le 2 (xshort typ)) (replicate 64 0);
          din = set_din_size (xint 0) din
      in (inum, winode inum din s))"

text \<open>The bitmap: the first \<open>used\<close> blocks are marked.\<close>

primrec mark_loop :: "nat \<Rightarrow> u8 list" where
  "mark_loop 0 = replicate 1024 0"
| "mark_loop (Suc i) = (let buf = mark_loop i in buf[i div 8 := buf ! (i div 8) OR push_bit (i mod 8) 1])"

definition balloc_m :: "u32 \<Rightarrow> mkfs \<Rightarrow> mkfs res" where
  "balloc_m used s =
     (if unat used < 8192 then Inr (wsect (sb_bmapstart (m_sb s)) (mark_loop (unat used)) s)
      else Inl (Panic ''assert''))"

section \<open>Appending\<close>

definition next_free :: "mkfs \<Rightarrow> u32 \<times> mkfs" where
  "next_free s = (freeblock s, s\<lparr>freeblock := freeblock s + 1\<rparr>)"

text \<open>The block that holds block \<open>fbn\<close> of the file, allocated when there is none.\<close>

definition fblock :: "u32 \<Rightarrow> u8 list \<Rightarrow> mkfs \<Rightarrow> u32 \<times> u8 list \<times> mkfs" where
  "fblock fbn din s =
     (if fbn < 12
      then (case (if xint (din_addr din (unat fbn)) = 0
                  then (case next_free s of (b, s) \<Rightarrow> (set_din_addr (unat fbn) (xint b) din, s))
                  else (din, s)) of
              (din, s) \<Rightarrow> (xint (din_addr din (unat fbn)), din, s))
      else (case (if xint (din_addr din 12) = 0
                  then (case next_free s of (b, s) \<Rightarrow> (set_din_addr 12 (xint b) din, s))
                  else (din, s)) of
              (din, s) \<Rightarrow>
                let ib = xint (din_addr din 12); k = 4 * unat (fbn - 12); ind = rsect ib s
                in case (if get32 k ind = 0
                         then (case next_free s of (b, s) \<Rightarrow>
                           let ind = put_at k (to_le 4 (xint b)) ind in (ind, wsect ib ind s))
                         else (ind, s)) of
                     (ind, s) \<Rightarrow> (xint (get32 k ind), din, s)))"

definition append_size :: "u32 \<Rightarrow> u32 \<Rightarrow> u32" where
  "append_size n off = MIN32 n ((off div 1024 + 1) * 1024 - off)"

text \<open>
  The loop of \<open>iappend\<close>, on the bytes still to be written. A chunk is never empty for a length below
  \<open>2 ^ 32\<close>; the code has an \<open>int\<close> there.
\<close>

function iappend_loop :: "u32 \<Rightarrow> u8 list \<Rightarrow> u8 list \<Rightarrow> mkfs \<Rightarrow> (u32 \<times> u8 list \<times> mkfs) res" where
  "iappend_loop off p din s =
     (if p \<noteq> []
      then let fbn = off div 1024
      in if fbn \<ge> 268 then Inl (Panic ''assert'')
         else (case fblock fbn din s of (x, din, s) \<Rightarrow>
           let n1 = append_size (of_nat (length p)) off; k = unat n1;
               s = wsect x (put_at (unat (off - fbn * 1024)) (take k p) (rsect x s)) s
           in if k = 0 then Inl (Wild ''iappend: length'') else iappend_loop (off + n1) (drop k p) din s)
      else Inr (off, din, s))"
  by pat_completeness auto
termination by (relation "measure (\<lambda>(off, p, din, s). length p)") auto

declare iappend_loop.simps [simp del]

definition iappend :: "u32 \<Rightarrow> u8 list \<Rightarrow> mkfs \<Rightarrow> mkfs res" where
  "iappend inum p s =
     (let din = rinode inum s
      in bindE (iappend_loop (xint (din_size din)) p din s) (\<lambda>(off, din, s).
           Inr (winode inum (set_din_size (xint off) din) s)))"

section \<open>The whole image\<close>

text \<open>The C string \<open>target/\<close>, and the test that a name has no slash.\<close>

definition target :: "u8 list" where
  "target = map of_char ''target/'' @ [0]"

definition add_file :: "u32 \<Rightarrow> u8 list \<times> u8 list list \<Rightarrow> mkfs \<Rightarrow> mkfs res" where
  "add_file rootino f s =
     (case f of (argv, chunks) \<Rightarrow>
      bindE (strncmp argv target 7) (\<lambda>c.
      let shortname = (if c = 0 then drop 7 argv else argv)
      in bindE (strlen shortname) (\<lambda>l.
         if of_char (CHR ''/'') \<in> set (take l shortname) then Inl (Panic ''assert'')
         else (case ialloc_m 2 s of (inum, s) \<Rightarrow>
           bindE (strncpy (replicate 14 0) shortname 14) (\<lambda>nm.
           bindE (iappend rootino (to_le 2 (xshort (ucast inum)) @ nm) s) (\<lambda>s.
             fold (\<lambda>ch r. bindE r (iappend inum ch)) chunks (Inr s)))))))"

primrec add_files :: "u32 \<Rightarrow> (u8 list \<times> u8 list list) list \<Rightarrow> mkfs \<Rightarrow> mkfs res" where
  "add_files rootino [] s = Inr s"
| "add_files rootino (f # fs) s = bindE (add_file rootino f s) (add_files rootino fs)"

definition make_sb :: superblock where
  "make_sb = \<lparr>sb_magic = FSMAGIC, sb_size = xint 1000, sb_nblocks = xint (1000 - nmeta), sb_ninodes = xint 200,
     sb_inodestart = xint 2, sb_bmapstart = xint (2 + ninodeblocks)\<rparr>"

definition sb_bytes :: "superblock \<Rightarrow> u8 list" where
  "sb_bytes b = to_le 4 (sb_magic b) @ to_le 4 (sb_size b) @ to_le 4 (sb_nblocks b) @ to_le 4 (sb_ninodes b) @
     to_le 4 (sb_inodestart b) @ to_le 4 (sb_bmapstart b)"

text \<open>An image file opened with \<open>O_TRUNC\<close> is empty; the first loop fills it with zeros.\<close>

definition mkfs_start :: mkfs where
  "mkfs_start =
     (let s = \<lparr>img = (\<lambda>_. []), m_sb = make_sb, freeinode = 1, freeblock = nmeta\<rparr>;
          s = fold (\<lambda>i. wsect (of_nat i) (replicate 1024 0)) [0..<1000] s
      in wsect 1 (put_at 0 (sb_bytes make_sb) (replicate 1024 0)) s)"

definition mkfs_main :: "(u8 list \<times> u8 list list) list \<Rightarrow> mkfs res" where
  "mkfs_main fs =
     (case ialloc_m 1 mkfs_start of (rootino, s) \<Rightarrow>
      bindE (add_files rootino fs s) (\<lambda>s.
        let din = rinode rootino s;
            off = xint (din_size din);
            off = (off div 1024 + 1) * 1024;
            s = winode rootino (set_din_size (xint off) din) s
        in balloc_m (freeblock s) s))"

end
