(* ===== verification/UserString.thy ===== *)
theory UserString
  imports CString
begin

text \<open>
  The string functions of the user library, \<open>user/lib/string.c\<close>, with \<open>user/lib/stdlib.c\<close>.
  \<open>strlen\<close>, \<open>memchr\<close> and the copies scan eight bytes at a time: they work on the byte memory, at the
  addresses they are given. A scan that meets no terminator does not end, and is \<open>None\<close>.
  Functions whose names the kernel uses too carry the suffix \<open>_u\<close>.
\<close>

section \<open>Characters and numbers\<close>

definition isspace :: "u32 \<Rightarrow> bool" where
  "isspace c \<longleftrightarrow> c = 32 \<or> c - 9 < 5"

definition isdigit :: "u32 \<Rightarrow> bool" where
  "isdigit c \<longleftrightarrow> c - 48 < 10"

text \<open>\<open>while (isdigit( *s)) n = 10 * n - ( *s++ - '0');\<close>\<close>

fun atoi_digits :: "u32 \<Rightarrow> u8 list \<Rightarrow> u32 res" where
  "atoi_digits n [] = Inl (Wild ''atoi: past the end'')"
| "atoi_digits n (c # s) = (if isdigit (ucast c) then atoi_digits (10 * n - (ucast c - 48)) s else Inr n)"

fun atoi :: "u8 list \<Rightarrow> u32 res" where
  "atoi [] = Inl (Wild ''atoi: past the end'')"
| "atoi (c # s) =
     (if isspace (ucast c) then atoi s
      else let neg = (c = 45); s = (if c = 45 \<or> c = 43 then s else c # s)
      in bindE (atoi_digits 0 s) (\<lambda>n. Inr (if neg then n else - n)))"

definition hash :: "u32 \<Rightarrow> u32" where
  "hash n = ucast (drop_bit 33 (6364136223846793005 * scast n + 1 :: u64))"

definition srand :: "u32 \<Rightarrow> u32" where
  "srand s = s"

definition rand :: "u32 \<Rightarrow> u32 \<times> u32" where
  "rand seed = (let seed = hash seed in (seed, seed))"

section \<open>Byte loops\<close>

primrec memset_u :: "bmem \<Rightarrow> u64 \<Rightarrow> u8 \<Rightarrow> nat \<Rightarrow> bmem" where
  "memset_u m p c 0 = m"
| "memset_u m p c (Suc n) = memset_u (m(p := c)) (p + 1) c n"

fun strcmp :: "u8 list \<Rightarrow> u8 list \<Rightarrow> int res" where
  "strcmp (a # l) (b # r) = (if a = b \<and> a \<noteq> 0 then strcmp l r else Inr (uint a - uint b))"
| "strcmp l r = Inl (Wild ''strcmp: past the end'')"

text \<open>The loop of \<open>strncmp\<close>, which has used one of its \<open>n\<close> already.\<close>

fun strncmp_loop :: "u8 list \<Rightarrow> u8 list \<Rightarrow> nat \<Rightarrow> int res" where
  "strncmp_loop (a # l) (b # r) n =
     (if a \<noteq> 0 \<and> b \<noteq> 0 \<and> n \<noteq> 0 \<and> a = b then strncmp_loop l r (n - 1) else Inr (uint a - uint b))"
| "strncmp_loop l r n = Inl (Wild ''strncmp: past the end'')"

definition strncmp_u :: "u8 list \<Rightarrow> u8 list \<Rightarrow> nat \<Rightarrow> int res" where
  "strncmp_u l r n = (if n = 0 then Inr 0 else strncmp_loop l r (n - 1))"

section \<open>Word loops\<close>

definition ONES :: u64 where "ONES = - 1 div 0xff"
definition HIGHS :: u64 where "HIGHS = ONES * (0xff div 2 + 1)"

definition HASZERO :: "u64 \<Rightarrow> bool" where
  "HASZERO x \<longleftrightarrow> (x - ONES) AND NOT x AND HIGHS \<noteq> 0"

lemma align_progress:
  assumes "(s :: u64) mod 8 \<noteq> 0"
  shows "(8 - unat (s + 1) mod 8) mod 8 < (8 - unat s mod 8) mod 8"
proof -
  have "unat (s mod 8) = unat s mod 8" by (simp add: unat_mod)
  then have m: "unat s mod 8 \<noteq> 0" using assms by (metis unat_eq_0)
  have "unat (s + 1) mod 8 = (unat s + 1) mod 8" by (simp add: unat_word_ariths mod_mod_cancel)
  moreover have "unat s mod 8 < 8" by simp
  ultimately show ?thesis using m by (simp add: mod_Suc) linarith
qed

text \<open>\<open>for (; s % 8; s++) if (!*s) return s - a;\<close> gives the terminator, or the aligned address reached.\<close>

function align_scan :: "bmem \<Rightarrow> u64 \<Rightarrow> u64 \<times> bool" where
  "align_scan m s = (if s mod 8 \<noteq> 0 then if m s = 0 then (s, True) else align_scan m (s + 1) else (s, False))"
  by pat_completeness auto
termination
  by (relation "measure (\<lambda>(m, s). (8 - unat s mod 8) mod 8)") (use align_progress in simp_all)

declare align_scan.simps [simp del]

partial_function (option) word_scan :: "bmem \<Rightarrow> u64 \<Rightarrow> u64 option" where
  "word_scan m w = (if HASZERO (load64 m w) then Some w else word_scan m (w + 8))"

partial_function (option) byte_scan :: "bmem \<Rightarrow> u64 \<Rightarrow> u64 option" where
  "byte_scan m s = (if m s = 0 then Some s else byte_scan m (s + 1))"

definition strlen_u :: "bmem \<Rightarrow> u64 \<Rightarrow> u64 option" where
  "strlen_u m a =
     (case align_scan m a of (s, fin) \<Rightarrow>
        if fin then Some (s - a)
        else Option.bind (word_scan m s) (\<lambda>w. Option.bind (byte_scan m w) (\<lambda>s. Some (s - a))))"

text \<open>The three loops of \<open>memchr\<close>: bytes up to an aligned address, words, bytes.\<close>

fun chr_align :: "bmem \<Rightarrow> u8 \<Rightarrow> u64 \<Rightarrow> nat \<Rightarrow> u64 \<times> nat" where
  "chr_align m c s 0 = (s, 0)"
| "chr_align m c s (Suc n) =
     (if s AND 7 \<noteq> 0 \<and> m s \<noteq> c then chr_align m c (s + 1) n else (s, Suc n))"

fun chr_words :: "bmem \<Rightarrow> u64 \<Rightarrow> u64 \<Rightarrow> nat \<Rightarrow> u64 \<times> nat" where
  "chr_words m k w n =
     (if n \<ge> 8 \<and> \<not> HASZERO (load64 m w XOR k) then chr_words m k (w + 8) (n - 8) else (w, n))"

declare chr_words.simps [simp del]

fun chr_bytes :: "bmem \<Rightarrow> u8 \<Rightarrow> u64 \<Rightarrow> nat \<Rightarrow> u64 \<times> nat" where
  "chr_bytes m c s 0 = (s, 0)"
| "chr_bytes m c s (Suc n) = (if m s \<noteq> c then chr_bytes m c (s + 1) n else (s, Suc n))"

definition memchr :: "bmem \<Rightarrow> u64 \<Rightarrow> u8 \<Rightarrow> nat \<Rightarrow> u64 option" where
  "memchr m src c n =
     (case chr_align m c src n of (s, n) \<Rightarrow>
      case (if n \<noteq> 0 \<and> m s \<noteq> c then chr_words m (ONES * ucast c) s n else (s, n)) of (s, n) \<Rightarrow>
      case chr_bytes m c s n of (s, n) \<Rightarrow> if n \<noteq> 0 then Some s else None)"

definition strnlen :: "bmem \<Rightarrow> u64 \<Rightarrow> nat \<Rightarrow> nat" where
  "strnlen m s n = (case memchr m s 0 n of Some p \<Rightarrow> unat (p - s) | None \<Rightarrow> n)"

section \<open>Copies\<close>

text \<open>The loops of \<open>stpcpy\<close>: the memory, the two pointers, and whether the terminator was copied.\<close>

function cpy_align :: "bmem \<Rightarrow> u64 \<Rightarrow> u64 \<Rightarrow> bmem \<times> u64 \<times> u64 \<times> bool" where
  "cpy_align m d s =
     (if s mod 8 \<noteq> 0
      then let m = m(d := m s) in if m d = 0 then (m, d, s, True) else cpy_align m (d + 1) (s + 1)
      else (m, d, s, False))"
  by pat_completeness auto
termination
  by (relation "measure (\<lambda>(m, d, s). (8 - unat s mod 8) mod 8)") (use align_progress in simp_all)

declare cpy_align.simps [simp del]

partial_function (option) cpy_words :: "bmem \<Rightarrow> u64 \<Rightarrow> u64 \<Rightarrow> (bmem \<times> u64 \<times> u64) option" where
  "cpy_words m wd ws =
     (if HASZERO (load64 m ws) then Some (m, wd, ws)
      else cpy_words (store64 m wd (load64 m ws)) (wd + 8) (ws + 8))"

partial_function (option) cpy_bytes :: "bmem \<Rightarrow> u64 \<Rightarrow> u64 \<Rightarrow> (bmem \<times> u64) option" where
  "cpy_bytes m d s = (if m s = 0 then Some (m(d := 0), d) else cpy_bytes (m(d := m s)) (d + 1) (s + 1))"

definition stpcpy :: "bmem \<Rightarrow> u64 \<Rightarrow> u64 \<Rightarrow> (bmem \<times> u64) option" where
  "stpcpy m d s =
     (if s mod 8 = d mod 8
      then (case cpy_align m d s of (m, d, s, fin) \<Rightarrow>
        if fin then Some (m, d)
        else Option.bind (cpy_words m d s) (\<lambda>(m, d, s). cpy_bytes m d s))
      else cpy_bytes m d s)"

text \<open>The loops of \<open>stpncpy\<close>; the count left over is filled with zeros.\<close>

fun ncpy_align :: "bmem \<Rightarrow> u64 \<Rightarrow> u64 \<Rightarrow> nat \<Rightarrow> bmem \<times> u64 \<times> u64 \<times> nat" where
  "ncpy_align m d s 0 = (m, d, s, 0)"
| "ncpy_align m d s (Suc n) =
     (if s AND 7 \<noteq> 0
      then let m = m(d := m s) in if m d \<noteq> 0 then ncpy_align m (d + 1) (s + 1) n else (m, d, s, Suc n)
      else (m, d, s, Suc n))"

fun ncpy_words :: "bmem \<Rightarrow> u64 \<Rightarrow> u64 \<Rightarrow> nat \<Rightarrow> bmem \<times> u64 \<times> u64 \<times> nat" where
  "ncpy_words m wd ws n =
     (if n \<ge> 8 \<and> \<not> HASZERO (load64 m ws)
      then ncpy_words (store64 m wd (load64 m ws)) (wd + 8) (ws + 8) (n - 8)
      else (m, wd, ws, n))"

declare ncpy_words.simps [simp del]

fun ncpy_bytes :: "bmem \<Rightarrow> u64 \<Rightarrow> u64 \<Rightarrow> nat \<Rightarrow> bmem \<times> u64 \<times> u64 \<times> nat" where
  "ncpy_bytes m d s 0 = (m, d, s, 0)"
| "ncpy_bytes m d s (Suc n) =
     (let m = m(d := m s) in if m d \<noteq> 0 then ncpy_bytes m (d + 1) (s + 1) n else (m, d, s, Suc n))"

definition stpncpy :: "bmem \<Rightarrow> u64 \<Rightarrow> u64 \<Rightarrow> nat \<Rightarrow> bmem \<times> u64" where
  "stpncpy m d s n =
     (case (if s AND 7 = d AND 7
            then (case ncpy_align m d s n of (m, d, s, n) \<Rightarrow>
              if n = 0 \<or> m s = 0 then (m, d, s, n)
              else (case ncpy_words m d s n of (m, d, s, n) \<Rightarrow> ncpy_bytes m d s n))
            else ncpy_bytes m d s n) of
        (m, d, s, n) \<Rightarrow> (memset_u m d 0 n, d))"

end
