(* ===== verification/UserScan.thy ===== *)
theory UserScan
  imports UserString
begin

text \<open>
  The word loops of the user library are equivalent to loops over bytes: \<open>HASZERO\<close> finds a zero
  byte, and with it \<open>strlen\<close>, \<open>memchr\<close> and \<open>strnlen\<close> find what a scan byte by byte finds.
\<close>


section \<open>A zero byte in a word\<close>

primrec ones :: "nat \<Rightarrow> int" where
  "ones 0 = 0"
| "ones (Suc n) = 1 + 256 * ones n"

declare ones.simps [simp del]

lemma byte_or:
  fixes b y :: int
  assumes "0 \<le> b" "b < 256"
  shows "b OR push_bit 8 y = b + 256 * y"
proof -
  have "b AND push_bit 8 y = 0"
  proof (rule bit_eqI)
    fix n show "bit (b AND push_bit 8 y) n = bit 0 n"
    proof (cases "n < 8")
      case False
      have "b = take_bit 8 b" using assms by (simp add: take_bit_int_eq_self)
      then have "\<not> bit b n" using False by (metis bit_take_bit_iff)
      then show ?thesis by (simp add: bit_simps)
    qed (simp add: bit_simps)
  qed
  then have "b + push_bit 8 y = b OR push_bit 8 y" by (rule disjunctive_add_eq_or)
  then show ?thesis by (simp add: push_bit_eq_mult mult.commute)
qed

lemma bit_byte_split:
  fixes b y :: int
  assumes "0 \<le> b" "b < 256"
  shows "bit (b + 256 * y) k = (if k < 8 then bit b k else bit y (k - 8))"
proof -
  have "b = take_bit 8 b" using assms by (simp add: take_bit_int_eq_self)
  then have "bit b k \<Longrightarrow> k < 8" by (metis bit_take_bit_iff)
  then show ?thesis unfolding byte_or[OF assms, symmetric] by (auto simp: bit_simps)
qed

lemma bit_255: "bit (255 + 256 * z :: int) 7"
  using bit_byte_split[of 255 z 7] by (simp add: bit_iff_odd)

lemma bit_half: "0 \<le> b \<Longrightarrow> b < 256 \<Longrightarrow> bit (b + 256 * z :: int) 7 \<longleftrightarrow> 128 \<le> b"
proof -
  assume b: "0 \<le> b" "b < 256"
  have "b div 128 = (if 128 \<le> b then 1 else 0)" using b by auto
  then have "bit b 7 \<longleftrightarrow> 128 \<le> b" by (simp add: bit_iff_odd)
  then show ?thesis using bit_byte_split[OF b, of z 7] by simp
qed

lemma ex_less_Suc0: "(\<exists>i<Suc n. P i) \<longleftrightarrow> P 0 \<or> (\<exists>i<n. P (Suc i))"
  by (auto simp: less_Suc_eq_0_disj)

lemma bit_up:
  fixes c z :: int
  assumes "0 \<le> c" "c < 256"
  shows "bit (c + 256 * z) (8 * Suc i + 7) = bit z (8 * i + 7)"
proof -
  have "8 * Suc i + 7 - 8 = 8 * i + 7" "\<not> 8 * Suc i + 7 < 8" by simp_all
  then show ?thesis using bit_byte_split[OF assms, of z "8 * Suc i + 7"] by (simp only: if_False)
qed

definition zb :: "nat \<Rightarrow> int \<Rightarrow> nat \<Rightarrow> bool" where
  "zb n x i \<longleftrightarrow> bit (x - ones n) (8 * i + 7) \<and> \<not> bit x (8 * i + 7)"

lemma zb_low:
  fixes b y :: int
  assumes "0 \<le> b" "b < 256"
  shows "zb (Suc n) (b + 256 * y) 0 \<longleftrightarrow> b = 0"
proof (cases "b = 0")
  case True
  have e: "b + 256 * y - ones (Suc n) = 255 + 256 * (y - ones n - 1)" using True by (simp add: ones.simps)
  show ?thesis unfolding zb_def e mult_0_right add_0
    using True bit_255 bit_half[OF assms, of y] by (simp only: if_True) simp
next
  case False
  have b1: "0 \<le> b - 1" "b - 1 < 256" using False assms by auto
  have e: "b + 256 * y - ones (Suc n) = (b - 1) + 256 * (y - ones n)" by (simp add: ones.simps)
  show ?thesis unfolding zb_def e mult_0_right add_0 bit_half[OF b1] bit_half[OF assms]
    using False by linarith
qed

lemma zb_high:
  fixes b y :: int
  assumes "0 < b" "b < 256"
  shows "zb (Suc n) (b + 256 * y) (Suc i) \<longleftrightarrow> zb n y i"
proof -
  have b: "0 \<le> b - 1" "b - 1 < 256" "0 \<le> b" using assms by auto
  have e: "b + 256 * y - ones (Suc n) = (b - 1) + 256 * (y - ones n)" by (simp add: ones.simps)
  show ?thesis unfolding zb_def e bit_up[OF b(1,2)] bit_up[OF b(3) assms(2)] by (rule refl)
qed

lemma zero_byte_int: "(\<exists>i<n. zb n x i) \<longleftrightarrow> (\<exists>i<n. (x div 256 ^ i) mod 256 = 0)"
proof (induction n arbitrary: x)
  case (Suc n)
  define b y where "b = x mod 256" and "y = x div 256"
  have x: "x = b + 256 * y" and b: "0 \<le> b" "b < 256" by (simp_all add: b_def y_def)
  have byte: "(x div 256 ^ Suc i) mod 256 = (y div 256 ^ i) mod 256" for i
    by (simp add: y_def zdiv_zmult2_eq)
  have b0: "(x div 256 ^ 0) mod 256 = b" by (simp add: b_def)
  have "(\<exists>i<Suc n. zb (Suc n) x i) \<longleftrightarrow> b = 0 \<or> (\<exists>i<n. (y div 256 ^ i) mod 256 = 0)"
  proof (cases "b = 0")
    case True
    then show ?thesis unfolding ex_less_Suc0 using zb_low[OF b, of n y] x by simp
  next
    case False
    then have "0 < b" using b by simp
    then have "(\<exists>i<n. zb (Suc n) x (Suc i)) \<longleftrightarrow> (\<exists>i<n. zb n y i)" unfolding x using zb_high[OF _ b(2)] by blast
    then show ?thesis unfolding ex_less_Suc0 using zb_low[OF b, of n y] x Suc[of y] False by simp
  qed
  then show ?case unfolding ex_less_Suc0[of n "\<lambda>i. (x div 256 ^ i) mod 256 = 0"] b0 byte .
qed simp

lemma bit_HIGHS: "bit HIGHS k \<longleftrightarrow> k < 64 \<and> k mod 8 = 7"
proof -
  have "HIGHS = 0x8080808080808080" by (simp add: HIGHS_def ONES_def)
  moreover have "\<forall>k<64. bit (0x8080808080808080 :: u64) k \<longleftrightarrow> k mod 8 = 7" by code_simp
  ultimately show ?thesis using bit_imp_le_length[of HIGHS k] by auto
qed

lemma uint_ONES: "uint ONES = ones 8"
proof -
  have a: "ONES = 0x0101010101010101" by (simp add: ONES_def)
  have b: "ones 8 = 0x0101010101010101" by (simp add: eval_nat_numeral ones.simps)
  show ?thesis unfolding a b by simp
qed

lemma bit_uint_diff:
  assumes "k < 64"
  shows "bit (x - y :: u64) k = bit (uint x - uint y) k"
proof -
  have "bit (x - y) k \<longleftrightarrow> k < LENGTH(64) \<and> bit (uint x - uint y) k"
    unfolding word_sub_wi[of x y] bit_word_of_int_iff by (rule refl)
  then show ?thesis using assms by simp
qed

lemma nonzero_bit: "(w :: u64) \<noteq> 0 \<longleftrightarrow> (\<exists>k. bit w k)"
proof
  assume "w \<noteq> 0"
  show "\<exists>k. bit w k"
  proof (rule ccontr)
    assume "\<not> (\<exists>k. bit w k)"
    then have "w = 0" by (intro bit_word_eqI) simp
    then show False using \<open>w \<noteq> 0\<close> by simp
  qed
qed auto

lemma HASZERO_bits: "HASZERO x \<longleftrightarrow> (\<exists>k<64. bit (x - ONES) k \<and> \<not> bit x k \<and> k mod 8 = 7)"
proof -
  have b: "bit ((x - ONES) AND NOT x AND HIGHS) k \<longleftrightarrow> k < 64 \<and> bit (x - ONES) k \<and> \<not> bit x k \<and> k mod 8 = 7" for k
    unfolding bit_and_iff bit_HIGHS by (auto simp: bit_not_iff)
  show ?thesis unfolding HASZERO_def nonzero_bit b by blast
qed

lemma HASZERO_zb: "HASZERO x \<longleftrightarrow> (\<exists>i<8. zb 8 (uint x) i)"
proof -
  have "HASZERO x \<longleftrightarrow> (\<exists>i<8. bit (x - ONES) (8 * i + 7) \<and> \<not> bit x (8 * i + 7))"
    unfolding HASZERO_bits
  proof
    assume "\<exists>k<64. bit (x - ONES) k \<and> \<not> bit x k \<and> k mod 8 = 7"
    then obtain k where k: "k < 64" "bit (x - ONES) k" "\<not> bit x k" "k mod 8 = 7" by blast
    obtain i where i: "k = 8 * i + 7" using k(4) by (metis mult_div_mod_eq)
    then have "i < 8" using k(1) by simp
    then show "\<exists>i<8. bit (x - ONES) (8 * i + 7) \<and> \<not> bit x (8 * i + 7)" using k(2,3) i by blast
  next
    assume "\<exists>i<8. bit (x - ONES) (8 * i + 7) \<and> \<not> bit x (8 * i + 7)"
    then obtain i where i: "i < 8" "bit (x - ONES) (8 * i + 7)" "\<not> bit x (8 * i + 7)" by blast
    have "8 * i + 7 < 64" "(8 * i + 7) mod 8 = 7" using i(1) by simp_all
    then show "\<exists>k<64. bit (x - ONES) k \<and> \<not> bit x k \<and> k mod 8 = 7" using i(2,3) by blast
  qed
  also have "\<dots> \<longleftrightarrow> (\<exists>i<8. zb 8 (uint x) i)"
  proof -
    have "(bit (x - ONES) (8 * i + 7) \<and> \<not> bit x (8 * i + 7)) = zb 8 (uint x) i" if "i < 8" for i
    proof -
      have "8 * i + 7 < 64" using that by simp
      then show ?thesis using bit_uint_diff[of "8 * i + 7" x ONES] unfolding uint_ONES zb_def bit_uint_iff by simp
    qed
    then show ?thesis by blast
  qed
  finally show ?thesis .
qed

lemma HASZERO_bytes: "HASZERO x \<longleftrightarrow> (\<exists>i<8. (uint x div 256 ^ i) mod 256 = 0)"
  unfolding HASZERO_zb by (rule zero_byte_int)

lemma uint_push8: "256 * uint (w :: u64) < 2 ^ 64 \<Longrightarrow> uint (push_bit 8 w) = push_bit 8 (uint w)"
  unfolding unsigned_push_bit_eq by (simp add: push_bit_eq_mult take_bit_int_eq_self mult.commute)

lemma uint_from_le_Cons:
  "length bs < 8 \<Longrightarrow>
   uint (from_le (b # bs) :: u64) = uint b + 256 * uint (from_le bs :: u64) \<and>
   uint (from_le (b # bs) :: u64) < 256 ^ Suc (length bs)"
proof (induction bs arbitrary: b)
  case Nil
  have "uint b < 256" using uint_lt2p[of b] by simp
  then show ?case by (simp add: uint_up_ucast is_up)
next
  case (Cons c bs)
  let ?w = "from_le (c # bs) :: u64"
  have b: "0 \<le> uint b" "uint b < 256" using uint_lt2p[of b] by simp_all
  have w: "uint ?w < 256 ^ Suc (length bs)" using Cons.IH[of c] Cons.prems by (simp del: from_le.simps)
  have "(256 :: int) ^ Suc (length bs) \<le> 256 ^ 7" using Cons.prems by (intro power_increasing) simp_all
  then have "256 * uint ?w < 2 ^ 64" using w by simp
  then have p: "uint (push_bit 8 ?w) = push_bit 8 (uint ?w)" by (rule uint_push8)
  have "uint (from_le (b # c # bs) :: u64) = uint b OR push_bit 8 (uint ?w)"
    unfolding from_le.simps(2)[of b "c # bs"] unsigned_or_eq p by (simp add: uint_up_ucast is_up)
  then have e: "uint (from_le (b # c # bs) :: u64) = uint b + 256 * uint ?w" unfolding byte_or[OF b] .
  moreover have "uint b + 256 * uint ?w < 256 ^ Suc (length (c # bs))" using b w by simp
  ultimately show ?case by (simp del: from_le.simps)
qed

lemma from_le_byte:
  "length bs \<le> 8 \<Longrightarrow> i < length bs \<Longrightarrow> (uint (from_le bs :: u64) div 256 ^ i) mod 256 = uint (bs ! i)"
proof (induction bs arbitrary: i)
  case (Cons b bs)
  have e: "uint (from_le (b # bs) :: u64) = uint b + 256 * uint (from_le bs :: u64)"
    using Cons.prems uint_from_le_Cons[of bs b] by simp
  have b: "0 \<le> uint b" "uint b < 256" using uint_lt2p[of b] by simp_all
  show ?case
  proof (cases i)
    case 0
    then show ?thesis unfolding e using b by simp
  next
    case (Suc j)
    have "(uint b + 256 * uint (from_le bs :: u64)) div 256 ^ Suc j = uint (from_le bs :: u64) div 256 ^ j"
      using b by (simp add: zdiv_zmult2_eq)
    then show ?thesis unfolding e Suc using Cons Suc by simp
  qed
qed simp

lemma HASZERO_load: "HASZERO (load64 m a) \<longleftrightarrow> (\<exists>i<8. m (a + of_nat i) = 0)"
proof -
  have "(uint (load64 m a) div 256 ^ i) mod 256 = uint (m (a + of_nat i))" if "i < 8" for i
    using from_le_byte[of "rd m a 8" i] that by (simp add: load64_def)
  then show ?thesis unfolding HASZERO_bytes by (metis uint_0_iff)
qed

section \<open>\<open>strlen\<close>\<close>

text \<open>\<open>nul m a k\<close>: the first zero byte from \<open>a\<close> on is at distance \<open>k\<close>.\<close>

definition nul :: "bmem \<Rightarrow> u64 \<Rightarrow> nat \<Rightarrow> bool" where
  "nul m a k \<longleftrightarrow> m (a + of_nat k) = 0 \<and> (\<forall>j<k. m (a + of_nat j) \<noteq> 0)"

lemma nul_Suc: "nul m a (Suc k) \<longleftrightarrow> m a \<noteq> 0 \<and> nul m (a + 1) k"
  by (auto simp: nul_def less_Suc_eq_0_disj add.assoc)

lemma nul_add: "nul m a (n + k) \<Longrightarrow> nul m (a + of_nat n) k"
  by (auto simp: nul_def add.assoc simp flip: of_nat_add)

lemma byte_scan_nul: "nul m a k \<Longrightarrow> byte_scan m a = Some (a + of_nat k)"
proof (induction k arbitrary: a)
  case 0
  then show ?case by (subst byte_scan.simps) (simp add: nul_def)
next
  case (Suc k)
  then show ?case by (subst byte_scan.simps) (simp add: nul_Suc add.assoc)
qed

lemma word_scan_nul:
  assumes "nul m a k"
  shows "\<exists>w j. word_scan m a = Some w \<and> w + of_nat j = a + of_nat k \<and> nul m w j"
  using assms
proof (induction k arbitrary: a rule: less_induct)
  case (less k)
  show ?case
  proof (cases "HASZERO (load64 m a)")
    case True
    then have "word_scan m a = Some a" by (subst word_scan.simps) simp
    then show ?thesis using less.prems by blast
  next
    case False
    then have nz: "\<forall>i<8. m (a + of_nat i) \<noteq> 0" unfolding HASZERO_load by blast
    then have k: "8 \<le> k" using less.prems by (meson linorder_not_le nul_def)
    have n: "nul m (a + 8) (k - 8)" using nul_add[of m a 8 "k - 8"] less.prems k by simp
    have e: "a + 8 + of_nat (k - 8) = a + of_nat k" using k by (simp add: of_nat_diff)
    have "word_scan m a = word_scan m (a + 8)" using False by (subst word_scan.simps) simp
    then show ?thesis using less.IH[OF _ n] k e by simp
  qed
qed

lemma align_scan_nul:
  assumes "nul m a k"
  shows "\<exists>s j. (align_scan m a = (s, True) \<and> j = 0 \<or> align_scan m a = (s, False)) \<and>
    s + of_nat j = a + of_nat k \<and> nul m s j"
  using assms
proof (induction k arbitrary: a)
  case 0
  then have "align_scan m a = (a, a mod 8 \<noteq> 0)" by (subst align_scan.simps) (simp add: nul_def)
  then show ?case using 0 by (intro exI[of _ a] exI[of _ 0]) simp
next
  case (Suc k)
  show ?case
  proof (cases "a mod 8 = 0")
    case True
    then have "align_scan m a = (a, False)" by (subst align_scan.simps) simp
    then show ?thesis using Suc.prems by blast
  next
    case False
    have n: "m a \<noteq> 0" "nul m (a + 1) k" using Suc.prems by (simp_all add: nul_Suc)
    then have "align_scan m a = align_scan m (a + 1)" using False by (subst align_scan.simps) simp
    then show ?thesis using Suc.IH[OF n(2)] by (simp add: add.assoc)
  qed
qed

section \<open>\<open>memchr\<close>\<close>

lemma from_le_xor:
  "length bs = length cs \<Longrightarrow> (from_le bs XOR from_le cs :: u64) = from_le (map2 (XOR) bs cs)"
proof (induction bs cs rule: list_induct2)
  case (Cons b bs c cs)
  have h: "(ucast b OR push_bit 8 y) XOR (ucast c OR push_bit 8 z) = (ucast (b XOR c) OR push_bit 8 (y XOR z) :: u64)"
    for y z
    by (rule bit_word_eqI) (auto simp: bit_simps dest: bit_imp_le_length)
  show ?case by (simp only: from_le.simps zip_Cons_Cons list.map(2) prod.case h Cons.IH[symmetric])
qed simp

lemma ones_mult: "uint (from_le (replicate n c) :: u64) = ones n * uint c" if "n \<le> 8"
  using that
proof (induction n)
  case (Suc n)
  then show ?case using uint_from_le_Cons[of "replicate n c" c] by (simp add: ones.simps algebra_simps del: from_le.simps)
qed (simp add: ones.simps)

lemma ONES_from_le: "ONES * ucast c = from_le (replicate 8 c)"
proof -
  have c: "uint c \<le> 255" using uint_lt2p[of c] by simp
  have o: "ones 8 = 0x0101010101010101" by (simp add: eval_nat_numeral ones.simps)
  have "uint (ONES * ucast c) = ones 8 * uint c"
    using c unfolding uint_mult_lem[THEN iffD1, symmetric] uint_ONES[symmetric]
    by (subst uint_mult_lem[THEN iffD1]) (simp_all add: uint_ONES o uint_up_ucast is_up)
  then show ?thesis using ones_mult[of 8 c] by (simp add: word_uint_eq_iff del: uint_eq_iff)
qed

lemma HASZERO_xor: "HASZERO (load64 m a XOR ONES * ucast c) \<longleftrightarrow> (\<exists>i<8. m (a + of_nat i) = c)"
proof -
  have "load64 m a XOR ONES * ucast c = from_le (map (\<lambda>b. b XOR c) (rd m a 8))"
    unfolding load64_def ONES_from_le by (subst from_le_xor) (simp_all add: zip_replicate2 comp_def)
  also have "\<dots> = load64 (\<lambda>x. m x XOR c) a" by (simp add: load64_def rd_def comp_def)
  finally have "HASZERO (load64 m a XOR ONES * ucast c) \<longleftrightarrow> (\<exists>i<8. m (a + of_nat i) XOR c = 0)"
    by (simp add: HASZERO_load)
  moreover have "x XOR c = 0 \<longleftrightarrow> x = c" for x :: u8 by (metis xor.assoc xor.left_neutral xor_self_eq)
  ultimately show ?thesis by simp
qed

lemma find_idx_Cons: "find_idx P (x # xs) = (if P x then Some 0 else map_option Suc (find_idx P xs))"
  by simp

text \<open>\<open>mchr\<close>: what the scans have to find, and the count that is left.\<close>

definition mchr :: "bmem \<Rightarrow> u8 \<Rightarrow> u64 \<Rightarrow> nat \<Rightarrow> u64 option" where
  "mchr m c s n = map_option (\<lambda>i. s + of_nat i) (find_idx (\<lambda>x. x = c) (rd m s n))"

lemma mchr_0: "mchr m c s 0 = None"
  by (simp add: mchr_def)

lemma mchr_Suc: "mchr m c s (Suc n) = (if m s = c then Some s else mchr m c (s + 1) n)"
  by (simp add: mchr_def rd_Suc option.map_comp comp_def add.assoc)

lemma mchr_add:
  "\<forall>i<k. m (s + of_nat i) \<noteq> c \<Longrightarrow> mchr m c s (k + n) = mchr m c (s + of_nat k) n"
proof (induction k arbitrary: s)
  case (Suc k)
  have "\<forall>i<k. m (s + 1 + of_nat i) \<noteq> c" using Suc.prems by (auto simp: add.assoc dest: spec[of _ "Suc _"])
  moreover have "m s \<noteq> c" using Suc.prems by force
  ultimately show ?case using Suc.IH[of "s + 1"] by (simp add: mchr_Suc add.assoc)
qed simp

lemma chr_bytes_ok: "chr_bytes m c s n = (s', n') \<Longrightarrow> mchr m c s n = (if n' \<noteq> 0 then Some s' else None)"
  by (induction m c s n rule: chr_bytes.induct) (auto simp: mchr_0 mchr_Suc split: if_splits)

lemma chr_align_ok: "chr_align m c s n = (s', n') \<Longrightarrow> mchr m c s n = mchr m c s' n'"
  by (induction m c s n rule: chr_align.induct) (auto simp: mchr_0 mchr_Suc split: if_splits)

lemma chr_words_ok: "chr_words m (ONES * ucast c) s n = (s', n') \<Longrightarrow> mchr m c s n = mchr m c s' n'"
proof (induction m "ONES * ucast c :: u64" s n arbitrary: s' n' rule: chr_words.induct)
  case (1 m w n)
  show ?case
  proof (cases "8 \<le> n \<and> \<not> HASZERO (load64 m w XOR ONES * ucast c)")
    case True
    then have "chr_words m (ONES * ucast c) (w + 8) (n - 8) = (s', n')"
      using 1(2) by (subst (asm) chr_words.simps) simp
    then have "mchr m c (w + 8) (n - 8) = mchr m c s' n'" using 1(1)[OF True] by simp
    moreover have "\<forall>i<8. m (w + of_nat i) \<noteq> c" using True unfolding HASZERO_xor by blast
    then have "mchr m c w (8 + (n - 8)) = mchr m c (w + of_nat 8) (n - 8)" by (rule mchr_add)
    ultimately show ?thesis using True by simp
  next
    case False
    then show ?thesis using 1(2) by (subst (asm) chr_words.simps) auto
  qed
qed

lemma memchr_ok: "memchr m s c n = mchr m c s n"
proof -
  obtain s1 n1 where a: "chr_align m c s n = (s1, n1)" by fastforce
  obtain s2 n2 where w: "(if n1 \<noteq> 0 \<and> m s1 \<noteq> c then chr_words m (ONES * ucast c) s1 n1 else (s1, n1)) = (s2, n2)"
    by fastforce
  obtain s3 n3 where b: "chr_bytes m c s2 n2 = (s3, n3)" by fastforce
  have "mchr m c s1 n1 = mchr m c s2 n2" using w chr_words_ok by (auto split: if_splits)
  then show ?thesis
    using chr_align_ok[OF a] chr_bytes_ok[OF b] unfolding memchr_def a prod.case w b by simp
qed

lemma strlen_ok:
  assumes "m (a + of_nat k) = 0" "\<And>j. j < k \<Longrightarrow> m (a + of_nat j) \<noteq> 0"
  shows "strlen_u m a = Some (of_nat k) \<and> byte_scan m a = Some (a + of_nat k)"
proof
  have n: "nul m a k" using assms by (simp add: nul_def)
  obtain s j where s: "align_scan m a = (s, True) \<and> j = 0 \<or> align_scan m a = (s, False)"
    "s + of_nat j = a + of_nat k" "nul m s j"
    using align_scan_nul[OF n] by blast
  obtain w i where w: "word_scan m s = Some w" "w + of_nat i = s + of_nat j" "nul m w i"
    using word_scan_nul[OF s(3)] by blast
  have "byte_scan m w = Some (w + of_nat i)" by (rule byte_scan_nul[OF w(3)])
  then show "strlen_u m a = Some (of_nat k)"
    using s(1,2) w(1,2) by (auto simp: strlen_u_def)
  show "byte_scan m a = Some (a + of_nat k)" by (rule byte_scan_nul[OF n])
qed

text \<open>A scan that ends has found a zero byte.\<close>

lemma byte_scan_zero:
  assumes "byte_scan m s = Some x"
  shows "m x = 0"
  by (rule byte_scan.raw_induct[where P = "\<lambda>m s x. m x = 0", OF _ assms]) (auto split: if_splits)

lemma align_scan_zero: "align_scan m s = (x, True) \<Longrightarrow> m x = 0"
  by (induction m s rule: align_scan.induct) (subst (asm) (2) align_scan.simps, auto split: if_splits)

lemma strlen_found: "strlen_u m a = Some n \<Longrightarrow> \<exists>x. m x = 0"
  unfolding strlen_u_def using align_scan_zero byte_scan_zero
  by (auto split: prod.splits if_splits bind_splits; blast)

lemma strlen_ends: "(\<exists>n. strlen_u m a = Some n) \<longleftrightarrow> (\<exists>x. m x = 0)"
proof
  assume "\<exists>x. m x = 0"
  then obtain x where "m x = 0" ..
  then have "m (a + of_nat (unat (x - a))) = 0" by simp
  then have z: "\<exists>k. m (a + of_nat k) = 0" by blast
  define k where "k = (LEAST k. m (a + of_nat k) = 0)"
  have "m (a + of_nat k) = 0" unfolding k_def by (rule LeastI_ex[OF z])
  moreover have "m (a + of_nat j) \<noteq> 0" if "j < k" for j using not_less_Least that unfolding k_def by blast
  ultimately show "\<exists>n. strlen_u m a = Some n" using strlen_ok by blast
qed (use strlen_found in blast)

section \<open>Properties\<close>

text \<open>C40: \<open>strlen\<close> scanning eight bytes at a time from any alignment is equivalent to the scan byte by
  byte: it ends, with the distance of the first zero byte, wherever there is one.\<close>

theorem strlen_equiv:
  assumes "m (a + of_nat k) = 0" "\<And>j. j < k \<Longrightarrow> m (a + of_nat j) \<noteq> 0"
  shows "strlen_u m a = Some (of_nat k) \<and> byte_scan m a = Some (a + of_nat k)"
  using strlen_ok[of m a k] assms by blast

theorem strlen_equiv_witness:
  "strlen_u (\<lambda>x. if x = 0x100d then 0 else 65) 0x1003 = Some 10"
proof -
  have "strlen_u (\<lambda>x. if x = 0x100d then 0 else 65) 0x1003 = Some (of_nat 10) \<and>
    byte_scan (\<lambda>x. if x = 0x100d then 0 else 65) 0x1003 = Some (0x1003 + of_nat 10)"
  proof (rule strlen_equiv)
    have "\<forall>j<10. (if 0x1003 + of_nat j = (0x100d :: u64) then 0 else 65 :: u8) \<noteq> 0" by code_simp
    then show "(if 0x1003 + of_nat j = (0x100d :: u64) then 0 else 65 :: u8) \<noteq> 0" if "j < 10" for j
      using that by blast
  qed simp
  then show ?thesis by simp
qed


text \<open>\<open>memchr\<close> with its three loops finds the first of \<open>n\<close> bytes that equals \<open>c\<close>, or none, as a search
  of the list of these bytes does, and \<open>strnlen\<close> the place of the first zero byte, \<open>n\<close> if there is none.\<close>

theorem memchr_equiv:
  assumes "n < 2 ^ 64"
  shows "memchr m s c n = map_option (\<lambda>i. s + of_nat i) (find_idx (\<lambda>x. x = c) (rd m s n)) \<and>
    strnlen m s n = (case find_idx (\<lambda>x. x = 0) (rd m s n) of Some i \<Rightarrow> i | None \<Rightarrow> n)"
proof
  show "strnlen m s n = (case find_idx (\<lambda>x. x = 0) (rd m s n) of Some i \<Rightarrow> i | None \<Rightarrow> n)"
    using assms find_idx_less[of "\<lambda>x. x = 0" "rd m s n"]
    by (auto simp: strnlen_def memchr_ok mchr_def unat_of_nat_u64 split: option.split)
qed (simp add: memchr_ok mchr_def)

theorem memchr_equiv_witness:
  "memchr (\<lambda>x. ucast x) 0x1003 7 64 = Some 0x1007 \<and> strnlen (\<lambda>x. ucast x + 1) 0x10f0 8 = 8"
proof -
  have a: "find_idx (\<lambda>x. x = 7) (rd (\<lambda>x. ucast x) 0x1003 64) = Some 4" by code_simp
  have b: "find_idx (\<lambda>x. x = 0) (rd (\<lambda>x. ucast x + 1) 0x10f0 8) = None" by code_simp
  show ?thesis
    using memchr_equiv[where n = 64 and m = "\<lambda>x. ucast x" and s = "0x1003" and c = 7]
      memchr_equiv[where n = 8 and m = "\<lambda>x. ucast x + 1" and s = "0x10f0"]
    unfolding a b by simp
qed

end
