(* ===== verification/Printf.thy ===== *)
theory Printf
  imports CString
begin

text \<open>
  Formatted output, \<open>kernel/printf.c\<close>, and the log levels of \<open>kernel/logger.h\<close>. The functions
  give the characters they send to the console. Format strings are C arrays, terminated by 0.
\<close>

section \<open>Numbers\<close>

definition digits :: "u8 list" where
  "digits = map of_char ''0123456789abcdef''"

text \<open>
  \<open>do buf[i++] = digits[x % base]; while ((x /= base) != 0)\<close>, with \<open>room\<close> bytes of \<open>buf\<close> left:
  the digits, least significant first.
\<close>

fun digit_loop :: "nat \<Rightarrow> u32 \<Rightarrow> u32 \<Rightarrow> u8 list res" where
  "digit_loop 0 x base = Inl (Wild ''printint: buf'')"
| "digit_loop (Suc room) x base =
     (let c = digits ! unat (x mod base); x = x div base
      in if x \<noteq> 0 then bindE (digit_loop room x base) (\<lambda>cs. Inr (c # cs)) else Inr [c])"

definition printint :: "u32 \<Rightarrow> u32 \<Rightarrow> bool \<Rightarrow> u8 list res" where
  "printint xx base sgned =
     (let neg = (sgned \<and> sint xx < 0); x = (if neg then - xx else xx)
      in bindE (digit_loop 16 x base) (\<lambda>buf.
           if neg then (if length buf \<ge> 16 then Inl (Wild ''printint: buf'') else Inr (of_char (CHR ''-'') # rev buf))
           else Inr (rev buf)))"

fun ptr_loop :: "nat \<Rightarrow> u64 \<Rightarrow> u8 list" where
  "ptr_loop 0 x = []"
| "ptr_loop (Suc n) x = digits ! unat (drop_bit (64 - 4) x) # ptr_loop n (push_bit 4 x)"

definition printptr :: "u64 \<Rightarrow> u8 list" where
  "printptr x = of_char (CHR ''0'') # of_char (CHR ''x'') # ptr_loop 16 x"

section \<open>Formats\<close>

text \<open>A variable argument: an \<open>int\<close>, a \<open>uint64\<close>, or a pointer to a string, possibly null.\<close>

datatype varg = AInt u32 | APtr u64 | AStr "u8 list option"

fun puts :: "u8 list \<Rightarrow> u8 list res" where
  "puts [] = Inl (Wild ''printf: past the end'')"
| "puts (c # s) = (if c = 0 then Inr [] else bindE (puts s) (\<lambda>r. Inr (c # r)))"

text \<open>\<open>va_arg\<close> with the wrong type, or without an argument, is a fault.\<close>

definition format1 :: "u8 \<Rightarrow> varg list \<Rightarrow> (u8 list \<times> varg list) res" where
  "format1 c args =
     (if c = of_char (CHR ''d'')
      then (case args of AInt x # as \<Rightarrow> bindE (printint x 10 True) (\<lambda>r. Inr (r, as)) | _ \<Rightarrow> Inl (Wild ''va_arg''))
      else if c = of_char (CHR ''x'')
      then (case args of AInt x # as \<Rightarrow> bindE (printint x 16 True) (\<lambda>r. Inr (r, as)) | _ \<Rightarrow> Inl (Wild ''va_arg''))
      else if c = of_char (CHR ''p'')
      then (case args of APtr x # as \<Rightarrow> Inr (printptr x, as) | _ \<Rightarrow> Inl (Wild ''va_arg''))
      else if c = of_char (CHR ''s'')
      then (case args of
              AStr None # as \<Rightarrow> Inr (map of_char ''(null)'', as)
            | AStr (Some s) # as \<Rightarrow> bindE (puts s) (\<lambda>r. Inr (r, as))
            | _ \<Rightarrow> Inl (Wild ''va_arg''))
      else if c = of_char (CHR ''%'') then Inr ([c], args)
      else Inr ([of_char (CHR ''%''), c], args))"

fun printf :: "u8 list \<Rightarrow> varg list \<Rightarrow> u8 list res" where
  "printf [] args = Inl (Wild ''printf: past the end'')"
| "printf (c # fmt) args =
     (if c = 0 then Inr []
      else if c \<noteq> of_char (CHR ''%'') then bindE (printf fmt args) (\<lambda>r. Inr (c # r))
      else case fmt of
             [] \<Rightarrow> Inl (Wild ''printf: past the end'')
           | c # fmt \<Rightarrow>
             if c = 0 then Inr []
             else bindE (format1 c args) (\<lambda>(o1, args). bindE (printf fmt args) (\<lambda>r. Inr (o1 @ r))))"

section \<open>The log\<close>

datatype log_level = TRACE | INFO | WARN | ERROR | NONE

primrec level_num :: "log_level \<Rightarrow> nat" where
  "level_num TRACE = 0"
| "level_num INFO = 1"
| "level_num WARN = 2"
| "level_num ERROR = 3"
| "level_num NONE = 4"

instantiation log_level :: linorder
begin

definition less_eq_log_level :: "log_level \<Rightarrow> log_level \<Rightarrow> bool" where
  "less_eq_log_level a b \<longleftrightarrow> level_num a \<le> level_num b"

definition less_log_level :: "log_level \<Rightarrow> log_level \<Rightarrow> bool" where
  "less_log_level a b \<longleftrightarrow> level_num a < level_num b"

instance
proof
  fix a b :: log_level
  show "a \<le> b \<Longrightarrow> b \<le> a \<Longrightarrow> a = b"
    by (cases a; cases b) (simp_all add: less_eq_log_level_def)
qed (auto simp: less_eq_log_level_def less_log_level_def)

end

text \<open>\<open>COLOR\<close> and \<open>LEVEL\<close> have no entry for \<open>NONE\<close>; no message has that level.\<close>

primrec COLOR :: "log_level \<Rightarrow> u32" where
  "COLOR TRACE = 37"
| "COLOR ERROR = 31"
| "COLOR WARN = 33"
| "COLOR INFO = 96"
| "COLOR NONE = 0"

primrec LEVEL :: "log_level \<Rightarrow> string" where
  "LEVEL TRACE = ''TRACE''"
| "LEVEL ERROR = ''ERROR''"
| "LEVEL WARN = ''WARN''"
| "LEVEL INFO = ''INFO''"
| "LEVEL NONE = ''''"

definition cstr :: "string \<Rightarrow> u8 list" where
  "cstr s = map of_char s @ [0]"

text \<open>The macro \<open>logger\<close>: a message of at least the level \<open>debug_level\<close>, coloured and tagged.\<close>

definition logger :: "log_level \<Rightarrow> int \<Rightarrow> log_level \<Rightarrow> string \<Rightarrow> varg list \<Rightarrow> u8 list res" where
  "logger debug_level curr_pid level fmt args =
     (if debug_level \<le> level
      then printf (0x1b # cstr (''[%dm[%s][%d] '' @ fmt @ [CHR 0x1b] @ ''[0m''))
             (AInt (COLOR level) # AStr (Some (cstr (LEVEL level))) # AInt (of_int curr_pid) # args)
      else Inr [])"

end
