(* ===== verification/UserStdio.thy ===== *)
theory UserStdio
  imports UserString Printf
begin

text \<open>
  Buffered output of the user library, \<open>user/lib/stdio.c\<close>, and its system call stubs,
  \<open>user/lib/syscall.c\<close>. What the kernel does is a parameter: \<open>sw\<close> is the system call \<open>write\<close>, with
  the result it returns; \<open>'w\<close> is the state of the world outside the process.
\<close>

section \<open>State\<close>

text \<open>\<open>buffer\<close> with its first \<open>buffer_len\<close> bytes, at most 256.\<close>

record 'w uout =
  obuf :: "u8 list"
  world :: 'w

type_synonym 'w write_call = "int \<Rightarrow> u8 list \<Rightarrow> 'w \<Rightarrow> int \<times> 'w"

definition write_buffer :: "'w write_call \<Rightarrow> 'w uout \<Rightarrow> int \<times> 'w uout" where
  "write_buffer sw s =
     (if obuf s = [] then (0, s)
      else (case sw 1 (obuf s) (world s) of (r, w) \<Rightarrow> (r, s\<lparr>world := w\<rparr>)))"

definition clear_buffer :: "'w uout \<Rightarrow> 'w uout" where
  "clear_buffer s = s\<lparr>obuf := []\<rparr>"

definition fflush :: "'w write_call \<Rightarrow> int \<Rightarrow> 'w uout \<Rightarrow> int \<times> 'w uout" where
  "fflush sw fd s =
     (if fd = 1
      then (case write_buffer sw s of (r, s) \<Rightarrow> (if r \<ge> 0 then 0 else r, clear_buffer s))
      else (0, s))"

text \<open>The loop of \<open>out\<close>; after \<open>__clear_buffer\<close> the test \<open>r < buffer_len\<close> compares with 0.\<close>

fun out_loop :: "'w write_call \<Rightarrow> u8 list \<Rightarrow> int \<Rightarrow> 'w uout \<Rightarrow> int \<times> 'w uout" where
  "out_loop sw [] ret s = (ret, s)"
| "out_loop sw (c # cs) ret s =
     (let s = s\<lparr>obuf := obuf s @ [c]\<rparr>
      in if length (obuf s) = 256 \<or> c = 10
         then (case write_buffer sw s of (r, s) \<Rightarrow>
           let s = clear_buffer s
           in if r < 0 then (r, s)
              else if r < int (length (obuf s)) then (ret + r, s)
              else out_loop sw cs (ret + r) s)
         else out_loop sw cs ret s)"

definition out :: "'w write_call \<Rightarrow> int \<Rightarrow> u8 list \<Rightarrow> 'w uout \<Rightarrow> int \<times> 'w uout" where
  "out sw f cs s =
     (if f \<noteq> 1 then (case sw f cs (world s) of (r, w) \<Rightarrow> (r, s\<lparr>world := w\<rparr>))
      else out_loop sw cs 0 s)"

definition putchar :: "'w write_call \<Rightarrow> u8 \<Rightarrow> 'w uout \<Rightarrow> int \<times> 'w uout" where
  "putchar sw c s = out sw 1 [c] s"

text \<open>\<open>-(out(stdout, s, strlen(s)) < 0 || putchar('\n') < 0)\<close>\<close>

definition puts_u :: "'w write_call \<Rightarrow> u8 list \<Rightarrow> 'w uout \<Rightarrow> (int \<times> 'w uout) res" where
  "puts_u sw cs s =
     bindE (strlen cs) (\<lambda>l.
       case out sw 1 (take l cs) s of (r, s) \<Rightarrow>
         if r < 0 then Inr (-1, s)
         else (case putchar sw 10 s of (r, s) \<Rightarrow> Inr (if r < 0 then -1 else 0, s)))"

text \<open>\<open>getchar\<close> is given the result of the call of \<open>read\<close> and the byte it stored.\<close>

definition getchar :: "int \<Rightarrow> u8 \<Rightarrow> int" where
  "getchar r byte = (if r = 1 then uint byte else -1)"

section \<open>Formatted output\<close>

text \<open>\<open>buf\<close> has 17 bytes and is filled from index 15 downwards: 16 characters fit.\<close>

definition printint_u :: "'w write_call \<Rightarrow> u32 \<Rightarrow> u32 \<Rightarrow> 'w uout \<Rightarrow> 'w uout res" where
  "printint_u sw xx base s = bindE (printint xx base True) (\<lambda>cs. Inr (snd (out sw 1 cs s)))"

definition printptr_u :: "'w write_call \<Rightarrow> u64 \<Rightarrow> 'w uout \<Rightarrow> 'w uout" where
  "printptr_u sw x s = snd (out sw 1 (printptr x) s)"

text \<open>\<open>for (z = s; s[0] == '%' && s[1] == '%'; z++, s += 2);\<close> gives \<open>z - s\<close> and the new \<open>s\<close>.\<close>

fun skip_pct :: "u8 list \<Rightarrow> nat \<times> u8 list" where
  "skip_pct (a # b # s) = (if a = 37 \<and> b = 37 then (case skip_pct s of (n, r) \<Rightarrow> (Suc n, r)) else (0, a # b # s))"
| "skip_pct s = (0, s)"

lemma skip_pct_length: "skip_pct s = (n, r) \<Longrightarrow> length s = 2 * n + length r"
  by (induction s arbitrary: n r rule: skip_pct.induct) (auto split: if_splits prod.splits)

lemma printf_progress:
  "(n, r) = skip_pct (drop (length (takeWhile P f)) f) \<Longrightarrow> length (takeWhile P f) + (2 * n + length r) = length f"
  using skip_pct_length[of "drop (length (takeWhile P f)) f" n r] length_takeWhile_le[of P f] by simp

definition conv_u :: "'w write_call \<Rightarrow> u8 \<Rightarrow> varg list \<Rightarrow> 'w uout \<Rightarrow> (varg list \<times> 'w uout) res" where
  "conv_u sw c args s =
     (if c = of_char (CHR ''d'')
      then (case args of AInt x # as \<Rightarrow> bindE (printint_u sw x 10 s) (\<lambda>s. Inr (as, s)) | _ \<Rightarrow> Inl (Wild ''va_arg''))
      else if c = of_char (CHR ''x'')
      then (case args of AInt x # as \<Rightarrow> bindE (printint_u sw x 16 s) (\<lambda>s. Inr (as, s)) | _ \<Rightarrow> Inl (Wild ''va_arg''))
      else if c = of_char (CHR ''p'')
      then (case args of APtr x # as \<Rightarrow> Inr (as, printptr_u sw x s) | _ \<Rightarrow> Inl (Wild ''va_arg''))
      else if c = of_char (CHR ''s'')
      then (case args of
              AStr None # as \<Rightarrow> Inr (as, snd (out sw 1 (map of_char ''(null)'') s))
            | AStr (Some a) # as \<Rightarrow>
                if scannable 200 a then Inr (as, snd (out sw 1 (cstrn 200 a) s)) else Inl (Wild ''strnlen: past the end'')
            | _ \<Rightarrow> Inl (Wild ''va_arg''))
      else Inr (args, snd (putchar sw c (snd (putchar sw 37 s)))))"

function printf_u :: "'w write_call \<Rightarrow> u8 list \<Rightarrow> varg list \<Rightarrow> 'w uout \<Rightarrow> 'w uout res" where
  "printf_u sw f args s =
     (case f of
        [] \<Rightarrow> Inl (Wild ''printf: past the end'')
      | c # _ \<Rightarrow>
        if c = 0 then Inr s
        else let lit = takeWhile (\<lambda>c. c \<noteq> 0 \<and> c \<noteq> 37) f;
                 z = drop (length lit) f
             in (case skip_pct z of (n, r) \<Rightarrow>
                  let l = length lit + n; s = snd (out sw 1 (take l f) s)
                  in if l \<noteq> 0 then printf_u sw r args s
                     else (case r of
                             _ # c # r' \<Rightarrow>
                               if c = 0 then Inr s
                               else bindE (conv_u sw c args s) (\<lambda>(args, s). printf_u sw r' args s)
                           | _ \<Rightarrow> Inl (Wild ''printf: past the end''))))"
  by pat_completeness auto

termination
proof (relation "measure (\<lambda>(sw, f, args, s). length f)", goal_cases)
  case (2 sw f args s c cs lit z n r l s')
  have "length lit + (2 * n + length r) = length f"
    using printf_progress[of n r "\<lambda>c. c \<noteq> 0 \<and> c \<noteq> 37" f] 2(3-5) by simp
  moreover have "length lit + n \<noteq> 0" using 2(6,8) by simp
  ultimately have "length r < length f" by linarith
  then show ?case by simp
next
  case (3 sw f args s c cs lit z n r l s')
  have "length lit + (2 * n + length r) = length f"
    using printf_progress[of n r "\<lambda>c. c \<noteq> 0 \<and> c \<noteq> 37" f] 3(3-5) by simp
  then have "length r \<le> length f" by linarith
  then show ?case using 3 by auto
qed simp

declare printf_u.simps [simp del]

section \<open>System calls\<close>

text \<open>A stub is the number of the call, for \<open>a7\<close>, and the arguments, for \<open>a0\<close> and following.\<close>

type_synonym ucall = "int \<times> u64 list"

definition open_u :: "u64 \<Rightarrow> u32 \<Rightarrow> ucall" where "open_u path flags = (56, [path, scast flags, 2])"
definition close_call :: "u32 \<Rightarrow> ucall" where "close_call fd = (57, [scast fd])"
definition read_u :: "u32 \<Rightarrow> u64 \<Rightarrow> u64 \<Rightarrow> ucall" where "read_u fd buf len = (63, [scast fd, buf, len])"
definition write_u :: "u32 \<Rightarrow> u64 \<Rightarrow> u64 \<Rightarrow> ucall" where "write_u fd buf len = (64, [scast fd, buf, len])"
definition getpid_u :: ucall where "getpid_u = (172, [])"
definition sched_yield_u :: ucall where "sched_yield_u = (124, [])"
definition fork_u :: ucall where "fork_u = (220, [])"
definition exit_call :: "u32 \<Rightarrow> ucall" where "exit_call code = (93, [scast code])"
definition waitpid_u :: "u32 \<Rightarrow> u64 \<Rightarrow> ucall" where "waitpid_u pid code = (260, [scast pid, code])"
definition wait_u :: "u64 \<Rightarrow> ucall" where "wait_u code = waitpid_u (-1) code"
definition exec_u :: "u64 \<Rightarrow> ucall" where "exec_u name = (221, [name])"
definition sys_get_time_u :: "u64 \<Rightarrow> u32 \<Rightarrow> ucall" where "sys_get_time_u ts tz = (169, [ts, scast tz])"
definition set_priority_u :: "u32 \<Rightarrow> ucall" where "set_priority_u prio = (140, [scast prio])"
definition mmap_u :: "u64 \<Rightarrow> u64 \<Rightarrow> u32 \<Rightarrow> ucall" where "mmap_u start len prot = (222, [start, len, scast prot])"
definition munmap_u :: "u64 \<Rightarrow> u64 \<Rightarrow> ucall" where "munmap_u start len = (215, [start, len])"
definition spawn_u :: "u64 \<Rightarrow> ucall" where "spawn_u file = (400, [file])"
definition mailread_u :: "u64 \<Rightarrow> u32 \<Rightarrow> ucall" where "mailread_u buf len = (401, [buf, scast len])"
definition mailwrite_u :: "u32 \<Rightarrow> u64 \<Rightarrow> u32 \<Rightarrow> ucall" where "mailwrite_u pid buf len = (402, [scast pid, buf, scast len])"
definition fstat_u :: "u32 \<Rightarrow> u64 \<Rightarrow> ucall" where "fstat_u fd st = (80, [scast fd, st])"

definition sys_linkat_u :: "u32 \<Rightarrow> u64 \<Rightarrow> u32 \<Rightarrow> u64 \<Rightarrow> u32 \<Rightarrow> ucall" where
  "sys_linkat_u olddirfd oldpath newdirfd newpath flags =
     (37, [scast olddirfd, oldpath, scast newdirfd, newpath, ucast flags])"

definition sys_unlinkat_u :: "u32 \<Rightarrow> u64 \<Rightarrow> u32 \<Rightarrow> ucall" where
  "sys_unlinkat_u dirfd path flags = (35, [scast dirfd, path, ucast flags])"

definition link_u :: "u64 \<Rightarrow> u64 \<Rightarrow> ucall" where
  "link_u oldp newp = sys_linkat_u (-100) oldp (-100) newp 0"

definition unlink_u :: "u64 \<Rightarrow> ucall" where
  "unlink_u path = sys_unlinkat_u (-100) path 0"

text \<open>\<open>close\<close> of the standard output and \<open>exit\<close> write the buffer out first.\<close>

definition close_u :: "'w write_call \<Rightarrow> u32 \<Rightarrow> 'w uout \<Rightarrow> ucall \<times> 'w uout" where
  "close_u sw fd s =
     (close_call fd, if fd = 1 then clear_buffer (snd (write_buffer sw s)) else s)"

definition exit_u :: "'w write_call \<Rightarrow> u32 \<Rightarrow> 'w uout \<Rightarrow> ucall \<times> 'w uout" where
  "exit_u sw code s = (exit_call code, clear_buffer (snd (write_buffer sw s)))"

text \<open>\<open>get_time\<close> in milliseconds, from the structure the kernel filled in; only 16 bits of seconds.\<close>

definition get_time_u :: "int \<Rightarrow> u64 \<Rightarrow> u64 \<Rightarrow> u64" where
  "get_time_u err sec usec = (if err = 0 then (sec AND 0xffff) * 1000 + usec div 1000 else -1)"

text \<open>\<open>sleep\<close> at the times \<open>now\<close> it reads: how often it yields before it returns, within the fuel.\<close>

fun sleep_loop :: "nat \<Rightarrow> nat \<Rightarrow> (nat \<Rightarrow> u64) \<Rightarrow> u64 \<Rightarrow> nat option" where
  "sleep_loop 0 k now until = None"
| "sleep_loop (Suc n) k now until = (if now k < until then sleep_loop n (Suc k) now until else Some k)"

definition sleep :: "nat \<Rightarrow> (nat \<Rightarrow> u64) \<Rightarrow> u64 \<Rightarrow> nat option" where
  "sleep fuel now time = sleep_loop fuel 1 now (now 0 + time)"

end
