(* ===== verification/NumberText.thy ===== *)
theory NumberText
  imports UserStdio
begin

text \<open>
  Numbers as text: what \<open>printint\<close> and \<open>printptr\<close> print, \<open>atoi\<close> and a reader of hexadecimal digits
  read back.
\<close>

section \<open>Decimal digits\<close>

definition is_dig :: "u8 \<Rightarrow> bool" where
  "is_dig c \<longleftrightarrow> 48 \<le> c \<and> c \<le> 57"

text \<open>The value of digits, least significant first.\<close>

primrec dval :: "u8 list \<Rightarrow> u32" where
  "dval [] = 0"
| "dval (c # cs) = (ucast c - 48) + 10 * dval cs"

lemma digit_dig: "d < 10 \<Longrightarrow> is_dig (digits ! d) \<and> ucast (digits ! d) - 48 = (of_nat d :: u32)"
proof -
  have "\<forall>d<10. is_dig (digits ! d) \<and> ucast (digits ! d) - 48 = (of_nat d :: u32)" by code_simp
  then show "d < 10 \<Longrightarrow> is_dig (digits ! d) \<and> ucast (digits ! d) - 48 = (of_nat d :: u32)" by blast
qed

lemma digit_loop_10:
  "unat x < 10 ^ Suc r \<Longrightarrow> Suc r \<le> room \<Longrightarrow>
   \<exists>cs. digit_loop room x 10 = Inr cs \<and> cs \<noteq> [] \<and> length cs \<le> Suc r \<and> list_all is_dig cs \<and> dval cs = x"
proof (induction r arbitrary: x room)
  case (0 x room)
  then obtain k where k: "room = Suc k" by (cases room) auto
  have "x div 10 = 0" "x mod 10 = x" using 0(1) by (simp_all add: word_arith_nat_div word_arith_nat_mod)
  then show ?case using k digit_dig[of "unat x"] 0(1) by (simp add: Let_def)
next
  case (Suc r x room)
  then obtain k where k: "room = Suc k" by (cases room) auto
  have d: "unat (x mod 10) < 10" by (simp add: unat_mod)
  have x: "x mod 10 + 10 * (x div 10) = x" by (rule mod_mult_div_eq)
  show ?case
  proof (cases "x div 10 = 0")
    case True
    then show ?thesis using k digit_dig[OF d] x by (simp add: Let_def)
  next
    case False
    have "unat (x div 10) < 10 ^ Suc r" using Suc.prems(1) by (simp add: unat_div div_less_iff_less_mult mult.commute)
    then obtain cs where "digit_loop k (x div 10) 10 = Inr cs" "length cs \<le> Suc r" "list_all is_dig cs"
      "dval cs = x div 10" using Suc.IH[of "x div 10" k] Suc.prems(2) k by auto
    then show ?thesis using k False digit_dig[OF d] x by (simp add: Let_def)
  qed
qed

lemma isdigit_dig:
  assumes "is_dig c"
  shows "isdigit (ucast c) \<and> \<not> isspace (ucast c) \<and> c \<noteq> 45 \<and> c \<noteq> 43"
proof -
  have all: "\<forall>d<10. let c = (of_nat (48 + d) :: u8) in isdigit (ucast c) \<and> \<not> isspace (ucast c) \<and> c \<noteq> 45 \<and> c \<noteq> 43"
    by code_simp
  have u: "48 \<le> unat c" "unat c \<le> 57" using assms by (simp_all add: is_dig_def word_le_nat_alt)
  then have "unat c - 48 < 10" "c = of_nat (48 + (unat c - 48))" by simp_all
  then show ?thesis using all unfolding Let_def by metis
qed

lemma isdigit_0: "\<not> isdigit 0"
  by code_simp

lemma atoi_digits_rev:
  "list_all is_dig cs \<Longrightarrow> atoi_digits n (rev cs @ t) = atoi_digits (n * 10 ^ length cs - dval cs) t"
  by (induction cs arbitrary: t) (auto simp: isdigit_dig algebra_simps)

lemma atoi_digits_all: "list_all is_dig cs \<Longrightarrow> atoi_digits 0 (rev cs @ [0]) = Inr (- dval cs)"
  by (simp add: atoi_digits_rev isdigit_0)

lemma atoi_dig: "is_dig c \<Longrightarrow> atoi (c # s) = bindE (atoi_digits 0 (c # s)) (\<lambda>n. Inr (- n))"
  using isdigit_dig[of c] by (simp del: atoi_digits.simps)

lemma atoi_rev:
  assumes "list_all is_dig cs" "cs \<noteq> []"
  shows "atoi (rev cs @ [0]) = Inr (dval cs)"
proof -
  obtain c r where c: "rev cs = c # r" using assms(2) by (cases "rev cs") auto
  have "is_dig c" using assms(1) c by (metis list_all_iff list.set_intros(1) set_rev)
  then have "atoi (rev cs @ [0]) = bindE (atoi_digits 0 (rev cs @ [0])) (\<lambda>n. Inr (- n))"
    unfolding c append_Cons by (rule atoi_dig)
  then show ?thesis unfolding atoi_digits_all[OF assms(1)] by simp
qed

text \<open>What \<open>printint\<close> prints of any 32-bit integer in base 10, the least one included, is at most
  eleven characters and fits its buffer, and \<open>atoi\<close> of the user library reads the integer back.\<close>

theorem printint_atoi:
  "\<exists>cs. printint x 10 True = Inr cs \<and> length cs \<le> 11 \<and> atoi (cs @ [0]) = Inr x"
proof -
  define neg where "neg = (sint x < 0)"
  define y where "y = (if neg then - x else x)"
  have "unat y < 10 ^ Suc 9" using unat_less_u32[of y] by simp
  then obtain ds where ds: "digit_loop 16 y 10 = Inr ds" "ds \<noteq> []" "length ds \<le> 10" "list_all is_dig ds" "dval ds = y"
    using digit_loop_10[of y 9 16] by auto
  note a = atoi_rev[OF ds(4,2), unfolded ds(5)]
  show ?thesis
  proof (cases neg)
    case True
    obtain c r where c: "rev ds = c # r" using ds(2) by (cases "rev ds") auto
    have ad: "atoi_digits 0 (rev ds @ [0]) = Inr (- y)" using atoi_digits_all[OF ds(4)] ds(5) by simp
    have "atoi (45 # rev ds @ [0]) = Inr x" using ad True by (simp add: isspace_def y_def Let_def)
    moreover have "printint x 10 True = Inr (45 # rev ds)"
      using ds(1,3) True by (simp add: printint_def Let_def y_def neg_def)
    ultimately show ?thesis using ds(3) by simp
  next
    case False
    then have "printint x 10 True = Inr (rev ds)" using ds(1) by (simp add: printint_def Let_def y_def neg_def)
    then show ?thesis using a ds(3) False by (simp add: y_def)
  qed
qed

section \<open>Hexadecimal addresses\<close>

text \<open>The value of a hexadecimal digit, and of a sequence of them, most significant first.\<close>

definition hexval :: "u8 \<Rightarrow> u64" where
  "hexval c = (if c \<le> 57 then ucast c - 48 else ucast c - 87)"

definition hexread :: "u8 list \<Rightarrow> u64" where
  "hexread cs = foldl (\<lambda>v c. push_bit 4 v OR hexval c) 0 cs"

lemma hexval_digit: "d < 16 \<Longrightarrow> hexval (digits ! d) = of_nat d"
proof -
  have "\<forall>d<16. hexval (digits ! d) = of_nat d" by code_simp
  then show "d < 16 \<Longrightarrow> hexval (digits ! d) = of_nat d" by blast
qed

lemma ptr_digit: "hexval (digits ! unat (drop_bit 60 (x :: u64))) = drop_bit 60 x"
proof -
  have "unat (drop_bit 60 x) = unat x div 2 ^ 60" by (simp add: drop_bit_eq_div unat_div)
  moreover have "unat x < 2 ^ 64" using unat_less_u64[of x] by simp
  ultimately have "unat (drop_bit 60 x) < 16" by (simp add: div_less_iff_less_mult)
  from hexval_digit[OF this] show ?thesis by simp
qed

lemma ptr_loop_read:
  "n \<le> 16 \<Longrightarrow> foldl (\<lambda>v c. push_bit 4 v OR hexval c) v (ptr_loop n x) = (push_bit (4 * n) v OR drop_bit (64 - 4 * n) x)"
proof (induction n arbitrary: v x)
  case 0
  have "drop_bit 64 x = 0" by (rule bit_word_eqI) (auto simp: bit_simps dest: bit_imp_le_length)
  then show ?case by simp
next
  case (Suc n)
  have "4 * n \<le> 60" using Suc.prems by simp
  then obtain j where j: "60 = 4 * n + j" using le_Suc_ex by blast
  have e: "64 - 4 * n = j + 4" "64 - 4 * Suc n = j" using j by simp_all
  have "push_bit (4 * n) (push_bit 4 v OR drop_bit 60 x) OR drop_bit (j + 4) (push_bit 4 x)
    = push_bit (4 * Suc n) v OR drop_bit j x"
  proof (rule bit_word_eqI)
    fix k assume k: "k < LENGTH(64)"
    show "bit (push_bit (4 * n) (push_bit 4 v OR drop_bit 60 x) OR drop_bit (j + 4) (push_bit 4 x)) k
      = bit (push_bit (4 * Suc n) v OR drop_bit j x) k"
    proof (cases "k < 4 * n")
      case True
      then have "j + 4 + k < 64" using j by simp
      then show ?thesis using True by (simp add: bit_simps)
    next
      case False
      then obtain i where i: "k = 4 * n + i" using le_Suc_ex not_less by blast
      have e60: "bit x (60 + i) = bit x (j + k)" using i j by (simp add: ac_simps)
      have "\<not> j + 4 + k < 64" using i j by simp
      then have "\<not> bit (drop_bit (j + 4) (push_bit 4 x)) k" using bit_imp_le_length[of x] by (auto simp: bit_simps ac_simps)
      moreover have "bit (push_bit (4 * n) (push_bit 4 v OR drop_bit 60 x)) k = (bit (push_bit 4 v) i \<or> bit x (60 + i))"
        using i k by (simp add: bit_simps)
      moreover have "bit (push_bit (4 * Suc n) v) k = bit (push_bit 4 v) i"
        using i k by (auto simp: bit_simps)
      moreover have "bit (drop_bit j x) k = bit x (j + k)" by (simp add: bit_simps)
      ultimately show ?thesis by (simp add: bit_or_iff e60)
    qed
  qed
  then show ?case unfolding e using Suc e by (simp add: ptr_digit)
qed

lemma length_ptr_loop: "length (ptr_loop n x) = n"
  by (induction n arbitrary: x) simp_all

text \<open>\<open>printptr\<close> prints \<open>0x\<close> and exactly sixteen hexadecimal digits, whose value is the address.\<close>

theorem printptr_hexread:
  "length (printptr x) = 18 \<and> take 2 (printptr x) = [48, 120] \<and> hexread (drop 2 (printptr x)) = x"
  using ptr_loop_read[of 16 0 x] by (simp add: printptr_def hexread_def length_ptr_loop)

end
