(* ===== verification/OutputStream.thy ===== *)
theory OutputStream
  imports UserStdio
begin

text \<open>
  The buffered output of the user library as a stream: what has reached the file followed by what is
  in the buffer is what was put, line by line.
\<close>

section \<open>The stream\<close>

text \<open>A system call \<open>write\<close> on standard output that takes all bytes, as the console does.\<close>

definition writes_all :: "u8 list write_call \<Rightarrow> bool" where
  "writes_all sw \<longleftrightarrow> sw 1 = (\<lambda>bs w. (int (length bs), w @ bs))"

definition stream :: "u8 list uout \<Rightarrow> u8 list" where
  "stream s = world s @ obuf s"

text \<open>The buffer has room for a byte, and holds no complete line.\<close>

definition line_buffered :: "u8 list uout \<Rightarrow> bool" where
  "line_buffered s \<longleftrightarrow> length (obuf s) < 256 \<and> 10 \<notin> set (obuf s)"

lemma out_loop_stream:
  assumes "writes_all sw" "line_buffered s" "out_loop sw cs ret s = (r, s')"
  shows "stream s' = stream s @ cs \<and> line_buffered s' \<and> ret \<le> r \<and> (r = ret + (int (length (world s')) - int (length (world s))))
    \<and> (\<exists>l. world s' = world s @ l)"
  using assms(2,3)
proof (induction cs arbitrary: ret s)
  case (Cons c cs)
  let ?t = "s\<lparr>obuf := obuf s @ [c]\<rparr>"
  show ?case
  proof (cases "length (obuf ?t) = 256 \<or> c = 10")
    case True
    let ?u = "s\<lparr>world := world s @ obuf s @ [c], obuf := []\<rparr>"
    have "out_loop sw (c # cs) ret s = out_loop sw cs (ret + int (length (obuf s @ [c]))) ?u"
      using True assms(1) by (simp add: Let_def write_buffer_def clear_buffer_def writes_all_def)
    then have "out_loop sw cs (ret + int (length (obuf s @ [c]))) ?u = (r, s')" using Cons.prems(2) by simp
    from Cons.IH[OF _ this] show ?thesis by (auto simp: line_buffered_def stream_def)
  next
    case False
    then have "out_loop sw cs ret ?t = (r, s')" using Cons.prems(2) by (simp add: Let_def)
    from Cons.IH[OF _ this] show ?thesis using False Cons.prems(1) by (auto simp: line_buffered_def stream_def)
  qed
qed (auto simp: stream_def)



end
