(* ===== verification/LifeFrame.thy ===== *)
theory LifeFrame
  imports Lifecycle
begin

text \<open>
  What the operations of a process's life cycle leave alone: those on memory and files change
  neither the states, pids and parents in the process table nor who runs.
\<close>

section \<open>Operations on memory\<close>

lemma mem_only_set_mem: "mem_only s s' \<Longrightarrow> mem_only s (s'\<lparr>mem := m\<rparr>)"
  by simp

lemma uvmcopy_loop_mem_only: "uvmcopy_loop old new i sz s = Inr (r, s') \<Longrightarrow> mem_only s s'"
proof (induction old new i sz s rule: uvmcopy_loop.induct)
  case (1 old new i sz s)
  show ?case
  proof (cases "i < sz")
    case True
    obtain pte s1 where w: "walk old i False s = Inr (pte, s1)" "pte \<noteq> 0" "load64 (mem s1) pte AND PTE_V \<noteq> 0"
      using 1(2) True by (subst (asm) uvmcopy_loop.simps) (auto simp: bindE_Inr_iff Let_def split: if_splits)
    obtain m s2 where a: "kalloc s1 = (m, s2)" by fastforce
    have s2: "mem_only s s2" using mem_only_trans walk_mem_only[OF w(1)] kalloc_mem_only[OF a] by blast
    show ?thesis
    proof (cases "m = 0")
      case True
      then obtain s3 where "uvmunmap new 0 (i div PGSIZE) True s2 = Inr s3" "s' = s3"
        using 1(2) \<open>i < sz\<close> w a by (subst (asm) uvmcopy_loop.simps) (auto simp: bindE_Inr_iff Let_def split: if_splits)
      then show ?thesis using s2 uvmunmap_mem_only mem_only_trans by blast
    next
      case False
      let ?e = "load64 (mem s1) pte" and ?m = "memmove (mem s2) m (PTE2PA (load64 (mem s1) pte)) 4096"
      obtain c s3 where mp: "mappages new i PGSIZE m (ucast (PTE_FLAGS ?e)) (s2\<lparr>mem := ?m\<rparr>) = Inr (c, s3)"
        and rest: "(if c \<noteq> 0 then bindE (kfree m s3) (\<lambda>s. bindE (uvmunmap new 0 (i div PGSIZE) True s) (\<lambda>s. Inr (-1, s)))
            else uvmcopy_loop old new (i + PGSIZE) sz s3) = Inr (r, s')"
        using 1(2) True w a False
        by (subst (asm) uvmcopy_loop.simps) (auto simp: bindE_Inr_iff Let_def simp del: bindE.simps)
      have s3: "mem_only s s3" using mappages_mem_only[OF mp] mem_only_set_mem[OF s2] mem_only_trans by blast
      show ?thesis
      proof (cases "c = 0")
        case True
        have "mem_only s3 s'"
          using rest True 1(1)[OF \<open>i < sz\<close> w(1) refl w(2) refl w(3) refl refl a[symmetric] False refl mp refl] by simp
        then show ?thesis using s3 mem_only_trans by blast
      next
        case False
        then obtain s4 where s4: "kfree m s3 = Inr s4" "uvmunmap new 0 (i div PGSIZE) True s4 = Inr s'"
          using rest by (auto simp: bindE_Inr_iff)
        show ?thesis using mem_only_trans[OF mem_only_trans[OF s3 kfree_mem_only[OF s4(1)]] uvmunmap_mem_only[OF s4(2)]] .
      qed
    qed
  qed (use 1(2) in \<open>subst (asm) uvmcopy_loop.simps, simp\<close>)
qed

lemma uvmcopy_mem_only [frame_intros]: "uvmcopy old new sz s = Inr (r, s') \<Longrightarrow> mem_only s s'"
  unfolding uvmcopy_def by (rule uvmcopy_loop_mem_only)

lemma pipeclose_mem_only [frame_intros]: "pipeclose pi w s = Inr s' \<Longrightarrow> mem_only s s'"
  by (auto simp: pipeclose_def Let_def split: if_splits dest!: kfree_mem_only) (simp_all add: mem_only_def)

lemma proc_pagetable_mem_only [frame_intros]:
  assumes "proc_pagetable tf s = Inr (pt, s')"
  shows "mem_only s s'"
proof -
  obtain p s1 where c: "uvmcreate s = (p, s1)" by fastforce
  obtain r s2 where m: "mappages p TRAMPOLINE PGSIZE (trampoline s1) (2 OR 8) s1 = Inr (r, s2)"
    using assms c by (auto simp: proc_pagetable_def bindE_Inr_iff split: if_splits)
  have s2: "mem_only s s2" using uvmcreate_mem_only[OF c] mappages_mem_only[OF m] mem_only_trans by blast
  show ?thesis
  proof (cases "r < 0")
    case True
    then obtain s3 where "uvmfree p 0 s2 = Inr s3" "s' = s3"
      using assms c m by (auto simp: proc_pagetable_def bindE_Inr_iff split: if_splits)
    then show ?thesis using s2 uvmfree_mem_only mem_only_trans by blast
  next
    case False
    then obtain r3 s3 where
      "mappages p TRAPFRAME PGSIZE tf (2 OR 4) (s2\<lparr>mem := memset (mem s2) tf 0 288\<rparr>) = Inr (r3, s3)" "s' = s3"
      using assms c m by (auto simp: proc_pagetable_def bindE_Inr_iff Let_def split: if_splits)
    then show ?thesis using mem_only_set_mem[OF s2] mappages_mem_only mem_only_trans by blast
  qed
qed

lemma proc_freepagetable_mem_only [frame_intros]: "proc_freepagetable pt z s = Inr s' \<Longrightarrow> mem_only s s'"
  by (auto simp: proc_freepagetable_def bindE_Inr_iff dest!: uvmunmap_mem_only uvmfree_mem_only)
    (simp add: mem_only_def)

lemma load_loop_mem_only [frame_intros]: "load_loop pt va pa e s = Inr s' \<Longrightarrow> mem_only s s'"
proof (induction pt va pa e s rule: load_loop.induct)
  case (1 pt va pa e s)
  show ?case
  proof (cases "pa < e")
    case True
    obtain pg s1 where a: "kalloc s = (pg, s1)" by fastforce
    obtain s2 where m: "pg \<noteq> 0"
      "mappages pt va PGSIZE pg (16 OR 2 OR 4 OR 8) (s1\<lparr>mem := memmove (mem s1) pg pa 4096\<rparr>) = Inr (0, s2)"
      "load_loop pt (va + PGSIZE) (pa + PGSIZE) e s2 = Inr s'"
      using 1(2) True a by (subst (asm) load_loop.simps) (auto simp: bindE_Inr_iff Let_def split: if_splits)
    have "mem_only s2 s'" using 1(1)[OF True a[symmetric] m(1) refl m(2) refl _ m(3)] by simp
    moreover have "mem_only s s2"
      using kalloc_mem_only[OF a] mappages_mem_only[OF m(2)] mem_only_set_mem mem_only_trans by blast
    ultimately show ?thesis using mem_only_trans by blast
  qed (use 1(2) in \<open>subst (asm) load_loop.simps, simp\<close>)
qed

end
