(* ===== verification/ProcTable.thy ===== *)
theory ProcTable
  imports LifeFrame
begin

text \<open>
  The process table as a state machine: an abstract table of states, pids and parents with its
  transitions, an invariant of the reachable tables, and the proof that every operation of
  the life cycle of processes takes the abstract table along those transitions.
\<close>

section \<open>The abstract table\<close>

text \<open>State, pid and parent of each slot, who runs, and the next pid.\<close>

type_synonym slot = "procstate \<times> int \<times> pref option"

record ptab =
  slots :: "slot list"
  cur :: pref
  next_pid :: int

abbreviation upd_slot :: "nat \<Rightarrow> slot \<Rightarrow> ptab \<Rightarrow> ptab" where
  "upd_slot i x t \<equiv> t\<lparr>slots := (slots t)[i := x]\<rparr>"

text \<open>
  The transitions. The rule \<open>full\<close> is the fork of a process when the table is full, which makes the
  process its own runnable child.
\<close>

inductive pt_step :: "ptab \<Rightarrow> ptab \<Rightarrow> bool" where
  alloc: "i < length (slots t) \<Longrightarrow> slots t ! i = (UNUSED, p, q) \<Longrightarrow>
    pt_step t (upd_slot i (USED, next_pid t, None) t\<lparr>next_pid := next_pid t + 1\<rparr>)"
| ready: "i < length (slots t) \<Longrightarrow> slots t ! i = (USED, p, q) \<Longrightarrow> q' \<in> {None, Some (cur t)} \<Longrightarrow>
    pt_step t (upd_slot i (RUNNABLE, p, q') t)"
| full: "cur t = Pool i \<Longrightarrow> slots t ! i = (st, p, q) \<Longrightarrow>
    pt_step t (upd_slot i (RUNNABLE, p, Some (cur t)) t)"
| switch: "cur t = Idle \<Longrightarrow> i < length (slots t) \<Longrightarrow> slots t ! i = (RUNNABLE, p, q) \<Longrightarrow>
    pt_step t (upd_slot i (RUNNING, p, q) t\<lparr>cur := Pool i\<rparr>)"
| give_up: "cur t = Pool i \<Longrightarrow> slots t ! i = (st, p, q) \<Longrightarrow>
    pt_step t (upd_slot i (RUNNABLE, p, q) t\<lparr>cur := Idle\<rparr>)"
| exits: "cur t = Pool i \<Longrightarrow> slots t ! i = (st, p, q) \<Longrightarrow>
    pt_step t (upd_slot i (if q = None then UNUSED else ZOMBIE, p, q) t\<lparr>cur := Idle\<rparr>)"
| reap: "i < length (slots t) \<Longrightarrow> slots t ! i = (ZOMBIE, p, Some (cur t)) \<Longrightarrow>
    pt_step t (upd_slot i (UNUSED, p, Some (cur t)) t)"

inductive_cases pt_stepE: "pt_step t t'"

text \<open>
  The invariant: at most the current slot runs, and it is runnable or running; pids of used slots are
  below the next one and different; an exited process waits for a parent.
\<close>

definition pt_inv :: "ptab \<Rightarrow> bool" where
  "pt_inv t \<longleftrightarrow>
     (\<forall>i. cur t = Pool i \<longrightarrow> i < length (slots t) \<and> fst (slots t ! i) \<in> {RUNNING, RUNNABLE}) \<and>
     (\<forall>i < length (slots t). case slots t ! i of (st, p, q) \<Rightarrow>
        (st = RUNNING \<longrightarrow> cur t = Pool i) \<and> (st \<noteq> UNUSED \<longrightarrow> 0 < p \<and> p < next_pid t) \<and> (st = ZOMBIE \<longrightarrow> q \<noteq> None)) \<and>
     (\<forall>i < length (slots t). \<forall>j < length (slots t). i \<noteq> j \<longrightarrow> fst (slots t ! i) \<noteq> UNUSED \<longrightarrow> fst (slots t ! j) \<noteq> UNUSED \<longrightarrow>
        fst (snd (slots t ! i)) \<noteq> fst (snd (slots t ! j))) \<and> 0 < next_pid t"

lemma pt_inv_slot:
  "pt_inv t \<Longrightarrow> i < length (slots t) \<Longrightarrow> slots t ! i = (st, p, q) \<Longrightarrow>
   (st = RUNNING \<longrightarrow> cur t = Pool i) \<and> (st \<noteq> UNUSED \<longrightarrow> 0 < p \<and> p < next_pid t) \<and> (st = ZOMBIE \<longrightarrow> q \<noteq> None)"
  unfolding pt_inv_def by fastforce

lemma pt_inv_cur: "pt_inv t \<Longrightarrow> cur t = Pool i \<Longrightarrow> i < length (slots t) \<and> fst (slots t ! i) \<in> {RUNNING, RUNNABLE}"
  by (simp add: pt_inv_def)

lemma pt_inv_distinct:
  "pt_inv t \<Longrightarrow> i < length (slots t) \<Longrightarrow> j < length (slots t) \<Longrightarrow> i \<noteq> j \<Longrightarrow> fst (slots t ! i) \<noteq> UNUSED \<Longrightarrow>
   fst (slots t ! j) \<noteq> UNUSED \<Longrightarrow> fst (snd (slots t ! i)) \<noteq> fst (snd (slots t ! j))"
  unfolding pt_inv_def by blast

text \<open>Changing one slot, with its pid kept or fresh, and who runs.\<close>

lemma pt_inv_upd:
  assumes "pt_inv t" "i < length (slots t)" "next_pid t \<le> n"
    and "st \<noteq> UNUSED \<Longrightarrow> (p = fst (snd (slots t ! i)) \<and> fst (slots t ! i) \<noteq> UNUSED) \<or> (p = next_pid t \<and> p < n)"
    and "st = ZOMBIE \<Longrightarrow> q \<noteq> None"
    and "case c of Pool k \<Rightarrow> (k = i \<and> st \<in> {RUNNING, RUNNABLE}) \<or> (k \<noteq> i \<and> cur t = c \<and> st \<noteq> RUNNING) | Idle \<Rightarrow> st \<noteq> RUNNING"
    and "cur t = c \<or> cur t = Pool i \<or> cur t = Idle"
  shows "pt_inv \<lparr>slots = (slots t)[i := (st, p, q)], cur = c, next_pid = n\<rparr>"
proof -
  obtain st0 p0 q0 where s0: "slots t ! i = (st0, p0, q0)" by (cases "slots t ! i")
  note i0 = pt_inv_slot[OF assms(1,2) s0]
  have pos: "0 < next_pid t" using assms(1) by (simp add: pt_inv_def)
  have p4: "st \<noteq> UNUSED \<Longrightarrow> (p = p0 \<and> st0 \<noteq> UNUSED) \<or> (p = next_pid t \<and> p < n)" using assms(4) s0 by simp
  have p: "0 < p \<and> p < n" if "st \<noteq> UNUSED"
    using p4[OF that] i0 pos assms(3) by (elim disjE) auto
  have old: "(st' = RUNNING \<longrightarrow> c = Pool j) \<and> (st' \<noteq> UNUSED \<longrightarrow> 0 < p' \<and> p' < n) \<and> (st' = ZOMBIE \<longrightarrow> q' \<noteq> None)"
    if "j < length (slots t)" "j \<noteq> i" "slots t ! j = (st', p', q')" for j st' p' q'
    using pt_inv_slot[OF assms(1) that(1,3)] assms(3,6,7) that(2) by (cases c) auto
  have dist: "p \<noteq> fst (snd (slots t ! j))"
    if "j < length (slots t)" "j \<noteq> i" "fst (slots t ! j) \<noteq> UNUSED" "st \<noteq> UNUSED" for j
  proof -
    obtain a b d where j: "slots t ! j = (a, b, d)" by (cases "slots t ! j")
    have "b < next_pid t" using pt_inv_slot[OF assms(1) that(1) j] that(3) j by simp
    moreover have "st0 \<noteq> UNUSED \<Longrightarrow> fst (snd (slots t ! i)) \<noteq> fst (snd (slots t ! j))"
      using pt_inv_distinct[OF assms(1,2) that(1) _ _ that(3)] that(2) s0 by simp
    ultimately show ?thesis using p4[OF that(4)] s0 j by auto
  qed
  have cur: "k < length (slots t) \<and> fst ((slots t)[i := (st, p, q)] ! k) \<in> {RUNNING, RUNNABLE}" if "c = Pool k" for k
    using assms(2,6) that pt_inv_cur[OF assms(1), of k] by (cases "k = i") auto
  have rest: "case (slots t)[i := (st, p, q)] ! j of (st', p', q') \<Rightarrow>
      (st' = RUNNING \<longrightarrow> c = Pool j) \<and> (st' \<noteq> UNUSED \<longrightarrow> 0 < p' \<and> p' < n) \<and> (st' = ZOMBIE \<longrightarrow> q' \<noteq> None)"
    if "j < length (slots t)" for j
  proof (cases "j = i")
    case True
    have "st = RUNNING \<longrightarrow> c = Pool i" using assms(6) by (auto split: pref.splits)
    then show ?thesis using True p assms(2,5) by simp
  next
    case False
    then show ?thesis using old[OF that False] by (simp split: prod.split)
  qed
  have all_dist: "fst (snd ((slots t)[i := (st, p, q)] ! j)) \<noteq> fst (snd ((slots t)[i := (st, p, q)] ! k))"
    if "j < length (slots t)" "k < length (slots t)" "j \<noteq> k"
      "fst ((slots t)[i := (st, p, q)] ! j) \<noteq> UNUSED" "fst ((slots t)[i := (st, p, q)] ! k) \<noteq> UNUSED" for j k
  proof (cases "j = i")
    case True
    then show ?thesis using that dist[of k] by simp
  next
    case j: False
    show ?thesis
    proof (cases "k = i")
      case True
      then show ?thesis using that dist[of j] j by simp
    next
      case False
      then show ?thesis using that j pt_inv_distinct[OF assms(1) that(1,2,3)] by simp
    qed
  qed
  have "0 < n" using assms(1,3) by (simp add: pt_inv_def)
  then show ?thesis unfolding pt_inv_def using cur rest all_dist by simp
qed

lemma ptab_eta: "t\<lparr>slots := a\<rparr> = \<lparr>slots = a, cur = cur t, next_pid = next_pid t\<rparr>"
  "t\<lparr>slots := a, cur := c\<rparr> = \<lparr>slots = a, cur = c, next_pid = next_pid t\<rparr>"
  "t\<lparr>slots := a, next_pid := n\<rparr> = \<lparr>slots = a, cur = cur t, next_pid = n\<rparr>" for t :: ptab
  by simp_all

lemma pt_step_inv: "pt_step t t' \<Longrightarrow> pt_inv t \<Longrightarrow> pt_inv t'"
proof (induction rule: pt_step.induct)
  case (alloc i t p q)
  then have "cur t \<noteq> Pool i" using pt_inv_cur[of t i] by auto
  then show ?case unfolding ptab_eta ptab.update_convs using alloc by (intro pt_inv_upd) (auto split: pref.splits)
next
  case (ready i t p q q')
  then have "cur t \<noteq> Pool i" using pt_inv_cur[of t i] by auto
  then show ?case unfolding ptab_eta ptab.update_convs using ready by (intro pt_inv_upd) (auto split: pref.splits)
next
  case (full t i st p q)
  then show ?case unfolding ptab_eta ptab.update_convs using pt_inv_cur[of t i] by (intro pt_inv_upd) (auto split: pref.splits)
next
  case (switch t i p q)
  then show ?case unfolding ptab_eta ptab.update_convs by (intro pt_inv_upd) auto
next
  case (give_up t i st p q)
  then show ?case unfolding ptab_eta ptab.update_convs using pt_inv_cur[of t i] by (intro pt_inv_upd) auto
next
  case (exits t i st p q)
  then show ?case unfolding ptab_eta ptab.update_convs using pt_inv_cur[of t i] by (intro pt_inv_upd) (auto split: if_splits)
next
  case (reap i t p)
  then have "cur t \<noteq> Pool i" using pt_inv_cur[of t i] by auto
  then show ?case unfolding ptab_eta ptab.update_convs using reap by (intro pt_inv_upd) (auto split: pref.splits)
qed

lemma pt_steps_inv: "pt_step\<^sup>*\<^sup>* t t' \<Longrightarrow> pt_inv t \<Longrightarrow> pt_inv t'"
  by (induction rule: rtranclp_induct) (auto intro: pt_step_inv)

end
