(* ===== verification/Scheduler.thy ===== *)
theory Scheduler
  imports Lifecycle
begin

text \<open>
  The scheduler: which process the loop of \<open>scheduler\<close> switches to, when it panics, and that every
  process that stays runnable gets its turn.
\<close>

section \<open>One turn\<close>

text \<open>The first runnable slot at or after \<open>i\<close>, in the order in which the loop visits them.\<close>

definition next_runnable :: "nat \<Rightarrow> proc list \<Rightarrow> nat option" where
  "next_runnable i ps =
     (case find_idx (\<lambda>p. pstate p = RUNNABLE) (drop i ps) of
        Some k \<Rightarrow> Some (i + k)
      | None \<Rightarrow> find_idx (\<lambda>p. pstate p = RUNNABLE) ps)"

lemma sched_pick_scan:
  "sched_pick i d s =
     (case find_idx (\<lambda>p. pstate p = RUNNABLE) (drop i (pool s)) of
        Some k \<Rightarrow> Inr (i + k, switch_to (i + k) s)
      | None \<Rightarrow> if d then Inl (Panic ''all apps over'') else sched_pick 0 True s)"
proof (induction i d s rule: sched_pick.induct)
  case (1 i d s)
  show ?case
  proof (cases "i < length (pool s)")
    case True
    then have dr: "drop i (pool s) = pool s ! i # drop (Suc i) (pool s)" by (rule Cons_nth_drop_Suc[symmetric])
    show ?thesis
    proof (cases "pstate (pool s ! i) = RUNNABLE")
      case False
      have "sched_pick i d s = sched_pick (Suc i) d s" using True False by (subst sched_pick.simps) simp
      then show ?thesis using 1(1)[OF True False] False dr by (simp split: option.splits)
    qed (simp add: True dr sched_pick.simps[of i d s])
  qed (simp add: sched_pick.simps[of i d s])
qed

lemma sched_pick_turn:
  assumes "i = 0 \<or> \<not> d"
  shows "sched_pick i d s =
    (case next_runnable i (pool s) of
       Some k \<Rightarrow> Inr (k, switch_to k s)
     | None \<Rightarrow> Inl (Panic ''all apps over''))"
  using assms sched_pick_scan[of i d s] sched_pick_scan[of 0 True s]
  by (auto simp: next_runnable_def split: option.splits)

text \<open>From slot \<open>i\<close> on, when the scheduler starts or is resumed, it switches to the first runnable
  process in cyclic order; it panics exactly when no process is runnable.\<close>

theorem sched_pick_correct:
  assumes "i = 0 \<or> \<not> d"
  shows "sched_pick i d s =
    (case next_runnable i (pool s) of
       Some k \<Rightarrow> Inr (k, switch_to k s)
     | None \<Rightarrow> Inl (Panic ''all apps over''))"
  by (rule sched_pick_turn[OF assms])

theorem sched_pick_correct_witness:
  "sched_pick 2 False (kproc0 (\<lambda>_. 0)\<lparr>pool := [proc0\<lparr>pstate := RUNNABLE\<rparr>, proc0, proc0]\<rparr>)
   = Inr (0, switch_to 0 (kproc0 (\<lambda>_. 0)\<lparr>pool := [proc0\<lparr>pstate := RUNNABLE\<rparr>, proc0, proc0]\<rparr>))"
  using sched_pick_correct[of 2 False "kproc0 (\<lambda>_. 0)\<lparr>pool := [proc0\<lparr>pstate := RUNNABLE\<rparr>, proc0, proc0]\<rparr>"]
  by (simp add: next_runnable_def proc0_def)

section \<open>Fairness\<close>

text \<open>
  The loop of \<open>scheduler\<close> for \<open>n\<close> turns; \<open>run k\<close> is what the process in slot \<open>k\<close> does until it gives
  up the processor. The result is the sequence of slots.
\<close>

fun schedule :: "(nat \<Rightarrow> 'a kproc_scheme \<Rightarrow> 'a kproc_scheme) \<Rightarrow> nat \<Rightarrow> nat \<Rightarrow> bool \<Rightarrow> 'a kproc_scheme \<Rightarrow> nat list res" where
  "schedule run 0 i d s = Inr []"
| "schedule run (Suc n) i d s =
     bindE (sched_pick i d s) (\<lambda>(k, s).
     bindE (schedule run n (Suc k) False (run k s)) (\<lambda>ks. Inr (k # ks)))"

text \<open>How many slots the loop visits before it reaches slot \<open>j\<close>.\<close>

definition dist :: "nat \<Rightarrow> nat \<Rightarrow> nat \<Rightarrow> nat" where
  "dist N i j = (if i \<le> j then j - i else N - i + j)"

lemma next_runnable_dist:
  assumes "j < length ps" "pstate (ps ! j) = RUNNABLE" "i \<le> length ps"
  shows "\<exists>k. next_runnable i ps = Some k \<and> k < length ps \<and>
    (k \<noteq> j \<longrightarrow> dist (length ps) (Suc k) j < dist (length ps) i j)"
proof (cases "find_idx (\<lambda>p. pstate p = RUNNABLE) (drop i ps)")
  case (Some k)
  then have k: "i + k < length ps" "\<forall>l<k. pstate (ps ! (i + l)) \<noteq> RUNNABLE" by (auto simp: find_idx_Some)
  have "i + k \<le> j" if "i \<le> j"
  proof (rule ccontr)
    assume "\<not> i + k \<le> j"
    then have "j - i < k" using that by simp
    then show False using k(2) assms(2) that by fastforce
  qed
  then show ?thesis using Some k(1) by (auto simp: next_runnable_def dist_def)
next
  case None
  have "j < i"
  proof (rule ccontr)
    assume "\<not> j < i"
    then have "drop i ps ! (j - i) = ps ! j" "j - i < length (drop i ps)" using assms(1) by simp_all
    then have "ps ! j \<in> set (drop i ps)" using nth_mem by metis
    then show False using None assms(2) by (auto simp: find_idx_None)
  qed
  obtain k where k: "find_idx (\<lambda>p. pstate p = RUNNABLE) ps = Some k"
    using assms(1,2) by (cases "find_idx (\<lambda>p. pstate p = RUNNABLE) ps") (auto simp: find_idx_None)
  then have "k \<le> j" "k < length ps" using assms(2) leI by (auto simp: find_idx_Some)
  then show ?thesis using None k \<open>j < i\<close> assms(3) by (auto simp: next_runnable_def dist_def)
qed

lemma switch_to_pool: "pool (switch_to k s) = (pool s)[k := (pool s ! k)\<lparr>pstate := RUNNING\<rparr>]"
  by (simp add: switch_to_def Let_def)

definition keeps_runnable :: "nat \<Rightarrow> nat \<Rightarrow> (nat \<Rightarrow> 'a kproc_scheme \<Rightarrow> 'a kproc_scheme) \<Rightarrow> bool" where
  "keeps_runnable N j run \<longleftrightarrow> (\<forall>k s. k \<noteq> j \<longrightarrow> length (pool s) = N \<longrightarrow> pstate (pool s ! j) = RUNNABLE \<longrightarrow>
     length (pool (run k s)) = N \<and> pstate (pool (run k s) ! j) = RUNNABLE)"

lemma schedule_reaches:
  assumes "j < N" "keeps_runnable N j run"
  shows "length (pool s) = N \<Longrightarrow> pstate (pool s ! j) = RUNNABLE \<Longrightarrow> i \<le> N \<Longrightarrow> i = 0 \<or> \<not> d \<Longrightarrow>
    \<exists>ks. schedule run (Suc (length ks)) i d s = Inr (ks @ [j]) \<and> length ks \<le> dist N i j"
proof (induction "dist N i j" arbitrary: i d s rule: less_induct)
  case less
  obtain k where k: "next_runnable i (pool s) = Some k" "k < N" "k \<noteq> j \<Longrightarrow> dist N (Suc k) j < dist N i j"
    using next_runnable_dist[of j "pool s" i] less.prems assms(1) by blast
  have p: "sched_pick i d s = Inr (k, switch_to k s)" using sched_pick_turn[OF less.prems(4), of s] k(1) by simp
  show ?case
  proof (cases "k = j")
    case True
    have "schedule run (Suc (length [])) i d s = Inr ([] @ [j])" using p True by simp
    then show ?thesis by (intro exI[of _ "[]"]) simp
  next
    case False
    let ?s = "run k (switch_to k s)"
    have "length (pool ?s) = N \<and> pstate (pool ?s ! j) = RUNNABLE"
      using assms(2) less.prems(1,2) False by (simp add: keeps_runnable_def switch_to_pool)
    then obtain ks where ks: "schedule run (Suc (length ks)) (Suc k) False ?s = Inr (ks @ [j])" "length ks \<le> dist N (Suc k) j"
      using less.hyps[OF k(3)[OF False], of ?s False] k(2) by auto
    have "schedule run (Suc (length (k # ks))) i d s = Inr ((k # ks) @ [j])"
      unfolding schedule.simps(2)[of run "length (k # ks)"] p using ks(1) by simp
    moreover have "length (k # ks) \<le> dist N i j" using ks(2) k(3)[OF False] by simp
    ultimately show ?thesis by blast
  qed
qed

text \<open>C17: the scheduler is fair: a process that is runnable and stays so while others run is switched to
  after at most as many turns as there are slots, whatever the others do, and the scheduler does not
  panic before.\<close>

theorem scheduler_fair:
  assumes "j < N" "length (pool s) = N" "pstate (pool s ! j) = RUNNABLE" "keeps_runnable N j run"
    and "i \<le> N" "i = 0 \<or> \<not> d"
  shows "\<exists>ks. schedule run (Suc (length ks)) i d s = Inr (ks @ [j]) \<and> length ks < N"
proof -
  obtain ks where ks: "schedule run (Suc (length ks)) i d s = Inr (ks @ [j])" "length ks \<le> dist N i j"
    using schedule_reaches[OF assms(1,4,2,3,5,6)] by blast
  have "dist N i j < N" using assms(1,5) by (auto simp: dist_def)
  then show ?thesis using ks by (intro exI[of _ ks]) simp
qed

text \<open>Two processes that only yield take turns.\<close>

definition yielding :: "nat \<Rightarrow> kproc \<Rightarrow> kproc" where
  "yielding k s = s\<lparr>pool := (pool s)[k := (pool s ! k)\<lparr>pstate := RUNNABLE\<rparr>]\<rparr>"

definition two_ready :: kproc where
  "two_ready = kproc0 (\<lambda>_. 0)\<lparr>pool := [proc0\<lparr>pstate := RUNNABLE\<rparr>, proc0\<lparr>pstate := RUNNABLE\<rparr>]\<rparr>"

theorem scheduler_fair_witness:
  "\<exists>ks. schedule yielding (Suc (length ks)) 0 True two_ready = Inr (ks @ [1]) \<and> length ks < 2"
proof -
  have "keeps_runnable 2 1 yielding" by (simp add: keeps_runnable_def yielding_def)
  moreover have "length (pool two_ready) = 2" "pstate (pool two_ready ! 1) = RUNNABLE"
    by (simp_all add: two_ready_def)
  ultimately show ?thesis using scheduler_fair[of 1 2 two_ready yielding 0 True] by simp
qed

end
