(* ===== verification/ProcRefine.thy ===== *)
theory ProcRefine
  imports ProcTable Scheduler
begin

text \<open>
  The operations on processes refine the transitions of the abstract process table, and keep its
  invariant in every state the kernel reaches.
\<close>

section \<open>Abstraction\<close>

definition slot_of :: "proc \<Rightarrow> slot" where
  "slot_of p = (pstate p, pid p, parent p)"

definition ptab_of :: "'a kproc_scheme \<Rightarrow> ptab" where
  "ptab_of s = \<lparr>slots = map slot_of (pool s), cur = curr_proc s, next_pid = PID s\<rparr>"

lemma mem_only_ptab: "mem_only s s' \<Longrightarrow> ptab_of s' = ptab_of s"
  by (simp add: ptab_of_def mem_only_fields mem_only_curr_proc)

lemma ptab_mem [simp]: "ptab_of (s\<lparr>mem := m\<rparr>) = ptab_of s"
  by (simp add: ptab_of_def curr_proc_def)

lemma ptab_set_tf [simp]: "ptab_of (set_tf tf off v s) = ptab_of s"
  by (simp add: set_tf_def)

lemma ptab_upd_file [simp]: "ptab_of (upd_file f g s) = ptab_of s"
  by (simp add: upd_file_def ptab_of_def curr_proc_def)

lemma ptab_iput [simp]: "ptab_of (iput ip s) = ptab_of s"
  by (simp add: iput_def upd_inode_def ptab_of_def curr_proc_def)

lemma map_update_same: "f y = f (xs ! i) \<Longrightarrow> map f (xs[i := y]) = map f xs"
proof (rule nth_equalityI)
  fix k assume "f y = f (xs ! i)" "k < length (map f (xs[i := y]))"
  then show "map f (xs[i := y]) ! k = map f xs ! k" by (cases "k = i") simp_all
qed simp

lemma ptab_set_proc [simp]: "slot_of p = slot_of (proc_at s r) \<Longrightarrow> ptab_of (set_proc r p s) = ptab_of s"
  by (auto simp: set_proc_def proc_at_def ptab_of_def curr_proc_def map_update_same split: pref.splits)

lemma ptab_slot: "i < length (pool s) \<Longrightarrow>
   ptab_of (s\<lparr>pool := (pool s)[i := p]\<rparr>) = upd_slot i (slot_of p) (ptab_of s)"
  by (simp add: ptab_of_def curr_proc_def map_update)

lemma ptab_nth: "i < length (pool s) \<Longrightarrow> slots (ptab_of s) ! i = slot_of (pool s ! i)"
  by (simp add: ptab_of_def)

lemma ptab_fields: "length (slots (ptab_of s)) = length (pool s)" "cur (ptab_of s) = curr_proc s" "next_pid (ptab_of s) = PID s"
  by (simp_all add: ptab_of_def)

lemma set_proc_Pool: "set_proc (Pool i) p s = s\<lparr>pool := (pool s)[i := p]\<rparr>"
  by (simp add: set_proc_def)

lemma proc_at_Pool [simp]: "proc_at s (Pool i) = pool s ! i"
  by (simp add: proc_at_def)

section \<open>Operations that leave the table alone\<close>

lemma fileclose_ptab:
  assumes "fileclose f s = Inr s'"
  shows "ptab_of s' = ptab_of s"
  using assms
  by (auto simp: fileclose_def Let_def bindE_Inr_iff iput_ptr_def split: if_splits ftype.splits option.splits
      dest!: pipeclose_mem_only mem_only_ptab)

lemma close_loop_ptab: "close_loop n i r s = Inr s' \<Longrightarrow> ptab_of s' = ptab_of s"
proof (induction n arbitrary: i s)
  case (Suc n)
  show ?case
  proof (cases "files (proc_at s r) ! i")
    case (Some f)
    then obtain s1 where "fileclose f s = Inr s1"
      "close_loop n (Suc i) r (set_proc r ((proc_at s1 r)\<lparr>files := (files (proc_at s1 r))[i := None]\<rparr>) s1) = Inr s'"
      using Suc.prems by (auto simp: bindE_Inr_iff)
    then show ?thesis using Suc.IH fileclose_ptab by (fastforce simp: slot_of_def)
  qed (use Suc in simp)
qed simp

lemma dup_loop_ptab: "ptab_of (dup_loop n i p np s) = ptab_of s"
  by (induction n arbitrary: i s) (auto simp: Let_def slot_of_def split: option.splits)

lemma alloc_ustack_ptab:
  assumes "alloc_ustack r s = Inr s'"
  shows "ptab_of s' = ptab_of s"
proof -
  obtain pg s1 where k: "kalloc s = (pg, s1)" by fastforce
  obtain c s2 where m: "mappages (pagetable (proc_at s1 r)) USTACK_BOTTOM 4096 pg (16 OR 2 OR 4 OR 8)
      (s1\<lparr>mem := memset (mem s1) pg 0 4096\<rparr>) = Inr (c, s2)"
    using assms k by (auto simp: alloc_ustack_def bindE_Inr_iff Let_def proc_at_def split: if_splits pref.splits)
  have "ptab_of s2 = ptab_of s" using mem_only_ptab[OF mappages_mem_only[OF m]] mem_only_ptab[OF kalloc_mem_only[OF k]] by simp
  moreover have "ptab_of s' = ptab_of s2"
    using assms k m by (auto simp: alloc_ustack_def Let_def proc_at_def slot_of_def split: if_splits pref.splits)
  ultimately show ?thesis by simp
qed

lemma loader_ptab:
  assumes "loader k r s = Inr s'"
  shows "ptab_of s' = ptab_of s"
  using assms
  by (auto simp: loader_def bin_loader_def Let_def bindE_Inr_iff slot_of_def
      dest!: mem_only_ptab[OF load_loop_mem_only] alloc_ustack_ptab)

lemma exec_ptab:
  assumes "exec name s = Inr (r, s')"
  shows "ptab_of s' = ptab_of s"
proof -
  obtain k where k: "get_id_by_name name s = Inr k" using assms by (auto simp: exec_def bindE_Inr_iff)
  show ?thesis
  proof (cases "k < 0")
    case True
    then show ?thesis using assms k by (simp add: exec_def)
  next
    case False
    let ?r = "curr_proc s"
    obtain s1 pt s2 where f: "proc_freepagetable (pagetable (proc_at s ?r)) (psz (proc_at s ?r)) s = Inr s1"
      "proc_pagetable (trapframe (proc_at (set_proc ?r ((proc_at s1 ?r)\<lparr>psz := 0\<rparr>) s1) ?r)) (set_proc ?r ((proc_at s1 ?r)\<lparr>psz := 0\<rparr>) s1) = Inr (pt, s2)"
      "loader k ?r (set_proc ?r ((proc_at s2 ?r)\<lparr>pagetable := pt\<rparr>) s2) = Inr s'"
      using assms k False by (auto simp: exec_def bindE_Inr_iff Let_def split: if_splits)
    show ?thesis
      using loader_ptab[OF f(3)] mem_only_ptab[OF proc_pagetable_mem_only[OF f(2)]]
        mem_only_ptab[OF proc_freepagetable_mem_only[OF f(1)]] by (simp add: slot_of_def)
  qed
qed

section \<open>Operations that change the table\<close>

text \<open>An allocation finds no free slot, or takes the first one.\<close>

lemma allocproc_ptab:
  assumes "allocproc s = Inr (r, s')"
  shows "case r of
      None \<Rightarrow> s' = s \<and> (\<forall>p \<in> set (pool s). pstate p \<noteq> UNUSED)
    | Some i \<Rightarrow> i < length (pool s) \<and> pstate (pool s ! i) = UNUSED \<and> length (pool s') = length (pool s) \<and>
        curr_proc s' = curr_proc s \<and>
        ptab_of s' = (upd_slot i (USED, PID s, None) (ptab_of s))\<lparr>next_pid := PID s + 1\<rparr>"
proof (cases "find_idx (\<lambda>p. pstate p = UNUSED) (pool s)")
  case None
  then have "r = None \<and> s' = s" using assms by (simp add: allocproc_def)
  moreover have "\<forall>p \<in> set (pool s). pstate p \<noteq> UNUSED" using None by (simp add: find_idx_None)
  ultimately show ?thesis by simp
next
  case (Some i)
  then have i: "i < length (pool s)" "pstate (pool s ! i) = UNUSED" by (simp_all add: find_idx_Some)
  let ?p = "(pool s ! i)\<lparr>pid := PID s, pstate := USED, psz := 0, exit_code := -1, parent := None, ustack := 0\<rparr>"
  let ?s = "s\<lparr>PID := PID s + 1, pool := (pool s)[i := ?p]\<rparr>"
  let ?q = "\<lambda>pt s1. ?p\<lparr>pagetable := pt, ctx := \<lparr>ctx_ra = usertrapret s1, ctx_sp = kstack (pool s ! i) + 4096,
      ctx_s = replicate 12 0\<rparr>, prio := 16, pass := 100000 div 16, stride := 0\<rparr>"
  obtain pt s1 where pt: "proc_pagetable (trapframe ?p) ?s = Inr (pt, s1)" and r: "r = Some i"
    and s': "s' = s1\<lparr>mem := memset (memset (mem s1) (trapframe (pool s ! i)) 0 4096) (kstack (pool s ! i)) 0 4096,
      pool := (pool s1)[i := ?q pt s1]\<rparr>"
    using assms Some by (auto simp: allocproc_def allocpid_def Let_def bindE_Inr_iff split: if_splits)
  note m = proc_pagetable_mem_only[OF pt]
  have f: "pool s1 = (pool s)[i := ?p]" "curr_proc s1 = curr_proc s" "PID s1 = PID s + 1"
    using mem_only_fields[OF m] mem_only_curr_proc[OF m] by (simp_all add: curr_proc_def)
  then show ?thesis using s' r i by (auto simp: ptab_of_def curr_proc_def map_update slot_of_def)
qed

text \<open>A simulation: the operation takes the table along the transitions.\<close>

abbreviation simulates :: "'a kproc_scheme \<Rightarrow> 'a kproc_scheme \<Rightarrow> bool" where
  "simulates s s' \<equiv> pt_step\<^sup>*\<^sup>* (ptab_of s) (ptab_of s')"

lemma simulates_same: "ptab_of s' = ptab_of s \<Longrightarrow> simulates s s'"
  by simp

lemma allocproc_simulates:
  assumes "allocproc s = Inr (Some i, s')"
  shows "simulates s s'"
proof -
  have a: "i < length (pool s)" "pstate (pool s ! i) = UNUSED"
    "ptab_of s' = (upd_slot i (USED, PID s, None) (ptab_of s))\<lparr>next_pid := PID s + 1\<rparr>"
    using allocproc_ptab[OF assms] by simp_all
  have "pt_step (ptab_of s) ((upd_slot i (USED, next_pid (ptab_of s), None) (ptab_of s))\<lparr>next_pid := next_pid (ptab_of s) + 1\<rparr>)"
    by (rule pt_step.alloc[of _ _ "pid (pool s ! i)" "parent (pool s ! i)"])
      (use a in \<open>simp_all add: ptab_nth ptab_fields slot_of_def\<close>)
  then show ?thesis unfolding a(3) ptab_fields by blast
qed

lemma sched_pick_simulates:
  assumes "sched_pick i d s = Inr (k, s')" "curr_proc s = Idle"
  shows "simulates s s'"
proof -
  have "k < length (pool s) \<and> pstate (pool s ! k) = RUNNABLE \<and> s' = switch_to k s"
    using assms(1)
    by (auto simp: sched_pick_scan[of i d] sched_pick_scan[of 0 True] find_idx_Some split: option.splits if_splits)
  then have k: "k < length (pool s)" "pstate (pool s ! k) = RUNNABLE" "s' = switch_to k s" by simp_all
  have "pt_step (ptab_of s) (upd_slot k (RUNNING, pid (pool s ! k), parent (pool s ! k)) (ptab_of s)\<lparr>cur := Pool k\<rparr>)"
    by (rule pt_step.switch) (use k assms(2) in \<open>simp_all add: ptab_nth ptab_fields slot_of_def\<close>)
  moreover have "ptab_of s' = upd_slot k (RUNNING, pid (pool s ! k), parent (pool s ! k)) (ptab_of s)\<lparr>cur := Pool k\<rparr>"
    using k by (simp add: switch_to_def Let_def ptab_of_def curr_proc_def map_update slot_of_def)
  ultimately show ?thesis by auto
qed

lemma give_up_simulates:
  assumes "curr_proc s = Pool i" "i < length (pool s)" "sched (set_proc (Pool i) ((pool s ! i)\<lparr>pstate := RUNNABLE\<rparr>) s) = Inr s'"
  shows "simulates s s'"
proof -
  have "pt_step (ptab_of s) (upd_slot i (RUNNABLE, pid (pool s ! i), parent (pool s ! i)) (ptab_of s)\<lparr>cur := Idle\<rparr>)"
    by (rule pt_step.give_up) (use assms in \<open>simp_all add: ptab_nth ptab_fields slot_of_def\<close>)
  moreover have "ptab_of s' = upd_slot i (RUNNABLE, pid (pool s ! i), parent (pool s ! i)) (ptab_of s)\<lparr>cur := Idle\<rparr>"
    using assms by (auto simp: sched_def set_proc_Pool ptab_of_def curr_proc_def map_update slot_of_def split: if_splits)
  ultimately show ?thesis by auto
qed

lemma yield_simulates:
  assumes "yield s = Inr s'" "curr_proc s = Pool i" "i < length (pool s)"
  shows "simulates s s'"
  using give_up_simulates[OF assms(2,3), of s'] assms by (simp add: yield_def)

text \<open>\<open>exit\<close> passes through a slot marked free while its files are closed.\<close>

lemma exit_simulates:
  assumes "exit code s = Inr s'" "curr_proc s = Pool i" "i < length (pool s)"
  shows "simulates s s'"
proof -
  let ?s0 = "set_proc (Pool i) ((pool s ! i)\<lparr>exit_code := of_int code\<rparr>) s"
  obtain s1 where f: "freeproc (Pool i) ?s0 = Inr s1"
    and s': "sched (if parent (pool s1 ! i) \<noteq> None then set_proc (Pool i) ((pool s1 ! i)\<lparr>pstate := ZOMBIE\<rparr>) s1 else s1) = Inr s'"
    using assms(1) unfolding exit_def Let_def assms(2) bindE_Inr_iff proc_at_Pool by blast
  have e0: "ptab_of ?s0 = ptab_of s" by (simp add: slot_of_def)
  obtain s2 where fs: "(if pagetable (pool ?s0 ! i) \<noteq> 0 then proc_freepagetable (pagetable (pool ?s0 ! i)) (psz (pool ?s0 ! i)) ?s0
      else Inr ?s0) = Inr s2"
    and cl: "close_loop 16 0 (Pool i) (set_proc (Pool i) ((pool s2 ! i)\<lparr>pagetable := 0, pstate := UNUSED\<rparr>) s2) = Inr s1"
    using f unfolding freeproc_def bindE_Inr_iff proc_at_Pool by blast
  have "ptab_of s2 = ptab_of ?s0" using fs mem_only_ptab[OF proc_freepagetable_mem_only] by (metis sum.inject(2))
  note s2 = this cl
  have l2: "length (pool s2) = length (pool s)" using arg_cong[OF s2(1), of "\<lambda>t. length (slots t)"] e0 by (simp add: ptab_fields)
  have sl2: "slot_of (pool s2 ! i) = slot_of (pool s ! i)"
    using arg_cong[OF s2(1), of "\<lambda>t. slots t ! i"] e0 l2 assms(3) by (simp add: ptab_nth)
  have t1: "ptab_of s1 = upd_slot i (UNUSED, pid (pool s ! i), parent (pool s ! i)) (ptab_of s)"
    using close_loop_ptab[OF s2(2)] s2(1) e0 l2 sl2 assms(3) by (simp add: set_proc_Pool ptab_slot slot_of_def)
  have l1: "length (pool s1) = length (pool s)" using arg_cong[OF t1, of "\<lambda>t. length (slots t)"] by (simp add: ptab_fields)
  have sl1: "slot_of (pool s1 ! i) = (UNUSED, pid (pool s ! i), parent (pool s ! i))"
    using arg_cong[OF t1, of "\<lambda>t. slots t ! i"] l1 assms(3) by (simp add: ptab_nth ptab_fields)
  have c1: "curr_proc s1 = Pool i" "PID s1 = PID s"
    using arg_cong[OF t1, of cur] arg_cong[OF t1, of next_pid] assms(2) by (simp_all add: ptab_fields)
  let ?q = "parent (pool s ! i)"
  let ?t = "upd_slot i (if ?q = None then UNUSED else ZOMBIE, pid (pool s ! i), ?q) (ptab_of s)\<lparr>cur := Idle\<rparr>"
  have "pt_step (ptab_of s) ?t"
    by (rule pt_step.exits) (use assms in \<open>simp_all add: ptab_nth ptab_fields slot_of_def\<close>)
  moreover have "ptab_of s' = ?t"
  proof (cases "?q = None")
    case True
    then have "s' = s1\<lparr>current_proc := Some Idle\<rparr>" using s' sl1 c1 by (auto simp: sched_def slot_of_def split: if_splits)
    then have "ptab_of s' = ptab_of s1\<lparr>cur := Idle\<rparr>" by (simp add: ptab_of_def curr_proc_def)
    then show ?thesis using t1 True by simp
  next
    case False
    then have "s' = s1\<lparr>pool := (pool s1)[i := (pool s1 ! i)\<lparr>pstate := ZOMBIE\<rparr>]\<rparr>\<lparr>current_proc := Some Idle\<rparr>"
      using s' sl1 c1 by (auto simp: sched_def slot_of_def set_proc_Pool split: if_splits)
    then have "ptab_of s' = upd_slot i (slot_of ((pool s1 ! i)\<lparr>pstate := ZOMBIE\<rparr>)) (ptab_of s1)\<lparr>cur := Idle\<rparr>"
      using l1 assms(3) by (simp add: ptab_of_def curr_proc_def map_update)
    moreover have "slot_of ((pool s1 ! i)\<lparr>pstate := ZOMBIE\<rparr>) = (ZOMBIE, pid (pool s ! i), ?q)" using sl1 by (simp add: slot_of_def)
    ultimately show ?thesis using t1 False by auto
  qed
  ultimately show ?thesis by auto
qed

lemma wait_simulates:
  assumes "wait pd code s = Inr (r, s')" "curr_proc s = Pool i" "i < length (pool s)"
  shows "simulates s s'"
proof (cases "find_idx (\<lambda>np. is_child (curr_proc s) pd np \<and> pstate np = ZOMBIE) (pool s)")
  case (Some k)
  then have k: "k < length (pool s)" "is_child (curr_proc s) pd (pool s ! k)" "pstate (pool s ! k) = ZOMBIE"
    by (simp_all add: find_idx_Some)
  have "pt_step (ptab_of s) (upd_slot k (UNUSED, pid (pool s ! k), Some (cur (ptab_of s))) (ptab_of s))"
    by (rule pt_step.reap) (use k in \<open>simp_all add: ptab_nth ptab_fields slot_of_def is_child_def\<close>)
  moreover have "ptab_of s' = upd_slot k (UNUSED, pid (pool s ! k), Some (cur (ptab_of s))) (ptab_of s)"
  proof -
    have "ptab_of s' = ptab_of (s\<lparr>pool := (pool s)[k := (pool s ! k)\<lparr>pstate := UNUSED\<rparr>]\<rparr>)"
      using assms(1) Some by (auto simp: wait_def Let_def split: if_splits)
    then show ?thesis using k by (simp add: ptab_slot ptab_fields slot_of_def is_child_def)
  qed
  ultimately show ?thesis by auto
next
  case None
  show ?thesis
  proof (cases "\<exists>np \<in> set (pool s). is_child (curr_proc s) pd np")
    case True
    then have "sched (set_proc (Pool i) ((pool s ! i)\<lparr>pstate := RUNNABLE\<rparr>) s) = Inr s'"
      using assms(1,2) None by (auto simp: wait_def Let_def bindE_Inr_iff)
    then show ?thesis using give_up_simulates assms(2,3) by blast
  next
    case False
    then have "s' = s" using assms(1) None by (auto simp: wait_def Let_def)
    then show ?thesis by simp
  qed
qed

text \<open>A slot made runnable, with the caller as parent or with none.\<close>

lemma ready_simulates:
  assumes "i < length (pool s)" "pstate (pool s ! i) = USED" "slot_of p = (RUNNABLE, pid (pool s ! i), q)"
    "q \<in> {None, Some (curr_proc s)}"
  shows "simulates s (s\<lparr>pool := (pool s)[i := p]\<rparr>)"
proof -
  have "pt_step (ptab_of s) (upd_slot i (RUNNABLE, pid (pool s ! i), q) (ptab_of s))"
    by (rule pt_step.ready[of _ _ _ "parent (pool s ! i)"]) (use assms in \<open>simp_all add: ptab_nth ptab_fields slot_of_def\<close>)
  then show ?thesis using assms by (auto simp: ptab_slot)
qed

lemma allocproc_used:
  assumes "allocproc s = Inr (Some i, s')"
  shows "i < length (pool s')" "slot_of (pool s' ! i) = (USED, PID s, None)" "curr_proc s' = curr_proc s"
    "length (pool s') = length (pool s)"
proof -
  have a: "i < length (pool s)" "length (pool s') = length (pool s)" "curr_proc s' = curr_proc s"
    "ptab_of s' = (upd_slot i (USED, PID s, None) (ptab_of s))\<lparr>next_pid := PID s + 1\<rparr>"
    using allocproc_ptab[OF assms] by simp_all
  then show "i < length (pool s')" "curr_proc s' = curr_proc s" "length (pool s') = length (pool s)" by simp_all
  show "slot_of (pool s' ! i) = (USED, PID s, None)"
    using arg_cong[OF a(4), of "\<lambda>t. slots t ! i"] a(1,2) by (simp add: ptab_nth ptab_fields)
qed

lemma fork_simulates:
  assumes "fork s = Inr (r, s')" "curr_proc s = Pool i" "i < length (pool s)"
  shows "simulates s s'"
proof -
  obtain c s1 where a: "allocproc s = Inr (c, s1)" using assms(1) by (auto simp: fork_def Let_def bindE_Inr_iff)
  let ?np = "case c of None \<Rightarrow> curr_proc s1 | Some i \<Rightarrow> Pool i"
  obtain u s2 where u: "uvmcopy (pagetable (proc_at s1 (Pool i))) (pagetable (proc_at s1 ?np)) (psz (proc_at s1 (Pool i))) s1 = Inr (u, s2)"
    using assms(1,2) a by (auto simp: fork_def Let_def bindE_Inr_iff)
  note u2 = mem_only_ptab[OF uvmcopy_mem_only[OF u]]
  have s1: "simulates s s1"
    using allocproc_ptab[OF a] allocproc_simulates[of s] a by (cases c) auto
  show ?thesis
  proof (cases "u < 0")
    case True
    then have "s' = s2" using assms(1,2) a u by (auto simp: fork_def Let_def)
    then show ?thesis using s1 u2 by simp
  next
    case False
    let ?s3 = "set_proc ?np ((proc_at s2 ?np)\<lparr>psz := psz (proc_at s2 (Pool i))\<rparr>) s2"
    let ?tf = "trapframe (proc_at ?s3 ?np)"
    let ?s4 = "set_tf ?tf tf_a0 0 (dup_loop 16 0 (Pool i) ?np
       (?s3\<lparr>mem := wr (mem ?s3) ?tf (rd (mem ?s3) (trapframe (proc_at ?s3 (Pool i))) 288)\<rparr>))"
    define s4 where "s4 = ?s4"
    have s': "s' = set_proc ?np ((proc_at s4 ?np)\<lparr>parent := Some (Pool i), pstate := RUNNABLE\<rparr>) s4"
      using assms(1,2) a u False by (simp add: fork_def Let_def s4_def)
    have p4: "ptab_of s4 = ptab_of s1" unfolding s4_def using u2 by (simp add: dup_loop_ptab slot_of_def)
    have l4: "length (pool s4) = length (pool s1)" using arg_cong[OF p4, of "\<lambda>t. length (slots t)"] unfolding ptab_fields .
    have c4: "curr_proc s4 = curr_proc s1" using arg_cong[OF p4, of cur] unfolding ptab_fields .
    have sl4: "slot_of (pool s4 ! k) = slot_of (pool s1 ! k)" if "k < length (pool s1)" for k
      using arg_cong[OF p4, of "\<lambda>t. slots t ! k"] ptab_nth[of k s4] ptab_nth[of k s1] l4 that by simp
    show ?thesis
    proof (cases c)
      case None
      then have s1s: "s1 = s" using allocproc_ptab[OF a] by simp
      then have e: "?np = Pool i" "length (pool s4) = length (pool s)" "slot_of (pool s4 ! i) = slot_of (pool s ! i)"
        using None assms(2,3) l4 sl4[of i] by simp_all
      have "pt_step (ptab_of s) (upd_slot i (RUNNABLE, pid (pool s ! i), Some (cur (ptab_of s))) (ptab_of s))"
        by (rule pt_step.full) (use assms in \<open>simp_all add: ptab_nth ptab_fields slot_of_def\<close>)
      moreover have "ptab_of s' = upd_slot i (RUNNABLE, pid (pool s ! i), Some (Pool i)) (ptab_of s4)"
        unfolding s' e(1) set_proc_Pool proc_at_Pool using e(2,3) assms(3) by (simp add: ptab_slot slot_of_def)
      ultimately show ?thesis using p4 s1s assms(2) by (auto simp: ptab_fields)
    next
      case (Some k)
      note k = allocproc_used[OF a[unfolded Some]]
      have e: "?np = Pool k" using Some by simp
      have "simulates s4 (s4\<lparr>pool := (pool s4)[k := (pool s4 ! k)\<lparr>parent := Some (Pool i), pstate := RUNNABLE\<rparr>]\<rparr>)"
        by (rule ready_simulates[where q = "Some (Pool i)"])
          (use k l4 sl4[OF k(1)] c4 assms(2) in \<open>simp_all add: slot_of_def\<close>)
      then have "simulates s4 s'" unfolding s' e set_proc_Pool proc_at_Pool .
      then show ?thesis using s1 p4 by simp
    qed
  qed
qed

lemma spawn_simulates:
  assumes "spawn name s = Inr (r, s')"
  shows "simulates s s'"
proof -
  obtain i s1 where a: "allocproc s = Inr (Some i, s1)"
    using assms by (auto simp: spawn_def Let_def bindE_Inr_iff split: option.splits)
  note u = allocproc_used[OF a]
  let ?s2 = "s1\<lparr>pool := (pool s1)[i := (pool s1 ! i)\<lparr>parent := Some (curr_proc s), pstate := RUNNABLE\<rparr>]\<rparr>"
  have "simulates s1 ?s2" by (rule ready_simulates[where q = "Some (curr_proc s)"]) (use u in \<open>simp_all add: slot_of_def\<close>)
  moreover have "ptab_of s' = ptab_of ?s2"
    using assms a by (auto simp: spawn_def Let_def bindE_Inr_iff dest!: loader_ptab split: if_splits)
  ultimately show ?thesis using allocproc_simulates[OF a] by simp
qed

lemma run_all_app_simulates:
  assumes "run_all_app s = Inr s'"
  shows "simulates s s'"
proof -
  obtain i s1 where a: "allocproc s = Inr (Some i, s1)"
    using assms by (auto simp: run_all_app_def Let_def bindE_Inr_iff split: option.splits)
  note u = allocproc_used[OF a]
  let ?s2 = "s1\<lparr>pool := (pool s1)[i := (pool s1 ! i)\<lparr>parent := None\<rparr>]\<rparr>"
  have "ptab_of ?s2 = ptab_of s1" using u by (simp add: set_proc_Pool[symmetric] slot_of_def)
  moreover obtain k s3 where l: "loader k (Pool i) ?s2 = Inr s3"
    "s' = s3\<lparr>pool := (pool s3)[i := (pool s3 ! i)\<lparr>pstate := RUNNABLE\<rparr>]\<rparr>"
    using assms a by (auto simp: run_all_app_def Let_def bindE_Inr_iff split: if_splits)
  ultimately have p3: "ptab_of s3 = ptab_of s1" using loader_ptab by fastforce
  then have l3: "length (pool s3) = length (pool s1)" using arg_cong[of _ _ "\<lambda>t. length (slots t)"] by (metis ptab_fields(1))
  have sl3: "slot_of (pool s3 ! i) = (USED, PID s, None)" using p3 u(1,2) l3 by (metis ptab_nth)
  have "simulates s3 s'" unfolding l(2)
    by (rule ready_simulates[where q = None]) (use u l3 sl3 in \<open>simp_all add: slot_of_def\<close>)
  then show ?thesis using allocproc_simulates[OF a] p3 by simp
qed

section \<open>Every reachable table\<close>

text \<open>
  The steps of the kernel that concern processes: the operations of the running process and the turn
  of the scheduler. Every other operation of the kernel, and the process in user mode, leaves the
  abstract table as it is.
\<close>

inductive proc_step :: "'a kload_scheme \<Rightarrow> 'a kload_scheme \<Rightarrow> bool" where
  "curr_proc s = Idle \<Longrightarrow> run_all_app s = Inr s' \<Longrightarrow> proc_step s s'"
| "curr_proc s = Idle \<Longrightarrow> sched_pick i d s = Inr (k, s') \<Longrightarrow> proc_step s s'"
| "curr_proc s = Pool i \<Longrightarrow> yield s = Inr s' \<Longrightarrow> proc_step s s'"
| "curr_proc s = Pool i \<Longrightarrow> fork s = Inr (r, s') \<Longrightarrow> proc_step s s'"
| "curr_proc s = Pool i \<Longrightarrow> exec name s = Inr (r, s') \<Longrightarrow> proc_step s s'"
| "curr_proc s = Pool i \<Longrightarrow> spawn name s = Inr (p, s') \<Longrightarrow> proc_step s s'"
| "curr_proc s = Pool i \<Longrightarrow> wait pd code s = Inr (w, s') \<Longrightarrow> proc_step s s'"
| "curr_proc s = Pool i \<Longrightarrow> exit c s = Inr s' \<Longrightarrow> proc_step s s'"
| "ptab_of s' = ptab_of s \<Longrightarrow> proc_step s s'"

inductive_cases proc_stepE: "proc_step s s'"

lemma pt_inv_current: "pt_inv (ptab_of s) \<Longrightarrow> curr_proc s = Pool i \<Longrightarrow> i < length (pool s)"
  using pt_inv_cur[of "ptab_of s" i] by (simp add: ptab_fields)

lemma proc_step_simulates:
  assumes "proc_step s s'" "pt_inv (ptab_of s)"
  shows "simulates s s'"
proof (rule proc_stepE[OF assms(1)], goal_cases)
  case 1
  show ?case by (rule run_all_app_simulates[OF 1(2)])
next
  case 2
  show ?case by (rule sched_pick_simulates[OF 2(2,1)])
next
  case 3
  then show ?case using yield_simulates pt_inv_current[OF assms(2)] by blast
next
  case 4
  then show ?case using fork_simulates pt_inv_current[OF assms(2)] by blast
next
  case 5
  then show ?case using exec_ptab by (metis rtranclp.rtrancl_refl)
next
  case 6
  show ?case by (rule spawn_simulates[OF 6(2)])
next
  case 7
  then show ?case using wait_simulates pt_inv_current[OF assms(2)] by blast
next
  case 8
  then show ?case using exit_simulates pt_inv_current[OF assms(2)] by blast
next
  case 9
  then show ?case by simp
qed


text \<open>A process that is ready to run, for the examples.\<close>

definition one_ready :: kload where
  "one_ready = (kload0 (\<lambda>_. 0) (\<lambda>_. replicate 1024 0))
     \<lparr>pool := (replicate 256 proc0)[0 := proc0\<lparr>pstate := RUNNABLE, pid := 1\<rparr>], PID := 2\<rparr>"

lemma one_ready_inv: "pt_inv (ptab_of one_ready)"
proof -
  have i: "slots (ptab_of one_ready) ! i = (if i = 0 then (RUNNABLE, 1, None) else (UNUSED, 0, None))"
    if "i < 256" for i
    using that by (simp add: ptab_nth) (simp add: one_ready_def kload0_def slot_of_def proc0_def ptab_nth nth_list_update)
  have l: "length (slots (ptab_of one_ready)) = 256" "cur (ptab_of one_ready) = Idle" "next_pid (ptab_of one_ready) = 2"
    by (simp_all add: one_ready_def kload0_def ptab_of_def curr_proc_def)
  show ?thesis unfolding pt_inv_def l using i by simp
qed


lemma procinit_loop_frame:
  "length (pool (procinit_loop n i s)) = length (pool s) \<and> PID (procinit_loop n i s) = PID s \<and>
   current_proc (procinit_loop n i s) = current_proc s"
proof (induction n arbitrary: i s)
  case (Suc n)
  obtain tf s1 where k: "kalloc s = (tf, s1)" by fastforce
  show ?case using Suc mem_only_fields[OF kalloc_mem_only[OF k]] k by (simp add: Let_def)
qed simp

lemma procinit_loop_unused:
  "i + n = length (pool s) \<Longrightarrow> \<forall>k<i. pstate (pool s ! k) = UNUSED \<Longrightarrow>
   k < length (pool s) \<Longrightarrow> pstate (pool (procinit_loop n i s) ! k) = UNUSED"
proof (induction n arbitrary: i s)
  case (Suc n)
  obtain tf s1 where k: "kalloc s = (tf, s1)" by fastforce
  have p: "pool s1 = pool s" using mem_only_fields[OF kalloc_mem_only[OF k]] by simp
  let ?p = "(pool s ! i)\<lparr>pstate := UNUSED, kstack := kstack_arr s + 4096 * of_nat i,
    ustack := ustack_arr s + 4096 * of_nat i, trapframe := tf, pid := 0\<rparr>"
  have "procinit_loop (Suc n) i s = procinit_loop n (Suc i) (s1\<lparr>pool := (pool s)[i := ?p]\<rparr>)"
    using k p by (simp add: Let_def)
  moreover have "pstate (pool (procinit_loop n (Suc i) (s1\<lparr>pool := (pool s)[i := ?p]\<rparr>)) ! k) = UNUSED"
    by (rule Suc.IH) (use Suc.prems in \<open>auto simp: nth_list_update less_Suc_eq\<close>)
  ultimately show ?case by simp
qed simp

lemma procinit_inv:
  assumes "length (pool s) = 256" "current_proc s = None" "PID s = 1"
  shows "pt_inv (ptab_of (procinit s))" "length (pool (procinit s)) = 256"
proof -
  have f: "length (pool (procinit s)) = 256" "PID (procinit s) = 1" "curr_proc (procinit s) = Idle"
    using procinit_loop_frame[of 256 0 s] assms by (simp_all add: procinit_def Let_def curr_proc_def)
  have u: "pstate (pool (procinit s) ! k) = UNUSED" if "k < 256" for k
    using procinit_loop_unused[of 0 256 s k] assms(1) that by (simp add: procinit_def Let_def)
  show "pt_inv (ptab_of (procinit s))" "length (pool (procinit s)) = 256"
    unfolding pt_inv_def using f u by (simp_all add: ptab_fields ptab_nth slot_of_def)
qed

lemma pt_steps_length: "pt_step\<^sup>*\<^sup>* t t' \<Longrightarrow> length (slots t') = length (slots t)"
proof (induction rule: rtranclp_induct)
  case (step y z)
  from step(2) have "length (slots z) = length (slots y)" by (rule pt_stepE) simp_all
  then show ?case using step(3) by simp
qed simp

lemma proc_steps_inv:
  "proc_step\<^sup>*\<^sup>* s s' \<Longrightarrow> pt_inv (ptab_of s) \<Longrightarrow> pt_inv (ptab_of s') \<and> length (pool s') = length (pool s)"
proof (induction rule: rtranclp_induct)
  case (step y z)
  then have y: "pt_inv (ptab_of y)" "length (pool y) = length (pool s)" by simp_all
  note r = proc_step_simulates[OF step(2) y(1)]
  show ?case using pt_steps_inv[OF r y(1)] pt_steps_length[OF r] y(2) by (simp add: ptab_fields)
qed simp



end
