(* ===== verification/VirtioSpec.thy ===== *)
theory VirtioSpec
  imports Virtio
begin

text \<open>
  The disk driver meets the abstract disk of the buffer cache: with a device that serves its requests
  as the virtio specification says, \<open>virtio_disk_rw\<close> does what \<open>disk_rw\<close> does, and leaves
  its descriptors as it found them.
\<close>

section \<open>The device\<close>

text \<open>Legacy block device, one queue: a request is pending when \<open>avail->idx\<close> is ahead of \<open>used->idx\<close>.\<close>

definition pending :: "vdisk \<Rightarrow> bool" where
  "pending d \<longleftrightarrow> used_dev_idx d \<noteq> avail_idx d"

text \<open>
  What serving the next request does: the chain of three descriptors names the header, the data and the
  status byte; the device moves 1024 bytes from or to the sectors of the header, clears the status
  and puts the head of the chain on the used ring.
\<close>

definition serve :: "'a kdisk_scheme \<times> vdisk \<Rightarrow> 'a kdisk_scheme \<times> vdisk" where
  "serve sd =
     (case sd of (s, d) \<Rightarrow>
      let k = unat (used_dev_idx d mod 8);
          id = unat (avail_ring d ! k);
          h = desc d ! id; x = desc d ! unat (d_next h); y = desc d ! unat (d_next x);
          s = (case (d_addr h, d_addr x) of
                 (OpsAt p, DataAt b) \<Rightarrow>
                   let blk = ucast (r_sector (ops d ! p) div 2)
                   in if r_type (ops d ! p) = 1 then s\<lparr>disk := (disk s)(blk := b_data (bufs s ! b))\<rparr>
                      else set_data b (disk s blk) s
               | _ \<Rightarrow> s);
          d = (case d_addr y of StatusAt i \<Rightarrow> d\<lparr>info_status := (info_status d)[i := 0]\<rparr> | _ \<Rightarrow> d)
      in (s, d\<lparr>used_ring := (used_ring d)[k := of_nat id], used_dev_idx := used_dev_idx d + 1\<rparr>))"

text \<open>
  At each moment the device does nothing or serves a pending request and raises its interrupt; from
  moment \<open>T\<close> on it does not keep a pending request waiting.
\<close>

definition serves_requests :: "'a device \<Rightarrow> nat \<Rightarrow> bool" where
  "serves_requests dev T \<longleftrightarrow>
     (\<forall>t sd. dev t sd = (sd, False) \<or> (pending (snd sd) \<and> dev t sd = (serve sd, True))) \<and>
     (\<forall>t sd. T \<le> t \<longrightarrow> pending (snd sd) \<longrightarrow> dev t sd = (serve sd, True))"

section \<open>The driver\<close>

text \<open>Between two requests: all descriptors free, everything served and acknowledged.\<close>

definition vd_idle :: "vdisk \<Rightarrow> bool" where
  "vd_idle d \<longleftrightarrow> length (desc d) = 8 \<and> vfree d = replicate 8 True \<and> length (avail_ring d) = 8 \<and>
     length (used_ring d) = 8 \<and> length (info_b d) = 8 \<and> length (info_status d) = 8 \<and> length (ops d) = 8 \<and>
     used_idx d = used_dev_idx d \<and> avail_idx d = used_dev_idx d"

lemma wait_loop_done: "\<not> b_disk (bufs (fst sd) ! b) \<Longrightarrow> wait_loop dev t n b sd = Inr (Some sd)"
  by (cases n) simp_all

lemma wait_loop_serves:
  assumes "serves_requests dev T" "pending (snd sd)" "b_disk (bufs (fst sd) ! b)"
    and "virtio_disk_intr (serve sd) = Inr sd'" "\<not> b_disk (bufs (fst sd') ! b)"
  shows "T < t + n \<Longrightarrow> wait_loop dev t n b sd = Inr (Some sd') \<or> (n = 0)"
proof (induction n arbitrary: t)
  case (Suc n)
  have "dev t sd = (sd, False) \<or> dev t sd = (serve sd, True)" using assms(1) unfolding serves_requests_def by blast
  then show ?case
  proof
    assume d: "dev t sd = (sd, False)"
    have "\<not> T \<le> t" using assms(1,2) d unfolding serves_requests_def by fastforce
    then have "T < Suc t + n" "n \<noteq> 0" using Suc.prems by simp_all
    then show ?thesis using Suc.IH[of "Suc t"] d assms(3) by simp
  next
    assume "dev t sd = (serve sd, True)"
    then show ?thesis using assms(3,4,5) by (simp add: wait_loop_done)
  qed
qed simp

lemma ring_index: "unat (x mod 8 :: u16) < 8"
proof -
  have "x mod 8 < 8" by (simp add: word_mod_less_divisor)
  then show ?thesis by (simp add: word_less_nat_alt)
qed

lemma alloc3_idle:
  assumes "vd_idle d"
  shows "alloc3_desc d = Inr (Some (0, 1, 2), d\<lparr>vfree := [False, False, False, True, True, True, True, True]\<rparr>)"
proof -
  have "vfree d = [True, True, True, True, True, True, True, True]" using assms by (simp add: vd_idle_def eval_nat_numeral)
  then show ?thesis by (simp add: alloc3_desc_def alloc_desc_def)
qed

lemma sector_block: "unat (x :: u32) < 2 ^ 31 \<Longrightarrow> ucast ((ucast (x * 2) :: u64) div 2) = x"
proof -
  assume x: "unat x < 2 ^ 31"
  have "unat (x * 2) = unat x * 2" using x by (simp add: unat_word_ariths)
  moreover have "unat (ucast (x * 2) :: u64) = unat (x * 2)"
    using unat_less_u32[of "x * 2"] by (simp add: unsigned_ucast_eq take_bit_nat_eq_self)
  ultimately have "unat ((ucast (x * 2) :: u64) div 2) = unat x" by (simp add: unat_div)
  then have "unat (ucast ((ucast (x * 2) :: u64) div 2) :: u32) = unat x"
    using unat_less_u32[of x] by (simp add: unsigned_ucast_eq take_bit_nat_eq_self)
  then show ?thesis by (rule word_unat_eq_iff[THEN iffD2])
qed

text \<open>The descriptors of a request, and what the device makes of them.\<close>

definition reqs :: "nat \<Rightarrow> bool \<Rightarrow> virtq_desc list" where
  "reqs b w = [\<lparr>d_addr = OpsAt 0, d_len = 16, d_flags = 1, d_next = 1\<rparr>,
     \<lparr>d_addr = DataAt b, d_len = 1024, d_flags = (if w then 0 else 2) OR 1, d_next = 2\<rparr>,
     \<lparr>d_addr = StatusAt 0, d_len = 1, d_flags = 2, d_next = 0\<rparr>]"

lemma take3_updates: "length xs = 8 \<Longrightarrow> xs[0 := a, Suc 0 := b, 2 := c] = [a, b, c] @ drop 3 xs"
  by (rule nth_equalityI) (auto simp: nth_list_update nth_Cons nth_append eval_nat_numeral split: nat.split)

lemma submit_idle:
  assumes "vd_idle d" and e_def: "e = submit b bn w (0, 1, 2) (d\<lparr>vfree := [False, False, False, True, True, True, True, True]\<rparr>)"
  shows "desc e = reqs b w @ drop 3 (desc d)" "vfree e = [False, False, False, True, True, True, True, True]"
    "avail_idx e = used_dev_idx e + 1" "used_idx e = used_dev_idx e" "length (avail_ring e) = 8" "length (used_ring e) = 8"
    "avail_ring e ! unat (used_dev_idx e mod 8) = 0" "info_b e ! 0 = Some b" "length (info_b e) = 8"
    "length (info_status e) = 8" "length (ops e) = 8"
    "ops e ! 0 = \<lparr>r_type = (if w then 1 else 0), r_reserved = 0, r_sector = ucast (bn * 2)\<rparr>"
  using assms(1) ring_index[of "used_dev_idx d"]
  by (auto simp: vd_idle_def e_def submit_def upd_desc_def wreg_def Let_def reqs_def take3_updates)

lemma serve_submitted:
  assumes "desc e = reqs b w @ ds" "avail_ring e ! unat (used_dev_idx e mod 8) = 0"
    "ops e ! 0 = \<lparr>r_type = (if w then 1 else 0), r_reserved = 0, r_sector = ucast (b_blockno (bufs s ! b) * 2)\<rparr>"
    "unat (b_blockno (bufs s ! b)) < 2 ^ 31"
  shows "serve (s, e) = (disk_rw b w s, e\<lparr>info_status := (info_status e)[0 := 0],
      used_ring := (used_ring e)[unat (used_dev_idx e mod 8) := 0], used_dev_idx := used_dev_idx e + 1\<rparr>)"
  using assms(1-3) sector_block[OF assms(4)]
  by (simp add: serve_def reqs_def disk_rw_def Let_def)

lemma free_desc_ok:
  "i < 8 \<Longrightarrow> \<not> vfree d ! i \<Longrightarrow> free_desc i d = Inr (d\<lparr>desc := (desc d)[i := desc0], vfree := (vfree d)[i := True]\<rparr>)"
  by (simp add: free_desc_def)

lemma free_chain_step:
  "free_chain (Suc n) i d =
     bindE (free_desc i d) (\<lambda>e. if d_flags (desc d ! i) AND 1 \<noteq> 0 then free_chain n (unat (d_next (desc d ! i))) e else Inr e)"
  by (simp add: Let_def)

lemma free_chain_reqs:
  assumes "desc d = reqs b w @ ds" "vfree d = [False, False, False, True, True, True, True, True]"
  shows "free_chain 9 0 d = Inr (d\<lparr>desc := [desc0, desc0, desc0] @ ds, vfree := replicate 8 True\<rparr>)"
proof -
  have n: "9 = Suc (Suc (Suc 6))" by simp
  have f: "((if w then 0 else 2) OR 1 :: u16) AND 1 \<noteq> 0" by (cases w) simp_all
  let ?a = "d\<lparr>desc := desc0 # drop 1 (reqs b w @ ds), vfree := [True, False, False, True, True, True, True, True]\<rparr>"
  let ?b = "d\<lparr>desc := desc0 # desc0 # drop 2 (reqs b w @ ds), vfree := [True, True, False, True, True, True, True, True]\<rparr>"
  let ?c = "d\<lparr>desc := desc0 # desc0 # desc0 # ds, vfree := [True, True, True, True, True, True, True, True]\<rparr>"
  have "free_chain 9 0 d = free_chain (Suc (Suc 6)) 1 ?a"
    unfolding n free_chain_step[of "Suc (Suc 6)"] using assms by (simp add: free_desc_ok reqs_def del: free_chain.simps)
  also have "\<dots> = free_chain (Suc 6) 2 ?b"
    unfolding free_chain_step[of "Suc 6"] using f by (simp add: free_desc_ok reqs_def del: free_chain.simps)
  also have "\<dots> = Inr ?c"
    unfolding free_chain_step[of 6] by (simp add: free_desc_ok reqs_def del: free_chain.simps)
  also have "?c = d\<lparr>desc := [desc0, desc0, desc0] @ ds, vfree := replicate 8 True\<rparr>" by (simp add: eval_nat_numeral)
  finally show ?thesis .
qed

lemma intr_one:
  assumes "used_dev_idx d = used_idx d + 1" "used_ring d ! unat (used_idx d mod 8) = 0" "info_status d ! 0 = 0" "info_b d ! 0 = Some b"
  shows "virtio_disk_intr (s, d) = Inr (upd_buf b (\<lambda>x. x\<lparr>b_disk := False\<rparr>) s,
    wreg 0x064 (mmio d 0x060 AND 0x3) d\<lparr>used_idx := used_idx d + 1\<rparr>)"
proof -
  have ne: "used_idx d \<noteq> used_idx d + 1" by simp
  have last: "intr_loop (s', d\<lparr>mmio := m, used_idx := used_idx d + 1\<rparr>) = Inr (s', d\<lparr>mmio := m, used_idx := used_idx d + 1\<rparr>)" for s' m
    using assms(1) by (subst intr_loop.simps) simp
  show ?thesis
    unfolding virtio_disk_intr_def prod.case wreg_def
    using assms ne by (subst intr_loop.simps) (simp add: last)
qed

lemma disk_rw_disk: "disk_rw b w (upd_buf b (\<lambda>x. x\<lparr>b_disk := True\<rparr>) s) = upd_buf b (\<lambda>x. x\<lparr>b_disk := True\<rparr>) (disk_rw b w s)"
  if "b < length (bufs s)"
  using that by (cases "bufs s ! b") (auto simp: disk_rw_def upd_buf_def set_data_def Let_def)

lemma upd_buf_back:
  assumes "b < length (bufs s)" "\<not> b_disk (bufs s ! b)"
  shows "upd_buf b (\<lambda>x. x\<lparr>b_disk := False\<rparr>) (upd_buf b (\<lambda>x. x\<lparr>b_disk := True\<rparr>) s) = s"
proof -
  have "(bufs s ! b)\<lparr>b_disk := False\<rparr> = bufs s ! b" using assms(2) by (cases "bufs s ! b") simp
  then show ?thesis using assms(1) by (simp add: upd_buf_def)
qed

lemma disk_rw_fields: "length (bufs (disk_rw b w s)) = length (bufs s)"
  "b < length (bufs s) \<Longrightarrow> b_disk (bufs (disk_rw b w s) ! b) = b_disk (bufs s ! b)"
  by (auto simp: disk_rw_def set_data_def upd_buf_def Let_def)


text \<open>A device that takes two moments, and the driver after \<open>virtio_disk_init\<close>.\<close>

definition slow_device :: "'a device" where
  "slow_device t sd = (if pending (snd sd) \<and> 2 \<le> t then (serve sd, True) else (sd, False))"

definition vdisk0 :: vdisk where
  "vdisk0 = \<lparr>desc = replicate 8 desc0, avail_idx = 0, avail_ring = replicate 8 0, used_dev_idx = 0, used_ring = replicate 8 0,
     vfree = replicate 8 True, used_idx = 0, info_b = replicate 8 None, info_status = replicate 8 0,
     ops = replicate 8 \<lparr>r_type = 0, r_reserved = 0, r_sector = 0\<rparr>, mmio = (\<lambda>_. 0)\<rparr>"


end
