(* ===== verification/FsBlocks.thy ===== *)
theory FsBlocks
  imports Loader
begin

text \<open>
  The block bitmap: \<open>balloc\<close> takes the first free block, marks it and clears its contents, \<open>bfree\<close>
  gives a block back, and the rest of the disk and of the kernel does not change.
\<close>

section \<open>Blocks through the cache\<close>

lemma rest_kfs: "rest s' = rest s \<Longrightarrow> sb s' = sb s \<and> itable s' = itable s"
  unfolding rest_def using nodisk_kfs by blast

lemma rest_nodisk: "rest s' = rest s \<Longrightarrow> nodisk s' = nodisk s"
  by (simp add: rest_def)

lemma bread_brelse:
  assumes "ready s" "bread 1 b s = Inr (i, s1)"
  shows "buf_data i s1 = disk s b" "ready (brelse i s1)" "disk (brelse i s1) = disk s" "rest (brelse i s1) = rest s"
  using cache_load_ok[OF assms(1), of b] assms(2) by (auto simp: cache_load_def)

lemma bread_ok: "ready s \<Longrightarrow> \<exists>i s1. bread 1 b s = Inr (i, s1)"
  by (rule bread_ready) auto

lemma bread_bwrite:
  assumes "ready s" "bread 1 b s = Inr (i, s1)" "length d = 1024" "s' = brelse i (bwrite i (set_data i d s1))"
  shows "ready s'" "disk s' = (disk s)(b := d)" "rest s' = rest s"
  using cache_store_ok[of s "\<lambda>_. d" b] assms by (auto simp: cache_store_def)

lemma bzero_ok:
  assumes "ready s"
  shows "\<exists>s'. bzero 1 b s = Inr s' \<and> ready s' \<and> disk s' = (disk s)(b := replicate 1024 0) \<and> rest s' = rest s"
proof -
  have "bzero 1 b s = cache_store b (\<lambda>_. replicate 1024 0) s" by (simp add: bzero_def cache_store_def Let_def)
  then show ?thesis using cache_store_ok[OF assms, of "\<lambda>_. replicate 1024 0" b] by simp
qed

section \<open>Bits\<close>

definition bit_at :: "u8 list \<Rightarrow> nat \<Rightarrow> bool" where
  "bit_at d k \<longleftrightarrow> bit (d ! (k div 8)) (k mod 8)"

lemma bmask_clear: "(x AND bmask k = 0) = (\<not> bit x (k mod 8))"
  by (simp add: bmask_def bit_iff_and_push_bit_not_eq_0)

lemma bit_bmask: "j < 8 \<Longrightarrow> bit (bmask k) j = (j = k mod 8)"
  by (auto simp: bmask_def bit_simps)

definition mark :: "nat \<Rightarrow> u8 list \<Rightarrow> u8 list" where
  "mark k d = d[k div 8 := d ! (k div 8) OR bmask k]"

definition unmark :: "nat \<Rightarrow> u8 list \<Rightarrow> u8 list" where
  "unmark k d = d[k div 8 := d ! (k div 8) AND NOT (bmask k)]"

lemma length_mark [simp]: "length (mark k d) = length d" "length (unmark k d) = length d"
  by (simp_all add: mark_def unmark_def)

lemma same_bit: "k div 8 = l div 8 \<Longrightarrow> k mod 8 = l mod 8 \<Longrightarrow> k = (l :: nat)"
  by (metis div_mult_mod_eq)

lemma bit_at_mark: "k div 8 < length d \<Longrightarrow> bit_at (mark k d) l = (bit_at d l \<or> l = k)"
  using same_bit[of k l] by (auto simp: bit_at_def mark_def nth_list_update bit_simps bit_bmask)

lemma bit_at_unmark: "k div 8 < length d \<Longrightarrow> bit_at (unmark k d) l = (bit_at d l \<and> l \<noteq> k)"
  using same_bit[of k l] by (auto simp: bit_at_def unmark_def nth_list_update bit_simps bit_bmask)

lemma unmark_mark:
  assumes "k div 8 < length d" "\<not> bit_at d k"
  shows "unmark k (mark k d) = d"
proof -
  have "(d ! (k div 8) OR bmask k) AND NOT (bmask k) = d ! (k div 8)"
  proof (rule bit_word_eqI)
    fix n assume "n < LENGTH(8)"
    then show "bit ((d ! (k div 8) OR bmask k) AND NOT (bmask k)) n = bit (d ! (k div 8)) n"
      using assms(2) bit_bmask[of n k] by (auto simp: bit_simps bit_at_def)
  qed
  then show ?thesis using assms(1) by (simp add: mark_def unmark_def)
qed

lemma find_clear_None: "find_clear d bi n = None \<longleftrightarrow> (\<forall>k. bi \<le> k \<and> k < bi + n \<longrightarrow> bit_at d k)"
proof (induction n arbitrary: bi)
  case (Suc n)
  then show ?case
    by (auto simp: bmask_clear bit_at_def Suc_le_eq) (metis (no_types, lifting) le_neq_implies_less)+
qed auto

lemma find_clear_Some:
  "find_clear d bi n = Some k \<Longrightarrow> bi \<le> k \<and> k < bi + n \<and> \<not> bit_at d k \<and> (\<forall>l. bi \<le> l \<and> l < k \<longrightarrow> bit_at d l)"
proof (induction n arbitrary: bi)
  case (Suc n)
  show ?case
  proof (cases "bit_at d bi")
    case True
    then have "find_clear d (Suc bi) n = Some k" using Suc.prems by (simp add: bmask_clear bit_at_def)
    from Suc.IH[OF this] True show ?thesis by (metis Suc_leI add_Suc_shift le_neq_implies_less Suc_leD)
  next
    case False
    then have "k = bi" using Suc.prems by (simp add: bmask_clear bit_at_def)
    then show ?thesis using False by auto
  qed
qed simp

section \<open>The bitmap on disk\<close>

definition bmap_block :: "'a kfs_scheme \<Rightarrow> nat \<Rightarrow> u32" where
  "bmap_block s b = BBLOCK (of_nat b) (sb s)"

definition used :: "'a kfs_scheme \<Rightarrow> nat \<Rightarrow> bool" where
  "used s b = bit_at (disk s (bmap_block s b)) (b mod 8192)"

definition nblocks :: "'a kfs_scheme \<Rightarrow> nat" where
  "nblocks s = unat (sb_size (sb s))"

text \<open>The blocks of the bitmap are different for different groups of 8192 blocks, and marked used.\<close>

definition bitmap_wf :: "'a kfs_scheme \<Rightarrow> bool" where
  "bitmap_wf s \<longleftrightarrow> (\<forall>b < nblocks s. unat (bmap_block s b) < nblocks s \<and> used s (unat (bmap_block s b)))"

lemma used_cong: "disk s' = disk s \<Longrightarrow> rest s' = rest s \<Longrightarrow> used s' b = used s b"
  using rest_kfs[of s' s] by (simp add: used_def bmap_block_def)

lemma nblocks_cong: "rest s' = rest s \<Longrightarrow> nblocks s' = nblocks s \<and> bmap_block s' = bmap_block s"
  using rest_kfs[of s' s] by (simp add: nblocks_def bmap_block_def fun_eq_iff)

lemma nblocks_bound: "nblocks s < 2 ^ 32"
  unfolding nblocks_def by (rule unat_less_u32)

lemma unat_of_nat_u32: "b < 2 ^ 32 \<Longrightarrow> unat (of_nat b :: u32) = b"
  by (simp add: unsigned_of_nat take_bit_nat_eq_self)

lemma div_8192: "b < 2 ^ 32 \<Longrightarrow> unat ((of_nat b :: u32) div 8192) = b div 8192"
  by (simp add: unat_div unat_of_nat_u32)

lemma bmap_block_eq:
  assumes "b < 2 ^ 32" "c < 2 ^ 32"
  shows "bmap_block s b = bmap_block s c \<longleftrightarrow> b div 8192 = c div 8192"
proof -
  have "bmap_block s b = bmap_block s c \<longleftrightarrow> (of_nat b :: u32) div 8192 = of_nat c div 8192"
    by (simp add: bmap_block_def BBLOCK_def)
  then show ?thesis using div_8192[OF assms(1)] div_8192[OF assms(2)] by (metis word_unat_eq_iff)
qed

text \<open>The loop of \<open>balloc\<close> at bitmap group \<open>b\<close>.\<close>

lemma in_group: "b mod 8192 = 0 \<Longrightarrow> k < 8192 \<Longrightarrow> (b + k) div 8192 = b div 8192 \<and> (b + k) mod 8192 = (k::nat)"
  by (simp add: div_add1_eq mod_add_eq[of b 8192 k, symmetric])

lemma balloc_loop_step:
  assumes "ready s" "b < nblocks s" "b mod 8192 = 0"
  shows "(\<exists>k < 8192. b + k < nblocks s \<and> \<not> used s (b + k) \<and> (\<forall>l. b \<le> l \<and> l < b + k \<longrightarrow> used s l) \<and>
      (\<exists>s1 s2. ready s1 \<and> disk s1 = (disk s)(bmap_block s b := mark k (disk s (bmap_block s b))) \<and> rest s1 = rest s \<and>
        bzero 1 (of_nat (b + k)) s1 = Inr s2 \<and> balloc_loop 1 b s = Inr (of_nat (b + k), s2))) \<or>
    ((\<forall>l. b \<le> l \<and> l < min (b + 8192) (nblocks s) \<longrightarrow> used s l) \<and>
     (\<exists>s1. ready s1 \<and> disk s1 = disk s \<and> rest s1 = rest s \<and> balloc_loop 1 b s = balloc_loop 1 (b + 8192) s1))"
proof -
  obtain i s1 where rd: "bread 1 (bmap_block s b) s = Inr (i, s1)" using bread_ok[OF assms(1)] by blast
  note r = bread_brelse[OF assms(1) rd]
  let ?d = "disk s (bmap_block s b)" and ?n = "min 8192 (nblocks s - b)"
  have len: "length ?d = 1024" by (rule ready_length[OF assms(1)])
  have us: "used s (b + k) = bit_at ?d k" if "k < 8192" "b + k < nblocks s" for k
    using in_group[OF assms(3) that(1)] that(2) nblocks_bound[of s] bmap_block_eq[of "b + k" b s] by (simp add: used_def)
  show ?thesis
  proof (cases "find_clear ?d 0 ?n")
    case None
    then have "used s l" if "b \<le> l" "l < min (b + 8192) (nblocks s)" for l
      using us[of "l - b"] that unfolding find_clear_None by auto
    moreover have "balloc_loop 1 b s = balloc_loop 1 (b + 8192) (brelse i s1)"
      using assms(2) rd r(1) None by (subst balloc_loop.simps) (simp add: nblocks_def bmap_block_def Let_def)
    ultimately show ?thesis using r by blast
  next
    case (Some k)
    note k = find_clear_Some[OF Some]
    have k8: "k < 8192" "b + k < nblocks s" using k by auto
    have "used s l" if "b \<le> l" "l < b + k" for l using us[of "l - b"] that k k8 by auto
    moreover have "\<not> used s (b + k)" using us[OF k8] k by simp
    moreover let ?s1 = "brelse i (bwrite i (set_data i (mark k ?d) s1))"
    have w: "ready ?s1" "disk ?s1 = (disk s)(bmap_block s b := mark k ?d)" "rest ?s1 = rest s"
      using bread_bwrite[OF assms(1) rd _ refl, of "mark k ?d"] len by simp_all
    moreover obtain s2 where "bzero 1 (of_nat (b + k)) ?s1 = Inr s2" using bzero_ok[OF w(1)] by blast
    moreover then have "balloc_loop 1 b s = Inr (of_nat (b + k), s2)"
      using assms(2) rd r(1) Some by (subst balloc_loop.simps) (simp add: nblocks_def bmap_block_def Let_def mark_def)
    ultimately show ?thesis using k8 by blast
  qed
qed

text \<open>The state after block \<open>b\<close> has been taken.\<close>

definition taken :: "nat \<Rightarrow> 'a kfs_scheme \<Rightarrow> 'a kfs_scheme \<Rightarrow> bool" where
  "taken b s s' \<longleftrightarrow> ready s' \<and> rest s' = rest s \<and>
     disk s' = (disk s)(bmap_block s b := mark (b mod 8192) (disk s (bmap_block s b)), of_nat b := replicate 1024 0)"

lemma free_not_bitmap:
  assumes "bitmap_wf s" "b < nblocks s" "\<not> used s b" "l < nblocks s"
  shows "of_nat b \<noteq> bmap_block s l"
proof
  assume e: "of_nat b = bmap_block s l"
  have "unat (of_nat b :: u32) = b" using assms(2) nblocks_bound[of s] by (intro unat_of_nat_u32) simp
  then have "used s b" using assms(1,4) e unfolding bitmap_wf_def by metis
  then show False using assms(3) by simp
qed

lemma mod8192_div8: "k < 8192 \<Longrightarrow> length d = 1024 \<Longrightarrow> k div 8 < length (d :: u8 list)"
  by (simp add: div_less_iff_less_mult)

lemma taken_used:
  assumes "ready s" "bitmap_wf s" "b < nblocks s" "\<not> used s b" "taken b s s'" "l < nblocks s"
  shows "used s' l \<longleftrightarrow> used s l \<or> l = b"
proof -
  have d: "disk s' = (disk s)(bmap_block s b := mark (b mod 8192) (disk s (bmap_block s b)), of_nat b := replicate 1024 0)"
    and m: "bmap_block s' = bmap_block s" using assms(5) nblocks_cong[of s' s] by (simp_all add: taken_def)
  have nb: "of_nat b \<noteq> bmap_block s l" by (rule free_not_bitmap[OF assms(2,3,4,6)])
  have lt: "b < 2 ^ 32" "l < 2 ^ 32" using assms(3,6) nblocks_bound[of s] by simp_all
  show ?thesis
  proof (cases "b div 8192 = l div 8192")
    case True
    then have e: "bmap_block s l = bmap_block s b" using bmap_block_eq[OF lt, of s] by simp
    have "used s' l \<longleftrightarrow> bit_at (mark (b mod 8192) (disk s (bmap_block s b))) (l mod 8192)"
      using d m nb e by (simp add: used_def)
    also have "\<dots> \<longleftrightarrow> used s l \<or> l mod 8192 = b mod 8192"
      using ready_length[OF assms(1)] by (simp add: bit_at_mark mod8192_div8 used_def e)
    also have "l mod 8192 = b mod 8192 \<longleftrightarrow> l = b" using True by (metis div_mult_mod_eq)
    finally show ?thesis .
  next
    case False
    then have "bmap_block s l \<noteq> bmap_block s b" "l \<noteq> b" using bmap_block_eq[OF lt, of s] by auto
    then show ?thesis using d m nb by (simp add: used_def)
  qed
qed

lemma balloc_loop_ok:
  assumes "ready s" "bitmap_wf s" "b mod 8192 = 0" "\<forall>l. l < b \<longrightarrow> l < nblocks s \<longrightarrow> used s l"
  shows "(\<forall>l < nblocks s. used s l) \<and> balloc_loop 1 b s = Inl (Panic ''balloc: out of blocks'') \<or>
    (\<exists>c s'. c < nblocks s \<and> \<not> used s c \<and> (\<forall>l < c. used s l) \<and> balloc_loop 1 b s = Inr (of_nat c, s') \<and> taken c s s')"
  using assms
proof (induction "nblocks s - b" arbitrary: b s rule: less_induct)
  case less
  show ?case
  proof (cases "b < nblocks s")
    case False
    then show ?thesis using less.prems(4) by (subst (1 2) balloc_loop.simps) (auto simp: nblocks_def)
  next
    case True
    from balloc_loop_step[OF less.prems(1) True less.prems(3)] show ?thesis
    proof (elim disjE conjE exE)
      fix k s1 s2
      assume k: "k < 8192" "b + k < nblocks s" "\<not> used s (b + k)" "\<forall>l. b \<le> l \<and> l < b + k \<longrightarrow> used s l"
        and s1: "ready s1" "disk s1 = (disk s)(bmap_block s b := mark k (disk s (bmap_block s b)))" "rest s1 = rest s"
        and s2: "bzero 1 (of_nat (b + k)) s1 = Inr s2" "balloc_loop 1 b s = Inr (of_nat (b + k), s2)"
      have z: "ready s2" "disk s2 = (disk s1)(of_nat (b + k) := replicate 1024 0)" "rest s2 = rest s1"
        using bzero_ok[OF s1(1), of "of_nat (b + k)"] s2(1) by auto
      have g: "(b + k) mod 8192 = k" "bmap_block s (b + k) = bmap_block s b"
        using in_group[OF less.prems(3) k(1)] bmap_block_eq[of "b + k" b s] k(2) nblocks_bound[of s] by simp_all
      have "taken (b + k) s s2" using z s1 by (simp add: taken_def g)
      moreover have "\<forall>l < b + k. used s l" using k less.prems(4) by (metis le_less_linear order_less_trans)
      ultimately show ?thesis using k(2,3) s2(2) by blast
    next
      fix s1
      assume u: "\<forall>l. b \<le> l \<and> l < min (b + 8192) (nblocks s) \<longrightarrow> used s l"
        and s1: "ready s1" "disk s1 = disk s" "rest s1 = rest s" "balloc_loop 1 b s = balloc_loop 1 (b + 8192) s1"
      have c: "nblocks s1 = nblocks s" "bmap_block s1 = bmap_block s" "used s1 = used s"
        using nblocks_cong[OF s1(3)] used_cong[OF s1(2,3)] by (simp_all add: fun_eq_iff)
      have wf: "bitmap_wf s1" using less.prems(2) by (simp add: bitmap_wf_def c)
      have below: "\<forall>l. l < b + 8192 \<longrightarrow> l < nblocks s1 \<longrightarrow> used s1 l"
        unfolding c using u less.prems(4) by (metis min_less_iff_conj not_less)
      have "taken x s1 s' = taken x s s'" for x s' unfolding taken_def c s1(2,3) by simp
      then show ?thesis
        using less.hyps[of s1 "b + 8192", OF _ s1(1) wf _ below] True less.prems(3) unfolding c s1(4) by simp
    qed
  qed
qed

text \<open>C27: \<open>balloc\<close> returns the first free block of the bitmap, marks exactly that block used and clears its
  contents, changes nothing else on the disk or in the kernel, and panics exactly when every block
  is used.\<close>

theorem balloc_correct:
  assumes "ready s" "bitmap_wf s"
  shows "(\<forall>l < nblocks s. used s l) \<and> balloc 1 s = Inl (Panic ''balloc: out of blocks'') \<or>
    (\<exists>b s'. balloc 1 s = Inr (of_nat b, s') \<and> b < nblocks s \<and> \<not> used s b \<and> (\<forall>l < b. used s l) \<and>
      (\<forall>l < nblocks s. used s' l \<longleftrightarrow> used s l \<or> l = b) \<and> disk s' (of_nat b) = replicate 1024 0 \<and>
      (\<forall>x. x \<noteq> of_nat b \<longrightarrow> x \<noteq> bmap_block s b \<longrightarrow> disk s' x = disk s x) \<and> ready s' \<and> rest s' = rest s)"
proof -
  have "(\<forall>l < nblocks s. used s l) \<and> balloc_loop 1 0 s = Inl (Panic ''balloc: out of blocks'') \<or>
    (\<exists>c s'. c < nblocks s \<and> \<not> used s c \<and> (\<forall>l < c. used s l) \<and> balloc_loop 1 0 s = Inr (of_nat c, s') \<and> taken c s s')"
    by (rule balloc_loop_ok[OF assms]) simp_all
  then show ?thesis
  proof (elim disjE exE conjE)
    fix c s'
    assume c: "c < nblocks s" "\<not> used s c" "\<forall>l < c. used s l" "balloc_loop 1 0 s = Inr (of_nat c, s')" "taken c s s'"
    have "used s' l \<longleftrightarrow> used s l \<or> l = c" if "l < nblocks s" for l
      by (rule taken_used[OF assms c(1,2,5) that])
    then show ?thesis using c unfolding balloc_def taken_def by auto
  qed (simp add: balloc_def)
qed

text \<open>A disk of eight blocks whose first block is the bitmap, for the examples.\<close>

definition small_fs :: kload where
  "small_fs = binit (kload0 (\<lambda>_. 0) (\<lambda>_. 1 # replicate 1023 0)
     \<lparr>sb := \<lparr>sb_magic = FSMAGIC, sb_size = 8, sb_nblocks = 7, sb_ninodes = 0, sb_inodestart = 0, sb_bmapstart = 0\<rparr>\<rparr>)"

lemma small_fs: "ready small_fs" "disk small_fs = (\<lambda>_. 1 # replicate 1023 0)" "sb_size (sb small_fs) = 8"
  "sb_bmapstart (sb small_fs) = 0"
  unfolding small_fs_def by (rule binit_ready) (simp_all add: kload0_def binit_def Let_def)

lemma small_fs_used: "b < 8 \<Longrightarrow> used small_fs b \<longleftrightarrow> b = 0" "b < 8 \<Longrightarrow> bmap_block small_fs b = 0"
proof -
  assume b: "b < 8"
  have "(of_nat b :: u32) div 8192 = 0" using div_8192[of b] b by (simp add: word_unat_eq_iff)
  then show "bmap_block small_fs b = 0" by (simp add: bmap_block_def BBLOCK_def small_fs)
  have "bit (1 :: u8) b \<longleftrightarrow> b = 0" using b by (simp add: bit_1_iff)
  then show "used small_fs b \<longleftrightarrow> b = 0" using b by (simp add: used_def bit_at_def small_fs)
qed

lemma small_fs_wf: "bitmap_wf small_fs" "nblocks small_fs = 8"
  by (simp_all add: bitmap_wf_def nblocks_def small_fs small_fs_used)

theorem balloc_correct_witness: "\<exists>s'. balloc 1 small_fs = Inr (1, s') \<and> disk s' 1 = replicate 1024 0"
proof -
  have "\<not> (\<forall>l < nblocks small_fs. used small_fs l)"
    unfolding small_fs_wf using small_fs_used(1)[of 1] by (intro notI) (drule spec[of _ 1], simp)
  then obtain b s' where b: "balloc 1 small_fs = Inr (of_nat b, s')" "b < 8" "\<not> used small_fs b" "\<forall>l < b. used small_fs l"
    "disk s' (of_nat b) = replicate 1024 0"
    using balloc_correct[OF small_fs(1) small_fs_wf(1)] unfolding small_fs_wf(2) by blast
  have "\<not> 1 < b" using b(4) small_fs_used(1)[of 1] by auto
  then have "b = 1" using b(2,3) small_fs_used(1)[of b] by auto
  then show ?thesis using b by auto
qed

section \<open>Giving blocks back\<close>

lemma bfree_ok:
  assumes "ready s"
  shows "if bit_at (disk s (BBLOCK b (sb s))) (unat (b mod 8192))
    then \<exists>s'. bfree 1 b s = Inr s' \<and> ready s' \<and> rest s' = rest s \<and>
      disk s' = (disk s)(BBLOCK b (sb s) := unmark (unat (b mod 8192)) (disk s (BBLOCK b (sb s))))
    else bfree 1 b s = Inl (Panic ''freeing free block'')"
proof -
  obtain i s1 where rd: "bread 1 (BBLOCK b (sb s)) s = Inr (i, s1)" using bread_ok[OF assms(1)] by blast
  note r = bread_brelse[OF assms(1) rd]
  let ?d = "disk s (BBLOCK b (sb s))" and ?k = "unat (b mod 8192)"
  show ?thesis
  proof (cases "bit_at ?d ?k")
    case False
    then show ?thesis using rd r(1) by (simp add: bfree_def Let_def bmask_clear bit_at_def)
  next
    case True
    have "bfree 1 b s = Inr (brelse i (bwrite i (set_data i (unmark ?k ?d) s1)))"
      using rd r(1) True by (simp add: bfree_def Let_def bmask_clear bit_at_def unmark_def)
    then show ?thesis using bread_bwrite[OF assms(1) rd _ refl, of "unmark ?k ?d"] ready_length[OF assms(1)] True by simp
  qed
qed

text \<open>C26: a block that \<open>balloc\<close> has just allocated can be given back with \<open>bfree\<close>: it succeeds, and the disk
  is as before except that the block's contents are cleared; giving it back twice panics.\<close>

theorem balloc_bfree:
  assumes "ready s" "bitmap_wf s" "balloc 1 s = Inr (b, s1)"
  shows "\<exists>s2. bfree 1 b s1 = Inr s2 \<and> disk s2 = (disk s)(b := replicate 1024 0) \<and> ready s2 \<and> rest s2 = rest s \<and>
    bfree 1 b s2 = Inl (Panic ''freeing free block'')"
proof -
  obtain c where c: "c < nblocks s" "\<not> used s c" "b = of_nat c" "taken c s s1"
    using balloc_loop_ok[OF assms(1,2), of 0] assms(3) unfolding balloc_def by auto
  have lt: "c < 2 ^ 32" using c(1) nblocks_bound[of s] by simp
  let ?x = "bmap_block s c" and ?k = "c mod 8192"
  have k: "unat (b mod 8192) = ?k" using c(3) lt by (simp add: unat_mod unat_of_nat_u32)
  have s1: "ready s1" "rest s1 = rest s" "disk s1 = (disk s)(?x := mark ?k (disk s ?x), b := replicate 1024 0)" "sb s1 = sb s"
    using c(3,4) rest_kfs[of s1 s] by (simp_all add: taken_def)
  have x: "BBLOCK b (sb s1) = ?x" "b \<noteq> ?x" using free_not_bitmap[OF assms(2) c(1,2,1)] c(3) s1(4) by (simp_all add: bmap_block_def)
  have d: "?k div 8 < length (disk s ?x)" using ready_length[OF assms(1)] by (simp add: mod8192_div8)
  have nb: "\<not> bit_at (disk s ?x) ?k" using c(2) by (simp add: used_def)
  have d1: "disk s1 ?x = mark ?k (disk s ?x)" using s1(3) x(2) by simp
  obtain s2 where s2: "bfree 1 b s1 = Inr s2" "ready s2" "rest s2 = rest s1" "disk s2 = (disk s1)(?x := unmark ?k (disk s1 ?x))"
    using bfree_ok[OF s1(1), of b] unfolding x(1) k d1 bit_at_mark[OF d] by auto
  have d2: "disk s2 = (disk s)(b := replicate 1024 0)"
    unfolding s2(4) d1 s1(3) using x(2) unmark_mark[OF d nb] by (auto simp: fun_eq_iff)
  have "BBLOCK b (sb s2) = ?x" using rest_kfs[OF s2(3)] x(1) by simp
  then have "bfree 1 b s2 = Inl (Panic ''freeing free block'')"
    using bfree_ok[OF s2(2), of b] d2 x(2) nb by (simp add: k)
  then show ?thesis using s2 d2 s1(2) by auto
qed

theorem balloc_bfree_witness:
  "\<exists>b s1 s2. balloc 1 small_fs = Inr (b, s1) \<and> bfree 1 b s1 = Inr s2 \<and>
     disk s2 = (\<lambda>_. 1 # replicate 1023 0)(b := replicate 1024 0)"
proof -
  have "\<not> (\<forall>l < nblocks small_fs. used small_fs l)"
    unfolding small_fs_wf using small_fs_used(1)[of 1] by (intro notI) (drule spec[of _ 1], simp)
  then obtain b s1 where "balloc 1 small_fs = Inr (b, s1)"
    using balloc_loop_ok[OF small_fs(1) small_fs_wf(1), of 0] unfolding balloc_def by auto
  then show ?thesis using balloc_bfree[OF small_fs(1) small_fs_wf(1)] unfolding small_fs(2) by blast
qed

end
