(* ===== verification/FsInodes.thy ===== *)
theory FsInodes
  imports FsBlocks
begin

text \<open>
  Inodes on disk: the fields of a \<open>struct dinode\<close> in a block, \<open>iupdate\<close> writes them, \<open>ivalid\<close>
  reads them back, and the inode table counts references.
\<close>

section \<open>Parts of a block\<close>

lemma length_put_at [simp]: "off + length bs \<le> length d \<Longrightarrow> length (put_at off bs d) = length d"
  by (simp add: put_at_def)

lemma nth_put_at:
  "off + length bs \<le> length d \<Longrightarrow> i < length d \<Longrightarrow>
   put_at off bs d ! i = (if off \<le> i \<and> i < off + length bs then bs ! (i - off) else d ! i)"
  by (auto simp: put_at_def nth_append min_def)

lemma sub_put_in:
  assumes "off + length bs \<le> length d" "off \<le> p" "p + n \<le> off + length bs"
  shows "take n (drop p (put_at off bs d)) = take n (drop (p - off) bs)"
  using assms by (intro nth_equalityI) (auto simp: nth_put_at)

lemma sub_put_other:
  assumes "off + length bs \<le> length d" "p + n \<le> off \<or> off + length bs \<le> p"
  shows "take n (drop p (put_at off bs d)) = take n (drop p d)"
  using assms by (intro nth_equalityI) (auto simp: nth_put_at)

lemma get32_put_other:
  "off + length bs \<le> length d \<Longrightarrow> p + 4 \<le> off \<or> off + length bs \<le> p \<Longrightarrow> get32 p (put_at off bs d) = get32 p d"
  by (simp add: get32_def sub_put_other)

lemma get16_put_other:
  "off + length bs \<le> length d \<Longrightarrow> p + 2 \<le> off \<or> off + length bs \<le> p \<Longrightarrow> get16 p (put_at off bs d) = get16 p d"
  by (simp add: get16_def sub_put_other)

lemma get32_put: "off + 4 \<le> length d \<Longrightarrow> get32 off (put_at off (to_le 4 v) d) = v"
  by (simp add: get32_def sub_put_in from_le_to_le)

lemma get16_put: "off + 2 \<le> length d \<Longrightarrow> get16 off (put_at off (to_le 2 v) d) = v"
  by (simp add: get16_def sub_put_in from_le_to_le)

lemma length_put_addrs [simp]: "length (put_addrs as) = 4 * length as"
  by (induction as) (simp_all add: put_addrs_def)

lemma put_addrs_nth: "i < length as \<Longrightarrow> take 4 (drop (4 * i) (put_addrs as)) = to_le 4 (as ! i)"
proof (induction as arbitrary: i)
  case (Cons a as)
  then show ?case by (cases i) (simp_all add: put_addrs_def)
qed simp

lemma get_addrs_put:
  assumes "off + 12 + 4 * 13 \<le> length d" "length as = 13"
  shows "get_addrs off (put_at (off + 12) (put_addrs as) d) = as"
proof (rule nth_equalityI)
  fix i assume "i < length (get_addrs off (put_at (off + 12) (put_addrs as) d))"
  then have i: "i < 13" by (simp add: get_addrs_def)
  then have "take 4 (drop (off + 12 + 4 * i) (put_at (off + 12) (put_addrs as) d)) = to_le 4 (as ! i)"
    using assms by (subst sub_put_in) (auto simp: put_addrs_nth)
  then show "get_addrs off (put_at (off + 12) (put_addrs as) d) ! i = as ! i"
    using i by (simp add: get_addrs_def get32_def from_le_to_le)
qed (use assms in \<open>simp add: get_addrs_def\<close>)

lemma get_addrs_other:
  assumes "off + length bs \<le> length d" "p + 64 \<le> off \<or> off + length bs \<le> p + 12"
  shows "get_addrs p (put_at off bs d) = get_addrs p d"
proof -
  have "get32 (p + 12 + 4 * i) (put_at off bs d) = get32 (p + 12 + 4 * i) d" if "i < 13" for i
    by (rule get32_put_other[OF assms(1)]) (use assms(2) that in auto)
  then show ?thesis by (simp add: get_addrs_def)
qed

section \<open>The inode on disk\<close>

definition get_dinode :: "nat \<Rightarrow> u8 list \<Rightarrow> int \<times> u32 \<times> u32 list" where
  "get_dinode off d = (sint (get16 off d), get32 (off + 8) d, get_addrs off d)"

definition put_dinode :: "nat \<Rightarrow> int \<Rightarrow> u32 \<Rightarrow> u32 list \<Rightarrow> u8 list \<Rightarrow> u8 list" where
  "put_dinode off typ sz as d =
     put_at (off + 12) (put_addrs as) (put_at (off + 8) (to_le 4 sz) (put_at off (to_le 2 (of_int typ :: u16)) d))"

lemma length_put_dinode [simp]: "off + 64 \<le> length d \<Longrightarrow> length as = 13 \<Longrightarrow> length (put_dinode off typ sz as d) = length d"
  by (simp add: put_dinode_def)

lemma sint_of_int16: "- (2 ^ 15) \<le> t \<Longrightarrow> t < 2 ^ 15 \<Longrightarrow> sint (of_int t :: u16) = t"
  by (simp add: signed_of_int signed_take_bit_int_eq_self)

lemma get_put_dinode:
  assumes "off + 64 \<le> length d" "length as = 13" "- (2 ^ 15) \<le> typ" "typ < 2 ^ 15"
  shows "get_dinode off (put_dinode off typ sz as d) = (typ, sz, as)"
  using assms
  by (simp add: get_dinode_def put_dinode_def get_addrs_put get16_put_other get32_put_other get16_put get32_put sint_of_int16)

lemma get_put_dinode_other:
  assumes "off + 64 \<le> length d" "length as = 13" "p + 64 \<le> off \<or> off + 64 \<le> p"
  shows "get_dinode p (put_dinode off typ sz as d) = get_dinode p d"
  using assms
  by (auto simp: get_dinode_def put_dinode_def get16_put_other get32_put_other get_addrs_other)

definition dinode :: "'a kfs_scheme \<Rightarrow> u32 \<Rightarrow> int \<times> u32 \<times> u32 list" where
  "dinode s inum = get_dinode (dinode_off inum) (disk s (IBLOCK inum (sb s)))"

lemma dinode_off_bound: "dinode_off inum + 64 \<le> 1024"
proof -
  have "inum mod 16 < 16" by (simp add: word_mod_less_divisor)
  then have "unat (inum mod 16) < 16" by (simp add: word_less_nat_alt)
  then show ?thesis by (simp add: dinode_off_def)
qed

lemma dinode_off_other:
  assumes "IBLOCK a b = IBLOCK c b" "a \<noteq> c"
  shows "dinode_off a + 64 \<le> dinode_off c \<or> dinode_off c + 64 \<le> dinode_off a"
proof -
  have "a div 16 = c div 16" using assms(1) by (simp add: IBLOCK_def)
  then have "a mod 16 \<noteq> c mod 16" using assms(2) by (metis mod_mult_div_eq)
  then have "unat (a mod 16) \<noteq> unat (c mod 16)" by (metis word_unat_eq_iff)
  then show ?thesis by (auto simp: dinode_off_def)
qed

text \<open>\<open>iupdate\<close> writes the in-memory inode, \<open>ivalid\<close> loads the one on disk.\<close>

lemma iupdate_ok:
  assumes "ready s" "i_dev (itable s ! ip) = 1" "length (i_addrs (itable s ! ip)) = 13"
  shows "\<exists>s'. iupdate ip s = Inr s' \<and> ready s' \<and> rest s' = rest s \<and>
    disk s' = (disk s)(IBLOCK (i_inum (itable s ! ip)) (sb s) :=
      put_dinode (dinode_off (i_inum (itable s ! ip))) (i_type (itable s ! ip)) (i_size (itable s ! ip)) (i_addrs (itable s ! ip))
        (disk s (IBLOCK (i_inum (itable s ! ip)) (sb s))))"
proof -
  let ?x = "itable s ! ip"
  let ?b = "IBLOCK (i_inum ?x) (sb s)"
  let ?d = "put_dinode (dinode_off (i_inum ?x)) (i_type ?x) (i_size ?x) (i_addrs ?x) (disk s ?b)"
  obtain i s1 where rd: "bread 1 ?b s = Inr (i, s1)" using bread_ok[OF assms(1)] by blast
  note r = bread_brelse[OF assms(1) rd]
  have "iupdate ip s = Inr (brelse i (bwrite i (set_data i ?d s1)))"
    using rd r(1) assms(2) by (simp add: iupdate_def Let_def put_dinode_def)
  moreover have "length ?d = 1024" using ready_length[OF assms(1)] dinode_off_bound assms(3) by simp
  ultimately show ?thesis using bread_bwrite[OF assms(1) rd _ refl, of ?d] by simp
qed

lemma ivalid_ok:
  assumes "ready s" "i_dev (itable s ! ip) = 1" "\<not> i_valid (itable s ! ip)"
    and "dinode s (i_inum (itable s ! ip)) = (typ, sz, as)"
  shows "if typ = 0 then ivalid ip s = Inl (Panic ''ivalid: no type'')
    else \<exists>s1. ready s1 \<and> disk s1 = disk s \<and> rest s1 = rest s \<and>
      ivalid ip s = Inr (upd_inode ip (\<lambda>x. x\<lparr>i_type := typ, i_size := sz, i_addrs := as, i_valid := True\<rparr>) s1)"
proof -
  let ?x = "itable s ! ip"
  let ?b = "IBLOCK (i_inum ?x) (sb s)"
  obtain i s1 where rd: "bread 1 ?b s = Inr (i, s1)" using bread_ok[OF assms(1)] by blast
  note r = bread_brelse[OF assms(1) rd]
  have tab: "itable (brelse i s1) = itable s" using rest_kfs[OF r(4)] by simp
  have d: "sint (get16 (dinode_off (i_inum ?x)) (disk s ?b)) = typ" "get32 (dinode_off (i_inum ?x) + 8) (disk s ?b) = sz"
    "get_addrs (dinode_off (i_inum ?x)) (disk s ?b) = as"
    using assms(4) by (simp_all add: dinode_def get_dinode_def)
  let ?n = "?x\<lparr>i_type := typ, i_size := sz, i_addrs := as, i_valid := True\<rparr>"
  have iv: "ivalid ip s = (if typ = 0 then Inl (Panic ''ivalid: no type'') else Inr (upd_inode ip (\<lambda>_. ?n) (brelse i s1)))"
    using rd r(1) assms(2,3) d by (simp add: ivalid_def Let_def del: sint_0)
  have "upd_inode ip (\<lambda>_. ?n) (brelse i s1) =
    upd_inode ip (\<lambda>x. x\<lparr>i_type := typ, i_size := sz, i_addrs := as, i_valid := True\<rparr>) (brelse i s1)"
    using tab by (simp add: upd_inode_def)
  then show ?thesis using iv r by auto
qed

text \<open>C28: an inode survives its entry of the inode table: \<open>iupdate\<close> writes type, size and block addresses to
  the inode's place on disk and nowhere else, every other inode on disk is unchanged, and when the
  inode is later loaded by \<open>ivalid\<close> into any entry of the table it has the same fields.\<close>

theorem iupdate_ivalid:
  assumes "ready s" "i_dev (itable s ! ip) = 1" "length (i_addrs (itable s ! ip)) = 13"
    and "0 < i_type (itable s ! ip)" "i_type (itable s ! ip) < 2 ^ 15"
  shows "\<exists>s1. iupdate ip s = Inr s1 \<and> ready s1 \<and> rest s1 = rest s \<and>
    (\<forall>inum. inum \<noteq> i_inum (itable s ! ip) \<longrightarrow> dinode s1 inum = dinode s inum) \<and>
    (\<forall>s2 jp. ready s2 \<longrightarrow> disk s2 = disk s1 \<longrightarrow> sb s2 = sb s \<longrightarrow> jp < length (itable s2) \<longrightarrow> i_dev (itable s2 ! jp) = 1 \<longrightarrow>
      i_inum (itable s2 ! jp) = i_inum (itable s ! ip) \<longrightarrow> \<not> i_valid (itable s2 ! jp) \<longrightarrow>
      (\<exists>s3. ivalid jp s2 = Inr s3 \<and> i_valid (itable s3 ! jp) \<and> i_type (itable s3 ! jp) = i_type (itable s ! ip) \<and>
        i_size (itable s3 ! jp) = i_size (itable s ! ip) \<and> i_addrs (itable s3 ! jp) = i_addrs (itable s ! ip)))"
proof -
  let ?x = "itable s ! ip"
  let ?b = "IBLOCK (i_inum ?x) (sb s)" and ?off = "dinode_off (i_inum ?x)"
  obtain s1 where s1: "iupdate ip s = Inr s1" "ready s1" "rest s1 = rest s"
    "disk s1 = (disk s)(?b := put_dinode ?off (i_type ?x) (i_size ?x) (i_addrs ?x) (disk s ?b))"
    using iupdate_ok[OF assms(1-3)] by blast
  have sb1: "sb s1 = sb s" using rest_kfs[OF s1(3)] by simp
  have len: "?off + 64 \<le> length (disk s ?b)" using ready_length[OF assms(1)] dinode_off_bound by simp
  have other: "dinode s1 inum = dinode s inum" if n: "inum \<noteq> i_inum ?x" for inum
  proof (cases "IBLOCK inum (sb s) = ?b")
    case True
    then show ?thesis using get_put_dinode_other[OF len assms(3)] dinode_off_other[OF True n] s1(4)
      by (simp add: dinode_def sb1)
  next
    case False
    then show ?thesis by (simp add: dinode_def sb1 s1(4))
  qed
  have same: "dinode s2 (i_inum ?x) = (i_type ?x, i_size ?x, i_addrs ?x)" if "disk s2 = disk s1" "sb s2 = sb s" for s2
    using get_put_dinode[OF len assms(3), of "i_type ?x" "i_size ?x"] assms(4,5) that s1(4) by (simp add: dinode_def)
  have "\<exists>s3. ivalid jp s2 = Inr s3 \<and> i_valid (itable s3 ! jp) \<and> i_type (itable s3 ! jp) = i_type ?x \<and>
        i_size (itable s3 ! jp) = i_size ?x \<and> i_addrs (itable s3 ! jp) = i_addrs ?x"
    if h: "ready s2" "disk s2 = disk s1" "sb s2 = sb s" "jp < length (itable s2)" "i_dev (itable s2 ! jp) = 1"
      "i_inum (itable s2 ! jp) = i_inum ?x" "\<not> i_valid (itable s2 ! jp)" for s2 jp
  proof -
    have "dinode s2 (i_inum (itable s2 ! jp)) = (i_type ?x, i_size ?x, i_addrs ?x)" using same[OF h(2,3)] h(6) by simp
    from ivalid_ok[OF h(1,5,7) this] obtain s4 where "rest s4 = rest s2"
      "ivalid jp s2 = Inr (upd_inode jp (\<lambda>x. x\<lparr>i_type := i_type ?x, i_size := i_size ?x, i_addrs := i_addrs ?x, i_valid := True\<rparr>) s4)"
      using assms(4) by auto
    moreover have "itable s4 = itable s2" using rest_kfs[OF \<open>rest s4 = rest s2\<close>] by simp
    ultimately show ?thesis using h(4) by (simp add: upd_inode_def)
  qed
  then show ?thesis using s1(1-3) other by blast
qed

text \<open>The cache does not depend on the inode table.\<close>

lemma bview_itable [simp]: "bview (s\<lparr>itable := t\<rparr>) = bview s"
  by (rule ext) (simp add: bview_def split: option.split)

lemma ready_itable [simp]: "ready (s\<lparr>itable := t\<rparr>) = ready s"
  by (simp add: ready_def synced_def cache_inv_def refs_def holds_def)

lemma ready_upd_inode [simp]: "ready (upd_inode ip f s) = ready s"
  by (simp add: upd_inode_def)

lemma upd_inode_fields [simp]: "disk (upd_inode ip f s) = disk s" "sb (upd_inode ip f s) = sb s"
  "length (itable (upd_inode ip f s)) = length (itable s)"
  "ip < length (itable s) \<Longrightarrow> itable (upd_inode ip f s) ! ip = f (itable s ! ip)"
  "jp \<noteq> ip \<Longrightarrow> itable (upd_inode ip f s) ! jp = itable s ! jp"
  by (simp_all add: upd_inode_def)

definition small_inode :: inode where
  "small_inode = \<lparr>i_dev = 1, i_inum = 3, i_ref = 1, i_valid = True, i_type = 2, i_size = 5, i_addrs = replicate 13 0\<rparr>"

theorem iupdate_ivalid_witness:
  "\<exists>s1. iupdate 0 (upd_inode 0 (\<lambda>_. small_inode) small_fs) = Inr s1 \<and>
    (\<exists>s3. ivalid 0 (upd_inode 0 (\<lambda>_. small_inode\<lparr>i_valid := False, i_size := 9\<rparr>) s1) = Inr s3 \<and> i_size (itable s3 ! 0) = 5)"
proof -
  let ?s = "upd_inode 0 (\<lambda>_. small_inode) small_fs"
  have l: "0 < length (itable small_fs)" by (simp add: small_fs_def kload0_def binit_def Let_def)
  have s: "itable ?s ! 0 = small_inode" using l by simp
  obtain s1 where s1: "iupdate 0 ?s = Inr s1" "ready s1" "rest s1 = rest ?s"
    and rt: "\<forall>(s2 :: kload) jp. ready s2 \<longrightarrow> disk s2 = disk s1 \<longrightarrow> sb s2 = sb ?s \<longrightarrow> jp < length (itable s2) \<longrightarrow> i_dev (itable s2 ! jp) = 1 \<longrightarrow>
      i_inum (itable s2 ! jp) = i_inum small_inode \<longrightarrow> \<not> i_valid (itable s2 ! jp) \<longrightarrow>
      (\<exists>s3. ivalid jp s2 = Inr s3 \<and> i_valid (itable s3 ! jp) \<and> i_type (itable s3 ! jp) = i_type small_inode \<and>
        i_size (itable s3 ! jp) = i_size small_inode \<and> i_addrs (itable s3 ! jp) = i_addrs small_inode)"
    using iupdate_ivalid[of ?s 0] small_fs(1) unfolding s by (auto simp: small_inode_def)
  let ?s2 = "upd_inode 0 (\<lambda>_. small_inode\<lparr>i_valid := False, i_size := 9\<rparr>) s1"
  have t: "sb s1 = sb ?s" "length (itable s1) = length (itable small_fs)" using rest_kfs[OF s1(3)] by simp_all
  then have "itable ?s2 ! 0 = small_inode\<lparr>i_valid := False, i_size := 9\<rparr>" using l by simp
  then show ?thesis using rt[rule_format, of ?s2 0] s1(1,2) t l by (auto simp: small_inode_def)
qed

section \<open>The inode table\<close>

text \<open>No inode has two entries in use, and every reference count is positive or 0.\<close>

definition itable_wf :: "'a kfs_scheme \<Rightarrow> bool" where
  "itable_wf s \<longleftrightarrow> (\<forall>i < length (itable s). 0 \<le> i_ref (itable s ! i)) \<and>
     (\<forall>i < length (itable s). \<forall>j < length (itable s). 0 < i_ref (itable s ! i) \<longrightarrow> 0 < i_ref (itable s ! j) \<longrightarrow>
        i_dev (itable s ! i) = i_dev (itable s ! j) \<longrightarrow> i_inum (itable s ! i) = i_inum (itable s ! j) \<longrightarrow> i = j)"

lemma iget_ok:
  assumes "itable_wf s"
  shows "(\<forall>i < length (itable s). 0 < i_ref (itable s ! i) \<and> \<not> (i_dev (itable s ! i) = dev \<and> i_inum (itable s ! i) = inum)) \<and>
      iget dev inum s = Inl (Panic ''iget: no inodes'') \<or>
    (\<exists>ip s'. iget dev inum s = Inr (ip, s') \<and> ip < length (itable s) \<and> itable_wf s' \<and>
      i_dev (itable s' ! ip) = dev \<and> i_inum (itable s' ! ip) = inum \<and> i_ref (itable s' ! ip) = i_ref (itable s ! ip) + 1 \<and>
      (0 < i_ref (itable s ! ip) \<longrightarrow> itable s' ! ip = (itable s ! ip)\<lparr>i_ref := i_ref (itable s ! ip) + 1\<rparr>) \<and>
      (i_ref (itable s ! ip) = 0 \<longrightarrow> \<not> i_valid (itable s' ! ip)) \<and>
      (\<forall>j. j \<noteq> ip \<longrightarrow> itable s' ! j = itable s ! j) \<and> itable_wf (iput ip s') \<and>
      i_ref (itable (iput ip s') ! ip) = i_ref (itable s ! ip))"
proof -
  let ?P = "\<lambda>x. i_ref x > 0 \<and> i_dev x = dev \<and> i_inum x = inum"
  have pos: "0 \<le> i_ref (itable s ! i)" if "i < length (itable s)" for i using assms that by (simp add: itable_wf_def)
  have one: "i = j" if "i < length (itable s)" "j < length (itable s)" "0 < i_ref (itable s ! i)" "0 < i_ref (itable s ! j)"
    "i_dev (itable s ! i) = i_dev (itable s ! j)" "i_inum (itable s ! i) = i_inum (itable s ! j)" for i j
    using assms that unfolding itable_wf_def by blast
  have upd: "itable_wf (upd_inode ip f s)"
    if "ip < length (itable s)" "0 \<le> i_ref (f (itable s ! ip))"
      "\<forall>j < length (itable s). j \<noteq> ip \<longrightarrow> 0 < i_ref (f (itable s ! ip)) \<longrightarrow> 0 < i_ref (itable s ! j) \<longrightarrow>
         i_dev (itable s ! j) = i_dev (f (itable s ! ip)) \<longrightarrow> i_inum (itable s ! j) \<noteq> i_inum (f (itable s ! ip))"
    for ip f
  proof -
    have n: "itable (upd_inode ip f s) ! i = (if i = ip then f (itable s ! ip) else itable s ! i)" for i
      using that(1) by simp
    show ?thesis unfolding itable_wf_def n upd_inode_fields using that pos one by (auto split: if_splits)
  qed
  show ?thesis
  proof (cases "find_idx ?P (itable s)")
    case (Some ip)
    then have ip: "ip < length (itable s)" "?P (itable s ! ip)" by (simp_all add: find_idx_Some)
    let ?s' = "upd_inode ip (\<lambda>x. x\<lparr>i_ref := i_ref x + 1\<rparr>) s"
    have "iput ip ?s' = s" using ip(1) by (simp add: iput_def upd_inode_def)
    moreover have "itable_wf ?s'" by (rule upd) (use ip pos one in auto)
    ultimately show ?thesis using Some ip assms by (intro disjI2 exI[of _ ip] exI[of _ ?s']) (simp add: iget_def)
  next
    case None
    then have no: "\<not> ?P (itable s ! i)" if "i < length (itable s)" for i using that nth_mem unfolding find_idx_None by blast
    show ?thesis
    proof (cases "find_idx (\<lambda>x. i_ref x = 0) (itable s)")
      case (Some ip)
      then have ip: "ip < length (itable s)" "i_ref (itable s ! ip) = 0" by (simp_all add: find_idx_Some)
      let ?f = "\<lambda>x. x\<lparr>i_dev := dev, i_inum := inum, i_ref := 1, i_valid := False\<rparr>"
      let ?s' = "upd_inode ip ?f s"
      have w: "itable_wf ?s'" by (rule upd) (use ip no in auto)
      have "iput ip ?s' = upd_inode ip (\<lambda>x. (?f x)\<lparr>i_ref := 0\<rparr>) s" using ip(1) by (simp add: iput_def upd_inode_def)
      moreover have "itable_wf (upd_inode ip (\<lambda>x. (?f x)\<lparr>i_ref := 0\<rparr>) s)" by (rule upd) (use ip in auto)
      ultimately show ?thesis using None Some ip w by (intro disjI2 exI[of _ ip] exI[of _ ?s']) (simp add: iget_def)
    next
      case n2: None
      then have "i_ref (itable s ! i) \<noteq> 0" if "i < length (itable s)" for i using that nth_mem unfolding find_idx_None by blast
      then have "\<forall>i < length (itable s). 0 < i_ref (itable s ! i) \<and> \<not> (i_dev (itable s ! i) = dev \<and> i_inum (itable s ! i) = inum)"
        using pos no by (metis antisym_conv1 order_le_less)
      then show ?thesis using None n2 by (simp add: iget_def)
    qed
  qed
qed

text \<open>C29: \<open>iget\<close> keeps one entry per inode: it returns the entry in use for the inode with one more reference,
  or sets up a free entry with one reference that is not yet valid; it panics exactly when the inode
  has no entry and none is free; no other entry changes, and \<open>iput\<close> undoes the reference.\<close>

theorem iget_correct:
  assumes "itable_wf s"
  shows "(\<forall>i < length (itable s). 0 < i_ref (itable s ! i) \<and> \<not> (i_dev (itable s ! i) = dev \<and> i_inum (itable s ! i) = inum)) \<and>
      iget dev inum s = Inl (Panic ''iget: no inodes'') \<or>
    (\<exists>ip s'. iget dev inum s = Inr (ip, s') \<and> ip < length (itable s) \<and> itable_wf s' \<and>
      i_dev (itable s' ! ip) = dev \<and> i_inum (itable s' ! ip) = inum \<and> i_ref (itable s' ! ip) = i_ref (itable s ! ip) + 1 \<and>
      (0 < i_ref (itable s ! ip) \<longrightarrow> itable s' ! ip = (itable s ! ip)\<lparr>i_ref := i_ref (itable s ! ip) + 1\<rparr>) \<and>
      (i_ref (itable s ! ip) = 0 \<longrightarrow> \<not> i_valid (itable s' ! ip)) \<and>
      (\<forall>j. j \<noteq> ip \<longrightarrow> itable s' ! j = itable s ! j) \<and> itable_wf (iput ip s') \<and>
      i_ref (itable (iput ip s') ! ip) = i_ref (itable s ! ip))"
  by (rule iget_ok[OF assms])

theorem iget_correct_witness:
  "\<exists>ip s'. iget 1 1 small_fs = Inr (ip, s') \<and> i_inum (itable s' ! ip) = 1 \<and> itable_wf s'"
proof -
  have t: "itable small_fs = replicate 50 inode0" by (simp add: small_fs_def kload0_def binit_def Let_def)
  have w: "itable_wf small_fs" by (simp add: itable_wf_def t inode0_def)
  have "\<not> (\<forall>i < length (itable small_fs). 0 < i_ref (itable small_fs ! i) \<and> \<not> (i_dev (itable small_fs ! i) = 1 \<and> i_inum (itable small_fs ! i) = 1))"
    by (auto simp: t inode0_def intro!: exI[of _ 0])
  then show ?thesis using iget_correct[OF w, of 1 1] by blast
qed

end
