(* ===== verification/MkfsImage.thy ===== *)
theory MkfsImage
  imports Mkfs FsInodes
begin

text \<open>
  What \<open>iappend\<close> does to the image: the blocks of every file are its own, and appending to a file
  extends its contents and changes no other file.
\<close>

section \<open>Identities of the byte order\<close>

lemma xint_id [simp]: "xint x = x"
proof -
  have "[ucast x, ucast (drop_bit 8 x), ucast (drop_bit 16 x), ucast (drop_bit 24 x)] = to_le 4 x"
    by (simp add: to_le_def upt_rec)
  then show ?thesis unfolding xint_def by (simp add: from_le_to_le)
qed

lemma xshort_id [simp]: "xshort x = x"
proof -
  have "[ucast x, ucast (drop_bit 8 x)] = to_le 2 x" by (simp add: to_le_def upt_rec)
  then show ?thesis unfolding xshort_def by (simp add: from_le_to_le)
qed

section \<open>Fields of an inode\<close>

lemma din_set:
  assumes "length d = 64"
  shows "length (set_din_size v d) = 64" "din_size (set_din_size v d) = v" "get16 0 (set_din_size v d) = get16 0 d"
    "i \<le> 12 \<Longrightarrow> din_addr (set_din_size v d) i = din_addr d i"
    "i \<le> 12 \<Longrightarrow> length (set_din_addr i v d) = 64" "i \<le> 12 \<Longrightarrow> din_size (set_din_addr i v d) = din_size d"
    "i \<le> 12 \<Longrightarrow> get16 0 (set_din_addr i v d) = get16 0 d"
    "i \<le> 12 \<Longrightarrow> j \<le> 12 \<Longrightarrow> din_addr (set_din_addr i v d) j = (if j = i then v else din_addr d j)"
  using assms
  by (simp_all add: set_din_size_def set_din_addr_def din_size_def din_addr_def get32_put get32_put_other get16_put_other)
    (cases "j < i"; auto simp: get32_put get32_put_other)

section \<open>The blocks of an inode\<close>

text \<open>Index 268 stands for the indirect block.\<close>

definition dslot :: "(u32 \<Rightarrow> u8 list) \<Rightarrow> u8 list \<Rightarrow> nat \<Rightarrow> u32" where
  "dslot I d k =
     (if k < 12 then din_addr d k else if k = 268 then din_addr d 12
      else if din_addr d 12 = 0 then 0 else get32 (4 * (k - 12)) (I (din_addr d 12)))"

definition dsize :: "u8 list \<Rightarrow> nat" where
  "dsize d = unat (din_size d)"

definition dbyte :: "(u32 \<Rightarrow> u8 list) \<Rightarrow> u8 list \<Rightarrow> nat \<Rightarrow> u8" where
  "dbyte I d p = I (dslot I d (p div 1024)) ! (p mod 1024)"

definition data :: "(u32 \<Rightarrow> u8 list) \<Rightarrow> u8 list \<Rightarrow> u8 list" where
  "data I d = map (dbyte I d) [0..<dsize d]"

text \<open>The number of blocks of contents of a file of \<open>z\<close> bytes, with the indirect block, and which there are.\<close>

definition nb :: "nat \<Rightarrow> nat" where
  "nb z = (z + 1023) div 1024"

definition need :: "nat \<Rightarrow> nat" where
  "need z = nb z + (if 12 < nb z then 1 else 0)"

definition present :: "nat \<Rightarrow> nat \<Rightarrow> bool" where
  "present z k \<longleftrightarrow> (if k = 268 then 12 < nb z else k < nb z)"

definition dinode_wf :: "(u32 \<Rightarrow> u8 list) \<Rightarrow> nat \<Rightarrow> u8 list \<Rightarrow> bool" where
  "dinode_wf I fb d \<longleftrightarrow> length d = 64 \<and> dsize d \<le> 274432 \<and>
     (\<forall>k\<le>268. dslot I d k \<noteq> 0 \<longleftrightarrow> present (dsize d) k) \<and>
     (\<forall>k\<le>268. dslot I d k \<noteq> 0 \<longrightarrow> 16 \<le> unat (dslot I d k) \<and> unat (dslot I d k) < fb) \<and>
     (\<forall>p. dsize d \<le> p \<longrightarrow> p < 1024 * nb (dsize d) \<longrightarrow> dbyte I d p = 0)"

lemma dinode_wfD:
  assumes "dinode_wf I fb d"
  shows "length d = 64" "dsize d \<le> 274432" "\<And>k. k \<le> 268 \<Longrightarrow> dslot I d k \<noteq> 0 \<longleftrightarrow> present (dsize d) k"
    "\<And>k. k \<le> 268 \<Longrightarrow> dslot I d k \<noteq> 0 \<Longrightarrow> 16 \<le> unat (dslot I d k) \<and> unat (dslot I d k) < fb"
    "\<And>p. dsize d \<le> p \<Longrightarrow> p < 1024 * nb (dsize d) \<Longrightarrow> dbyte I d p = 0"
  using assms unfolding dinode_wf_def by blast+

definition own_blocks :: "(u32 \<Rightarrow> u8 list) \<Rightarrow> u8 list \<Rightarrow> bool" where
  "own_blocks I d \<longleftrightarrow> (\<forall>k\<le>268. \<forall>l\<le>268. dslot I d k \<noteq> 0 \<longrightarrow> dslot I d k = dslot I d l \<longrightarrow> k = l)"

definition disjoint_blocks :: "(u32 \<Rightarrow> u8 list) \<Rightarrow> u8 list \<Rightarrow> u8 list \<Rightarrow> bool" where
  "disjoint_blocks I d e \<longleftrightarrow> (\<forall>k\<le>268. \<forall>l\<le>268. dslot I d k \<noteq> 0 \<longrightarrow> dslot I d k \<noteq> dslot I e l)"

definition free_wf :: "(u32 \<Rightarrow> u8 list) \<Rightarrow> nat \<Rightarrow> bool" where
  "free_wf I fb \<longleftrightarrow> 16 \<le> fb \<and> fb \<le> 1000 \<and> (\<forall>b. 16 \<le> unat b \<longrightarrow> unat b < 1000 \<longrightarrow> length (I b) = 1024) \<and>
     (\<forall>b. fb \<le> unat b \<longrightarrow> unat b < 1000 \<longrightarrow> I b = replicate 1024 0)"

definition img_wf :: "(nat \<Rightarrow> u8 list) \<Rightarrow> (u32 \<Rightarrow> u8 list) \<Rightarrow> nat \<Rightarrow> bool" where
  "img_wf D I fb \<longleftrightarrow> free_wf I fb \<and> (\<forall>n<208. dinode_wf I fb (D n) \<and> own_blocks I (D n)) \<and>
     (\<forall>n<208. \<forall>m<208. n \<noteq> m \<longrightarrow> disjoint_blocks I (D n) (D m))"

lemma dslot_cong: "din_addr d 12 \<noteq> 0 \<Longrightarrow> I' (din_addr d 12) = I (din_addr d 12) \<Longrightarrow> dslot I' d = dslot I d"
  "din_addr d 12 = 0 \<Longrightarrow> dslot I' d = dslot I d"
  by (auto simp: dslot_def fun_eq_iff)

lemma dslot_268: "dslot I d 268 = din_addr d 12"
  by (simp add: dslot_def)

lemma dslot_size: "length d = 64 \<Longrightarrow> k \<le> 268 \<Longrightarrow> dslot I (set_din_size v d) k = dslot I d k"
  by (simp add: dslot_def din_set)

lemma nb_div: "p < z \<Longrightarrow> p div 1024 < nb z"
  by (simp add: nb_def less_eq_div_iff_mult_less_eq Suc_le_eq[symmetric] div_less_iff_less_mult)

lemma nb_cover: "z \<le> 1024 * nb z"
proof -
  have "(z + 1023) mod 1024 < 1024" by simp
  then show ?thesis using div_mult_mod_eq[of "z + 1023" 1024] unfolding nb_def by linarith
qed

section \<open>The block of an index\<close>

text \<open>
  How the blocks of an inode change when the one at \<open>k\<close> is looked up: what was there stays, the one
  at \<open>k\<close> and the indirect block it needs are there, and the new ones come from the free blocks.
\<close>

definition extends :: "nat \<Rightarrow> (u32 \<Rightarrow> u8 list) \<Rightarrow> u8 list \<Rightarrow> nat \<Rightarrow> (u32 \<Rightarrow> u8 list) \<Rightarrow> u8 list \<Rightarrow> nat \<Rightarrow> bool" where
  "extends k I d fb I' d' fb' \<longleftrightarrow> length d' = 64 \<and> din_size d' = din_size d \<and> get16 0 d' = get16 0 d \<and> fb \<le> fb' \<and>
     (\<forall>j\<le>268. dslot I d j \<noteq> 0 \<longrightarrow> dslot I' d' j = dslot I d j) \<and>
     (\<forall>j\<le>268. dslot I' d' j \<noteq> 0 \<longleftrightarrow> dslot I d j \<noteq> 0 \<or> j = k \<or> (j = 268 \<and> 12 \<le> k)) \<and>
     (\<forall>j\<le>268. dslot I d j = 0 \<longrightarrow> dslot I' d' j \<noteq> 0 \<longrightarrow> fb \<le> unat (dslot I' d' j) \<and> unat (dslot I' d' j) < fb') \<and>
     (\<forall>i\<le>268. \<forall>j\<le>268. dslot I d i = 0 \<longrightarrow> dslot I' d' i \<noteq> 0 \<longrightarrow> dslot I' d' i = dslot I' d' j \<longrightarrow> i = j) \<and>
     (\<forall>b. 12 \<le> k \<and> b = dslot I' d' 268 \<or> I' b = I b) \<and> (\<forall>b. length (I b) = 1024 \<longrightarrow> length (I' b) = 1024) \<and>
     fb' = fb + (if dslot I d k = 0 then 1 else 0) + (if 12 \<le> k \<and> dslot I d 268 = 0 then 1 else 0)"


lemma extendsI:
  assumes "\<forall>j\<le>268. dslot I' d' j = (if j = k \<and> dslot I d k = 0 then y else if j = 268 \<and> 12 \<le> k \<and> dslot I d 268 = 0 then z else dslot I d j)"
    "k < 268" "dslot I d k = 0 \<longrightarrow> fb \<le> unat y \<and> unat y < fb'" "12 \<le> k \<and> dslot I d 268 = 0 \<longrightarrow> fb \<le> unat z \<and> unat z < fb'"
    "dslot I d k = 0 \<and> 12 \<le> k \<and> dslot I d 268 = 0 \<longrightarrow> y \<noteq> z" "0 < fb"
    "\<forall>j\<le>268. dslot I d j \<noteq> 0 \<longrightarrow> unat (dslot I d j) < fb"
    "length d' = 64" "din_size d' = din_size d" "get16 0 d' = get16 0 d"
    "\<forall>b. 12 \<le> k \<and> b = dslot I' d' 268 \<or> I' b = I b" "\<forall>b. length (I b) = 1024 \<longrightarrow> length (I' b) = 1024"
    "fb' = fb + (if dslot I d k = 0 then 1 else 0) + (if 12 \<le> k \<and> dslot I d 268 = 0 then 1 else 0)"
  shows "extends k I d fb I' d' fb'"
proof -
  let ?F = "dslot I d" and ?F' = "dslot I' d'"
  have f: "?F' j = (if j = k \<and> ?F k = 0 then y else if j = 268 \<and> 12 \<le> k \<and> ?F 268 = 0 then z else ?F j)" if "j \<le> 268" for j
    using assms(1) that by blast
  have yz: "?F k = 0 \<Longrightarrow> y \<noteq> 0" "12 \<le> k \<Longrightarrow> ?F 268 = 0 \<Longrightarrow> z \<noteq> 0" using assms(3,4,6) by fastforce+
  have a: "?F j \<noteq> 0 \<longrightarrow> ?F' j = ?F j" if "j \<le> 268" for j unfolding f[OF that] by (simp split: if_split)
  have b: "?F' j \<noteq> 0 \<longleftrightarrow> ?F j \<noteq> 0 \<or> j = k \<or> (j = 268 \<and> 12 \<le> k)" if "j \<le> 268" for j
    unfolding f[OF that] using yz by (simp split: if_split) blast
  have new: "(j = k \<and> ?F k = 0 \<and> ?F' j = y) \<or> (j = 268 \<and> 12 \<le> k \<and> ?F 268 = 0 \<and> ?F' j = z)"
    if "j \<le> 268" "?F j = 0" "?F' j \<noteq> 0" for j
    using that(2,3) unfolding f[OF that(1)] by (simp split: if_split_asm)
  have c: "fb \<le> unat (?F' j) \<and> unat (?F' j) < fb'" if "j \<le> 268" "?F j = 0" "?F' j \<noteq> 0" for j
    using new[OF that] assms(3,4) by metis
  have e: "i = j" if "i \<le> 268" "j \<le> 268" "?F i = 0" "?F' i \<noteq> 0" "?F' i = ?F' j" for i j
  proof (cases "?F j = 0")
    case True
    have "?F' j \<noteq> 0" using that(4,5) by simp
    from new[OF that(2) True this] new[OF that(1,3,4)] show ?thesis using assms(5) that(5) by metis
  next
    case False
    then have "unat (?F' j) < fb" using assms(7) a that(2) by simp
    then show ?thesis using c[OF that(1,3,4)] that(5) by simp
  qed
  have le: "fb \<le> fb'" using assms(13) by simp
  have "\<forall>j\<le>268. ?F j \<noteq> 0 \<longrightarrow> ?F' j = ?F j" using a by blast
  moreover have "\<forall>j\<le>268. ?F' j \<noteq> 0 \<longleftrightarrow> ?F j \<noteq> 0 \<or> j = k \<or> (j = 268 \<and> 12 \<le> k)" using b by blast
  moreover have "\<forall>j\<le>268. ?F j = 0 \<longrightarrow> ?F' j \<noteq> 0 \<longrightarrow> fb \<le> unat (?F' j) \<and> unat (?F' j) < fb'" using c by blast
  moreover have "\<forall>i\<le>268. \<forall>j\<le>268. ?F i = 0 \<longrightarrow> ?F' i \<noteq> 0 \<longrightarrow> ?F' i = ?F' j \<longrightarrow> i = j" using e by blast
  ultimately show ?thesis unfolding extends_def using le assms(8-13) by (intro conjI) assumption+
qed

lemma dslot_set_addr:
  assumes "length d = 64" "i \<le> 12" "j \<le> 268" "i < 12 \<or> I v = replicate 1024 0 \<and> din_addr d 12 = 0"
  shows "dslot I (set_din_addr i v d) j = (if j = i \<and> i < 12 \<or> j = 268 \<and> i = 12 then v else dslot I d j)"
proof (cases "i < 12")
  case True
  then show ?thesis using assms(1,3) by (auto simp: dslot_def din_set)
next
  case False
  then have i: "i = 12" "I v = replicate 1024 0" "din_addr d 12 = 0" using assms(2,4) by simp_all
  have z: "get32 (4 * (j - 12)) (replicate 1024 0) = 0" if "j < 268"
  proof -
    have "take 4 (drop (4 * (j - 12)) (replicate 1024 (0 :: u8))) = to_le 4 (0 :: u32)"
      using that by (intro nth_equalityI) (auto simp: to_le_def)
    then show ?thesis by (simp add: get32_def from_le_to_le)
  qed
  show ?thesis using assms(1,3) z i by (auto simp: dslot_def din_set)
qed

lemma dslot_put_entry:
  assumes "12 \<le> k" "k < 268" "j \<le> 268" "ib = din_addr d 12" "ib \<noteq> 0" "length (I ib) = 1024"
  shows "dslot (I(ib := put_at (4 * (k - 12)) (to_le 4 v) (I ib))) d j = (if j = k then v else dslot I d j)"
proof (cases "j < 12 \<or> j = 268 \<or> j = k")
  case True
  then show ?thesis using assms by (auto simp: dslot_def get32_put)
next
  case False
  then have "4 * (j - 12) + 4 \<le> 4 * (k - 12) \<or> 4 * (k - 12) + 4 \<le> 4 * (j - 12)" using assms(1) by (cases "j < k") auto
  then have "get32 (4 * (j - 12)) (put_at (4 * (k - 12)) (to_le 4 v) (I ib)) = get32 (4 * (j - 12)) (I ib)"
    using assms(1,2,6) by (intro get32_put_other) auto
  then show ?thesis using False assms(4,5) by (simp add: dslot_def)
qed


lemma fblock_ok:
  assumes d: "length d = 64" "\<forall>j\<le>268. dslot (img s) d j \<noteq> 0 \<longrightarrow> 16 \<le> unat (dslot (img s) d j) \<and> unat (dslot (img s) d j) < unat (freeblock s)"
    and f: "free_wf (img s) (unat (freeblock s))" and k: "k < 268"
    and room: "unat (freeblock s) + (if dslot (img s) d k = 0 then 1 else 0) + (if 12 \<le> k \<and> dslot (img s) d 268 = 0 then 1 else 0) \<le> 1000"
  shows "\<exists>d' s'. fblock (of_nat k) d s = (dslot (img s') d' k, d', s') \<and> m_sb s' = m_sb s \<and> freeinode s' = freeinode s \<and>
    extends k (img s) d (unat (freeblock s)) (img s') d' (unat (freeblock s')) \<and> unat (freeblock s') \<le> 1000"
proof -
  let ?I = "img s" and ?b = "freeblock s"
  have u: "unat (of_nat k :: u32) = k" using k by (simp add: unat_of_nat_u32)
  have lt: "(of_nat k :: u32) < 12 \<longleftrightarrow> k < 12" by (simp add: word_less_nat_alt u)
  have sub: "unat (of_nat k - 12 :: u32) = k - 12" if "12 \<le> k"
    using that u by (subst unat_sub) (simp_all add: word_le_nat_alt)
  have l: "length d = 64" "\<forall>j\<le>268. dslot ?I d j \<noteq> 0 \<longrightarrow> unat (dslot ?I d j) < unat ?b"
    "\<forall>j\<le>268. dslot ?I d j \<noteq> 0 \<longrightarrow> 16 \<le> unat (dslot ?I d j)" using d by blast+
  have fb: "16 \<le> unat ?b" "\<And>b. 16 \<le> unat b \<Longrightarrow> unat b < 1000 \<Longrightarrow> length (?I b) = 1024"
    "\<And>b. unat ?b \<le> unat b \<Longrightarrow> unat b < 1000 \<Longrightarrow> ?I b = replicate 1024 0" "unat ?b \<le> 1000" using f by (simp_all add: free_wf_def)
  have suc: "unat (?b + 1) = unat ?b + 1" using fb(4) by (simp add: unat_plus_if')
  have suc2: "unat (?b + 1 + 1) = unat ?b + 2" using fb(4) suc by (simp add: unat_plus_if' del: add.assoc)
  have b0: "?b \<noteq> 0" using fb(1) by auto
  note d268 = dslot_268[of ?I d]
  show ?thesis
  proof (cases "k < 12")
    case True
    then have dk: "dslot ?I d k = din_addr d k" by (simp add: dslot_def)
    show ?thesis
    proof (cases "din_addr d k = 0")
      case 0: True
      let ?d = "set_din_addr k ?b d" and ?s = "s\<lparr>freeblock := ?b + 1\<rparr>"
      have "extends k ?I d (unat ?b) (img ?s) ?d (unat (freeblock ?s))"
        using True 0 l suc fb(1) dk
        by (intro extendsI[where y = ?b and z = 0]) (auto simp: dslot_set_addr din_set)
      moreover have "fblock (of_nat k) d s = (dslot (img ?s) ?d k, ?d, ?s)"
        using True 0 lt u l(1) by (simp add: fblock_def next_free_def dslot_def din_set)
      ultimately show ?thesis using room True 0 dk suc by (intro exI[of _ ?d] exI[of _ ?s]) simp
    next
      case False
      have "extends k ?I d (unat ?b) ?I d (unat ?b)"
        using True False l fb(1) dk by (intro extendsI[where y = 0 and z = 0]) auto
      moreover have "fblock (of_nat k) d s = (dslot ?I d k, d, s)" using True False lt u dk by (simp add: fblock_def)
      ultimately show ?thesis using fb(4) by blast
    qed
  next
    case False
    then have k12: "12 \<le> k" by simp
    obtain d1 s1 where one: "(if xint (din_addr d 12) = 0 then (case next_free s of (b, s) \<Rightarrow> (set_din_addr 12 (xint b) d, s)) else (d, s)) = (d1, s1)"
      by (cases "if xint (din_addr d 12) = 0 then (case next_free s of (b, s) \<Rightarrow> (set_din_addr 12 (xint b) d, s)) else (d, s)") 
    let ?ib = "din_addr d1 12" and ?new = "din_addr d 12 = 0" and ?j = "4 * (k - 12)"
    have s1: "d1 = (if ?new then set_din_addr 12 ?b d else d)" "s1 = (if ?new then s\<lparr>freeblock := ?b + 1\<rparr> else s)"
      using one by (simp_all add: next_free_def split: if_splits)
    have r1: "unat ?b < 1000" if ?new using room that k12 d268 by simp
    have ib: "?ib = (if ?new then ?b else din_addr d 12)" "?ib \<noteq> 0" using s1 l(1) b0 by (simp_all add: din_set)
    have d1: "length d1 = 64" "din_size d1 = din_size d" "get16 0 d1 = get16 0 d" using s1 l(1) by (simp_all add: din_set)
    have Iib: "?new \<Longrightarrow> ?I ?ib = replicate 1024 0" using fb(3)[of ?ib] ib(1) r1 by simp
    have len: "length (?I ?ib) = 1024"
    proof (cases ?new)
      case True
      then show ?thesis using Iib by simp
    next
      case False
      then have "dslot ?I d 268 \<noteq> 0" using d268 by simp
      then have "16 \<le> unat (dslot ?I d 268)" "unat (dslot ?I d 268) < unat ?b" using l(2,3) by simp_all
      then show ?thesis using fb(2,4) False ib(1) d268 by simp
    qed
    have sl: "dslot ?I d1 j = (if j = 268 then ?ib else dslot ?I d j)" if "j \<le> 268" for j
      using dslot_set_addr[OF l(1), of 12 j ?I ?b] that s1(1) ib(1) Iib d268 by (cases ?new) simp_all
    have ent: "get32 ?j (?I ?ib) = dslot ?I d k" using sl[of k] k k12 ib(2) by (simp add: dslot_def)
    have fb1: "unat (freeblock s1) = unat ?b + (if ?new then 1 else 0)" "img s1 = ?I" using s1(2) suc by simp_all
    have fbl: "fblock (of_nat k) d s = (case (if get32 ?j (?I ?ib) = 0
         then (case next_free s1 of (b, s) \<Rightarrow> let ind = put_at ?j (to_le 4 (xint b)) (?I ?ib) in (ind, wsect ?ib ind s))
         else (?I ?ib, s1)) of (ind, s) \<Rightarrow> (get32 ?j ind, d1, s))"
      unfolding fblock_def one using lt k12 sub fb1(2) by (simp add: Let_def rsect_def)
    show ?thesis
    proof (cases "dslot ?I d k = 0")
      case e0: True
      let ?v = "freeblock s1" let ?ind = "put_at ?j (to_le 4 ?v) (?I ?ib)"
      let ?s2 = "wsect ?ib ?ind (s1\<lparr>freeblock := ?v + 1\<rparr>)"
      have I2: "img ?s2 = ?I(?ib := ?ind)" using fb1(2) by (simp add: wsect_def)
      have f2: "unat (freeblock ?s2) = unat ?b + (if ?new then 1 else 0) + 1"
        using s1(2) suc suc2 by (simp add: wsect_def)
      have v: "unat ?v = unat ?b + (if ?new then 1 else 0)" by (rule fb1(1))
      have sl2: "dslot (img ?s2) d1 j = (if j = k then ?v else dslot ?I d1 j)" if "j \<le> 268" for j
        unfolding I2 by (rule dslot_put_entry[of k j ?ib d1 ?I, OF k12 k that refl ib(2) len])
      have jl: "?j + length (to_le 4 ?v) \<le> length (?I ?ib)" using k len by simp
      have "extends k ?I d (unat ?b) (img ?s2) d1 (unat (freeblock ?s2))"
      proof (rule extendsI[where y = ?v and z = ?ib])
        show "\<forall>j\<le>268. dslot (img ?s2) d1 j = (if j = k \<and> dslot ?I d k = 0 then ?v else if j = 268 \<and> 12 \<le> k \<and> dslot ?I d 268 = 0 then ?ib else dslot ?I d j)"
          using sl2 sl e0 k12 ib(1) d268 by auto
        show "\<forall>b. 12 \<le> k \<and> b = dslot (img ?s2) d1 268 \<or> img ?s2 b = ?I b" using k12 I2 sl2[of 268] k by (auto simp: dslot_268)
        show "\<forall>b. length (?I b) = 1024 \<longrightarrow> length (img ?s2 b) = 1024" using jl len by (auto simp: I2)
        show "dslot ?I d k = 0 \<and> 12 \<le> k \<and> dslot ?I d 268 = 0 \<longrightarrow> ?v \<noteq> ?ib" using ib(1) v d268 by (auto dest: arg_cong[of _ _ unat])
      qed (use k l fb(1) v f2 d268 ib(1) d1 e0 k12 in auto)
      moreover have "fblock (of_nat k) d s = (dslot (img ?s2) d1 k, d1, ?s2)"
        unfolding fbl using e0 ent k sl2[of k] jl by (simp add: next_free_def Let_def get32_put)
      moreover have "m_sb ?s2 = m_sb s" "freeinode ?s2 = freeinode s" using s1(2) by (simp_all add: wsect_def)
      ultimately show ?thesis using f2 room e0 k12 d268 by (intro exI[of _ d1] exI[of _ ?s2]) (simp split: if_splits)
    next
      case e: False
      have "extends k ?I d (unat ?b) (img s1) d1 (unat (freeblock s1))"
      proof (rule extendsI[where y = 0 and z = ?ib])
        show "\<forall>j\<le>268. dslot (img s1) d1 j = (if j = k \<and> dslot ?I d k = 0 then 0 else if j = 268 \<and> 12 \<le> k \<and> dslot ?I d 268 = 0 then ?ib else dslot ?I d j)"
          using sl e k12 ib(1) d268 fb1(2) by auto
      qed (use k l fb(1) fb1 d268 ib(1) d1 e k12 in auto)
      moreover have "fblock (of_nat k) d s = (dslot (img s1) d1 k, d1, s1)"
        unfolding fbl using e ent sl[of k] k fb1(2) by simp
      moreover have "m_sb s1 = m_sb s" "freeinode s1 = freeinode s" using s1(2) by simp_all
      ultimately show ?thesis using fb1 room e k12 d268 by (intro exI[of _ d1] exI[of _ s1]) (simp split: if_splits)
    qed
  qed
qed


section \<open>One chunk\<close>

text \<open>The situation after the block for a chunk \<open>c\<close> at the end of file \<open>n\<close> has been found.\<close>

definition appending ::
  "(nat \<Rightarrow> u8 list) \<Rightarrow> (u32 \<Rightarrow> u8 list) \<Rightarrow> nat \<Rightarrow> nat \<Rightarrow> u8 list \<Rightarrow> (u32 \<Rightarrow> u8 list) \<Rightarrow> u8 list \<Rightarrow> nat \<Rightarrow> bool" where
  "appending D I fb n c I' d' fb' \<longleftrightarrow> img_wf D I fb \<and> n < 208 \<and> c \<noteq> [] \<and> dsize (D n) mod 1024 + length c \<le> 1024 \<and>
     dsize (D n) + length c \<le> 274432 \<and> extends (dsize (D n) div 1024) I (D n) fb I' d' fb' \<and> fb' \<le> 1000"

definition chunk_block :: "nat \<Rightarrow> u8 list \<Rightarrow> u32 \<Rightarrow> (u32 \<Rightarrow> u8 list) \<Rightarrow> u32 \<Rightarrow> u8 list" where
  "chunk_block off c x I = I(x := put_at (off mod 1024) c (I x))"

lemma nb_chunk:
  assumes "0 < m" "off mod 1024 + m \<le> 1024"
  shows "nb (off + m) = Suc (off div 1024)" "nb off = (if off mod 1024 = 0 then off div 1024 else Suc (off div 1024))"
proof -
  have o: "off = 1024 * (off div 1024) + off mod 1024" by simp
  have "off + m + 1023 = 1024 * Suc (off div 1024) + (off mod 1024 + m - 1)" using o assms(1) by simp
  then show "nb (off + m) = Suc (off div 1024)" using assms(2) by (simp add: nb_def)
  have "off + 1023 = 1024 * (off div 1024) + (off mod 1024 + 1023)" using o by simp
  then have "nb off = off div 1024 + (off mod 1024 + 1023) div 1024" unfolding nb_def by (simp only: div_mult_self4[of 1024] numeral_neq_zero not_False_eq_True)
  moreover have "(off mod 1024 + 1023) div 1024 = (if off mod 1024 = 0 then 0 else 1)"
  proof (cases "off mod 1024 = 0")
    case False
    then have "off mod 1024 + 1023 = 1024 + (off mod 1024 - 1)" by simp
    moreover have "off mod 1024 - 1 < 1024" using mod_less_divisor[of 1024 off] by linarith
    ultimately show ?thesis using False by simp
  qed simp
  ultimately show "nb off = (if off mod 1024 = 0 then off div 1024 else Suc (off div 1024))" by simp
qed

lemma nb_le: "z \<le> 274432 \<Longrightarrow> nb z \<le> 268"
  by (simp add: nb_def div_le_mono)

lemma extendsD:
  assumes "extends k I d fb I' d' fb'"
  shows "length d' = 64" "fb \<le> fb'" "\<forall>j\<le>268. dslot I d j \<noteq> 0 \<longrightarrow> dslot I' d' j = dslot I d j"
    "\<forall>j\<le>268. dslot I' d' j \<noteq> 0 \<longleftrightarrow> dslot I d j \<noteq> 0 \<or> j = k \<or> (j = 268 \<and> 12 \<le> k)"
    "\<forall>j\<le>268. dslot I d j = 0 \<longrightarrow> dslot I' d' j \<noteq> 0 \<longrightarrow> fb \<le> unat (dslot I' d' j) \<and> unat (dslot I' d' j) < fb'"
    "\<forall>i\<le>268. \<forall>j\<le>268. dslot I d i = 0 \<longrightarrow> dslot I' d' i \<noteq> 0 \<longrightarrow> dslot I' d' i = dslot I' d' j \<longrightarrow> i = j"
    "\<forall>b. 12 \<le> k \<and> b = dslot I' d' 268 \<or> I' b = I b" "\<forall>b. length (I b) = 1024 \<longrightarrow> length (I' b) = 1024"
    "fb' = fb + (if dslot I d k = 0 then 1 else 0) + (if 12 \<le> k \<and> dslot I d 268 = 0 then 1 else 0)"
    "din_size d' = din_size d" "get16 0 d' = get16 0 d"
  by (insert assms[unfolded extends_def]; elim conjE; assumption)+

lemma appendingD:
  assumes "appending D I fb n c I' d' fb'"
  shows "free_wf I fb" "dinode_wf I fb (D n)" "own_blocks I (D n)" "dsize (D n) div 1024 < 268" "fb \<le> fb'" "length d' = 64"
    "\<And>j. j \<le> 268 \<Longrightarrow> dslot I (D n) j \<noteq> 0 \<Longrightarrow> dslot I' d' j = dslot I (D n) j"
    "\<And>j. j \<le> 268 \<Longrightarrow> dslot I' d' j \<noteq> 0 \<longleftrightarrow> dslot I (D n) j \<noteq> 0 \<or> j = dsize (D n) div 1024 \<or> (j = 268 \<and> 12 \<le> dsize (D n) div 1024)"
    "\<And>j. j \<le> 268 \<Longrightarrow> dslot I (D n) j = 0 \<Longrightarrow> dslot I' d' j \<noteq> 0 \<Longrightarrow> fb \<le> unat (dslot I' d' j) \<and> unat (dslot I' d' j) < fb'"
    "\<And>j. j \<le> 268 \<Longrightarrow> dslot I (D n) j \<noteq> 0 \<Longrightarrow> 16 \<le> unat (dslot I (D n) j) \<and> unat (dslot I (D n) j) < fb"
    "\<And>b. b \<noteq> dslot I' d' 268 \<or> b = 0 \<Longrightarrow> I' b = I b"
proof -
  have a: "img_wf D I fb" "n < 208" "c \<noteq> []" "dsize (D n) + length c \<le> 274432"
    "extends (dsize (D n) div 1024) I (D n) fb I' d' fb'" using assms by (simp_all add: appending_def)
  show w: "free_wf I fb" "dinode_wf I fb (D n)" "own_blocks I (D n)" using a(1,2) by (simp_all add: img_wf_def)
  have "0 < length c" using a(3) by simp
  then have "dsize (D n) < 268 * 1024" using a(4) by linarith
  then show "dsize (D n) div 1024 < 268" by (simp add: div_less_iff_less_mult)
  note e = extendsD[OF a(5)]
  show "fb \<le> fb'" "length d' = 64" by (rule e)+
  show "\<And>j. j \<le> 268 \<Longrightarrow> dslot I (D n) j \<noteq> 0 \<Longrightarrow> dslot I' d' j = dslot I (D n) j" using e(3) by blast
  show f: "\<And>j. j \<le> 268 \<Longrightarrow> dslot I' d' j \<noteq> 0 \<longleftrightarrow> dslot I (D n) j \<noteq> 0 \<or> j = dsize (D n) div 1024 \<or> (j = 268 \<and> 12 \<le> dsize (D n) div 1024)"
    using e(4) by blast
  show "\<And>j. j \<le> 268 \<Longrightarrow> dslot I (D n) j = 0 \<Longrightarrow> dslot I' d' j \<noteq> 0 \<Longrightarrow> fb \<le> unat (dslot I' d' j) \<and> unat (dslot I' d' j) < fb'"
    using e(5) by blast
  show "\<And>j. j \<le> 268 \<Longrightarrow> dslot I (D n) j \<noteq> 0 \<Longrightarrow> 16 \<le> unat (dslot I (D n) j) \<and> unat (dslot I (D n) j) < fb"
    using w(2) by (simp add: dinode_wf_def)
  fix b assume b: "b \<noteq> dslot I' d' 268 \<or> b = 0"
  have "12 \<le> dsize (D n) div 1024 \<Longrightarrow> dslot I' d' 268 \<noteq> 0" using f[of 268] by simp
  moreover have "12 \<le> dsize (D n) div 1024 \<and> b = dslot I' d' 268 \<or> I' b = I b" using e(7) by blast
  ultimately show "I' b = I b" using b by auto
qed

lemma appending_inj:
  assumes "appending D I fb n c I' d' fb'"
  shows "\<And>i j. i \<le> 268 \<Longrightarrow> j \<le> 268 \<Longrightarrow> dslot I' d' i \<noteq> 0 \<Longrightarrow> dslot I' d' i = dslot I' d' j \<Longrightarrow> i = j"
proof -
  note a = appendingD[OF assms]
  have new: "\<And>i j. i \<le> 268 \<Longrightarrow> j \<le> 268 \<Longrightarrow> dslot I (D n) i = 0 \<Longrightarrow> dslot I' d' i \<noteq> 0 \<Longrightarrow> dslot I' d' i = dslot I' d' j \<Longrightarrow> i = j"
    using extendsD(6) assms unfolding appending_def by blast
  fix i j assume h: "i \<le> 268" "j \<le> 268" "dslot I' d' i \<noteq> 0" "dslot I' d' i = dslot I' d' j"
  show "i = j"
  proof (cases "dslot I (D n) i = 0 \<or> dslot I (D n) j = 0")
    case True
    have "dslot I' d' j \<noteq> 0" using h(3,4) by simp
    then show ?thesis using True new[OF h(1,2) _ h(3,4)] new[OF h(2,1) _ _ h(4)[symmetric]] by blast
  next
    case False
    then have "dslot I (D n) i = dslot I (D n) j" using a(7)[OF h(1)] a(7)[OF h(2)] h(4) by simp
    then show ?thesis using a(3) h(1,2) False unfolding own_blocks_def by blast
  qed
qed

text \<open>The blocks of other files are none of the blocks that change.\<close>

lemma appending_other:
  assumes "appending D I fb n c I' d' fb'" "m < 208" "m \<noteq> n" "l \<le> 268" "dslot I (D m) l \<noteq> 0" "j \<le> 268"
  shows "dslot I (D m) l \<noteq> dslot I' d' j"
proof
  assume e: "dslot I (D m) l = dslot I' d' j"
  note a = appendingD[OF assms(1)]
  have i: "img_wf D I fb" "n < 208" using assms(1) by (simp_all add: appending_def)
  show False
  proof (cases "dslot I (D n) j = 0")
    case True
    have "dinode_wf I fb (D m)" using i(1) assms(2) by (simp add: img_wf_def)
    then have "unat (dslot I (D m) l) < fb" using assms(4,5) by (simp add: dinode_wf_def)
    then show False using a(9)[OF assms(6) True] e assms(5) by simp
  next
    case False
    have "disjoint_blocks I (D m) (D n)" using i assms(2,3) by (simp add: img_wf_def)
    then have "dslot I (D m) l \<noteq> dslot I (D n) j" using assms(4-6) unfolding disjoint_blocks_def by blast
    then show False using a(7)[OF assms(6) False] e by simp
  qed
qed


lemma appending_block:
  assumes "appending D I fb n c I' d' fb'" and x: "x = dslot I' d' (dsize (D n) div 1024)"
  shows "x \<noteq> 0" "x \<noteq> dslot I' d' 268" "16 \<le> unat x" "unat x < fb'" "fb' \<le> 1000" "length (I' x) = 1024" "I' x = I x"
    "dslot I (D n) (dsize (D n) div 1024) = 0 \<Longrightarrow> I' x = replicate 1024 0"
proof -
  note a = appendingD[OF assms(1)]
  let ?k = "dsize (D n) div 1024"
  have k: "?k \<le> 268" "?k \<noteq> 268" using a(4) by simp_all
  show x0: "x \<noteq> 0" using a(8)[OF k(1)] x by simp
  show x2: "x \<noteq> dslot I' d' 268" using appending_inj[OF assms(1) k(1), of 268] x x0 k(2) by auto
  show ix: "I' x = I x" using a(11) x2 by blast
  have fw: "16 \<le> fb" "\<And>b. 16 \<le> unat b \<Longrightarrow> unat b < 1000 \<Longrightarrow> length (I b) = 1024"
    "\<And>b. fb \<le> unat b \<Longrightarrow> unat b < 1000 \<Longrightarrow> I b = replicate 1024 0" using a(1) by (simp_all add: free_wf_def)
  show f: "fb' \<le> 1000" using assms(1) by (simp add: appending_def)
  have r: "16 \<le> unat x \<and> unat x < fb'"
  proof (cases "dslot I (D n) ?k = 0")
    case True
    then show ?thesis using a(9)[OF k(1) True] x x0 fw(1) by simp
  next
    case False
    then show ?thesis using a(10)[OF k(1) False] a(7)[OF k(1) False] a(5) x by simp
  qed
  then show "16 \<le> unat x" "unat x < fb'" by simp_all
  show "length (I' x) = 1024" using fw(2)[of x] r f ix by simp
  assume "dslot I (D n) ?k = 0"
  then have "fb \<le> unat x" using a(9)[OF k(1)] x x0 by simp
  then show "I' x = replicate 1024 0" using fw(3)[of x] r f ix by simp
qed

lemma chunk_slots:
  assumes "appending D I fb n c I' d' fb'" and x: "x = dslot I' d' (dsize (D n) div 1024)"
  shows "j \<le> 268 \<Longrightarrow> dslot (chunk_block (dsize (D n)) c x I') (set_din_size v d') j = dslot I' d' j"
    "m < 208 \<Longrightarrow> m \<noteq> n \<Longrightarrow> l \<le> 268 \<Longrightarrow> dslot I (D m) l \<noteq> 0 \<Longrightarrow>
      chunk_block (dsize (D n)) c x I' (dslot I (D m) l) = I (dslot I (D m) l)"
    "m < 208 \<Longrightarrow> m \<noteq> n \<Longrightarrow> dslot (chunk_block (dsize (D n)) c x I') (D m) = dslot I (D m)"
proof -
  note a = appendingD[OF assms(1)] and b = appending_block[OF assms]
  have k: "dsize (D n) div 1024 \<le> 268" using a(4) by simp
  have "dslot (chunk_block (dsize (D n)) c x I') d' = dslot I' d'"
  proof (cases "din_addr d' 12 = 0")
    case False
    then show ?thesis by (rule dslot_cong(1)) (use b(2) dslot_268[of I' d'] in \<open>simp add: chunk_block_def\<close>)
  qed (rule dslot_cong(2))
  then show "j \<le> 268 \<Longrightarrow> dslot (chunk_block (dsize (D n)) c x I') (set_din_size v d') j = dslot I' d' j"
    using dslot_size[OF a(6)] by simp
  have o: "chunk_block (dsize (D n)) c x I' (dslot I (D m) l) = I (dslot I (D m) l)"
    if "m < 208" "m \<noteq> n" "l \<le> 268" "dslot I (D m) l \<noteq> 0" for m l
  proof -
    have "dslot I (D m) l \<noteq> x" using appending_other[OF assms(1) that k] x by simp
    moreover have "dslot I (D m) l \<noteq> dslot I' d' 268" using appending_other[OF assms(1) that, of 268] by simp
    ultimately show ?thesis using a(11) by (simp add: chunk_block_def)
  qed
  then show "m < 208 \<Longrightarrow> m \<noteq> n \<Longrightarrow> l \<le> 268 \<Longrightarrow> dslot I (D m) l \<noteq> 0 \<Longrightarrow>
      chunk_block (dsize (D n)) c x I' (dslot I (D m) l) = I (dslot I (D m) l)" .
  show "dslot (chunk_block (dsize (D n)) c x I') (D m) = dslot I (D m)" if "m < 208" "m \<noteq> n"
  proof (cases "din_addr (D m) 12 = 0")
    case False
    then show ?thesis by (rule dslot_cong(1)) (use o[OF that, of 268] dslot_268[of I "D m"] False in simp)
  qed (rule dslot_cong(2))
qed

text \<open>The bytes of the file after the chunk.\<close>

lemma image_chunk_bytes:
  assumes "appending D I fb n c I' d' fb'" and x: "x = dslot I' d' (dsize (D n) div 1024)"
    and I2: "I2 = chunk_block (dsize (D n)) c x I'" and d2: "d2 = set_din_size (of_nat (dsize (D n) + length c)) d'"
    and p: "p < 1024 * Suc (dsize (D n) div 1024)"
  shows "dbyte I2 d2 p = (if p < dsize (D n) then dbyte I (D n) p else if p < dsize (D n) + length c then c ! (p - dsize (D n)) else 0)"
proof -
  note a = appendingD[OF assms(1)] and b = appending_block[OF assms(1,2)]
  let ?off = "dsize (D n)" let ?k = "?off div 1024"
  have c: "c \<noteq> []" "?off mod 1024 + length c \<le> 1024" using assms(1) by (simp_all add: appending_def)
  have q: "p div 1024 \<le> 268" "p div 1024 \<le> ?k" using p a(4) by (simp_all add: div_less_iff_less_mult less_Suc_eq_le[symmetric])
  have sl: "dslot I2 d2 (p div 1024) = dslot I' d' (p div 1024)" using chunk_slots(1)[OF assms(1,2) q(1)] by (simp add: I2 d2)
  have pk: "p = 1024 * (p div 1024) + p mod 1024" "?off = 1024 * ?k + ?off mod 1024" by simp_all
  show ?thesis
  proof (cases "p div 1024 = ?k")
    case True
    have pm: "p < ?off \<longleftrightarrow> p mod 1024 < ?off mod 1024" "p < ?off + length c \<longleftrightarrow> p mod 1024 < ?off mod 1024 + length c"
      "p - ?off = p mod 1024 - ?off mod 1024"
    proof -
      have "p = A + r \<Longrightarrow> off = A + t \<Longrightarrow> (p < off \<longleftrightarrow> r < t) \<and> (p < off + length c \<longleftrightarrow> r < t + length c) \<and> p - off = r - t" for A r t off
        by auto
      from this[OF pk(1)[unfolded True] pk(2)] show "p < ?off \<longleftrightarrow> p mod 1024 < ?off mod 1024"
        "p < ?off + length c \<longleftrightarrow> p mod 1024 < ?off mod 1024 + length c" "p - ?off = p mod 1024 - ?off mod 1024" by simp_all
    qed
    have l: "?off mod 1024 + length c \<le> length (I' x)" "p mod 1024 < length (I' x)" using b(6) c(2) by simp_all
    have sx: "dslot I2 d2 ?k = x" using sl True x by simp
    have I2x: "I2 x = put_at (?off mod 1024) c (I' x)" by (simp add: I2 chunk_block_def)
    have v: "dbyte I2 d2 p = (if ?off mod 1024 \<le> p mod 1024 \<and> p mod 1024 < ?off mod 1024 + length c
        then c ! (p mod 1024 - ?off mod 1024) else I' x ! (p mod 1024))"
      using nth_put_at[OF l] sx I2x by (simp add: dbyte_def True)
    show ?thesis
    proof (cases "dslot I (D n) ?k = 0")
      case z: True
      then have "\<not> present ?off ?k" using dinode_wfD(3)[OF a(2), of ?k] a(4) by simp
      then have "?off mod 1024 = 0" using nb_chunk(2)[of "length c" ?off] c a(4) by (simp add: present_def split: if_splits)
      then show ?thesis using v pm b(8)[OF z] by auto
    next
      case False
      then have xs: "x = dslot I (D n) ?k" "present ?off ?k" using a(7)[of ?k] dinode_wfD(3)[OF a(2), of ?k] a(4) x by simp_all
      then have ib: "dbyte I (D n) p = I' x ! (p mod 1024)" using True b(7) by (simp add: dbyte_def)
      have "?k < nb ?off" using xs(2) a(4) by (simp add: present_def)
      then have "p < 1024 * nb ?off" using p by (meson Suc_leI less_le_trans mult_le_mono2)
      then have "?off \<le> p \<Longrightarrow> dbyte I (D n) p = 0" using dinode_wfD(5)[OF a(2)] by simp
      then show ?thesis using v pm ib by (cases "p < ?off") auto
    qed
  next
    case False
    then have lt: "p div 1024 < ?k" using q(2) by simp
    then have po: "p < ?off" using div_le_mono[of ?off p 1024] by (meson leD not_le)
    have ne: "dslot I (D n) (p div 1024) \<noteq> 0"
      using dinode_wfD(3)[OF a(2) q(1)] nb_div[OF po] lt a(4) by (simp add: present_def)
    have y: "dslot I' d' (p div 1024) = dslot I (D n) (p div 1024)" by (rule a(7)[OF q(1) ne])
    have "dslot I' d' (p div 1024) \<noteq> x" "dslot I' d' (p div 1024) \<noteq> dslot I' d' 268"
      using appending_inj[OF assms(1) q(1), of ?k] appending_inj[OF assms(1) q(1), of 268] x y ne False lt a(4) by auto
    then have "I2 (dslot I' d' (p div 1024)) = I (dslot I (D n) (p div 1024))"
      using a(11) y by (simp add: I2 chunk_block_def)
    then show ?thesis using po by (simp add: dbyte_def sl)
  qed
qed


lemma need_chunk:
  assumes "dinode_wf I fb d" "0 < m" "dsize d mod 1024 + m \<le> 1024" "k = dsize d div 1024" "k < 268"
  shows "need (dsize d + m) = need (dsize d) + (if dslot I d k = 0 then 1 else 0) + (if 12 \<le> k \<and> dslot I d 268 = 0 then 1 else 0)"
    "present (dsize d + m) j \<longleftrightarrow> present (dsize d) j \<or> j = k \<or> j = 268 \<and> 12 \<le> k"
proof -
  note b = nb_chunk[OF assms(2,3)]
  have p: "dslot I d k \<noteq> 0 \<longleftrightarrow> k < nb (dsize d)" "dslot I d 268 \<noteq> 0 \<longleftrightarrow> 12 < nb (dsize d)"
    using dinode_wfD(3)[OF assms(1), of k] dinode_wfD(3)[OF assms(1), of 268] assms(5) by (simp_all add: present_def)
  have k: "nb (dsize d + m) = Suc k" "nb (dsize d) = k \<or> nb (dsize d) = Suc k" using b assms(4) by (auto split: if_splits)
  show "need (dsize d + m) = need (dsize d) + (if dslot I d k = 0 then 1 else 0) + (if 12 \<le> k \<and> dslot I d 268 = 0 then 1 else 0)"
    using k p by (auto simp: need_def)
  show "present (dsize d + m) j \<longleftrightarrow> present (dsize d) j \<or> j = k \<or> j = 268 \<and> 12 \<le> k"
    using k assms(5) by (auto simp: present_def)
qed

lemma chunk_wf:
  assumes "appending D I fb n c I' d' fb'" and x: "x = dslot I' d' (dsize (D n) div 1024)"
    and I2: "I2 = chunk_block (dsize (D n)) c x I'" and d2: "d2 = set_din_size (of_nat (dsize (D n) + length c)) d'"
  shows "img_wf (D(n := d2)) I2 fb'" "data I2 d2 = data I (D n) @ c" "dsize d2 = dsize (D n) + length c"
    "\<And>m. m < 208 \<Longrightarrow> m \<noteq> n \<Longrightarrow> data I2 (D m) = data I (D m)" "\<And>b. unat b < 16 \<Longrightarrow> I2 b = I b"
    "get16 0 d2 = get16 0 (D n)" "fb' + need (dsize (D n)) = fb + need (dsize (D n) + length c)"
proof -
  note a = appendingD[OF assms(1)] and b = appending_block[OF assms(1,2)]
  let ?off = "dsize (D n)" let ?k = "?off div 1024"
  have c: "img_wf D I fb" "n < 208" "0 < length c" "?off mod 1024 + length c \<le> 1024" "?off + length c \<le> 274432"
    "extends ?k I (D n) fb I' d' fb'" using assms(1) by (simp_all add: appending_def)
  note e = extendsD[OF c(6)]
  note dw = dinode_wfD[OF a(2)]
  show z: "dsize d2 = ?off + length c" 
  proof -
    have "unat (of_nat (?off + length c) :: u32) = ?off + length c" using c(5) by (intro unat_of_nat_u32) simp
    then show ?thesis by (simp only: d2 dsize_def[of "set_din_size (of_nat (?off + length c)) d'"] din_set(2)[OF e(1)])
  qed
  show "get16 0 d2 = get16 0 (D n)" using e(11) by (simp add: d2 din_set[OF e(1)])
  note nc = need_chunk[OF a(2) c(3,4) refl a(4)]
  show "fb' + need ?off = fb + need (?off + length c)" using nc(1) e(9) by simp
  have sl: "dslot I2 d2 j = dslot I' d' j" if "j \<le> 268" for j
    using chunk_slots(1)[OF assms(1,2) that] by (simp add: I2 d2)
  have nbz: "nb (?off + length c) = Suc ?k" by (rule nb_chunk(1)[OF c(3,4)])
  have byt: "dbyte I2 d2 p = (if p < ?off then dbyte I (D n) p else if p < ?off + length c then c ! (p - ?off) else 0)"
    if "p < 1024 * Suc ?k" for p by (rule image_chunk_bytes[OF assms that])
  have range: "16 \<le> unat (dslot I' d' j) \<and> unat (dslot I' d' j) < fb'" if "j \<le> 268" "dslot I' d' j \<noteq> 0" for j
  proof (cases "dslot I (D n) j = 0")
    case True
    then show ?thesis using a(9)[OF that(1) True that(2)] a(1) by (simp add: free_wf_def)
  next
    case False
    then show ?thesis using a(10)[OF that(1) False] a(7)[OF that(1) False] a(5) by simp
  qed
  have low: "I2 b = I b" if "unat b < 16" for b
  proof -
    have "b \<noteq> x" using b(3) that by auto
    moreover have "b \<noteq> dslot I' d' 268 \<or> b = 0" using range[of 268] that by (cases "dslot I' d' 268 = 0") auto
    ultimately show ?thesis using a(11) by (simp add: I2 chunk_block_def)
  qed
  then show "\<And>b. unat b < 16 \<Longrightarrow> I2 b = I b" .
  show "data I2 d2 = data I (D n) @ c"
  proof (rule nth_equalityI)
    fix p assume "p < length (data I2 d2)"
    then have p: "p < ?off + length c" by (simp add: data_def z)
    then have "p div 1024 < nb (?off + length c)" by (rule nb_div)
    then have "p < 1024 * Suc ?k" using nbz by (simp add: div_less_iff_less_mult)
    from byt[OF this] show "data I2 d2 ! p = (data I (D n) @ c) ! p" using p by (simp add: data_def z nth_append)
  qed (simp add: data_def z)
  have wd: "dinode_wf I2 fb' d2"
    unfolding dinode_wf_def z
  proof (intro conjI allI impI)
    fix j :: nat assume j: "j \<le> 268"
    show "dslot I2 d2 j \<noteq> 0 \<longleftrightarrow> present (?off + length c) j" using sl[OF j] a(8)[OF j] dw(3)[OF j] nc(2)[of j] by simp
    show "dslot I2 d2 j \<noteq> 0 \<Longrightarrow> 16 \<le> unat (dslot I2 d2 j)" "dslot I2 d2 j \<noteq> 0 \<Longrightarrow> unat (dslot I2 d2 j) < fb'"
      using sl[OF j] range[OF j] by simp_all
  next
    fix p assume "?off + length c \<le> p" "p < 1024 * nb (?off + length c)"
    then show "dbyte I2 d2 p = 0" using byt[of p] nbz by simp
  qed (use c(5) e(1) in \<open>simp_all add: d2 din_set\<close>)
  have ow: "own_blocks I2 d2" unfolding own_blocks_def using appending_inj[OF assms(1)] sl by auto
  have dm: "dinode_wf I fb (D m)" "own_blocks I (D m)" if "m < 208" for m using c(1) that by (simp_all add: img_wf_def)
  have slm: "dslot I2 (D m) = dslot I (D m)" if "m < 208" "m \<noteq> n" for m
    using chunk_slots(3)[OF assms(1,2) that] by (simp add: I2)
  have bm: "dbyte I2 (D m) p = dbyte I (D m) p" if m: "m < 208" "m \<noteq> n" and p: "p < 1024 * nb (dsize (D m))" for m p
  proof -
    note w = dinode_wfD[OF dm(1)[OF m(1)]]
    have q: "p div 1024 < nb (dsize (D m))" using p by (simp add: div_less_iff_less_mult mult.commute)
    then have "p div 1024 < 268" using nb_le[OF w(2)] by simp
    then have "dslot I (D m) (p div 1024) \<noteq> 0" using w(3)[of "p div 1024"] q by (simp add: present_def)
    then have "I2 (dslot I (D m) (p div 1024)) = I (dslot I (D m) (p div 1024))"
      using chunk_slots(2)[OF assms(1,2) m, of "p div 1024"] \<open>p div 1024 < 268\<close> by (simp add: I2)
    then show ?thesis by (simp add: dbyte_def slm[OF m])
  qed
  have size_nb: "p < dsize d \<Longrightarrow> p < 1024 * nb (dsize d)" for p d by (rule less_le_trans[OF _ nb_cover])
  show "data I2 (D m) = data I (D m)" if "m < 208" "m \<noteq> n" for m
    using bm[OF that] size_nb by (simp add: data_def)
  have wm: "dinode_wf I2 fb' (D m) \<and> own_blocks I2 (D m)" if m: "m < 208" "m \<noteq> n" for m
  proof
    note w = dinode_wfD[OF dm(1)[OF m(1)]]
    show "dinode_wf I2 fb' (D m)" unfolding dinode_wf_def slm[OF m]
    proof (intro conjI allI impI)
      fix j :: nat assume j: "j \<le> 268"
      show "dslot I (D m) j \<noteq> 0 \<longleftrightarrow> present (dsize (D m)) j" by (rule w(3)[OF j])
      show "dslot I (D m) j \<noteq> 0 \<Longrightarrow> 16 \<le> unat (dslot I (D m) j)" "dslot I (D m) j \<noteq> 0 \<Longrightarrow> unat (dslot I (D m) j) < fb'"
        using w(4)[OF j] a(5) by simp_all
    next
      fix p assume p: "dsize (D m) \<le> p" "p < 1024 * nb (dsize (D m))"
      show "dbyte I2 (D m) p = 0" using bm[OF m p(2)] w(5)[OF p] by simp
    qed (use w(1,2) in simp_all)
    show "own_blocks I2 (D m)" using dm(2)[OF m(1)] by (simp add: own_blocks_def slm[OF m])
  qed
  have dis: "disjoint_blocks I2 d2 (D m)" "disjoint_blocks I2 (D m) d2" if m: "m < 208" "m \<noteq> n" for m
  proof -
    have ne: "dslot I (D m) l \<noteq> dslot I' d' j" if "l \<le> 268" "j \<le> 268" "dslot I (D m) l \<noteq> 0" for l j
      by (rule appending_other[OF assms(1) m that(1,3,2)])
    then show "disjoint_blocks I2 (D m) d2" unfolding disjoint_blocks_def slm[OF m] using sl by auto
    have "dslot I' d' j \<noteq> dslot I (D m) l" if "l \<le> 268" "j \<le> 268" "dslot I' d' j \<noteq> 0" for l j
      using ne[OF that(1,2)] that(3) by (cases "dslot I (D m) l = 0") auto
    then show "disjoint_blocks I2 d2 (D m)" unfolding disjoint_blocks_def slm[OF m] using sl by auto
  qed
  have "disjoint_blocks I2 (D m) (D l)" if "m < 208" "m \<noteq> n" "l < 208" "l \<noteq> n" "m \<noteq> l" for m l
    using c(1) that by (simp add: img_wf_def disjoint_blocks_def slm)
  moreover have "free_wf I2 fb'"
  proof -
    have fw: "16 \<le> fb" "\<And>b. 16 \<le> unat b \<Longrightarrow> unat b < 1000 \<Longrightarrow> length (I b) = 1024"
      "\<And>b. fb \<le> unat b \<Longrightarrow> unat b < 1000 \<Longrightarrow> I b = replicate 1024 0" using a(1) by (simp_all add: free_wf_def)
    have "length (I2 b) = 1024" if "16 \<le> unat b" "unat b < 1000" for b
      using fw(2)[OF that] e(8) b(6) c(4) by (cases "b = x") (simp_all add: I2 chunk_block_def)
    moreover have "I2 b = replicate 1024 0" if "fb' \<le> unat b" "unat b < 1000" for b
    proof -
      have "b \<noteq> x" using b(4) that(1) by auto
      moreover have "b \<noteq> dslot I' d' 268 \<or> b = 0" using range[of 268] that(1) by (cases "dslot I' d' 268 = 0") auto
      ultimately show ?thesis using a(11) fw(3)[of b] a(5) that by (simp add: I2 chunk_block_def)
    qed
    ultimately show ?thesis using fw(1) a(5) b(5) by (simp add: free_wf_def)
  qed
  ultimately show "img_wf (D(n := d2)) I2 fb'" using wd ow wm dis by (auto simp: img_wf_def)
qed


section \<open>The loop\<close>

lemma bit_from_le:
  "bit (from_le bs :: 'a::len word) k \<longleftrightarrow> k < LENGTH('a) \<and> k div 8 < length bs \<and> bit (bs ! (k div 8)) (k mod 8)"
proof (induction bs arbitrary: k)
  case (Cons b bs)
  show ?case
  proof (cases "k < 8")
    case True
    then show ?thesis by (auto simp: bit_simps Cons.IH)
  next
    case False
    then have "k = 8 + (k - 8)" by simp
    then obtain j where j: "k = 8 + j" by blast
    have "\<not> bit b (8 + j)" using bit_imp_le_length[of b "8 + j"] by auto
    moreover have "(8 + j) div 8 = Suc (j div 8)" by simp
    ultimately show ?thesis by (auto simp: bit_simps Cons.IH j)
  qed
qed simp

lemma to_le_from_le: "length bs = n \<Longrightarrow> 8 * n \<le> LENGTH('a) \<Longrightarrow> to_le n (from_le bs :: 'a::len word) = bs"
proof (intro nth_equalityI)
  fix i assume h: "length bs = n" "8 * n \<le> LENGTH('a)" "i < length (to_le n (from_le bs :: 'a word))"
  then have i: "i < n" by simp
  have "bit (to_le n (from_le bs :: 'a word) ! i) j \<longleftrightarrow> bit (bs ! i) j" if "j < 8" for j
    using h(1,2) i that by (simp add: to_le_def bit_simps bit_from_le)
  then show "to_le n (from_le bs :: 'a word) ! i = bs ! i" by (intro bit_word_eqI) simp
qed simp

lemma set_size_twice: "length d = 64 \<Longrightarrow> set_din_size v (set_din_size w d) = set_din_size v d"
  by (intro nth_equalityI) (auto simp: set_din_size_def nth_put_at)

lemma set_size_same: "length d = 64 \<Longrightarrow> set_din_size (din_size d) d = d"
proof -
  assume l: "length d = 64"
  have t: "to_le 4 (get32 8 d) = take 4 (drop 8 d)"
    unfolding get32_def by (rule to_le_from_le) (use l in simp_all)
  show ?thesis
  proof (rule nth_equalityI)
    fix i assume i: "i < length (set_din_size (din_size d) d)"
    then have "i < 64" by (simp add: set_din_size_def l)
    then show "set_din_size (din_size d) d ! i = d ! i"
      using l by (simp add: set_din_size_def din_size_def nth_put_at t) auto
  qed (simp add: set_din_size_def l)
qed

lemma extends_size:
  assumes "extends k I d fb I' d' fb'" "length d = 64" "k < 268"
  shows "extends k I (set_din_size v d) fb I' (set_din_size v d') fb'"
proof -
  note e = extendsD[OF assms(1)]
  have F: "dslot I (set_din_size v d) j = dslot I d j" "dslot I' (set_din_size v d') j = dslot I' d' j" if "j \<le> 268" for j
    using dslot_size that assms(2) e(1) by simp_all
  show ?thesis unfolding extends_def
  proof (intro conjI)
    show "length (set_din_size v d') = 64" "din_size (set_din_size v d') = din_size (set_din_size v d)"
      "get16 0 (set_din_size v d') = get16 0 (set_din_size v d)"
      using e(1,11) assms(2) by (simp_all add: din_set)
    show "fb \<le> fb'" by (rule e(2))
    show "\<forall>b. length (I b) = 1024 \<longrightarrow> length (I' b) = 1024" by (rule e(8))
    show "\<forall>j\<le>268. dslot I (set_din_size v d) j \<noteq> 0 \<longrightarrow> dslot I' (set_din_size v d') j = dslot I (set_din_size v d) j"
      using e(3) F by simp
    show "\<forall>j\<le>268. dslot I' (set_din_size v d') j \<noteq> 0 \<longleftrightarrow> dslot I (set_din_size v d) j \<noteq> 0 \<or> j = k \<or> (j = 268 \<and> 12 \<le> k)"
      using e(4) F by simp
    show "\<forall>j\<le>268. dslot I (set_din_size v d) j = 0 \<longrightarrow> dslot I' (set_din_size v d') j \<noteq> 0 \<longrightarrow>
        fb \<le> unat (dslot I' (set_din_size v d') j) \<and> unat (dslot I' (set_din_size v d') j) < fb'" using e(5) F by simp
    show "\<forall>i\<le>268. \<forall>j\<le>268. dslot I (set_din_size v d) i = 0 \<longrightarrow> dslot I' (set_din_size v d') i \<noteq> 0 \<longrightarrow>
        dslot I' (set_din_size v d') i = dslot I' (set_din_size v d') j \<longrightarrow> i = j"
    proof (intro allI impI)
      fix i j :: nat assume h: "i \<le> 268" "j \<le> 268" "dslot I (set_din_size v d) i = 0" "dslot I' (set_din_size v d') i \<noteq> 0"
        "dslot I' (set_din_size v d') i = dslot I' (set_din_size v d') j"
      show "i = j" by (rule e(6)[rule_format, OF h(1,2)]) (use h(3-5) F[OF h(1)] F[OF h(2)] in simp_all)
    qed
    show "\<forall>b. 12 \<le> k \<and> b = dslot I' (set_din_size v d') 268 \<or> I' b = I b" using e(7) F(2)[of 268] by simp
    show "fb' = fb + (if dslot I (set_din_size v d) k = 0 then 1 else 0) + (if 12 \<le> k \<and> dslot I (set_din_size v d) 268 = 0 then 1 else 0)"
      using e(9) F(1)[of k] F(1)[of 268] assms(3) by simp
  qed
qed

lemma need_mono: "a \<le> b \<Longrightarrow> need a \<le> need b"
proof -
  assume "a \<le> b"
  then have "nb a \<le> nb b" by (simp add: nb_def div_le_mono)
  then show "need a \<le> need b" by (simp add: need_def)
qed


text \<open>What appending \<open>p\<close> to file \<open>n\<close> does to the image and to the other files.\<close>

definition appended ::
  "(nat \<Rightarrow> u8 list) \<Rightarrow> nat \<Rightarrow> u8 list \<Rightarrow> mkfs \<Rightarrow> u8 list \<Rightarrow> mkfs \<Rightarrow> bool" where
  "appended D n p s d s' \<longleftrightarrow> img_wf (D(n := d)) (img s') (unat (freeblock s')) \<and>
     data (img s') d = data (img s) (D n) @ p \<and> dsize d = dsize (D n) + length p \<and> get16 0 d = get16 0 (D n) \<and>
     (\<forall>m<208. m \<noteq> n \<longrightarrow> data (img s') (D m) = data (img s) (D m)) \<and> (\<forall>b. unat b < 16 \<longrightarrow> img s' b = img s b) \<and>
     m_sb s' = m_sb s \<and> freeinode s' = freeinode s \<and>
     unat (freeblock s') + need (dsize (D n)) = unat (freeblock s) + need (dsize (D n) + length p)"

lemma appended_trans:
  assumes "appended D n p s d s1" "appended (D(n := d)) n q s1 d' s2"
  shows "appended D n (p @ q) s d' s2"
  using assms by (auto simp: appended_def add.assoc)

lemma append_size_nat:
  assumes "unat off + length p \<le> 274432" "p \<noteq> []"
  shows "unat (append_size (of_nat (length p)) off) = min (length p) (1024 - unat off mod 1024)"
proof -
  have "length p < 2 ^ 32" using assms(1) by simp
  then have l: "unat (of_nat (length p) :: u32) = length p" by (rule unat_of_nat_u32)
  have d: "unat (off div 1024) = unat off div 1024" by (simp add: unat_div)
  have o: "unat off = unat off div 1024 * 1024 + unat off mod 1024" by simp
  have "unat (off div 1024 + 1) = unat off div 1024 + 1"
    using assms(1) unat_less_u32[of off] by (simp add: unat_plus_if' d)
  then have m: "unat ((off div 1024 + 1) * 1024) = (unat off div 1024 + 1) * 1024"
  proof -
    have q: "unat (q * 1024 :: u32) = unat q * 1024" if "unat q * 1024 < 2 ^ 32" for q
      using that unat_mult_lem[of q 1024, THEN iffD1] by simp
    show ?thesis using \<open>unat (off div 1024 + 1) = unat off div 1024 + 1\<close> assms(1) q[of "off div 1024 + 1"] by simp
  qed
  have "unat ((off div 1024 + 1) * 1024 - off) = (unat off div 1024 + 1) * 1024 - unat off"
    using m o mod_less_divisor[of 1024 "unat off"] by (subst unat_sub) (simp_all add: word_le_nat_alt)
  also have "\<dots> = 1024 - unat off mod 1024"
  proof -
    have "t = q * 1024 + r \<Longrightarrow> (q + 1) * 1024 - t = 1024 - r" for t q r :: nat by simp
    then show ?thesis using o by blast
  qed
  finally show ?thesis using l by (auto simp: append_size_def MIN32_def word_less_nat_alt)
qed

lemma chunk_step:
  assumes "img_wf D (img s) (unat (freeblock s))" "n < 208" "D n = set_din_size off din" "length din = 64"
    and "c \<noteq> []" "unat off mod 1024 + length c \<le> 1024" "unat off + length c \<le> 274432"
    and "unat (freeblock s) + need (unat off + length c) \<le> 1000 + need (unat off)"
  shows "\<exists>x d' s1. fblock (off div 1024) din s = (x, d', s1) \<and> length d' = 64 \<and>
    appended D n c s (set_din_size (off + of_nat (length c)) d') (wsect x (put_at (unat off mod 1024) c (img s1 x)) s1)"
proof -
  let ?k = "unat off div 1024" and ?I = "img s" and ?fb = "unat (freeblock s)"
  have z: "dsize (D n) = unat off" by (simp add: dsize_def assms(3,4) din_set)
  have w: "free_wf ?I ?fb" "dinode_wf ?I ?fb (D n)" using assms(1,2) by (simp_all add: img_wf_def)
  note dw = dinode_wfD[OF w(2)]
  have sl: "dslot ?I (D n) j = dslot ?I din j" if "j \<le> 268" for j using dslot_size[OF assms(4) that] assms(3) by simp
  have "0 < length c" using assms(5) by simp
  then have "unat off < 268 * 1024" using assms(7) by linarith
  then have k: "?k < 268" by (simp add: div_less_iff_less_mult)
  have ok: "(of_nat ?k :: u32) = off div 1024" 
  proof -
    have "?k < 2 ^ 32" by (rule less_trans[OF k]) simp
    then show ?thesis using unat_of_nat_u32[of ?k] by (simp add: word_unat_eq_iff unat_div)
  qed
  have rng: "\<forall>j\<le>268. dslot ?I din j \<noteq> 0 \<longrightarrow> 16 \<le> unat (dslot ?I din j) \<and> unat (dslot ?I din j) < ?fb"
    using dw(4) sl by simp
  have "need (unat off + length c) = need (unat off) + (if dslot ?I din ?k = 0 then 1 else 0) + (if 12 \<le> ?k \<and> dslot ?I din 268 = 0 then 1 else 0)"
    using need_chunk(1)[OF w(2) \<open>0 < length c\<close> _ refl] assms(6) k z sl by simp
  then have room: "?fb + (if dslot ?I din ?k = 0 then 1 else 0) + (if 12 \<le> ?k \<and> dslot ?I din 268 = 0 then 1 else 0) \<le> 1000"
    using assms(8) by linarith
  obtain d' s1 where f: "fblock (of_nat ?k) din s = (dslot (img s1) d' ?k, d', s1)" "m_sb s1 = m_sb s" "freeinode s1 = freeinode s"
    "extends ?k ?I din ?fb (img s1) d' (unat (freeblock s1))" "unat (freeblock s1) \<le> 1000"
    using fblock_ok[OF assms(4) rng w(1) k room] by blast
  have l': "length d' = 64" by (rule extendsD(1)[OF f(4)])
  let ?d = "set_din_size off d'" and ?x = "dslot (img s1) d' ?k"
  have "extends ?k ?I (D n) ?fb (img s1) ?d (unat (freeblock s1))" unfolding assms(3) by (rule extends_size[OF f(4) assms(4) k])
  then have ap: "appending D ?I ?fb n c (img s1) ?d (unat (freeblock s1))"
    using assms(1,2,5-7) f(5) z by (simp add: appending_def)
  have x: "?x = dslot (img s1) ?d (dsize (D n) div 1024)" using dslot_size[OF l', of ?k] k z by simp
  have d2: "set_din_size (off + of_nat (length c)) d' = set_din_size (of_nat (dsize (D n) + length c)) ?d"
    using set_size_twice[OF l'] z by simp
  let ?s2 = "wsect ?x (put_at (unat off mod 1024) c (img s1 ?x)) s1"
  have I2: "img ?s2 = chunk_block (dsize (D n)) c ?x (img s1)" by (simp add: wsect_def chunk_block_def z)
  note cw = chunk_wf[OF ap x I2 d2]
  have "freeblock ?s2 = freeblock s1" "m_sb ?s2 = m_sb s" "freeinode ?s2 = freeinode s" using f(2,3) by (simp_all add: wsect_def)
  then have "appended D n c s (set_din_size (off + of_nat (length c)) d') ?s2" using cw by (simp add: appended_def)
  then show ?thesis using f(1) l' unfolding ok by blast
qed


lemma iappend_loop_ok:
  assumes "img_wf D (img s) (unat (freeblock s))" "n < 208" "D n = set_din_size off din" "length din = 64"
    and "unat off + length p \<le> 274432" "unat (freeblock s) + need (unat off + length p) \<le> 1000 + need (unat off)"
  shows "\<exists>d' s'. iappend_loop off p din s = Inr (off + of_nat (length p), d', s') \<and> length d' = 64 \<and>
    appended D n p s (set_din_size (off + of_nat (length p)) d') s'"
  using assms
proof (induction "length p" arbitrary: p off din s D rule: less_induct)
  case less
  note h = less.prems
  have z: "dsize (D n) = unat off" by (simp add: dsize_def h(3,4) din_set)
  show ?case
  proof (cases "p = []")
    case True
    then have "appended D n p s (set_din_size (off + of_nat (length p)) din) s"
      using h(1) h(3)[symmetric] by (simp add: appended_def fun_upd_idem)
    then show ?thesis using True h(4) by (subst iappend_loop.simps) auto
  next
    case False
    let ?n1 = "append_size (of_nat (length p)) off"
    have n1: "unat ?n1 = min (length p) (1024 - unat off mod 1024)" by (rule append_size_nat[OF h(5) False])
    let ?k = "unat ?n1" let ?c = "take ?k p"
    have "unat off mod 1024 < 1024" by simp
    then have k: "0 < ?k" "?k \<le> length p" "unat off mod 1024 + ?k \<le> 1024" unfolding n1 using False by auto
    then have c: "?c \<noteq> []" "length ?c = ?k" using False by simp_all
    have room: "unat (freeblock s) + need (unat off + length ?c) \<le> 1000 + need (unat off)"
      using h(6) need_mono[of "unat off + length ?c" "unat off + length p"] k(2) c(2) by linarith
    have "unat off mod 1024 + length ?c \<le> 1024" "unat off + length ?c \<le> 274432" using k c(2) h(5) by simp_all
    then obtain x d1 s1 where f: "fblock (off div 1024) din s = (x, d1, s1)" "length d1 = 64"
      "appended D n ?c s (set_din_size (off + of_nat (length ?c)) d1) (wsect x (put_at (unat off mod 1024) ?c (img s1 x)) s1)"
      using chunk_step[OF h(1-4) c(1) _ _ room] by blast
    let ?s2 = "wsect x (put_at (unat off mod 1024) ?c (img s1 x)) s1" and ?off = "off + ?n1"
    have on: "off + of_nat (length ?c) = ?off" using c(2) by simp
    have uo: "unat ?off = unat off + ?k" using h(5) k(2) by (simp add: unat_plus_if')
    let ?D = "D(n := set_din_size ?off d1)"
    have a1: "appended D n ?c s (set_din_size ?off d1) ?s2" using f(3) on by simp
    then have w: "img_wf ?D (img ?s2) (unat (freeblock ?s2))"
      and acc: "unat (freeblock ?s2) + need (unat off) = unat (freeblock s) + need (unat off + ?k)"
      using z c(2) by (simp_all add: appended_def)
    let ?q = "drop ?k p"
    have q: "length ?q < length p" "unat ?off + length ?q = unat off + length p" using k uo by simp_all
    have "unat (freeblock ?s2) + need (unat ?off + length ?q) \<le> 1000 + need (unat ?off)"
      using acc h(6) q(2) uo by simp
    then obtain d2 s3 where r: "iappend_loop ?off ?q d1 ?s2 = Inr (?off + of_nat (length ?q), d2, s3)" "length d2 = 64"
      "appended ?D n ?q ?s2 (set_din_size (?off + of_nat (length ?q)) d2) s3"
      using less.hyps[OF q(1) w h(2) _ f(2), of ?off] q(2) h(5) by auto
    have e: "?off + of_nat (length ?q) = off + of_nat (length p)"
      using q(2) uo h(5) by (simp add: word_unat_eq_iff unat_plus_if' unat_of_nat_u32)
    have "appended D n (?c @ ?q) s (set_din_size (off + of_nat (length p)) d2) s3"
      using appended_trans[OF a1 r(3)] unfolding e by simp
    moreover have "\<not> off div 1024 \<ge> 268"
    proof -
      have "unat off < 268 * 1024" using h(5) k(1,2) by simp
      then show ?thesis by (simp add: word_le_nat_alt unat_div div_less_iff_less_mult)
    qed
    moreover have "unat (off - off div 1024 * 1024) = unat off mod 1024"
      by (simp add: minus_div_mult_eq_mod unat_mod)
    ultimately show ?thesis using False f(1) k(1) r(1,2) unfolding e by (subst iappend_loop.simps) (auto simp: rsect_def Let_def)
  qed
qed


section \<open>The whole image\<close>

definition dn :: "mkfs \<Rightarrow> nat \<Rightarrow> u8 list" where
  "dn s n = rinode (of_nat n) s"

definition contents :: "mkfs \<Rightarrow> nat \<Rightarrow> u8 list" where
  "contents s n = data (img s) (dn s n)"

definition itype :: "mkfs \<Rightarrow> nat \<Rightarrow> u16" where
  "itype s n = get16 0 (dn s n)"

definition mk_wf :: "mkfs \<Rightarrow> bool" where
  "mk_wf s \<longleftrightarrow> m_sb s = make_sb \<and> (\<forall>b. unat b < 16 \<longrightarrow> length (img s b) = 1024) \<and> img_wf (dn s) (img s) (unat (freeblock s))"

lemma iblock_bound: "n < 208 \<Longrightarrow> unat (IBLOCK (of_nat n) make_sb) = n div 16 + 2"
  by (simp add: IBLOCK_def make_sb_def unat_plus_if' unat_div unat_of_nat_u32 div_less_iff_less_mult)

lemma rinode_winode:
  assumes "length din = 64" "length (img s (IBLOCK n (m_sb s))) = 1024"
  shows "rinode m (winode n din s) = (if m = n then din else rinode m s)"
proof -
  have o: "dinode_off n + length din \<le> length (img s (IBLOCK n (m_sb s)))" using assms dinode_off_bound by simp
  have sb: "m_sb (winode n din s) = m_sb s" by (simp add: winode_def wsect_def Let_def)
  have i: "img (winode n din s) = (img s)(IBLOCK n (m_sb s) := put_at (dinode_off n) din (img s (IBLOCK n (m_sb s))))"
    by (simp add: winode_def wsect_def rsect_def Let_def)
  show ?thesis
  proof (cases "m = n")
    case True
    then show ?thesis using sub_put_in[OF o, of "dinode_off n" 64] assms(1) by (simp add: rinode_def rsect_def sb i)
  next
    case False
    show ?thesis
    proof (cases "IBLOCK m (m_sb s) = IBLOCK n (m_sb s)")
      case True
      then have "take 64 (drop (dinode_off m) (put_at (dinode_off n) din (img s (IBLOCK n (m_sb s))))) =
          take 64 (drop (dinode_off m) (img s (IBLOCK n (m_sb s))))"
        using dinode_off_other[OF True False] assms(1) by (intro sub_put_other[OF o]) auto
      then show ?thesis using True False by (simp add: rinode_def rsect_def sb i)
    qed (use False in \<open>simp add: rinode_def rsect_def sb i\<close>)
  qed
qed

lemma winode_frame:
  "m_sb (winode n din s) = m_sb s" "freeinode (winode n din s) = freeinode s" "freeblock (winode n din s) = freeblock s"
  "b \<noteq> IBLOCK n (m_sb s) \<Longrightarrow> img (winode n din s) b = img s b"
  "length din = 64 \<Longrightarrow> length (img s b) = 1024 \<Longrightarrow> length (img (winode n din s) b) = 1024"
  using dinode_off_bound[of n] by (auto simp: winode_def wsect_def rsect_def Let_def)

text \<open>Files are read in the blocks from 16 on only.\<close>

lemma img_wf_cong:
  assumes "\<forall>b. 16 \<le> unat b \<longrightarrow> I' b = I b" "img_wf D I fb"
  shows "img_wf D I' fb" "n < 208 \<Longrightarrow> data I' (D n) = data I (D n)" "n < 208 \<Longrightarrow> k \<le> 268 \<Longrightarrow> dslot I' (D n) k = dslot I (D n) k"
proof -
  have w: "dinode_wf I fb (D n)" if "n < 208" for n using assms(2) that by (simp add: img_wf_def)
  have sl: "dslot I' (D n) = dslot I (D n)" if "n < 208" for n
  proof (cases "din_addr (D n) 12 = 0")
    case False
    then have "16 \<le> unat (din_addr (D n) 12)" using dinode_wfD(4)[OF w[OF that], of 268] by (simp add: dslot_268)
    then show ?thesis by (intro dslot_cong(1)[OF False]) (simp add: assms(1))
  qed (rule dslot_cong(2))
  then show "n < 208 \<Longrightarrow> k \<le> 268 \<Longrightarrow> dslot I' (D n) k = dslot I (D n) k" by simp
  have b: "dbyte I' (D n) p = dbyte I (D n) p" if n: "n < 208" and p: "p < 1024 * nb (dsize (D n))" for n p
  proof -
    note d = dinode_wfD[OF w[OF n]]
    have q: "p div 1024 < nb (dsize (D n))" using p by (simp add: div_less_iff_less_mult mult.commute)
    then have "p div 1024 < 268" using nb_le[OF d(2)] by simp
    then have "dslot I (D n) (p div 1024) \<noteq> 0" using d(3)[of "p div 1024"] q by (simp add: present_def)
    then have "16 \<le> unat (dslot I (D n) (p div 1024))" using d(4)[of "p div 1024"] \<open>p div 1024 < 268\<close> by simp
    then show ?thesis by (simp add: dbyte_def sl[OF n] assms(1))
  qed
  then show "n < 208 \<Longrightarrow> data I' (D n) = data I (D n)"
    using less_le_trans[OF _ nb_cover] by (simp add: data_def)
  have "dinode_wf I' fb (D n)" if n: "n < 208" for n
    using w[OF n] b[OF n] unfolding dinode_wf_def sl[OF n] by simp
  moreover have "own_blocks I' (D n) = own_blocks I (D n)" if "n < 208" for n by (simp add: own_blocks_def sl that)
  moreover have "disjoint_blocks I' (D n) (D m) = disjoint_blocks I (D n) (D m)" if "n < 208" "m < 208" for n m
    by (simp add: disjoint_blocks_def sl that)
  moreover have "free_wf I' fb" using assms by (simp add: img_wf_def free_wf_def)
  ultimately show "img_wf D I' fb" using assms(2) by (simp add: img_wf_def)
qed

lemma img_wf_eq: "(\<forall>n<208. D' n = D n) \<Longrightarrow> img_wf D' I fb = img_wf D I fb"
  by (simp add: img_wf_def)


text \<open>What \<open>iappend\<close> keeps: sizes, types and contents of other files, and the blocks outside inodes and files.\<close>

definition grown :: "nat \<Rightarrow> u8 list \<Rightarrow> mkfs \<Rightarrow> mkfs \<Rightarrow> bool" where
  "grown n p s s' \<longleftrightarrow> mk_wf s' \<and> contents s' n = contents s n @ p \<and>
     (\<forall>m<208. m \<noteq> n \<longrightarrow> contents s' m = contents s m) \<and> (\<forall>m<208. itype s' m = itype s m) \<and>
     (\<forall>b. unat b < 2 \<or> unat b = 15 \<longrightarrow> img s' b = img s b) \<and> freeinode s' = freeinode s \<and>
     unat (freeblock s') + need (length (contents s n)) = unat (freeblock s) + need (length (contents s n @ p))"

lemma length_contents: "length (contents s n) = dsize (dn s n)"
  by (simp add: contents_def data_def)

lemma iappend_ok:
  assumes "mk_wf s" "n < 208" "length (contents s n @ p) \<le> 274432"
    "unat (freeblock s) + need (length (contents s n @ p)) \<le> 1000 + need (length (contents s n))"
  shows "\<exists>s'. iappend (of_nat n) p s = Inr s' \<and> grown n p s s'"
proof -
  have w: "m_sb s = make_sb" "\<And>b. unat b < 16 \<Longrightarrow> length (img s b) = 1024" "img_wf (dn s) (img s) (unat (freeblock s))"
    using assms(1) by (simp_all add: mk_wf_def)
  let ?din = "rinode (of_nat n) s"
  let ?off = "din_size ?din"
  have "dinode_wf (img s) (unat (freeblock s)) (dn s n)" using w(3) assms(2) by (simp add: img_wf_def)
  note dw = dinode_wfD[OF this]
  have l: "length ?din = 64" using dw(1) by (simp add: dn_def)
  have D: "dn s n = set_din_size ?off ?din" using set_size_same[OF l] by (simp add: dn_def)
  have z: "dsize (dn s n) = unat ?off" by (simp add: dsize_def dn_def)
  have "unat ?off + length p \<le> 274432" "unat (freeblock s) + need (unat ?off + length p) \<le> 1000 + need (unat ?off)"
    using assms(3,4) z by (simp_all add: length_contents)
  then obtain d1 s1 where r: "iappend_loop ?off p ?din s = Inr (?off + of_nat (length p), d1, s1)" "length d1 = 64"
    "appended (dn s) n p s (set_din_size (?off + of_nat (length p)) d1) s1"
    using iappend_loop_ok[OF w(3) assms(2) D l] by blast
  let ?d2 = "set_din_size (?off + of_nat (length p)) d1"
  let ?s' = "winode (of_nat n) ?d2 s1"
  have l2: "length ?d2 = 64" by (rule din_set(1)[OF r(2)])
  have a: "img_wf ((dn s)(n := ?d2)) (img s1) (unat (freeblock s1))" "data (img s1) ?d2 = data (img s) (dn s n) @ p"
    "dsize ?d2 = dsize (dn s n) + length p" "get16 0 ?d2 = get16 0 (dn s n)"
    "\<And>m. m < 208 \<Longrightarrow> m \<noteq> n \<Longrightarrow> data (img s1) (dn s m) = data (img s) (dn s m)" "\<And>b. unat b < 16 \<Longrightarrow> img s1 b = img s b"
    "m_sb s1 = m_sb s" "freeinode s1 = freeinode s"
    "unat (freeblock s1) + need (dsize (dn s n)) = unat (freeblock s) + need (dsize (dn s n) + length p)"
    using r(3) unfolding appended_def by blast+
  have ib: "unat (IBLOCK (of_nat m) (m_sb s1)) = m div 16 + 2 \<and> m div 16 + 2 < 15" if "m < 208" for m
    using iblock_bound[OF that] that a(7) w(1) by (simp add: div_less_iff_less_mult)
  have d1s: "dn s1 m = dn s m" if "m < 208" for m
    using a(6)[of "IBLOCK (of_nat m) (m_sb s1)"] ib[OF that] a(7) by (simp add: dn_def rinode_def rsect_def)
  have len1: "length (img s1 b) = 1024" if "unat b < 16" for b using w(2)[OF that] a(6)[OF that] by simp
  have ds: "dn ?s' m = (if m = n then ?d2 else dn s m)" if m: "m < 208" for m
  proof -
    have "(of_nat m :: u32) = of_nat n \<longleftrightarrow> m = n" using m assms(2) by (simp add: word_unat_eq_iff unat_of_nat_u32)
    moreover have "rinode (of_nat m) ?s' = (if (of_nat m :: u32) = of_nat n then ?d2 else rinode (of_nat m) s1)"
      using ib[OF assms(2)] by (intro rinode_winode[OF l2] len1) simp
    ultimately show ?thesis using d1s[OF m] by (simp add: dn_def)
  qed
  note fr = winode_frame[where n = "of_nat n" and din = ?d2 and s = s1]
  have hi: "\<forall>b. 16 \<le> unat b \<longrightarrow> img ?s' b = img s1 b"
  proof (intro allI impI)
    fix b :: u32 assume "16 \<le> unat b"
    then have "b \<noteq> IBLOCK (of_nat n) (m_sb s1)" using ib[OF assms(2)] by auto
    then show "img ?s' b = img s1 b" by (rule fr(4))
  qed
  have eq: "\<forall>m<208. dn ?s' m = ((dn s)(n := ?d2)) m" using ds by simp
  note cg = img_wf_cong[OF hi a(1)]
  have "img_wf (dn ?s') (img ?s') (unat (freeblock ?s'))" 
    unfolding img_wf_eq[of "dn ?s'" "(dn s)(n := ?d2)", OF eq] fr(3) by (rule cg(1))
  moreover have "length (img ?s' b) = 1024" if "unat b < 16" for b by (rule fr(5)[OF l2 len1[OF that]])
  ultimately have "mk_wf ?s'" using w(1) a(7) fr(1) by (simp add: mk_wf_def)
  moreover have "contents ?s' n = contents s n @ p" using cg(2)[OF assms(2)] a(2) ds[OF assms(2)] by (simp add: contents_def)
  moreover have "contents ?s' m = contents s m" if m: "m < 208" "m \<noteq> n" for m
    using cg(2)[OF m(1)] a(5)[OF m] ds[OF m(1)] m(2) by (simp add: contents_def)
  moreover have "itype ?s' m = itype s m" if "m < 208" for m using ds[OF that] a(4) by (simp add: itype_def)
  moreover have "img ?s' b = img s b" if "unat b < 2 \<or> unat b = 15" for b
  proof -
    have "b \<noteq> IBLOCK (of_nat n) (m_sb s1)" using that ib[OF assms(2)] by auto
    then show ?thesis using fr(4) a(6)[of b] that by auto
  qed
  moreover have "iappend (of_nat n) p s = Inr ?s'" using r(1) by (simp add: iappend_def Let_def)
  ultimately show ?thesis using a(8,9) fr(2,3) by (intro exI[of _ ?s']) (simp add: grown_def length_contents)
qed

end
