(* ===== verification/MkfsBuild.thy ===== *)
theory MkfsBuild
  imports MkfsImage
begin

text \<open>
  The whole run of the image tool: after it, the root directory has one entry for every file, in order, and the
  inode of every file holds its bytes.
\<close>

section \<open>Files to add\<close>

text \<open>The name under which a file is added, and its entry as file number \<open>n\<close>.\<close>

definition shortname :: "u8 list \<Rightarrow> u8 list" where
  "shortname argv = (if cstrn 7 argv = map of_char ''target/'' then drop 7 argv else argv)"

definition entry :: "nat \<Rightarrow> u8 list \<Rightarrow> u8 list" where
  "entry n nm = to_le 2 (of_nat n :: u16) @ cstrn 14 nm @ replicate (14 - length (cstrn 14 nm)) 0"

definition bytes_of :: "u8 list \<times> u8 list list \<Rightarrow> u8 list" where
  "bytes_of f = concat (snd f)"

definition file_ok :: "u8 list \<times> u8 list list \<Rightarrow> bool" where
  "file_ok f \<longleftrightarrow> 0 \<in> set (fst f) \<and> of_char (CHR ''/'') \<notin> set (takeWhile (\<lambda>c. c \<noteq> 0) (shortname (fst f))) \<and>
     length (bytes_of f) \<le> 274432"

text \<open>The entries of the root directory, from inode number \<open>n\<close> on, and the number of blocks.\<close>

fun entries :: "nat \<Rightarrow> (u8 list \<times> u8 list list) list \<Rightarrow> u8 list" where
  "entries n [] = []"
| "entries n (f # fs) = entry n (shortname (fst f)) @ entries (Suc n) fs"

definition blocks :: "(u8 list \<times> u8 list list) list \<Rightarrow> nat" where
  "blocks fs = need (16 * length fs) + (\<Sum>f \<leftarrow> fs. need (length (bytes_of f)))"

lemma entries_append: "entries n (fs @ [f]) = entries n fs @ entry (n + length fs) (shortname (fst f))"
  by (induction fs arbitrary: n) simp_all

lemma length_entry [simp]: "length (entry n nm) = 16"
  using cstrn_le[of 14 nm] by (simp add: entry_def)

lemma length_entries [simp]: "length (entries n fs) = 16 * length fs"
  by (induction fs arbitrary: n) simp_all

lemma target_name:
  assumes "0 \<in> set argv"
  shows "\<exists>c. strncmp argv target 7 = Inr c \<and> (if c = 0 then drop 7 argv else argv) = shortname argv" "0 \<in> set (shortname argv)"
proof -
  have t: "cstrn 7 target = map of_char ''target/''" by (simp add: cstrn_def target_def)
  have s: "scannable 7 argv" "scannable 7 target" using assms by (simp_all add: scannable_def target_def)
  show "\<exists>c. strncmp argv target 7 = Inr c \<and> (if c = 0 then drop 7 argv else argv) = shortname argv"
    using strncmp_spec[OF s] t by (auto simp: shortname_def)
  have "0 \<in> set (drop 7 argv)" if "cstrn 7 argv = map of_char ''target/''"
  proof -
    have "length (takeWhile (\<lambda>c. c \<noteq> 0) (take 7 argv)) = 7" using arg_cong[OF that, of length] by (simp add: cstrn_def)
    moreover have "takeWhile (\<lambda>c. c \<noteq> 0) (take 7 argv) = take (length (takeWhile (\<lambda>c. c \<noteq> 0) (take 7 argv))) (take 7 argv)"
      by (rule takeWhile_eq_take)
    ultimately have "takeWhile (\<lambda>c. c \<noteq> 0) (take 7 argv) = take 7 argv" by simp
    then have "0 \<notin> set (take 7 argv)" using takeWhile_eq_all_conv[of "\<lambda>c. c \<noteq> 0" "take 7 argv"] by blast
    moreover have "set argv = set (take 7 argv) \<union> set (drop 7 argv)" by (metis append_take_drop_id set_append)
    ultimately show ?thesis using assms by blast
  qed
  then show "0 \<in> set (shortname argv)" using assms by (simp add: shortname_def)
qed

section \<open>A new inode\<close>

lemma zero_inode:
  "din_size (replicate 64 0) = 0" "i \<le> 12 \<Longrightarrow> din_addr (replicate 64 0) i = 0" "get16 0 (replicate 64 0) = 0"
proof -
  have f: "from_le (replicate n 0) = (0 :: 'a::len word)" for n by (induction n) simp_all
  show "din_size (replicate 64 0) = 0" by (simp add: din_size_def get32_def f)
  show "i \<le> 12 \<Longrightarrow> din_addr (replicate 64 0) i = 0" by (simp add: din_addr_def get32_def f)
  show "get16 0 (replicate 64 0) = 0" by (simp add: get16_def f)
qed

lemma new_inode:
  fixes t :: u16
  shows
  "length (set_din_size (xint 0) (put_at 0 (to_le 2 t) (replicate 64 0))) = 64"
  "dsize (set_din_size (xint 0) (put_at 0 (to_le 2 t) (replicate 64 0))) = 0"
  "k \<le> 268 \<Longrightarrow> dslot I (set_din_size (xint 0) (put_at 0 (to_le 2 t) (replicate 64 0))) k = 0"
  "get16 0 (set_din_size (xint 0) (put_at 0 (to_le 2 t) (replicate 64 0))) = t"
proof -
  let ?d = "put_at 0 (to_le 2 t) (replicate 64 0)"
  have l: "length ?d = 64" by simp
  have a: "din_addr ?d i = 0" if "i \<le> 12" for i
    using zero_inode(2)[OF that] by (simp add: din_addr_def get32_put_other)
  show "length (set_din_size (xint 0) ?d) = 64" by (rule din_set(1)[OF l])
  show "dsize (set_din_size (xint 0) ?d) = 0" by (simp add: dsize_def din_set[OF l])
  show "k \<le> 268 \<Longrightarrow> dslot I (set_din_size (xint 0) ?d) k = 0" using dslot_size[OF l, of k] a by (simp add: dslot_def)
  show "get16 0 (set_din_size (xint 0) ?d) = t" using get16_put[of 0 "replicate 64 0" t] by (simp add: din_set[OF l])
qed

lemma nb_0 [simp]: "nb 0 = 0" "need 0 = 0"
  by (simp_all add: nb_def need_def)

text \<open>The inode \<open>n\<close> of a well-formed image replaced by an empty one.\<close>

lemma img_wf_empty:
  assumes "img_wf D I fb" "length d = 64" "dsize d = 0" "\<forall>k\<le>268. dslot I d k = 0"
  shows "img_wf (D(n := d)) I fb"
proof -
  have "dinode_wf I fb d" "own_blocks I d" using assms(2-4) by (simp_all add: dinode_wf_def present_def own_blocks_def)
  moreover have "disjoint_blocks I d (D m)" "disjoint_blocks I (D m) d" if "m < 208" for m
    using assms(4) by (auto simp: disjoint_blocks_def)
  ultimately show ?thesis using assms(1) by (auto simp: img_wf_def)
qed


lemma mk_wf_iblock:
  assumes "mk_wf s" "n < 208"
  shows "unat (IBLOCK (of_nat n) (m_sb s)) = n div 16 + 2" "n div 16 + 2 < 15" "length (img s (IBLOCK (of_nat n) (m_sb s))) = 1024"
proof -
  show u: "unat (IBLOCK (of_nat n) (m_sb s)) = n div 16 + 2" using iblock_bound[OF assms(2)] assms(1) by (simp add: mk_wf_def)
  show l: "n div 16 + 2 < 15" using assms(2) by (simp add: div_less_iff_less_mult)
  show "length (img s (IBLOCK (of_nat n) (m_sb s))) = 1024" using assms(1) u l unfolding mk_wf_def by simp
qed

text \<open>Writing the inode \<open>n\<close> of an image.\<close>

lemma winode_wf:
  assumes "mk_wf s" "n < 208" "length d = 64" "img_wf ((dn s)(n := d)) (img s) (unat (freeblock s))" "s' = winode (of_nat n) d s"
  shows "mk_wf s'" "dn s' n = d" "contents s' n = data (img s) d" "m < 208 \<Longrightarrow> m \<noteq> n \<Longrightarrow> dn s' m = dn s m"
    "m < 208 \<Longrightarrow> m \<noteq> n \<Longrightarrow> contents s' m = contents s m" "unat b < 2 \<or> 15 \<le> unat b \<Longrightarrow> img s' b = img s b"
    "freeinode s' = freeinode s" "freeblock s' = freeblock s" "m_sb s' = m_sb s"
proof -
  note ib = mk_wf_iblock[OF assms(1,2)]
  note fr = winode_frame[where n = "of_nat n" and din = d and s = s, folded assms(5)]
  show "freeinode s' = freeinode s" "freeblock s' = freeblock s" "m_sb s' = m_sb s" by (rule fr)+
  have out: "img s' b = img s b" if "unat b < 2 \<or> 15 \<le> unat b" for b
  proof -
    have "b \<noteq> IBLOCK (of_nat n) (m_sb s)" using that ib(1,2) by auto
    then show ?thesis by (rule fr(4))
  qed
  then show "unat b < 2 \<or> 15 \<le> unat b \<Longrightarrow> img s' b = img s b" .
  have dm: "dn s' m = (if m = n then d else dn s m)" if "m < 208" for m
  proof -
    have "(of_nat m :: u32) = of_nat n \<longleftrightarrow> m = n" using that assms(2) by (simp add: word_unat_eq_iff unat_of_nat_u32)
    then show ?thesis using rinode_winode[OF assms(3) ib(3), of "of_nat m"] assms(5) by (simp add: dn_def)
  qed
  then show d: "dn s' n = d" and "m < 208 \<Longrightarrow> m \<noteq> n \<Longrightarrow> dn s' m = dn s m" using assms(2) by simp_all
  have hi: "\<forall>b. 16 \<le> unat b \<longrightarrow> img s' b = img s b" using out by simp
  note cg = img_wf_cong[OF hi assms(4)]
  have eq: "\<forall>m<208. dn s' m = ((dn s)(n := d)) m" using dm by simp
  have "img_wf (dn s') (img s') (unat (freeblock s'))"
    unfolding img_wf_eq[of "dn s'" "(dn s)(n := d)", OF eq] fr(3) by (rule cg(1))
  moreover have "length (img s' b) = 1024" if "unat b < 16" for b
    using fr(5)[OF assms(3)] assms(1) that by (simp add: mk_wf_def)
  ultimately show "mk_wf s'" using assms(1) fr(1) by (simp add: mk_wf_def)
  show "contents s' n = data (img s) d" using cg(2)[OF assms(2)] d by (simp add: contents_def)
  show "contents s' m = contents s m" if "m < 208" "m \<noteq> n" using cg(2)[OF that(1)] dm[OF that(1)] that(2) by (simp add: contents_def)
qed

lemma ialloc_ok:
  assumes "mk_wf s" "freeinode s = of_nat n" "n < 208"
  shows "\<exists>s'. ialloc_m t s = (of_nat n, s') \<and> mk_wf s' \<and> contents s' n = [] \<and> itype s' n = t \<and>
    (\<forall>m<208. m \<noteq> n \<longrightarrow> contents s' m = contents s m \<and> itype s' m = itype s m) \<and>
    (\<forall>b. unat b < 2 \<or> unat b = 15 \<longrightarrow> img s' b = img s b) \<and> freeinode s' = of_nat (Suc n) \<and> freeblock s' = freeblock s"
proof -
  let ?d = "set_din_size (xint 0) (put_at 0 (to_le 2 t) (replicate 64 0))"
  let ?s = "s\<lparr>freeinode := freeinode s + 1\<rparr>"
  let ?s' = "winode (of_nat n) ?d ?s"
  note d = new_inode[where t = t]
  have s0: "dn ?s = dn s" "contents ?s = contents s" by (simp_all add: dn_def contents_def rinode_def rsect_def fun_eq_iff)
  have w: "mk_wf ?s" using assms(1) by (simp add: mk_wf_def s0(1))
  have "img_wf (dn ?s) (img ?s) (unat (freeblock ?s))" using w by (simp add: mk_wf_def)
  from img_wf_empty[OF this d(1,2)] have e: "img_wf ((dn ?s)(n := ?d)) (img ?s) (unat (freeblock ?s))" using d(3) by simp
  note ww = winode_wf[OF w assms(3) d(1) e refl]
  have "contents ?s' n = []" using ww(3) d(2) by (simp add: data_def)
  moreover have "itype ?s' n = t" using ww(2) d(4) by (simp add: itype_def)
  moreover have "contents ?s' m = contents s m \<and> itype ?s' m = itype s m" if "m < 208" "m \<noteq> n" for m
    using ww(4,5)[OF that] by (simp add: s0 itype_def)
  moreover have "img ?s' b = img s b" if "unat b < 2 \<or> unat b = 15" for b
  proof -
    have "unat b < 2 \<or> 15 \<le> unat b" using that by auto
    from ww(6)[OF this] show ?thesis by simp
  qed
  moreover have "freeinode ?s' = of_nat (Suc n)" "freeblock ?s' = freeblock s" using ww(7,8) assms(2) by simp_all
  moreover have "ialloc_m t s = (of_nat n, ?s')" using assms(2) by (simp add: ialloc_m_def Let_def)
  ultimately show ?thesis using ww(1) by blast
qed

section \<open>Adding files\<close>

text \<open>The image after the files \<open>fs\<close> have been added.\<close>

definition built :: "(u8 list \<times> u8 list list) list \<Rightarrow> mkfs \<Rightarrow> bool" where
  "built fs s \<longleftrightarrow> mk_wf s \<and> freeinode s = of_nat (length fs + 2) \<and> length fs \<le> 206 \<and>
     contents s 1 = entries 2 fs \<and> itype s 1 = 1 \<and>
     (\<forall>i<length fs. contents s (i + 2) = bytes_of (fs ! i) \<and> itype s (i + 2) = 2) \<and>
     unat (freeblock s) = 16 + blocks fs \<and> (\<forall>b. unat b < 2 \<or> unat b = 15 \<longrightarrow> img s b = img mkfs_start b)"

text \<open>Chunks are appended one after the other.\<close>

lemma append_chunks:
  assumes "mk_wf s" "n < 208" "length (contents s n @ concat cs) \<le> 274432"
    "unat (freeblock s) + need (length (contents s n @ concat cs)) \<le> 1000 + need (length (contents s n))"
  shows "\<exists>s'. fold (\<lambda>ch r. bindE r (iappend (of_nat n) ch)) cs (Inr s) = Inr s' \<and> grown n (concat cs) s s'"
  using assms
proof (induction cs arbitrary: s)
  case Nil
  then show ?case by (simp add: grown_def)
next
  case (Cons c cs)
  have "length (contents s n @ c) \<le> 274432" using Cons.prems(3) by simp
  moreover have "unat (freeblock s) + need (length (contents s n @ c)) \<le> 1000 + need (length (contents s n))"
    using Cons.prems(4) need_mono[of "length (contents s n @ c)" "length (contents s n @ concat (c # cs))"] by simp
  ultimately obtain s1 where s1: "iappend (of_nat n) c s = Inr s1" "grown n c s s1"
    using iappend_ok[OF Cons.prems(1,2)] by blast
  have g: "mk_wf s1" "contents s1 n = contents s n @ c"
    "unat (freeblock s1) + need (length (contents s n)) = unat (freeblock s) + need (length (contents s n @ c))"
    using s1(2) by (simp_all add: grown_def)
  have "length (contents s1 n @ concat cs) \<le> 274432"
    "unat (freeblock s1) + need (length (contents s1 n @ concat cs)) \<le> 1000 + need (length (contents s1 n))"
    using Cons.prems(3,4) g(2,3) by simp_all
  then obtain s2 where s2: "fold (\<lambda>ch r. bindE r (iappend (of_nat n) ch)) cs (Inr s1) = Inr s2" "grown n (concat cs) s1 s2"
    using Cons.IH[OF g(1) Cons.prems(2)] by blast
  have "grown n (concat (c # cs)) s s2" using s1(2) s2(2) by (simp add: grown_def)
  then show ?case using s1(1) s2(1) by simp
qed


lemma entry_strncpy:
  assumes "0 \<in> set nm"
  shows "\<exists>e. strncpy (replicate 14 0) nm 14 = Inr e \<and> to_le 2 (xshort (ucast (of_nat n :: u32))) @ e = entry n nm"
proof -
  have "scannable 14 nm" using assms by (simp add: scannable_def)
  then have "strncpy (replicate 14 0) nm 14 = Inr (cstrn 14 nm @ replicate (14 - length (cstrn 14 nm)) 0 @ drop 14 (replicate 14 0))"
    by (intro strncpy_spec) simp
  moreover have "ucast (of_nat n :: u32) = (of_nat n :: u16)" by (rule bit_word_eqI) (simp add: bit_simps)
  ultimately show ?thesis by (simp add: entry_def)
qed

lemma add_file_unfold:
  assumes "file_ok f" "ialloc_m 2 s = (of_nat n, s1)"
  shows "add_file r f s = bindE (iappend r (entry n (shortname (fst f))) s1) (\<lambda>s.
    fold (\<lambda>ch r. bindE r (iappend (of_nat n) ch)) (snd f) (Inr s))"
proof -
  obtain argv chunks where f: "f = (argv, chunks)" by (cases f)
  have z: "0 \<in> set argv" "of_char (CHR ''/'') \<notin> set (takeWhile (\<lambda>c. c \<noteq> 0) (shortname argv))"
    using assms(1) f by (simp_all add: file_ok_def)
  obtain c where c: "strncmp argv target 7 = Inr c" "(if c = 0 then drop 7 argv else argv) = shortname argv"
    using target_name(1)[OF z(1)] by blast
  note z0 = target_name(2)[OF z(1)]
  obtain e where e: "strncpy (replicate 14 0) (shortname argv) 14 = Inr e"
    "to_le 2 (xshort (ucast (of_nat n :: u32))) @ e = entry n (shortname argv)" using entry_strncpy[OF z0] by blast
  have t: "take (length (takeWhile (\<lambda>c. c \<noteq> 0) (shortname argv))) (shortname argv) = takeWhile (\<lambda>c. c \<noteq> 0) (shortname argv)"
    by (rule takeWhile_eq_take[symmetric])
  show ?thesis
    unfolding add_file_def f prod.case c(1) bindE.simps Let_def c(2) strlen_spec[OF z0] t assms(2) e(1) e(2)
    using z(2) by simp
qed

lemma add_file_ok:
  assumes "built fs s" "file_ok f" "length fs < 206" "16 + blocks (fs @ [f]) \<le> 1000"
  shows "\<exists>s'. add_file 1 f s = Inr s' \<and> built (fs @ [f]) s'"
proof -
  let ?n = "length fs + 2" let ?e = "entry ?n (shortname (fst f))"
  have b: "mk_wf s" "freeinode s = of_nat ?n" "contents s 1 = entries 2 fs" "itype s 1 = 1"
    "\<forall>i<length fs. contents s (i + 2) = bytes_of (fs ! i) \<and> itype s (i + 2) = 2" "unat (freeblock s) = 16 + blocks fs"
    "\<forall>b. unat b < 2 \<or> unat b = 15 \<longrightarrow> img s b = img mkfs_start b" using assms(1) by (simp_all add: built_def)
  have n: "?n < 208" "1 \<noteq> ?n" using assms(3) by simp_all
  obtain s1 where s1: "ialloc_m 2 s = (of_nat ?n, s1)" "mk_wf s1" "contents s1 ?n = []" "itype s1 ?n = 2"
    "\<forall>m<208. m \<noteq> ?n \<longrightarrow> contents s1 m = contents s m \<and> itype s1 m = itype s m"
    "\<forall>b. unat b < 2 \<or> unat b = 15 \<longrightarrow> img s1 b = img s b" "freeinode s1 = of_nat (Suc ?n)" "freeblock s1 = freeblock s"
    using ialloc_ok[OF b(1,2) n(1), of 2] by blast
  have c1: "contents s1 1 = entries 2 fs" "itype s1 1 = 1" using s1(5) b(3,4) n(2) by simp_all
  have bl: "blocks (fs @ [f]) + need (16 * length fs) = blocks fs + need (16 * length fs + 16) + need (length (bytes_of f))"
  proof -
    have e: "16 * length (fs @ [f]) = 16 * length fs + 16" by simp
    show ?thesis unfolding blocks_def e by simp
  qed
  have "length (contents s1 1 @ ?e) \<le> 274432" using c1(1) assms(3) by simp
  moreover have "unat (freeblock s1) + need (length (contents s1 1 @ ?e)) \<le> 1000 + need (length (contents s1 1))"
    using bl assms(4) c1(1) b(6) s1(8) by (simp add: add.commute)
  ultimately obtain s2 where s2: "iappend (of_nat 1) ?e s1 = Inr s2" "grown 1 ?e s1 s2"
    using iappend_ok[OF s1(2), of 1 ?e] by auto
  have g2: "mk_wf s2" "contents s2 1 = entries 2 fs @ ?e" "contents s2 ?n = []" "itype s2 1 = 1" "itype s2 ?n = 2"
    "unat (freeblock s2) + need (16 * length fs) = unat (freeblock s) + need (16 * length fs + 16)"
    using s2(2) c1 s1(3,4,8) n by (simp_all add: grown_def)
  have "length (contents s2 ?n @ concat (snd f)) \<le> 274432" using g2(3) assms(2) by (simp add: file_ok_def bytes_of_def)
  moreover have "unat (freeblock s2) + need (length (contents s2 ?n @ concat (snd f))) \<le> 1000 + need (length (contents s2 ?n))"
    using g2(3,6) bl assms(4) b(6) by (simp add: bytes_of_def)
  ultimately obtain s3 where s3: "fold (\<lambda>ch r. bindE r (iappend (of_nat ?n) ch)) (snd f) (Inr s2) = Inr s3" "grown ?n (concat (snd f)) s2 s3"
    using append_chunks[OF g2(1) n(1)] by blast
  have fin: "add_file 1 f s = Inr s3" unfolding add_file_unfold[OF assms(2) s1(1)] using s2(1) s3(1) by simp
  have old: "contents s3 (i + 2) = bytes_of ((fs @ [f]) ! i) \<and> itype s3 (i + 2) = 2" if i: "i < Suc (length fs)" for i
  proof (cases "i = length fs")
    case True
    then show ?thesis using s3(2) g2(3,5) n by (simp add: grown_def bytes_of_def)
  next
    case False
    then have "i < length fs" "i + 2 < 208" "i + 2 \<noteq> ?n" "i + 2 \<noteq> 1" using i n by simp_all
    then show ?thesis using s3(2) s2(2) s1(5) b(5) n by (simp add: grown_def nth_append)
  qed
  have "unat (freeblock s3) = 16 + blocks (fs @ [f])" using s3(2) g2(3,6) bl b(6) by (simp add: grown_def bytes_of_def)
  moreover have "contents s3 1 = entries 2 (fs @ [f])" "itype s3 1 = 1"
    using s3(2) g2(2,4) n by (simp_all add: grown_def entries_append add.commute)
  moreover have "freeinode s3 = of_nat (length (fs @ [f]) + 2)" using s3(2) s2(2) s1(7) by (simp add: grown_def)
  moreover have "\<forall>b. unat b < 2 \<or> unat b = 15 \<longrightarrow> img s3 b = img mkfs_start b"
    using s3(2) s2(2) s1(6) b(7) unfolding grown_def by metis
  ultimately have "built (fs @ [f]) s3" using s3(2) old assms(3) by (simp add: built_def grown_def)
  then show ?thesis using fin by blast
qed


lemma blocks_mono: "blocks fs \<le> blocks (fs @ gs)"
  using need_mono[of "16 * length fs" "16 * length (fs @ gs)"] by (simp add: blocks_def)

lemma add_files_ok:
  assumes "built fs s" "\<forall>f \<in> set gs. file_ok f" "length (fs @ gs) \<le> 206" "16 + blocks (fs @ gs) \<le> 1000"
  shows "\<exists>s'. add_files 1 gs s = Inr s' \<and> built (fs @ gs) s'"
  using assms
proof (induction gs arbitrary: fs s)
  case (Cons g gs)
  have "16 + blocks (fs @ [g]) \<le> 1000" using Cons.prems(4) blocks_mono[of "fs @ [g]" gs] by simp
  then obtain s1 where s1: "add_file 1 g s = Inr s1" "built (fs @ [g]) s1"
    using add_file_ok[OF Cons.prems(1), of g] Cons.prems(2,3) by auto
  have "\<exists>s'. add_files 1 gs s1 = Inr s' \<and> built ((fs @ [g]) @ gs) s'"
    using Cons.prems(2-4) by (intro Cons.IH[OF s1(2)]) simp_all
  then show ?case using s1(1) by simp
qed auto

section \<open>The empty image\<close>

lemma fold_zero:
  "n \<le> 1000 \<Longrightarrow> fold (\<lambda>i. wsect (of_nat i) z) [0..<n] s = s\<lparr>img := \<lambda>b. if unat b < n then z else img s b\<rparr>"
proof (induction n)
  case (Suc n)
  have "b = (of_nat n :: u32) \<longleftrightarrow> unat b = n" for b using Suc.prems by (auto simp: word_unat_eq_iff unat_of_nat_u32)
  then show ?case using Suc by (auto simp: wsect_def fun_eq_iff less_Suc_eq)
qed simp

lemma nmeta_16: "nmeta = 16"
  by (simp add: nmeta_def ninodeblocks_def nbitmap_def)

lemma mkfs_start_fields:
  "img mkfs_start b = (if b = 1 then put_at 0 (sb_bytes make_sb) (replicate 1024 0) else if unat b < 1000 then replicate 1024 0 else [])"
  "m_sb mkfs_start = make_sb" "freeinode mkfs_start = 1" "freeblock mkfs_start = 16"
  by (simp_all add: mkfs_start_def Let_def fold_zero nmeta_16 wsect_def)

lemma mkfs_start_wf: "mk_wf mkfs_start" "n < 208 \<Longrightarrow> contents mkfs_start n = []"
proof -
  have i: "img mkfs_start b = replicate 1024 0" if "b \<noteq> 1" "unat b < 1000" for b using that by (simp add: mkfs_start_fields)
  have d: "dn mkfs_start n = replicate 64 0" if "n < 208" for n
  proof -
    note ib = iblock_bound[OF that]
    have "n div 16 + 2 < 1000" using that by (simp add: div_less_iff_less_mult)
    then have "img mkfs_start (IBLOCK (of_nat n) make_sb) = replicate 1024 0" using ib by (intro i) auto
    then show ?thesis using dinode_off_bound[of "of_nat n"] by (simp add: dn_def rinode_def rsect_def mkfs_start_fields(2) min_def)
  qed
  have s0: "dsize (replicate 64 0) = 0" "\<And>I k. k \<le> 268 \<Longrightarrow> dslot I (replicate 64 0) k = 0"
    using zero_inode by (simp_all add: dsize_def dslot_def)
  have w: "dinode_wf I 16 (replicate 64 0) \<and> own_blocks I (replicate 64 0) \<and> disjoint_blocks I (replicate 64 0) (replicate 64 0)" for I
    using s0 by (simp add: dinode_wf_def own_blocks_def disjoint_blocks_def present_def)
  have "length (img mkfs_start b) = 1024" if "unat b < 1000" for b
    using that by (simp add: mkfs_start_fields sb_bytes_def)
  moreover have "free_wf (img mkfs_start) 16"
  proof -
    have "img mkfs_start b = replicate 1024 0" if "16 \<le> unat b" "unat b < 1000" for b
      using that by (intro i) auto
    then show ?thesis by (simp add: free_wf_def)
  qed
  moreover from this have "img_wf (dn mkfs_start) (img mkfs_start) 16" using d w by (simp add: img_wf_def)
  ultimately show "mk_wf mkfs_start" by (simp add: mk_wf_def mkfs_start_fields)
  show "n < 208 \<Longrightarrow> contents mkfs_start n = []" using d s0(1) by (simp add: contents_def data_def)
qed

lemma built_root: "\<exists>s. ialloc_m 1 mkfs_start = (1, s) \<and> built [] s"
proof -
  obtain s where s: "ialloc_m 1 mkfs_start = (of_nat 1, s)" "mk_wf s" "contents s 1 = []" "itype s 1 = 1"
    "\<forall>b. unat b < 2 \<or> unat b = 15 \<longrightarrow> img s b = img mkfs_start b" "freeinode s = of_nat (Suc 1)" "freeblock s = freeblock mkfs_start"
    using ialloc_ok[OF mkfs_start_wf(1), of 1 1] by (auto simp: mkfs_start_fields)
  then have "built [] s" by (simp add: built_def blocks_def mkfs_start_fields)
  then show ?thesis using s(1) by auto
qed

section \<open>The bitmap\<close>

lemma mark_loop_mark: "mark_loop (Suc i) = mark i (mark_loop i)"
  by (simp add: mark_def bmask_def Let_def)

lemma mark_loop_bits: "n \<le> 8192 \<Longrightarrow> length (mark_loop n) = 1024 \<and> (\<forall>k<8192. bit_at (mark_loop n) k \<longleftrightarrow> k < n)"
proof (induction n)
  case 0
  then show ?case by (simp add: bit_at_def div_less_iff_less_mult)
next
  case (Suc n)
  then have "n div 8 < length (mark_loop n)" by (simp add: div_less_iff_less_mult)
  then show ?case using Suc bit_at_mark[of n "mark_loop n"] unfolding mark_loop_mark by auto
qed


section \<open>The root directory and the end\<close>

text \<open>A file is extended with the zeros at the end of its last block.\<close>

lemma img_wf_resize:
  assumes "img_wf D I fb" "n < 208" "dsize (D n) \<le> z" "nb z = nb (dsize (D n))" "z \<le> 274432"
    and d: "d = set_din_size (of_nat z) (D n)"
  shows "img_wf (D(n := d)) I fb" "data I d = data I (D n) @ replicate (z - dsize (D n)) 0" "dsize d = z" "get16 0 d = get16 0 (D n)"
proof -
  have w: "dinode_wf I fb (D n)" "own_blocks I (D n)" using assms(1,2) by (simp_all add: img_wf_def)
  note dw = dinode_wfD[OF w(1)]
  have "unat (of_nat z :: u32) = z" using assms(5) by (intro unat_of_nat_u32) simp
  then show z: "dsize d = z" by (simp add: d dsize_def din_set[OF dw(1)])
  show "get16 0 d = get16 0 (D n)" by (simp add: d din_set[OF dw(1)])
  have l: "length d = 64" by (simp add: d din_set[OF dw(1)])
  have sl: "dslot I d k = dslot I (D n) k" if "k \<le> 268" for k using dslot_size[OF dw(1) that] d by simp
  have bt: "dbyte I d p = dbyte I (D n) p" if "p < 1024 * nb z" for p
  proof -
    have "p div 1024 < nb z" using that by (simp add: div_less_iff_less_mult mult.commute)
    then have "p div 1024 \<le> 268" using nb_le[OF dw(2)] assms(4) by simp
    then show ?thesis by (simp add: dbyte_def sl)
  qed
  have tail: "dbyte I d p = 0" if "dsize (D n) \<le> p" "p < 1024 * nb z" for p
    using bt[OF that(2)] dw(5)[OF that(1)] that(2) assms(4) by simp
  show "data I d = data I (D n) @ replicate (z - dsize (D n)) 0"
  proof (rule nth_equalityI)
    fix p assume "p < length (data I d)"
    then have p: "p < z" by (simp add: data_def z)
    then have "p < 1024 * nb z" using nb_cover less_le_trans by blast
    then show "data I d ! p = (data I (D n) @ replicate (z - dsize (D n)) 0) ! p"
      using p bt tail by (simp add: data_def z nth_append)
  qed (use assms(3) in \<open>simp add: data_def z\<close>)
  have "dinode_wf I fb d" unfolding dinode_wf_def z
  proof (intro conjI allI impI)
    fix k :: nat assume k: "k \<le> 268"
    show "dslot I d k \<noteq> 0 \<longleftrightarrow> present z k" using dw(3)[OF k] sl[OF k] assms(4) by (simp add: present_def)
    show "dslot I d k \<noteq> 0 \<Longrightarrow> 16 \<le> unat (dslot I d k)" "dslot I d k \<noteq> 0 \<Longrightarrow> unat (dslot I d k) < fb"
      using dw(4)[OF k] sl[OF k] by simp_all
  qed (use assms(3,5) l tail in simp_all)
  moreover have "own_blocks I d" using w(2) sl by (simp add: own_blocks_def)
  moreover have "disjoint_blocks I d (D m) \<and> disjoint_blocks I (D m) d" if "m < 208" "m \<noteq> n" for m
    using assms(1,2) that sl by (simp add: img_wf_def disjoint_blocks_def)
  ultimately show "img_wf (D(n := d)) I fb" using assms(1) by (simp add: img_wf_def)
qed

text \<open>The finished image.\<close>

definition imaged :: "(u8 list \<times> u8 list list) list \<Rightarrow> mkfs \<Rightarrow> bool" where
  "imaged fs s \<longleftrightarrow> mk_wf s \<and> contents s 1 = entries 2 fs @ replicate (1024 - 16 * length fs mod 1024) 0 \<and> itype s 1 = 1 \<and>
     (\<forall>i<length fs. contents s (i + 2) = bytes_of (fs ! i) \<and> itype s (i + 2) = 2) \<and>
     (\<forall>k<8192. bit_at (img s 15) k \<longleftrightarrow> k < 16 + blocks fs) \<and> img s 1 = put_at 0 (sb_bytes make_sb) (replicate 1024 0) \<and>
     unat (freeblock s) = 16 + blocks fs"

definition files_ok :: "(u8 list \<times> u8 list list) list \<Rightarrow> bool" where
  "files_ok fs \<longleftrightarrow> (\<forall>f \<in> set fs. file_ok f) \<and> length fs \<le> 206 \<and> 16 + blocks fs \<le> 1000 \<and> \<not> 64 dvd length fs"

lemma balloc_image:
  assumes "mk_wf s" "unat (freeblock s) \<le> 1000"
  shows "\<exists>s'. balloc_m (freeblock s) s = Inr s' \<and> mk_wf s' \<and> (\<forall>n<208. itype s' n = itype s n \<and> contents s' n = contents s n) \<and>
    (\<forall>k<8192. bit_at (img s' 15) k \<longleftrightarrow> k < unat (freeblock s)) \<and> img s' 1 = img s 1 \<and> freeblock s' = freeblock s"
proof -
  let ?s' = "wsect 15 (mark_loop (unat (freeblock s))) s"
  have "sb_bmapstart (m_sb s) = 15" using assms(1) by (simp add: mk_wf_def make_sb_def ninodeblocks_def)
  then have ba: "balloc_m (freeblock s) s = Inr ?s'" using assms(2) by (simp add: balloc_m_def)
  have f: "m_sb ?s' = m_sb s" "freeblock ?s' = freeblock s" "\<And>b. b \<noteq> 15 \<Longrightarrow> img ?s' b = img s b"
    "img ?s' 15 = mark_loop (unat (freeblock s))" by (simp_all add: wsect_def)
  have ml: "length (mark_loop (unat (freeblock s))) = 1024" "\<forall>k<8192. bit_at (mark_loop (unat (freeblock s))) k \<longleftrightarrow> k < unat (freeblock s)"
    using mark_loop_bits[of "unat (freeblock s)"] assms(2) by simp_all
  have d: "dn ?s' n = dn s n" if "n < 208" for n
  proof -
    have "IBLOCK (of_nat n) (m_sb s) \<noteq> 15" using mk_wf_iblock(1,2)[OF assms(1) that] by auto
    then show ?thesis by (simp add: dn_def rinode_def rsect_def f)
  qed
  have hi: "\<forall>b. 16 \<le> unat b \<longrightarrow> img ?s' b = img s b"
  proof (intro allI impI)
    fix b :: u32 assume "16 \<le> unat b"
    then have "b \<noteq> 15" by auto
    then show "img ?s' b = img s b" by (rule f(3))
  qed
  have w: "img_wf (dn s) (img s) (unat (freeblock s))" using assms(1) by (simp add: mk_wf_def)
  note cg = img_wf_cong[OF hi w]
  have eq: "\<forall>n<208. dn ?s' n = dn s n" using d by simp
  have "img_wf (dn ?s') (img ?s') (unat (freeblock ?s'))" unfolding img_wf_eq[OF eq] f(2) by (rule cg(1))
  moreover have "length (img ?s' b) = 1024" if "unat b < 16" for b
    using assms(1) that ml(1) f(3,4) by (cases "b = 15") (simp_all add: mk_wf_def)
  ultimately have "mk_wf ?s'" using assms(1) f(1) by (simp add: mk_wf_def)
  moreover have "itype ?s' n = itype s n \<and> contents ?s' n = contents s n" if "n < 208" for n
    using d[OF that] cg(2)[OF that] by (simp add: itype_def contents_def)
  moreover have "img ?s' 1 = img s 1" by (rule f(3)) simp
  ultimately show ?thesis using ba ml(2) f(2,4) by (intro exI[of _ ?s']) simp
qed

lemma mkfs_main_ok:
  assumes "files_ok fs"
  shows "\<exists>s. mkfs_main fs = Inr s \<and> imaged fs s"
proof -
  have ok: "\<forall>f \<in> set fs. file_ok f" "length fs \<le> 206" "16 + blocks fs \<le> 1000" "\<not> 64 dvd length fs"
    using assms by (simp_all add: files_ok_def)
  obtain s0 where s0: "ialloc_m 1 mkfs_start = (1, s0)" "built [] s0" using built_root by blast
  obtain s1 where s1: "add_files 1 fs s0 = Inr s1" "built fs s1" using add_files_ok[OF s0(2) ok(1)] ok(2,3) by auto
  have b: "mk_wf s1" "contents s1 1 = entries 2 fs" "itype s1 1 = 1"
    "\<forall>i<length fs. contents s1 (i + 2) = bytes_of (fs ! i) \<and> itype s1 (i + 2) = 2" "unat (freeblock s1) = 16 + blocks fs"
    "\<forall>b. unat b < 2 \<or> unat b = 15 \<longrightarrow> img s1 b = img mkfs_start b" using s1(2) by (simp_all add: built_def)
  define z where "z = 16 * length fs"
  let ?z' = "(z div 1024 + 1) * 1024"
  have z: "dsize (dn s1 1) = z" using arg_cong[OF b(2), of length] by (simp add: length_contents z_def)
  have m: "z mod 1024 \<noteq> 0" "z < 4096" using ok(2,4) by (auto simp: z_def mod_eq_0_iff_dvd)
  have zz: "z = 1024 * (z div 1024) + z mod 1024" by simp
  have ml: "z mod 1024 < 1024" by simp
  have z': "z \<le> ?z'" "?z' - z = 1024 - z mod 1024"
  proof -
    have "t = 1024 * q + r \<Longrightarrow> r < 1024 \<Longrightarrow> t \<le> (q + 1) * 1024 \<and> (q + 1) * 1024 - t = 1024 - r" for t q r :: nat by simp
    from this[OF zz ml] show "z \<le> ?z'" "?z' - z = 1024 - z mod 1024" by blast+
  qed
  have zb: "?z' \<le> 274432" using z'(2) m by linarith
  have "nb ?z' = z div 1024 + 1" by (simp add: nb_def)
  moreover have "nb z = z div 1024 + 1"
  proof -
    have "z + 1023 = 1024 * (z div 1024 + 1) + (z mod 1024 - 1)"
    proof -
      have "t = 1024 * q + r \<Longrightarrow> r \<noteq> 0 \<Longrightarrow> t + 1023 = 1024 * (q + 1) + (r - 1)" for t q r :: nat by simp
      from this[OF zz m(1)] show ?thesis .
    qed
    then show ?thesis using ml by (simp add: nb_def)
  qed
  ultimately have nbe: "nb ?z' = nb (dsize (dn s1 1))" unfolding z by (rule trans[OF _ sym])
  define d where "d = set_din_size (of_nat ?z') (dn s1 1)"
  let ?s2 = "winode (of_nat 1) d s1"
  have iw: "img_wf (dn s1) (img s1) (unat (freeblock s1))" using b(1) by (simp add: mk_wf_def)
  have n1: "1 < (208 :: nat)" by simp
  have zle: "dsize (dn s1 1) \<le> ?z'" using z z'(1) by simp
  note rs = img_wf_resize[OF iw n1 zle nbe zb d_def]
  have "dinode_wf (img s1) (unat (freeblock s1)) (((dn s1)(1 := d)) 1)" using rs(1) n1 unfolding img_wf_def by blast
  then have l: "length d = 64" by (simp add: dinode_wf_def)
  note ww = winode_wf[OF b(1) n1 l rs(1) refl]
  have c2: "contents ?s2 1 = entries 2 fs @ replicate (1024 - z mod 1024) 0"
    using ww(3) rs(2) b(2) z z'(2) by (simp add: contents_def)
  have i2: "itype ?s2 1 = 1" using ww(2) rs(4) b(3) by (simp add: itype_def)
  have dsz: "din_size (dn s1 1) = of_nat z" using z m(2) by (simp add: dsize_def word_unat_eq_iff unat_of_nat_u32)
  have offw: "(of_nat z :: u32) div 1024 = of_nat (z div 1024)"
    using m(2) by (simp add: word_unat_eq_iff unat_div unat_of_nat_u32)
  have fb2: "unat (freeblock ?s2) \<le> 1000" using ww(8) b(5) ok(3) by simp
  obtain s3 where s3: "balloc_m (freeblock ?s2) ?s2 = Inr s3" "mk_wf s3" "\<forall>n<208. itype s3 n = itype ?s2 n \<and> contents s3 n = contents ?s2 n"
    "\<forall>k<8192. bit_at (img s3 15) k \<longleftrightarrow> k < unat (freeblock ?s2)" "img s3 1 = img ?s2 1" "freeblock s3 = freeblock ?s2"
    using balloc_image[OF ww(1) fb2] by blast
  have "mkfs_main fs = Inr s3"
    using s0(1) s1(1) s3(1) dsz by (simp add: mkfs_main_def Let_def offw dn_def[of s1 1, simplified] d_def[unfolded dn_def, simplified] add.commute)
  moreover have "img s3 1 = put_at 0 (sb_bytes make_sb) (replicate 1024 0)"
    using s3(5) ww(6)[of 1] b(6) by (simp add: mkfs_start_fields)
  moreover have "contents s3 (i + 2) = bytes_of (fs ! i) \<and> itype s3 (i + 2) = 2" if "i < length fs" for i
    using s3(3) ww(4,5)[of "i + 2"] b(4) that ok(2) by (simp add: itype_def)
  ultimately have "imaged fs s3"
    using s3(2-4,6) c2 i2 ww(8) b(5) n1 unfolding imaged_def z_def by simp
  then show ?thesis using \<open>mkfs_main fs = Inr s3\<close> by blast
qed

end
