(* ===== verification/FsFile.thy ===== *)
theory FsFile
  imports FsInodes
begin

text \<open>
  The blocks of a file: \<open>bmap\<close> finds the block of each index through the direct addresses and the
  indirect block, allocating what is missing, and does not change the contents of the file.
\<close>

section \<open>States between system calls\<close>

definition idle_fs :: "'a kdisk_scheme \<Rightarrow> bool" where
  "idle_fs s \<longleftrightarrow> synced s \<and> (\<forall>i. refs s i = 0)"

lemma idle_ready: "idle_fs s \<Longrightarrow> ready s"
  by (auto simp: idle_fs_def ready_def intro!: exI[of _ 0])

lemma idle_rest: "idle_fs s \<Longrightarrow> ready s' \<Longrightarrow> rest s' = rest s \<Longrightarrow> idle_fs s'"
  by (simp add: idle_fs_def ready_def rest_def)

text \<open>The kernel apart from disk, buffers and inode table.\<close>

definition nofs :: "'a kfs_scheme \<Rightarrow> 'a kfs_scheme" where
  "nofs s = nodisk (s\<lparr>itable := []\<rparr>)"

lemma nofs_nodisk: "nodisk s' = nodisk s \<Longrightarrow> nofs s' = nofs s"
proof -
  assume e: "nodisk s' = nodisk s"
  have c: "nofs x = (nodisk x)\<lparr>itable := []\<rparr>" for x :: "'a kfs_scheme" by (cases x) (simp add: nofs_def nodisk_def)
  show ?thesis unfolding c e ..
qed

lemma nofs_rest: "rest s' = rest s \<Longrightarrow> nofs s' = nofs s"
  by (rule nofs_nodisk, rule rest_nodisk)

lemma nofs_upd_inode [simp]: "nofs (upd_inode ip f s) = nofs s"
  by (simp add: nofs_def upd_inode_def)

lemma nofs_sb: "nofs s' = nofs s \<Longrightarrow> sb s' = sb s"
proof -
  assume e: "nofs s' = nofs s"
  from arg_cong[OF e, of sb] show ?thesis by (simp add: nofs_def nodisk_def)
qed

lemma upd_inode_disk_fields [simp]: "used (upd_inode ip f s) = used s" "nblocks (upd_inode ip f s) = nblocks s"
  "bmap_block (upd_inode ip f s) = bmap_block s" "bitmap_wf (upd_inode ip f s) = bitmap_wf s"
  by (simp_all add: used_def nblocks_def bmap_block_def bitmap_wf_def fun_eq_iff)

lemma synced_upd_inode [simp]: "synced (upd_inode ip f s) = synced s" "refs (upd_inode ip f s) = refs s"
  "idle_fs (upd_inode ip f s) = idle_fs s"
  by (simp_all add: synced_def upd_inode_def cache_inv_def refs_def holds_def idle_fs_def fun_eq_iff)

section \<open>Well-formed files\<close>

text \<open>
  Blocks that may belong to inode \<open>n\<close>: in range, marked used, and not part of the bitmap or of
  the inode itself. Marked used are also the boot block, the bitmap and the block of the inode.
\<close>

definition good :: "'a kfs_scheme \<Rightarrow> u32 \<Rightarrow> u32 \<Rightarrow> bool" where
  "good s n x \<longleftrightarrow> x \<noteq> 0 \<and> unat x < nblocks s \<and> used s (unat x) \<and> (\<forall>b < nblocks s. x \<noteq> bmap_block s b) \<and> x \<noteq> IBLOCK n (sb s)"

definition meta_wf :: "'a kfs_scheme \<Rightarrow> u32 \<Rightarrow> bool" where
  "meta_wf s n \<longleftrightarrow> bitmap_wf s \<and> 0 < nblocks s \<and> used s 0 \<and> unat (IBLOCK n (sb s)) < nblocks s \<and>
     used s (unat (IBLOCK n (sb s))) \<and> (\<forall>b < nblocks s. IBLOCK n (sb s) \<noteq> bmap_block s b)"

lemma good_upd_inode [simp]: "good (upd_inode ip f s) = good s" "meta_wf (upd_inode ip f s) = meta_wf s"
  by (simp_all add: good_def meta_wf_def fun_eq_iff)

text \<open>The block at index \<open>k\<close> of a file, 0 when there is none; the indirect block.\<close>

definition ind :: "'a kfs_scheme \<Rightarrow> nat \<Rightarrow> u32" where
  "ind s ip = i_addrs (itable s ! ip) ! 12"

definition fblk :: "'a kfs_scheme \<Rightarrow> nat \<Rightarrow> nat \<Rightarrow> u32" where
  "fblk s ip k =
     (if k < 12 then i_addrs (itable s ! ip) ! k
      else if ind s ip = 0 then 0 else get32 (4 * (k - 12)) (disk s (ind s ip)))"

text \<open>The blocks of a file are good, different, and different from its indirect block.\<close>

definition wf_map :: "'a kfs_scheme \<Rightarrow> u32 \<Rightarrow> (nat \<Rightarrow> u32) \<Rightarrow> u32 \<Rightarrow> bool" where
  "wf_map s n F x \<longleftrightarrow> (x \<noteq> 0 \<longrightarrow> good s n x) \<and> (\<forall>k<268. F k \<noteq> 0 \<longrightarrow> good s n (F k) \<and> F k \<noteq> x) \<and>
     (\<forall>k<268. \<forall>l<268. F k \<noteq> 0 \<longrightarrow> F k = F l \<longrightarrow> k = l)"

definition file_wf :: "'a kfs_scheme \<Rightarrow> nat \<Rightarrow> bool" where
  "file_wf s ip \<longleftrightarrow> ip < length (itable s) \<and> i_dev (itable s ! ip) = 1 \<and> length (i_addrs (itable s ! ip)) = 13 \<and>
     meta_wf s (i_inum (itable s ! ip)) \<and> wf_map s (i_inum (itable s ! ip)) (fblk s ip) (ind s ip)"

text \<open>The contents of block \<open>k\<close>; a missing block counts as zeros.\<close>

definition block :: "'a kfs_scheme \<Rightarrow> nat \<Rightarrow> nat \<Rightarrow> u8 list" where
  "block s ip k = (if fblk s ip k = 0 then replicate 1024 0 else disk s (fblk s ip k))"

text \<open>All of this depends only on the disk, the super block and the inode table.\<close>

lemma fs_cong:
  assumes "disk s' = disk s" "nodisk s' = nodisk s"
  shows "sb s' = sb s" "itable s' = itable s" "used s' = used s" "nblocks s' = nblocks s" "bmap_block s' = bmap_block s"
    "good s' = good s" "meta_wf s' = meta_wf s" "fblk s' ip = fblk s ip" "ind s' ip = ind s ip" "block s' ip = block s ip"
    "file_wf s' ip = file_wf s ip" "nofs s' = nofs s" "bitmap_wf s' = bitmap_wf s"
proof -
  show k: "sb s' = sb s" "itable s' = itable s" using nodisk_kfs[OF assms(2)] by simp_all
  show c: "used s' = used s" "nblocks s' = nblocks s" "bmap_block s' = bmap_block s"
    using k assms(1) by (simp_all add: used_def nblocks_def bmap_block_def fun_eq_iff)
  show b: "bitmap_wf s' = bitmap_wf s" by (simp add: bitmap_wf_def c)
  show g: "good s' = good s" "meta_wf s' = meta_wf s"
    using k b by (simp_all add: good_def meta_wf_def c fun_eq_iff)
  show fb: "fblk s' ip = fblk s ip" "ind s' ip = ind s ip" "block s' ip = block s ip"
    using k assms(1) by (simp_all add: fblk_def ind_def block_def fun_eq_iff)
  show "file_wf s' ip = file_wf s ip" by (simp add: file_wf_def k g fb wf_map_def)
  show "nofs s' = nofs s" by (rule nofs_nodisk[OF assms(2)])
qed

section \<open>Allocation\<close>

lemma taken_facts:
  assumes "ready s" "meta_wf s n" "b < nblocks s" "\<not> used s b" "taken b s s1"
  shows "ready s1" "rest s1 = rest s" "itable s1 = itable s" "sb s1 = sb s" "nofs s1 = nofs s" "meta_wf s1 n"
    "good s1 n (of_nat b)" "disk s1 (of_nat b) = replicate 1024 0"
    "good s n x \<Longrightarrow> good s1 n x \<and> disk s1 x = disk s x \<and> x \<noteq> of_nat b"
proof -
  show t: "ready s1" "rest s1 = rest s" using assms(5) by (simp_all add: taken_def)
  show k: "itable s1 = itable s" "sb s1 = sb s" using rest_kfs[OF t(2)] by simp_all
  show "nofs s1 = nofs s" by (rule nofs_rest[OF t(2)])
  show "disk s1 (of_nat b) = replicate 1024 0" using assms(5) by (simp add: taken_def)
  have bw: "bitmap_wf s" using assms(2) by (simp add: meta_wf_def)
  have c: "nblocks s1 = nblocks s" "bmap_block s1 = bmap_block s" using nblocks_cong[OF t(2)] by simp_all
  have u: "used s1 l \<longleftrightarrow> used s l \<or> l = b" if "l < nblocks s" for l
    by (rule taken_used[OF assms(1) bw assms(3,4,5) that])
  have ub: "unat (of_nat b :: u32) = b" using assms(3) nblocks_bound[of s] by (intro unat_of_nat_u32) simp
  have "bitmap_wf s1" using bw u unfolding bitmap_wf_def c by blast
  then show "meta_wf s1 n" using assms(2) u unfolding meta_wf_def c k by simp
  have "of_nat b \<noteq> (0 :: u32)" using assms(2,4) ub by (metis meta_wf_def unat_0)
  moreover have "of_nat b \<noteq> IBLOCK n (sb s)" using assms(2,4) ub by (metis meta_wf_def)
  ultimately show "good s1 n (of_nat b)"
    using free_not_bitmap[OF bw assms(3,4)] u[OF assms(3)] assms(3) unfolding good_def c k ub by simp
  assume g: "good s n x"
  then have "x \<noteq> of_nat b" using assms(4) ub by (auto simp: good_def)
  then show "good s1 n x \<and> disk s1 x = disk s x \<and> x \<noteq> of_nat b"
    using g u[of "unat x"] assms(3,5) unfolding good_def c k by (simp add: taken_def)
qed

lemma balloc_cases:
  assumes "ready s" "bitmap_wf s"
  obtains (full) "balloc 1 s = Inl (Panic ''balloc: out of blocks'')"
  | (ok) b s1 where "balloc 1 s = Inr (of_nat b, s1)" "b < nblocks s" "\<not> used s b" "taken b s s1"
  using balloc_loop_ok[OF assms, of 0] unfolding balloc_def by auto

lemma wf_map_data:
  assumes "ready s" "meta_wf s n" "b < nblocks s" "\<not> used s b" "taken b s s1" "wf_map s n F x"
  shows "wf_map s1 n (F(k := of_nat b)) x"
proof -
  note t = taken_facts[OF assms(1-5)]
  have "good s1 n (F l) \<and> F l \<noteq> x \<and> F l \<noteq> of_nat b" if "l < 268" "F l \<noteq> 0" for l
    using assms(6) that t(9)[of "F l"] by (simp add: wf_map_def)
  moreover have "x \<noteq> 0 \<Longrightarrow> good s1 n x \<and> x \<noteq> of_nat b" using assms(6) t(9)[of x] by (simp add: wf_map_def)
  moreover have "of_nat b \<noteq> (0 :: u32)" using t(7) by (simp add: good_def)
  ultimately show ?thesis using assms(6) t(7) unfolding wf_map_def by (auto split: if_splits) metis+
qed

lemma wf_map_ind:
  assumes "ready s" "meta_wf s n" "b < nblocks s" "\<not> used s b" "taken b s s1" "wf_map s n F x"
  shows "wf_map s1 n F (of_nat b)"
proof -
  note t = taken_facts[OF assms(1-5)]
  have "good s1 n (F l) \<and> F l \<noteq> of_nat b" if "l < 268" "F l \<noteq> 0" for l
    using assms(6) that t(9)[of "F l"] by (simp add: wf_map_def)
  then show ?thesis using assms(6) t(7) unfolding wf_map_def by blast
qed

section \<open>Growing a file\<close>

text \<open>
  Allocation of blocks for a file: contents, blocks already there, other inodes, the rest of the kernel
  and the blocks of others do not change.
\<close>

definition grows :: "nat \<Rightarrow> 'a kfs_scheme \<Rightarrow> 'a kfs_scheme \<Rightarrow> bool" where
  "grows ip s s' \<longleftrightarrow> idle_fs s' \<and> file_wf s' ip \<and> nofs s' = nofs s \<and> length (itable s') = length (itable s) \<and>
     (\<forall>j. j \<noteq> ip \<longrightarrow> itable s' ! j = itable s ! j) \<and> (\<exists>as. itable s' ! ip = (itable s ! ip)\<lparr>i_addrs := as\<rparr>) \<and>
     (\<forall>k<268. block s' ip k = block s ip k) \<and> (\<forall>k<268. fblk s ip k \<noteq> 0 \<longrightarrow> fblk s' ip k = fblk s ip k) \<and>
     (\<forall>x. good s (i_inum (itable s ! ip)) x \<longrightarrow> x \<noteq> ind s ip \<longrightarrow>
        good s' (i_inum (itable s ! ip)) x \<and> x \<noteq> ind s' ip \<and> disk s' x = disk s x \<and>
        ((\<forall>k<268. x \<noteq> fblk s ip k) \<longrightarrow> (\<forall>k<268. x \<noteq> fblk s' ip k)))"

lemma grows_refl: "idle_fs s \<Longrightarrow> file_wf s ip \<Longrightarrow> grows ip s s"
  by (auto simp: grows_def intro!: exI[of _ "i_addrs (itable s ! ip)"])

lemma grows_trans:
  assumes "grows ip s s1" "grows ip s1 s2"
  shows "grows ip s s2"
proof -
  obtain as bs where as: "itable s1 ! ip = (itable s ! ip)\<lparr>i_addrs := as\<rparr>" "itable s2 ! ip = (itable s1 ! ip)\<lparr>i_addrs := bs\<rparr>"
    using assms unfolding grows_def by blast
  have i: "i_inum (itable s1 ! ip) = i_inum (itable s ! ip)" "itable s2 ! ip = (itable s ! ip)\<lparr>i_addrs := bs\<rparr>" using as by simp_all
  show ?thesis using assms i unfolding grows_def by (auto simp: i(1))
qed

lemma fblk_set_addr:
  assumes "ip < length (itable s)" "length (i_addrs (itable s ! ip)) = 13" "j < 13"
  shows "ind (set_addr ip j a s) ip = (if j = 12 then a else ind s ip)"
    "j < 12 \<Longrightarrow> fblk (set_addr ip j a s) ip = (fblk s ip)(j := a)"
    "fblk (set_addr ip 12 a s) ip k =
      (if k < 12 then fblk s ip k else if a = 0 then 0 else get32 (4 * (k - 12)) (disk s a))"
  using assms by (auto simp: ind_def fblk_def set_addr_def nth_list_update fun_eq_iff)

lemma file_wfD:
  assumes "file_wf s ip"
  shows "ip < length (itable s)" "i_dev (itable s ! ip) = 1" "length (i_addrs (itable s ! ip)) = 13"
    "meta_wf s (i_inum (itable s ! ip))" "wf_map s (i_inum (itable s ! ip)) (fblk s ip) (ind s ip)"
    "bitmap_wf s"
  using assms by (simp_all add: file_wf_def meta_wf_def)

lemma wf_mapD:
  assumes "wf_map s n F x"
  shows "x \<noteq> 0 \<Longrightarrow> good s n x" "k < 268 \<Longrightarrow> F k \<noteq> 0 \<Longrightarrow> good s n (F k) \<and> F k \<noteq> x"
    "k < 268 \<Longrightarrow> l < 268 \<Longrightarrow> F k \<noteq> 0 \<Longrightarrow> F k = F l \<Longrightarrow> k = l"
  using assms unfolding wf_map_def by blast+

text \<open>A direct address.\<close>

lemma grow_direct:
  assumes "idle_fs s" "file_wf s ip" "k < 12" "fblk s ip k = 0" "b < nblocks s" "\<not> used s b" "taken b s s1"
  shows "grows ip s (set_addr ip k (of_nat b) s1) \<and> fblk (set_addr ip k (of_nat b) s1) ip k = of_nat b"
proof -
  note f = file_wfD[OF assms(2)] and rd = idle_ready[OF assms(1)]
  note t = taken_facts[OF rd f(4) assms(5,6,7)] and m = wf_mapD[OF f(5)]
  let ?s = "set_addr ip k (of_nat b) s1" and ?n = "i_inum (itable s ! ip)"
  have i1: "ip < length (itable s1)" "length (i_addrs (itable s1 ! ip)) = 13" using f t(3) by simp_all
  have ind1: "ind s1 ip = ind s ip" by (simp add: ind_def t(3))
  have fb1: "fblk s1 ip l = fblk s ip l" for l
    using m(1) t(9)[of "ind s ip"] by (auto simp: fblk_def ind_def t(3))
  have fs: "ind ?s ip = ind s ip" "fblk ?s ip = (fblk s ip)(k := of_nat b)"
    using fblk_set_addr[OF i1, of k "of_nat b"] assms(3) ind1 fb1 by (simp_all add: fun_eq_iff)
  have u: "good ?s = good s1" "meta_wf ?s = meta_wf s1" "disk ?s = disk s1" "idle_fs ?s = idle_fs s1" "nofs ?s = nofs s1"
    by (simp_all add: set_addr_def)
  have it: "itable ?s = (itable s)[ip := (itable s ! ip)\<lparr>i_addrs := (i_addrs (itable s ! ip))[k := of_nat b]\<rparr>]"
    by (simp add: set_addr_def upd_inode_def t(3))
  then have n: "i_inum (itable ?s ! ip) = ?n" "i_dev (itable ?s ! ip) = 1" "length (i_addrs (itable ?s ! ip)) = 13" "ip < length (itable ?s)"
    using f by simp_all
  have wf: "file_wf ?s ip"
    unfolding file_wf_def n u fs using wf_map_data[OF rd f(4) assms(5,6,7) f(5), of k] t(6) n(4) by (simp add: wf_map_def u)
  have idl: "idle_fs ?s" unfolding u by (rule idle_rest[OF assms(1) t(1,2)])
  have blk: "block ?s ip l = block s ip l" if "l < 268" for l
  proof (cases "l = k")
    case True
    then show ?thesis using assms(4) t(7,8) by (simp add: block_def fs u good_def)
  next
    case False
    then show ?thesis using m(2)[OF that] t(9)[of "fblk s ip l"] by (auto simp: block_def fs u)
  qed
  have "grows ip s ?s" unfolding grows_def fs u(1,3,5)
    using wf idl t(5,9) it f(1) blk assms(4) by auto
  then show ?thesis using fs by simp
qed

text \<open>The indirect block.\<close>

lemma get32_zeros: "get32 off (replicate n 0) = 0"
proof -
  have "from_le (replicate k 0) = (0 :: u32)" for k by (induction k) simp_all
  then show ?thesis by (simp add: get32_def)
qed

lemma grow_indirect:
  assumes "idle_fs s" "file_wf s ip" "ind s ip = 0" "b < nblocks s" "\<not> used s b" "taken b s s1"
  shows "grows ip s (set_addr ip 12 (of_nat b) s1) \<and> ind (set_addr ip 12 (of_nat b) s1) ip = of_nat b \<and>
    fblk (set_addr ip 12 (of_nat b) s1) ip = fblk s ip"
proof -
  note f = file_wfD[OF assms(2)] and rd = idle_ready[OF assms(1)]
  note t = taken_facts[OF rd f(4) assms(4,5,6)] and m = wf_mapD[OF f(5)]
  let ?s = "set_addr ip 12 (of_nat b) s1" and ?n = "i_inum (itable s ! ip)"
  have i1: "ip < length (itable s1)" "length (i_addrs (itable s1 ! ip)) = 13" using f t(3) by simp_all
  have fb: "fblk ?s ip l = fblk s ip l" for l
    unfolding fblk_set_addr(3)[OF i1, of 12, simplified]
    using assms(3) t(8) by (simp add: fblk_def ind_def t(3) get32_zeros)
  have fs: "ind ?s ip = of_nat b" "fblk ?s ip = fblk s ip"
    using fblk_set_addr(1)[OF i1, of 12 "of_nat b"] fb by (simp_all add: fun_eq_iff)
  have u: "good ?s = good s1" "meta_wf ?s = meta_wf s1" "disk ?s = disk s1" "idle_fs ?s = idle_fs s1" "nofs ?s = nofs s1"
    by (simp_all add: set_addr_def)
  have it: "itable ?s = (itable s)[ip := (itable s ! ip)\<lparr>i_addrs := (i_addrs (itable s ! ip))[12 := of_nat b]\<rparr>]"
    by (simp add: set_addr_def upd_inode_def t(3))
  then have n: "i_inum (itable ?s ! ip) = ?n" "i_dev (itable ?s ! ip) = 1" "length (i_addrs (itable ?s ! ip)) = 13" "ip < length (itable ?s)"
    using f by simp_all
  have wf: "file_wf ?s ip"
    unfolding file_wf_def n u fs using wf_map_ind[OF rd f(4) assms(4,5,6) f(5)] t(6) n(4) by (simp add: wf_map_def u)
  have idl: "idle_fs ?s" unfolding u by (rule idle_rest[OF assms(1) t(1,2)])
  have blk: "block ?s ip l = block s ip l" if "l < 268" for l
    using m(2)[OF that] t(9)[of "fblk s ip l"] by (auto simp: block_def fs u)
  have "grows ip s ?s" unfolding grows_def fs u(1,3,5)
    using wf idl t(5,9) it f(1) blk by auto
  then show ?thesis using fs by simp
qed

text \<open>An entry of the indirect block, which the code holds while it allocates.\<close>

lemma hold_block:
  assumes "idle_fs s"
  obtains i s1 where "bread 1 x s = Inr (i, s1)" "ready s1" "disk s1 = disk s" "nodisk s1 = nodisk s"
    "refs s1 = (\<lambda>j. if j = i then 1 else 0)" "holds s1 i x" "buf_data i s1 = disk s x"
proof -
  obtain i s1 where s1: "bread 1 x s = Inr (i, s1)" "synced s1" "disk s1 = disk s" "nodisk s1 = nodisk s"
    "refs s1 = (refs s)(i := refs s i + 1)" "holds s1 i x" "buf_data i s1 = disk s x" "i < 30"
    by (rule bread_ready[OF idle_ready[OF assms], of x]) blast
  have r: "refs s1 = (\<lambda>j. if j = i then 1 else 0)" using s1(5) assms by (simp add: idle_fs_def fun_eq_iff)
  have "\<exists>j<30. refs s1 j = 0" using s1(8) r by (intro exI[of _ "if i = 0 then 1 else 0"]) auto
  then have "ready s1" using s1(2) r by (auto simp: ready_def)
  then show thesis using that s1 r by blast
qed

lemma holds_buf_data:
  assumes "ready s" "holds s i x"
  shows "buf_data i s = disk s x"
proof -
  have "cache_inv s" "bview s = disk s" using assms(1) by (simp_all add: ready_def synced_def)
  then show ?thesis using bview_holds[OF _ assms(2)] by (metis buf_data_def)
qed

lemma rest_holds: "rest s' = rest s \<Longrightarrow> refs s i \<noteq> 0 \<Longrightarrow> holds s i x \<Longrightarrow> holds s' i x"
proof -
  assume h: "rest s' = rest s" "refs s i \<noteq> 0" "holds s i x"
  have "pinned s' = pinned s" using h(1) by (simp add: rest_def)
  then have "(i, x) \<in> pinned s'" using h(2,3) by (simp add: pinned_def)
  then show ?thesis by (simp add: pinned_def)
qed

lemma release_idle:
  assumes "ready s" "holds s i x" "refs s = (\<lambda>j. if j = i then 1 else 0)"
  shows "idle_fs (brelse i s)" "disk (brelse i s) = disk s" "nodisk (brelse i s) = nodisk s"
  using brelse_synced[of s i x] assms by (simp_all add: ready_def idle_fs_def)

lemma get32_entry:
  assumes "length d = 1024" "k < 256" "l < 256"
  shows "get32 (4 * l) (put_at (4 * k) (to_le 4 v) d) = (if l = k then v else get32 (4 * l) d)"
proof (cases "l = k")
  case True
  then show ?thesis using assms get32_put[of "4 * k" d v] by simp
next
  case False
  then show ?thesis using assms by (simp add: get32_put_other) (subst get32_put_other, auto)
qed

lemma grow_entry:
  assumes "idle_fs s" "file_wf s ip" "ind s ip \<noteq> 0" "12 \<le> k" "k < 268" "fblk s ip k = 0" "b < nblocks s" "\<not> used s b"
    and "ready s1" "disk s1 = disk s" "nodisk s1 = nodisk s" "taken b s1 s2"
    and s4: "idle_fs s4" "nodisk s4 = nodisk s2"
      "disk s4 = (disk s2)(ind s ip := put_at (4 * (k - 12)) (to_le 4 (of_nat b :: u32)) (disk s (ind s ip)))"
  shows "grows ip s s4 \<and> fblk s4 ip k = of_nat b"
proof -
  note f = file_wfD[OF assms(2)]
  note m = wf_mapD[OF f(5)]
  note c1 = fs_cong[OF assms(10,11)]
  note k1 = c1(1,2) and c = c1(3-5) and g1 = c1(6,7,13)
  let ?n = "i_inum (itable s ! ip)"
  have t0: "meta_wf s1 ?n" "b < nblocks s1" "\<not> used s1 b" using f(4) assms(7,8) by (simp_all add: g1 c)
  note t = taken_facts[OF assms(9) t0 assms(12), unfolded g1 assms(10)]
  have wm: "wf_map s2 ?n ((fblk s ip)(k := of_nat b)) (ind s ip)"
    by (rule wf_map_data[OF assms(9) t0 assms(12)]) (use f(5) in \<open>simp add: wf_map_def g1\<close>)
  have gi: "good s ?n (ind s ip)" using m(1) assms(3) by blast
  have k4: "sb s4 = sb s" "itable s4 = itable s" using nodisk_kfs[OF s4(2)] t(3,4) k1 by simp_all
  have c2: "nblocks s2 = nblocks s" "bmap_block s2 = bmap_block s"
    using t(4) k1 by (simp_all add: nblocks_def bmap_block_def fun_eq_iff)
  have nb: "bmap_block s l \<noteq> ind s ip" if "l < nblocks s" for l using gi that by (auto simp: good_def)
  have c4: "nblocks s4 = nblocks s" "bmap_block s4 = bmap_block s"
    using k4 by (simp_all add: nblocks_def bmap_block_def fun_eq_iff)
  have u4: "used s4 l = used s2 l" if "l < nblocks s" for l
    using nb[OF that] s4(3) by (simp add: used_def c4 c2)
  have bw: "unat (bmap_block s l) < nblocks s" if "l < nblocks s" for l
    using f(6) that by (simp add: bitmap_wf_def)
  have g4: "good s4 ?n x = good s2 ?n x" for x
    using k4 t(4) k1 u4 by (auto simp: good_def c4 c2)
  have m4: "meta_wf s4 ?n" using t(6) k4 t(4) k1 u4 bw by (simp add: meta_wf_def bitmap_wf_def c4 c2)
  have len: "length (disk s (ind s ip)) = 1024" by (rule ready_length[OF idle_ready[OF assms(1)]])
  have fb4: "fblk s4 ip l = ((fblk s ip)(k := of_nat b)) l" if "l < 268" for l
  proof (cases "l < 12")
    case True
    then show ?thesis using assms(4) by (simp add: fblk_def k4)
  next
    case False
    have kl: "k - 12 < 256" "l - 12 < 256" using assms(4,5) that by auto
    have "get32 (4 * (l - 12)) (disk s4 (ind s ip)) =
      (if l - 12 = k - 12 then of_nat b else get32 (4 * (l - 12)) (disk s (ind s ip)))"
      unfolding s4(3) fun_upd_same by (rule get32_entry[OF len kl])
    moreover have "ind s4 ip = ind s ip" by (simp add: ind_def k4)
    ultimately show ?thesis using False assms(3,4) by (auto simp: fblk_def)
  qed
  have i4: "ind s4 ip = ind s ip" by (simp add: ind_def k4)
  have "wf_map s4 ?n (fblk s4 ip) (ind s4 ip)"
    using wm fb4 unfolding wf_map_def i4 g4 by auto
  then have wf: "file_wf s4 ip" using f m4 by (simp add: file_wf_def k4)
  have d4: "x \<noteq> ind s ip \<Longrightarrow> disk s4 x = disk s2 x" for x using s4(3) by simp
  have blk: "block s4 ip l = block s ip l" if "l < 268" for l
  proof (cases "l = k")
    case True
    have "of_nat b \<noteq> ind s ip" using t(9)[OF gi] by auto
    then show ?thesis using True assms(6) t(7,8) fb4[OF that] d4[of "of_nat b"] by (simp add: block_def good_def)
  next
    case False
    then show ?thesis using m(2)[OF that] t(9)[of "fblk s ip l"] d4[of "fblk s ip l"] fb4[OF that] by (auto simp: block_def)
  qed
  have nf: "nofs s4 = nofs s" using nofs_nodisk[OF s4(2)] t(5) nofs_nodisk[OF assms(11)] by simp
  have pr: "good s4 ?n x \<and> disk s4 x = disk s x \<and> x \<noteq> of_nat b" if "good s ?n x" "x \<noteq> ind s ip" for x
    using t(9)[OF that(1)] d4[OF that(2)] g4 by simp
  have ia: "\<exists>as. itable s4 ! ip = (itable s ! ip)\<lparr>i_addrs := as\<rparr>"
    by (rule exI[of _ "i_addrs (itable s ! ip)"]) (simp add: k4)
  have "grows ip s s4" unfolding grows_def i4
    using s4(1) wf nf k4(2) blk fb4 pr assms(6) ia by auto
  then show ?thesis using fb4[OF assms(5)] by simp
qed

section \<open>bmap\<close>

lemma addr_alloc_direct:
  assumes "idle_fs s" "file_wf s ip" "k < 12"
  shows "fblk s ip k = 0 \<and> addr_alloc ip k s = Inl (Panic ''balloc: out of blocks'') \<or>
    (\<exists>s'. addr_alloc ip k s = Inr (fblk s' ip k, s') \<and> grows ip s s' \<and> fblk s' ip k \<noteq> 0 \<and> (fblk s ip k \<noteq> 0 \<longrightarrow> s' = s))"
proof -
  note f = file_wfD[OF assms(2)] and rd = idle_ready[OF assms(1)]
  have a: "i_addrs (itable s ! ip) ! k = fblk s ip k" using assms(3) by (simp add: fblk_def)
  show ?thesis
  proof (cases "fblk s ip k = 0")
    case False
    then show ?thesis using a grows_refl[OF assms(1,2)] by (auto simp: addr_alloc_def)
  next
    case True
    show ?thesis
    proof (cases rule: balloc_cases[OF rd f(6), case_names full ok])
      case full
      then show ?thesis using a True f(2) by (simp add: addr_alloc_def)
    next
      case (ok b s1)
      have "addr_alloc ip k s = Inr (of_nat b, set_addr ip k (of_nat b) s1)"
        using a True f(2) ok(1) by (simp add: addr_alloc_def)
      moreover note g = grow_direct[OF assms True ok(2,3,4)]
      moreover have "of_nat b \<noteq> (0 :: u32)" using taken_facts(7)[OF rd f(4) ok(2,3,4)] by (simp add: good_def)
      ultimately show ?thesis using True by (intro disjI2 exI[of _ "set_addr ip k (of_nat b) s1"]) simp
    qed
  qed
qed

lemma addr_alloc_indirect:
  assumes "idle_fs s" "file_wf s ip"
  shows "ind s ip = 0 \<and> addr_alloc ip 12 s = Inl (Panic ''balloc: out of blocks'') \<or>
    (\<exists>s'. addr_alloc ip 12 s = Inr (ind s' ip, s') \<and> grows ip s s' \<and> ind s' ip \<noteq> 0 \<and> fblk s' ip = fblk s ip \<and>
      (ind s ip \<noteq> 0 \<longrightarrow> s' = s))"
proof -
  note f = file_wfD[OF assms(2)] and rd = idle_ready[OF assms(1)]
  have a: "i_addrs (itable s ! ip) ! 12 = ind s ip" by (simp add: ind_def)
  show ?thesis
  proof (cases "ind s ip = 0")
    case False
    then show ?thesis using a grows_refl[OF assms(1,2)] by (auto simp: addr_alloc_def)
  next
    case True
    show ?thesis
    proof (cases rule: balloc_cases[OF rd f(6), case_names full ok])
      case full
      then show ?thesis using a True f(2) by (simp add: addr_alloc_def)
    next
      case (ok b s1)
      have "addr_alloc ip 12 s = Inr (of_nat b, set_addr ip 12 (of_nat b) s1)"
        using a True f(2) ok(1) by (simp add: addr_alloc_def)
      moreover note g = grow_indirect[OF assms True ok(2,3,4)]
      moreover have "of_nat b \<noteq> (0 :: u32)" using taken_facts(7)[OF rd f(4) ok(2,3,4)] by (simp add: good_def)
      ultimately show ?thesis using True by (intro disjI2 exI[of _ "set_addr ip 12 (of_nat b) s1"]) simp
    qed
  qed
qed

text \<open>The second half of the indirect case, once the indirect block is there.\<close>

definition bmap_entry :: "nat \<Rightarrow> u32 \<Rightarrow> nat \<Rightarrow> 'a kfs_scheme \<Rightarrow> (u32 \<times> 'a kfs_scheme) res" where
  "bmap_entry ip addr bn s =
     bindE (bread (i_dev (itable s ! ip)) addr s) (\<lambda>(bp, s).
       let a = get32 (4 * bn) (buf_data bp s)
       in if a = 0
          then bindE (balloc (i_dev (itable s ! ip)) s) (\<lambda>(a, s).
            let s = set_data bp (put_at (4 * bn) (to_le 4 a) (buf_data bp s)) s
            in Inr (a, brelse bp (bwrite bp s)))
          else Inr (a, brelse bp s))"

lemma bmap_entry_ok:
  assumes "idle_fs s" "file_wf s ip" "ind s ip \<noteq> 0" "12 \<le> k" "k < 268"
  shows "fblk s ip k = 0 \<and> bmap_entry ip (ind s ip) (k - 12) s = Inl (Panic ''balloc: out of blocks'') \<or>
    (\<exists>s'. bmap_entry ip (ind s ip) (k - 12) s = Inr (fblk s' ip k, s') \<and> grows ip s s' \<and> fblk s' ip k \<noteq> 0 \<and>
      (fblk s ip k \<noteq> 0 \<longrightarrow> disk s' = disk s \<and> nodisk s' = nodisk s))"
proof -
  note f = file_wfD[OF assms(2)]
  obtain i s1 where s1: "bread 1 (ind s ip) s = Inr (i, s1)" "ready s1" "disk s1 = disk s" "nodisk s1 = nodisk s"
    "refs s1 = (\<lambda>j. if j = i then 1 else 0)" "holds s1 i (ind s ip)" "buf_data i s1 = disk s (ind s ip)"
    by (rule hold_block[OF assms(1)])
  note c1 = fs_cong[OF s1(3,4)]
  note k1 = c1(1,2) and c = c1(3,4) and g1 = c1(6,7)
  have fk: "get32 (4 * (k - 12)) (disk s (ind s ip)) = fblk s ip k" using assms(3,4) by (simp add: fblk_def)
  show ?thesis
  proof (cases "fblk s ip k = 0")
    case False
    let ?s = "brelse i s1"
    have r: "idle_fs ?s" "disk ?s = disk s" "nodisk ?s = nodisk s" using release_idle[OF s1(2,6,5)] s1(3,4) by simp_all
    note c = fs_cong[OF r(2,3)]
    have "\<exists>as. itable s ! ip = (itable s ! ip)\<lparr>i_addrs := as\<rparr>" by (rule exI[of _ "i_addrs (itable s ! ip)"]) simp
    then have "grows ip s ?s" unfolding grows_def c r(2) using r(1) assms(2) by simp
    moreover have "bmap_entry ip (ind s ip) (k - 12) s = Inr (fblk s ip k, ?s)"
      using s1(1,7) f(2) fk False by (simp add: bmap_entry_def Let_def)
    ultimately show ?thesis using False c r by auto
  next
    case True
    have bw1: "bitmap_wf s1" using f(6) c1(13) by simp
    show ?thesis
    proof (cases rule: balloc_cases[OF s1(2) bw1, case_names full ok])
      case full
      then show ?thesis using s1(1,7) f(2) fk True k1 by (simp add: bmap_entry_def Let_def)
    next
      case (ok b s2)
      have r2: "ready s2" "rest s2 = rest s1" using ok(4) by (simp_all add: taken_def)
      have rf2: "refs s2 = (\<lambda>j. if j = i then 1 else 0)" using r2(2) s1(5) by (simp add: rest_def)
      have h2: "holds s2 i (ind s ip)" by (rule rest_holds[OF r2(2) _ s1(6)]) (simp add: s1(5))
      have b: "b < nblocks s" "\<not> used s b" using ok(2,3) c by simp_all
      let ?n = "i_inum (itable s ! ip)"
      have m1: "meta_wf s1 ?n" using f(4) by (simp add: g1)
      have gi: "good s1 ?n (ind s ip)" using wf_mapD(1)[OF f(5)] assms(3) by (simp add: g1)
      have d2: "buf_data i s2 = disk s (ind s ip)"
        using holds_buf_data[OF r2(1) h2] taken_facts(9)[OF s1(2) m1 ok(2,3,4) gi] s1(3) by simp
      let ?d = "put_at (4 * (k - 12)) (to_le 4 (of_nat b :: u32)) (disk s (ind s ip))"
      let ?s3 = "bwrite i (set_data i ?d s2)" and ?s4 = "brelse i (bwrite i (set_data i ?d s2))"
      have len: "length ?d = 1024" using ready_length[OF idle_ready[OF assms(1)]] assms(4,5) by simp
      have sy: "synced s2" "refs s2 i \<noteq> 0" using r2(1) rf2 by (simp_all add: ready_def)
      note u = update_synced[OF sy(1) h2 sy(2) len refl]
      have r3: "ready ?s3" using u(1,4) r2(1) rf2 by (simp add: ready_def)
      have r4: "idle_fs ?s4" "disk ?s4 = disk ?s3" "nodisk ?s4 = nodisk ?s3"
        by (rule release_idle[OF r3, of i "ind s ip"], use u(5)[of i "ind s ip"] h2 u(4) rf2 in simp_all)+
      have g: "grows ip s ?s4 \<and> fblk ?s4 ip k = of_nat b"
        by (rule grow_entry[OF assms True b s1(2,3,4) ok(4) r4(1)]) (use r4 u in simp_all)
      have "of_nat b \<noteq> (0 :: u32)" using taken_facts(7)[OF s1(2) m1 ok(2,3,4)] by (simp add: good_def)
      moreover have "itable s2 = itable s1" using rest_kfs[OF r2(2)] by simp
      then have "bmap_entry ip (ind s ip) (k - 12) s = Inr (of_nat b, ?s4)"
        using s1(1,7) f(2) fk True k1 ok(1) d2 by (simp add: bmap_entry_def Let_def)
      ultimately show ?thesis using g True by (intro disjI2 exI[of _ ?s4]) simp
    qed
  qed
qed

lemma bmap_split:
  assumes "k < 268"
  shows "bmap ip (of_nat k) s =
    (if k < 12 then addr_alloc ip k s
     else bindE (addr_alloc ip 12 s) (\<lambda>(addr, s). bmap_entry ip addr (k - 12) s))"
proof -
  have u: "unat (of_nat k :: u32) = k" using assms by (intro unat_of_nat_u32) simp
  have l: "(of_nat k :: u32) < 12 \<longleftrightarrow> k < 12" using u by (simp add: word_less_nat_alt)
  show ?thesis
  proof (cases "k < 12")
    case True
    then show ?thesis using l u by (simp add: bmap_def)
  next
    case False
    have s: "unat ((of_nat k :: u32) - 12) = k - 12" using u l False by (subst unat_sub) (simp_all add: word_le_nat_alt)
    then have "(of_nat k :: u32) - 12 < 256" using assms by (simp add: word_less_nat_alt)
    then show ?thesis unfolding bmap_def bmap_entry_def Let_def s using l False by simp
  qed
qed

lemma bmap_out_of_range: "268 \<le> k \<Longrightarrow> k < 2 ^ 32 \<Longrightarrow> bmap ip (of_nat k) s = Inl (Panic ''bmap: out of range'')"
proof -
  assume k: "268 \<le> k" "k < 2 ^ 32"
  have u: "unat (of_nat k :: u32) = k" by (rule unat_of_nat_u32[OF k(2)])
  then have l: "\<not> (of_nat k :: u32) < 12" using k by (simp add: word_less_nat_alt)
  have "unat ((of_nat k :: u32) - 12) = k - 12" using u k by (subst unat_sub) (simp_all add: word_le_nat_alt)
  then have "\<not> (of_nat k :: u32) - 12 < 256" using k by (simp add: word_less_nat_alt)
  then show ?thesis using l by (simp add: bmap_def Let_def)
qed

lemma bmap_ok:
  assumes "idle_fs s" "file_wf s ip" "k < 268"
  shows "fblk s ip k = 0 \<and> bmap ip (of_nat k) s = Inl (Panic ''balloc: out of blocks'') \<or>
    (\<exists>s'. bmap ip (of_nat k) s = Inr (fblk s' ip k, s') \<and> fblk s' ip k \<noteq> 0 \<and> grows ip s s' \<and>
      (fblk s ip k \<noteq> 0 \<longrightarrow> disk s' = disk s \<and> nodisk s' = nodisk s))"
proof (cases "k < 12")
  case True
  then show ?thesis using addr_alloc_direct[OF assms(1,2) True] bmap_split[OF assms(3), of ip s] by auto
next
  case False
  note b = bmap_split[OF assms(3), of ip s]
  from addr_alloc_indirect[OF assms(1,2)] show ?thesis
  proof (elim disjE conjE exE)
    assume "ind s ip = 0" "addr_alloc ip 12 s = Inl (Panic ''balloc: out of blocks'')"
    then show ?thesis using b False by (simp add: fblk_def)
  next
    fix s1
    assume a: "addr_alloc ip 12 s = Inr (ind s1 ip, s1)" "grows ip s s1" "ind s1 ip \<noteq> 0" "fblk s1 ip = fblk s ip"
      "ind s ip \<noteq> 0 \<longrightarrow> s1 = s"
    have g: "idle_fs s1" "file_wf s1 ip" using a(2) by (simp_all add: grows_def)
    have e: "bmap ip (of_nat k) s = bmap_entry ip (ind s1 ip) (k - 12) s1" using b False a(1) by simp
    have i0: "fblk s ip k \<noteq> 0 \<Longrightarrow> s1 = s" using a(5) False by (auto simp: fblk_def)
    show ?thesis
      using bmap_entry_ok[OF g a(3) _ assms(3)] False a(4) grows_trans[OF a(2)] i0 unfolding e by auto
  qed
qed


text \<open>A file of two blocks, the first of them allocated, for the examples.\<close>

definition file_fs :: kload where
  "file_fs = upd_inode 0 (\<lambda>_. small_inode\<lparr>i_size := 2000, i_addrs := 2 # replicate 12 0\<rparr>)
     (binit (kload0 (\<lambda>_. 0) (\<lambda>_. 7 # replicate 1023 0)
     \<lparr>sb := \<lparr>sb_magic = FSMAGIC, sb_size = 8, sb_nblocks = 5, sb_ninodes = 16, sb_inodestart = 1, sb_bmapstart = 0\<rparr>\<rparr>))"

lemma file_fs: "idle_fs file_fs" "disk file_fs = (\<lambda>_. 7 # replicate 1023 0)" "nblocks file_fs = 8" "sb_bmapstart (sb file_fs) = 0"
  "sb_inodestart (sb file_fs) = 1" "itable file_fs ! 0 = small_inode\<lparr>i_size := 2000, i_addrs := 2 # replicate 12 0\<rparr>"
  "length (itable file_fs) = 50"
proof -
  let ?k = "kload0 (\<lambda>_. 0) (\<lambda>_. 7 # replicate 1023 0)
     \<lparr>sb := \<lparr>sb_magic = FSMAGIC, sb_size = 8, sb_nblocks = 5, sb_ninodes = 16, sb_inodestart = 1, sb_bmapstart = 0\<rparr>\<rparr>"
  have "ready (binit ?k)" by (rule binit_ready) (simp_all add: kload0_def)
  moreover have "refs (binit ?k) i = 0" for i
    using binit_fields(3)[of ?k i] by (simp add: kload0_def refs_def)
  ultimately show "idle_fs file_fs" by (simp add: file_fs_def idle_fs_def ready_def)
qed (simp_all add: file_fs_def kload0_def binit_def Let_def nblocks_def)

lemma file_fs_used: "b < 8 \<Longrightarrow> used file_fs b \<longleftrightarrow> b < 3" "b < 8 \<Longrightarrow> bmap_block file_fs b = 0"
proof -
  assume b: "b < 8"
  have "(of_nat b :: u32) div 8192 = 0" using div_8192[of b] b by (simp add: word_unat_eq_iff)
  then show "bmap_block file_fs b = 0" by (simp add: bmap_block_def BBLOCK_def file_fs)
  have "(7 :: u8) = mask 3" by (simp add: mask_eq_exp_minus_1)
  then have "bit (7 :: u8) b \<longleftrightarrow> b < 3" using b by (simp only: bit_mask_iff) simp
  then show "used file_fs b \<longleftrightarrow> b < 3" using b by (simp add: used_def bit_at_def file_fs)
qed

lemma file_fs_wf: "file_wf file_fs 0"
proof -
  have f: "fblk file_fs 0 k = (if k = 0 then 2 else 0)" for k
  proof -
    have a: "i_addrs (itable file_fs ! 0) = 2 # replicate 12 0" by (simp add: file_fs(6))
    show ?thesis unfolding fblk_def ind_def a by (cases k) simp_all
  qed
  have i: "IBLOCK 3 (sb file_fs) = 1" by (simp add: IBLOCK_def file_fs)
  have b: "bmap_block file_fs k = 0" if "k < 8" for k using file_fs_used(2)[OF that] .
  have m: "meta_wf file_fs 3"
    unfolding meta_wf_def bitmap_wf_def file_fs(3) i using b file_fs_used(1) by simp
  have g: "good file_fs 3 2" unfolding good_def file_fs(3) i using b file_fs_used(1)[of 2] by simp
  have "wf_map file_fs 3 (fblk file_fs 0) 0" unfolding wf_map_def f using g by auto
  then show ?thesis using m by (simp add: file_wf_def file_fs(6,7) small_inode_def ind_def)
qed


end
