(* ===== verification/FsRw.thy ===== *)
theory FsRw
  imports FsFile
begin

text \<open>
  Reading and writing a file inside the kernel: \<open>readi\<close> delivers the bytes of the file, \<open>writei\<close>
  replaces exactly the bytes it is given and grows the file, and what was written is read back.
\<close>

section \<open>The bytes of a file\<close>

definition fbyte :: "'a kfs_scheme \<Rightarrow> nat \<Rightarrow> nat \<Rightarrow> u8" where
  "fbyte s ip p = block s ip (p div 1024) ! (p mod 1024)"

text \<open>The largest file: 268 blocks.\<close>

abbreviation (input) MAXBYTES :: nat where "MAXBYTES \<equiv> 274432"

definition fsize :: "'a kfs_scheme \<Rightarrow> nat \<Rightarrow> nat" where
  "fsize s ip = unat (i_size (itable s ! ip))"

text \<open>A block of the range is missing.\<close>

definition hole :: "'a kfs_scheme \<Rightarrow> nat \<Rightarrow> nat \<Rightarrow> nat \<Rightarrow> bool" where
  "hole s ip off n \<longleftrightarrow> (\<exists>p. off \<le> p \<and> p < off + n \<and> fblk s ip (p div 1024) = 0)"

lemma grows_fbyte: "grows ip s s' \<Longrightarrow> p < MAXBYTES \<Longrightarrow> fbyte s' ip p = fbyte s ip p"
  by (simp add: grows_def fbyte_def div_less_iff_less_mult)

lemma grows_size: "grows ip s s' \<Longrightarrow> itable s' ! ip = (itable s ! ip)\<lparr>i_addrs := i_addrs (itable s' ! ip)\<rparr>"
  by (auto simp: grows_def)

lemma grows_hole: "grows ip s s' \<Longrightarrow> off + n \<le> MAXBYTES \<Longrightarrow> hole s' ip off n \<Longrightarrow> hole s ip off n"
  unfolding hole_def
proof (elim exE conjE)
  fix p assume g: "grows ip s s'" "off + n \<le> MAXBYTES" "off \<le> p" "p < off + n" "fblk s' ip (p div 1024) = 0"
  have "p div 1024 < 268" using g(2,4) by (simp add: div_less_iff_less_mult)
  then have "fblk s ip (p div 1024) = 0" using g(1,5) unfolding grows_def by metis
  then show "\<exists>p. off \<le> p \<and> p < off + n \<and> fblk s ip (p div 1024) = 0" using g(3,4) by blast
qed

lemma hole_mono: "hole s ip (off + m) (n - m) \<Longrightarrow> m \<le> n \<Longrightarrow> hole s ip off n"
  unfolding hole_def by (elim exE conjE) (rule_tac x = p in exI, simp)

section \<open>Chunks\<close>

lemma rw_size_unat:
  assumes "tot \<le> n"
  shows "unat (rw_size n tot off) = min (unat n - unat tot) (1024 - unat off mod 1024)"
proof -
  have a: "unat (n - tot) = unat n - unat tot" using assms by (rule unat_sub)
  have m: "unat (off mod 1024) = unat off mod 1024" by (simp add: unat_mod)
  have "off mod 1024 \<le> 1024" using m by (simp add: word_le_nat_alt)
  then have "unat (1024 - off mod 1024) = 1024 - unat off mod 1024" using m by (subst unat_sub) simp_all
  then show ?thesis by (simp add: rw_size_def unat_MIN32 a)
qed

text \<open>What one round of the loops does with the counters.\<close>

lemma rw_round:
  assumes "tot < n" "unat off + (unat n - unat tot) \<le> MAXBYTES"
  defines "m \<equiv> rw_size n tot off" and "k \<equiv> unat off div 1024" and "o1 \<equiv> unat off mod 1024"
  shows "off div 1024 = of_nat k" "k < 268" "unat (off mod 1024) = o1" "o1 + unat m \<le> 1024" "0 < unat m"
    "unat m \<le> unat n - unat tot" "tot + m \<le> n" "unat (off + m) = unat off + unat m"
    "unat (tot + m) = unat tot + unat m" "i < unat m \<Longrightarrow> (unat off + i) div 1024 = k \<and> (unat off + i) mod 1024 = o1 + i"
proof -
  have t: "tot \<le> n" "unat tot < unat n" using assms(1) by (simp_all add: word_less_nat_alt word_le_nat_alt)
  have m: "unat m = min (unat n - unat tot) (1024 - o1)" unfolding m_def o1_def by (rule rw_size_unat[OF t(1)])
  have o1: "o1 < 1024" by (simp add: o1_def)
  show "unat (off mod 1024) = o1" by (simp add: o1_def unat_mod)
  have "unat (off div 1024) = k" "unat (of_nat k :: u32) = k"
    using unat_less_u32[of off] by (auto simp: k_def unat_div intro!: unat_of_nat_u32)
  then show "off div 1024 = of_nat k" by (simp add: word_unat_eq_iff)
  have off: "unat off < MAXBYTES" using assms(2) t(2) by simp
  then show "k < 268" by (simp add: k_def div_less_iff_less_mult)
  show mm: "o1 + unat m \<le> 1024" "0 < unat m" "unat m \<le> unat n - unat tot" using m o1 t(2) by auto
  show a: "unat (off + m) = unat off + unat m" using off mm(1) by (subst unat_add_lem[THEN iffD1]) simp_all
  show b: "unat (tot + m) = unat tot + unat m" using unat_less_u32[of n] mm(3) t(2) by (subst unat_add_lem[THEN iffD1]) simp_all
  show "tot + m \<le> n" unfolding word_le_nat_alt b using mm(3) t(2) by simp
  assume "i < unat m"
  then have i: "o1 + i < 1024" using mm(1) by simp
  have e: "unat off + i = (o1 + i) + k * 1024" by (simp add: k_def o1_def)
  show "(unat off + i) div 1024 = k \<and> (unat off + i) mod 1024 = o1 + i"
    unfolding e div_mult_self1[OF zero_neq_numeral[symmetric]] mod_mult_self1 using i by simp
qed

lemma block_length: "ready s \<Longrightarrow> length (block s ip k) = 1024"
  by (simp add: block_def ready_length)

text \<open>The block at \<open>off\<close>, found and read.\<close>

lemma map_read:
  assumes "idle_fs s" "file_wf s ip" "k < 268"
  shows "fblk s ip k = 0 \<and> bmap ip (of_nat k) s = Inl (Panic ''balloc: out of blocks'') \<or>
    (\<exists>s1 i s2. bmap ip (of_nat k) s = Inr (fblk s1 ip k, s1) \<and> grows ip s s1 \<and> fblk s1 ip k \<noteq> 0 \<and>
      i_dev (itable s1 ! ip) = 1 \<and> bread 1 (fblk s1 ip k) s1 = Inr (i, s2) \<and> ready s1 \<and> buf_data i s2 = block s ip k \<and>
      idle_fs (brelse i s2) \<and> disk (brelse i s2) = disk s1 \<and> nodisk (brelse i s2) = nodisk s1 \<and>
      cproc s2 = cproc s \<and> mem s2 = mem s)"
proof -
  from bmap_ok[OF assms] show ?thesis
  proof (elim disjE exE conjE)
    fix s1 assume b: "bmap ip (of_nat k) s = Inr (fblk s1 ip k, s1)" "fblk s1 ip k \<noteq> 0" "grows ip s s1"
    have g: "idle_fs s1" "file_wf s1 ip" "block s1 ip k = block s ip k" "nofs s1 = nofs s" using b(3) assms(3) by (auto simp: grows_def)
    obtain i s2 where r: "bread 1 (fblk s1 ip k) s1 = Inr (i, s2)" "ready s2" "disk s2 = disk s1" "nodisk s2 = nodisk s1"
      "refs s2 = (\<lambda>j. if j = i then 1 else 0)" "holds s2 i (fblk s1 ip k)" "buf_data i s2 = disk s1 (fblk s1 ip k)"
      by (rule hold_block[OF g(1)])
    have "buf_data i s2 = block s ip k" using r(7) g(3) b(2) by (simp add: block_def)
    moreover have n2: "nofs s2 = nofs s" using nofs_nodisk[OF r(4)] g(4) by simp
    have "cproc s2 = cproc s" "mem s2 = mem s"
      using arg_cong[OF n2, of cproc] arg_cong[OF n2, of mem]
      by (simp_all add: nofs_def nodisk_def proc_at_def curr_proc_def split: pref.splits option.splits)
    ultimately show ?thesis using b r(1,3,4) release_idle[OF r(2,6,5)] idle_ready[OF g(1)] file_wfD(2)[OF g(2)] by auto
  qed simp
qed

section \<open>readi\<close>

lemma chunk_bytes:
  assumes "length d = 1024" "o1 + m \<le> 1024" "\<And>i. i < m \<Longrightarrow> f i = d ! (o1 + i)"
  shows "take m (drop o1 d) = map f [0..<m]"
  using assms by (intro nth_equalityI) auto

lemma map_shift: "map f [0..<m] @ map (\<lambda>i. f (m + i)) [0..<k] = map f [0..<m + k]"
  by (rule nth_equalityI) (auto simp: nth_append)

lemma grows_cong: "grows ip s s1 \<Longrightarrow> idle_fs s2 \<Longrightarrow> disk s2 = disk s1 \<Longrightarrow> nodisk s2 = nodisk s1 \<Longrightarrow> grows ip s s2"
  unfolding grows_def using fs_cong[of s2 s1] by simp

text \<open>One round of \<open>readi\<close>.\<close>

lemma readi_round:
  assumes "idle_fs s" "file_wf s ip" "tot < n" "unat off + (unat n - unat tot) \<le> MAXBYTES"
  defines "m \<equiv> rw_size n tot off"
  shows "fblk s ip (unat off div 1024) = 0 \<and> readi_loop ip False dst off n tot s = Inl (Panic ''balloc: out of blocks'') \<or>
    (\<exists>s1 s2. grows ip s s2 \<and> (fblk s ip (unat off div 1024) \<noteq> 0 \<longrightarrow> disk s2 = disk s \<and> nodisk s2 = nodisk s) \<and>
      readi_loop ip False dst off n tot s =
        bindE (readi_loop ip False (dst + ucast m) (off + m) n (tot + m) s2) (\<lambda>(r, cs, s).
          Inr (r, map (\<lambda>i. fbyte s1 ip (unat off + i)) [0..<unat m] @ cs, s)) \<and> s1 = s)"
proof -
  note r = rw_round[OF assms(3,4), folded m_def]
  let ?k = "unat off div 1024" and ?o1 = "unat off mod 1024"
  from map_read[OF assms(1,2) r(2)] show ?thesis
  proof (elim disjE exE conjE)
    assume "fblk s ip ?k = 0" "bmap ip (of_nat ?k) s = Inl (Panic ''balloc: out of blocks'')"
    then show ?thesis using assms(3) r(1) by (subst (1) readi_loop.simps) simp
  next
    fix s1 i s2
    assume b: "bmap ip (of_nat ?k) s = Inr (fblk s1 ip ?k, s1)" "grows ip s s1" "fblk s1 ip ?k \<noteq> 0" "i_dev (itable s1 ! ip) = 1"
      "bread 1 (fblk s1 ip ?k) s1 = Inr (i, s2)" "ready s1" "buf_data i s2 = block s ip ?k" "idle_fs (brelse i s2)"
      "disk (brelse i s2) = disk s1" "nodisk (brelse i s2) = nodisk s1"
    have c: "take (unat m) (drop ?o1 (block s ip ?k)) = map (\<lambda>i. fbyte s ip (unat off + i)) [0..<unat m]"
      by (rule chunk_bytes[OF block_length[OF idle_ready[OF assms(1)]] r(4)]) (use r(10) in \<open>simp add: fbyte_def\<close>)
    have st: "readi_loop ip False dst off n tot s =
        bindE (readi_loop ip False (dst + ucast m) (off + m) n (tot + m) (brelse i s2)) (\<lambda>(r, cs, t).
          Inr (r, map (\<lambda>i. fbyte s ip (unat off + i)) [0..<unat m] @ cs, t))"
      using assms(3) b(1,4,5,7) c r(1,3)
      by (subst readi_loop.simps) (simp add: either_copyout_def m_def[symmetric] Let_def)
    have g: "grows ip s (brelse i s2)" by (rule grows_cong[OF b(2,8,9,10)])
    have "disk (brelse i s2) = disk s \<and> nodisk (brelse i s2) = nodisk s" if nz: "fblk s ip ?k \<noteq> 0"
      using bmap_ok[OF assms(1,2) r(2)] nz b(1,9,10) by auto
    then show ?thesis using g st by blast
  qed
qed

lemma readi_loop_ok:
  assumes "idle_fs s" "file_wf s ip" "tot \<le> n" "unat off + (unat n - unat tot) \<le> MAXBYTES"
  shows "hole s ip (unat off) (unat n - unat tot) \<and> readi_loop ip False dst off n tot s = Inl (Panic ''balloc: out of blocks'') \<or>
    (\<exists>s'. readi_loop ip False dst off n tot s =
        Inr (n, map (\<lambda>i. fbyte s ip (unat off + i)) [0..<unat n - unat tot], s') \<and> grows ip s s' \<and>
      (\<not> hole s ip (unat off) (unat n - unat tot) \<longrightarrow> disk s' = disk s \<and> nodisk s' = nodisk s))"
  using assms
proof (induction "unat n - unat tot" arbitrary: tot off dst s rule: less_induct)
  case less
  show ?case
  proof (cases "tot < n")
    case False
    then have "tot = n" using less.prems(3) by (simp add: order_le_less)
    then show ?thesis using grows_refl[OF less.prems(1,2)] by (subst (1 2) readi_loop.simps) auto
  next
    case True
    define m where "m = rw_size n tot off"
    note r = rw_round[OF True less.prems(4), folded m_def]
    let ?N = "unat n - unat tot" and ?k = "unat off div 1024"
    have h0: "hole s ip (unat off) ?N" if "fblk s ip ?k = 0"
      unfolding hole_def by (rule exI[of _ "unat off"]) (use that True in \<open>simp add: word_less_nat_alt\<close>)
    from readi_round[OF less.prems(1,2) True less.prems(4), folded m_def, of dst] show ?thesis
    proof (elim disjE exE conjE)
      fix s1 s2
      assume g: "grows ip s s2" and e: "s1 = s"
        and st: "readi_loop ip False dst off n tot s =
        bindE (readi_loop ip False (dst + ucast m) (off + m) n (tot + m) s2) (\<lambda>(r, cs, s).
          Inr (r, map (\<lambda>i. fbyte s1 ip (unat off + i)) [0..<unat m] @ cs, s))"
        and same: "fblk s ip ?k \<noteq> 0 \<longrightarrow> disk s2 = disk s \<and> nodisk s2 = nodisk s"
      have N: "unat n - unat (tot + m) = ?N - unat m" "?N - unat m < ?N" using r(5,6,9) by simp_all
      have b: "unat (off + m) + (unat n - unat (tot + m)) \<le> MAXBYTES" using r(6,8) N(1) less.prems(4) by simp
      have i2: "idle_fs s2" "file_wf s2 ip" using g by (simp_all add: grows_def)
      have hs: "hole s ip (unat off) ?N" if "hole s2 ip (unat (off + m)) (?N - unat m)"
      proof -
        have "hole s ip (unat off + unat m) (?N - unat m)"
          by (rule grows_hole[OF g]) (use that r(8) b N(1) in simp_all)
        then show ?thesis by (rule hole_mono) (rule r(6))
      qed
      have fb: "fbyte s2 ip (unat (off + m) + i) = fbyte s ip (unat off + (unat m + i))" if "i < ?N - unat m" for i
        unfolding r(8) using grows_fbyte[OF g, of "unat off + unat m + i"] that less.prems(4) by (simp add: add.assoc)
      have "unat n - unat (tot + m) < ?N" using N by simp
      from less.hyps[OF this i2 r(7) b, of "dst + ucast m", unfolded N] show ?thesis
      proof (elim disjE exE conjE)
        assume "hole s2 ip (unat (off + m)) (?N - unat m)"
          "readi_loop ip False (dst + ucast m) (off + m) n (tot + m) s2 = Inl (Panic ''balloc: out of blocks'')"
        then show ?thesis using hs st by simp
      next
        fix s' assume s': "readi_loop ip False (dst + ucast m) (off + m) n (tot + m) s2 =
            Inr (n, map (\<lambda>i. fbyte s2 ip (unat (off + m) + i)) [0..<?N - unat m], s')" "grows ip s2 s'"
          "\<not> hole s2 ip (unat (off + m)) (?N - unat m) \<longrightarrow> disk s' = disk s2 \<and> nodisk s' = nodisk s2"
        have eq: "map (\<lambda>i. fbyte s2 ip (unat (off + m) + i)) [0..<?N - unat m] =
            map (\<lambda>i. fbyte s ip (unat off + (unat m + i))) [0..<?N - unat m]" using fb by (simp cong: map_cong)
        have bs: "map (\<lambda>i. fbyte s ip (unat off + i)) [0..<unat m] @ map (\<lambda>i. fbyte s2 ip (unat (off + m) + i)) [0..<?N - unat m] =
            map (\<lambda>i. fbyte s ip (unat off + i)) [0..<?N]"
          unfolding eq map_shift[of "\<lambda>i. fbyte s ip (unat off + i)"] le_add_diff_inverse[OF r(6)] ..
        have "readi_loop ip False dst off n tot s = Inr (n, map (\<lambda>i. fbyte s ip (unat off + i)) [0..<?N], s')"
          unfolding st s'(1) e bindE.simps prod.case bs ..
        moreover have "disk s' = disk s \<and> nodisk s' = nodisk s" if "\<not> hole s ip (unat off) ?N"
          using that hs h0 same s'(3) by auto
        ultimately show ?thesis using grows_trans[OF g s'(2)] by blast
      qed
    qed (use h0 in simp)
  qed
qed

lemma wraps_u32: "(off :: u32) + n < off \<longleftrightarrow> 2 ^ 32 \<le> unat off + unat n"
  using unat_less_u32[of off] unat_less_u32[of n] by (auto simp: word_less_nat_alt unat_plus_if')

lemma readi_ok:
  assumes "idle_fs s" "file_wf s ip" "fsize s ip \<le> MAXBYTES"
  shows "if fsize s ip < unat off \<or> 2 ^ 32 \<le> unat off + unat n then readi ip False dst off n s = Inr (0, [], s)
    else hole s ip (unat off) (min (unat n) (fsize s ip - unat off)) \<and>
        readi ip False dst off n s = Inl (Panic ''balloc: out of blocks'') \<or>
      (\<exists>s'. readi ip False dst off n s = Inr (of_nat (min (unat n) (fsize s ip - unat off)),
          map (\<lambda>i. fbyte s ip (unat off + i)) [0..<min (unat n) (fsize s ip - unat off)], s') \<and> grows ip s s' \<and>
        (\<not> hole s ip (unat off) (min (unat n) (fsize s ip - unat off)) \<longrightarrow> disk s' = disk s \<and> nodisk s' = nodisk s))"
proof -
  let ?sz = "i_size (itable s ! ip)" and ?m = "min (unat n) (fsize s ip - unat off)"
  have gt: "off > ?sz \<longleftrightarrow> fsize s ip < unat off" by (simp add: fsize_def word_less_nat_alt)
  show ?thesis
  proof (cases "fsize s ip < unat off \<or> 2 ^ 32 \<le> unat off + unat n")
    case True
    then show ?thesis using gt wraps_u32[of off n] by (auto simp: readi_def Let_def)
  next
    case False
    let ?n = "if off + n > ?sz then ?sz - off else n"
    have le: "unat off \<le> fsize s ip" "unat off + unat n < 2 ^ 32" using False by simp_all
    have "unat (off + n) = unat off + unat n" using le(2) by (subst unat_add_lem[THEN iffD1]) simp_all
    moreover have "unat (?sz - off) = fsize s ip - unat off" using le(1) by (simp add: fsize_def unat_sub word_le_nat_alt)
    ultimately have n: "unat ?n = ?m" by (auto simp: word_less_nat_alt fsize_def)
    have w: "?n = of_nat ?m" by (subst n[symmetric]) simp
    have "readi ip False dst off n s = readi_loop ip False dst off ?n 0 s"
      using False gt wraps_u32[of off n] by (auto simp: readi_def Let_def)
    moreover have "unat off + (unat ?n - unat (0 :: u32)) \<le> MAXBYTES" unfolding n using le(1) assms(3) by simp
    note l = readi_loop_ok[OF assms(1,2) _ this, of dst, unfolded n unat_0 diff_zero]
    ultimately show ?thesis using l False w by simp
  qed
qed

text \<open>C24: \<open>readi\<close> into the kernel delivers exactly the bytes of the file from \<open>off\<close> on, as many as asked for or
  as there are before the end, across block boundaries and the indirect block; a position behind the
  end or a wrapped range gives nothing. The contents of the file do not change, and without holes
  nothing else on the disk or in the kernel does.\<close>

theorem readi_correct:
  assumes "idle_fs s" "file_wf s ip" "fsize s ip \<le> MAXBYTES"
  shows "if fsize s ip < unat off \<or> 2 ^ 32 \<le> unat off + unat n then readi ip False dst off n s = Inr (0, [], s)
    else hole s ip (unat off) (min (unat n) (fsize s ip - unat off)) \<and>
        readi ip False dst off n s = Inl (Panic ''balloc: out of blocks'') \<or>
      (\<exists>s'. readi ip False dst off n s = Inr (of_nat (min (unat n) (fsize s ip - unat off)),
          map (\<lambda>i. fbyte s ip (unat off + i)) [0..<min (unat n) (fsize s ip - unat off)], s') \<and> grows ip s s' \<and>
        (\<not> hole s ip (unat off) (min (unat n) (fsize s ip - unat off)) \<longrightarrow> disk s' = disk s \<and> nodisk s' = nodisk s))"
  by (rule readi_ok[OF assms])

theorem readi_correct_witness:
  "\<exists>s'. readi 0 False 0 0 2 file_fs = Inr (2, [7, 0], s')"
proof -
  have z: "fsize file_fs 0 = 2000" by (simp add: fsize_def file_fs small_inode_def)
  have f: "fblk file_fs 0 0 = 2" by (simp add: fblk_def file_fs)
  have h: "\<not> hole file_fs 0 0 2" using f by (auto simp: hole_def)
  have "fbyte file_fs 0 0 = 7" "fbyte file_fs 0 1 = 0" by (simp_all add: fbyte_def block_def f file_fs(2))
  then have m: "map (\<lambda>i. fbyte file_fs 0 (0 + i)) [0..<2] = [7, 0]" by (simp add: upt_conv_Cons)
  show ?thesis using readi_correct[OF file_fs(1) file_fs_wf, of 0 2 0] z h m by auto
qed

section \<open>Storing a block\<close>

lemma store_block:
  assumes "file_wf s ip" "\<forall>b < nblocks s. y \<noteq> bmap_block s b" "y \<noteq> ind s ip \<or> y = 0"
    and "nodisk s' = nodisk s" "disk s' = (disk s)(y := d)"
  shows "file_wf s' ip" "fblk s' ip = fblk s ip" "ind s' ip = ind s ip" "nofs s' = nofs s" "itable s' = itable s"
    "good s' n x = good s n x" "block s' ip l = (if fblk s ip l \<noteq> 0 \<and> fblk s ip l = y then d else block s ip l)"
proof -
  show k: "itable s' = itable s" and n: "nofs s' = nofs s" using nodisk_kfs[OF assms(4)] nofs_nodisk[OF assms(4)] by simp_all
  have sb: "sb s' = sb s" using nodisk_kfs[OF assms(4)] by simp
  have c: "nblocks s' = nblocks s" "bmap_block s' = bmap_block s" using sb by (simp_all add: nblocks_def bmap_block_def fun_eq_iff)
  have u: "used s' b = used s b" if "b < nblocks s" for b
  proof -
    have "bmap_block s b \<noteq> y" using assms(2) that by blast
    then show ?thesis using assms(5) by (simp add: used_def c)
  qed
  show g: "good s' n x = good s n x" for n x using u by (auto simp: good_def c sb)
  have m: "meta_wf s' n = meta_wf s n" for n using u by (auto simp: meta_wf_def bitmap_wf_def c sb)
  show i: "ind s' ip = ind s ip" by (simp add: ind_def k)
  have "ind s ip \<noteq> 0 \<Longrightarrow> disk s' (ind s ip) = disk s (ind s ip)" using assms(3,5) by auto
  then show fb: "fblk s' ip = fblk s ip" by (auto simp: fblk_def i k fun_eq_iff)
  show "file_wf s' ip" using assms(1) by (simp add: file_wf_def k m wf_map_def fb i g)
  show "block s' ip l = (if fblk s ip l \<noteq> 0 \<and> fblk s ip l = y then d else block s ip l)" by (auto simp: block_def fb assms(5))
qed

section \<open>writei\<close>

text \<open>Blocks that belong to others: good, and neither data nor indirect block of the file.\<close>

definition foreign :: "'a kfs_scheme \<Rightarrow> nat \<Rightarrow> u32 \<Rightarrow> bool" where
  "foreign s ip x \<longleftrightarrow> good s (i_inum (itable s ! ip)) x \<and> x \<noteq> ind s ip \<and> (\<forall>k<268. x \<noteq> fblk s ip k)"

text \<open>What a write does besides the contents of the file.\<close>

definition writes :: "nat \<Rightarrow> 'a kfs_scheme \<Rightarrow> 'a kfs_scheme \<Rightarrow> bool" where
  "writes ip s s' \<longleftrightarrow> idle_fs s' \<and> file_wf s' ip \<and> nofs s' = nofs s \<and> length (itable s') = length (itable s) \<and>
     (\<forall>j. j \<noteq> ip \<longrightarrow> itable s' ! j = itable s ! j) \<and> (\<exists>as. itable s' ! ip = (itable s ! ip)\<lparr>i_addrs := as\<rparr>) \<and>
     (\<forall>k<268. fblk s ip k \<noteq> 0 \<longrightarrow> fblk s' ip k = fblk s ip k) \<and>
     (\<forall>x. foreign s ip x \<longrightarrow> foreign s' ip x \<and> disk s' x = disk s x)"

lemma grows_writes: "grows ip s s' \<Longrightarrow> writes ip s s'"
  unfolding grows_def writes_def foreign_def by (auto dest: spec)

lemma writes_trans:
  assumes "writes ip s s1" "writes ip s1 s2"
  shows "writes ip s s2"
proof -
  obtain as bs where as: "itable s1 ! ip = (itable s ! ip)\<lparr>i_addrs := as\<rparr>" "itable s2 ! ip = (itable s1 ! ip)\<lparr>i_addrs := bs\<rparr>"
    using assms unfolding writes_def by blast
  then have "\<exists>cs. itable s2 ! ip = (itable s ! ip)\<lparr>i_addrs := cs\<rparr>" by auto
  then show ?thesis using assms unfolding writes_def by auto
qed

text \<open>The bytes from \<open>off\<close> on are replaced.\<close>

definition overwrites :: "nat \<Rightarrow> nat \<Rightarrow> u8 list \<Rightarrow> 'a kfs_scheme \<Rightarrow> 'a kfs_scheme \<Rightarrow> bool" where
  "overwrites ip off bs s s' \<longleftrightarrow>
     (\<forall>p < MAXBYTES. fbyte s' ip p = (if off \<le> p \<and> p < off + length bs then bs ! (p - off) else fbyte s ip p))"

lemma overwrites_append:
  "overwrites ip off bs s s1 \<Longrightarrow> overwrites ip (off + length bs) cs s1 s2 \<Longrightarrow> overwrites ip off (bs @ cs) s s2"
  by (auto simp: overwrites_def nth_append)

lemma writei_round:
  assumes "idle_fs s" "file_wf s ip" "tot < n" "unat off + (unat n - unat tot) \<le> MAXBYTES" "unat n - unat tot \<le> length ksrc"
  defines "m \<equiv> rw_size n tot off"
  shows "fblk s ip (unat off div 1024) = 0 \<and> writei_loop ip False src ksrc off n tot s = Inl (Panic ''balloc: out of blocks'') \<or>
    (\<exists>s2. writes ip s s2 \<and> overwrites ip (unat off) (take (unat m) ksrc) s s2 \<and> fblk s2 ip (unat off div 1024) \<noteq> 0 \<and>
      writei_loop ip False src ksrc off n tot s =
        writei_loop ip False (src + ucast m) (drop (unat m) ksrc) (off + m) n (tot + m) s2)"
proof -
  note r = rw_round[OF assms(3,4), folded m_def]
  let ?k = "unat off div 1024" and ?o1 = "unat off mod 1024"
  from map_read[OF assms(1,2) r(2)] show ?thesis
  proof (elim disjE exE conjE)
    assume "fblk s ip ?k = 0" "bmap ip (of_nat ?k) s = Inl (Panic ''balloc: out of blocks'')"
    then show ?thesis using assms(3) r(1) by (subst (1) writei_loop.simps) simp
  next
    fix s1 i s2
    assume b: "bmap ip (of_nat ?k) s = Inr (fblk s1 ip ?k, s1)" "grows ip s s1" "fblk s1 ip ?k \<noteq> 0" "i_dev (itable s1 ! ip) = 1"
      "bread 1 (fblk s1 ip ?k) s1 = Inr (i, s2)" "ready s1" "buf_data i s2 = block s ip ?k"
    let ?a = "fblk s1 ip ?k" and ?d = "put_at ?o1 (take (unat m) ksrc) (block s ip ?k)"
    define s3 where "s3 = brelse i (bwrite i (set_data i ?d s2))"
    have g: "idle_fs s1" "file_wf s1 ip" using b(2) by (simp_all add: grows_def)
    have len: "length (block s ip ?k) = 1024" by (rule block_length[OF idle_ready[OF assms(1)]])
    have mk: "unat m \<le> length ksrc" using r(6) assms(5) by simp
    have ld: "?o1 + length (take (unat m) ksrc) \<le> length (block s ip ?k)" using r(4) len mk by simp
    have "length ?d = 1024" using ld len by simp
    from bread_bwrite[OF b(6,5) this s3_def]
    have s3: "ready s3" "disk s3 = (disk s1)(?a := ?d)" "rest s3 = rest s1" by simp_all
    have nd: "nodisk s3 = nodisk s1" by (rule rest_nodisk[OF s3(3)])
    note wm = wf_mapD[OF file_wfD(5)[OF g(2)]]
    have ga: "good s1 (i_inum (itable s1 ! ip)) ?a" "?a \<noteq> ind s1 ip" using wm(2)[OF r(2) b(3)] by simp_all
    have nb: "\<forall>l < nblocks s1. ?a \<noteq> bmap_block s1 l" using ga(1) by (simp add: good_def)
    note sto = store_block[OF g(2) nb disjI1[OF ga(2)] nd s3(2)]
    have id3: "idle_fs s3" by (rule idle_rest[OF g(1) s3(1,3)])
    have "foreign s3 ip x \<and> disk s3 x = disk s1 x" if "foreign s1 ip x" for x
      using that r(2) unfolding foreign_def sto by (auto simp: s3(2))
    moreover have "\<exists>as. itable s1 ! ip = (itable s1 ! ip)\<lparr>i_addrs := as\<rparr>" by (rule exI[of _ "i_addrs (itable s1 ! ip)"]) simp
    ultimately have "writes ip s1 s3" unfolding writes_def sto(2-5) using id3 sto(1) by simp
    then have w: "writes ip s s3" using writes_trans[OF grows_writes[OF b(2)]] by blast
    have "overwrites ip (unat off) (take (unat m) ksrc) s s3"
      unfolding overwrites_def
    proof (intro allI impI)
      fix p assume p: "p < MAXBYTES"
      let ?l = "p div 1024"
      have l: "?l < 268" using p by (simp add: div_less_iff_less_mult)
      have b3: "block s3 ip ?l = (if ?l = ?k then ?d else block s ip ?l)"
      proof -
        have "block s1 ip ?l = block s ip ?l" using b(2) l by (simp add: grows_def)
        moreover have "fblk s1 ip ?l \<noteq> 0 \<and> fblk s1 ip ?l = ?a \<longleftrightarrow> ?l = ?k" using wm(3)[OF r(2) l b(3)] b(3) by metis
        ultimately show ?thesis unfolding sto(7) by simp
      qed
      show "fbyte s3 ip p = (if unat off \<le> p \<and> p < unat off + length (take (unat m) ksrc)
          then take (unat m) ksrc ! (p - unat off) else fbyte s ip p)"
      proof (cases "?l = ?k")
        case True
        have e: "p = ?k * 1024 + p mod 1024" "unat off = ?k * 1024 + ?o1" using True by (metis div_mult_mod_eq)+
        have iff: "unat off \<le> p \<longleftrightarrow> ?o1 \<le> p mod 1024" "p - unat off = p mod 1024 - ?o1"
          "p < unat off + unat m \<longleftrightarrow> p mod 1024 < ?o1 + unat m" using e by linarith+
        have "p mod 1024 < length (block s ip ?k)" using len by simp
        then have "fbyte s3 ip p = (if ?o1 \<le> p mod 1024 \<and> p mod 1024 < ?o1 + length (take (unat m) ksrc)
            then take (unat m) ksrc ! (p mod 1024 - ?o1) else block s ip ?k ! (p mod 1024))"
          unfolding fbyte_def b3 if_P[OF True] by (rule nth_put_at[OF ld])
        then show ?thesis using iff mk True by (simp add: fbyte_def)
      next
        case False
        have "\<not> (unat off \<le> p \<and> p < unat off + unat m)" 
        proof
          assume h: "unat off \<le> p \<and> p < unat off + unat m"
          then have "p - unat off < unat m" by linarith
          from r(10)[OF this] show False using h False by simp
        qed
        then show ?thesis using b3 False mk by (auto simp: fbyte_def)
      qed
    qed
    moreover have "writei_loop ip False src ksrc off n tot s =
        writei_loop ip False (src + ucast m) (drop (unat m) ksrc) (off + m) n (tot + m) s3"
      using assms(3) b(1,4,5,7) r(1,3) mk
      by (subst writei_loop.simps) (simp add: either_copyin_def m_def[symmetric] Let_def s3_def)
    moreover have "fblk s3 ip ?k \<noteq> 0" using b(3) by (simp add: sto)
    ultimately show ?thesis using w by blast
  qed
qed

lemma writei_loop_ok:
  assumes "idle_fs s" "file_wf s ip" "tot \<le> n" "unat off + (unat n - unat tot) \<le> MAXBYTES" "unat n - unat tot \<le> length ksrc"
  shows "hole s ip (unat off) (unat n - unat tot) \<and> writei_loop ip False src ksrc off n tot s = Inl (Panic ''balloc: out of blocks'') \<or>
    (\<exists>s'. writei_loop ip False src ksrc off n tot s = Inr (n, off + (n - tot), s') \<and> writes ip s s' \<and>
      overwrites ip (unat off) (take (unat n - unat tot) ksrc) s s' \<and> \<not> hole s' ip (unat off) (unat n - unat tot))"
  using assms
proof (induction "unat n - unat tot" arbitrary: tot off src ksrc s rule: less_induct)
  case less
  show ?case
  proof (cases "tot < n")
    case False
    then have "tot = n" using less.prems(3) by (simp add: order_le_less)
    then show ?thesis using grows_writes[OF grows_refl[OF less.prems(1,2)]]
      by (subst (1 2) writei_loop.simps) (auto simp: overwrites_def hole_def)
  next
    case True
    define m where "m = rw_size n tot off"
    note r = rw_round[OF True less.prems(4), folded m_def]
    let ?N = "unat n - unat tot" and ?k = "unat off div 1024"
    have h0: "hole s ip (unat off) ?N" if "fblk s ip ?k = 0"
      unfolding hole_def by (rule exI[of _ "unat off"]) (use that True in \<open>simp add: word_less_nat_alt\<close>)
    from writei_round[OF less.prems(1,2) True less.prems(4,5), folded m_def, of src] show ?thesis
    proof (elim disjE exE conjE)
      fix s2
      assume w: "writes ip s s2" "overwrites ip (unat off) (take (unat m) ksrc) s s2" and nz: "fblk s2 ip ?k \<noteq> 0"
        and st: "writei_loop ip False src ksrc off n tot s =
          writei_loop ip False (src + ucast m) (drop (unat m) ksrc) (off + m) n (tot + m) s2"
      have N: "unat n - unat (tot + m) = ?N - unat m" "?N - unat m < ?N" using r(5,6,9) by simp_all
      have b: "unat (off + m) + (unat n - unat (tot + m)) \<le> MAXBYTES" using r(6,8) N(1) less.prems(4) by simp
      have lk: "unat n - unat (tot + m) \<le> length (drop (unat m) ksrc)" using N(1) less.prems(5) by simp
      have i2: "idle_fs s2" "file_wf s2 ip" using w(1) by (simp_all add: writes_def)
      have hs: "hole s ip (unat off) ?N" if h: "hole s2 ip (unat (off + m)) (?N - unat m)"
      proof -
        obtain p where p: "unat (off + m) \<le> p" "p < unat (off + m) + (?N - unat m)" "fblk s2 ip (p div 1024) = 0"
          using h unfolding hole_def by blast
        then have "p div 1024 < 268" using b N(1) by (simp add: div_less_iff_less_mult)
        then have "fblk s ip (p div 1024) = 0" using w(1) p(3) unfolding writes_def by metis
        then show ?thesis unfolding hole_def using p(1,2) r(6,8) by (intro exI[of _ p]) auto
      qed
      have "unat n - unat (tot + m) < ?N" using N by simp
      from less.hyps[OF this i2 r(7) b lk, of "src + ucast m", unfolded N(1)] show ?thesis
      proof (elim disjE exE conjE)
        assume "hole s2 ip (unat (off + m)) (?N - unat m)"
          "writei_loop ip False (src + ucast m) (drop (unat m) ksrc) (off + m) n (tot + m) s2 = Inl (Panic ''balloc: out of blocks'')"
        then show ?thesis using hs st by simp
      next
        fix s' assume s': "writei_loop ip False (src + ucast m) (drop (unat m) ksrc) (off + m) n (tot + m) s2 =
            Inr (n, off + m + (n - (tot + m)), s')" "writes ip s2 s'"
          "overwrites ip (unat (off + m)) (take (?N - unat m) (drop (unat m) ksrc)) s2 s'"
          "\<not> hole s' ip (unat (off + m)) (?N - unat m)"
        have l: "length (take (unat m) ksrc) = unat m" using r(6) less.prems(5) by simp
        have t: "take (unat m) ksrc @ take (?N - unat m) (drop (unat m) ksrc) = take ?N ksrc"
          using take_add[of "unat m" "?N - unat m" ksrc] le_add_diff_inverse[OF r(6)] by simp
        have "overwrites ip (unat off) (take ?N ksrc) s s'"
          using overwrites_append[OF w(2), unfolded l, of _ s'] s'(3) unfolding r(8) t[symmetric] by blast
        moreover have "\<not> hole s' ip (unat off) ?N"
        proof
          assume "hole s' ip (unat off) ?N"
          then obtain p where p: "unat off \<le> p" "p < unat off + ?N" "fblk s' ip (p div 1024) = 0" unfolding hole_def by blast
          have "fblk s' ip ?k \<noteq> 0" using s'(2) nz r(2) unfolding writes_def by metis
          then have "\<not> p - unat off < unat m" using r(10)[of "p - unat off"] p(1,3) by auto
          then have "hole s' ip (unat (off + m)) (?N - unat m)"
            unfolding hole_def r(8) using p r(6) by (intro exI[of _ p]) auto
          then show False using s'(4) by simp
        qed
        moreover have "off + m + (n - (tot + m)) = off + (n - tot)" by simp
        ultimately show ?thesis using st s'(1) writes_trans[OF w(1) s'(2)] by auto
      qed
    qed (use h0 in simp)
  qed
qed

text \<open>The end of \<open>writei\<close>: the new size, and the inode on disk.\<close>

lemma set_size_file:
  assumes "ip < length (itable s)" and s'_def: "s' = upd_inode ip (\<lambda>x. x\<lparr>i_size := z\<rparr>) s"
  shows "fblk s' ip = fblk s ip" "ind s' ip = ind s ip" "block s' ip = block s ip" "file_wf s' ip = file_wf s ip"
    "foreign s' ip = foreign s ip"
proof -
  have i: "itable s' ! ip = (itable s ! ip)\<lparr>i_size := z\<rparr>" using assms by simp
  have b: "disk s' = disk s" "good s' = good s" "meta_wf s' = meta_wf s" "length (itable s') = length (itable s)"
    by (simp_all add: s'_def)
  show fb: "fblk s' ip = fblk s ip" "ind s' ip = ind s ip" by (simp_all add: fblk_def ind_def i b fun_eq_iff)
  show "block s' ip = block s ip" by (simp add: block_def fb b fun_eq_iff)
  show "file_wf s' ip = file_wf s ip" by (simp add: file_wf_def i fb wf_map_def b)
  show "foreign s' ip = foreign s ip" by (simp add: foreign_def i fb fun_eq_iff b)
qed

lemma iupdate_file:
  assumes "idle_fs s" "file_wf s ip"
  shows "\<exists>s'. iupdate ip s = Inr s' \<and> idle_fs s' \<and> file_wf s' ip \<and> nofs s' = nofs s \<and> itable s' = itable s \<and> fblk s' ip = fblk s ip \<and>
    (\<forall>k<268. block s' ip k = block s ip k) \<and> (\<forall>x. foreign s ip x \<longrightarrow> foreign s' ip x \<and> disk s' x = disk s x)"
proof -
  note f = file_wfD[OF assms(2)]
  let ?b = "IBLOCK (i_inum (itable s ! ip)) (sb s)"
  obtain s' d where s': "iupdate ip s = Inr s'" "ready s'" "rest s' = rest s" "disk s' = (disk s)(?b := d)"
    using iupdate_ok[OF idle_ready[OF assms(1)] f(2,3)] by blast
  have nb: "\<forall>l < nblocks s. ?b \<noteq> bmap_block s l" using f(4) by (simp add: meta_wf_def)
  note wm = wf_mapD[OF f(5)]
  have ni: "?b \<noteq> ind s ip \<or> ?b = 0" using wm(1) by (cases "ind s ip = 0") (auto simp: good_def)
  note sto = store_block[OF assms(2) nb ni rest_nodisk[OF s'(3)] s'(4)]
  have "block s' ip k = block s ip k" if "k < 268" for k using wm(2)[OF that] by (auto simp: sto(7) good_def)
  moreover have "foreign s' ip x \<and> disk s' x = disk s x" if "foreign s ip x" for x
    using that unfolding foreign_def sto by (auto simp: s'(4) good_def)
  ultimately show ?thesis using s'(1) idle_rest[OF assms(1) s'(2,3)] sto by blast
qed

lemma writei_ok:
  assumes "idle_fs s" "file_wf s ip" "unat n \<le> length ksrc"
  shows "if fsize s ip < unat off \<or> 2 ^ 32 \<le> unat off + unat n \<or> MAXBYTES < unat off + unat n
    then writei ip False src ksrc off n s = Inr (-1, s)
    else hole s ip (unat off) (unat n) \<and> writei ip False src ksrc off n s = Inl (Panic ''balloc: out of blocks'') \<or>
      (\<exists>s'. writei ip False src ksrc off n s = Inr (n, s') \<and> overwrites ip (unat off) (take (unat n) ksrc) s s' \<and>
        fsize s' ip = max (fsize s ip) (unat off + unat n) \<and> idle_fs s' \<and> file_wf s' ip \<and> nofs s' = nofs s \<and>
        \<not> hole s' ip (unat off) (unat n) \<and>
        (\<forall>j. j \<noteq> ip \<longrightarrow> itable s' ! j = itable s ! j) \<and>
        (\<exists>as z. itable s' ! ip = (itable s ! ip)\<lparr>i_addrs := as, i_size := z\<rparr>) \<and>
        (\<forall>k<268. fblk s ip k \<noteq> 0 \<longrightarrow> fblk s' ip k = fblk s ip k) \<and>
        (\<forall>x. foreign s ip x \<longrightarrow> foreign s' ip x \<and> disk s' x = disk s x))"
proof -
  let ?sz = "i_size (itable s ! ip)"
  have gt: "off > ?sz \<longleftrightarrow> fsize s ip < unat off" by (simp add: fsize_def word_less_nat_alt)
  show ?thesis
  proof (cases "fsize s ip < unat off \<or> 2 ^ 32 \<le> unat off + unat n \<or> MAXBYTES < unat off + unat n")
    case True
    show ?thesis
    proof (cases "fsize s ip < unat off \<or> 2 ^ 32 \<le> unat off + unat n")
      case b: True
      then show ?thesis using gt wraps_u32[of off n] True by (auto simp: writei_def Let_def)
    next
      case False
      then have "unat (off + n) = unat off + unat n" by (subst unat_add_lem[THEN iffD1]) simp_all
      then have "off + n > 274432" using True False by (simp add: word_less_nat_alt)
      then show ?thesis using True by (simp add: writei_def)
    qed
  next
    case False
    then have le: "unat off \<le> fsize s ip" "unat off + unat n < 2 ^ 32" "unat off + unat n \<le> MAXBYTES" by simp_all
    have u: "unat (off + n) = unat off + unat n" using le(2) by (subst unat_add_lem[THEN iffD1]) simp_all
    then have "\<not> off + n > 274432" using le(3) by (simp add: word_less_nat_alt)
    then have w: "writei ip False src ksrc off n s = bindE (writei_loop ip False src ksrc off n 0 s) (\<lambda>(tot, off, s).
        let s = (if off > i_size (itable s ! ip) then upd_inode ip (\<lambda>x. x\<lparr>i_size := off\<rparr>) s else s)
        in bindE (iupdate ip s) (\<lambda>s. Inr (tot, s)))"
      using False gt wraps_u32[of off n] by (auto simp: writei_def)
    have "(0 :: u32) \<le> n" "unat off + (unat n - unat (0 :: u32)) \<le> MAXBYTES" "unat n - unat (0 :: u32) \<le> length ksrc"
      using le(3) assms(3) by simp_all
    from writei_loop_ok[OF assms(1,2) this, of src] show ?thesis
    proof (elim disjE exE conjE)
      fix s1 assume l: "writei_loop ip False src ksrc off n 0 s = Inr (n, off + (n - 0), s1)" "writes ip s s1"
        "overwrites ip (unat off) (take (unat n - unat (0 :: u32)) ksrc) s s1" "\<not> hole s1 ip (unat off) (unat n - unat (0 :: u32))"
      have w1: "idle_fs s1" "file_wf s1 ip" "nofs s1 = nofs s" "\<forall>j. j \<noteq> ip \<longrightarrow> itable s1 ! j = itable s ! j"
        "i_size (itable s1 ! ip) = ?sz" "\<And>x. foreign s ip x \<Longrightarrow> foreign s1 ip x \<and> disk s1 x = disk s x"
        and k1: "\<forall>k<268. fblk s ip k \<noteq> 0 \<longrightarrow> fblk s1 ip k = fblk s ip k"
        using l(2) by (auto simp: writes_def)
      obtain as where as: "itable s1 ! ip = (itable s ! ip)\<lparr>i_addrs := as\<rparr>" using l(2) by (auto simp: writes_def)
      define s2 where "s2 = (if off + n > ?sz then upd_inode ip (\<lambda>x. x\<lparr>i_size := off + n\<rparr>) s1 else s1)"
      note i1 = file_wfD(1)[OF w1(2)]
      note ss = set_size_file[OF i1 refl, of "off + n"]
      have s2: "idle_fs s2" "file_wf s2 ip" "nofs s2 = nofs s" "block s2 ip = block s1 ip" "foreign s2 ip = foreign s1 ip"
        "disk s2 = disk s1" "\<forall>j. j \<noteq> ip \<longrightarrow> itable s2 ! j = itable s ! j" "fblk s2 ip = fblk s1 ip"
        using w1 ss by (simp_all add: s2_def)
      have z2: "fsize s2 ip = max (fsize s ip) (unat off + unat n)"
        using i1 w1(5) u by (auto simp: s2_def fsize_def word_less_nat_alt)
      obtain s3 where s3: "iupdate ip s2 = Inr s3" "idle_fs s3" "file_wf s3 ip" "nofs s3 = nofs s2" "itable s3 = itable s2" "fblk s3 ip = fblk s2 ip"
        "\<forall>k<268. block s3 ip k = block s2 ip k" "\<forall>x. foreign s2 ip x \<longrightarrow> foreign s3 ip x \<and> disk s3 x = disk s2 x"
        using iupdate_file[OF s2(1,2)] by blast
      have "writei ip False src ksrc off n s = Inr (n, s3)"
        unfolding w l(1) bindE.simps prod.case w1(5) Let_def using s3(1)
        by (cases "off + n > ?sz") (simp_all add: s2_def)
      moreover have "overwrites ip (unat off) (take (unat n) ksrc) s s3"
        using l(3) s3(7) s2(4) by (simp add: overwrites_def fbyte_def div_less_iff_less_mult)
      moreover have "\<not> hole s3 ip (unat off) (unat n)" using l(4) s3(6) s2(8) by (simp add: hole_def)
      moreover have "fsize s3 ip = max (fsize s ip) (unat off + unat n)" using z2 s3(5) by (simp add: fsize_def)
      moreover have "\<exists>as z. itable s3 ! ip = (itable s ! ip)\<lparr>i_addrs := as, i_size := z\<rparr>"
      proof -
        have same: "(itable s ! ip)\<lparr>i_addrs := as, i_size := ?sz\<rparr> = (itable s ! ip)\<lparr>i_addrs := as\<rparr>" by simp
        show ?thesis
        proof (cases "off + n > ?sz")
          case True
          then show ?thesis using as i1 s3(5) by (auto simp: s2_def intro: exI[of _ as] exI[of _ "off + n"])
        next
          case False
          then show ?thesis using as s3(5) same by (intro exI[of _ as] exI[of _ ?sz]) (simp add: s2_def)
        qed
      qed
      moreover have "\<forall>k<268. fblk s ip k \<noteq> 0 \<longrightarrow> fblk s3 ip k = fblk s ip k" using k1 s2(8) s3(6) by simp
      moreover have "foreign s3 ip x \<and> disk s3 x = disk s x" if "foreign s ip x" for x
        using w1(6)[OF that] s3(8) s2(5,6) by simp
      ultimately show ?thesis using False s3 s2 by auto
    qed (use w False in simp)
  qed
qed



text \<open>C8: what \<open>writei\<close> has written, a following \<open>readi\<close> of the same range reads back, for every position and
  length inside the largest file; the two calls agree on the number of bytes, and reading needs no
  further allocation.\<close>

theorem writei_readi:
  assumes "idle_fs s" "file_wf s ip" "fsize s ip \<le> MAXBYTES" "unat n \<le> length ksrc"
    and "writei ip False src ksrc off n s = Inr (n, s')" "n \<noteq> -1"
  shows "\<exists>s''. readi ip False dst off n s' = Inr (n, take (unat n) ksrc, s'') \<and> disk s'' = disk s' \<and> nodisk s'' = nodisk s'"
proof -
  have ok: "\<not> (fsize s ip < unat off \<or> 2 ^ 32 \<le> unat off + unat n \<or> MAXBYTES < unat off + unat n)"
  proof
    assume "fsize s ip < unat off \<or> 2 ^ 32 \<le> unat off + unat n \<or> MAXBYTES < unat off + unat n"
    then have "writei ip False src ksrc off n s = Inr (-1, s)" using writei_ok[OF assms(1,2,4), of off src] by simp
    then show False using assms(5,6) by simp
  qed
  then have w: "overwrites ip (unat off) (take (unat n) ksrc) s s'" "fsize s' ip = max (fsize s ip) (unat off + unat n)"
    "idle_fs s'" "file_wf s' ip" "\<not> hole s' ip (unat off) (unat n)"
    using writei_ok[OF assms(1,2,4), of off src] assms(5) by auto
  have m: "min (unat n) (fsize s' ip - unat off) = unat n" using w(2) by simp
  have z: "fsize s' ip \<le> MAXBYTES" "\<not> (fsize s' ip < unat off \<or> 2 ^ 32 \<le> unat off + unat n)" using w(2) assms(3) ok by auto
  have "map (\<lambda>i. fbyte s' ip (unat off + i)) [0..<unat n] = take (unat n) ksrc"
    using w(1) ok assms(4) by (intro nth_equalityI) (auto simp: overwrites_def)
  then show ?thesis using readi_ok[OF w(3,4) z(1), of off n dst] z(2) w(5) unfolding m by auto
qed

theorem writei_readi_witness:
  "\<exists>s' s''. writei 0 False 0 [5, 6] 1 2 file_fs = Inr (2, s') \<and> readi 0 False 0 1 2 s' = Inr (2, [5, 6], s'')"
proof -
  have z: "fsize file_fs 0 = 2000" by (simp add: fsize_def file_fs small_inode_def)
  have "fblk file_fs 0 0 = 2" by (simp add: fblk_def file_fs)
  then have "\<not> hole file_fs 0 1 2" by (auto simp: hole_def)
  then obtain s' where w: "writei 0 False 0 [5, 6] 1 2 file_fs = Inr (2, s')"
    using writei_ok[OF file_fs(1) file_fs_wf, of 2 "[5, 6]" 1 0] z by auto
  then show ?thesis using writei_readi[OF file_fs(1) file_fs_wf _ _ w, of 0] z by auto
qed

end
