(* ===== verification/FsDir.thy ===== *)
theory FsDir
  imports FsRw
begin

text \<open>
  Directories: the entries of a directory file are a partial map from names to inode numbers;
  \<open>dirlookup\<close> evaluates it and \<open>dirlink\<close> extends it.
\<close>

section \<open>Entries\<close>

definition ent :: "'a kfs_scheme \<Rightarrow> nat \<Rightarrow> nat \<Rightarrow> u8 list" where
  "ent s dp k = map (\<lambda>i. fbyte s dp (16 * k + i)) [0..<16]"

definition ents :: "'a kfs_scheme \<Rightarrow> nat \<Rightarrow> u8 list list" where
  "ents s dp = map (ent s dp) [0..<fsize s dp div 16]"

text \<open>A directory: whole entries, all its blocks there.\<close>

definition dir_wf :: "'a kfs_scheme \<Rightarrow> nat \<Rightarrow> bool" where
  "dir_wf s dp \<longleftrightarrow> idle_fs s \<and> file_wf s dp \<and> i_type (itable s ! dp) = T_DIR \<and> fsize s dp \<le> 274432 \<and>
     16 dvd fsize s dp \<and> \<not> hole s dp 0 (fsize s dp)"

text \<open>The entry of a name, cut at 14 characters and at the first zero byte.\<close>

definition matches :: "u8 list \<Rightarrow> u8 list \<Rightarrow> bool" where
  "matches nm de \<longleftrightarrow> de_inum de \<noteq> 0 \<and> cstrn 14 (de_name de) = nm"

definition dirmap :: "'a kfs_scheme \<Rightarrow> nat \<Rightarrow> u8 list \<Rightarrow> u16 option" where
  "dirmap s dp nm = map_option (\<lambda>j. de_inum (ents s dp ! j)) (find_idx (matches nm) (ents s dp))"

text \<open>States that differ in the cache only.\<close>

definition same_fs :: "'a kfs_scheme \<Rightarrow> 'a kfs_scheme \<Rightarrow> bool" where
  "same_fs s s' \<longleftrightarrow> idle_fs s' \<and> disk s' = disk s \<and> nodisk s' = nodisk s"

lemma same_fs_refl: "idle_fs s \<Longrightarrow> same_fs s s"
  by (simp add: same_fs_def)

lemma same_fs_trans: "same_fs s s1 \<Longrightarrow> same_fs s1 s2 \<Longrightarrow> same_fs s s2"
  by (simp add: same_fs_def)

lemma same_fs_view:
  assumes "same_fs s s'"
  shows "itable s' = itable s" "fsize s' dp = fsize s dp" "fblk s' dp = fblk s dp" "ent s' dp = ent s dp" "ents s' dp = ents s dp"
    "dirmap s' dp = dirmap s dp" "dir_wf s dp \<Longrightarrow> dir_wf s' dp"
proof -
  have e: "disk s' = disk s" "nodisk s' = nodisk s" "idle_fs s'" using assms by (simp_all add: same_fs_def)
  note c = fs_cong[OF e(1,2)]
  show t: "itable s' = itable s" by (rule c(2))
  show z: "fsize s' dp = fsize s dp" by (simp add: fsize_def t)
  show f: "fblk s' dp = fblk s dp" by (rule c(8))
  show "ent s' dp = ent s dp" by (simp add: ent_def fbyte_def c(10) fun_eq_iff)
  then show en: "ents s' dp = ents s dp" by (simp add: ents_def z)
  show "dirmap s' dp = dirmap s dp" by (simp add: dirmap_def en fun_eq_iff)
  show "dir_wf s dp \<Longrightarrow> dir_wf s' dp" using e(3) c(11) by (simp add: dir_wf_def z t hole_def f)
qed

lemma read_entry:
  assumes "dir_wf s dp" "16 * k < fsize s dp"
  shows "\<exists>s'. readi dp False dst (of_nat (16 * k)) 16 s = Inr (16, ent s dp k, s') \<and> same_fs s s'"
proof -
  have d: "idle_fs s" "file_wf s dp" "fsize s dp \<le> 274432" "16 dvd fsize s dp" "\<not> hole s dp 0 (fsize s dp)"
    using assms(1) by (simp_all add: dir_wf_def)
  obtain j where j: "fsize s dp = 16 * j" using d(4) by blast
  then have le: "16 * k + 16 \<le> fsize s dp" using assms(2) by simp
  have u: "unat (of_nat (16 * k) :: u32) = 16 * k" using le d(3) by (intro unat_of_nat_u32) simp
  have nh: "\<not> hole s dp (16 * k) 16" using d(5) le by (auto simp: hole_def)
  have m: "min (unat (16 :: u32)) (fsize s dp - unat (of_nat (16 * k) :: u32)) = 16" using le unfolding u by simp
  have "\<not> (fsize s dp < 16 * k \<or> 2 ^ 32 \<le> 16 * k + unat (16 :: u32))" using le d(3) by simp
  then obtain s' where s': "readi dp False dst (of_nat (16 * k)) 16 s = Inr (16, ent s dp k, s')" "grows dp s s'" "disk s' = disk s \<and> nodisk s' = nodisk s"
    using readi_ok[OF d(1-3), of "of_nat (16 * k)" 16 dst] nh unfolding m unfolding u by (auto simp: ent_def)
  then show ?thesis by (auto simp: same_fs_def grows_def)
qed


lemma dir_wf_pos:
  assumes "dir_wf s dp" "k \<le> length (ents s dp)"
  shows "unat (of_nat (16 * k) :: u32) = 16 * k"
    "of_nat (16 * k) < i_size (itable s ! dp) \<longleftrightarrow> k < length (ents s dp)"
    "(of_nat (16 * k) + 16 :: u32) = of_nat (16 * Suc k)"
    "k < length (ents s dp) \<Longrightarrow> 16 * k < fsize s dp"
proof -
  have d: "fsize s dp \<le> 274432" "16 dvd fsize s dp" using assms(1) by (simp_all add: dir_wf_def)
  obtain j where j: "fsize s dp = 16 * j" using d(2) by blast
  have le: "16 * k \<le> fsize s dp" using assms(2) j by (simp add: ents_def)
  show u: "unat (of_nat (16 * k) :: u32) = 16 * k" using le d(1) by (intro unat_of_nat_u32) simp
  show "of_nat (16 * k) < i_size (itable s ! dp) \<longleftrightarrow> k < length (ents s dp)"
    unfolding word_less_nat_alt u using j by (simp add: fsize_def ents_def)
  show "(of_nat (16 * k) + 16 :: u32) = of_nat (16 * Suc k)" by (simp add: algebra_simps)
  show "k < length (ents s dp) \<Longrightarrow> 16 * k < fsize s dp" using j by (simp add: ents_def)
qed

lemma ents_nth: "k < length (ents s dp) \<Longrightarrow> ents s dp ! k = ent s dp k"
  by (simp add: ents_def)

lemma find_idx_at: "(\<forall>j<k. \<not> P (xs ! j)) \<Longrightarrow> k < length xs \<Longrightarrow> P (xs ! k) \<Longrightarrow> find_idx P xs = Some k"
  by (simp add: find_idx_Some)

lemma find_idx_end: "(\<forall>j<k. \<not> P (xs ! j)) \<Longrightarrow> k = length xs \<Longrightarrow> find_idx P xs = None"
  by (auto simp: find_idx_None in_set_conv_nth)

lemma name_scan: "scannable DIRSIZ (de_name (ent s dp k))" "length (ent s dp k) = 16"
  by (simp_all add: scannable_def de_name_def ent_def DIRSIZ_def)

section \<open>Scanning\<close>

lemma dir_find_ok:
  assumes "dir_wf s dp" "scannable 14 name" "k \<le> length (ents s dp)"
    "\<forall>j<k. \<not> matches (cstrn 14 name) (ents s dp ! j)"
  shows "\<exists>s'. same_fs s s' \<and> dir_find dp name (of_nat (16 * k)) s =
    Inr (map_option (\<lambda>j. (de_inum (ents s dp ! j), of_nat (16 * j))) (find_idx (matches (cstrn 14 name)) (ents s dp)), s')"
  using assms
proof (induction "length (ents s dp) - k" arbitrary: k s)
  case (0 k s)
  then have k: "k = length (ents s dp)" by simp
  then have "dir_find dp name (of_nat (16 * k)) s = Inr (None, s)"
    using dir_wf_pos(2)[OF 0(2,4)] by (subst dir_find.simps) simp
  moreover have "find_idx (matches (cstrn 14 name)) (ents s dp) = None" by (rule find_idx_end[OF 0(5) k])
  ultimately show ?case using 0(2) by (intro exI[of _ s]) (simp add: same_fs_refl dir_wf_def)
next
  case (Suc m k s)
  note pos = dir_wf_pos[OF Suc(3,5)]
  have k: "k < length (ents s dp)" using Suc(2) by simp
  obtain s1 where s1: "readi dp False 0 (of_nat (16 * k)) 16 s = Inr (16, ent s dp k, s1)" "same_fs s s1"
    using read_entry[OF Suc(3) pos(4)[OF k]] by blast
  note v = same_fs_view[OF s1(2)]
  obtain c where c: "strncmp name (de_name (ent s dp k)) DIRSIZ = Inr c"
    "c = 0 \<longleftrightarrow> cstrn 14 name = cstrn 14 (de_name (ent s dp k))"
    using strncmp_spec[of DIRSIZ name] name_scan(1) Suc(4) unfolding DIRSIZ_def by blast
  have step: "dir_find dp name (of_nat (16 * k)) s =
    (if matches (cstrn 14 name) (ent s dp k) then Inr (Some (de_inum (ent s dp k), of_nat (16 * k)), s1)
     else dir_find dp name (of_nat (16 * Suc k)) s1)"
    using k pos(2,3) s1(1) c by (subst dir_find.simps) (auto simp: matches_def add.commute)
  show ?case
  proof (cases "matches (cstrn 14 name) (ent s dp k)")
    case True
    then have "find_idx (matches (cstrn 14 name)) (ents s dp) = Some k"
      using k Suc(6) by (intro find_idx_at) (simp_all add: ents_nth)
    then show ?thesis using True s1(2) k unfolding step by (auto simp: ents_nth)
  next
    case False
    have m: "m = length (ents s1 dp) - Suc k" using Suc(2) by (simp add: v(5))
    have "\<forall>j<Suc k. \<not> matches (cstrn 14 name) (ents s1 dp ! j)"
      using Suc(6) False k by (auto simp: less_Suc_eq v(5) ents_nth)
    then obtain s2 where "same_fs s1 s2" "dir_find dp name (of_nat (16 * Suc k)) s1 =
      Inr (map_option (\<lambda>j. (de_inum (ents s1 dp ! j), of_nat (16 * j))) (find_idx (matches (cstrn 14 name)) (ents s1 dp)), s2)"
      using Suc(1)[OF m v(7)[OF Suc(3)] Suc(4)] k by (auto simp: v(5))
    then show ?thesis using False same_fs_trans[OF s1(2)] unfolding step by (auto simp: v(5))
  qed
qed

lemma dir_free_ok:
  assumes "dir_wf s dp" "k \<le> length (ents s dp)" "\<forall>j<k. de_inum (ents s dp ! j) \<noteq> 0"
  shows "\<exists>s' j. same_fs s s' \<and> dir_free dp (of_nat (16 * k)) s = Inr (of_nat (16 * j), s') \<and> j \<le> length (ents s dp) \<and>
    (\<forall>i<j. de_inum (ents s dp ! i) \<noteq> 0) \<and> (j < length (ents s dp) \<longrightarrow> de_inum (ents s dp ! j) = 0)"
  using assms
proof (induction "length (ents s dp) - k" arbitrary: k s)
  case (0 k s)
  then have k: "k = length (ents s dp)" by simp
  then have "dir_free dp (of_nat (16 * k)) s = Inr (of_nat (16 * k), s)"
    using dir_wf_pos(2)[OF 0(2,3)] by (subst dir_free.simps) simp
  then show ?case using 0(2,4) k by (intro exI[of _ s] exI[of _ k]) (simp add: same_fs_refl dir_wf_def)
next
  case (Suc m k s)
  note pos = dir_wf_pos[OF Suc(3,4)]
  have k: "k < length (ents s dp)" using Suc(2) by simp
  obtain s1 where s1: "readi dp False 0 (of_nat (16 * k)) 16 s = Inr (16, ent s dp k, s1)" "same_fs s s1"
    using read_entry[OF Suc(3) pos(4)[OF k]] by blast
  note v = same_fs_view[OF s1(2)]
  have step: "dir_free dp (of_nat (16 * k)) s =
    (if de_inum (ent s dp k) = 0 then Inr (of_nat (16 * k), s1) else dir_free dp (of_nat (16 * Suc k)) s1)"
    using k pos(2,3) s1(1) by (subst dir_free.simps) (auto simp: add.commute)
  show ?case
  proof (cases "de_inum (ent s dp k) = 0")
    case True
    then show ?thesis using s1(2) k Suc(5) unfolding step by (intro exI[of _ s1] exI[of _ k]) (simp add: ents_nth)
  next
    case False
    have m: "m = length (ents s1 dp) - Suc k" using Suc(2) by (simp add: v(5))
    have "\<forall>j<Suc k. de_inum (ents s1 dp ! j) \<noteq> 0"
      using Suc(5) False k by (auto simp: less_Suc_eq v(5) ents_nth)
    then obtain s2 j where "same_fs s1 s2" "dir_free dp (of_nat (16 * Suc k)) s1 = Inr (of_nat (16 * j), s2)"
      "j \<le> length (ents s dp)" "\<forall>i<j. de_inum (ents s dp ! i) \<noteq> 0" "j < length (ents s dp) \<longrightarrow> de_inum (ents s dp ! j) = 0"
      using Suc(1)[OF m v(7)[OF Suc(3)]] k by (auto simp: v(5))
    then show ?thesis using False same_fs_trans[OF s1(2)] unfolding step by auto
  qed
qed


section \<open>Lookup\<close>

lemma iget_disk:
  assumes "iget dev inum s = Inr (ip, s')"
  shows "disk s' = disk s" "nofs s' = nofs s" "idle_fs s' = idle_fs s" "length (itable s') = length (itable s)"
proof -
  have "\<exists>f. s' = upd_inode ip f s" using assms by (auto simp: iget_def split: option.splits)
  then show "disk s' = disk s" "nofs s' = nofs s" "idle_fs s' = idle_fs s" "length (itable s') = length (itable s)" by auto
qed

lemma dirlookup_ok:
  assumes "dir_wf s dp" "itable_wf s" "scannable 14 name"
  shows "case dirmap s dp (cstrn 14 name) of
      None \<Rightarrow> \<exists>s'. dirlookup dp name s = Inr (None, s') \<and> same_fs s s'
    | Some i \<Rightarrow> (\<forall>k < length (itable s). 0 < i_ref (itable s ! k)) \<and> dirlookup dp name s = Inl (Panic ''iget: no inodes'') \<or>
        (\<exists>ip off s'. dirlookup dp name s = Inr (Some (ip, off), s') \<and> ip < length (itable s) \<and>
          i_dev (itable s' ! ip) = 1 \<and> i_inum (itable s' ! ip) = ucast i \<and> 0 < i_ref (itable s' ! ip) \<and>
          i_ref (itable (iput ip s') ! ip) = i_ref (itable s ! ip) \<and> (i_ref (itable s ! ip) = 0 \<longrightarrow> \<not> i_valid (itable s' ! ip)) \<and>
          (0 < i_ref (itable s ! ip) \<longrightarrow> itable s' ! ip = (itable s ! ip)\<lparr>i_ref := i_ref (itable s ! ip) + 1\<rparr>) \<and>
          (\<forall>j. j \<noteq> ip \<longrightarrow> itable s' ! j = itable s ! j) \<and> itable_wf s' \<and> idle_fs s' \<and> length (itable s') = length (itable s) \<and> disk s' = disk s \<and> nofs s' = nofs s)"
proof -
  have d: "i_type (itable s ! dp) = T_DIR" "i_dev (itable s ! dp) = 1" using assms(1) by (simp_all add: dir_wf_def file_wf_def)
  obtain s1 where s1: "same_fs s s1" "dir_find dp name 0 s =
      Inr (map_option (\<lambda>j. (de_inum (ents s dp ! j), of_nat (16 * j))) (find_idx (matches (cstrn 14 name)) (ents s dp)), s1)"
    using dir_find_ok[OF assms(1,3), of 0] by auto
  note v = same_fs_view[OF s1(1)]
  show ?thesis
  proof (cases "find_idx (matches (cstrn 14 name)) (ents s dp)")
    case None
    then show ?thesis using s1 d(1) by (simp add: dirmap_def dirlookup_def)
  next
    case (Some j)
    have i: "dirmap s dp (cstrn 14 name) = Some (de_inum (ents s dp ! j))" using Some by (simp add: dirmap_def)
    have l: "dirlookup dp name s = bindE (iget 1 (ucast (de_inum (ents s dp ! j))) s1) (\<lambda>(ip, s). Inr (Some (ip, of_nat (16 * j)), s))"
      using s1(2) d v(1) Some by (simp add: dirlookup_def)
    have "itable_wf s1" using assms(2) v(1) by (simp add: itable_wf_def)
    from iget_ok[OF this, of 1 "ucast (de_inum (ents s dp ! j))"] show ?thesis
    proof (elim disjE exE conjE)
      fix ip s' assume g: "iget 1 (ucast (de_inum (ents s dp ! j))) s1 = Inr (ip, s')" "i_dev (itable s' ! ip) = 1"
        "i_inum (itable s' ! ip) = ucast (de_inum (ents s dp ! j))" "i_ref (itable s' ! ip) = i_ref (itable s1 ! ip) + 1"
        "itable_wf s'" "\<forall>j. j \<noteq> ip \<longrightarrow> itable s' ! j = itable s1 ! j" "ip < length (itable s1)" 
        "i_ref (itable (iput ip s') ! ip) = i_ref (itable s1 ! ip)" "i_ref (itable s1 ! ip) = 0 \<longrightarrow> \<not> i_valid (itable s' ! ip)"
        "0 < i_ref (itable s1 ! ip) \<longrightarrow> itable s' ! ip = (itable s1 ! ip)\<lparr>i_ref := i_ref (itable s1 ! ip) + 1\<rparr>"
      have r: "0 \<le> i_ref (itable s ! ip)" using assms(2) g(7) v(1) by (simp add: itable_wf_def)
      have "disk s1 = disk s \<and> nofs s1 = nofs s" using s1(1) fs_cong(12)[of s1 s] by (simp add: same_fs_def)
      then have "disk s' = disk s" "nofs s' = nofs s" using iget_disk(1,2)[OF g(1)] by simp_all
      moreover have "idle_fs s'" "length (itable s') = length (itable s)"
        using iget_disk(3,4)[OF g(1)] s1(1) v(1) by (simp_all add: same_fs_def)
      ultimately show ?thesis using g r v(1) unfolding i l by auto
    qed (use v(1) in \<open>simp add: i l\<close>)
  qed
qed


section \<open>Linking\<close>

text \<open>An entry list with the free or new slot \<open>j\<close> taken by an entry for \<open>nm\<close>.\<close>

lemma find_idx_put:
  assumes "length es' = max (length es) (Suc j)" "j \<le> length es" "j < length es \<longrightarrow> \<not> P (es ! j)"
    "\<forall>k < length es. k \<noteq> j \<longrightarrow> es' ! k = es ! k"
  shows "\<not> P (es' ! j) \<Longrightarrow> find_idx P es' = find_idx P es"
    "P (es' ! j) \<Longrightarrow> find_idx P es = None \<Longrightarrow> find_idx P es' = Some j"
proof -
  assume n: "\<not> P (es' ! j)"
  have e: "P (es' ! k) \<longleftrightarrow> k < length es \<and> P (es ! k)" if "k < length es'" for k
  proof (cases "k = j")
    case False
    then have "k < length es" using that assms(1,2) by (auto simp: max_def split: if_splits)
    then show ?thesis using assms(4) False by simp
  qed (use n assms(3) in auto)
  show "find_idx P es' = find_idx P es"
  proof (cases "find_idx P es")
    case None
    then have "\<forall>k < length es. \<not> P (es ! k)" by (simp add: find_idx_None)
    then have "\<forall>k < length es'. \<not> P (es' ! k)" using e by blast
    then have "find_idx P es' = None" by (auto simp: find_idx_None in_set_conv_nth)
    then show ?thesis using None by simp
  next
    case (Some i)
    then have "find_idx P es' = Some i" using e assms(1) by (auto simp: find_idx_Some)
    then show ?thesis using Some by simp
  qed
next
  assume "P (es' ! j)" "find_idx P es = None"
  moreover from this(2) have "\<forall>k < length es. \<not> P (es ! k)" by (simp add: find_idx_None)
  ultimately show "find_idx P es' = Some j" using assms by (auto simp: find_idx_Some)
qed

lemma dirmap_put:
  assumes "length (ents s' dp) = max (length (ents s dp)) (Suc j)" "j \<le> length (ents s dp)"
    "j < length (ents s dp) \<longrightarrow> de_inum (ents s dp ! j) = 0"
    "\<forall>k < length (ents s dp). k \<noteq> j \<longrightarrow> ents s' dp ! k = ents s dp ! k"
    "de_inum (ents s' dp ! j) = i" "i \<noteq> 0" "cstrn 14 (de_name (ents s' dp ! j)) = nm" "dirmap s dp nm = None"
  shows "dirmap s' dp = (dirmap s dp)(nm \<mapsto> i)"
proof
  fix x
  have m: "matches x (ents s' dp ! j) \<longleftrightarrow> x = nm" using assms(5-7) by (auto simp: matches_def)
  have f: "j < length (ents s dp) \<longrightarrow> \<not> matches x (ents s dp ! j)" using assms(3) by (simp add: matches_def)
  note o = assms(4)
  note p = find_idx_put[of "ents s' dp" "ents s dp" j "matches x", OF assms(1,2) f o]
  show "dirmap s' dp x = ((dirmap s dp)(nm \<mapsto> i)) x"
  proof (cases "x = nm")
    case True
    then show ?thesis using p(2) m assms(5,8) by (simp add: dirmap_def)
  next
    case False
    then have "find_idx (matches x) (ents s' dp) = find_idx (matches x) (ents s dp)" using p(1) m by blast
    moreover have "ents s' dp ! k = ents s dp ! k" if "find_idx (matches x) (ents s dp) = Some k" for k
      using that f o by (cases "k = j") (simp_all add: find_idx_Some)
    ultimately show ?thesis using False by (cases "find_idx (matches x) (ents s dp)") (simp_all add: dirmap_def)
  qed
qed

text \<open>A new or changed entry written by \<open>writei\<close>.\<close>

lemma write_entry:
  assumes d: "dir_wf s dp" and j: "j \<le> length (ents s dp)" "16 * j + 16 \<le> MAXBYTES" and l: "length bs = 16"
  shows "hole s dp (16 * j) 16 \<and> writei dp False 0 bs (of_nat (16 * j)) 16 s = Inl (Panic ''balloc: out of blocks'') \<or>
    (\<exists>s'. writei dp False 0 bs (of_nat (16 * j)) 16 s = Inr (16, s') \<and> dir_wf s' dp \<and>
      length (ents s' dp) = max (length (ents s dp)) (Suc j) \<and> ents s' dp ! j = bs \<and>
      (\<forall>k < length (ents s dp). k \<noteq> j \<longrightarrow> ents s' dp ! k = ents s dp ! k) \<and> nofs s' = nofs s \<and>
      (\<forall>k. k \<noteq> dp \<longrightarrow> itable s' ! k = itable s ! k) \<and> (\<forall>x. foreign s dp x \<longrightarrow> foreign s' dp x \<and> disk s' x = disk s x))"
proof -
  have w: "idle_fs s" "file_wf s dp" "i_type (itable s ! dp) = T_DIR" "fsize s dp \<le> 274432" "16 dvd fsize s dp"
    "\<not> hole s dp 0 (fsize s dp)" using d by (simp_all add: dir_wf_def)
  obtain n where n: "fsize s dp = 16 * n" using w(5) by blast
  then have ln: "length (ents s dp) = n" by (simp add: ents_def)
  note u = dir_wf_pos(1)[OF d j(1)]
  have ok: "\<not> (fsize s dp < 16 * j \<or> 2 ^ 32 \<le> 16 * j + unat (16 :: u32) \<or> MAXBYTES < 16 * j + unat (16 :: u32))"
    using j ln n by simp
  have bs: "take (unat (16 :: u32)) bs = bs" "unat (16 :: u32) \<le> length bs" using l by simp_all
  note wr = writei_ok[OF w(1,2) bs(2), of "of_nat (16 * j)" 0, unfolded u bs(1) if_not_P[OF ok]]
  show ?thesis
  proof (rule disjE[OF wr], goal_cases)
    case 2
    then obtain s' as z where s': "writei dp False 0 bs (of_nat (16 * j)) 16 s = Inr (16, s')"
      "overwrites dp (16 * j) bs s s'" "fsize s' dp = max (fsize s dp) (16 * j + 16)" "idle_fs s'" "file_wf s' dp" "nofs s' = nofs s"
      "\<not> hole s' dp (16 * j) 16" "\<forall>k. k \<noteq> dp \<longrightarrow> itable s' ! k = itable s ! k"
      "itable s' ! dp = (itable s ! dp)\<lparr>i_addrs := as, i_size := z\<rparr>" "\<forall>k<268. fblk s dp k \<noteq> 0 \<longrightarrow> fblk s' dp k = fblk s dp k"
      "\<forall>x. foreign s dp x \<longrightarrow> foreign s' dp x \<and> disk s' x = disk s x" by auto
    have z: "fsize s' dp = 16 * max n (Suc j)" using s'(3) n by (simp add: max_def)
    have le: "fsize s' dp \<le> 274432" using s'(3) w(4) j(2) by simp
    have nh: "\<not> hole s' dp 0 (fsize s' dp)"
    proof
      assume "hole s' dp 0 (fsize s' dp)"
      then obtain p where p: "p < fsize s' dp" "fblk s' dp (p div 1024) = 0" by (auto simp: hole_def)
      show False
      proof (cases "p < fsize s dp")
        case True
        then have "fblk s dp (p div 1024) \<noteq> 0" "p div 1024 < 268" using w(4,6) by (auto simp: hole_def)
        then show False using s'(10) p(2) by simp
      next
        case False
        then have "16 * j \<le> p" "p < 16 * j + 16" using p(1) s'(3) n j(1) ln by (auto simp: max_def split: if_splits)
        then show False using s'(7) p(2) by (auto simp: hole_def)
      qed
    qed
    have e: "ent s' dp k = (if k = j then bs else ent s dp k)" if "k < max n (Suc j)" for k
    proof (rule nth_equalityI)
      show "length (ent s' dp k) = length (if k = j then bs else ent s dp k)" using l by (simp add: name_scan)
    next
      fix i assume "i < length (ent s' dp k)"
      then have i: "i < 16" by (simp add: name_scan)
      have "16 * Suc k \<le> fsize s' dp" unfolding z using that by (simp only: mult_le_mono2 Suc_le_eq)
      then have "16 * k + i < MAXBYTES" using le i by simp
      then have b: "fbyte s' dp (16 * k + i) = (if 16 * j \<le> 16 * k + i \<and> 16 * k + i < 16 * j + 16 then bs ! (16 * k + i - 16 * j)
          else fbyte s dp (16 * k + i))" using s'(2) l by (simp add: overwrites_def)
      have "16 * j \<le> 16 * k + i \<and> 16 * k + i < 16 * j + 16 \<longleftrightarrow> k = j" using i by arith
      then show "ent s' dp k ! i = (if k = j then bs else ent s dp k) ! i" using i b by (simp add: ent_def)
    qed
    have le': "length (ents s' dp) = max n (Suc j)" using z by (simp add: ents_def)
    have "ents s' dp ! j = bs" using e[of j] le' by (simp add: ents_nth)
    moreover have "\<forall>k<n. k \<noteq> j \<longrightarrow> ents s' dp ! k = ents s dp ! k" using e le' ln by (simp add: ents_nth)
    moreover have "dir_wf s' dp" using s'(4,5,9) w(3) le z nh by (simp add: dir_wf_def)
    ultimately show ?case using s'(1,6,8,11) le' ln by auto
  qed simp
qed


text \<open>No entry is free.\<close>

definition dir_full :: "'a kfs_scheme \<Rightarrow> nat \<Rightarrow> bool" where
  "dir_full s dp \<longleftrightarrow> (\<forall>e \<in> set (ents s dp). de_inum e \<noteq> 0)"

lemma entry_name:
  assumes "scannable 14 name"
  shows "\<exists>nm. strncpy (replicate 14 0) name 14 = Inr nm \<and> length nm = 14 \<and> cstrn 14 nm = cstrn 14 name"
proof -
  have e: "strncpy (replicate 14 0) name 14 = Inr (cstrn 14 name @ replicate (14 - length (cstrn 14 name)) 0 @ drop 14 (replicate 14 0))"
    by (rule strncpy_spec) (simp_all add: assms)
  have "cstrn 14 (cstrn 14 name @ replicate (14 - length (cstrn 14 name)) 0 @ drop 14 (replicate 14 0)) = cstrn 14 name"
    by (rule strncpy_cstrn[OF _ assms e]) simp
  then show ?thesis using e cstrn_le[of 14 name] by (intro exI conjI) (assumption, simp_all)
qed

lemma entry_bytes:
  "length nm = 14 \<Longrightarrow> length (to_le 2 (i :: u16) @ nm) = 16"
  "de_inum (to_le 2 (i :: u16) @ nm) = i" "de_name (to_le 2 (i :: u16) @ nm) = nm"
  by (simp_all add: de_inum_def de_name_def get16_def from_le_to_le)

lemma dirlink_ok:
  assumes "dir_wf s dp" "itable_wf s" "scannable 14 name" "(ucast inum :: u16) \<noteq> 0"
  shows "case dirmap s dp (cstrn 14 name) of
      Some i \<Rightarrow> (\<forall>k < length (itable s). 0 < i_ref (itable s ! k)) \<and> dirlink dp name inum s = Inl (Panic ''iget: no inodes'') \<or>
        (\<exists>s'. dirlink dp name inum s = Inr (-1, s') \<and> disk s' = disk s \<and> nofs s' = nofs s \<and>
          (\<forall>k. i_ref (itable s' ! k) = i_ref (itable s ! k)))
    | None \<Rightarrow> dir_full s dp \<and> hole s dp (fsize s dp) 16 \<and> dirlink dp name inum s = Inl (Panic ''balloc: out of blocks'') \<or>
        dir_full s dp \<and> fsize s dp = MAXBYTES \<and> dirlink dp name inum s = Inl (Panic ''dirlink'') \<or>
        (\<exists>s'. dirlink dp name inum s = Inr (0, s') \<and> dir_wf s' dp \<and>
          dirmap s' dp = (dirmap s dp)(cstrn 14 name \<mapsto> ucast inum) \<and> nofs s' = nofs s \<and>
          (\<forall>k. k \<noteq> dp \<longrightarrow> itable s' ! k = itable s ! k) \<and> (\<forall>x. foreign s dp x \<longrightarrow> foreign s' dp x \<and> disk s' x = disk s x))"
proof (cases "dirmap s dp (cstrn 14 name)")
  case (Some i)
  from dirlookup_ok[OF assms(1-3), unfolded Some option.case] show ?thesis
  proof (elim disjE exE conjE)
    fix ip off s1 assume g: "dirlookup dp name s = Inr (Some (ip, off), s1)" "disk s1 = disk s" "nofs s1 = nofs s"
      "i_ref (itable (iput ip s1) ! ip) = i_ref (itable s ! ip)" "\<forall>j. j \<noteq> ip \<longrightarrow> itable s1 ! j = itable s ! j"
    have "i_ref (itable (iput ip s1) ! k) = i_ref (itable s ! k)" for k
      using g(4,5) by (cases "k = ip") (simp_all add: iput_def upd_inode_def)
    moreover have "disk (iput ip s1) = disk s" "nofs (iput ip s1) = nofs s"
      using g(2,3) by (simp_all add: iput_def upd_inode_def nofs_def nodisk_def)
    ultimately show ?thesis using g(1) Some by (simp add: dirlink_def)
  qed (simp add: Some dirlink_def)
next
  case None
  obtain s1 where s1: "dirlookup dp name s = Inr (None, s1)" "same_fs s s1" using dirlookup_ok[OF assms(1-3)] None by auto
  note v1 = same_fs_view[OF s1(2)]
  obtain s2 j where s2: "same_fs s1 s2" "dir_free dp 0 s1 = Inr (of_nat (16 * j), s2)" "j \<le> length (ents s1 dp)"
    "j < length (ents s1 dp) \<longrightarrow> de_inum (ents s1 dp ! j) = 0" "\<forall>i<j. de_inum (ents s1 dp ! i) \<noteq> 0" using dir_free_ok[OF v1(7)[OF assms(1)], of 0] by auto
  have s: "same_fs s s2" by (rule same_fs_trans[OF s1(2) s2(1)])
  note v = same_fs_view[OF s]
  have w2: "dir_wf s2 dp" by (rule v(7)[OF assms(1)])
  have j: "j \<le> length (ents s2 dp)" "j < length (ents s2 dp) \<longrightarrow> de_inum (ents s2 dp ! j) = 0"
    using s2(3,4) by (simp_all add: v(5) v1(5))
  have full: "j = length (ents s dp) \<Longrightarrow> dir_full s dp"
    using s2(5) by (auto simp: dir_full_def in_set_conv_nth v1(5))
  obtain nm where nm: "strncpy (replicate 14 0) name 14 = Inr nm" "length nm = 14" "cstrn 14 nm = cstrn 14 name"
    using entry_name[OF assms(3)] by blast
  let ?i = "ucast inum :: u16" and ?bs = "to_le 2 (ucast inum :: u16) @ nm"
  note bs = entry_bytes(1)[OF nm(2), of ?i] entry_bytes(2,3)[of ?i nm]
  have l: "dirlink dp name inum s = bindE (writei dp False 0 ?bs (of_nat (16 * j)) 16 s2) (\<lambda>(r, s).
      if r \<noteq> 16 then Inl (Panic ''dirlink'') else Inr (0, s))"
    using s1(1) s2(2) nm(1) by (simp add: dirlink_def DIRSIZ_def)
  have z: "fsize s dp \<le> 274432" "16 dvd fsize s dp" using assms(1) by (simp_all add: dir_wf_def)
  show ?thesis
  proof (cases "16 * j + 16 \<le> MAXBYTES")
    case False
    then have f: "fsize s dp = MAXBYTES" "j = length (ents s dp)" using j(1) z by (auto simp: ents_def v)
    have "16 * j + unat (16 :: u32) > MAXBYTES" using False by simp
    then have "writei dp False 0 ?bs (of_nat (16 * j)) 16 s2 = Inr (-1, s2)"
      using writei_ok[of s2 dp 16 ?bs "of_nat (16 * j)" 0] w2 bs(1) dir_wf_pos(1)[OF w2 j(1)] by (simp add: dir_wf_def)
    then show ?thesis using None f full by (simp add: l)
  next
    case True
    from write_entry[OF w2 j(1) True bs(1)] show ?thesis
    proof (elim disjE exE conjE)
      fix s' assume w: "writei dp False 0 ?bs (of_nat (16 * j)) 16 s2 = Inr (16, s')" "dir_wf s' dp"
        "length (ents s' dp) = max (length (ents s2 dp)) (Suc j)" "ents s' dp ! j = ?bs"
        "\<forall>k < length (ents s2 dp). k \<noteq> j \<longrightarrow> ents s' dp ! k = ents s2 dp ! k" "nofs s' = nofs s2"
        "\<forall>k. k \<noteq> dp \<longrightarrow> itable s' ! k = itable s2 ! k" "\<forall>x. foreign s2 dp x \<longrightarrow> foreign s' dp x \<and> disk s' x = disk s2 x"
      have e: "disk s2 = disk s" "nodisk s2 = nodisk s" using s by (simp_all add: same_fs_def)
      note c = fs_cong[OF e]
      have "dirmap s' dp = (dirmap s2 dp)(cstrn 14 name \<mapsto> ?i)"
        using None w(4) bs nm(3) by (intro dirmap_put[OF w(3) j w(5) _ assms(4)]) (simp_all add: v)
      moreover have "foreign s2 dp = foreign s dp" by (simp add: foreign_def c fun_eq_iff)
      ultimately show ?thesis using None w(1,2,6-8) c e(1) by (simp add: l v)
    next
      assume h: "hole s2 dp (16 * j) 16" "writei dp False 0 ?bs (of_nat (16 * j)) 16 s2 = Inl (Panic ''balloc: out of blocks'')"
      have "j = length (ents s dp)"
      proof (rule ccontr)
        assume "j \<noteq> length (ents s dp)"
        then have "16 * j + 16 \<le> fsize s2 dp" using dir_wf_pos(4)[OF w2, of j] j(1) z(2) v by (auto elim!: dvdE simp: ents_def)
        then show False using h(1) w2 by (auto simp: dir_wf_def hole_def)
      qed
      moreover from this have "16 * j = fsize s dp" using z(2) by (simp add: ents_def)
      ultimately show ?thesis using None h full by (simp add: l hole_def v)
    qed
  qed
qed

text \<open>C21: \<open>dirlookup\<close> evaluates the directory as a partial map from names, cut at fourteen characters, to inode
  numbers: it returns the inode of the first entry in use for the name, with one more reference, or
  nothing when there is none, and changes neither the disk nor another inode. It panics only when the
  inode table is full.\<close>

theorem dirlookup_correct:
  assumes "dir_wf s dp" "itable_wf s" "scannable 14 name"
  shows "case dirmap s dp (cstrn 14 name) of
      None \<Rightarrow> \<exists>s'. dirlookup dp name s = Inr (None, s') \<and> same_fs s s'
    | Some i \<Rightarrow> (\<forall>k < length (itable s). 0 < i_ref (itable s ! k)) \<and> dirlookup dp name s = Inl (Panic ''iget: no inodes'') \<or>
        (\<exists>ip off s'. dirlookup dp name s = Inr (Some (ip, off), s') \<and> ip < length (itable s) \<and>
          i_dev (itable s' ! ip) = 1 \<and> i_inum (itable s' ! ip) = ucast i \<and> 0 < i_ref (itable s' ! ip) \<and>
          i_ref (itable (iput ip s') ! ip) = i_ref (itable s ! ip) \<and> (i_ref (itable s ! ip) = 0 \<longrightarrow> \<not> i_valid (itable s' ! ip)) \<and>
          (0 < i_ref (itable s ! ip) \<longrightarrow> itable s' ! ip = (itable s ! ip)\<lparr>i_ref := i_ref (itable s ! ip) + 1\<rparr>) \<and>
          (\<forall>j. j \<noteq> ip \<longrightarrow> itable s' ! j = itable s ! j) \<and> itable_wf s' \<and> idle_fs s' \<and> length (itable s') = length (itable s) \<and> disk s' = disk s \<and> nofs s' = nofs s)"
  by (rule dirlookup_ok[OF assms])

text \<open>A directory of two entries, the first for the empty name, the second free.\<close>

definition dir_fs :: kload where
  "dir_fs = upd_inode 0 (\<lambda>x. x\<lparr>i_type := T_DIR, i_size := 32\<rparr>) file_fs"

lemma dir_fs_table:
  "itable dir_fs = (replicate 50 inode0)[0 := small_inode\<lparr>i_type := T_DIR, i_size := 32, i_addrs := 2 # replicate 12 0\<rparr>]"
  "disk dir_fs = (\<lambda>_. 7 # replicate 1023 0)"
proof -
  have "itable file_fs = (replicate 50 inode0)[0 := small_inode\<lparr>i_size := 2000, i_addrs := 2 # replicate 12 0\<rparr>]"
    by (simp add: file_fs_def kload0_def binit_def Let_def upd_inode_def)
  then show "itable dir_fs = (replicate 50 inode0)[0 := small_inode\<lparr>i_type := T_DIR, i_size := 32, i_addrs := 2 # replicate 12 0\<rparr>]"
    by (simp add: dir_fs_def upd_inode_def small_inode_def)
  show "disk dir_fs = (\<lambda>_. 7 # replicate 1023 0)" by (simp add: dir_fs_def file_fs)
qed

lemma dir_fs: "dir_wf dir_fs 0" "itable_wf dir_fs" "ents dir_fs 0 = [7 # replicate 15 0, replicate 16 0]"
proof -
  have i: "itable dir_fs ! 0 = small_inode\<lparr>i_type := T_DIR, i_size := 32, i_addrs := 2 # replicate 12 0\<rparr>"
    by (simp add: dir_fs_table)
  have f0: "fblk file_fs 0 k = (if k = 0 then 2 else 0)" for k
  proof -
    have a: "i_addrs (itable file_fs ! 0) = 2 # replicate 12 0" by (simp add: file_fs(6))
    show ?thesis unfolding fblk_def ind_def a by (cases k) simp_all
  qed
  have c: "disk dir_fs = disk file_fs" "good dir_fs = good file_fs" "meta_wf dir_fs = meta_wf file_fs" "idle_fs dir_fs = idle_fs file_fs"
    by (simp_all add: dir_fs_def)
  have fi: "fblk dir_fs 0 = fblk file_fs 0" "ind dir_fs 0 = ind file_fs 0"
    by (simp_all add: fblk_def ind_def c(1) i file_fs(6) fun_eq_iff)
  have "wf_map dir_fs 3 (fblk file_fs 0) (ind file_fs 0) = wf_map file_fs 3 (fblk file_fs 0) (ind file_fs 0)"
    by (simp add: wf_map_def c)
  then have "file_wf dir_fs 0"
    using file_fs_wf by (simp add: file_wf_def c fi i file_fs(6) dir_fs_table small_inode_def)
  moreover have z: "fsize dir_fs 0 = 32" by (simp add: fsize_def i)
  moreover have "\<not> hole dir_fs 0 0 32" by (auto simp: hole_def fi f0)
  ultimately show "dir_wf dir_fs 0" using file_fs(1) by (simp add: dir_wf_def c i)
  show "itable_wf dir_fs" by (auto simp: itable_wf_def dir_fs_table nth_list_update inode0_def small_inode_def)
  have b: "fbyte dir_fs 0 p = (7 # replicate 1023 0) ! p" if "p < 1024" for p
    using that by (simp add: fbyte_def block_def fi f0 c(1) file_fs(2))
  have "ent dir_fs 0 0 = 7 # replicate 15 0" "ent dir_fs 0 1 = replicate 16 0"
    by (intro nth_equalityI; simp add: ent_def b nth_Cons')+
  then show "ents dir_fs 0 = [7 # replicate 15 0, replicate 16 0]" by (simp add: ents_def z numeral_2_eq_2)
qed

lemma dir_fs_entries:
  "de_inum (7 # replicate 15 0) = 7" "de_inum (replicate 16 0) = 0" "cstrn 14 (de_name (7 # replicate 15 0)) = []"
proof -
  have "take 2 (7 # replicate 15 0) = [7, 0 :: u8]" "take 2 (replicate 16 0) = [0, 0 :: u8]"
    by (simp_all add: numeral_2_eq_2)
  then show "de_inum (7 # replicate 15 0) = 7" "de_inum (replicate 16 0) = 0"
    by (simp_all add: de_inum_def get16_def from_le_def)
  show "cstrn 14 (de_name (7 # replicate 15 0)) = []"
    by (simp add: cstrn_def de_name_def)
qed

lemma dir_fs_map: "dirmap dir_fs 0 = [[] \<mapsto> 7]"
  by (simp add: dirmap_def dir_fs matches_def dir_fs_entries fun_eq_iff)

theorem dirlookup_correct_witness:
  "\<exists>ip off s'. dirlookup 0 [0] dir_fs = Inr (Some (ip, off), s') \<and> i_inum (itable s' ! ip) = 7"
proof -
  have "dirmap dir_fs 0 (cstrn 14 [0]) = Some 7" by (simp add: dir_fs_map cstrn_def)
  moreover have "\<not> (\<forall>k < length (itable dir_fs). 0 < i_ref (itable dir_fs ! k))"
    by (auto simp: dir_fs_table inode0_def intro!: exI[of _ 1])
  ultimately show ?thesis using dirlookup_correct[OF dir_fs(1,2), of "[0]"] by (auto simp: scannable_def)
qed

text \<open>C11: \<open>dirlink\<close> refuses a name that is there, leaving disk and reference counts as they were, and otherwise
  extends the directory's map by exactly the new name, in the first free entry or a new one. The
  directory stays well-formed and no block or inode of others changes; it panics only when the disk,
  the directory or the inode table is full.\<close>

theorem dirlink_correct:
  assumes "dir_wf s dp" "itable_wf s" "scannable 14 name" "(ucast inum :: u16) \<noteq> 0"
  shows "case dirmap s dp (cstrn 14 name) of
      Some i \<Rightarrow> (\<forall>k < length (itable s). 0 < i_ref (itable s ! k)) \<and> dirlink dp name inum s = Inl (Panic ''iget: no inodes'') \<or>
        (\<exists>s'. dirlink dp name inum s = Inr (-1, s') \<and> disk s' = disk s \<and> nofs s' = nofs s \<and>
          (\<forall>k. i_ref (itable s' ! k) = i_ref (itable s ! k)))
    | None \<Rightarrow> dir_full s dp \<and> hole s dp (fsize s dp) 16 \<and> dirlink dp name inum s = Inl (Panic ''balloc: out of blocks'') \<or>
        dir_full s dp \<and> fsize s dp = MAXBYTES \<and> dirlink dp name inum s = Inl (Panic ''dirlink'') \<or>
        (\<exists>s'. dirlink dp name inum s = Inr (0, s') \<and> dir_wf s' dp \<and>
          dirmap s' dp = (dirmap s dp)(cstrn 14 name \<mapsto> ucast inum) \<and> nofs s' = nofs s \<and>
          (\<forall>k. k \<noteq> dp \<longrightarrow> itable s' ! k = itable s ! k) \<and> (\<forall>x. foreign s dp x \<longrightarrow> foreign s' dp x \<and> disk s' x = disk s x))"
  by (rule dirlink_ok[OF assms])


theorem dirlink_correct_witness:
  "\<exists>s'. dirlink 0 [97, 0] 9 dir_fs = Inr (0, s') \<and> dirmap s' 0 [97] = Some 9 \<and> dirmap s' 0 [] = Some 7"
proof -
  have n: "cstrn 14 [97, 0] = [97]" by (simp add: cstrn_def)
  have "\<not> dir_full dir_fs 0" by (simp add: dir_full_def dir_fs dir_fs_entries)
  moreover have "(ucast (9 :: u32) :: u16) \<noteq> 0" by simp
  ultimately obtain s' where "dirlink 0 [97, 0] 9 dir_fs = Inr (0, s')" "dirmap s' 0 = (dirmap dir_fs 0)([97] \<mapsto> ucast (9 :: u32))"
    using dirlink_correct[OF dir_fs(1,2), of "[97, 0]" 9] by (auto simp: n dir_fs_map scannable_def)
  then show ?thesis by (simp add: dir_fs_map)
qed

end
