(* ===== verification/MkfsBoot.thy ===== *)
theory MkfsBoot
  imports MkfsBuild FsDir
begin

text \<open>
  The image tool and the kernel together: a disk made by \<open>mkfs\<close> is accepted by \<open>fsinit\<close>, its bitmap and
  files are well-formed for the kernel, and every file is found by its name with its contents.
\<close>

section \<open>The super block\<close>

lemma brelse_sb: "brelse i (s\<lparr>sb := x\<rparr>) = (brelse i s)\<lparr>sb := x\<rparr>"
  by (simp add: brelse_def upd_buf_def Let_def)

lemma idle_sb [simp]: "idle_fs (s\<lparr>sb := x\<rparr>) = idle_fs s"
proof -
  have "bview (s\<lparr>sb := x\<rparr>) = bview s" by (rule ext) (simp add: bview_def split: option.split)
  then show ?thesis by (simp add: idle_fs_def synced_def cache_inv_def refs_def holds_def)
qed

lemma sb_get:
  assumes "i < 6" "v = (case i of 0 \<Rightarrow> sb_magic b | Suc 0 \<Rightarrow> sb_size b | Suc (Suc 0) \<Rightarrow> sb_nblocks b |
    Suc (Suc (Suc 0)) \<Rightarrow> sb_ninodes b | Suc (Suc (Suc (Suc 0))) \<Rightarrow> sb_inodestart b | _ \<Rightarrow> sb_bmapstart b)"
  shows "get32 (4 * i) (put_at 0 (sb_bytes b) (replicate 1024 0)) = v"
proof -
  have l: "length (sb_bytes b) = 24" by (simp add: sb_bytes_def)
  have "take 4 (drop (4 * i) (put_at 0 (sb_bytes b) (replicate 1024 0))) = take 4 (drop (4 * i) (sb_bytes b))"
    using assms(1) l by (subst sub_put_in) simp_all
  also have "\<dots> = to_le 4 v"
    using assms by (auto simp: sb_bytes_def less_Suc_eq numeral_eq_Suc)
  finally show ?thesis by (simp add: get32_def from_le_to_le)
qed

lemma fsinit_ok:
  assumes "idle_fs k" "disk k 1 = put_at 0 (sb_bytes make_sb) (replicate 1024 0)"
  shows "\<exists>k1. fsinit k = Inr k1 \<and> idle_fs k1 \<and> disk k1 = disk k \<and> itable k1 = itable k \<and> sb k1 = make_sb"
proof -
  have r: "ready k" by (rule idle_ready[OF assms(1)])
  obtain i s1 where rd: "bread 1 1 k = Inr (i, s1)" using bread_ok[OF r] by blast
  note b = bread_brelse[OF r rd]
  let ?k1 = "(brelse i s1)\<lparr>sb := make_sb\<rparr>"
  have g: "get32 0 (disk k 1) = sb_magic make_sb" "get32 4 (disk k 1) = sb_size make_sb" "get32 8 (disk k 1) = sb_nblocks make_sb"
    "get32 12 (disk k 1) = sb_ninodes make_sb" "get32 16 (disk k 1) = sb_inodestart make_sb" "get32 20 (disk k 1) = sb_bmapstart make_sb"
    unfolding assms(2) using sb_get[of 0 _ make_sb] sb_get[of 1 _ make_sb] sb_get[of 2 _ make_sb] sb_get[of 3 _ make_sb]
      sb_get[of 4 _ make_sb] sb_get[of 5 _ make_sb] by (simp_all add: numeral_eq_Suc)
  have "readsb ROOTDEV k = Inr ?k1"
    using rd b(1) g by (simp add: readsb_def ROOTDEV_def Let_def brelse_sb)
  then have "fsinit k = Inr ?k1" by (simp add: fsinit_def make_sb_def)
  moreover have "idle_fs (brelse i s1)" by (rule idle_rest[OF assms(1) b(2,4)])
  ultimately show ?thesis using b(3) rest_kfs[OF b(4)] by auto
qed

section \<open>The bitmap and the inodes\<close>

text \<open>A kernel whose disk holds an image.\<close>

definition holds_image :: "(u8 list \<times> u8 list list) list \<Rightarrow> mkfs \<Rightarrow> 'a kfs_scheme \<Rightarrow> bool" where
  "holds_image fs m k \<longleftrightarrow> imaged fs m \<and> 16 + blocks fs \<le> 1000 \<and> idle_fs k \<and> sb k = make_sb \<and>
     (\<forall>b. unat b < 1000 \<longrightarrow> disk k b = img m b)"

lemma image_nblocks: "sb k = make_sb \<Longrightarrow> nblocks k = 1000" "sb k = make_sb \<Longrightarrow> b < 1000 \<Longrightarrow> bmap_block k b = 15"
proof -
  assume s: "sb k = make_sb"
  show "nblocks k = 1000" by (simp add: nblocks_def s make_sb_def)
  assume b: "b < 1000"
  then have "(of_nat b :: u32) div 8192 = 0" using div_8192[of b] by (simp add: word_unat_eq_iff)
  then show "bmap_block k b = 15" by (simp add: bmap_block_def BBLOCK_def s make_sb_def ninodeblocks_def)
qed

lemma image_used:
  assumes "holds_image fs m k" "b < 1000"
  shows "used k b \<longleftrightarrow> b < 16 + blocks fs"
proof -
  have "disk k 15 = img m 15" using assms(1) by (simp add: holds_image_def)
  then show ?thesis using assms image_nblocks(2)[of k b] by (simp add: holds_image_def imaged_def used_def)
qed

lemma image_good:
  assumes "holds_image fs m k" "16 \<le> unat x" "unat x < 16 + blocks fs" "n < 208"
  shows "good k (of_nat n) x"
proof -
  have s: "sb k = make_sb" "16 + blocks fs \<le> 1000" using assms(1) by (simp_all add: holds_image_def)
  have "x \<noteq> 0" "x \<noteq> 15" using assms(2) by auto
  moreover have "n div 16 + 2 < 16" using assms(4) by (simp add: div_less_iff_less_mult)
  then have "x \<noteq> IBLOCK (of_nat n) (sb k)" using iblock_bound[OF assms(4)] assms(2) s(1) by auto
  ultimately show ?thesis using image_used[OF assms(1), of "unat x"] image_nblocks[OF s(1)] s(2) assms(3) by (simp add: good_def)
qed

lemma image_meta:
  assumes "holds_image fs m k" "n < 208"
  shows "meta_wf k (of_nat n)"
proof -
  have s: "sb k = make_sb" using assms(1) by (simp add: holds_image_def)
  have i: "n div 16 + 2 < 15" using assms(2) by (simp add: div_less_iff_less_mult)
  have ib: "unat (IBLOCK (of_nat n) (sb k)) = n div 16 + 2" using iblock_bound[OF assms(2)] s by simp
  then have "IBLOCK (of_nat n) (sb k) \<noteq> 15" using i by auto
  then show ?thesis
    using image_used[OF assms(1)] image_nblocks[OF s] ib i by (simp add: meta_wf_def bitmap_wf_def)
qed


section \<open>Files in the inode table\<close>

text \<open>Entry \<open>ip\<close> of the inode table holds inode \<open>n\<close> of the image.\<close>

definition loaded :: "mkfs \<Rightarrow> nat \<Rightarrow> 'a kfs_scheme \<Rightarrow> nat \<Rightarrow> bool" where
  "loaded m n k ip \<longleftrightarrow> ip < length (itable k) \<and> i_dev (itable k ! ip) = 1 \<and> i_inum (itable k ! ip) = of_nat n \<and>
     i_type (itable k ! ip) = sint (itype m n) \<and> i_size (itable k ! ip) = din_size (dn m n) \<and>
     i_addrs (itable k ! ip) = map (din_addr (dn m n)) [0..<13]"

lemma image_inode:
  assumes "holds_image fs m k" "n < 208"
  shows "dinode_wf (img m) (16 + blocks fs) (dn m n)" "own_blocks (img m) (dn m n)"
proof -
  have "mk_wf m" "unat (freeblock m) = 16 + blocks fs" using assms(1) unfolding holds_image_def imaged_def by blast+
  then have "img_wf (dn m) (img m) (16 + blocks fs)" unfolding mk_wf_def by simp
  then show "dinode_wf (img m) (16 + blocks fs) (dn m n)" "own_blocks (img m) (dn m n)"
    using assms(2) unfolding img_wf_def by blast+
qed

lemma loaded_blocks:
  assumes "holds_image fs m k" "n < 208" "loaded m n k ip"
  shows "ind k ip = dslot (img m) (dn m n) 268" "j < 268 \<Longrightarrow> fblk k ip j = dslot (img m) (dn m n) j"
    "j \<le> 268 \<Longrightarrow> dslot (img m) (dn m n) j \<noteq> 0 \<Longrightarrow> disk k (dslot (img m) (dn m n) j) = img m (dslot (img m) (dn m n) j)"
proof -
  note dw = dinode_wfD[OF image_inode(1)[OF assms(1,2)]]
  have h: "16 + blocks fs \<le> 1000" "\<forall>b. unat b < 1000 \<longrightarrow> disk k b = img m b" using assms(1) by (simp_all add: holds_image_def)
  have a: "i_addrs (itable k ! ip) ! i = din_addr (dn m n) i" if "i < 13" for i using assms(3) that by (simp add: loaded_def)
  show i: "ind k ip = dslot (img m) (dn m n) 268" using a[of 12] by (simp add: ind_def dslot_268)
  show d: "disk k (dslot (img m) (dn m n) j) = img m (dslot (img m) (dn m n) j)" if "j \<le> 268" "dslot (img m) (dn m n) j \<noteq> 0" for j
    using dw(4)[OF that] h by simp
  show "fblk k ip j = dslot (img m) (dn m n) j" if "j < 268"
  proof (cases "j < 12")
    case True
    then show ?thesis using a[of j] by (simp add: fblk_def dslot_def)
  next
    case False
    then show ?thesis using i d[of 268] that by (cases "din_addr (dn m n) 12 = 0") (simp_all add: fblk_def dslot_def)
  qed
qed

lemma loaded_wf:
  assumes "holds_image fs m k" "n < 208" "loaded m n k ip"
  shows "file_wf k ip" "fsize k ip = length (contents m n)" "p < fsize k ip \<Longrightarrow> fbyte k ip p = contents m n ! p"
    "\<not> hole k ip 0 (fsize k ip)" "fsize k ip \<le> 274432"
proof -
  note iw = image_inode[OF assms(1,2)] and lb = loaded_blocks[OF assms]
  note dw = dinode_wfD[OF iw(1)]
  have ow: "i = j" if "i \<le> 268" "j \<le> 268" "dslot (img m) (dn m n) i \<noteq> 0" "dslot (img m) (dn m n) i = dslot (img m) (dn m n) j" for i j
    using iw(2) that unfolding own_blocks_def by blast
  have gd: "good k (of_nat n) (dslot (img m) (dn m n) j)" if "j \<le> 268" "dslot (img m) (dn m n) j \<noteq> 0" for j
    using dw(4)[OF that] by (intro image_good[OF assms(1) _ _ assms(2)]) simp_all
  have "wf_map k (of_nat n) (fblk k ip) (ind k ip)"
    unfolding wf_map_def lb(1)
  proof (intro conjI allI impI)
    show "dslot (img m) (dn m n) 268 \<noteq> 0 \<Longrightarrow> good k (of_nat n) (dslot (img m) (dn m n) 268)" by (rule gd) simp
  next
    fix j :: nat assume j: "j < 268" "fblk k ip j \<noteq> 0"
    show "good k (of_nat n) (fblk k ip j)" using gd[of j] j lb(2)[OF j(1)] by simp
    show "fblk k ip j \<noteq> dslot (img m) (dn m n) 268" using ow[of j 268] j lb(2)[OF j(1)] by auto
  next
    fix i j :: nat assume h: "i < 268" "j < 268" "fblk k ip i \<noteq> 0" "fblk k ip i = fblk k ip j"
    show "i = j" using ow[of i j] h lb(2)[OF h(1)] lb(2)[OF h(2)] by simp
  qed
  then show "file_wf k ip" using assms(3) image_meta[OF assms(1,2)] by (simp add: file_wf_def loaded_def)
  show z: "fsize k ip = length (contents m n)" using assms(3) by (simp add: fsize_def loaded_def length_contents dsize_def)
  then show zb: "fsize k ip \<le> 274432" using dw(2) by (simp add: length_contents)
  have nz: "dslot (img m) (dn m n) (p div 1024) \<noteq> 0 \<and> p div 1024 < 268" if "p < fsize k ip" for p
  proof -
    have "p div 1024 < nb (dsize (dn m n))" using that z by (intro nb_div) (simp add: length_contents)
    moreover from this have "p div 1024 < 268" using nb_le[OF dw(2)] by simp
    ultimately show ?thesis using dw(3)[of "p div 1024"] by (simp add: present_def)
  qed
  show "p < fsize k ip \<Longrightarrow> fbyte k ip p = contents m n ! p"
    using nz[of p] lb(2)[of "p div 1024"] lb(3)[of "p div 1024"] z
    by (simp add: fbyte_def block_def contents_def data_def dbyte_def)
  show "\<not> hole k ip 0 (fsize k ip)" using nz lb(2) by (auto simp: hole_def)
qed

lemma loaded_ivalid:
  assumes "holds_image fs m k" "n < 208" "ip < length (itable k)" "i_dev (itable k ! ip) = 1" "i_inum (itable k ! ip) = of_nat n"
    "\<not> i_valid (itable k ! ip)" "sint (itype m n) \<noteq> 0"
  shows "\<exists>k1. ivalid ip k = Inr k1 \<and> holds_image fs m k1 \<and> loaded m n k1 ip \<and> length (itable k1) = length (itable k) \<and>
    i_ref (itable k1 ! ip) = i_ref (itable k ! ip) \<and> (\<forall>j. j \<noteq> ip \<longrightarrow> itable k1 ! j = itable k ! j)"
proof -
  have h: "idle_fs k" "sb k = make_sb" "\<forall>b. unat b < 1000 \<longrightarrow> disk k b = img m b" "m_sb m = make_sb"
    using assms(1) by (simp_all add: holds_image_def imaged_def mk_wf_def)
  have "n div 16 + 2 < 15" using assms(2) by (simp add: div_less_iff_less_mult)
  then have b: "disk k (IBLOCK (of_nat n) make_sb) = img m (IBLOCK (of_nat n) make_sb)" using iblock_bound[OF assms(2)] h(3) by simp
  let ?o = "dinode_off (of_nat n)" and ?B = "img m (IBLOCK (of_nat n) make_sb)"
  have d: "dn m n = take 64 (drop ?o ?B)" by (simp add: dn_def rinode_def rsect_def h(4))
  have g: "get32 p (dn m n) = get32 (?o + p) ?B" if "p + 4 \<le> 64" for p
    using that by (simp add: d get32_def take_drop min_def add.commute)
  have "get16 0 (dn m n) = get16 ?o ?B" by (simp add: d get16_def)
  then have di: "dinode k (i_inum (itable k ! ip)) = (sint (itype m n), din_size (dn m n), map (din_addr (dn m n)) [0..<13])"
    using g[of 8] g[of "12 + 4 * i" for i] by (simp add: dinode_def assms(5) h(2) b get_dinode_def get_addrs_def itype_def din_size_def din_addr_def add.assoc)
  note assms(7)
  then obtain s1 where s1: "ready s1" "disk s1 = disk k" "rest s1 = rest k"
    "ivalid ip k = Inr (upd_inode ip (\<lambda>x. x\<lparr>i_type := sint (itype m n), i_size := din_size (dn m n), i_addrs := map (din_addr (dn m n)) [0..<13], i_valid := True\<rparr>) s1)"
    using ivalid_ok[OF idle_ready[OF h(1)] assms(4,6) di] by auto
  have k: "sb s1 = sb k" "itable s1 = itable k" using rest_kfs[OF s1(3)] by simp_all
  have "idle_fs s1" by (rule idle_rest[OF h(1) s1(1,3)])
  then have "holds_image fs m (upd_inode ip f s1)" for f using assms(1) k(1) s1(2) by (simp add: holds_image_def)
  then show ?thesis using s1(4) k assms(3-5) by (simp add: loaded_def)
qed


section \<open>The root directory\<close>

lemma entries_nth: "j < length fs \<Longrightarrow> take 16 (drop (16 * j) (entries n fs)) = entry (n + j) (shortname (fst (fs ! j)))"
proof (induction fs arbitrary: n j)
  case (Cons f fs)
  show ?case
  proof (cases j)
    case (Suc i)
    then have "drop (16 * j) (entries n (f # fs)) = drop (16 * i) (entries (Suc n) fs)" by simp
    then show ?thesis using Cons.IH[of i "Suc n"] Cons.prems Suc by simp
  qed simp
qed simp

lemma matches_entry:
  assumes "0 < n" "n < 2 ^ 16"
  shows "matches nm (entry n x) \<longleftrightarrow> cstrn 14 x = nm" "de_inum (entry n x) = of_nat n"
proof -
  let ?pad = "cstrn 14 x @ replicate (14 - length (cstrn 14 x)) 0"
  have l: "length ?pad = 14" using cstrn_le[of 14 x] by simp
  show i: "de_inum (entry n x) = of_nat n" unfolding entry_def by (rule entry_bytes(2))
  have "\<forall>c \<in> set (cstrn 14 x). c \<noteq> 0" by (auto simp: cstrn_def dest: set_takeWhileD)
  then have "takeWhile (\<lambda>c. c \<noteq> 0) ?pad = cstrn 14 x"
    by (subst takeWhile_append2) (auto simp: takeWhile_replicate)
  then have "cstrn 14 (de_name (entry n x)) = cstrn 14 x"
    unfolding entry_def entry_bytes(3) using l by (simp add: cstrn_def[of 14 "_ @ _"])
  moreover have "(of_nat n :: u16) \<noteq> 0" using assms by (simp add: word_unat_eq_iff unsigned_of_nat take_bit_nat_eq_self)
  ultimately show "matches nm (entry n x) \<longleftrightarrow> cstrn 14 x = nm" by (simp add: matches_def i)
qed

lemma matches_zero: "\<not> matches nm (replicate 16 0)"
proof -
  have "de_inum (replicate 16 0) = 0" by (rule dir_fs_entries(2))
  then show ?thesis by (simp add: matches_def)
qed

definition named :: "u8 list \<Rightarrow> u8 list \<times> u8 list list \<Rightarrow> bool" where
  "named nm f \<longleftrightarrow> cstrn 14 (shortname (fst f)) = nm"

lemma root_dir_map:
  assumes "holds_image fs m k" "loaded m 1 k dp" "length fs \<le> 206"
  shows "dir_wf k dp" "dirmap k dp nm = map_option (\<lambda>i. of_nat (i + 2)) (find_idx (named nm) fs)"
proof -
  have h: "idle_fs k" "itype m 1 = 1" "contents m 1 = entries 2 fs @ replicate (1024 - 16 * length fs mod 1024) 0"
    using assms(1) unfolding holds_image_def imaged_def by blast+
  have n1: "1 < (208 :: nat)" by simp
  note lw = loaded_wf[OF assms(1) n1 assms(2)]
  define pad where "pad = 1024 - 16 * length fs mod 1024"
  have z: "fsize k dp = 16 * length fs + pad" using lw(2) h(3) by (simp add: pad_def)
  have p16: "16 dvd pad" unfolding pad_def by (intro dvd_diff_nat) (auto simp: dvd_mod)
  then obtain q where q: "pad = 16 * q" by blast
  have ty: "i_type (itable k ! dp) = T_DIR" using assms(2) h(2) by (simp add: loaded_def T_DIR_def)
  show "dir_wf k dp" using h(1) lw(1,4,5) ty z p16 by (simp add: dir_wf_def)
  have le: "length (ents k dp) = length fs + q" by (simp add: ents_def z q)
  have en: "ent k dp j = take 16 (drop (16 * j) (contents m 1))" if "j < length fs + q" for j
  proof (rule nth_equalityI)
    have "16 * j + 16 \<le> fsize k dp" using that z q by simp
    then show "length (ent k dp j) = length (take 16 (drop (16 * j) (contents m 1)))" using lw(2) by (simp add: ent_def)
    fix i assume "i < length (ent k dp j)"
    then have "i < 16" by (simp add: ent_def)
    then show "ent k dp j ! i = take 16 (drop (16 * j) (contents m 1)) ! i"
      using lw(2) lw(3)[of "16 * j + i"] \<open>16 * j + 16 \<le> fsize k dp\<close> by (simp add: ent_def)
  qed
  have e1: "ents k dp ! j = entry (2 + j) (shortname (fst (fs ! j)))" if "j < length fs" for j
    using en[of j] that entries_nth[OF that, of 2] h(3) le by (simp add: ents_nth)
  have e2: "ents k dp ! j = replicate 16 0" if "length fs \<le> j" "j < length fs + q" for j
  proof -
    have "16 * j - 16 * length fs + 16 \<le> pad" using that q by simp
    then have "take 16 (drop (16 * j) (contents m 1)) = replicate 16 0"
      unfolding h(3) pad_def[symmetric] using that by simp
    then show ?thesis using en[of j] that le by (simp add: ents_nth)
  qed
  have mt: "matches nm (ents k dp ! j) \<longleftrightarrow> j < length fs \<and> named nm (fs ! j)" if "j < length fs + q" for j
  proof (cases "j < length fs")
    case True
    then show ?thesis using e1[OF True] matches_entry(1)[of "2 + j" nm] assms(3) by (simp add: named_def)
  next
    case False
    then show ?thesis using e2[of j] that matches_zero by simp
  qed
  show "dirmap k dp nm = map_option (\<lambda>i. of_nat (i + 2)) (find_idx (named nm) fs)"
  proof (cases "find_idx (named nm) fs")
    case None
    then have "\<not> matches nm (ents k dp ! j)" if "j < length fs + q" for j
      using mt[OF that] by (auto simp: find_idx_None)
    then have "find_idx (matches nm) (ents k dp) = None" using le by (intro find_idx_end) auto
    then show ?thesis using None by (simp add: dirmap_def)
  next
    case (Some i)
    then have i: "i < length fs" "named nm (fs ! i)" "\<forall>j<i. \<not> named nm (fs ! j)" by (simp_all add: find_idx_Some)
    then have "find_idx (matches nm) (ents k dp) = Some i" using mt le by (intro find_idx_at) auto
    then show ?thesis using Some e1[OF i(1)] matches_entry(2)[of "2 + i"] i(1) assms(3) by (simp add: dirmap_def add.commute)
  qed
qed


section \<open>Lookup after boot\<close>

text \<open>The kernel right after \<open>fsinit\<close>: no inode is in use.\<close>

definition fresh_table :: "'a kfs_scheme \<Rightarrow> bool" where
  "fresh_table k \<longleftrightarrow> 2 \<le> length (itable k) \<and> (\<forall>j < length (itable k). i_ref (itable k ! j) = 0)"

lemma itable_wf_cong:
  assumes "length (itable k') = length (itable k)" "\<forall>j. i_ref (itable k' ! j) = i_ref (itable k ! j) \<and>
    i_dev (itable k' ! j) = i_dev (itable k ! j) \<and> i_inum (itable k' ! j) = i_inum (itable k ! j)"
  shows "itable_wf k' = itable_wf k"
  using assms by (simp add: itable_wf_def)

lemma iget_image:
  assumes "holds_image fs m k" "iget dev inum k = Inr (ip, k')"
  shows "holds_image fs m k'" "length (itable k') = length (itable k)"
proof -
  have u: "\<exists>f. k' = upd_inode ip f k" using assms(2) by (auto simp: iget_def split: option.splits)
  then show "holds_image fs m k'" "length (itable k') = length (itable k)"
    using assms(1) by (auto simp: holds_image_def)
qed

lemma root_ok:
  assumes "holds_image fs m k" "fresh_table k"
  shows "\<exists>dp k1. root_dir k = Inr (dp, k1) \<and> holds_image fs m k1 \<and> loaded m 1 k1 dp \<and> itable_wf k1 \<and>
    length (itable k1) = length (itable k) \<and> 0 < i_ref (itable k1 ! dp) \<and> (\<forall>j < length (itable k1). j \<noteq> dp \<longrightarrow> i_ref (itable k1 ! j) = 0)"
proof -
  have t: "2 \<le> length (itable k)" "\<forall>j < length (itable k). i_ref (itable k ! j) = 0" using assms(2) by (simp_all add: fresh_table_def)
  have "itable_wf k" using t(2) by (simp add: itable_wf_def)
  from iget_ok[OF this, of 1 1] have "\<exists>ip s'. iget 1 1 k = Inr (ip, s') \<and> ip < length (itable k) \<and> itable_wf s' \<and>
      i_dev (itable s' ! ip) = 1 \<and> i_inum (itable s' ! ip) = 1 \<and> i_ref (itable s' ! ip) = i_ref (itable k ! ip) + 1 \<and>
      (i_ref (itable k ! ip) = 0 \<longrightarrow> \<not> i_valid (itable s' ! ip)) \<and> (\<forall>j. j \<noteq> ip \<longrightarrow> itable s' ! j = itable k ! j)"
    (is "\<exists>ip s'. ?P ip s'")
  proof (elim disjE exE conjE)
    assume "\<forall>i < length (itable k). 0 < i_ref (itable k ! i) \<and> \<not> (i_dev (itable k ! i) = 1 \<and> i_inum (itable k ! i) = 1)"
    then have "0 < i_ref (itable k ! 0)" using t(1) by (metis less_le_trans zero_less_numeral)
    moreover have "0 < length (itable k)" using t(1) by linarith
    ultimately show ?thesis using t(2) by simp
  qed blast
  then obtain dp k0 where "?P dp k0" by blast
  then have g: "iget 1 1 k = Inr (dp, k0)" "dp < length (itable k)" "itable_wf k0" "i_dev (itable k0 ! dp) = 1" "i_inum (itable k0 ! dp) = of_nat 1"
    "i_ref (itable k0 ! dp) = 1" "\<not> i_valid (itable k0 ! dp)" "\<forall>j. j \<noteq> dp \<longrightarrow> itable k0 ! j = itable k ! j"
    using t(2) by simp_all
  note im = iget_image[OF assms(1) g(1)]
  have "itype m 1 = 1" using assms(1) unfolding holds_image_def imaged_def by blast
  then have ty: "sint (itype m 1) \<noteq> 0" by simp
  have n1: "1 < (208 :: nat)" by simp
  have "dp < length (itable k0)" using g(2) im(2) by simp
  then obtain k1 where k1: "ivalid dp k0 = Inr k1" "holds_image fs m k1" "loaded m 1 k1 dp" "length (itable k1) = length (itable k0)"
    "i_ref (itable k1 ! dp) = i_ref (itable k0 ! dp)" "\<forall>j. j \<noteq> dp \<longrightarrow> itable k1 ! j = itable k0 ! j"
    using loaded_ivalid[OF im(1) n1 _ g(4,5,7) ty] by blast
  have "i_ref (itable k1 ! j) = i_ref (itable k0 ! j) \<and> i_dev (itable k1 ! j) = i_dev (itable k0 ! j) \<and> i_inum (itable k1 ! j) = i_inum (itable k0 ! j)" for j
    using k1(3,5,6) g(4,5) by (cases "j = dp") (simp_all add: loaded_def)
  then have "itable_wf k1" using itable_wf_cong[OF k1(4)] g(3) by simp
  moreover have "root_dir k = Inr (dp, k1)" using g(1) k1(1) by (simp add: root_dir_def ROOTDEV_def ROOTINO_def)
  moreover have "i_ref (itable k1 ! j) = 0" if "j < length (itable k1)" "j \<noteq> dp" for j
    using that k1(4,6) g(8) im(2) t(2) by simp
  ultimately show ?thesis using k1(2-5) g(6) im(2) by auto
qed

lemma ucast_small:
  assumes "n < 2 ^ 16"
  shows "(ucast (of_nat n :: u16) :: u32) = of_nat n"
proof -
  have "n < 2 ^ 32" by (rule less_trans[OF assms]) simp
  then show ?thesis
    using assms by (simp add: word_unat_eq_iff unsigned_ucast_eq unat_of_nat_u32 unsigned_of_nat take_bit_nat_eq_self)
qed

lemma namei_ok:
  assumes "holds_image fs m k" "fresh_table k" "scannable 14 path" "length fs \<le> 206"
  shows "case find_idx (named (cstrn 14 path)) fs of
      None \<Rightarrow> \<exists>k2. namei path k = Inr (None, k2)
    | Some i \<Rightarrow> \<exists>ip k2 k3. namei path k = Inr (Some ip, k2) \<and> ivalid ip k2 = Inr k3 \<and> holds_image fs m k3 \<and> loaded m (i + 2) k3 ip"
proof -
  obtain dp k1 where r: "root_dir k = Inr (dp, k1)" "holds_image fs m k1" "loaded m 1 k1 dp" "itable_wf k1"
    "length (itable k1) = length (itable k)" "0 < i_ref (itable k1 ! dp)" "\<forall>j < length (itable k1). j \<noteq> dp \<longrightarrow> i_ref (itable k1 ! j) = 0"
    using root_ok[OF assms(1,2)] by blast
  have nm: "namei path k = bindE (dirlookup dp path k1) (\<lambda>(r, s). Inr (map_option fst r, s))" using r(1) by (simp add: namei_def)
  note dm = root_dir_map(2)[OF r(2,3) assms(4), of "cstrn 14 path"]
  note dl = dirlookup_ok[OF root_dir_map(1)[OF r(2,3) assms(4)] r(4) assms(3), unfolded dm]
  show ?thesis
  proof (cases "find_idx (named (cstrn 14 path)) fs")
    case None
    then show ?thesis using dl nm by auto
  next
    case (Some i)
    then have i: "i < length fs" by (rule find_idx_less)
    have n: "i + 2 < 208" using i assms(4) by simp
    have "i + 2 < 2 ^ 16" using n by simp
    note w = ucast_small[OF this]
    have "\<not> (\<forall>j < length (itable k1). 0 < i_ref (itable k1 ! j))"
    proof -
      have "2 \<le> length (itable k1)" using assms(2) r(5) by (simp add: fresh_table_def)
      then have "\<exists>j < length (itable k1). j \<noteq> dp" by (cases "dp = 0") (auto intro: exI[of _ 1] exI[of _ 0])
      then show ?thesis using r(7) by auto
    qed
    then obtain ip off k2 where g: "dirlookup dp path k1 = Inr (Some (ip, off), k2)" "ip < length (itable k1)"
      "i_dev (itable k2 ! ip) = 1" "i_inum (itable k2 ! ip) = of_nat (i + 2)" "i_ref (itable k1 ! ip) = 0 \<longrightarrow> \<not> i_valid (itable k2 ! ip)"
      "0 < i_ref (itable k1 ! ip) \<longrightarrow> itable k2 ! ip = (itable k1 ! ip)\<lparr>i_ref := i_ref (itable k1 ! ip) + 1\<rparr>"
      "idle_fs k2" "length (itable k2) = length (itable k1)" "disk k2 = disk k1" "nofs k2 = nofs k1"
      using dl Some w by auto
    have ne: "ip \<noteq> dp"
    proof
      assume e: "ip = dp"
      then have "i_inum (itable k2 ! ip) = of_nat 1" using g(6) r(3,6) by (simp add: loaded_def)
      then have "unat (of_nat (i + 2) :: u32) = 1" using g(4) by simp
      then show False using n unat_of_nat_u32[of "i + 2"] by simp
    qed
    then have "i_ref (itable k1 ! ip) = 0" using r(7) g(2) by simp
    then have nv: "\<not> i_valid (itable k2 ! ip)" using g(5) by simp
    have h2: "holds_image fs m k2" using r(2) g(7,9) nofs_sb[OF g(10)] by (simp add: holds_image_def)
    have "itype m (i + 2) = 2" using assms(1) i unfolding holds_image_def imaged_def by blast
    then have ty: "sint (itype m (i + 2)) \<noteq> 0" by simp
    have ipl: "ip < length (itable k2)" using g(2,8) by simp
    obtain k3 where "ivalid ip k2 = Inr k3" "holds_image fs m k3" "loaded m (i + 2) k3 ip"
      using loaded_ivalid[OF h2 n ipl g(3,4) nv ty] by blast
    then show ?thesis using Some nm g(1) by auto
  qed
qed


text \<open>Reading any range of file \<open>ip\<close> gives the bytes of \<open>bs\<close> in that range, cut at the end.\<close>

definition reads_as :: "'a kfs_scheme \<Rightarrow> nat \<Rightarrow> u8 list \<Rightarrow> bool" where
  "reads_as k ip bs \<longleftrightarrow> (\<forall>off c dst. unat off + unat c < 2 ^ 32 \<longrightarrow>
     (\<exists>k'. readi ip False dst off c k = Inr (of_nat (length (take (unat c) (drop (unat off) bs))), take (unat c) (drop (unat off) bs), k')))"

lemma readi_image:
  assumes "holds_image fs m k" "n < 208" "loaded m n k ip"
  shows "reads_as k ip (contents m n)"
  unfolding reads_as_def
proof (intro allI impI)
  fix off c dst assume oc: "unat (off :: u32) + unat (c :: u32) < 2 ^ 32"
  note lw = loaded_wf[OF assms(1-3)]
  have h: "idle_fs k" using assms(1) by (simp add: holds_image_def)
  note r = readi_ok[OF h lw(1,5), of off c dst]
  show "\<exists>k'. readi ip False dst off c k =
    Inr (of_nat (length (take (unat c) (drop (unat off) (contents m n)))), take (unat c) (drop (unat off) (contents m n)), k')"
  proof (cases "fsize k ip < unat off")
    case True
    then show ?thesis using r lw(2) by simp
  next
    case False
    let ?t = "min (unat c) (fsize k ip - unat off)"
    have "\<not> hole k ip (unat off) ?t" using lw(4) False by (auto simp: hole_def)
    moreover have "map (\<lambda>i. fbyte k ip (unat off + i)) [0..<?t] = take (unat c) (drop (unat off) (contents m n))"
      using lw(2,3) False by (intro nth_equalityI) auto
    ultimately show ?thesis using r False oc lw(2) by (auto simp: min.commute)
  qed
qed

text \<open>C1: from the image tool to the kernel's \<open>read\<close>: for files whose names and sizes fit, \<open>mkfs\<close> succeeds, and a
  kernel that boots on its disk finds every file by its name (the first of its name) and reads back
  its bytes at every position and length; a name that was not added is not found.\<close>

theorem mkfs_boot:
  assumes "files_ok fs" "idle_fs k" "fresh_table k"
  shows "\<exists>m. mkfs_main fs = Inr m \<and> ((\<forall>b. unat b < 1000 \<longrightarrow> disk k b = img m b) \<longrightarrow>
    (\<exists>k1. fsinit k = Inr k1 \<and> (\<forall>path. scannable 14 path \<longrightarrow>
      (case find_idx (named (cstrn 14 path)) fs of
        None \<Rightarrow> \<exists>k2. namei path k1 = Inr (None, k2)
      | Some i \<Rightarrow> \<exists>ip k2 k3. namei path k1 = Inr (Some ip, k2) \<and> ivalid ip k2 = Inr k3 \<and> reads_as k3 ip (bytes_of (fs ! i))))))"
proof -
  obtain m where m: "mkfs_main fs = Inr m" "imaged fs m" using mkfs_main_ok[OF assms(1)] by blast
  have le: "length fs \<le> 206" "16 + blocks fs \<le> 1000" using assms(1) by (simp_all add: files_ok_def)
  show ?thesis
  proof (intro exI[of _ m] conjI impI m(1))
    assume d: "\<forall>b. unat b < 1000 \<longrightarrow> disk k b = img m b"
    have "img m 1 = put_at 0 (sb_bytes make_sb) (replicate 1024 0)" using m(2) unfolding imaged_def by blast
    then have "disk k 1 = put_at 0 (sb_bytes make_sb) (replicate 1024 0)" using d by simp
    then obtain k1 where k1: "fsinit k = Inr k1" "idle_fs k1" "disk k1 = disk k" "itable k1 = itable k" "sb k1 = make_sb"
      using fsinit_ok[OF assms(2)] by blast
    have h: "holds_image fs m k1" using m(2) le(2) k1 d by (simp add: holds_image_def)
    have f: "fresh_table k1" using assms(3) k1(4) by (simp add: fresh_table_def)
    have c: "contents m (i + 2) = bytes_of (fs ! i)" "i + 2 < 208" if "find_idx (named nm) fs = Some i" for nm i
    proof -
      have "i < length fs" by (rule find_idx_less[OF that])
      then show "contents m (i + 2) = bytes_of (fs ! i)" "i + 2 < 208" using m(2) le(1) unfolding imaged_def by auto
    qed
    show "\<exists>k1. fsinit k = Inr k1 \<and> (\<forall>path. scannable 14 path \<longrightarrow>
      (case find_idx (named (cstrn 14 path)) fs of
        None \<Rightarrow> \<exists>k2. namei path k1 = Inr (None, k2)
      | Some i \<Rightarrow> \<exists>ip k2 k3. namei path k1 = Inr (Some ip, k2) \<and> ivalid ip k2 = Inr k3 \<and> reads_as k3 ip (bytes_of (fs ! i))))"
    proof (intro exI[of _ k1] conjI allI impI k1(1))
      fix path :: "u8 list" assume p: "scannable 14 path"
      show "case find_idx (named (cstrn 14 path)) fs of
        None \<Rightarrow> \<exists>k2. namei path k1 = Inr (None, k2)
      | Some i \<Rightarrow> \<exists>ip k2 k3. namei path k1 = Inr (Some ip, k2) \<and> ivalid ip k2 = Inr k3 \<and> reads_as k3 ip (bytes_of (fs ! i))"
      proof (cases "find_idx (named (cstrn 14 path)) fs")
        case None
        then show ?thesis using namei_ok[OF h f p le(1)] by simp
      next
        case (Some i)
        then obtain ip k2 k3 where n: "namei path k1 = Inr (Some ip, k2)" "ivalid ip k2 = Inr k3" "holds_image fs m k3" "loaded m (i + 2) k3 ip"
          using namei_ok[OF h f p le(1)] by auto
        then show ?thesis using Some readi_image[OF n(3) c(2)[OF Some] n(4), unfolded c(1)[OF Some]] by auto
      qed
    qed
  qed
qed


text \<open>One small file, and a kernel that boots on the image with it.\<close>

definition one_file :: "(u8 list \<times> u8 list list) list" where
  "one_file = [([97, 0], [[1, 2], [3]])]"

definition booting :: "mkfs \<Rightarrow> kload" where
  "booting m = binit (kload0 (\<lambda>_. 0) (\<lambda>b. if unat b < 1000 then img m b else replicate 1024 0))"

lemma one_file_ok: "files_ok one_file"
proof -
  have t: "cstrn 7 [97, 0] \<noteq> map of_char ''target/''" by (simp add: cstrn_def)
  have "shortname [97, 0] = [97, 0]" using t by (simp add: shortname_def)
  then show ?thesis
    by (simp add: files_ok_def one_file_def file_ok_def bytes_of_def blocks_def need_def nb_def)
qed

lemma booting_ok:
  assumes "imaged fs m"
  shows "idle_fs (booting m)" "fresh_table (booting m)" "unat b < 1000 \<Longrightarrow> disk (booting m) b = img m b"
proof -
  let ?k = "kload0 (\<lambda>_. 0) (\<lambda>b. if unat b < 1000 then img m b else replicate 1024 0)"
  have w: "mk_wf m" using assms by (simp add: imaged_def)
  have "length (img m b) = 1024" if "unat b < 1000" for b
    using w that by (cases "unat b < 16") (simp_all add: mk_wf_def img_wf_def free_wf_def)
  then have "ready (binit ?k)" by (intro binit_ready) (simp_all add: kload0_def)
  moreover have "refs (binit ?k) i = 0" for i
    using binit_fields(3)[of ?k i] by (simp add: kload0_def refs_def)
  ultimately show "idle_fs (booting m)" by (simp add: booting_def idle_fs_def ready_def)
  show "fresh_table (booting m)" by (simp add: booting_def fresh_table_def kload0_def binit_def Let_def inode0_def)
  show "unat b < 1000 \<Longrightarrow> disk (booting m) b = img m b" by (simp add: booting_def kload0_def binit_def Let_def)
qed

theorem mkfs_boot_witness:
  "\<exists>m k1 ip k2 k3 k4. mkfs_main one_file = Inr m \<and> fsinit (booting m) = Inr k1 \<and> namei [97, 0] k1 = Inr (Some ip, k2) \<and>
    ivalid ip k2 = Inr k3 \<and> readi ip False 0 1 5 k3 = Inr (2, [2, 3], k4)"
proof -
  obtain m where m: "mkfs_main one_file = Inr m" "imaged one_file m" using mkfs_main_ok[OF one_file_ok] by blast
  note b = booting_ok[OF m(2)]
  have t: "shortname [97, 0] = [97, 0]" by (simp add: shortname_def cstrn_def)
  have i: "find_idx (named (cstrn 14 [97, 0])) one_file = Some 0" by (simp add: one_file_def named_def t)
  have p: "scannable 14 [97, 0]" by (simp add: scannable_def)
  obtain k1 where k1: "fsinit (booting m) = Inr k1" "\<forall>path. scannable 14 path \<longrightarrow>
      (case find_idx (named (cstrn 14 path)) one_file of
        None \<Rightarrow> \<exists>k2. namei path k1 = Inr (None, k2)
      | Some i \<Rightarrow> \<exists>ip k2 k3. namei path k1 = Inr (Some ip, k2) \<and> ivalid ip k2 = Inr k3 \<and> reads_as k3 ip (bytes_of (one_file ! i)))"
    using mkfs_boot[OF one_file_ok b(1,2)] m(1) b(3) by auto
  have "bytes_of (one_file ! 0) = [1, 2, 3]" by (simp add: one_file_def bytes_of_def)
  then obtain ip k2 k3 where r: "namei [97, 0] k1 = Inr (Some ip, k2)" "ivalid ip k2 = Inr k3" "reads_as k3 ip [1, 2, 3]"
    using k1(2)[rule_format, OF p] i by auto
  have "unat (1 :: u32) + unat (5 :: u32) < 2 ^ 32" by simp
  from r(3)[unfolded reads_as_def, rule_format, OF this] obtain k4 where "readi ip False 0 1 5 k3 = Inr (2, [2, 3], k4)"
    by auto
  then show ?thesis using m(1) k1(1) r(1,2) by blast
qed

end
