(* ===== verification/FreeWalk.thy ===== *)
theory FreeWalk
  imports UserMem MemOnly
begin

text \<open>
  Releasing an address space: \<open>freewalk\<close> of \<open>kernel/vm.c\<close> gives back exactly the pages of the tables below
  a root from which all leaves are gone, and \<open>uvmfree\<close> with it the frames of the process.
\<close>

section \<open>The tables below a page\<close>

fun subtree :: "bmem \<Rightarrow> nat \<Rightarrow> u64 \<Rightarrow> u64 set" where
  "subtree m 0 a = {a}"
| "subtree m (Suc d) a =
     insert a (\<Union>i \<in> {..<512}. case entry_page m a (of_nat i) of None \<Rightarrow> {} | Some c \<Rightarrow> subtree m d c)"

definition kids :: "bmem \<Rightarrow> nat \<Rightarrow> u64 \<Rightarrow> nat \<Rightarrow> u64 set" where
  "kids m d a i = (case entry_page m a (of_nat i) of None \<Rightarrow> {} | Some c \<Rightarrow> subtree m d c)"

text \<open>
  A table to be released: at the last level no entry is valid, above it the valid entries are pointers to
  such tables (no rights bits), and no page is reached twice.
\<close>

fun clean :: "bmem \<Rightarrow> nat \<Rightarrow> u64 \<Rightarrow> bool" where
  "clean m 0 a \<longleftrightarrow> aligned a \<and> (\<forall>i<512. load64 m (a + 8 * of_nat i) AND 1 = 0)"
| "clean m (Suc d) a \<longleftrightarrow> aligned a \<and>
     (\<forall>i<512. a \<notin> kids m d a i \<and> (load64 m (a + 8 * of_nat i) AND 1 \<noteq> 0 \<longrightarrow>
        load64 m (a + 8 * of_nat i) AND 14 = 0 \<and> clean m d (PTE2PA (load64 m (a + 8 * of_nat i))))) \<and>
     (\<forall>i<512. \<forall>j<512. i \<noteq> j \<longrightarrow> kids m d a i \<inter> kids m d a j = {})"

lemma subtree_kids: "subtree m (Suc d) a = insert a (\<Union>i \<in> {..<512}. kids m d a i)"
  by (simp add: kids_def)

lemma root_subtree [simp]: "a \<in> subtree m d a"
  by (cases d) simp_all

lemma clean_aligned: "clean m d a \<Longrightarrow> aligned a"
  by (cases d) simp_all

lemma kids_valid: "load64 m (a + 8 * of_nat i) AND 1 \<noteq> 0 \<Longrightarrow> kids m d a i = subtree m d (PTE2PA (load64 m (a + 8 * of_nat i)))"
  by (simp add: kids_def entry_page_def Let_def)

lemma kids_invalid: "load64 m (a + 8 * of_nat i) AND 1 = 0 \<Longrightarrow> kids m d a i = {}"
  by (simp add: kids_def entry_page_def Let_def)

lemma index_less: "i < 512 \<Longrightarrow> (of_nat i :: u64) < 512"
  by (simp add: word_less_nat_alt unat_of_nat_u64)

lemma index_inj: "i < 512 \<Longrightarrow> j < 512 \<Longrightarrow> (of_nat i :: u64) = of_nat j \<Longrightarrow> i = j"
proof -
  assume ij: "i < 512" "j < 512" and e: "(of_nat i :: u64) = of_nat j"
  have "i < 2 ^ 64" "j < 2 ^ 64" using ij by simp_all
  then show "i = j" using arg_cong[OF e, of unat] by (simp only: unat_of_nat_u64)
qed

lemma clean_same_off:
  "clean m d a \<Longrightarrow> same_off P m m' \<Longrightarrow> P \<inter> subtree m d a = {} \<Longrightarrow> clean m' d a \<and> subtree m' d a = subtree m d a"
proof (induction d arbitrary: a)
  case 0
  then have "load64 m' (a + 8 * of_nat i) = load64 m (a + 8 * of_nat i)" if "i < 512" for i
    using that by (intro entry_load_same_off[OF 0(2)]) (auto simp: index_less)
  then show ?case using 0 by simp
next
  case (Suc d)
  have a: "aligned a" "a \<notin> P" using Suc.prems by auto
  have ld: "load64 m' (a + 8 * of_nat i) = load64 m (a + 8 * of_nat i)" if "i < 512" for i
    using that a by (intro entry_load_same_off[OF Suc.prems(2)]) (auto simp: index_less)
  have kid: "clean m' d (PTE2PA (load64 m (a + 8 * of_nat i))) \<and>
      subtree m' d (PTE2PA (load64 m (a + 8 * of_nat i))) = subtree m d (PTE2PA (load64 m (a + 8 * of_nat i)))"
    if i: "i < 512" and v: "load64 m (a + 8 * of_nat i) AND 1 \<noteq> 0" for i
  proof (rule Suc.IH[OF _ Suc.prems(2)])
    show "clean m d (PTE2PA (load64 m (a + 8 * of_nat i)))" using Suc.prems(1) i v by simp
    have "subtree m d (PTE2PA (load64 m (a + 8 * of_nat i))) \<subseteq> subtree m (Suc d) a"
      unfolding subtree_kids kids_valid[OF v, symmetric] using i by blast
    then show "P \<inter> subtree m d (PTE2PA (load64 m (a + 8 * of_nat i))) = {}" using Suc.prems(3) by blast
  qed
  have k: "kids m' d a i = kids m d a i" if "i < 512" for i
    using kid[OF that] ld[OF that] kids_valid[of m' a i d] kids_valid[of m a i d] kids_invalid[of m' a i d] kids_invalid[of m a i d]
    by (cases "load64 m (a + 8 * of_nat i) AND 1 = 0") simp_all
  have "subtree m' (Suc d) a = subtree m (Suc d) a"
    unfolding subtree_kids using k by simp
  moreover have "clean m' (Suc d) a"
    unfolding clean.simps
  proof (intro conjI allI impI)
    show "aligned a" by (rule a(1))
    fix i :: nat assume i: "i < 512"
    show "a \<notin> kids m' d a i" using Suc.prems(1) i k by simp
    assume v: "load64 m' (a + 8 * of_nat i) AND 1 \<noteq> 0"
    show "load64 m' (a + 8 * of_nat i) AND 14 = 0" using Suc.prems(1) i v ld by simp
    show "clean m' d (PTE2PA (load64 m' (a + 8 * of_nat i)))" using kid[OF i] v ld[OF i] by simp
  next
    fix i j :: nat assume ij: "i < 512" "j < 512" "i \<noteq> j"
    show "kids m' d a i \<inter> kids m' d a j = {}" using Suc.prems(1) ij k by simp
  qed
  ultimately show ?case by blast
qed

section \<open>freewalk\<close>

lemma freewalk_loop_0: "(\<forall>i<512. load64 (mem s) (a + 8 * of_nat i) AND 1 = 0) \<Longrightarrow> k \<le> 512 \<Longrightarrow> freewalk_loop 0 k a s = Inr s"
proof (induction k)
  case (Suc k)
  have i: "512 - Suc k < 512" by simp
  have "load64 (mem s) (a + 8 * of_nat (512 - Suc k)) AND 1 = 0" using Suc.prems(1) i by blast
  moreover have "freewalk_loop 0 k a s = Inr s" using Suc by simp
  ultimately show ?case unfolding freewalk_loop.simps Let_def by (simp only: simp_thms if_False)
qed simp

text \<open>What the loop still relies on when \<open>k\<close> entries are to go.\<close>

definition rest_clean :: "bmem \<Rightarrow> nat \<Rightarrow> u64 \<Rightarrow> nat \<Rightarrow> bool" where
  "rest_clean m d a k \<longleftrightarrow>
     (\<forall>i \<in> {512 - k..<512}. a \<notin> kids m d a i \<and> (load64 m (a + 8 * of_nat i) AND 1 \<noteq> 0 \<longrightarrow>
        load64 m (a + 8 * of_nat i) AND 14 = 0 \<and> clean m d (PTE2PA (load64 m (a + 8 * of_nat i))))) \<and>
     (\<forall>i \<in> {512 - k..<512}. \<forall>j \<in> {512 - k..<512}. i \<noteq> j \<longrightarrow> kids m d a i \<inter> kids m d a j = {})"

lemma rest_clean_mono:
  assumes "rest_clean m d a k'" "k \<le> k'"
  shows "rest_clean m d a k"
proof -
  have sub: "j \<in> {512 - k'..<512}" if "j \<in> {512 - k..<512}" for j using that assms(2) by auto
  show ?thesis
    using assms(1) unfolding rest_clean_def using sub by blast
qed

definition kidset :: "bmem \<Rightarrow> nat \<Rightarrow> u64 \<Rightarrow> nat \<Rightarrow> u64 set" where
  "kidset m d a k = (\<Union>i \<in> {512 - k..<512}. kids m d a i)"

lemma clean_rest: "clean m (Suc d) a \<longleftrightarrow> aligned a \<and> rest_clean m d a 512"
  by (simp add: rest_clean_def Ball_def)

lemma kidset_Suc: "k < 512 \<Longrightarrow> kidset m d a (Suc k) = kids m d a (512 - Suc k) \<union> kidset m d a k"
proof -
  assume "k < 512"
  then have "{512 - Suc k..<512} = insert (512 - Suc k) {512 - k..<512}" by auto
  then show ?thesis by (simp add: kidset_def)
qed

text \<open>The remaining entries after the table of entry \<open>i\<close> was released and the entry cleared.\<close>

lemma rest_clean_step:
  assumes r: "rest_clean m d a (Suc k)" and k: "k < 512" and a: "aligned a"
    and off: "same_off P m m1" and P: "P = kids m d a (512 - Suc k)"
  defines "m' \<equiv> store64 m1 (a + 8 * of_nat (512 - Suc k)) 0"
  shows "rest_clean m' d a k" "kidset m' d a k = kidset m d a k" "same_off (insert a P) m m'"
proof -
  let ?i = "512 - Suc k"
  have i: "?i < 512" by simp
  have sub: "j \<in> {512 - Suc k..<512}" if "j \<in> {512 - k..<512}" for j using that by auto
  have R: "a \<notin> kids m d a j" "load64 m (a + 8 * of_nat j) AND 1 \<noteq> 0 \<Longrightarrow>
      load64 m (a + 8 * of_nat j) AND 14 = 0 \<and> clean m d (PTE2PA (load64 m (a + 8 * of_nat j)))"
    if "j \<in> {512 - Suc k..<512}" for j using r that unfolding rest_clean_def by blast+
  have D: "kids m d a j \<inter> kids m d a j' = {}" if "j \<in> {512 - Suc k..<512}" "j' \<in> {512 - Suc k..<512}" "j \<noteq> j'" for j j'
    using r that unfolding rest_clean_def by blast
  have ii: "?i \<in> {512 - Suc k..<512}" using k by simp
  have aP: "a \<notin> P" using R(1)[OF ii] P by simp
  have so: "same_off {a} m1 m'" unfolding m'_def by (rule store_entry_same_off[OF a index_less[OF i]])
  show off': "same_off (insert a P) m m'" by (rule same_off_trans[OF off so]) auto
  have ld: "load64 m' (a + 8 * of_nat j) = load64 m (a + 8 * of_nat j)" if "j \<in> {512 - k..<512}" for j
  proof -
    have "j \<noteq> ?i" "j < 512" using that k by auto
    then have "(of_nat ?i :: u64) \<noteq> of_nat j" using index_inj[OF i] by metis
    then have "load64 m' (a + 8 * of_nat j) = load64 m1 (a + 8 * of_nat j)"
      unfolding m'_def using load_store_entry[OF a index_less[OF i] index_less[OF \<open>j < 512\<close>]] by simp
    also have "\<dots> = load64 m (a + 8 * of_nat j)"
      by (rule entry_load_same_off[OF off a aP index_less[OF \<open>j < 512\<close>]])
    finally show ?thesis .
  qed
  have kid: "clean m' d (PTE2PA (load64 m (a + 8 * of_nat j))) \<and> kids m' d a j = kids m d a j"
    if j: "j \<in> {512 - k..<512}" and v: "load64 m (a + 8 * of_nat j) AND 1 \<noteq> 0" for j
  proof -
    note kv = kids_valid[OF v, of d]
    have v': "load64 m' (a + 8 * of_nat j) AND 1 \<noteq> 0" using v ld[OF j] by simp
    have "j \<noteq> ?i" using j k by auto
    then have "insert a P \<inter> kids m d a j = {}" using D[OF sub[OF j] ii] R(1)[OF sub[OF j]] P by blast
    then have "clean m' d (PTE2PA (load64 m (a + 8 * of_nat j))) \<and>
      subtree m' d (PTE2PA (load64 m (a + 8 * of_nat j))) = kids m d a j"
      unfolding kv using clean_same_off[OF _ off', of d] R(2)[OF sub[OF j] v] by blast
    then show ?thesis using kids_valid[OF v', of d] ld[OF j] by simp
  qed
  have K: "kids m' d a j = kids m d a j" if j: "j \<in> {512 - k..<512}" for j
    using kid[OF j] kids_invalid[of m a j d] kids_invalid[of m' a j d] ld[OF j]
    by (cases "load64 m (a + 8 * of_nat j) AND 1 = 0") simp_all
  show "kidset m' d a k = kidset m d a k" unfolding kidset_def using K by simp
  show "rest_clean m' d a k"
    unfolding rest_clean_def
  proof (intro conjI ballI impI)
    fix j assume j: "j \<in> {512 - k..<512}"
    show "a \<notin> kids m' d a j" using R(1)[OF sub[OF j]] K[OF j] by simp
    assume v: "load64 m' (a + 8 * of_nat j) AND 1 \<noteq> 0"
    show "load64 m' (a + 8 * of_nat j) AND 14 = 0" using R(2)[OF sub[OF j]] v ld[OF j] by simp
    show "clean m' d (PTE2PA (load64 m' (a + 8 * of_nat j)))" using kid[OF j] v ld[OF j] by simp
  next
    fix j j' assume "j \<in> {512 - k..<512}" "j' \<in> {512 - k..<512}" "j \<noteq> j'"
    then show "kids m' d a j \<inter> kids m' d a j' = {}" using D[OF sub sub] K by simp
  qed
qed


definition owned :: "'a kmem_scheme \<Rightarrow> u64 list \<Rightarrow> u64 set \<Rightarrow> bool" where
  "owned s fps P \<longleftrightarrow> (\<forall>a \<in> P. page_ok (ekernel s) a) \<and> P \<inter> set fps = {}"

lemma owned_mono: "owned s fps P \<Longrightarrow> Q \<subseteq> P \<Longrightarrow> owned s fps Q"
  by (auto simp: owned_def)

text \<open>What the release of the pages \<open>P\<close> does.\<close>

definition released :: "'a kmem_scheme \<Rightarrow> u64 list \<Rightarrow> u64 set \<Rightarrow> 'a kmem_scheme \<Rightarrow> u64 list \<Rightarrow> bool" where
  "released s fps P s' fps' \<longleftrightarrow> kmem_wf s' fps' \<and> set fps' = P \<union> set fps \<and> mem_only s s'"

lemma releasedD: "released s fps P s' fps' \<Longrightarrow> kmem_wf s' fps'"
  "released s fps P s' fps' \<Longrightarrow> set fps' = P \<union> set fps"
  "released s fps P s' fps' \<Longrightarrow> ekernel s' = ekernel s"
  by (simp_all add: released_def mem_only_def)

lemma released_trans: "released s fps P s1 fps1 \<Longrightarrow> released s1 fps1 Q s2 fps2 \<Longrightarrow> released s fps (Q \<union> P) s2 fps2"
  by (auto simp: released_def mem_only_def)

lemma kfree_released:
  assumes "kmem_wf s fps" "page_ok (ekernel s) a" "a \<notin> set fps"
  shows "\<exists>s'. kfree a s = Inr s' \<and> released s fps {a} s' (a # fps) \<and> same_off {a} (mem s) (mem s')"
proof -
  obtain s' where "kfree a s = Inr s'" "kmem_wf s' (a # fps)" "same_off {a} (mem s) (mem s')"
    using kmem.free_ok[OF assms] by blast
  then show ?thesis using kfree_mem_only[of a s s'] by (auto simp: released_def)
qed

lemma store_released:
  assumes "released s fps P s1 fps1" "aligned a" "i < 512" "a \<notin> set fps1"
  shows "released s fps P (s1\<lparr>mem := store64 (mem s1) (a + 8 * of_nat i) v\<rparr>) fps1"
proof -
  have so: "same_off {a} (mem s1) (store64 (mem s1) (a + 8 * of_nat i) v)"
    by (rule store_entry_same_off[OF assms(2) index_less[OF assms(3)]])
  have "chain (store64 (mem s1) (a + 8 * of_nat i) v) (freelist s1) fps1"
    by (rule chain_same_off[OF _ so]) (use assms(1,4) in \<open>auto simp: released_def kmem_wf_def\<close>)
  then show ?thesis using assms(1) by (simp add: released_def kmem_wf_def)
qed

lemma freewalk_loop_step:
  fixes s :: "'a kmem_scheme"
  assumes child: "\<And>c (s :: 'a kmem_scheme) fps. clean (mem s) d c \<Longrightarrow> kmem_wf s fps \<Longrightarrow> owned s fps (subtree (mem s) d c) \<Longrightarrow>
      \<exists>s' fps'. freewalk d c s = Inr s' \<and> released s fps (subtree (mem s) d c) s' fps' \<and>
        same_off (subtree (mem s) d c) (mem s) (mem s')"
    and r: "rest_clean (mem s) d a k" "k \<le> 512" "aligned a" "kmem_wf s fps" "a \<notin> set fps"
      "owned s fps (kidset (mem s) d a k)"
  shows "\<exists>s' fps'. freewalk_loop (Suc d) k a s = Inr s' \<and> released s fps (kidset (mem s) d a k) s' fps' \<and>
    same_off (insert a (kidset (mem s) d a k)) (mem s) (mem s') \<and> a \<notin> set fps'"
  using r
proof (induction k arbitrary: s fps)
  case 0
  then show ?case by (auto simp: kidset_def released_def)
next
  case (Suc k)
  define i where "i = 512 - Suc k"
  have k: "k < 512" and i: "i < 512" using Suc.prems(2) by (auto simp: i_def)
  let ?e = "load64 (mem s) (a + 8 * of_nat i)"
  let ?P = "kids (mem s) d a i"
  have ks: "kidset (mem s) d a (Suc k) = ?P \<union> kidset (mem s) d a k" unfolding i_def by (rule kidset_Suc[OF k])
  have ii: "i \<in> {512 - Suc k..<512}" unfolding i_def using k by simp
  have R: "a \<notin> ?P" "?e AND 1 \<noteq> 0 \<Longrightarrow> ?e AND 14 = 0 \<and> clean (mem s) d (PTE2PA ?e)"
    using Suc.prems(1) ii unfolding rest_clean_def by blast+
  show ?case
  proof (cases "?e AND 1 = 0")
    case True
    have P: "?P = {}" by (rule kids_invalid[OF True])
    have eq: "freewalk_loop (Suc d) (Suc k) a s = freewalk_loop (Suc d) k a s"
      unfolding freewalk_loop.simps Let_def i_def[symmetric] using True by (simp only: simp_thms if_False)
    have r': "rest_clean (mem s) d a k"
      by (rule rest_clean_mono[OF Suc.prems(1)]) simp
    show ?thesis
      unfolding eq ks P Un_empty_left
      by (rule Suc.IH[OF r' _ Suc.prems(3-5) owned_mono[OF Suc.prems(6)]]) (use k ks in auto)
  next
    case False
    let ?c = "PTE2PA ?e"
    have P: "?P = subtree (mem s) d ?c" by (rule kids_valid[OF False])
    have own: "owned s fps (subtree (mem s) d ?c)" by (rule owned_mono[OF Suc.prems(6)]) (use ks P in blast)
    have c: "clean (mem s) d ?c" "?e AND 14 = 0" using R(2)[OF False] by auto
    obtain s1 fps1 where f: "freewalk d ?c s = Inr s1" "released s fps ?P s1 fps1" "same_off ?P (mem s) (mem s1)"
      using child[OF c(1) Suc.prems(4) own] unfolding P by blast
    let ?s2 = "s1\<lparr>mem := store64 (mem s1) (a + 8 * of_nat i) 0\<rparr>"
    have f14: "2 OR 4 OR 8 = (14 :: u64)" by simp
    have eq: "freewalk_loop (Suc d) (Suc k) a s = freewalk_loop (Suc d) k a ?s2"
    proof -
      have fw: "bindE (freewalk_loop d 512 ?c s) (\<lambda>s. bindE (kfree ?c s) g) = bindE (freewalk d ?c s) g" for g
        by (simp only: freewalk_def bindE_assoc)
      show ?thesis
        unfolding freewalk_loop.simps Let_def i_def[symmetric] f14 fw f(1) bindE.simps
        using False c(2) by (simp only: simp_thms if_True)
    qed
    note st = rest_clean_step[OF Suc.prems(1) k Suc.prems(3) f(3) i_def[THEN arg_cong, of "kids (mem s) d a"], folded i_def]
    have an: "a \<notin> set fps1" using releasedD(2)[OF f(2)] R(1) Suc.prems(5) by blast
    note rel = store_released[OF f(2) Suc.prems(3) i an, of 0]
    have disj: "?P \<inter> kidset (mem s) d a k = {}"
    proof -
      have "?P \<inter> kids (mem s) d a j = {}" if j: "j \<in> {512 - k..<512}" for j
      proof -
        have "j \<in> {512 - Suc k..<512}" "i \<noteq> j" using j k by (auto simp: i_def)
        then show ?thesis using Suc.prems(1) ii unfolding rest_clean_def by blast
      qed
      then show ?thesis unfolding kidset_def by blast
    qed
    have own2: "owned ?s2 fps1 (kidset (mem ?s2) d a k)"
      using Suc.prems(6) st(2) disj releasedD(2,3)[OF rel] unfolding ks owned_def by auto
    have "\<exists>s' fps'. freewalk_loop (Suc d) k a ?s2 = Inr s' \<and> released ?s2 fps1 (kidset (mem ?s2) d a k) s' fps' \<and>
      same_off (insert a (kidset (mem ?s2) d a k)) (mem ?s2) (mem s') \<and> a \<notin> set fps'"
      by (rule Suc.IH) (use st(1) k Suc.prems(3) releasedD(1)[OF rel] an own2 in simp_all)
    then obtain s' fps' where IH: "freewalk_loop (Suc d) k a ?s2 = Inr s'"
      "released ?s2 fps1 (kidset (mem s) d a k) s' fps'"
      "same_off (insert a (kidset (mem s) d a k)) (mem ?s2) (mem s')" "a \<notin> set fps'"
      using st(2) by auto
    have "released s fps (?P \<union> kidset (mem s) d a k) s' fps'"
      using released_trans[OF rel IH(2)] by (simp add: Un_commute)
    moreover have "same_off (insert a (?P \<union> kidset (mem s) d a k)) (mem s) (mem s')"
      by (rule same_off_trans[of "insert a ?P" _ "mem ?s2" "insert a (kidset (mem s) d a k)"]) (use st(3) IH(3) in auto)
    ultimately show ?thesis unfolding eq ks using IH(1,4) by blast
  qed
qed

lemma freewalk_ok:
  "clean (mem s) d a \<Longrightarrow> kmem_wf s fps \<Longrightarrow> owned s fps (subtree (mem s) d a) \<Longrightarrow>
   \<exists>s' fps'. freewalk d a s = Inr s' \<and> released s fps (subtree (mem s) d a) s' fps' \<and>
     same_off (subtree (mem s) d a) (mem s) (mem s')"
proof (induction d arbitrary: a s fps)
  case 0
  have z: "freewalk_loop 0 512 a s = Inr s" using 0(1) by (intro freewalk_loop_0) simp_all
  have a: "page_ok (ekernel s) a" "a \<notin> set fps" using 0(3) by (auto simp: owned_def)
  obtain s' where "kfree a s = Inr s'" "released s fps {a} s' (a # fps)" "same_off {a} (mem s) (mem s')"
    using kfree_released[OF 0(2) a] by blast
  then show ?case unfolding freewalk_def z bindE.simps subtree.simps by blast
next
  case (Suc d)
  let ?K = "kidset (mem s) d a 512"
  have sub: "subtree (mem s) (Suc d) a = insert a ?K"
    unfolding subtree_kids kidset_def by (simp add: atLeast0LessThan)
  have a: "aligned a" "page_ok (ekernel s) a" "a \<notin> set fps" using Suc.prems by (auto simp: owned_def)
  have rc: "rest_clean (mem s) d a 512" using Suc.prems(1) clean_rest by blast
  have own: "owned s fps ?K" by (rule owned_mono[OF Suc.prems(3)]) (use sub in blast)
  obtain s1 fps1 where l: "freewalk_loop (Suc d) 512 a s = Inr s1" "released s fps ?K s1 fps1"
    "same_off (insert a ?K) (mem s) (mem s1)" "a \<notin> set fps1"
    using freewalk_loop_step[OF Suc.IH rc order_refl a(1) Suc.prems(2) a(3) own] by blast
  have ok: "page_ok (ekernel s1) a" using a(2) releasedD(3)[OF l(2)] by simp
  obtain s' where f: "kfree a s1 = Inr s'" "released s1 fps1 {a} s' (a # fps1)" "same_off {a} (mem s1) (mem s')"
    using kfree_released[OF releasedD(1)[OF l(2)] ok l(4)] by blast
  have "released s fps (insert a ?K) s' (a # fps1)" using released_trans[OF l(2) f(2)] by simp
  moreover have "same_off (insert a ?K) (mem s) (mem s')" by (rule same_off_trans[OF l(3) f(3)]) simp
  ultimately show ?case unfolding sub freewalk_def l(1) bindE.simps using f(1) by blast
qed


section \<open>A table without leaves\<close>

lemma of_nat_index: "(j :: u64) < 512 \<Longrightarrow> unat j < 512 \<and> of_nat (unat j) = j"
  by (simp add: word_less_nat_alt)

lemma subtree_paths:
  "subtree m d a = {b. \<exists>r. length r \<le> d \<and> (\<forall>i \<in> set r. i < 512) \<and> ptpage m a r = Some b}"
proof (induction d arbitrary: a)
  case (Suc d)
  show ?case
  proof (intro set_eqI iffI)
    fix b assume "b \<in> subtree m (Suc d) a"
    then consider "b = a" | i where "i < 512" "b \<in> kids m d a i" unfolding subtree_kids by auto
    then show "b \<in> {b. \<exists>r. length r \<le> Suc d \<and> (\<forall>i \<in> set r. i < 512) \<and> ptpage m a r = Some b}"
    proof cases
      case 1
      then show ?thesis by (auto intro: exI[of _ "[]"])
    next
      case 2
      then obtain c where c: "entry_page m a (of_nat i) = Some c" "b \<in> subtree m d c"
        by (auto simp: kids_def split: option.splits)
      then obtain r where "length r \<le> d" "\<forall>i \<in> set r. i < 512" "ptpage m c r = Some b" unfolding Suc.IH by blast
      then show ?thesis using c(1) index_less[OF 2(1)] by (intro CollectI exI[of _ "of_nat i # r"]) simp
    qed
  next
    fix b assume "b \<in> {b. \<exists>r. length r \<le> Suc d \<and> (\<forall>i \<in> set r. i < 512) \<and> ptpage m a r = Some b}"
    then obtain r where r: "length r \<le> Suc d" "\<forall>i \<in> set r. i < 512" "ptpage m a r = Some b" by blast
    show "b \<in> subtree m (Suc d) a"
    proof (cases r)
      case Nil
      then show ?thesis using r(3) by simp
    next
      case (Cons j r')
      then obtain c where c: "entry_page m a j = Some c" "ptpage m c r' = Some b" using r(3) by (auto split: option.splits)
      have "b \<in> subtree m d c" unfolding Suc.IH using r(1,2) c(2) Cons by auto
      then have "b \<in> kids m d a (unat j)" using c(1) of_nat_index[of j] r(2) Cons by (simp add: kids_def)
      then show ?thesis unfolding subtree_kids using of_nat_index[of j] r(2) Cons by auto
    qed
  qed
qed auto

lemma kids_paths:
  "b \<in> kids m d a i \<Longrightarrow> \<exists>r. length r \<le> d \<and> (\<forall>i \<in> set r. i < 512) \<and> ptpage m a (of_nat i # r) = Some b"
  unfolding kids_def by (auto simp: subtree_paths split: option.splits)

lemma subtree_pt_pages: "subtree m 2 root = pt_pages m root"
  unfolding subtree_paths pt_pages_def path_ok_def by blast

lemma va_of_indices:
  assumes "(i :: u64) < 256" "(j :: u64) < 512" "(k :: u64) < 512"
  obtains va where "va < MAXVA" "PX 2 va = i" "PX 1 va = j" "PX 0 va = k"
proof -
  let ?n = "(unat i * 512 + unat j) * 512 + unat k"
  have b: "unat i < 256" "unat j < 512" "unat k < 512" using assms by (simp_all add: word_less_nat_alt)
  have "(x * 512 + y) * 512 + z < (67108864 :: nat)" if "x < 256" "y < 512" "z < 512" for x y z
    using that by simp
  then have n: "?n < 67108864" using b by blast
  let ?va = "of_nat (4096 * ?n) :: u64"
  have u: "unat ?va = 4096 * ?n" by (rule unat_of_nat_u64) (use n in simp)
  have dm: "(x * 512 + z) div 512 = x" "(x * 512 + z) mod 512 = z" if "z < 512" for x z :: nat using that by simp_all
  note d = dm[OF b(3), of "unat i * 512 + unat j"] and d2 = dm[OF b(2), of "unat i"]
  have p: "unat (PX 0 ?va) = unat k" "unat (PX 1 ?va) = unat j" "unat (PX 2 ?va) = unat i"
  proof -
    have s: "4096 * x div 2 ^ (12 + 9 * 0) = x" "4096 * x div 2 ^ (12 + 9 * 1) = x div 512"
      "4096 * x div 2 ^ (12 + 9 * 2) = x div 512 div 512" for x :: nat
      by (simp_all add: div_mult2_eq[symmetric])
    have i: "unat i mod 512 = unat i" using b(1) by simp
    show "unat (PX 0 ?va) = unat k" unfolding unat_PX u s d(2) ..
    show "unat (PX 1 ?va) = unat j" unfolding unat_PX u s d(1) d2(2) ..
    show "unat (PX 2 ?va) = unat i" unfolding unat_PX u s d(1) d2(1) i ..
  qed
  have "?va < MAXVA" unfolding word_less_nat_alt u unat_MAXVA using n by simp
  then show thesis using that[of ?va] p by (simp add: word_unat_eq_iff)
qed

lemma pt_clean:
  assumes wf: "pt_wf m root" and none: "\<And>va. va < MAXVA \<Longrightarrow> leaf m root va AND 1 = 0"
  shows "length q + d = 2 \<Longrightarrow> path_ok q \<Longrightarrow> ptpage m root q = Some a \<Longrightarrow> clean m d a"
proof (induction d arbitrary: q a)
  case 0
  then obtain i j where q: "q = [i, j]" by (auto simp: length_Suc_conv numeral_2_eq_2)
  have ij: "i < 512" "j < 512" using 0(2) q by (simp_all add: path_ok_def)
  have "entry_page m root i \<noteq> None" using 0(3) q by (auto split: option.splits)
  then have i: "i < 256" using pt_wf_upper[OF wf ij(1)] by (cases "i < 256") (auto simp: not_less)
  have "load64 m (a + 8 * of_nat k) AND 1 = 0" if k: "k < 512" for k
  proof -
    obtain va where va: "va < MAXVA" "PX 2 va = i" "PX 1 va = j" "PX 0 va = of_nat k"
      by (rule va_of_indices[OF i ij(2) index_less[OF k]])
    have "leaf m root va = load64 m (a + 8 * of_nat k)"
      unfolding leaf_def va(2-4) using 0(3)[unfolded q] by simp
    then show ?thesis using none[OF va(1)] by simp
  qed
  then show ?case using pt_wf_page[OF wf in_pt_pages[OF 0(2,3)]] by simp
next
  case (Suc d)
  have qi: "path_ok (q @ [of_nat i])" if "i < 512" for i
    using Suc.prems(1,2) index_less[OF that] by (simp add: path_ok_snoc)
  have sub: "path_ok (q @ of_nat i # r) \<and> ptpage m root (q @ of_nat i # r) = Some b"
    if "i < 512" "length r \<le> d" "\<forall>i \<in> set r. i < 512" "ptpage m a (of_nat i # r) = Some b" for i r b
    using that Suc.prems index_less[OF that(1)] by (auto simp: path_ok_def ptpage_append simp del: ptpage.simps)
  show ?case
    unfolding clean.simps
  proof (intro conjI allI impI)
    show "aligned a" using pt_wf_page[OF wf in_pt_pages[OF Suc.prems(2,3)]] by simp
    fix i :: nat assume i: "i < 512"
    show "a \<notin> kids m d a i"
    proof
      assume "a \<in> kids m d a i"
      then obtain r where "path_ok (q @ of_nat i # r)" "ptpage m root (q @ of_nat i # r) = Some a"
        using kids_paths sub[OF i] by blast
      then show False using pt_wf_inj[OF wf Suc.prems(2) _ Suc.prems(3)] by force
    qed
    assume v: "load64 m (a + 8 * of_nat i) AND 1 \<noteq> 0"
    show "load64 m (a + 8 * of_nat i) AND 14 = 0" by (rule pt_wf_link[OF wf qi[OF i] Suc.prems(3) v])
    have "ptpage m root (q @ [of_nat i]) = Some (PTE2PA (load64 m (a + 8 * of_nat i)))"
      using Suc.prems(3) v by (simp add: ptpage_snoc entry_page_def Let_def)
    then show "clean m d (PTE2PA (load64 m (a + 8 * of_nat i)))"
      by (intro Suc.IH[OF _ qi[OF i]]) (use Suc.prems(1) in simp_all)
  next
    fix i j :: nat assume ij: "i < 512" "j < 512" "i \<noteq> j"
    have False if b: "b \<in> kids m d a i" "b \<in> kids m d a j" for b
    proof -
      obtain r r' where r: "path_ok (q @ of_nat i # r)" "ptpage m root (q @ of_nat i # r) = Some b"
        "path_ok (q @ of_nat j # r')" "ptpage m root (q @ of_nat j # r') = Some b"
        using kids_paths[OF b(1)] kids_paths[OF b(2)] sub[OF ij(1)] sub[OF ij(2)] by blast
      have "q @ of_nat i # r = q @ of_nat j # r'" by (rule pt_wf_inj[OF wf r(1,3,2,4)])
      then show False using index_inj[OF ij(1,2)] ij(3) by simp
    qed
    then show "kids m d a i \<inter> kids m d a j = {}" by blast
  qed
qed

text \<open>Releasing the tables of an address space without leaves.\<close>

lemma freewalk_tables:
  assumes inv: "vm_inv s root fps" and none: "\<And>va. va < MAXVA \<Longrightarrow> leaf (mem s) root va AND 1 = 0"
    and ok: "\<forall>a \<in> pt_pages (mem s) root. page_ok (ekernel s) a"
  shows "\<exists>s' fps'. freewalk 2 root s = Inr s' \<and> released s fps (pt_pages (mem s) root) s' fps' \<and>
    same_off (pt_pages (mem s) root) (mem s) (mem s')"
proof -
  have wf: "pt_wf (mem s) root" "kmem_wf s fps" "pt_pages (mem s) root \<inter> set fps = {}"
    using inv by (auto simp: vm_inv_def)
  have c: "clean (mem s) 2 root" by (rule pt_clean[OF wf(1) none, of "[]"]) simp_all
  have own: "owned s fps (subtree (mem s) 2 root)" unfolding subtree_pt_pages owned_def using ok wf(3) by blast
  show ?thesis using freewalk_ok[OF c wf(2) own] unfolding subtree_pt_pages .
qed

end
