(* ===== verification/AddressSpace.thy ===== *)
theory AddressSpace
  imports UserMem MemOnly Loader
begin

text \<open>
  Building the address space of a process, page by page: \<open>uvmcopy\<close> of \<open>kernel/vm.c\<close>, with which
  \<open>fork\<close> copies the parent, and the loop of \<open>bin_loader\<close> in \<open>kernel/loader.c\<close> do the same to a table,
  namely to take a fresh frame, to fill it from a page of memory and to map it at the next address.
  \<open>pages_copied\<close> is what \<open>n\<close> such steps have done; \<open>pages_filled\<close> leaves open what the frames hold.
\<close>

section \<open>One page\<close>

lemma page_end: "aligned a \<Longrightarrow> PGROUNDDOWN (a + 4096 - 1) = a"
  using page_of_offset[of a 4095] by (simp add: algebra_simps)

lemma mappages_page: "aligned a \<Longrightarrow> mappages root a 4096 pa perm s = mappages_loop root a a pa (scast perm) s"
  unfolding mappages_def using page_end[of a] by (simp add: PGROUNDDOWN_aligned)

text \<open>A frame off the list is filled by \<open>g\<close> and mapped at \<open>a\<close>, where nothing was mapped.\<close>

lemma fresh_page:
  assumes inv: "vm_inv s root (f # ps)" and a: "aligned a" "a < MAXVA"
    and e: "leaf (mem s) root a AND 1 = 0" and two: "2 \<le> length ps"
    and g: "\<And>m. same_off {f} m (g m)"
  obtains s1 s2 ps' where "kalloc s = (f, s1)" "f \<noteq> 0" "same_off {f} (mem s) (mem s1)"
    "mappages root a 4096 f perm (s1\<lparr>mem := g (mem s1)\<rparr>) = Inr (0, s2)"
    "vm_inv s2 root ps'" "mem_only s s2" "length ps \<le> length ps' + 2" "set ps' \<subseteq> set ps"
    "f \<notin> set ps" "f \<notin> pt_pages (mem s2) root"
    "pt_pages (mem s2) root \<union> set ps' = pt_pages (mem s) root \<union> set ps"
    "same_off (insert f (pt_pages (mem s) root \<union> set ps)) (mem s) (mem s2)"
    "rd (mem s2) f 4096 = rd (g (mem s1)) f 4096"
    "\<And>va. va < MAXVA \<Longrightarrow> leaf (mem s2) root va =
       (if PGROUNDDOWN va = a then PA2PTE f OR scast perm OR 1 else leaf (mem s) root va)"
proof -
  have kw: "kmem_wf s (f # ps)" and wf: "pt_wf (mem s) root"
    and disj: "pt_pages (mem s) root \<inter> set (f # ps) = {}"
    using inv by (auto simp: vm_inv_def)
  obtain s1 where s1: "kalloc s = (f, s1)" "kmem_wf s1 ps" "same_off {f} (mem s) (mem s1)"
    "ekernel s1 = ekernel s" using kalloc_Cons[OF kw] by metis
  have f: "page_ok (ekernel s) f" "f \<noteq> 0" "f \<notin> set ps" "aligned f"
    using kw kmem.pool_valid[OF kw, of f] kmem.pool_distinct[OF kw] by auto
  let ?s = "s1\<lparr>mem := g (mem s1)\<rparr>"
  have off: "same_off {f} (mem s) (mem ?s)"
    using same_off_trans[OF s1(3) g[of "mem s1"], of "{f}"] by simp
  have nd: "{f} \<inter> pt_pages (mem s) root = {}" using disj by simp
  note pp = pt_pages_same_off[OF wf off nd] and lf = leaf_same_off[OF wf off nd]
  have "chain (mem ?s) (freelist s1) ps"
    by (rule chain_same_off[of "mem s1" _ _ "{f}"])
      (use s1(2) f(3) g[of "mem s1"] in \<open>auto simp: kmem_wf_def\<close>)
  then have "kmem_wf ?s ps" using s1(2) by (simp add: kmem_wf_def)
  then have inv1: "vm_inv ?s root ps"
    unfolding vm_inv_def pp using pt_wf_same_off[OF wf off nd] disj by auto
  obtain s2 ps' where m: "mappages_loop root a a f (scast perm) ?s = Inr (0, s2)"
    "vm_grow ?s ps root s2 ps'"
    "\<And>va. va < MAXVA \<Longrightarrow> leaf (mem s2) root va =
       (if PGROUNDDOWN va = a then PA2PTE f OR scast perm OR PTE_V else leaf (mem ?s) root va)"
    "length ps \<le> length ps' + 2"
    by (rule mappages_one[OF inv1 a, of f "scast perm"]) (use lf e two in auto)
  have mp: "mappages root a 4096 f perm ?s = Inr (0, s2)" unfolding mappages_page[OF a(1)] by (rule m(1))
  have "mem_only s ?s" using kalloc_mem_only[OF s1(1)] by simp
  then have mo: "mem_only s s2" using mappages_mem_only[OF mp] mem_only_trans by blast
  note gr = m(2)[unfolded vm_grow_def pp]
  have fr: "f \<notin> pt_pages (mem s2) root" using gr disj f(3) by auto
  show thesis
  proof (rule that[OF s1(1) f(2) s1(3) mp _ mo m(4)])
    show "same_off (insert f (pt_pages (mem s) root \<union> set ps)) (mem s) (mem s2)"
      using gr by (intro same_off_trans[OF off, of "pt_pages (mem s) root \<union> (set ps - set ps')"]) auto
    show "rd (mem s2) f 4096 = rd (g (mem s1)) f 4096"
      using rd_same_off0[of "pt_pages (mem s) root \<union> (set ps - set ps')" "mem ?s" "mem s2" f 4096] gr f disj by simp
    show "leaf (mem s2) root va = (if PGROUNDDOWN va = a then PA2PTE f OR scast perm OR 1 else leaf (mem s) root va)"
      if "va < MAXVA" for va using m(3)[OF that] lf by simp
  qed (use gr f fr in auto)
qed

section \<open>A run of pages\<close>

definition pages_filled ::
  "(nat \<Rightarrow> u8 list) \<Rightarrow> (nat \<Rightarrow> u64) \<Rightarrow> u64 \<Rightarrow> u64 \<Rightarrow> nat \<Rightarrow> 'a kmem_scheme \<Rightarrow> u64 list \<Rightarrow> 'a kmem_scheme \<Rightarrow> u64 list \<Rightarrow> u64 list \<Rightarrow> bool"
  where
  "pages_filled ct fl root a n s fps s' fps' fr \<longleftrightarrow>
     vm_inv s' root fps' \<and> mem_only s s' \<and> length fps \<le> length fps' + 3 * n \<and>
     length fr = n \<and> distinct fr \<and> set fr \<subseteq> set fps \<and> set fps' \<subseteq> set fps \<and>
     set fr \<inter> set fps' = {} \<and> set fr \<inter> pt_pages (mem s') root = {} \<and>
     pt_pages (mem s') root \<union> set fps' \<union> set fr = pt_pages (mem s) root \<union> set fps \<and>
     same_off (pt_pages (mem s) root \<union> set fps) (mem s) (mem s') \<and>
     (\<forall>i<n. leaf (mem s') root (ustep a i) = PA2PTE (fr ! i) OR fl i OR 1) \<and>
     (\<forall>i<n. rd (mem s') (fr ! i) 4096 = ct i) \<and>
     (\<forall>va<MAXVA. (\<forall>i<n. PGROUNDDOWN va \<noteq> ustep a i) \<longrightarrow> leaf (mem s') root va = leaf (mem s) root va)"

abbreviation pages_copied ::
  "(nat \<Rightarrow> u64) \<Rightarrow> (nat \<Rightarrow> u64) \<Rightarrow> u64 \<Rightarrow> u64 \<Rightarrow> nat \<Rightarrow> 'a kmem_scheme \<Rightarrow> u64 list \<Rightarrow> 'a kmem_scheme \<Rightarrow> u64 list \<Rightarrow> u64 list \<Rightarrow> bool"
  where
  "pages_copied src fl root a n s fps s' fps' fr \<equiv>
     pages_filled (\<lambda>i. rd (mem s) (src i) 4096) fl root a n s fps s' fps' fr"

lemma pages_filled_0: "vm_inv s root fps \<Longrightarrow> pages_filled ct fl root a 0 s fps s fps []"
  by (simp add: pages_filled_def)

lemma pages_filled_cong: "(\<And>i. i < n \<Longrightarrow> ct i = ct' i) \<Longrightarrow>
   pages_filled ct fl root a n s fps s' fps' fr = pages_filled ct' fl root a n s fps s' fps' fr"
  by (simp add: pages_filled_def cong: conj_cong)

lemma ustep_0 [simp]: "ustep a 0 = a"
  by (simp add: ustep_def)

lemma ustep_page:
  assumes "aligned a" "unat a + 4096 * n \<le> unat MAXVA" "i < n"
  shows "ustep a i < MAXVA" "aligned (ustep a i)" "PGROUNDDOWN (ustep a i) = ustep a i"
    "unat (ustep a i) = unat a + 4096 * i"
proof -
  show u: "unat (ustep a i) = unat a + 4096 * i"
    using assms(2,3) by (intro unat_ustep) (simp add: unat_MAXVA)
  show "ustep a i < MAXVA" unfolding word_less_nat_alt u using assms(2,3) by linarith
  show al: "aligned (ustep a i)" using assms(1) unfolding aligned_unat u by simp
  show "PGROUNDDOWN (ustep a i) = ustep a i" by (rule PGROUNDDOWN_aligned[OF al])
qed

lemma memmove_page:
  assumes "aligned d" "unat s + 4096 < 2 ^ 64" "unat d + 4096 < 2 ^ 64"
  shows "same_off {d} m (memmove m d s 4096)" "rd (memmove m d s 4096) d 4096 = rd m s 4096"
  using assms wr_same_off0[of d "rd m s 4096" m]
  by (simp_all add: memmove_wr mem_simps)


text \<open>What the source pages must be: out of reach of the allocator and of the table that is built.\<close>

definition sources_ok :: "(nat \<Rightarrow> u64) \<Rightarrow> nat \<Rightarrow> u64 set \<Rightarrow> bool" where
  "sources_ok src n P \<longleftrightarrow> (\<forall>i<n. aligned (src i) \<and> src i \<notin> P \<and> unat (src i) + 4096 < 2 ^ 64)"

definition unmapped :: "bmem \<Rightarrow> u64 \<Rightarrow> u64 \<Rightarrow> nat \<Rightarrow> bool" where
  "unmapped m root a n \<longleftrightarrow> (\<forall>i<n. leaf m root (ustep a i) AND 1 = 0)"

lemma pages_filled_Suc:
  assumes inv: "vm_inv s root (f # ps)" and a: "aligned a" "unat a + 4096 * Suc n \<le> unat MAXVA"
    and st: "vm_inv s2 root ps'" "mem_only s s2" "length ps \<le> length ps' + 2" "set ps' \<subseteq> set ps"
      "f \<notin> set ps" "f \<notin> pt_pages (mem s2) root"
      "pt_pages (mem s2) root \<union> set ps' = pt_pages (mem s) root \<union> set ps"
      "same_off (insert f (pt_pages (mem s) root \<union> set ps)) (mem s) (mem s2)"
      "rd (mem s2) f 4096 = ct 0"
      "\<And>va. va < MAXVA \<Longrightarrow> leaf (mem s2) root va =
         (if PGROUNDDOWN va = a then PA2PTE f OR fl 0 OR 1 else leaf (mem s) root va)"
    and IH: "pages_filled (\<lambda>i. ct (Suc i)) (\<lambda>i. fl (Suc i)) root (a + 4096) n s2 ps' s' fps' fr"
  shows "pages_filled ct fl root a (Suc n) s (f # ps) s' fps' (f # fr)"
proof -
  note I = IH[unfolded pages_filled_def]
  have I1: "vm_inv s' root fps'" "mem_only s2 s'" "length ps' \<le> length fps' + 3 * n" "length fr = n"
    "distinct fr" "set fr \<subseteq> set ps'" "set fps' \<subseteq> set ps'" "set fr \<inter> set fps' = {}"
    "set fr \<inter> pt_pages (mem s') root = {}"
    "pt_pages (mem s') root \<union> set fps' \<union> set fr = pt_pages (mem s2) root \<union> set ps'"
    "same_off (pt_pages (mem s2) root \<union> set ps') (mem s2) (mem s')"
    using I by blast+
  have I2: "leaf (mem s') root (ustep (a + 4096) i) = PA2PTE (fr ! i) OR fl (Suc i) OR 1"
    "rd (mem s') (fr ! i) 4096 = ct (Suc i)" if "i < n" for i
    using I that by blast+
  have I3: "leaf (mem s') root va = leaf (mem s2) root va"
    if "va < MAXVA" "\<forall>i<n. PGROUNDDOWN va \<noteq> ustep (a + 4096) i" for va
    using I that by blast
  have kw: "kmem_wf s (f # ps)" using inv by (simp add: vm_inv_def)
  have al: "aligned f" using kw by (auto simp: kmem_wf_def)
  have a0: "a < MAXVA" using a(2) by (simp add: word_less_nat_alt)
  have ne: "a \<noteq> ustep (a + 4096) i" if "i < n" for i
    using ustep_page(4)[OF a(1,2), of "Suc i"] that unfolding ustep_Suc[symmetric] by auto
  have leaf0: "leaf (mem s') root a = PA2PTE f OR fl 0 OR 1"
    using I3[OF a0] ne st(10)[OF a0] by (simp add: PGROUNDDOWN_aligned[OF a(1)])
  have rd0: "rd (mem s') f 4096 = ct 0"
  proof -
    have "f \<notin> pt_pages (mem s2) root \<union> set ps'" using st(4-6) by auto
    then show ?thesis unfolding st(9)[symmetric] by (intro rd_same_off0[OF I1(11) al]) simp_all
  qed
  have other: "leaf (mem s') root va = leaf (mem s) root va"
    if va: "va < MAXVA" "\<forall>i<Suc n. PGROUNDDOWN va \<noteq> ustep a i" for va
  proof -
    have "PGROUNDDOWN va \<noteq> a" using va(2)[rule_format, of 0] by simp
    moreover have "\<forall>i<n. PGROUNDDOWN va \<noteq> ustep (a + 4096) i"
      using va(2) unfolding ustep_Suc[symmetric] by auto
    ultimately show ?thesis using I3[OF va(1)] st(10)[OF va(1)] by simp
  qed
  have L: "\<forall>i<Suc n. leaf (mem s') root (ustep a i) = PA2PTE ((f # fr) ! i) OR fl i OR 1"
    using leaf0 I2(1) unfolding ustep_Suc[symmetric] by (auto simp: less_Suc_eq_0_disj)
  have R: "\<forall>i<Suc n. rd (mem s') ((f # fr) ! i) 4096 = ct i"
    using rd0 I2(2) by (auto simp: less_Suc_eq_0_disj)
  have off: "same_off (pt_pages (mem s) root \<union> set (f # ps)) (mem s) (mem s')"
    by (rule same_off_trans[OF st(8) I1(11)]) (use st(4,7) in auto)
  have "f \<notin> pt_pages (mem s') root" using I1(10) st(4-6) by blast
  then have fr: "distinct (f # fr)" "set (f # fr) \<subseteq> set (f # ps)" "set fps' \<subseteq> set (f # ps)"
    "set (f # fr) \<inter> set fps' = {}" "set (f # fr) \<inter> pt_pages (mem s') root = {}"
    using I1(5-9) st(4-6) by auto
  have "pt_pages (mem s') root \<union> set fps' \<union> set (f # fr) = insert f (pt_pages (mem s2) root \<union> set ps')"
    using I1(10) by auto
  then have acc: "pt_pages (mem s') root \<union> set fps' \<union> set (f # fr) = pt_pages (mem s) root \<union> set (f # ps)"
    unfolding st(7) by auto
  have mo: "mem_only s s'" by (rule mem_only_trans[OF st(2) I1(2)])
  have len: "length (f # ps) \<le> length fps' + 3 * Suc n" using I1(3) st(3) by simp
  show ?thesis unfolding pages_filled_def
    by (intro conjI I1(1) mo len fr acc off L R) (use I1(4) other in simp_all)
qed

lemma pages_copied_Suc:
  assumes "vm_inv s root (f # ps)" "aligned a" "unat a + 4096 * Suc n \<le> unat MAXVA"
    and st: "vm_inv s2 root ps'" "mem_only s s2" "length ps \<le> length ps' + 2" "set ps' \<subseteq> set ps"
      "f \<notin> set ps" "f \<notin> pt_pages (mem s2) root"
      "pt_pages (mem s2) root \<union> set ps' = pt_pages (mem s) root \<union> set ps"
      "same_off (insert f (pt_pages (mem s) root \<union> set ps)) (mem s) (mem s2)"
      "rd (mem s2) f 4096 = rd (mem s) (src 0) 4096"
      "\<And>va. va < MAXVA \<Longrightarrow> leaf (mem s2) root va =
         (if PGROUNDDOWN va = a then PA2PTE f OR fl 0 OR 1 else leaf (mem s) root va)"
    and src: "sources_ok src (Suc n) (pt_pages (mem s) root \<union> set (f # ps))"
    and IH: "pages_copied (\<lambda>i. src (Suc i)) (\<lambda>i. fl (Suc i)) root (a + 4096) n s2 ps' s' fps' fr"
  shows "pages_copied src fl root a (Suc n) s (f # ps) s' fps' (f # fr)"
proof (rule pages_filled_Suc[where ct = "\<lambda>i. rd (mem s) (src i) 4096" and fl = fl, OF assms(1-13)])
  have "rd (mem s2) (src (Suc i)) 4096 = rd (mem s) (src (Suc i)) 4096" if "i < n" for i
    using that src by (intro rd_same_off0[OF st(8)]) (auto simp: sources_ok_def)
  then show "pages_filled (\<lambda>i. rd (mem s) (src (Suc i)) 4096) (\<lambda>i. fl (Suc i)) root (a + 4096) n s2 ps' s' fps' fr"
    by (rule pages_filled_cong[THEN iffD1, OF _ IH])
qed

lemma copy_page:
  assumes inv: "vm_inv s root fps" and a: "aligned a" "unat a + 4096 * Suc n \<le> unat MAXVA"
    and len: "3 * Suc n \<le> length fps" and un: "unmapped (mem s) root a (Suc n)"
    and src: "sources_ok src (Suc n) (pt_pages (mem s) root \<union> set fps)" and perm: "scast perm = fl 0"
  obtains f s1 s2 ps' where "kalloc s = (f, s1)" "f \<noteq> 0"
    "mappages root a 4096 f perm (s1\<lparr>mem := memmove (mem s1) f (src 0) 4096\<rparr>) = Inr (0, s2)"
    "vm_inv s2 root ps'" "3 * n \<le> length ps'" "unmapped (mem s2) root (a + 4096) n"
    "sources_ok (\<lambda>i. src (Suc i)) n (pt_pages (mem s2) root \<union> set ps')"
    "same_off (pt_pages (mem s) root \<union> set fps) (mem s) (mem s2)"
    "pt_pages (mem s2) root \<union> set ps' \<subseteq> pt_pages (mem s) root \<union> set fps"
    "\<And>s' fps' fr. pages_copied (\<lambda>i. src (Suc i)) (\<lambda>i. fl (Suc i)) root (a + 4096) n s2 ps' s' fps' fr \<Longrightarrow>
       pages_copied src fl root a (Suc n) s fps s' fps' (f # fr)"
proof -
  obtain f ps where fps: "fps = f # ps" using len by (cases fps) auto
  have len': "2 \<le> length ps" using len fps by simp
  have kw: "kmem_wf s (f # ps)" using inv fps by (simp add: vm_inv_def)
  have f: "page_ok (ekernel s) f" using kw by (auto simp: kmem_wf_def)
  have fl: "unat f + 4096 < 2 ^ 64" using f by (simp add: page_ok_def word_less_nat_alt unat_PHYSTOP)
  have a0: "a < MAXVA" using a(2) by (simp add: word_less_nat_alt)
  have s0: "aligned (src 0)" "src 0 \<noteq> f" "unat (src 0) + 4096 < 2 ^ 64"
    using src fps by (auto simp: sources_ok_def)
  have e: "leaf (mem s) root a AND 1 = 0" using un[unfolded unmapped_def, rule_format, of 0] by simp
  note mv = memmove_page[OF page_ok_aligned[OF f] s0(3) fl]
  obtain s1 s2 ps' where st: "kalloc s = (f, s1)" "f \<noteq> 0" "same_off {f} (mem s) (mem s1)"
    "mappages root a 4096 f perm (s1\<lparr>mem := memmove (mem s1) f (src 0) 4096\<rparr>) = Inr (0, s2)"
    "vm_inv s2 root ps'" "mem_only s s2" "length ps \<le> length ps' + 2" "set ps' \<subseteq> set ps"
    "f \<notin> set ps" "f \<notin> pt_pages (mem s2) root"
    "pt_pages (mem s2) root \<union> set ps' = pt_pages (mem s) root \<union> set ps"
    "same_off (insert f (pt_pages (mem s) root \<union> set ps)) (mem s) (mem s2)"
    "rd (mem s2) f 4096 = rd (memmove (mem s1) f (src 0) 4096) f 4096"
    "\<And>va. va < MAXVA \<Longrightarrow> leaf (mem s2) root va =
       (if PGROUNDDOWN va = a then PA2PTE f OR scast perm OR 1 else leaf (mem s) root va)"
    by (rule fresh_page[OF inv[unfolded fps] a(1) a0 e len' mv(1), of perm]) (rule that; assumption)
  have c: "rd (mem s2) f 4096 = rd (mem s) (src 0) 4096"
    unfolding st(13) mv(2) using s0(2) by (intro rd_same_off0[OF st(3) s0(1)]) auto
  show thesis
  proof (rule that[OF st(1,2,4,5)])
    show "unmapped (mem s2) root (a + 4096) n" unfolding unmapped_def
    proof (intro allI impI)
      fix i assume i: "i < n"
      note u = ustep_page[OF a, of "Suc i"]
      have "ustep a (Suc i) \<noteq> a" using u(4) i by auto
      then show "leaf (mem s2) root (ustep (a + 4096) i) AND 1 = 0"
        using st(14)[of "ustep a (Suc i)"] u(1,3) i un by (simp add: unmapped_def ustep_Suc[symmetric])
    qed
    show "sources_ok (\<lambda>i. src (Suc i)) n (pt_pages (mem s2) root \<union> set ps')"
      using src st(8,11) unfolding sources_ok_def fps by auto
    show "pages_copied src fl root a (Suc n) s fps s' fps' (f # fr)"
      if "pages_copied (\<lambda>i. src (Suc i)) (\<lambda>i. fl (Suc i)) root (a + 4096) n s2 ps' s' fps' fr" for s' fps' fr
      unfolding fps by (rule pages_copied_Suc[OF inv[unfolded fps] a st(5-12) c _ src[unfolded fps] that])
        (use st(14) perm in simp)
    show "3 * n \<le> length ps'" using len fps st(7) by simp
    show "same_off (pt_pages (mem s) root \<union> set fps) (mem s) (mem s2)"
      by (rule same_off_mono[OF st(12)]) (auto simp: fps)
    show "pt_pages (mem s2) root \<union> set ps' \<subseteq> pt_pages (mem s) root \<union> set fps"
      using st(8,11) unfolding fps by auto
  qed
qed


section \<open>The two loops\<close>

lemma load_loop_ok:
  assumes "vm_inv s root fps" "aligned a" "unat a + 4096 * n \<le> unat MAXVA" "3 * n \<le> length fps"
    "unmapped (mem s) root a n" "sources_ok (ustep pa) n (pt_pages (mem s) root \<union> set fps)"
    "unat pa + 4096 * n < 2 ^ 64" "e = ustep pa n"
  shows "\<exists>s' fps' fr. load_loop root a pa e s = Inr s' \<and>
    pages_copied (ustep pa) (\<lambda>_. 30) root a n s fps s' fps' fr"
  using assms
proof (induction n arbitrary: a pa s fps)
  case 0
  then show ?case by (subst load_loop.simps) (auto intro: exI[of _ fps] pages_filled_0)
next
  case (Suc n)
  have lt: "pa < e" using Suc.prems(7,8) by (simp add: word_less_nat_alt unat_ustep del: mult_Suc_right)
  have pa4: "unat (pa + 4096) = unat pa + 4096" using Suc.prems(7) by (simp add: unat_word_ariths)
  have a4: "unat (a + 4096) = unat a + 4096" using Suc.prems(3) by (simp add: unat_word_ariths unat_MAXVA)
  have p30: "scast (30 :: u32) = (30 :: u64)" by simp
  obtain f s1 s2 ps' where st: "kalloc s = (f, s1)" "f \<noteq> 0"
    "mappages root a 4096 f 30 (s1\<lparr>mem := memmove (mem s1) f (ustep pa 0) 4096\<rparr>) = Inr (0, s2)"
    "vm_inv s2 root ps'" "3 * n \<le> length ps'" "unmapped (mem s2) root (a + 4096) n"
    "sources_ok (\<lambda>i. ustep pa (Suc i)) n (pt_pages (mem s2) root \<union> set ps')"
    "same_off (pt_pages (mem s) root \<union> set fps) (mem s) (mem s2)"
    "pt_pages (mem s2) root \<union> set ps' \<subseteq> pt_pages (mem s) root \<union> set fps"
    "\<And>s' fps' fr. pages_copied (\<lambda>i. ustep pa (Suc i)) (\<lambda>i. 30) root (a + 4096) n s2 ps' s' fps' fr \<Longrightarrow>
       pages_copied (ustep pa) (\<lambda>_. 30) root a (Suc n) s fps s' fps' (f # fr)"
    by (rule copy_page[where fl = "\<lambda>_. 30", OF Suc.prems(1-6) p30]) (rule that; assumption)
  obtain s' fps' fr where IH: "load_loop root (a + 4096) (pa + 4096) e s2 = Inr s'"
    "pages_copied (ustep (pa + 4096)) (\<lambda>_. 30) root (a + 4096) n s2 ps' s' fps' fr"
    using Suc.IH[OF st(4) _ _ st(5,6), of "pa + 4096"] st(7) Suc.prems pa4 a4
    by (auto simp: ustep_Suc aligned_unat mod_simps)
  have "load_loop root a pa e s = Inr s'"
    using lt st(1-3) IH(1) by (subst load_loop.simps) simp
  then show ?case using st(10)[unfolded ustep_Suc, OF IH(2)] by blast
qed

text \<open>The entry of a page of the parent: present, with frame \<open>pa\<close> and flags \<open>f\<close>.\<close>

definition entry_of :: "bmem \<Rightarrow> u64 \<Rightarrow> u64 \<Rightarrow> u64 \<Rightarrow> u64 \<Rightarrow> bool" where
  "entry_of m root a pa f \<longleftrightarrow> leaf m root a AND 1 \<noteq> 0 \<and> PTE2PA (leaf m root a) = pa \<and> PTE_FLAGS (leaf m root a) = f"

lemma flags_widened: "scast (ucast (PTE_FLAGS e) :: u32) = PTE_FLAGS e"
proof -
  have m: "(0x3FF :: u64) = mask 10" by (simp add: mask_eq_exp_minus_1)
  show ?thesis unfolding PTE_FLAGS_def m by (rule bit_word_eqI) (auto simp: bit_simps min_def split: if_splits)
qed

lemma uvmcopy_loop_ok:
  assumes "vm_inv s root fps" "aligned a" "unat a + 4096 * n \<le> unat MAXVA" "3 * n \<le> length fps"
    "unmapped (mem s) root a n" "sources_ok src n (pt_pages (mem s) root \<union> set fps)"
    "pt_wf (mem s) old" "pt_pages (mem s) old \<inter> (pt_pages (mem s) root \<union> set fps) = {}"
    "\<forall>i<n. entry_of (mem s) old (ustep a i) (src i) (fl i)"
    "\<forall>i<n. ustep a i < sz" "sz \<le> ustep a n"
  shows "\<exists>s' fps' fr. uvmcopy_loop old root a sz s = Inr (0, s') \<and> pages_copied src fl root a n s fps s' fps' fr"
  using assms
proof (induction n arbitrary: a src fl s fps)
  case 0
  then show ?case by (subst uvmcopy_loop.simps) (auto simp: not_less intro: exI[of _ fps] pages_filled_0)
next
  case (Suc n)
  have lt: "a < sz" using Suc.prems(10)[rule_format, of 0] by simp
  have a0: "a < MAXVA" using Suc.prems(3) by (simp add: word_less_nat_alt)
  have a4: "unat (a + 4096) = unat a + 4096" using Suc.prems(3) by (simp add: unat_word_ariths unat_MAXVA)
  have e: "leaf (mem s) old a AND 1 \<noteq> 0" "PTE2PA (leaf (mem s) old a) = src 0" "PTE_FLAGS (leaf (mem s) old a) = fl 0"
    using Suc.prems(9)[rule_format, of 0] by (simp_all add: entry_of_def)
  obtain pte where w: "walk old a False s = Inr (pte, s)" "pte \<noteq> 0" "load64 (mem s) pte = leaf (mem s) old a"
    using Suc.prems(7) a0 by (cases rule: walk_noalloc) (use e(1) in auto)
  have perm: "scast (ucast (fl 0) :: u32) = fl 0" using flags_widened[of "leaf (mem s) old a"] e(3) by simp
  obtain f s1 s2 ps' where st: "kalloc s = (f, s1)" "f \<noteq> 0"
    "mappages root a 4096 f (ucast (fl 0)) (s1\<lparr>mem := memmove (mem s1) f (src 0) 4096\<rparr>) = Inr (0, s2)"
    "vm_inv s2 root ps'" "3 * n \<le> length ps'" "unmapped (mem s2) root (a + 4096) n"
    "sources_ok (\<lambda>i. src (Suc i)) n (pt_pages (mem s2) root \<union> set ps')"
    "same_off (pt_pages (mem s) root \<union> set fps) (mem s) (mem s2)"
    "pt_pages (mem s2) root \<union> set ps' \<subseteq> pt_pages (mem s) root \<union> set fps"
    "\<And>s' fps' fr. pages_copied (\<lambda>i. src (Suc i)) (\<lambda>i. fl (Suc i)) root (a + 4096) n s2 ps' s' fps' fr \<Longrightarrow>
       pages_copied src fl root a (Suc n) s fps s' fps' (f # fr)"
    by (rule copy_page[where fl = fl, OF Suc.prems(1-6) perm]) (rule that; assumption)
  have nd: "(pt_pages (mem s) root \<union> set fps) \<inter> pt_pages (mem s) old = {}" using Suc.prems(8) by blast
  note old = pt_wf_same_off[OF Suc.prems(7) st(8) nd] pt_pages_same_off[OF Suc.prems(7) st(8) nd]
    leaf_same_off[OF Suc.prems(7) st(8) nd]
  have "\<exists>s' fps' fr. uvmcopy_loop old root (a + 4096) sz s2 = Inr (0, s') \<and>
    pages_copied (\<lambda>i. src (Suc i)) (\<lambda>i. fl (Suc i)) root (a + 4096) n s2 ps' s' fps' fr"
  proof (rule Suc.IH[OF st(4) _ _ st(5-7) old(1)])
    show "aligned (a + 4096)" using Suc.prems(2) a4 by (simp add: aligned_unat mod_simps)
    show "unat (a + 4096) + 4096 * n \<le> unat MAXVA" using Suc.prems(3) a4 by simp
    show "pt_pages (mem s2) old \<inter> (pt_pages (mem s2) root \<union> set ps') = {}"
      unfolding old(2) using Suc.prems(8) st(9) by blast
    show "\<forall>i<n. entry_of (mem s2) old (ustep (a + 4096) i) (src (Suc i)) (fl (Suc i))"
      using Suc.prems(9) unfolding entry_of_def old(3) ustep_Suc[symmetric] by auto
    show "\<forall>i<n. ustep (a + 4096) i < sz" "sz \<le> ustep (a + 4096) n"
      using Suc.prems(10,11) unfolding ustep_Suc[symmetric] by auto
  qed
  then obtain s' fps' fr where IH: "uvmcopy_loop old root (a + 4096) sz s2 = Inr (0, s')"
    "pages_copied (\<lambda>i. src (Suc i)) (\<lambda>i. fl (Suc i)) root (a + 4096) n s2 ps' s' fps' fr" by blast
  have "uvmcopy_loop old root a sz s = Inr (0, s')"
    using lt st(1-3) IH(1) w e by (subst uvmcopy_loop.simps) (simp add: Let_def)
  then show ?case using st(10)[OF IH(2)] by blast
qed


section \<open>What the user sees\<close>

lemma entry_flags:
  assumes "aligned pa" "unat f < 1024" "f AND 1 \<noteq> 0"
  shows "PTE_FLAGS (PA2PTE pa OR f OR 1) = f"
proof -
  have m: "(0x3FF :: u64) = mask 10" by (simp add: mask_eq_exp_minus_1)
  have f: "\<not> bit f k" if "k \<ge> 10" for k
  proof -
    have "f = take_bit 10 f"
      using assms(2) by (simp add: word_unat_eq_iff unsigned_take_bit_eq take_bit_nat_eq_self)
    then show ?thesis using that by (metis bit_take_bit_iff not_le)
  qed
  have o: "odd f" using assms(3) by (simp add: and_one_eq odd_iff_mod_2_eq_one)
  then have f0: "bit f 0" by (simp add: bit_0)
  show ?thesis
    unfolding PTE_FLAGS_def PA2PTE_def m
  proof (rule bit_word_eqI)
    fix k assume "k < LENGTH(64)"
    show "bit ((push_bit 10 (drop_bit 12 pa) OR f OR 1) AND mask 10) k = bit f k"
      using f[of k] f0 by (cases "k < 10") (auto simp: bit_simps bit_1_iff)
  qed
qed

lemma flags_and: "PTE_FLAGS e AND 1 = e AND 1" "PTE_FLAGS e AND 16 = e AND 16"
  by (simp_all add: PTE_FLAGS_def and.assoc)

lemma PTE_FLAGS_less: "unat (PTE_FLAGS e) < 1024"
proof -
  have m: "PTE_FLAGS e = e AND mask 10" by (simp add: PTE_FLAGS_def mask_eq_exp_minus_1)
  show ?thesis unfolding m unat_and_mask by simp
qed

text \<open>The offset of an address in a run of pages.\<close>

lemma run_page:
  assumes "aligned a" "unat a + 4096 * n \<le> unat MAXVA" "unat a \<le> unat va" "unat va < unat a + 4096 * n"
  obtains i where "i < n" "PGROUNDDOWN va = ustep a i" "va < MAXVA"
proof -
  let ?i = "(unat va - unat a) div 4096"
  have i: "?i < n" using assms(3,4) by (simp add: less_mult_imp_div_less)
  obtain q where q: "unat a = 4096 * q" using assms(1) by (auto simp: aligned_unat)
  have "unat va div 4096 * 4096 = unat a + 4096 * ?i"
  proof -
    have "unat va = 4096 * q + (unat va - unat a)" using q assms(3) by simp
    then have "unat va div 4096 = q + ?i" by (metis div_mult_self4 zero_neq_numeral add.commute)
    then show ?thesis using q by simp
  qed
  then have "unat (PGROUNDDOWN va) = unat (ustep a ?i)"
    using ustep_page(4)[OF assms(1,2) i] by (simp add: unat_PGROUNDDOWN)
  then have "PGROUNDDOWN va = ustep a ?i" by (rule unat_eqI)
  moreover have "va < MAXVA" using assms(2,4) by (simp add: word_less_nat_alt)
  ultimately show thesis using that i by blast
qed

lemma leaf_page [simp]: "leaf m root (PGROUNDDOWN va) = leaf m root va"
  by (simp only: leaf_def PX_PGROUNDDOWN)

lemma flags_perm: "PTE_FLAGS (PA2PTE pa OR f OR 1) = (f OR 1) AND 1023"
proof -
  have "(push_bit 10 x OR g) AND mask 10 = g AND mask 10" for x g :: u64
    by (rule bit_word_eqI) (auto simp: bit_simps)
  then show ?thesis by (simp add: PTE_FLAGS_def PA2PTE_def mask_eq_exp_minus_1)
qed

lemma unmappable_perm:
  assumes "leaf m root va = PA2PTE pa OR f OR 1" "f AND 1022 \<noteq> 0"
  shows "unmappable m root va"
proof -
  have "(x OR 1) AND 1 = 1" for x :: u64 by (rule bit_word_eqI) (auto simp: bit_simps)
  then have v: "leaf m root va AND 1 \<noteq> 0" unfolding assms(1) by simp
  have "(f OR 1) AND 1023 \<noteq> 1"
  proof
    assume "(f OR 1) AND 1023 = 1"
    then have "((f OR 1) AND 1023) AND 1022 = 1 AND 1022" by simp
    then have "f AND 1022 = 0" by (simp add: and.assoc bit.conj_disj_distrib2)
    then show False using assms(2) by simp
  qed
  then show ?thesis using v unfolding unmappable_def assms(1) flags_perm by simp
qed

lemma filled_frame:
  assumes c: "pages_filled ct fl root a n s fps s' fps' fr" and inv: "vm_inv s root fps"
    and i: "i < n" and f: "unat (fl i) < 1024"
  shows "PTE2PA (leaf (mem s') root (ustep a i)) = fr ! i"
proof -
  note C = c[unfolded pages_filled_def]
  have "length fr = n" "set fr \<subseteq> set fps" using C by blast+
  then have "fr ! i \<in> set fps" using i by auto
  then have "page_ok (ekernel s) (fr ! i)" using inv by (auto simp: vm_inv_def kmem_wf_def)
  then have al: "aligned (fr ! i)" "unat (fr ! i) < 2 ^ 54"
    by (auto simp: page_ok_def word_less_nat_alt unat_PHYSTOP)
  have lf: "leaf (mem s') root (ustep a i) = PA2PTE (fr ! i) OR fl i OR 1" using C i by blast
  have "take_bit 10 (fl i) = fl i" using f by (simp add: word_unat_eq_iff unsigned_take_bit_eq take_bit_nat_eq_self)
  then have "take_bit 10 (fl i OR 1) = fl i OR 1" by (simp add: take_bit_or)
  then have "unat (fl i OR 1) = take_bit 10 (unat (fl i OR 1))" by (metis unsigned_take_bit_eq)
  then have "unat (fl i OR 1) < 1024" using take_bit_nat_less_exp[of 10 "unat (fl i OR 1)"] by simp
  then show ?thesis unfolding lf using PTE2PA_flags[OF al, of "fl i OR 1"] by (simp add: or.assoc)
qed

text \<open>The pages of an address space: the frames of its first pages, and its tables.\<close>

definition space_pages :: "bmem \<Rightarrow> u64 \<Rightarrow> nat \<Rightarrow> u64 set" where
  "space_pages m root n = set (uframe_list m root 0 n) \<union> pt_pages m root"

lemma uframe_list_cong:
  "(\<And>i. i < n \<Longrightarrow> leaf m' root (ustep a i) = leaf m root (ustep a i)) \<Longrightarrow> uframe_list m' root a n = uframe_list m root a n"
  by (simp add: uframe_list_def)

lemma filled_list:
  assumes c: "pages_filled ct fl root a n s fps s' fps' fr" and inv: "vm_inv s root fps"
    and f: "\<forall>i<n. unat (fl i) < 1024"
  shows "uframe_list (mem s') root a n = fr"
proof (rule nth_equalityI)
  have "length fr = n" using c unfolding pages_filled_def by blast
  then show "length (uframe_list (mem s') root a n) = length fr" by (simp add: uframe_list_def)
qed (use filled_frame[OF c inv] f in \<open>simp add: uframe_list_def\<close>)

lemma filled_released:
  assumes c: "pages_filled ct fl root a n s fps s' fps' fr" and inv: "vm_inv s root fps"
  shows "releasable s' root fps' fr"
proof -
  note C = c[unfolded pages_filled_def]
  have "\<forall>x \<in> set fps. page_ok (ekernel s) x" using inv by (auto simp: vm_inv_def kmem_wf_def)
  moreover have "mem_only s s'" using C by blast
  then have "ekernel s' = ekernel s" by (simp add: mem_only_def)
  moreover have "set fr \<subseteq> set fps" "distinct fr" "set fr \<inter> set fps' = {}" "set fr \<inter> pt_pages (mem s') root = {}"
    using C by blast+
  ultimately show ?thesis unfolding releasable_def by auto
qed

lemma copied_view:
  assumes c: "pages_filled ct fl root a n s fps s' fps' fr" and inv: "vm_inv s root fps"
    and a: "aligned a" "unat a + 4096 * n \<le> unat MAXVA" and i: "i < n"
    and f: "unat (fl i) < 1024" "fl i AND 1 \<noteq> 0"
  shows "PTE_FLAGS (leaf (mem s') root (ustep a i)) = fl i"
    "upage (mem s') root (ustep a i) = (if fl i AND 16 \<noteq> 0 then fr ! i else 0)"
    "fr ! i \<in> set fps" "fr ! i \<notin> set fps'" "page_ok (ekernel s) (fr ! i)" "fr ! i \<noteq> 0"
    "k < 4096 \<Longrightarrow> mem s' (fr ! i + of_nat k) = ct i ! k"
proof -
  note C = c[unfolded pages_filled_def]
  have len: "length fr = n" and sub: "set fr \<subseteq> set fps" "set fr \<inter> set fps' = {}" using C by blast+
  have lf: "leaf (mem s') root (ustep a i) = PA2PTE (fr ! i) OR fl i OR 1"
    and r: "rd (mem s') (fr ! i) 4096 = ct i" using C i by blast+
  have mem: "fr ! i \<in> set fr" using i len by simp
  then show in_fps: "fr ! i \<in> set fps" "fr ! i \<notin> set fps'" using sub by auto
  show ok: "page_ok (ekernel s) (fr ! i)" using inv in_fps by (auto simp: vm_inv_def kmem_wf_def)
  show nz: "fr ! i \<noteq> 0" using inv in_fps kmem.pool_valid by (auto simp: vm_inv_def)
  have al: "aligned (fr ! i)" "unat (fr ! i) < 2 ^ 54"
    using ok by (auto simp: page_ok_def word_less_nat_alt unat_PHYSTOP)
  show fl: "PTE_FLAGS (leaf (mem s') root (ustep a i)) = fl i"
    unfolding lf by (rule entry_flags[OF al(1) f])
  have e: "leaf (mem s') root (ustep a i) AND 1 \<noteq> 0"
    "leaf (mem s') root (ustep a i) AND 16 = fl i AND 16" using fl f(2) flags_and by metis+
  have "PTE2PA (leaf (mem s') root (ustep a i)) = fr ! i" by (rule filled_frame[OF c inv i f(1)])
  then show "upage (mem s') root (ustep a i) = (if fl i AND 16 \<noteq> 0 then fr ! i else 0)"
    using e ustep_page(1)[OF a i] by (simp add: upage_def)
  show "mem s' (fr ! i + of_nat k) = ct i ! k" if "k < 4096"
    using arg_cong[OF r, of "\<lambda>l. l ! k"] that by simp
qed


section \<open>Copying an address space\<close>

text \<open>
  What \<open>uvmcopy\<close> relies on: the pages of the parent below \<open>4096 * n\<close> are present, in frames which are
  neither free nor tables of the child, and the child has nothing mapped there yet.
\<close>

definition copyable :: "'a kmem_scheme \<Rightarrow> u64 \<Rightarrow> u64 \<Rightarrow> u64 list \<Rightarrow> nat \<Rightarrow> bool" where
  "copyable s old new fps n \<longleftrightarrow>
     pt_wf (mem s) old \<and> pt_pages (mem s) old \<inter> (pt_pages (mem s) new \<union> set fps) = {} \<and>
     (\<forall>i<n. let e = leaf (mem s) old (ustep 0 i) in
        e AND 1 \<noteq> 0 \<and> page_ok (ekernel s) (PTE2PA e) \<and> PTE2PA e \<notin> pt_pages (mem s) new \<union> set fps)"

definition page_count :: "u64 \<Rightarrow> nat" where
  "page_count sz = (unat sz + 4095) div 4096"

text \<open>The child's memory below \<open>4096 * n\<close> is the parent's, page by page in frames of its own.\<close>

definition same_memory :: "bmem \<Rightarrow> u64 \<Rightarrow> bmem \<Rightarrow> u64 \<Rightarrow> nat \<Rightarrow> bool" where
  "same_memory m old m' new n \<longleftrightarrow>
     (\<forall>va. unat va < 4096 * n \<longrightarrow>
        PTE_FLAGS (leaf m' new va) = PTE_FLAGS (leaf m old va) \<and> uok m' new va = uok m old va \<and>
        (uok m old va \<longrightarrow> m' (upa m' new va) = m (upa m old va)))"

definition own_frames :: "bmem \<Rightarrow> u64 \<Rightarrow> nat \<Rightarrow> u64 set \<Rightarrow> bool" where
  "own_frames m root n P \<longleftrightarrow>
     (\<forall>va. unat va < 4096 * n \<and> uok m root va \<longrightarrow> upage m root (PGROUNDDOWN va) \<in> P) \<and>
     (\<forall>va va'. unat va < 4096 * n \<and> unat va' < 4096 * n \<and> uok m root va \<and> uok m root va' \<and>
        upage m root (PGROUNDDOWN va) = upage m root (PGROUNDDOWN va') \<longrightarrow> PGROUNDDOWN va = PGROUNDDOWN va')"

lemma ustep_base: "i < n \<Longrightarrow> 4096 * n \<le> unat MAXVA \<Longrightarrow> unat (ustep 0 i) = 4096 * i"
  by (subst unat_ustep) (simp_all add: unat_MAXVA)

lemma uvmcopy_frames:
  assumes inv: "vm_inv s new fps" and c: "copyable s old new fps (page_count sz)"
    and sz: "sz \<le> MAXVA" and un: "unmapped (mem s) new 0 (page_count sz)" and len: "3 * page_count sz \<le> length fps"
  obtains s' fps' fr where "uvmcopy old new sz s = Inr (0, s')"
    "pages_copied (\<lambda>i. PTE2PA (leaf (mem s) old (ustep 0 i))) (\<lambda>i. PTE_FLAGS (leaf (mem s) old (ustep 0 i)))
       new 0 (page_count sz) s fps s' fps' fr"
    "4096 * page_count sz \<le> unat MAXVA"
proof -
  let ?n = "page_count sz" and ?e = "\<lambda>i. leaf (mem s) old (ustep 0 i)"
  have szn: "unat sz \<le> 274877906944" using sz by (simp add: word_le_nat_alt unat_MAXVA)
  have n: "4096 * ?n \<le> unat MAXVA" "unat sz \<le> 4096 * ?n" "i < ?n \<Longrightarrow> 4096 * i < unat sz" for i
    using szn by (simp_all add: page_count_def unat_MAXVA)
  have C: "pt_wf (mem s) old" "pt_pages (mem s) old \<inter> (pt_pages (mem s) new \<union> set fps) = {}"
    "\<And>i. i < ?n \<Longrightarrow> ?e i AND 1 \<noteq> 0" "\<And>i. i < ?n \<Longrightarrow> page_ok (ekernel s) (PTE2PA (?e i))"
    "\<And>i. i < ?n \<Longrightarrow> PTE2PA (?e i) \<notin> pt_pages (mem s) new \<union> set fps"
    using c unfolding copyable_def Let_def by blast+
  have src: "sources_ok (\<lambda>i. PTE2PA (?e i)) ?n (pt_pages (mem s) new \<union> set fps)"
    unfolding sources_ok_def
  proof (intro allI impI conjI)
    fix i assume i: "i < ?n"
    have "unat (PTE2PA (?e i)) < 2281701376"
      using C(4)[OF i] by (simp add: page_ok_def word_less_nat_alt unat_PHYSTOP)
    then show "unat (PTE2PA (?e i)) + 4096 < 2 ^ 64" by simp
  qed (use C(5) in simp_all)
  have "\<exists>s' fps' fr. uvmcopy_loop old new 0 sz s = Inr (0, s') \<and>
    pages_copied (\<lambda>i. PTE2PA (?e i)) (\<lambda>i. PTE_FLAGS (?e i)) new 0 ?n s fps s' fps' fr"
  proof (rule uvmcopy_loop_ok[OF inv aligned_0 _ len un src C(1,2)])
    show "\<forall>i<?n. entry_of (mem s) old (ustep 0 i) (PTE2PA (?e i)) (PTE_FLAGS (?e i))"
      using C(3) by (simp add: entry_of_def)
    show "\<forall>i<?n. ustep 0 i < sz" using n(3) ustep_base[OF _ n(1)] by (simp add: word_less_nat_alt)
    have "unat (ustep 0 ?n) = 4096 * ?n" using n(1) by (subst unat_ustep) (simp_all add: unat_MAXVA)
    then show "sz \<le> ustep 0 ?n" using n(2) by (simp add: word_le_nat_alt)
  qed (use n(1) in simp)
  then show thesis using that n(1) unfolding uvmcopy_def by blast
qed

lemma uvmcopy_ok:
  assumes inv: "vm_inv s new fps" and c: "copyable s old new fps (page_count sz)"
    and sz: "sz \<le> MAXVA" and un: "unmapped (mem s) new 0 (page_count sz)" and len: "3 * page_count sz \<le> length fps"
  shows "\<exists>s' fps'. uvmcopy old new sz s = Inr (0, s') \<and> vm_inv s' new fps' \<and> set fps' \<subseteq> set fps \<and>
    mem_only s s' \<and> same_memory (mem s) old (mem s') new (page_count sz) \<and>
    own_frames (mem s') new (page_count sz) (set fps - set fps') \<and>
    (\<forall>va<MAXVA. 4096 * page_count sz \<le> unat va \<longrightarrow> leaf (mem s') new va = leaf (mem s) new va) \<and>
    releasable s' new fps' (uframe_list (mem s') new 0 (page_count sz)) \<and>
    space_pages (mem s') new (page_count sz) \<union> set fps' = pt_pages (mem s) new \<union> set fps \<and>
    same_off (pt_pages (mem s) new \<union> set fps) (mem s) (mem s')"
proof -
  let ?n = "page_count sz" and ?e = "\<lambda>i. leaf (mem s) old (ustep 0 i)"
  obtain s' fps' fr where r: "uvmcopy old new sz s = Inr (0, s')"
    and P: "pages_copied (\<lambda>i. PTE2PA (?e i)) (\<lambda>i. PTE_FLAGS (?e i)) new 0 ?n s fps s' fps' fr"
    and n: "4096 * ?n \<le> unat MAXVA" by (rule uvmcopy_frames[OF assms])
  have n': "unat 0 + 4096 * ?n \<le> unat MAXVA" using n by simp
  note C = P[unfolded pages_filled_def]
  have V: "?e i AND 1 \<noteq> 0" "PTE2PA (?e i) \<noteq> 0" if "i < ?n" for i
  proof -
    have "page_ok (ekernel s) (PTE2PA (?e i))" "?e i AND 1 \<noteq> 0" using c that unfolding copyable_def Let_def by blast+
    then show "?e i AND 1 \<noteq> 0" "PTE2PA (?e i) \<noteq> 0"
      using inv by (auto simp: vm_inv_def kmem_wf_def dest: page_ok_nonzero)
  qed
  have view: "PTE_FLAGS (leaf (mem s') new (ustep 0 i)) = PTE_FLAGS (?e i)"
    "upage (mem s') new (ustep 0 i) = (if ?e i AND 16 \<noteq> 0 then fr ! i else 0)"
    "upage (mem s) old (ustep 0 i) = (if ?e i AND 16 \<noteq> 0 then PTE2PA (?e i) else 0)"
    "fr ! i \<in> set fps" "fr ! i \<notin> set fps'" "fr ! i \<noteq> 0"
    "\<And>k. k < 4096 \<Longrightarrow> mem s' (fr ! i + of_nat k) = mem s (PTE2PA (?e i) + of_nat k)" if i: "i < ?n" for i
  proof -
    have f: "PTE_FLAGS (?e i) AND 1 \<noteq> 0" unfolding flags_and by (rule V(1)[OF i])
    note w = copied_view[OF P inv aligned_0 n' i PTE_FLAGS_less f]
    show "PTE_FLAGS (leaf (mem s') new (ustep 0 i)) = PTE_FLAGS (?e i)" by (rule w(1))
    show "upage (mem s') new (ustep 0 i) = (if ?e i AND 16 \<noteq> 0 then fr ! i else 0)"
      using w(2) unfolding flags_and .
    show "upage (mem s) old (ustep 0 i) = (if ?e i AND 16 \<noteq> 0 then PTE2PA (?e i) else 0)"
      using V(1)[OF i] ustep_page(1)[OF aligned_0 n' i] by (simp add: upage_def)
    show "fr ! i \<in> set fps" "fr ! i \<notin> set fps'" "fr ! i \<noteq> 0" by (rule w(3) w(4) w(6))+
    show "mem s' (fr ! i + of_nat k) = mem s (PTE2PA (?e i) + of_nat k)" if "k < 4096" for k
      using w(7)[OF that] that by simp
  qed
  have page: "\<exists>i<?n. PGROUNDDOWN va = ustep 0 i \<and> va < MAXVA" if "unat va < 4096 * ?n" for va
  proof -
    have "unat 0 \<le> unat va" "unat va < unat 0 + 4096 * ?n" using that by simp_all
    from run_page[OF aligned_0 n' this] show ?thesis by metis
  qed
  have lp: "leaf m root va = leaf m root (ustep 0 i)" if "PGROUNDDOWN va = ustep 0 i" for m root va i
    using leaf_page[of m root va] that by simp
  have same: "same_memory (mem s) old (mem s') new ?n" unfolding same_memory_def
  proof (intro allI impI)
    fix va :: u64 assume "unat va < 4096 * ?n"
    then obtain i where i: "i < ?n" "PGROUNDDOWN va = ustep 0 i" using page by blast
    have "uok (mem s') new va = uok (mem s) old va"
      using view(2,3,6)[OF i(1)] V(2)[OF i(1)] i(2) by (simp add: uok_def)
    moreover have "mem s' (upa (mem s') new va) = mem s (upa (mem s) old va)" if "uok (mem s) old va"
    proof -
      have "?e i AND 16 \<noteq> 0" using that view(3)[OF i(1)] i(2) by (metis uok_def)
      then show ?thesis
        unfolding upa_def page_offset_bound unfolding i(2) view(2)[OF i(1)] view(3)[OF i(1)]
        using view(7)[OF i(1), of "unat va mod 4096"] by simp
    qed
    ultimately show "PTE_FLAGS (leaf (mem s') new va) = PTE_FLAGS (leaf (mem s) old va) \<and>
        uok (mem s') new va = uok (mem s) old va \<and>
        (uok (mem s) old va \<longrightarrow> mem s' (upa (mem s') new va) = mem s (upa (mem s) old va))"
      using view(1)[OF i(1)] lp[OF i(2)] by simp
  qed
  have dfr: "distinct fr" "length fr = ?n" using C by blast+
  have own: "own_frames (mem s') new ?n (set fps - set fps')" unfolding own_frames_def
  proof (intro conjI allI impI; elim conjE)
    fix va :: u64 assume va: "unat va < 4096 * ?n" "uok (mem s') new va"
    then obtain i where "i < ?n" "PGROUNDDOWN va = ustep 0 i" using page by blast
    then show "upage (mem s') new (PGROUNDDOWN va) \<in> set fps - set fps'"
      using view(2,4,5)[of i] va(2) by (auto simp: uok_def split: if_splits)
  next
    fix va va' :: u64
    assume va: "unat va < 4096 * ?n" "unat va' < 4096 * ?n" "uok (mem s') new va" "uok (mem s') new va'"
      "upage (mem s') new (PGROUNDDOWN va) = upage (mem s') new (PGROUNDDOWN va')"
    obtain i j where ij: "i < ?n" "PGROUNDDOWN va = ustep 0 i" "j < ?n" "PGROUNDDOWN va' = ustep 0 j"
      using page[OF va(1)] page[OF va(2)] by blast
    then have "fr ! i = fr ! j" using view(2)[of i] view(2)[of j] va(3-5) by (auto simp: uok_def split: if_splits)
    then have "i = j" using dfr ij by (simp add: nth_eq_iff_index_eq)
    then show "PGROUNDDOWN va = PGROUNDDOWN va'" using ij by simp
  qed
  have high: "leaf (mem s') new va = leaf (mem s) new va" if "va < MAXVA" "4096 * ?n \<le> unat va" for va
  proof -
    have "PGROUNDDOWN va \<noteq> ustep 0 i" if "i < ?n" for i
    proof
      assume "PGROUNDDOWN va = ustep 0 i"
      then have "unat va div 4096 * 4096 = 4096 * i"
        using ustep_base[OF that n] by (metis unat_PGROUNDDOWN)
      moreover have "?n \<le> unat va div 4096" using \<open>4096 * ?n \<le> unat va\<close> by (simp add: less_eq_div_iff_mult_less_eq mult.commute)
      ultimately show False using that by simp
    qed
    then show ?thesis using C that(1) by blast
  qed
  have ul: "uframe_list (mem s') new 0 ?n = fr" by (rule filled_list[OF P inv]) (simp add: PTE_FLAGS_less)
  have rel: "releasable s' new fps' (uframe_list (mem s') new 0 ?n)" unfolding ul by (rule filled_released[OF P inv])
  have acc: "space_pages (mem s') new ?n \<union> set fps' = pt_pages (mem s) new \<union> set fps"
    unfolding space_pages_def ul using C by blast
  show ?thesis
    by (intro exI[of _ s'] exI[of _ fps'] conjI r same own rel acc) (use C high in blast)+
qed

end
