(* ===== verification/ProcMemory.thy ===== *)
theory ProcMemory
  imports AddressSpace ProcRefine
begin

text \<open>
  The memory of a new process: the table \<open>proc_pagetable\<close> makes, what \<open>fork\<close> puts under it, a copy of
  the parent, and what \<open>spawn\<close> puts under it, the image of a program (\<open>kernel/proc.c\<close>,
  \<open>kernel/loader.c\<close>).
\<close>

section \<open>Memory outside a table\<close>

lemma vm_inv_same_off:
  assumes "vm_inv s root fps" "same_off P (mem s) (mem s')" "P \<inter> (pt_pages (mem s) root \<union> set fps) = {}"
    "freelist s' = freelist s" "ekernel s' = ekernel s"
  shows "vm_inv s' root fps" "pt_pages (mem s') root = pt_pages (mem s) root"
    "leaf (mem s') root va = leaf (mem s) root va"
proof -
  have wf: "pt_wf (mem s) root" and kw: "kmem_wf s fps" using assms(1) by (auto simp: vm_inv_def)
  have nd: "P \<inter> pt_pages (mem s) root = {}" using assms(3) by blast
  show pp: "pt_pages (mem s') root = pt_pages (mem s) root" by (rule pt_pages_same_off[OF wf assms(2) nd])
  show "leaf (mem s') root va = leaf (mem s) root va" by (rule leaf_same_off[OF wf assms(2) nd])
  have "chain (mem s') (freelist s) fps"
    by (rule chain_same_off[OF _ assms(2)]) (use kw assms(3) in \<open>auto simp: kmem_wf_def\<close>)
  then have "kmem_wf s' fps" using kw assms(4,5) by (simp add: kmem_wf_def)
  then show "vm_inv s' root fps"
    unfolding vm_inv_def pp using pt_wf_same_off[OF wf assms(2) nd] assms(1) by (auto simp: vm_inv_def)
qed

lemma mem_only_more: "mem_only s s' \<Longrightarrow> kproc.more s' = kproc.more s"
  by (cases s; cases s'; simp add: mem_only_def)

lemma filepool_more: "kproc.more s' = kproc.more s \<Longrightarrow> filepool s' = filepool s"
  by (cases s; cases s'; simp)

lemma memset_head_same_off: "aligned a \<Longrightarrow> same_off {a} m (memset m a c 288)"
  unfolding memset_wr by (rule wr_same_off0) simp_all

lemma zeroed_words:
  assumes "k < 36"
  shows "load64 (memset m tf 0 288) (tf + of_nat (8 * k)) = 0"
proof -
  have "rd (wr m tf (replicate 288 0)) (tf + of_nat (8 * k)) 8 = replicate 8 (0 :: u8)"
  proof (rule nth_equalityI)
    fix j assume "j < length (rd (wr m tf (replicate 288 0)) (tf + of_nat (8 * k)) 8)"
    then have j: "j < 8" "8 * k + j < 288" using assms by simp_all
    have "wr m tf (replicate 288 0) (tf + of_nat (8 * k + j)) = 0" using j by (subst wr_in) simp_all
    then show "rd (wr m tf (replicate 288 0)) (tf + of_nat (8 * k)) 8 ! j = replicate 8 (0 :: u8) ! j"
      using j by (simp add: add.assoc)
  qed simp
  then have "load64 (wr m tf (replicate 288 0)) (tf + of_nat (8 * k)) = from_le (replicate 8 0)"
    by (simp add: load64_def)
  also have "from_le (replicate 8 0) = (0 :: u64)" by (simp add: numeral_eq_Suc)
  finally show ?thesis by (simp add: memset_wr)
qed

section \<open>The table of a new process\<close>

lemma TRAMPOLINE_page: "aligned TRAMPOLINE" "TRAMPOLINE < MAXVA" "unat TRAMPOLINE = 274877902848"
  by (simp_all add: TRAMPOLINE_def MAXVA_def aligned_def)

lemma TRAPFRAME_page: "aligned TRAPFRAME" "TRAPFRAME < MAXVA" "unat TRAPFRAME = 274877898752" "TRAPFRAME \<noteq> TRAMPOLINE"
  by (simp_all add: TRAPFRAME_def TRAMPOLINE_def MAXVA_def aligned_def)

text \<open>A table that maps the trampoline and the trapframe, and nothing else.\<close>

definition bare_table :: "bmem \<Rightarrow> u64 \<Rightarrow> u64 \<Rightarrow> u64 \<Rightarrow> bool" where
  "bare_table m root tramp tf \<longleftrightarrow> (\<forall>va<MAXVA. leaf m root va =
     (if PGROUNDDOWN va = TRAPFRAME then PA2PTE tf OR 6 OR 1
      else if PGROUNDDOWN va = TRAMPOLINE then PA2PTE tramp OR 10 OR 1 else 0))"

lemma proc_pagetable_ok:
  assumes kw: "kmem_wf s fps" and len: "5 \<le> length fps" and tf: "aligned tf" "tf \<notin> set fps"
  obtains root s' fps' where "proc_pagetable tf s = Inr (root, s')" "root \<noteq> 0" "vm_inv s' root fps'"
    "bare_table (mem s') root (trampoline s) tf" "pt_pages (mem s') root \<union> set fps' = set fps"
    "length fps \<le> length fps' + 5" "same_off (insert tf (set fps)) (mem s) (mem s')" "mem_only s s'"
    "\<And>k. k < 36 \<Longrightarrow> load64 (mem s') (tf + of_nat (8 * k)) = 0"
proof -
  obtain root ps s1 where c: "fps = root # ps" "uvmcreate s = (root, s1)" "vm_inv s1 root ps"
    "filled (mem s1) root 0" "same_off {root} (mem s) (mem s1)"
    using kw len by (cases rule: uvmcreate_ok) auto
  note e = empty_table(2,4)[OF c(4)]
  have root: "root \<noteq> 0" using kmem.pool_valid[OF kw, of root] c(1) by simp
  have t1: "leaf (mem s1) root TRAMPOLINE AND 1 = 0" "2 \<le> length ps" using e(2) len c(1) by simp_all
  note m1 = uvmcreate_mem_only[OF c(2)]
  obtain s2 ps2 where a: "mappages_loop root TRAMPOLINE TRAMPOLINE (trampoline s1) 10 s1 = Inr (0, s2)"
    "vm_grow s1 ps root s2 ps2"
    "\<And>va. va < MAXVA \<Longrightarrow> leaf (mem s2) root va =
       (if PGROUNDDOWN va = TRAMPOLINE then PA2PTE (trampoline s1) OR 10 OR PTE_V else leaf (mem s1) root va)"
    "length ps \<le> length ps2 + 2"
    by (rule mappages_one[OF c(3) TRAMPOLINE_page(1,2) t1]) (rule that; assumption)
  note g = a(2)[unfolded vm_grow_def e(1)]
  have mp1: "mappages root TRAMPOLINE 4096 (trampoline s1) 10 s1 = Inr (0, s2)"
    unfolding mappages_page[OF TRAMPOLINE_page(1)] using a(1) by simp
  let ?s3 = "s2\<lparr>mem := memset (mem s2) tf 0 288\<rparr>"
  have off: "same_off {tf} (mem s2) (mem ?s3)" using memset_head_same_off[OF tf(1)] by simp
  have nd: "{tf} \<inter> (pt_pages (mem s2) root \<union> set ps2) = {}" using g tf(2) c(1) by auto
  have inv2: "vm_inv s2 root ps2" using g by blast
  have v: "vm_inv ?s3 root ps2" "pt_pages (mem ?s3) root = pt_pages (mem s2) root"
    "\<And>va. leaf (mem ?s3) root va = leaf (mem s2) root va"
    using vm_inv_same_off[OF inv2 off nd] by simp_all
  have t2: "leaf (mem ?s3) root TRAPFRAME AND 1 = 0" "2 \<le> length ps2"
    using v(3) a(3)[OF TRAPFRAME_page(2)] e(2) TRAPFRAME_page(4) a(4) len c(1)
    by (simp_all add: PGROUNDDOWN_aligned[OF TRAPFRAME_page(1)])
  obtain s4 ps4 where b: "mappages_loop root TRAPFRAME TRAPFRAME tf 6 ?s3 = Inr (0, s4)"
    "vm_grow ?s3 ps2 root s4 ps4"
    "\<And>va. va < MAXVA \<Longrightarrow> leaf (mem s4) root va =
       (if PGROUNDDOWN va = TRAPFRAME then PA2PTE tf OR 6 OR PTE_V else leaf (mem ?s3) root va)"
    "length ps2 \<le> length ps4 + 2"
    by (rule mappages_one[OF v(1) TRAPFRAME_page(1,2) t2]) (rule that; assumption)
  note h = b(2)[unfolded vm_grow_def v(2)]
  have mp2: "mappages root TRAPFRAME 4096 tf 6 ?s3 = Inr (0, s4)"
    unfolding mappages_page[OF TRAPFRAME_page(1)] using b(1) by simp
  have tr: "trampoline s1 = trampoline s" using mem_only_fields(7)[OF m1] .
  show thesis
  proof (rule that)
    show "proc_pagetable tf s = Inr (root, s4)"
      using c(2) root mp1 mp2 by (simp add: proc_pagetable_def Let_def)
    show "bare_table (mem s4) root (trampoline s) tf"
      unfolding bare_table_def using b(3) v(3) a(3) e(2) tr by simp
    show "length fps \<le> length ps4 + 5" using a(4) b(4) c(1) by simp
    show "pt_pages (mem s4) root \<union> set ps4 = set fps" using g h c(1) by auto
    have "same_off (insert tf (set fps)) (mem s) (mem s2)"
      by (rule same_off_trans[OF c(5), of "{root} \<union> (set ps - set ps2)"]) (use g c(1) in auto)
    then have "same_off (insert tf (set fps)) (mem s) (mem ?s3)" by (rule same_off_trans[OF _ off]) simp
    moreover have "same_off (pt_pages (mem s2) root \<union> (set ps2 - set ps4)) (mem ?s3) (mem s4)" using h by blast
    ultimately show "same_off (insert tf (set fps)) (mem s) (mem s4)"
      by (rule same_off_trans) (use g c(1) in auto)
    show "load64 (mem s4) (tf + of_nat (8 * k)) = 0" if k: "k < 36" for k
    proof -
      have "load64 (mem ?s3) (tf + of_nat (8 * k)) = 0" using zeroed_words[OF k] by simp
      moreover have "load64 (mem s4) (tf + of_nat (8 * k)) = load64 (mem ?s3) (tf + of_nat (8 * k))"
        using h nd k by (intro load64_same_off[of "pt_pages (mem s2) root \<union> (set ps2 - set ps4)" _ _ tf "8 * k"]) (auto simp: tf(1))
      ultimately show ?thesis by simp
    qed
    show "mem_only s s4"
      using m1 mappages_mem_only[OF mp1] mappages_mem_only[OF mp2] by (simp add: mem_only_def)
  qed (use root h in auto)
qed

section \<open>The table of a process\<close>

text \<open>
  The table of a process with \<open>n\<close> pages of memory: those, the trampoline and the trapframe are mapped and
  nothing else; the tables and the frames are pages of the allocator, all different and not free.
\<close>

definition full_table :: "'a kmem_scheme \<Rightarrow> u64 \<Rightarrow> u64 list \<Rightarrow> nat \<Rightarrow> bool" where
  "full_table s root fps n \<longleftrightarrow>
     vm_inv s root fps \<and> (\<forall>a \<in> pt_pages (mem s) root. page_ok (ekernel s) a) \<and>
     unmappable (mem s) root TRAMPOLINE \<and> unmappable (mem s) root TRAPFRAME \<and>
     (\<forall>i<n. unmappable (mem s) root (ustep 0 i)) \<and> releasable s root fps (uframe_list (mem s) root 0 n) \<and>
     (\<forall>va<MAXVA. leaf (mem s) root va AND 1 \<noteq> 0 \<longrightarrow>
        PGROUNDDOWN va = TRAMPOLINE \<or> PGROUNDDOWN va = TRAPFRAME \<or> unat va < 4096 * n)"

lemma full_tableD:
  assumes "full_table s root fps n"
  shows "vm_inv s root fps" "\<forall>a \<in> pt_pages (mem s) root. page_ok (ekernel s) a"
    "unmappable (mem s) root TRAMPOLINE" "unmappable (mem s) root TRAPFRAME"
    "\<forall>i<n. unmappable (mem s) root (ustep 0 i)" "releasable s root fps (uframe_list (mem s) root 0 n)"
    "\<And>va. va < MAXVA \<Longrightarrow> leaf (mem s) root va AND 1 \<noteq> 0 \<Longrightarrow>
        PGROUNDDOWN va = TRAMPOLINE \<or> PGROUNDDOWN va = TRAPFRAME \<or> unat va < 4096 * n"
  using assms unfolding full_table_def by blast+

text \<open>The table does not change with memory that is neither its own nor the allocator's.\<close>

lemma full_table_same_off:
  assumes F: "full_table s root fps n" and off: "same_off P (mem s) (mem s')"
    and nd: "P \<inter> (pt_pages (mem s) root \<union> set fps) = {}" and k: "freelist s' = freelist s" "ekernel s' = ekernel s"
  shows "full_table s' root fps n" "space_pages (mem s') root n = space_pages (mem s) root n"
proof -
  note f = full_tableD[OF F]
  note v = vm_inv_same_off[OF f(1) off nd k]
  have ul: "uframe_list (mem s') root 0 n = uframe_list (mem s) root 0 n" by (simp add: uframe_list_def v(3))
  show "space_pages (mem s') root n = space_pages (mem s) root n" by (simp add: space_pages_def ul v(2))
  have un: "unmappable (mem s') root a = unmappable (mem s) root a" for a by (simp add: unmappable_def v(3))
  have rel: "releasable s' root fps (uframe_list (mem s') root 0 n)"
    using f(6) unfolding releasable_def ul v(2) k .
  show "full_table s' root fps n"
    unfolding full_table_def un v(2,3) k(2) by (intro conjI v(1) f(2-5) rel) (use f(7) in blast)
qed

lemma full_tableI:
  assumes inv: "vm_inv s root fps" and pg: "pt_pages (mem s) root \<subseteq> Q" "\<forall>a \<in> Q. page_ok (ekernel s) a"
    and top: "leaf (mem s) root TRAPFRAME = PA2PTE tf OR 6 OR 1" "leaf (mem s) root TRAMPOLINE = PA2PTE tramp OR 10 OR 1"
    and un: "\<forall>i<n. unmappable (mem s) root (ustep 0 i)" and rel: "releasable s root fps (uframe_list (mem s) root 0 n)"
    and none: "\<And>va. va < MAXVA \<Longrightarrow> 4096 * n \<le> unat va \<Longrightarrow> PGROUNDDOWN va \<noteq> TRAMPOLINE \<Longrightarrow> PGROUNDDOWN va \<noteq> TRAPFRAME \<Longrightarrow>
      leaf (mem s) root va AND 1 = 0"
  shows "full_table s root fps n"
proof -
  have "unmappable (mem s) root TRAPFRAME" "unmappable (mem s) root TRAMPOLINE"
    by (rule unmappable_perm[OF top(1)] unmappable_perm[OF top(2)]; simp)+
  then show ?thesis
    unfolding full_table_def using pg none by (intro conjI inv un rel) (auto simp: not_less[symmetric])
qed

section \<open>A new process\<close>

definition new_proc :: "proc \<Rightarrow> int \<Rightarrow> u64 \<Rightarrow> u64 \<Rightarrow> proc" where
  "new_proc p pd pt utr = p\<lparr>pid := pd, pstate := USED, psz := 0, exit_code := -1, parent := None, ustack := 0,
     pagetable := pt, ctx := \<lparr>ctx_ra = utr, ctx_sp = kstack p + 4096, ctx_s = replicate 12 0\<rparr>,
     prio := 16, pass := 100000 div 16, stride := 0\<rparr>"

text \<open>The pages of a slot, which \<open>procinit\<close> assigned, are its own.\<close>

definition slot_pages :: "proc \<Rightarrow> u64 set" where
  "slot_pages p = {trapframe p, kstack p}"

lemma allocproc_ok:
  assumes kw: "kmem_wf s fps" and len: "5 \<le> length fps" and i: "find_idx (\<lambda>p. pstate p = UNUSED) (pool s) = Some i"
    and al: "aligned (trapframe (pool s ! i))" "aligned (kstack (pool s ! i))"
    and nf: "slot_pages (pool s ! i) \<inter> set fps = {}" and ne: "trapframe (pool s ! i) \<noteq> kstack (pool s ! i)"
  obtains root s' fps' where "allocproc s = Inr (Some i, s')" "root \<noteq> 0" "vm_inv s' root fps'"
    "bare_table (mem s') root (trampoline s) (trapframe (pool s ! i))"
    "pt_pages (mem s') root \<union> set fps' = set fps" "length fps \<le> length fps' + 5"
    "same_off (slot_pages (pool s ! i) \<union> set fps) (mem s) (mem s')"
    "pool s' = (pool s)[i := new_proc (pool s ! i) (PID s) root (usertrapret s)]"
    "idle s' = idle s" "curr_proc s' = curr_proc s" "ekernel s' = ekernel s" "PID s' = PID s + 1"
    "kproc.more s' = kproc.more s" "filled (mem s') (trapframe (pool s ! i)) 0" "e_text s' = e_text s"
proof -
  let ?tf = "trapframe (pool s ! i)" and ?ks = "kstack (pool s ! i)"
  let ?p = "(pool s ! i)\<lparr>pid := PID s, pstate := USED, psz := 0, exit_code := -1, parent := None, ustack := 0\<rparr>"
  let ?s = "s\<lparr>PID := PID s + 1, pool := (pool s)[i := ?p]\<rparr>"
  have kw': "kmem_wf ?s fps" using kw by (simp add: kmem_wf_def)
  have tfn: "?tf \<notin> set fps" "?ks \<notin> set fps" using nf by (auto simp: slot_pages_def)
  obtain root s1 fps' where c: "proc_pagetable ?tf ?s = Inr (root, s1)" "root \<noteq> 0" "vm_inv s1 root fps'"
    "bare_table (mem s1) root (trampoline ?s) ?tf" "pt_pages (mem s1) root \<union> set fps' = set fps"
    "length fps \<le> length fps' + 5" "same_off (insert ?tf (set fps)) (mem ?s) (mem s1)" "mem_only ?s s1"
    "\<And>k. k < 36 \<Longrightarrow> load64 (mem s1) (?tf + of_nat (8 * k)) = 0"
    by (rule proc_pagetable_ok[OF kw' len al(1) tfn(1)]) (rule that; assumption)
  note f = mem_only_fields[OF c(8)] mem_only_curr_proc[OF c(8)]
  let ?m = "memset (memset (mem s1) ?tf 0 4096) ?ks 0 4096"
  let ?s' = "s1\<lparr>mem := ?m, pool := (pool s)[i := new_proc (pool s ! i) (PID s) root (usertrapret s)]\<rparr>"
  have off: "same_off {?tf, ?ks} (mem s1) ?m"
    by (rule same_off_trans[OF memset_same_off[OF al(1)] memset_same_off[OF al(2)]]) auto
  have nd: "{?tf, ?ks} \<inter> (pt_pages (mem s1) root \<union> set fps') = {}" using tfn c(5) by auto
  have v: "vm_inv ?s' root fps'" "pt_pages ?m root = pt_pages (mem s1) root" "\<And>va. leaf ?m root va = leaf (mem s1) root va"
    using vm_inv_same_off[OF c(3) _ nd, of ?s'] off by simp_all
  show thesis
  proof (rule that[of ?s' root fps'])
    show "allocproc s = Inr (Some i, ?s')"
      using i c(1,2) f by (simp add: allocproc_def allocpid_def Let_def new_proc_def)
    show "same_off (slot_pages (pool s ! i) \<union> set fps) (mem s) (mem ?s')"
      using same_off_trans[OF c(7) off, of "slot_pages (pool s ! i) \<union> set fps"] by (auto simp: slot_pages_def)
    show "bare_table (mem ?s') root (trampoline s) ?tf" using c(4) v(3) by (simp add: bare_table_def)
    show "idle ?s' = idle s" "ekernel ?s' = ekernel s" "PID ?s' = PID s + 1" "e_text ?s' = e_text s" using f by simp_all
    show "curr_proc ?s' = curr_proc s" using f by (simp add: curr_proc_def)
    show "kproc.more ?s' = kproc.more s" using mem_only_more[OF c(8)] by simp
    have "filled (memset (mem s1) ?tf 0 4096) ?tf 0" using memset_filled[of "mem s1" ?tf 0] by simp
    from filled_same_off[OF this memset_same_off[OF al(2)] al(1)] ne show "filled (mem ?s') ?tf 0" by simp
  qed (use c(2,5,6) v in simp_all)
qed


section \<open>Descriptors of the child\<close>

text \<open>The descriptors \<open>i\<close> to \<open>i + n\<close> that name an open file are taken over, and each is counted.\<close>

definition is_open :: "ofile list \<Rightarrow> nat option \<Rightarrow> bool" where
  "is_open fp d \<longleftrightarrow> (case d of None \<Rightarrow> False | Some f \<Rightarrow> f_type (fp ! f) \<noteq> FD_NONE)"

definition shared :: "ofile list \<Rightarrow> nat option list \<Rightarrow> nat \<Rightarrow> nat \<Rightarrow> nat option list \<Rightarrow> nat option list" where
  "shared fp ps i n cs =
     map (\<lambda>j. if i \<le> j \<and> j < i + n \<and> is_open fp (ps ! j) then ps ! j else cs ! j) [0..<length cs]"

definition counted :: "ofile list \<Rightarrow> nat option list \<Rightarrow> nat \<Rightarrow> nat \<Rightarrow> ofile list" where
  "counted fp ps i n = map (\<lambda>f. if f_type (fp ! f) = FD_NONE then fp ! f
     else (fp ! f)\<lparr>f_ref := f_ref (fp ! f) + int (length (filter (\<lambda>j. ps ! j = Some f) [i..<i + n]))\<rparr>) [0..<length fp]"

lemma counted_0 [simp]: "counted fp ps i 0 = fp"
  by (rule nth_equalityI) (simp_all add: counted_def)

lemma shared_0 [simp]: "shared fp ps i 0 cs = cs"
  by (rule nth_equalityI) (auto simp: shared_def)

lemma range_Suc: "[i..<i + Suc n] = i # [Suc i..<Suc i + n]"
  by (simp add: upt_conv_Cons)

lemma counted_skip: "\<not> is_open fp (ps ! i) \<Longrightarrow> counted fp ps i (Suc n) = counted fp ps (Suc i) n"
  unfolding counted_def range_Suc by (auto simp: is_open_def split: option.splits)

lemma counted_step:
  assumes "ps ! i = Some f" "f < length fp" "f_type (fp ! f) \<noteq> FD_NONE"
  shows "counted fp ps i (Suc n) = counted (fp[f := (fp ! f)\<lparr>f_ref := f_ref (fp ! f) + 1\<rparr>]) ps (Suc i) n"
  unfolding counted_def range_Suc using assms by (auto simp: nth_list_update)

lemma shared_skip: "\<not> is_open fp (ps ! i) \<Longrightarrow> shared fp ps i (Suc n) cs = shared fp ps (Suc i) n cs"
  unfolding shared_def by (rule map_cong[OF refl]) (auto simp: le_less Suc_le_eq dest: order.strict_implies_not_eq)

lemma shared_step:
  assumes "is_open fp (ps ! i)" "map f_type fp' = map f_type fp" "\<forall>j<i + Suc n. \<forall>f. ps ! j = Some f \<longrightarrow> f < length fp"
  shows "shared fp ps i (Suc n) cs = shared fp' ps (Suc i) n (cs[i := ps ! i])"
proof -
  have o: "is_open fp' (ps ! j) = is_open fp (ps ! j)" if "j < i + Suc n" for j
    using assms(3) that arg_cong[OF assms(2), of "\<lambda>l. l ! the (ps ! j)"] arg_cong[OF assms(2), of length]
    by (auto simp: is_open_def split: option.splits)
  show ?thesis
  proof (rule nth_equalityI)
    fix j assume "j < length (shared fp ps i (Suc n) cs)"
    then show "shared fp ps i (Suc n) cs ! j = shared fp' ps (Suc i) n (cs[i := ps ! i]) ! j"
      using assms(1) o[of j] by (cases "j = i") (auto simp: shared_def Suc_le_eq le_less)
  qed (simp add: shared_def)
qed


lemma dup_loop_ok:
  assumes "p \<noteq> Pool k" "k < length (pool s)"
    "\<forall>j<i + n. \<forall>f. files (proc_at s p) ! j = Some f \<longrightarrow> f < length (filepool s)"
  shows "dup_loop n i p (Pool k) s =
    s\<lparr>filepool := counted (filepool s) (files (proc_at s p)) i n,
      pool := (pool s)[k := (pool s ! k)\<lparr>files :=
        shared (filepool s) (files (proc_at s p)) i n (files (pool s ! k))\<rparr>]\<rparr>"
  using assms(2,3)
proof (induction n arbitrary: i s)
  case (Suc n)
  let ?ps = "files (proc_at s p)"
  show ?case
  proof (cases "is_open (filepool s) (?ps ! i)")
    case True
    then obtain f where f: "?ps ! i = Some f" "f_type (filepool s ! f) \<noteq> FD_NONE"
      by (auto simp: is_open_def split: option.splits)
    have fl: "f < length (filepool s)" using Suc.prems(2)[rule_format, of i f] f(1) by simp
    let ?fp = "(filepool s)[f := (filepool s ! f)\<lparr>f_ref := f_ref (filepool s ! f) + 1\<rparr>]"
    let ?s = "s\<lparr>filepool := ?fp, pool := (pool s)[k := (pool s ! k)\<lparr>files := (files (pool s ! k))[i := Some f]\<rparr>]\<rparr>"
    have pf: "proc_at ?s p = proc_at s p" using assms(1) by (cases p; cases "p = Pool k") (auto simp: proc_at_def intro: nth_list_update_neq)
    have ty: "map f_type ?fp = map f_type (filepool s)"
      by (rule map_update_same) simp
    have "dup_loop (Suc n) i p (Pool k) s = dup_loop n (Suc i) p (Pool k) ?s"
      using f by (simp add: upd_file_def set_proc_def proc_at_def Let_def)
    also have "\<dots> = ?s\<lparr>filepool := counted ?fp ?ps (Suc i) n,
      pool := (pool ?s)[k := (pool ?s ! k)\<lparr>files := shared ?fp ?ps (Suc i) n (files (pool ?s ! k))\<rparr>]\<rparr>"
      using Suc.IH[of ?s "Suc i"] Suc.prems unfolding pf by simp
    also have "\<dots> = s\<lparr>filepool := counted (filepool s) ?ps i (Suc n),
      pool := (pool s)[k := (pool s ! k)\<lparr>files := shared (filepool s) ?ps i (Suc n) (files (pool s ! k))\<rparr>]\<rparr>"
      unfolding counted_step[OF f(1) fl f(2)] shared_step[OF True ty Suc.prems(2)]
      using Suc.prems(1) f(1) by simp
    finally show ?thesis .
  next
    case False
    then have "dup_loop (Suc n) i p (Pool k) s = dup_loop n (Suc i) p (Pool k) s"
      by (auto simp: is_open_def split: option.splits)
    then show ?thesis
      using Suc.IH[of s "Suc i"] Suc.prems unfolding counted_skip[OF False] shared_skip[OF False] by simp
  qed
qed simp


section \<open>fork\<close>

text \<open>The trapframe of the child: the parent's 36 words, with \<open>a0\<close>, the 15th, cleared.\<close>

lemma copy_words:
  assumes "k < 36" "aligned tf"
  shows "load64 (store64 (wr m tf (rd m ptf 288)) (tf + 112) v) (tf + 8 * of_nat k)
     = (if k = 14 then v else load64 m (ptf + 8 * of_nat k))"
proof (cases "k = 14")
  case False
  have "rd (wr m tf (rd m ptf 288)) (tf + of_nat (8 * k)) 8 = rd m (ptf + of_nat (8 * k)) 8"
  proof (rule nth_equalityI)
    fix j assume "j < length (rd (wr m tf (rd m ptf 288)) (tf + of_nat (8 * k)) 8)"
    then have j: "j < 8" "8 * k + j < 288" using assms(1) by simp_all
    have "wr m tf (rd m ptf 288) (tf + of_nat (8 * k + j)) = m (ptf + of_nat (8 * k + j))"
      using j by (subst wr_in) simp_all
    then show "rd (wr m tf (rd m ptf 288)) (tf + of_nat (8 * k)) 8 ! j = rd m (ptf + of_nat (8 * k)) 8 ! j"
      using j by (simp add: add.assoc)
  qed simp
  then have "load64 (wr m tf (rd m ptf 288)) (tf + 8 * of_nat k) = load64 m (ptf + 8 * of_nat k)"
    by (simp add: load64_def)
  then show ?thesis
    using load64_store64_other[OF assms(2), of 14 k "wr m tf (rd m ptf 288)" v] assms(1) False by simp
qed (simp add: mem_simps)

text \<open>
  What \<open>fork\<close> needs of process \<open>p\<close> and of the free slot \<open>q\<close>: every page of \<open>p\<close> is present, the pages of
  the table, of the process and of the slot are not free, and they are different pages.
\<close>

definition forkable :: "'a kfile_scheme \<Rightarrow> u64 list \<Rightarrow> proc \<Rightarrow> proc \<Rightarrow> bool" where
  "forkable s fps p q \<longleftrightarrow>
     psz p \<le> TRAPFRAME \<and> 3 * page_count (psz p) + 5 \<le> length fps \<and>
     aligned (trapframe q) \<and> aligned (kstack q) \<and> slot_pages q \<inter> set fps = {} \<and>
     trapframe q \<noteq> kstack q \<and> aligned (trapframe p) \<and> trapframe p \<notin> slot_pages q \<union> set fps \<and>
     pt_wf (mem s) (pagetable p) \<and> pt_pages (mem s) (pagetable p) \<inter> (slot_pages q \<union> set fps) = {} \<and>
     (\<forall>i<page_count (psz p). let e = leaf (mem s) (pagetable p) (ustep 0 i) in
        unmappable (mem s) (pagetable p) (ustep 0 i) \<and> page_ok (ekernel s) (PTE2PA e) \<and>
        PTE2PA e \<notin> slot_pages q \<union> set fps) \<and>
     (\<forall>j<16. \<forall>f. files p ! j = Some f \<longrightarrow> f < length (filepool s))"

lemma unmapped_bare:
  assumes "bare_table m root tramp tf" "4096 * n \<le> unat TRAPFRAME"
  shows "unmapped m root 0 n"
  unfolding unmapped_def
proof (intro allI impI)
  fix i assume i: "i < n"
  have n: "4096 * n \<le> unat MAXVA" using assms(2) by (simp add: TRAPFRAME_page(3) unat_MAXVA)
  have u: "unat (ustep 0 i) = 4096 * i" by (rule ustep_base[OF i n])
  have lt: "4096 * i < 274877898752" using i assms(2) by (simp add: TRAPFRAME_page(3))
  have "PGROUNDDOWN (ustep 0 i) = ustep 0 i" "ustep 0 i < MAXVA"
    using ustep_page[OF aligned_0 _ i] n by simp_all
  moreover have "ustep 0 i \<noteq> TRAPFRAME" "ustep 0 i \<noteq> TRAMPOLINE"
    using u lt TRAPFRAME_page(3) TRAMPOLINE_page(3) by (auto simp del: of_nat_mult)
  ultimately show "leaf m root (ustep 0 i) AND 1 = 0" using assms(1) by (simp add: bare_table_def)
qed

lemma upa_cong: "(\<And>va. leaf m root va = leaf m' root va) \<Longrightarrow> upa m root va = upa m' root va"
  "(\<And>va. leaf m root va = leaf m' root va) \<Longrightarrow> uok m root va = uok m' root va"
  "(\<And>va. leaf m root va = leaf m' root va) \<Longrightarrow> upage m root va = upage m' root va"
  by (simp_all add: upa_def uok_def upage_def)

lemma same_memory_cong:
  assumes "same_memory m1 old m2 new n" "\<And>va. leaf m1 old va = leaf m old va" "\<And>va. leaf m3 new va = leaf m2 new va"
    "\<And>va. unat va < 4096 * n \<Longrightarrow> uok m old va \<Longrightarrow> m1 (upa m old va) = m (upa m old va)"
    "\<And>va. unat va < 4096 * n \<Longrightarrow> uok m2 new va \<Longrightarrow> m3 (upa m2 new va) = m2 (upa m2 new va)"
  shows "same_memory m old m3 new n"
  using assms(1) unfolding same_memory_def upa_cong(1,2)[OF assms(2)] upa_cong(1,2)[OF assms(3)] assms(2,3)
  using assms(4,5) by auto

lemma own_frames_cong:
  assumes "own_frames m new n P" "\<And>va. leaf m' new va = leaf m new va" "P \<subseteq> Q"
  shows "own_frames m' new n Q"
  using assms(1) unfolding own_frames_def upa_cong(2,3)[OF assms(2)] using assms(3) by blast


text \<open>What \<open>fork\<close> promises of the child \<open>c\<close> in the new state.\<close>

definition forked :: "'a kfile_scheme \<Rightarrow> proc \<Rightarrow> proc \<Rightarrow> 'a kfile_scheme \<Rightarrow> proc \<Rightarrow> bool" where
  "forked s p q s' c \<longleftrightarrow>
     pstate c = RUNNABLE \<and> pid c = PID s \<and> parent c = Some (curr_proc s) \<and> psz c = psz p \<and>
     trapframe c = trapframe q \<and> kstack c = kstack q \<and>
     files c = shared (filepool s) (files p) 0 16 (files q) \<and>
     leaf (mem s') (pagetable c) TRAPFRAME = PA2PTE (trapframe q) OR 6 OR 1 \<and>
     leaf (mem s') (pagetable c) TRAMPOLINE = PA2PTE (trampoline s) OR 10 OR 1 \<and>
     (\<forall>k<36. load64 (mem s') (trapframe c + 8 * of_nat k) =
        (if k = 14 then 0 else load64 (mem s) (trapframe p + 8 * of_nat k)))"

lemma forkableD:
  assumes "forkable s fps p q"
  shows "psz p \<le> TRAPFRAME" "3 * page_count (psz p) + 5 \<le> length fps"
    "aligned (trapframe q)" "aligned (kstack q)" "slot_pages q \<inter> set fps = {}"
    "aligned (trapframe p)" "trapframe p \<notin> slot_pages q \<union> set fps"
    "pt_wf (mem s) (pagetable p)" "pt_pages (mem s) (pagetable p) \<inter> (slot_pages q \<union> set fps) = {}"
    "i < page_count (psz p) \<Longrightarrow> unmappable (mem s) (pagetable p) (ustep 0 i)"
    "i < page_count (psz p) \<Longrightarrow> page_ok (ekernel s) (PTE2PA (leaf (mem s) (pagetable p) (ustep 0 i)))"
    "i < page_count (psz p) \<Longrightarrow> PTE2PA (leaf (mem s) (pagetable p) (ustep 0 i)) \<notin> slot_pages q \<union> set fps"
    "\<forall>j<16. \<forall>f. files p ! j = Some f \<longrightarrow> f < length (filepool s)" "trapframe q \<noteq> kstack q"
  using assms unfolding forkable_def Let_def by blast+

text \<open>The copy of the parent's memory, in the state where the child has its bare table.\<close>

lemma fork_copy:
  assumes F: "forkable s fps p q" and kw: "kmem_wf s fps"
    and a: "vm_inv s1 root fps1" "bare_table (mem s1) root (trampoline s) (trapframe q)"
      "pt_pages (mem s1) root \<union> set fps1 = set fps" "length fps \<le> length fps1 + 5"
      "same_off (slot_pages q \<union> set fps) (mem s) (mem s1)" "ekernel s1 = ekernel s"
  obtains s2 fps2 where "uvmcopy (pagetable p) root (psz p) s1 = Inr (0, s2)" "mem_only s1 s2"
    "full_table s2 root fps2 (page_count (psz p))" "space_pages (mem s2) root (page_count (psz p)) \<union> set fps2 = set fps"
    "same_memory (mem s) (pagetable p) (mem s2) root (page_count (psz p))"
    "own_frames (mem s2) root (page_count (psz p)) (set fps - set fps2)"
    "leaf (mem s2) root TRAPFRAME = PA2PTE (trapframe q) OR 6 OR 1"
    "leaf (mem s2) root TRAMPOLINE = PA2PTE (trampoline s) OR 10 OR 1"
    "same_off (slot_pages q \<union> set fps) (mem s) (mem s2)"
proof -
  note f = forkableD[OF F]
  have sub: "pt_pages (mem s1) root \<subseteq> set fps" "set fps1 \<subseteq> set fps" using a(3) by blast+
  let ?n = "page_count (psz p)" and ?old = "pagetable p"
  have nd: "(slot_pages q \<union> set fps) \<inter> pt_pages (mem s) ?old = {}" using f(9) by blast
  note old = pt_wf_same_off[OF f(8) a(5) nd] pt_pages_same_off[OF f(8) a(5) nd] leaf_same_off[OF f(8) a(5) nd]
  have szn: "unat (psz p) \<le> 274877898752" using f(1) by (simp add: word_le_nat_alt TRAPFRAME_page(3))
  then have n: "4096 * ?n \<le> unat TRAPFRAME" by (simp add: page_count_def TRAPFRAME_page(3))
  have sz: "psz p \<le> MAXVA" using szn by (simp add: word_le_nat_alt unat_MAXVA)
  have c: "copyable s1 ?old root fps1 ?n"
    unfolding copyable_def Let_def old(2,3) a(6)
  proof (intro conjI allI impI old(1))
    show "pt_pages (mem s) ?old \<inter> (pt_pages (mem s1) root \<union> set fps1) = {}" using f(9) sub by blast
    show "PTE2PA (leaf (mem s) ?old (ustep 0 i)) \<notin> pt_pages (mem s1) root \<union> set fps1" if "i < ?n" for i
      using f(12)[OF that] sub by blast
    show "leaf (mem s) ?old (ustep 0 i) AND 1 \<noteq> 0" if "i < ?n" for i using f(10)[OF that] by (simp add: unmappable_def)
  qed (use f(11) in blast)
  have len: "3 * ?n \<le> length fps1" using f(2) a(4) by simp
  obtain s2 fps2 where u: "uvmcopy ?old root (psz p) s1 = Inr (0, s2)" "vm_inv s2 root fps2" "set fps2 \<subseteq> set fps1"
    "mem_only s1 s2" "same_memory (mem s1) ?old (mem s2) root ?n" "own_frames (mem s2) root ?n (set fps1 - set fps2)"
    "\<And>va. va < MAXVA \<Longrightarrow> 4096 * ?n \<le> unat va \<Longrightarrow> leaf (mem s2) root va = leaf (mem s1) root va"
    "releasable s2 root fps2 (uframe_list (mem s2) root 0 ?n)"
    "space_pages (mem s2) root ?n \<union> set fps2 = pt_pages (mem s1) root \<union> set fps1"
    "same_off (pt_pages (mem s1) root \<union> set fps1) (mem s1) (mem s2)"
    using uvmcopy_ok[OF a(1) c sz unmapped_bare[OF a(2) n] len] by blast
  have ext: "same_off (slot_pages q \<union> set fps) (mem s) (mem s2)"
    by (rule same_off_trans[OF a(5) u(10)]) (use sub in auto)
  have keep: "mem s1 (upa (mem s) ?old va) = mem s (upa (mem s) ?old va)"
    if va: "unat va < 4096 * ?n" "uok (mem s) ?old va" for va
  proof -
    have n': "unat 0 + 4096 * ?n \<le> unat MAXVA" using n by (simp add: TRAPFRAME_page(3) unat_MAXVA)
    obtain i where i: "i < ?n" "PGROUNDDOWN va = ustep 0 i"
      by (rule run_page[OF aligned_0 n', of va]) (use va(1) in auto)
    have "upage (mem s) ?old (ustep 0 i) \<in> {0, PTE2PA (leaf (mem s) ?old (ustep 0 i))}" by (simp add: upage_def)
    then have "upage (mem s) ?old (PGROUNDDOWN va) = PTE2PA (leaf (mem s) ?old (ustep 0 i))"
      using va(2) i(2) by (auto simp: uok_def)
    then show ?thesis using f(12)[OF i(1)] by (intro same_offD[OF a(5)]) (simp add: page_upa)
  qed
  have same: "same_memory (mem s) ?old (mem s2) root ?n"
    by (rule same_memory_cong[OF u(5) old(3) refl keep refl])
  have own: "own_frames (mem s2) root ?n (set fps - set fps2)"
    by (rule own_frames_cong[OF u(6) refl]) (use sub(2) in auto)
  have top: "leaf (mem s2) root va = leaf (mem s1) root va" if "va = TRAPFRAME \<or> va = TRAMPOLINE" for va
    using that n TRAPFRAME_page TRAMPOLINE_page by (intro u(7)) auto
  have B: "leaf (mem s1) root va = (if PGROUNDDOWN va = TRAPFRAME then PA2PTE (trapframe q) OR 6 OR 1
      else if PGROUNDDOWN va = TRAMPOLINE then PA2PTE (trampoline s) OR 10 OR 1 else 0)" if "va < MAXVA" for va
    using a(2) that unfolding bare_table_def by blast
  have T: "leaf (mem s2) root TRAPFRAME = PA2PTE (trapframe q) OR 6 OR 1"
    using top B[OF TRAPFRAME_page(2)] by (simp add: PGROUNDDOWN_aligned[OF TRAPFRAME_page(1)])
  have T': "leaf (mem s2) root TRAMPOLINE = PA2PTE (trampoline s) OR 10 OR 1"
    using top B[OF TRAMPOLINE_page(2)] TRAPFRAME_page(4)
    by (simp add: PGROUNDDOWN_aligned[OF TRAMPOLINE_page(1)])
  have acc: "space_pages (mem s2) root ?n \<union> set fps2 = set fps" using u(9) a(3) by simp
  have ek: "ekernel s2 = ekernel s" using u(4) a(6) by (simp add: mem_only_def)
  have "full_table s2 root fps2 ?n"
  proof (rule full_tableI[OF u(2) _ _ T T' _ u(8)])
    show "pt_pages (mem s2) root \<subseteq> set fps" using acc by (auto simp: space_pages_def)
    show "\<forall>a \<in> set fps. page_ok (ekernel s2) a" using kw ek by (simp add: kmem_wf_def)
    show "\<forall>i<?n. unmappable (mem s2) root (ustep 0 i)"
    proof (intro allI impI)
      fix i assume i: "i < ?n"
      have "unat (ustep 0 i) < 4096 * ?n" using i n ustep_base[OF i] by (simp add: TRAPFRAME_page(3) unat_MAXVA)
      then have "PTE_FLAGS (leaf (mem s2) root (ustep 0 i)) = PTE_FLAGS (leaf (mem s) ?old (ustep 0 i))"
        using same by (simp add: same_memory_def)
      then show "unmappable (mem s2) root (ustep 0 i)"
        using f(10)[OF i] by (metis unmappable_def flags_and(1))
    qed
    show "leaf (mem s2) root va AND 1 = 0"
      if "va < MAXVA" "4096 * ?n \<le> unat va" "PGROUNDDOWN va \<noteq> TRAMPOLINE" "PGROUNDDOWN va \<noteq> TRAPFRAME" for va
      using u(7)[OF that(1,2)] B[OF that(1)] that(3,4) by simp
  qed
  from that[OF u(1,4) this acc same own T T' ext] show thesis .
qed


lemma fork_ok:
  assumes kw: "kmem_wf s fps" and i: "find_idx (\<lambda>p. pstate p = UNUSED) (pool s) = Some i"
    and cur: "pstate (cproc s) \<noteq> UNUSED" and F: "forkable s fps (cproc s) (pool s ! i)"
  shows "\<exists>s' fps' c. fork s = Inr (PID s, s') \<and> pool s' = (pool s)[i := c] \<and> idle s' = idle s \<and>
    curr_proc s' = curr_proc s \<and> e_text s' = e_text s \<and>
    filepool s' = counted (filepool s) (files (cproc s)) 0 16 \<and>
    forked s (cproc s) (pool s ! i) s' c \<and> full_table s' (pagetable c) fps' (page_count (psz c)) \<and>
    space_pages (mem s') (pagetable c) (page_count (psz c)) \<union> set fps' = set fps \<and>
    same_memory (mem s) (pagetable (cproc s)) (mem s') (pagetable c) (page_count (psz (cproc s))) \<and>
    own_frames (mem s') (pagetable c) (page_count (psz (cproc s))) (set fps - set fps') \<and>
    same_off (slot_pages (pool s ! i) \<union> set fps) (mem s) (mem s')"
proof -
  let ?r = "curr_proc s" and ?q = "pool s ! i"
  define p where "p = cproc s"
  note f = forkableD[OF F[folded p_def]]
  have il: "i < length (pool s)" "pstate ?q = UNUSED" using i by (simp_all add: find_idx_Some)
  have rne: "?r \<noteq> Pool i" using cur il by (auto simp: proc_at_def)
  have len5: "5 \<le> length fps" using f(2) by simp
  obtain root s1 fps1 where a: "allocproc s = Inr (Some i, s1)" "root \<noteq> 0" "vm_inv s1 root fps1"
    "bare_table (mem s1) root (trampoline s) (trapframe ?q)"
    "pt_pages (mem s1) root \<union> set fps1 = set fps" "length fps \<le> length fps1 + 5"
    "same_off (slot_pages ?q \<union> set fps) (mem s) (mem s1)"
    "pool s1 = (pool s)[i := new_proc ?q (PID s) root (usertrapret s)]"
    "idle s1 = idle s" "curr_proc s1 = ?r" "ekernel s1 = ekernel s" "PID s1 = PID s + 1"
    "kproc.more s1 = kproc.more s" "filled (mem s1) (trapframe ?q) 0" "e_text s1 = e_text s"
    by (rule allocproc_ok[OF kw len5 i f(3,4,5,14)]) (rule that; assumption)
  obtain s2 fps2 where u: "uvmcopy (pagetable p) root (psz p) s1 = Inr (0, s2)" "mem_only s1 s2"
    "full_table s2 root fps2 (page_count (psz p))" "space_pages (mem s2) root (page_count (psz p)) \<union> set fps2 = set fps"
    "same_memory (mem s) (pagetable p) (mem s2) root (page_count (psz p))"
    "own_frames (mem s2) root (page_count (psz p)) (set fps - set fps2)"
    "leaf (mem s2) root TRAPFRAME = PA2PTE (trapframe ?q) OR 6 OR 1"
    "leaf (mem s2) root TRAMPOLINE = PA2PTE (trampoline s) OR 10 OR 1"
    "same_off (slot_pages ?q \<union> set fps) (mem s) (mem s2)"
    by (rule fork_copy[OF F[folded p_def] kw a(3-7,11)]) (rule that; assumption)
  note m = mem_only_fields[OF u(2)] mem_only_curr_proc[OF u(2)]
  let ?c = "new_proc ?q (PID s) root (usertrapret s)"
  let ?tf = "trapframe ?q"
  have p1: "proc_at s1 ?r = p" "proc_at s2 ?r = p"
    using a(8,9) m(1,2) rne by (cases ?r; simp add: p_def proc_at_def nth_list_update)+
  have fp: "filepool s2 = filepool s"
    by (rule filepool_more) (use mem_only_more[OF u(2)] a(13) in simp)
  have pl: "pool s2 = (pool s)[i := ?c]" "i < length (pool s)" using m(1) a(8) il by simp_all
  define M where "M = store64 (wr (mem s2) ?tf (rd (mem s2) (trapframe p) 288)) (?tf + 112) 0"
  define c where "c = ?c\<lparr>psz := psz p, files := shared (filepool s) (files p) 0 16 (files ?q),
    parent := Some ?r, pstate := RUNNABLE\<rparr>"
  define s' where "s' = s2\<lparr>mem := M, filepool := counted (filepool s) (files p) 0 16, pool := (pool s)[i := c]\<rparr>"
  have d: "dup_loop 16 0 ?r (Pool i) (s2\<lparr>pool := (pool s)[i := ?c\<lparr>psz := psz p\<rparr>], mem := m0\<rparr>) =
    s2\<lparr>filepool := counted (filepool s) (files p) 0 16, mem := m0,
      pool := (pool s)[i := ?c\<lparr>psz := psz p, files := shared (filepool s) (files p) 0 16 (files ?q)\<rparr>]\<rparr>" for m0
  proof -
    let ?s = "s2\<lparr>pool := (pool s)[i := ?c\<lparr>psz := psz p\<rparr>], mem := m0\<rparr>"
    have q: "proc_at ?s ?r = p"
      using p1(2) pl(1) rne by (cases ?r) (simp_all add: p_def proc_at_def nth_list_update)
    have qi: "pool ?s ! i = ?c\<lparr>psz := psz p\<rparr>" using pl(2) by simp
    have k: "i < length (pool ?s)" using pl(2) by simp
    have fb: "\<forall>j<0 + 16. \<forall>f. files (proc_at ?s ?r) ! j = Some f \<longrightarrow> f < length (filepool ?s)"
      using f(13) fp unfolding q by simp
    show ?thesis
      unfolding dup_loop_ok[OF rne k fb] q qi using fp by (simp add: new_proc_def)
  qed
  have c0: "pool s1 ! i = ?c" "pool s2 ! i = ?c" "pagetable ?c = root" "pid ?c = PID s" "trapframe ?c = ?tf"
    using a(8) pl by (simp_all add: new_proc_def)
  have pr: "proc_at (s2\<lparr>pool := (pool s)[i := x]\<rparr>) ?r = p" for x
    using p1(2) pl(1) rne by (cases ?r) (simp_all add: p_def proc_at_def nth_list_update)
  have pu: "psz (proc_at s1 ?r) = psz p" "pagetable (proc_at s1 ?r) = pagetable p" using p1 by simp_all
  have fork: "fork s = Inr (PID s, s')"
    unfolding fork_def Let_def a(1) bindE.simps prod.case option.case a(10) proc_at_Pool c0 pu u(1)
    using c0 pl p1(2) pr
    by (simp add: set_proc_Pool d set_tf_def s'_def M_def c_def)
  have M: "same_off {?tf} (mem s2) M"
  proof -
    have "same_off {?tf} (wr (mem s2) ?tf (rd (mem s2) (trapframe p) 288)) M"
      unfolding M_def using store64_same_off[OF f(3), of 112] by simp
    then show ?thesis by (rule same_off_trans[OF wr_same_off0[OF f(3)], rotated]) simp_all
  qed
  have tfn: "?tf \<in> slot_pages ?q" "?tf \<notin> set fps" using f(5) by (auto simp: slot_pages_def)
  have nd: "{?tf} \<inter> (pt_pages (mem s2) root \<union> set fps2) = {}" using tfn u(4) by (auto simp: space_pages_def)
  have inv2: "vm_inv s2 root fps2" using u(3) by (simp add: full_table_def)
  have v1: "full_table s' root fps2 (page_count (psz p))" "space_pages (mem s') root (page_count (psz p)) \<union> set fps2 = set fps"
    using full_table_same_off[OF u(3) _ nd, of s'] M u(4) by (simp_all add: s'_def)
  have v: "vm_inv s' root fps2" "\<And>va. leaf (mem s') root va = leaf (mem s2) root va"
    using vm_inv_same_off[OF inv2 _ nd, of s'] M by (simp_all add: s'_def)
  have keep: "mem s' (upa (mem s2) root va) = mem s2 (upa (mem s2) root va)"
    if "unat va < 4096 * page_count (psz p)" "uok (mem s2) root va" for va
  proof -
    have "upage (mem s2) root (PGROUNDDOWN va) \<in> set fps" using u(6) that unfolding own_frames_def by blast
    then have "PGROUNDDOWN (upa (mem s2) root va) \<notin> {?tf}" using tfn by (auto simp: page_upa)
    then show ?thesis using same_offD[OF M] by (simp add: s'_def)
  qed
  have same: "same_memory (mem s) (pagetable p) (mem s') root (page_count (psz p))"
    by (rule same_memory_cong[OF u(5) refl v(2) refl keep])
  have own: "own_frames (mem s') root (page_count (psz p)) (set fps - set fps2)"
    by (rule own_frames_cong[OF u(6) v(2)]) simp
  have off: "same_off (slot_pages ?q \<union> set fps) (mem s) (mem s')"
    by (rule same_off_trans[OF u(9), of "{?tf}"]) (use M tfn in \<open>auto simp: s'_def\<close>)
  have words: "load64 (mem s') (?tf + 8 * of_nat k) = (if k = 14 then 0 else load64 (mem s) (trapframe p + 8 * of_nat k))"
    if k: "k < 36" for k
  proof -
    have "load64 (mem s2) (trapframe p + of_nat (8 * k)) = load64 (mem s) (trapframe p + of_nat (8 * k))"
      using k by (intro load64_same_off[OF u(9) f(6,7)]) simp
    then show ?thesis using copy_words[OF k f(3), of "mem s2" "trapframe p" 0] by (simp add: s'_def M_def)
  qed
  have c: "pagetable c = root" "psz c = psz p" "idle s' = idle s" "curr_proc s' = ?r" "pool s' = (pool s)[i := c]"
    "filepool s' = counted (filepool s) (files p) 0 16" "e_text s' = e_text s"
    using m a(9,10,15) by (simp_all add: c_def s'_def new_proc_def curr_proc_def)
  have "forked s p ?q s' c"
    unfolding forked_def c(1) using words v(2) u(7,8) by (simp add: c_def new_proc_def)
  then show ?thesis
    unfolding p_def[symmetric] using fork c v1 same own off
    by (intro exI[of _ s'] exI[of _ fps2] exI[of _ c]) simp
qed

end
