(* ===== verification/FreeSpace.thy ===== *)
theory FreeSpace
  imports FreeWalk ProcMemory
begin

text \<open>
  Releasing the address space of a process, \<open>proc_freepagetable\<close> of \<open>kernel/proc.c\<close>: with \<open>exit\<close> and
  \<open>exec\<close> everything the process had goes back to the allocator.
\<close>

section \<open>Unmapping\<close>

lemma clear_one:
  assumes "aligned a" "unat a + 4096 < 2 ^ 64"
  shows "clear_range a (Suc 0) lf va = (if PGROUNDDOWN va = a then 0 else lf va)"
  using clear_range_Suc[OF assms(1), of 0 lf va] assms(2) by (simp add: clear_range_def)

lemma clear_low: "clear_range 0 n lf va = (if unat va < 4096 * n then 0 else lf va)"
proof -
  have "unat va div 4096 * 4096 < 4096 * n \<longleftrightarrow> unat va < 4096 * n"
    by (metis div_less_iff_less_mult mult.commute nat_mult_less_cancel_disj zero_less_numeral)
  then show ?thesis by (simp add: clear_range_def unat_PGROUNDDOWN)
qed

text \<open>One page of the kernel's, which is not freed.\<close>

lemma uvmunmap_kept:
  assumes inv: "vm_inv s root fps" and a: "aligned a" "a < MAXVA" and u: "unmappable (mem s) root a"
  obtains s' where "uvmunmap root a 1 False s = Inr s'" "vm_inv s' root fps" "ekernel s' = ekernel s"
    "pt_pages (mem s') root = pt_pages (mem s) root" "same_off (pt_pages (mem s) root) (mem s) (mem s')"
    "\<And>va. va < MAXVA \<Longrightarrow> leaf (mem s') root va = (if PGROUNDDOWN va = a then 0 else leaf (mem s) root va)"
proof -
  have b: "unat a + 4096 \<le> unat MAXVA"
  proof -
    obtain q where "unat a = 4096 * q" using a(1) by (auto simp: aligned_unat)
    then show ?thesis using a(2) by (simp add: word_less_nat_alt unat_MAXVA)
  qed
  have b': "unat a + 4096 < 2 ^ 64" using b by (simp add: unat_MAXVA)
  have "\<exists>s'. uvmunmap root a 1 False s = Inr s' \<and>
    vm_inv s' root ((if False then rev (uframe_list (mem s) root a (unat (1 :: u64))) else []) @ fps) \<and>
    pt_pages (mem s') root = pt_pages (mem s) root \<and> ekernel s' = ekernel s \<and>
    (\<forall>v<MAXVA. leaf (mem s') root v = clear_range a (unat (1 :: u64)) (leaf (mem s) root) v) \<and>
    same_off (pt_pages (mem s) root \<union> (if False then set (uframe_list (mem s) root a (unat (1 :: u64))) else {})) (mem s) (mem s')"
    by (rule uvmunmap_ok[OF inv a(1)]) (use b u in simp_all)
  then show thesis using that clear_one[OF a(1) b'] by auto
qed

section \<open>The address space\<close>

lemma released_I: "vm_inv s root fps' \<Longrightarrow> set fps' = P \<union> set fps \<Longrightarrow> mem_only t s \<Longrightarrow> released t fps P s fps'"
  by (simp add: released_def vm_inv_def)

lemma uvmfree_ok:
  assumes inv: "vm_inv s root fps" and ok: "\<forall>a \<in> pt_pages (mem s) root. page_ok (ekernel s) a"
    and un: "\<forall>i<page_count sz. unmappable (mem s) root (ustep 0 i)"
    and rel: "releasable s root fps (uframe_list (mem s) root 0 (page_count sz))"
    and none: "\<And>va. va < MAXVA \<Longrightarrow> 4096 * page_count sz \<le> unat va \<Longrightarrow> leaf (mem s) root va AND 1 = 0"
    and sz: "sz \<le> TRAPFRAME"
  shows "\<exists>s' fps'. uvmfree root sz s = Inr s' \<and> released s fps (space_pages (mem s) root (page_count sz)) s' fps' \<and>
    same_off (space_pages (mem s) root (page_count sz)) (mem s) (mem s')"
proof -
  let ?n = "page_count sz" and ?w = "PGROUNDUP sz div PGSIZE" and ?fs = "uframe_list (mem s) root 0 (page_count sz)"
  have szn: "unat sz \<le> 274877898752" using sz by (simp add: word_le_nat_alt TRAPFRAME_page(3))
  have w: "unat ?w = ?n"
  proof -
    have "unat sz + 4095 < 2 ^ 64" using szn by simp
    then have "unat (PGROUNDUP sz) = (unat sz + 4095) div 4096 * 4096" by (simp add: unat_PGROUNDUP)
    then show ?thesis by (simp add: unat_div page_count_def)
  qed
  obtain s1 where s1: "(if sz > 0 then uvmunmap root 0 ?w True s else Inr s) = Inr s1"
    "vm_inv s1 root (rev ?fs @ fps)" "pt_pages (mem s1) root = pt_pages (mem s) root" "ekernel s1 = ekernel s"
    "\<And>va. va < MAXVA \<Longrightarrow> leaf (mem s1) root va = (if unat va < 4096 * ?n then 0 else leaf (mem s) root va)"
    "same_off (pt_pages (mem s) root \<union> set ?fs) (mem s) (mem s1)" "mem_only s s1"
  proof (cases "sz > 0")
    case False
    then have "sz = 0" by (simp add: not_less)
    then have "?n = 0" by (simp add: page_count_def)
    then have "?fs = []" by (simp add: uframe_list_def)
    then show thesis using that[of s] False inv \<open>?n = 0\<close> by simp
  next
    case True
    have "\<exists>s'. uvmunmap root 0 ?w True s = Inr s' \<and>
      vm_inv s' root ((if True then rev (uframe_list (mem s) root 0 (unat ?w)) else []) @ fps) \<and>
      pt_pages (mem s') root = pt_pages (mem s) root \<and> ekernel s' = ekernel s \<and>
      (\<forall>v<MAXVA. leaf (mem s') root v = clear_range 0 (unat ?w) (leaf (mem s) root) v) \<and>
      same_off (pt_pages (mem s) root \<union> (if True then set (uframe_list (mem s) root 0 (unat ?w)) else {})) (mem s) (mem s')"
    proof (rule uvmunmap_ok[OF inv aligned_0])
      show "unat (0 :: u64) + 4096 * unat ?w \<le> unat MAXVA" unfolding w using szn by (simp add: page_count_def unat_MAXVA)
      show "\<forall>i<unat ?w. unmappable (mem s) root (ustep 0 i)" unfolding w by (rule un)
      show "releasable s root fps (uframe_list (mem s) root 0 (unat ?w))" unfolding w by (rule rel)
    qed
    then show thesis unfolding w clear_low if_True using that True by (auto dest: uvmunmap_mem_only)
  qed
  have none1: "leaf (mem s1) root va AND 1 = 0" if "va < MAXVA" for va
    using s1(5)[OF that] none[OF that] by (auto simp: not_less)
  obtain s' fps' where f: "freewalk 2 root s1 = Inr s'" "released s1 (rev ?fs @ fps) (pt_pages (mem s1) root) s' fps'"
    "same_off (pt_pages (mem s1) root) (mem s1) (mem s')"
    using freewalk_tables[OF s1(2) none1] ok unfolding s1(3,4) by blast
  have "released s fps (set ?fs) s1 (rev ?fs @ fps)" by (rule released_I[OF s1(2) _ s1(7)]) simp
  from released_trans[OF this f(2)] have "released s fps (space_pages (mem s) root ?n) s' fps'"
    unfolding s1(3) space_pages_def by (simp add: Un_commute)
  moreover have "same_off (space_pages (mem s) root ?n) (mem s) (mem s')"
    by (rule same_off_trans[OF s1(6) f(3)]) (auto simp: s1(3) space_pages_def)
  moreover have "uvmfree root sz s = Inr s'" using s1(1) f(1) by (simp add: uvmfree_def)
  ultimately show ?thesis by blast
qed

lemma proc_freepagetable_ok:
  assumes F: "full_table s root fps (page_count sz)" and sz: "sz \<le> TRAPFRAME"
  shows "\<exists>s' fps'. proc_freepagetable root sz s = Inr s' \<and>
    released s fps (space_pages (mem s) root (page_count sz)) s' fps' \<and>
    same_off (space_pages (mem s) root (page_count sz)) (mem s) (mem s')"
proof -
  let ?n = "page_count sz"
  have f: "vm_inv s root fps" "\<forall>a \<in> pt_pages (mem s) root. page_ok (ekernel s) a"
    "unmappable (mem s) root TRAMPOLINE" "unmappable (mem s) root TRAPFRAME"
    "\<forall>i<?n. unmappable (mem s) root (ustep 0 i)" "releasable s root fps (uframe_list (mem s) root 0 ?n)"
    "\<And>va. va < MAXVA \<Longrightarrow> leaf (mem s) root va AND 1 \<noteq> 0 \<Longrightarrow>
        PGROUNDDOWN va = TRAMPOLINE \<or> PGROUNDDOWN va = TRAPFRAME \<or> unat va < 4096 * ?n"
    using F unfolding full_table_def by blast+
  have szn: "unat sz \<le> 274877898752" using sz by (simp add: word_le_nat_alt TRAPFRAME_page(3))
  have n: "4096 * ?n \<le> unat TRAPFRAME" using szn by (simp add: page_count_def TRAPFRAME_page(3))
  have nM: "4096 * ?n \<le> unat MAXVA" using n by (simp add: TRAPFRAME_page(3) unat_MAXVA)
  obtain s1 where a: "uvmunmap root TRAMPOLINE 1 False s = Inr s1" "vm_inv s1 root fps" "ekernel s1 = ekernel s"
    "pt_pages (mem s1) root = pt_pages (mem s) root" "same_off (pt_pages (mem s) root) (mem s) (mem s1)"
    "\<And>va. va < MAXVA \<Longrightarrow> leaf (mem s1) root va = (if PGROUNDDOWN va = TRAMPOLINE then 0 else leaf (mem s) root va)"
    by (rule uvmunmap_kept[OF f(1) TRAMPOLINE_page(1,2) f(3)]) (rule that; assumption)
  have "unmappable (mem s1) root TRAPFRAME"
    using f(4) a(6)[OF TRAPFRAME_page(2)] TRAPFRAME_page(4) by (simp add: unmappable_def PGROUNDDOWN_aligned TRAPFRAME_page(1))
  then obtain s2 where b: "uvmunmap root TRAPFRAME 1 False s1 = Inr s2" "vm_inv s2 root fps" "ekernel s2 = ekernel s1"
    "pt_pages (mem s2) root = pt_pages (mem s1) root" "same_off (pt_pages (mem s1) root) (mem s1) (mem s2)"
    "\<And>va. va < MAXVA \<Longrightarrow> leaf (mem s2) root va = (if PGROUNDDOWN va = TRAPFRAME then 0 else leaf (mem s1) root va)"
    by (rule uvmunmap_kept[OF a(2) TRAPFRAME_page(1,2)]) (rule that; assumption)
  have lf: "leaf (mem s2) root (ustep 0 i) = leaf (mem s) root (ustep 0 i)" if i: "i < ?n" for i
  proof -
    have n0: "unat 0 + 4096 * ?n \<le> unat MAXVA" using nM by simp
    note u = ustep_page[OF aligned_0 n0 i]
    have "unat (ustep 0 i) < unat TRAPFRAME" using u(4) i n by simp
    then have "ustep 0 i \<noteq> TRAPFRAME" "ustep 0 i \<noteq> TRAMPOLINE" using TRAPFRAME_page(3) TRAMPOLINE_page(3) by auto
    then show ?thesis using a(6)[OF u(1)] b(6)[OF u(1)] u(3) by simp
  qed
  have fl: "uframe_list (mem s2) root 0 ?n = uframe_list (mem s) root 0 ?n" by (rule uframe_list_cong[OF lf])
  note pp = b(4)[unfolded a(4)] and ek = b(3)[unfolded a(3)]
  have none: "leaf (mem s2) root va AND 1 = 0" if "va < MAXVA" "4096 * ?n \<le> unat va" for va
    using a(6)[OF that(1)] b(6)[OF that(1)] f(7)[OF that(1)] that(2) by (auto simp: not_less)
  have rl: "releasable s2 root fps (uframe_list (mem s2) root 0 ?n)"
    using f(6) unfolding fl releasable_def pp ek .
  have un: "\<forall>i<?n. unmappable (mem s2) root (ustep 0 i)" using f(5) lf by (simp add: unmappable_def)
  have ok: "\<forall>a \<in> pt_pages (mem s2) root. page_ok (ekernel s2) a" using f(2) unfolding pp ek .
  obtain s' fps' where c: "uvmfree root sz s2 = Inr s'" "released s2 fps (space_pages (mem s2) root ?n) s' fps'"
    "same_off (space_pages (mem s2) root ?n) (mem s2) (mem s')"
    using uvmfree_ok[OF b(2) ok un rl none sz] by blast
  have sp: "space_pages (mem s2) root ?n = space_pages (mem s) root ?n" by (simp add: space_pages_def fl pp)
  have mo: "mem_only s s2"
    using mem_only_trans[OF uvmunmap_mem_only[OF a(1)] uvmunmap_mem_only[OF b(1)]] .
  have r: "released s fps (space_pages (mem s) root ?n) s' fps'"
    using c(2) mo unfolding sp by (simp add: released_def mem_only_def)
  have "same_off (pt_pages (mem s) root) (mem s) (mem s2)"
    by (rule same_off_trans[OF a(5) b(5)]) (simp add: a(4))
  then have "same_off (space_pages (mem s) root ?n) (mem s) (mem s')"
    by (rule same_off_trans[OF _ c(3)[unfolded sp]]) (auto simp: space_pages_def)
  then show ?thesis using a(1) b(1) c(1) r by (auto simp: proc_freepagetable_def)
qed

end
