(* ===== verification/ProcImage.thy ===== *)
theory ProcImage
  imports ProcMemory
begin

text \<open>
  The image of a program in the memory of a process: \<open>bin_loader\<close> and \<open>alloc_ustack\<close> of
  \<open>kernel/loader.c\<close>, and \<open>spawn\<close> of \<open>kernel/proc.c\<close>, which gives it to a new process.
\<close>

section \<open>The image\<close>

text \<open>
  The program, \<open>n\<close> pages from \<open>b\<close> on, is at \<open>BASE_ADDRESS\<close>, and below it a cleared page for the stack.
\<close>

definition image_at :: "bmem \<Rightarrow> u64 \<Rightarrow> bmem \<Rightarrow> u64 \<Rightarrow> nat \<Rightarrow> bool" where
  "image_at m' root m b n \<longleftrightarrow>
     (\<forall>k<4096 * n. uok m' root (BASE_ADDRESS + of_nat k) \<and> m' (upa m' root (BASE_ADDRESS + of_nat k)) = m (b + of_nat k)) \<and>
     (\<forall>k<4096. uok m' root (of_nat k) \<and> m' (upa m' root (of_nat k)) = 0)"

text \<open>A user page as the loader maps it, with frame \<open>f\<close>.\<close>

definition user_page :: "bmem \<Rightarrow> u64 \<Rightarrow> u64 \<Rightarrow> u64 \<Rightarrow> bool" where
  "user_page m root a f \<longleftrightarrow> leaf m root a = PA2PTE f OR 30 OR 1 \<and> aligned f \<and> f \<noteq> 0 \<and> unat f < 2 ^ 54"

lemma user_page_view:
  assumes u: "user_page m root a f" and a: "aligned a" "a < MAXVA" and k: "k < 4096"
  shows "uok m root (a + of_nat k)" "upa m root (a + of_nat k) = f + of_nat k"
proof -
  note U = u[unfolded user_page_def]
  have b: "bit (30 :: u64) 4" by (simp add: bit_numeral_rec)
  have f: "aligned f" "unat f < 2 ^ 54" "f \<noteq> 0" and l: "leaf m root a = PA2PTE f OR 30 OR 1" using U by auto
  note pb = PTE_bits[OF b f(1,2), simplified]
  have up: "upage m root a = f" unfolding upage_def l using pb a(2) by simp
  have pg: "PGROUNDDOWN (a + of_nat k) = a" by (rule page_of_offset[OF a(1) k])
  show "uok m root (a + of_nat k)" using up f(3) by (simp add: uok_def pg)
  show "upa m root (a + of_nat k) = f + of_nat k" by (simp add: upa_def pg up)
qed

lemma image_atI:
  assumes n: "4096 * Suc n \<le> unat MAXVA"
    and prog: "\<And>i. i < n \<Longrightarrow> user_page m' root (ustep BASE_ADDRESS i) (fr i)"
      "\<And>i. i < n \<Longrightarrow> rd m' (fr i) 4096 = rd m (ustep b i) 4096"
    and stack: "user_page m' root 0 f" "filled m' f 0"
  shows "image_at m' root m b n"
proof -
  have n': "unat BASE_ADDRESS + 4096 * n \<le> unat MAXVA" using n by (simp add: BASE_ADDRESS_def)
  have al: "aligned BASE_ADDRESS" by (simp add: BASE_ADDRESS_def aligned_def)
  show ?thesis
    unfolding image_at_def
  proof (intro conjI allI impI)
    fix k assume k: "k < 4096 * n"
    define i j where "i = k div 4096" and "j = k mod 4096"
    have i: "i < n" using k by (simp add: i_def less_mult_imp_div_less mult.commute)
    have j: "j < 4096" and kij: "k = 4096 * i + j" by (simp_all add: i_def j_def)
    have s: "x + of_nat k = ustep x i + of_nat j" for x by (simp add: kij ustep_def)
    note pv = user_page_view[OF prog(1)[OF i] ustep_page(2,1)[OF al n' i] j]
    show "uok m' root (BASE_ADDRESS + of_nat k)" unfolding s by (rule pv(1))
    show "m' (upa m' root (BASE_ADDRESS + of_nat k)) = m (b + of_nat k)"
      unfolding s pv(2) using arg_cong[OF prog(2)[OF i], of "\<lambda>l. l ! j"] j by simp
  next
    fix k :: nat assume k: "k < 4096"
    have M: "(0 :: u64) < MAXVA" by (simp add: MAXVA_def)
    note sv = user_page_view[OF stack(1) aligned_0 M k]
    show "uok m' root (of_nat k)" using sv(1) by simp
    show "m' (upa m' root (of_nat k)) = 0" using sv(2) stack(2) k by (simp add: filled_def)
  qed
qed

lemma user_page_keep: "user_page m root a f \<Longrightarrow> leaf m' root a = leaf m root a \<Longrightarrow> user_page m' root a f"
  by (simp add: user_page_def)

lemma frame_user_page:
  "leaf m root a = PA2PTE f OR 30 OR 1 \<Longrightarrow> page_ok ek f \<Longrightarrow> 0 < ek \<Longrightarrow> user_page m root a f"
  by (auto simp: user_page_def page_ok_def word_less_nat_alt unat_PHYSTOP)

section \<open>The loader\<close>

text \<open>The words of the trapframe after \<open>set_tf\<close>.\<close>

lemma set_tf_word:
  assumes "aligned tf" "j < 512" "k < 512"
  shows "load64 (mem (set_tf tf (of_nat (8 * j)) v s)) (tf + of_nat (8 * k))
     = (if k = j then v else load64 (mem s) (tf + of_nat (8 * k)))"
proof (cases "k = j")
  case True
  then show ?thesis unfolding set_tf_def by (simp add: mem_simps)
next
  case False
  have "load64 (store64 (mem s) (tf + of_nat (8 * j)) v) (tf + of_nat (8 * k)) = load64 (mem s) (tf + of_nat (8 * k))"
    by (rule load64_store64_other[OF assms]) (use False in simp)
  then show ?thesis unfolding set_tf_def using False by simp
qed

lemma set_tf_off:
  assumes "aligned tf" "j < 512"
  shows "same_off {tf} (mem s) (mem (set_tf tf (of_nat (8 * j)) v s))"
  unfolding set_tf_def using store64_same_off[OF assms(1), of "8 * j"] assms(2) by simp

lemma set_tf_inv:
  assumes "vm_inv s root fps" "aligned tf" "j < 512" "tf \<notin> pt_pages (mem s) root \<union> set fps"
  shows "vm_inv (set_tf tf (of_nat (8 * j)) v s) root fps"
    "pt_pages (mem (set_tf tf (of_nat (8 * j)) v s)) root = pt_pages (mem s) root"
    "leaf (mem (set_tf tf (of_nat (8 * j)) v s)) root va = leaf (mem s) root va"
proof -
  have d: "{tf} \<inter> (pt_pages (mem s) root \<union> set fps) = {}" using assms(4) by auto
  have f: "freelist (set_tf tf (of_nat (8 * j)) v s) = freelist s" "ekernel (set_tf tf (of_nat (8 * j)) v s) = ekernel s"
    by (simp_all add: set_tf_def)
  show "vm_inv (set_tf tf (of_nat (8 * j)) v s) root fps"
    "pt_pages (mem (set_tf tf (of_nat (8 * j)) v s)) root = pt_pages (mem s) root"
    "leaf (mem (set_tf tf (of_nat (8 * j)) v s)) root va = leaf (mem s) root va"
    by (rule vm_inv_same_off[OF assms(1) set_tf_off[OF assms(2,3)] d f])+
qed

text \<open>The stack: a cleared frame at page 0.\<close>

lemma alloc_ustack_ok:
  assumes inv: "vm_inv s root fps" and len: "3 \<le> length fps" and i: "i < length (pool s)"
    and p: "pagetable (pool s ! i) = root" "trapframe (pool s ! i) = tf"
    and e: "leaf (mem s) root 0 AND 1 = 0" and tf: "aligned tf" "tf \<notin> pt_pages (mem s) root \<union> set fps"
  obtains s' f fps' where "alloc_ustack (Pool i) s = Inr s'" "vm_inv s' root fps'" "set fps' \<subseteq> set fps"
    "f \<in> set fps" "user_page (mem s') root 0 f" "filled (mem s') f 0"
    "insert f (pt_pages (mem s') root \<union> set fps') = pt_pages (mem s) root \<union> set fps"
    "\<And>va. va < MAXVA \<Longrightarrow> PGROUNDDOWN va \<noteq> 0 \<Longrightarrow> leaf (mem s') root va = leaf (mem s) root va"
    "same_off (insert tf (pt_pages (mem s) root \<union> set fps)) (mem s) (mem s')"
    "\<And>k. k < 36 \<Longrightarrow> load64 (mem s') (tf + of_nat (8 * k)) = (if k = 6 then 4096 else load64 (mem s) (tf + of_nat (8 * k)))"
    "pool s' = (pool s)[i := (pool s ! i)\<lparr>ustack := 0\<rparr>]" "idle s' = idle s" "curr_proc s' = curr_proc s" "ekernel s' = ekernel s"
    "kproc.more s' = kproc.more s" "f \<notin> pt_pages (mem s') root \<union> set fps'"
proof -
  obtain f ps where fps: "fps = f # ps" using len by (cases fps) auto
  have kw: "kmem_wf s (f # ps)" using inv fps by (simp add: vm_inv_def)
  have f: "page_ok (ekernel s) f" "0 < ekernel s" using kw by (auto simp: kmem_wf_def)
  have M: "(0 :: u64) < MAXVA" by (simp add: MAXVA_def)
  have len': "2 \<le> length ps" using len fps by simp
  have p30: "scast (30 :: u32) = (30 :: u64)" by simp
  obtain s1 s2 ps' where st: "kalloc s = (f, s1)" "f \<noteq> 0" "same_off {f} (mem s) (mem s1)"
    "mappages root 0 4096 f 30 (s1\<lparr>mem := memset (mem s1) f 0 4096\<rparr>) = Inr (0, s2)"
    "vm_inv s2 root ps'" "mem_only s s2" "length ps \<le> length ps' + 2" "set ps' \<subseteq> set ps"
    "f \<notin> set ps" "f \<notin> pt_pages (mem s2) root"
    "pt_pages (mem s2) root \<union> set ps' = pt_pages (mem s) root \<union> set ps"
    "same_off (insert f (pt_pages (mem s) root \<union> set ps)) (mem s) (mem s2)"
    "rd (mem s2) f 4096 = rd (memset (mem s1) f 0 4096) f 4096"
    "\<And>va. va < MAXVA \<Longrightarrow> leaf (mem s2) root va =
       (if PGROUNDDOWN va = 0 then PA2PTE f OR scast (30 :: u32) OR 1 else leaf (mem s) root va)"
    by (rule fresh_page[OF inv[unfolded fps] aligned_0 M e len' memset_same_off[OF page_ok_aligned[OF f(1)]]])
      (rule that; assumption)
  note mf = mem_only_fields[OF st(6)] mem_only_curr_proc[OF st(6)] mem_only_more[OF st(6)]
  note mf1 = mem_only_fields(1)[OF kalloc_mem_only[OF st(1)]]
  let ?s3 = "s2\<lparr>pool := (pool s)[i := (pool s ! i)\<lparr>ustack := 0\<rparr>]\<rparr>"
  let ?s4 = "set_tf tf (of_nat (8 * 6)) 4096 ?s3"
  have tfn: "tf \<notin> pt_pages (mem ?s3) root \<union> set ps'" "tf \<noteq> f" using tf(2) st(8,11) fps by auto
  have inv3: "vm_inv ?s3 root ps'" using st(5) by (simp add: vm_inv_def kmem_wf_def)
  have six: "(6 :: nat) < 512" by simp
  note v = set_tf_inv[OF inv3 tf(1) six tfn(1), of 4096]
  have fl: "filled (mem s2) f 0"
    unfolding filled_def
  proof (intro allI impI)
    fix k :: nat assume k: "k < 4096"
    have "memset (mem s1) f 0 4096 (f + of_nat k) = 0"
      using memset_filled[of "mem s1" f 0] k by (simp add: filled_def)
    then show "mem s2 (f + of_nat k) = 0" using arg_cong[OF st(13), of "\<lambda>l. l ! k"] k by simp
  qed
  have off: "same_off {tf} (mem s2) (mem ?s4)" using set_tf_off[OF tf(1) six, of ?s3] by simp
  show thesis
  proof (rule that)
    show "alloc_ustack (Pool i) s = Inr ?s4"
      using st(1,2,4) p i mf(1) mf1
      by (simp add: alloc_ustack_def Let_def USTACK_BOTTOM_def BASE_ADDRESS_def set_proc_Pool proc_at_def)
    show "vm_inv ?s4 root ps'" by (rule v(1))
    show "user_page (mem ?s4) root 0 f"
      by (rule frame_user_page[OF _ f], unfold v(3)) (simp add: st(14)[OF M] PGROUNDDOWN_aligned)
    show "filled (mem ?s4) f 0" by (rule filled_same_off[OF fl off page_ok_aligned[OF f(1)]]) (use tfn in auto)
    show "leaf (mem ?s4) root va = leaf (mem s) root va" if "va < MAXVA" "PGROUNDDOWN va \<noteq> 0" for va
      using st(14)[OF that(1)] that(2) v(3) by simp
    show "same_off (insert tf (pt_pages (mem s) root \<union> set fps)) (mem s) (mem ?s4)"
      by (rule same_off_trans[OF st(12) off]) (auto simp: fps)
    show "load64 (mem ?s4) (tf + of_nat (8 * k)) = (if k = 6 then 4096 else load64 (mem s) (tf + of_nat (8 * k)))"
      if "k < 36" for k
    proof -
      have "load64 (mem s2) (tf + of_nat (8 * k)) = load64 (mem s) (tf + of_nat (8 * k))"
        using that tf tfn(2) fps by (intro load64_same_off[OF st(12)]) auto
      then show ?thesis using set_tf_word[OF tf(1) six, of k 4096 ?s3] that by simp
    qed
    show "insert f (pt_pages (mem ?s4) root \<union> set ps') = pt_pages (mem s) root \<union> set fps"
      using st(11) v(2) fps by auto
    show "f \<notin> pt_pages (mem ?s4) root \<union> set ps'" using st(8,9,10) v(2) by auto
    show "pool ?s4 = (pool s)[i := (pool s ! i)\<lparr>ustack := 0\<rparr>]" "idle ?s4 = idle s" "curr_proc ?s4 = curr_proc s"
      "ekernel ?s4 = ekernel s" "kproc.more ?s4 = kproc.more s"
      using mf by (simp_all add: set_tf_def curr_proc_def)
  qed (use st(8) fps in auto)
qed


text \<open>What the loader finds: the bare table of a new process, with room for \<open>n\<close> pages and the stack.\<close>

definition loadable :: "'a kproc_scheme \<Rightarrow> u64 list \<Rightarrow> nat \<Rightarrow> u64 \<Rightarrow> u64 \<Rightarrow> nat \<Rightarrow> bool" where
  "loadable s fps i tramp b n \<longleftrightarrow>
     (let p = pool s ! i; root = pagetable p; tf = trapframe p in
      i < length (pool s) \<and> vm_inv s root fps \<and> (\<forall>a \<in> pt_pages (mem s) root. page_ok (ekernel s) a) \<and> bare_table (mem s) root tramp tf \<and> aligned tf \<and>
      tf \<notin> pt_pages (mem s) root \<union> set fps \<and> 3 * n + 3 \<le> length fps \<and>
      4096 * Suc n \<le> unat TRAPFRAME \<and> unat b + 4096 * n < 2 ^ 64 \<and>
      sources_ok (ustep b) n (insert tf (pt_pages (mem s) root \<union> set fps)))"

lemma loadableD:
  assumes "loadable s fps i tramp b n" "pool s ! i = p"
  shows "i < length (pool s)" "vm_inv s (pagetable p) fps" "bare_table (mem s) (pagetable p) tramp (trapframe p)"
    "aligned (trapframe p)" "trapframe p \<notin> pt_pages (mem s) (pagetable p) \<union> set fps" "3 * n + 3 \<le> length fps"
    "4096 * Suc n \<le> unat TRAPFRAME" "unat b + 4096 * n < 2 ^ 64"
    "sources_ok (ustep b) n (insert (trapframe p) (pt_pages (mem s) (pagetable p) \<union> set fps))"
    "\<forall>a \<in> pt_pages (mem s) (pagetable p). page_ok (ekernel s) a"
  using assms(1) unfolding loadable_def Let_def assms(2) by blast+

lemma bare_pages:
  assumes "bare_table m root tramp tf" "4096 * Suc n \<le> unat TRAPFRAME"
  shows "unmapped m root BASE_ADDRESS n" "leaf m root 0 AND 1 = 0"
proof -
  have u: "unmapped m root 0 (Suc n)" by (rule unmapped_bare[OF assms])
  show "leaf m root 0 AND 1 = 0" using u[unfolded unmapped_def, rule_format, of 0] by simp
  have "ustep BASE_ADDRESS i = ustep 0 (Suc i)" for i by (simp add: ustep_def BASE_ADDRESS_def)
  then show "unmapped m root BASE_ADDRESS n" using u unfolding unmapped_def by auto
qed

lemma load_pages:
  assumes L: "loadable s fps i tramp b n" and p: "pool s ! i = p" and e: "e = ustep b n"
  obtains s1 fps1 fr where "load_loop (pagetable p) BASE_ADDRESS b e s = Inr s1" "vm_inv s1 (pagetable p) fps1"
    "set fps1 \<subseteq> set fps" "3 \<le> length fps1" "mem_only s s1"
    "\<And>j. j < n \<Longrightarrow> user_page (mem s1) (pagetable p) (ustep BASE_ADDRESS j) (fr j)"
    "\<And>j. j < n \<Longrightarrow> rd (mem s1) (fr j) 4096 = rd (mem s) (ustep b j) 4096"
    "\<And>j. j < n \<Longrightarrow> fr j \<in> set fps - set fps1 - pt_pages (mem s1) (pagetable p)"
    "\<And>va. va < MAXVA \<Longrightarrow> (\<forall>j<n. PGROUNDDOWN va \<noteq> ustep BASE_ADDRESS j) \<Longrightarrow>
       leaf (mem s1) (pagetable p) va = leaf (mem s) (pagetable p) va"
    "pt_pages (mem s1) (pagetable p) \<union> set fps1 \<union> fr ` {..<n} = pt_pages (mem s) (pagetable p) \<union> set fps"
    "same_off (pt_pages (mem s) (pagetable p) \<union> set fps) (mem s) (mem s1)" "inj_on fr {..<n}"
proof -
  note l = loadableD[OF L p]
  let ?root = "pagetable p"
  have n: "unat BASE_ADDRESS + 4096 * n \<le> unat MAXVA"
    using l(7) by (simp add: BASE_ADDRESS_def TRAPFRAME_page(3) unat_MAXVA)
  have al: "aligned BASE_ADDRESS" by (simp add: BASE_ADDRESS_def aligned_def)
  have src: "sources_ok (ustep b) n (pt_pages (mem s) ?root \<union> set fps)" using l(9) by (auto simp: sources_ok_def)
  have len: "3 * n \<le> length fps" using l(6) by simp
  obtain s1 fps1 fr where r: "load_loop ?root BASE_ADDRESS b e s = Inr s1"
    and P: "pages_copied (ustep b) (\<lambda>_. 30) ?root BASE_ADDRESS n s fps s1 fps1 fr"
    using load_loop_ok[OF l(2) al n len bare_pages(1)[OF l(3,7)] src l(8) e] by blast
  note C = P[unfolded pages_filled_def]
  have kw: "\<forall>a \<in> set fps. page_ok (ekernel s) a" "0 < ekernel s" using l(2) by (auto simp: vm_inv_def kmem_wf_def)
  have fr: "fr ! j \<in> set fr" if "j < n" for j using that C by auto
  have sub: "set fr \<subseteq> set fps" "set fr \<inter> set fps1 = {}" "set fr \<inter> pt_pages (mem s1) ?root = {}" using C by blast+
  have d: "distinct fr" "length fr = n" using C by blast+
  have img: "(\<lambda>j. fr ! j) ` {..<n} = set fr" using d(2) by (auto simp: set_conv_nth)
  show thesis
  proof (rule that[of s1 fps1 "\<lambda>j. fr ! j", OF r])
    show "user_page (mem s1) ?root (ustep BASE_ADDRESS j) (fr ! j)" if "j < n" for j
    proof (rule frame_user_page[OF _ _ kw(2)])
      show "leaf (mem s1) ?root (ustep BASE_ADDRESS j) = PA2PTE (fr ! j) OR 30 OR 1" using C that by blast
      show "page_ok (ekernel s) (fr ! j)" using kw(1) fr[OF that] sub by blast
    qed
    show "rd (mem s1) (fr ! j) 4096 = rd (mem s) (ustep b j) 4096" if "j < n" for j using C that by blast
    show "fr ! j \<in> set fps - set fps1 - pt_pages (mem s1) ?root" if "j < n" for j using fr[OF that] sub by blast
    show "3 \<le> length fps1" using C l(6) by linarith
    show "pt_pages (mem s1) ?root \<union> set fps1 \<union> (\<lambda>j. fr ! j) ` {..<n} = pt_pages (mem s) ?root \<union> set fps"
      unfolding img using C by blast
    show "inj_on (\<lambda>j. fr ! j) {..<n}" using d by (simp add: inj_on_nth)
    show "leaf (mem s1) ?root va = leaf (mem s) ?root va"
      if "va < MAXVA" "\<forall>j<n. PGROUNDDOWN va \<noteq> ustep BASE_ADDRESS j" for va using C that by blast
  qed (use C in blast)+
qed


text \<open>The loaded process: its pages, its tables and the free frames are what was free before.\<close>

lemma user_page_frame:
  assumes "user_page m root a f"
  shows "PTE2PA (leaf m root a) = f" "unmappable m root a"
proof -
  note U = assms[unfolded user_page_def]
  have f: "aligned f" "unat f < 2 ^ 54" and l: "leaf m root a = PA2PTE f OR 30 OR 1" using U by auto
  show "PTE2PA (leaf m root a) = f" unfolding l using PTE2PA_flags[OF f, of 31] by (simp add: or.assoc)
  show "unmappable m root a" by (rule unmappable_perm[OF l]) simp
qed

lemma image_space:
  assumes inv: "vm_inv s root fps" and stack: "user_page (mem s) root 0 f"
    and prog: "\<And>j. j < n \<Longrightarrow> user_page (mem s) root (ustep BASE_ADDRESS j) (fr j)"
    and dis: "inj_on fr {..<n}" "f \<notin> fr ` {..<n}" "insert f (fr ` {..<n}) \<inter> (pt_pages (mem s) root \<union> set fps) = {}"
    and acc: "pt_pages (mem s) root \<union> set fps \<union> insert f (fr ` {..<n}) = Q" "\<forall>a \<in> Q. page_ok (ekernel s) a"
    and top: "leaf (mem s) root TRAPFRAME = PA2PTE tf OR 6 OR 1" "leaf (mem s) root TRAMPOLINE = PA2PTE tramp OR 10 OR 1"
    and none: "\<And>va. va < MAXVA \<Longrightarrow> 4096 * Suc n \<le> unat va \<Longrightarrow> PGROUNDDOWN va \<noteq> TRAMPOLINE \<Longrightarrow>
      PGROUNDDOWN va \<noteq> TRAPFRAME \<Longrightarrow> leaf (mem s) root va AND 1 = 0"
  shows "full_table s root fps (Suc n)" "space_pages (mem s) root (Suc n) \<union> set fps = Q"
proof -
  let ?fs = "f # map fr [0..<n]"
  have st: "ustep 0 (Suc j) = ustep BASE_ADDRESS j" for j by (simp add: ustep_def BASE_ADDRESS_def)
  have "[0..<Suc n] = 0 # map Suc [0..<n]" by (simp only: upt_conv_Cons zero_less_Suc map_Suc_upt)
  then have ul: "uframe_list (mem s) root 0 (Suc n) = ?fs"
    unfolding uframe_list_def using user_page_frame(1)[OF stack] user_page_frame(1)[OF prog] by (simp add: st del: upt_Suc)
  have set: "set ?fs = insert f (fr ` {..<n})" by auto
  have d: "distinct ?fs" using dis(1,2) by (simp add: distinct_map atLeast0LessThan)
  have rel: "releasable s root fps (uframe_list (mem s) root 0 (Suc n))"
    unfolding ul releasable_def set using d dis(3) acc by auto
  have un: "\<forall>i<Suc n. unmappable (mem s) root (ustep 0 i)"
  proof (intro allI impI)
    fix i assume "i < Suc n"
    then show "unmappable (mem s) root (ustep 0 i)"
      using user_page_frame(2)[OF stack] user_page_frame(2)[OF prog] by (cases i) (simp_all add: st)
  qed
  have pg: "pt_pages (mem s) root \<subseteq> Q" using acc(1) by blast
  show "full_table s root fps (Suc n)" by (rule full_tableI[OF inv pg acc(2) top un rel none])
  show "space_pages (mem s) root (Suc n) \<union> set fps = Q" unfolding space_pages_def ul set using acc(1) by blast
qed


lemma bin_loader_ok:
  assumes L: "loadable s fps i tramp b n" and p: "pool s ! i = p"
    and b: "PGROUNDDOWN start = b" "PGROUNDUP endp = ustep b n"
  obtains s' fps' where "bin_loader start endp (Pool i) s = Inr s'" "full_table s' (pagetable p) fps' (Suc n)"
    "space_pages (mem s') (pagetable p) (Suc n) \<union> set fps' = pt_pages (mem s) (pagetable p) \<union> set fps" "image_at (mem s') (pagetable p) (mem s) b n"
    "leaf (mem s') (pagetable p) TRAPFRAME = PA2PTE (trapframe p) OR 6 OR 1"
    "leaf (mem s') (pagetable p) TRAMPOLINE = PA2PTE tramp OR 10 OR 1"
    "same_off (insert (trapframe p) (pt_pages (mem s) (pagetable p) \<union> set fps)) (mem s) (mem s')"
    "\<And>k. k < 36 \<Longrightarrow> load64 (mem s') (trapframe p + of_nat (8 * k)) =
       (if k = 3 \<or> k = 6 then 4096 else load64 (mem s) (trapframe p + of_nat (8 * k)))"
    "pool s' = (pool s)[i := p\<lparr>ustack := 0, psz := 4096 + of_nat (4096 * n)\<rparr>]"
    "idle s' = idle s" "curr_proc s' = curr_proc s" "kproc.more s' = kproc.more s"
proof -
  note l = loadableD[OF L p]
  let ?root = "pagetable p" and ?tf = "trapframe p"
  obtain s1 fps1 fr where a: "load_loop ?root BASE_ADDRESS b (ustep b n) s = Inr s1" "vm_inv s1 ?root fps1"
    "set fps1 \<subseteq> set fps" "3 \<le> length fps1" "mem_only s s1"
    "\<And>j. j < n \<Longrightarrow> user_page (mem s1) ?root (ustep BASE_ADDRESS j) (fr j)"
    "\<And>j. j < n \<Longrightarrow> rd (mem s1) (fr j) 4096 = rd (mem s) (ustep b j) 4096"
    "\<And>j. j < n \<Longrightarrow> fr j \<in> set fps - set fps1 - pt_pages (mem s1) ?root"
    "\<And>va. va < MAXVA \<Longrightarrow> (\<forall>j<n. PGROUNDDOWN va \<noteq> ustep BASE_ADDRESS j) \<Longrightarrow>
       leaf (mem s1) ?root va = leaf (mem s) ?root va"
    "pt_pages (mem s1) ?root \<union> set fps1 \<union> fr ` {..<n} = pt_pages (mem s) ?root \<union> set fps"
    "same_off (pt_pages (mem s) ?root \<union> set fps) (mem s) (mem s1)" "inj_on fr {..<n}"
    by (rule load_pages[OF L p refl]) (rule that; assumption)
  note m1 = mem_only_fields[OF a(5)] mem_only_curr_proc[OF a(5)] mem_only_more[OF a(5)]
  have three: "(3 :: nat) < 512" by simp
  define s2 where "s2 = set_tf ?tf (of_nat (8 * 3)) 4096 s1"
  have tf1: "?tf \<notin> pt_pages (mem s1) ?root \<union> set fps1" using l(5) a(3,10) by blast
  note v2 = set_tf_inv[OF a(2) l(4) three tf1, of 4096, folded s2_def]
  have off2: "same_off {?tf} (mem s1) (mem s2)" unfolding s2_def by (rule set_tf_off[OF l(4) three])
  have pool2: "pool s2 = pool s" "idle s2 = idle s" "curr_proc s2 = curr_proc s" "kproc.more s2 = kproc.more s"
    using m1 by (simp_all add: s2_def set_tf_def curr_proc_def)
  have ne: "PGROUNDDOWN va \<noteq> ustep BASE_ADDRESS j" if "j < n" "unat (PGROUNDDOWN va) = 0 \<or> unat TRAPFRAME \<le> unat (PGROUNDDOWN va)" for va j
  proof -
    have u: "unat (ustep BASE_ADDRESS j) = 4096 + 4096 * j"
      using that(1) l(7) by (subst unat_ustep) (simp_all add: BASE_ADDRESS_def TRAPFRAME_page(3))
    have "4096 + 4096 * j < unat TRAPFRAME" using that(1) l(7) by simp
    then show ?thesis using u that(2) by (metis add_is_0 not_less zero_neq_numeral)
  qed
  have M: "(0 :: u64) < MAXVA" by (simp add: MAXVA_def)
  have PG: "PGROUNDDOWN 0 = 0" "PGROUNDDOWN TRAPFRAME = TRAPFRAME" "PGROUNDDOWN TRAMPOLINE = TRAMPOLINE"
    by (simp_all add: PGROUNDDOWN_aligned TRAPFRAME_page TRAMPOLINE_page)
  have "leaf (mem s1) ?root 0 = leaf (mem s) ?root 0" using a(9)[OF M] ne[of _ 0] PG(1) by simp
  then have e2: "leaf (mem s2) ?root 0 AND 1 = 0" unfolding v2(3) using bare_pages(2)[OF l(3,7)] by simp
  have i2: "i < length (pool s2)" "pagetable (pool s2 ! i) = ?root" "trapframe (pool s2 ! i) = ?tf"
    using l(1) p pool2(1) by simp_all
  have tf2: "?tf \<notin> pt_pages (mem s2) ?root \<union> set fps1" unfolding v2(2) by (rule tf1)
  obtain s3 f fps3 where c: "alloc_ustack (Pool i) s2 = Inr s3" "vm_inv s3 ?root fps3" "set fps3 \<subseteq> set fps1"
    "f \<in> set fps1" "user_page (mem s3) ?root 0 f" "filled (mem s3) f 0"
    "insert f (pt_pages (mem s3) ?root \<union> set fps3) = pt_pages (mem s2) ?root \<union> set fps1"
    "\<And>va. va < MAXVA \<Longrightarrow> PGROUNDDOWN va \<noteq> 0 \<Longrightarrow> leaf (mem s3) ?root va = leaf (mem s2) ?root va"
    "same_off (insert ?tf (pt_pages (mem s2) ?root \<union> set fps1)) (mem s2) (mem s3)"
    "\<And>k. k < 36 \<Longrightarrow> load64 (mem s3) (?tf + of_nat (8 * k)) = (if k = 6 then 4096 else load64 (mem s2) (?tf + of_nat (8 * k)))"
    "pool s3 = (pool s2)[i := (pool s2 ! i)\<lparr>ustack := 0\<rparr>]" "idle s3 = idle s2" "curr_proc s3 = curr_proc s2"
    "ekernel s3 = ekernel s2" "kproc.more s3 = kproc.more s2" "f \<notin> pt_pages (mem s3) ?root \<union> set fps3"
    by (rule alloc_ustack_ok[OF v2(1) a(4) i2 e2 l(4) tf2]) (rule that; assumption)
  define s' where "s' = s3\<lparr>pool := (pool s)[i := p\<lparr>ustack := 0, psz := 4096 + of_nat (4096 * n)\<rparr>]\<rparr>"
  have m': "mem s' = mem s3" by (simp add: s'_def)
  have nM: "4096 * Suc n \<le> unat MAXVA" using l(7) by (simp add: TRAPFRAME_page(3) unat_MAXVA)
  have prog: "user_page (mem s3) ?root (ustep BASE_ADDRESS j) (fr j)"
    "rd (mem s3) (fr j) 4096 = rd (mem s) (ustep b j) 4096" if j: "j < n" for j
  proof -
    have n': "unat BASE_ADDRESS + 4096 * n \<le> unat MAXVA" using nM by (simp add: BASE_ADDRESS_def)
    have al: "aligned BASE_ADDRESS" by (simp add: BASE_ADDRESS_def aligned_def)
    note u = ustep_page[OF al n' j]
    have "ustep BASE_ADDRESS j \<noteq> 0" using u(4) by (auto simp: BASE_ADDRESS_def)
    then show "user_page (mem s3) ?root (ustep BASE_ADDRESS j) (fr j)"
      using c(8)[OF u(1)] u(3) v2(3) by (intro user_page_keep[OF a(6)[OF j]]) simp
    have fr: "fr j \<notin> insert ?tf (pt_pages (mem s2) ?root \<union> set fps1)" "fr j \<notin> {?tf}"
      unfolding v2(2) using a(8)[OF j] l(5) by auto
    have al: "aligned (fr j)" using a(6)[OF j] by (simp add: user_page_def)
    show "rd (mem s3) (fr j) 4096 = rd (mem s) (ustep b j) 4096"
      using rd_same_off0[OF c(9) al fr(1), of 4096] rd_same_off0[OF off2 al fr(2), of 4096] a(7)[OF j] by simp
  qed
  have img: "image_at (mem s3) ?root (mem s) b n" by (rule image_atI[OF nM prog c(5,6)])
  have high: "leaf (mem s3) ?root va = leaf (mem s) ?root va" if "va = TRAPFRAME \<or> va = TRAMPOLINE" for va
  proof -
    have va: "va < MAXVA" "PGROUNDDOWN va = va" "unat TRAPFRAME \<le> unat va" "va \<noteq> 0"
      using that PG TRAPFRAME_page TRAMPOLINE_page by auto
    then show ?thesis using c(8)[OF va(1)] a(9)[OF va(1)] ne[of _ va] v2(3) by simp
  qed
  have B: "leaf (mem s) ?root va = (if PGROUNDDOWN va = TRAPFRAME then PA2PTE ?tf OR 6 OR 1
      else if PGROUNDDOWN va = TRAMPOLINE then PA2PTE tramp OR 10 OR 1 else 0)" if "va < MAXVA" for va
    using l(3) that unfolding bare_table_def by blast
  have W: "load64 (mem s1) (?tf + of_nat (8 * k)) = load64 (mem s) (?tf + of_nat (8 * k))" if "k < 36" for k
    using that l(4,5) by (intro load64_same_off[OF a(11)]) auto
  have T: "leaf (mem s3) ?root TRAPFRAME = PA2PTE ?tf OR 6 OR 1" "leaf (mem s3) ?root TRAMPOLINE = PA2PTE tramp OR 10 OR 1"
    using high[of TRAPFRAME] B[OF TRAPFRAME_page(2)] high[of TRAMPOLINE] B[OF TRAMPOLINE_page(2)] PG TRAPFRAME_page(4)
    by simp_all
  have none: "leaf (mem s3) ?root va AND 1 = 0"
    if va: "va < MAXVA" "4096 * Suc n \<le> unat va" "PGROUNDDOWN va \<noteq> TRAMPOLINE" "PGROUNDDOWN va \<noteq> TRAPFRAME" for va
  proof -
    have "Suc n \<le> unat va div 4096" using va(2) by (simp add: less_eq_div_iff_mult_less_eq mult.commute)
    then have g: "4096 * Suc n \<le> unat (PGROUNDDOWN va)" by (simp add: unat_PGROUNDDOWN)
    have "PGROUNDDOWN va \<noteq> ustep BASE_ADDRESS j" if "j < n" for j
    proof -
      have "unat (ustep BASE_ADDRESS j) = 4096 + 4096 * j"
        using that l(7) by (subst unat_ustep) (simp_all add: BASE_ADDRESS_def TRAPFRAME_page(3))
      then show ?thesis using g that by auto
    qed
    moreover have "PGROUNDDOWN va \<noteq> 0" using g by auto
    ultimately show ?thesis using c(8)[OF va(1)] a(9)[OF va(1)] v2(3) B[OF va(1)] va(3,4) by simp
  qed
  have ek: "ekernel s3 = ekernel s" using c(14) m1 by (simp add: s2_def set_tf_def)
  let ?Q = "pt_pages (mem s) ?root \<union> set fps"
  have ok: "\<forall>x \<in> ?Q. page_ok (ekernel s3) x"
    unfolding ek using l(10) l(2) by (auto simp: vm_inv_def kmem_wf_def)
  have sub: "fr ` {..<n} \<inter> (pt_pages (mem s1) ?root \<union> set fps1) = {}" using a(8) by blast
  have dj: "f \<notin> fr ` {..<n}" using sub c(4) by blast
  have dj2: "insert f (fr ` {..<n}) \<inter> (pt_pages (mem s3) ?root \<union> set fps3) = {}"
    using sub c(7,16) unfolding v2(2) by blast
  have acc: "pt_pages (mem s3) ?root \<union> set fps3 \<union> insert f (fr ` {..<n}) = ?Q"
    using c(7) a(10) unfolding v2(2) by blast
  note S = image_space[OF c(2,5) prog(1) a(12) dj dj2 acc ok T none]
  note S' = full_table_same_off[OF S(1), of "{}" s'] 
  show thesis
  proof (rule that[of s' fps3])
    show "bin_loader start endp (Pool i) s = Inr s'"
    proof -
      have e: "set_tf ?tf 24 BASE_ADDRESS s1 = s2" by (simp add: s2_def BASE_ADDRESS_def)
      have q: "pool s1 ! i = p" "pool s3 = (pool s)[i := p\<lparr>ustack := 0\<rparr>]" using m1(1) p c(11) pool2(1) by simp_all
      show ?thesis
        unfolding bin_loader_def Let_def b proc_at_Pool p a(1) bindE.simps q(1) e c(1)
        using q(2) l(1) by (simp add: s'_def set_proc_Pool ustep_def)
    qed
    show "full_table s' ?root fps3 (Suc n)" using S'(1) by (simp add: s'_def)
    show "space_pages (mem s') ?root (Suc n) \<union> set fps3 = ?Q" using S(2) by (simp add: s'_def)
    show "image_at (mem s') ?root (mem s) b n" unfolding m' by (rule img)
    show "leaf (mem s') ?root TRAPFRAME = PA2PTE ?tf OR 6 OR 1"
      unfolding m' by (rule T(1))
    show "leaf (mem s') ?root TRAMPOLINE = PA2PTE tramp OR 10 OR 1"
      unfolding m' by (rule T(2))
    show "same_off (insert ?tf (pt_pages (mem s) ?root \<union> set fps)) (mem s) (mem s')"
      unfolding m' by (rule same_off_trans[OF same_off_trans[OF a(11) off2 subset_refl] c(9)[unfolded v2(2)]])
        (use a(3,10) in auto)
    show "load64 (mem s') (?tf + of_nat (8 * k)) = (if k = 3 \<or> k = 6 then 4096 else load64 (mem s) (?tf + of_nat (8 * k)))"
      if "k < 36" for k
    proof -
      have k: "k < 512" using that by simp
      show ?thesis unfolding m' c(10)[OF that] set_tf_word[OF l(4) three k, of 4096 s1, folded s2_def] W[OF that] by auto
    qed
    show "pool s' = (pool s)[i := p\<lparr>ustack := 0, psz := 4096 + of_nat (4096 * n)\<rparr>]" by (simp add: s'_def)
    show "idle s' = idle s" "curr_proc s' = curr_proc s" "kproc.more s' = kproc.more s"
      using c(12,13,15) pool2 by (simp_all add: s'_def curr_proc_def)
  qed
qed


section \<open>spawn\<close>

text \<open>
  What \<open>spawn\<close> needs: a free slot \<open>q\<close> with pages of its own, free frames, and the program, \<open>n\<close> pages from
  \<open>b\<close> on, outside them.
\<close>

definition spawnable :: "'a kload_scheme \<Rightarrow> u64 list \<Rightarrow> proc \<Rightarrow> u64 \<Rightarrow> nat \<Rightarrow> bool" where
  "spawnable s fps q b n \<longleftrightarrow>
     kmem_wf s fps \<and> 3 * n + 8 \<le> length fps \<and> aligned (trapframe q) \<and> aligned (kstack q) \<and>
     slot_pages q \<inter> set fps = {} \<and> trapframe q \<noteq> kstack q \<and> 4096 * Suc n \<le> unat TRAPFRAME \<and> unat b + 4096 * n < 2 ^ 64 \<and>
     sources_ok (ustep b) n (slot_pages q \<union> set fps)"

text \<open>A process \<open>c\<close> that is ready to run the program from its first instruction on.\<close>

definition program_ready :: "bmem \<Rightarrow> bmem \<Rightarrow> proc \<Rightarrow> u64 \<Rightarrow> nat \<Rightarrow> u64 \<Rightarrow> bool" where
  "program_ready m m' c b n tramp \<longleftrightarrow>
     psz c = 4096 + of_nat (4096 * n) \<and> image_at m' (pagetable c) m b n \<and>
     leaf m' (pagetable c) TRAPFRAME = PA2PTE (trapframe c) OR 6 OR 1 \<and>
     leaf m' (pagetable c) TRAMPOLINE = PA2PTE tramp OR 10 OR 1 \<and>
     (\<forall>k<36. load64 m' (trapframe c + of_nat (8 * k)) = (if k = 3 \<or> k = 6 then 4096 else 0))"

text \<open>What \<open>spawn\<close> promises of the new process \<open>c\<close>.\<close>

definition spawned :: "'a kload_scheme \<Rightarrow> proc \<Rightarrow> nat \<Rightarrow> u64 \<Rightarrow> 'a kload_scheme \<Rightarrow> proc \<Rightarrow> bool" where
  "spawned s q n b s' c \<longleftrightarrow>
     pstate c = RUNNABLE \<and> pid c = PID s \<and> parent c = Some (curr_proc s) \<and>
     trapframe c = trapframe q \<and> kstack c = kstack q \<and> program_ready (mem s) (mem s') c b n (trampoline s)"

lemma sources_ok_mono: "sources_ok src n P \<Longrightarrow> Q \<subseteq> P \<Longrightarrow> sources_ok src n Q"
  by (auto simp: sources_ok_def)

lemma load_more: "kproc.more s' = kproc.more s \<Longrightarrow>
   names s' = names s \<and> app_num s' = app_num s \<and> app_info s' = app_info s \<and> filepool s' = filepool s"
  by (cases s; cases s'; simp)

lemma get_id_cong: "names s' = names s \<Longrightarrow> app_num s' = app_num s \<Longrightarrow> get_id_by_name name s' = get_id_by_name name s"
  by (simp add: get_id_by_name_def)

lemma image_at_cong:
  assumes "image_at m' root m1 b n" "\<And>k. k < 4096 * n \<Longrightarrow> m1 (b + of_nat k) = m (b + of_nat k)"
  shows "image_at m' root m b n"
  using assms unfolding image_at_def by simp

lemma source_bytes:
  assumes "same_off P m m1" "sources_ok (ustep b) n P" "k < 4096 * n"
  shows "m1 (b + of_nat k) = m (b + of_nat k)"
proof -
  define i j where "i = k div 4096" and "j = k mod 4096"
  have i: "i < n" using assms(3) by (simp add: i_def less_mult_imp_div_less mult.commute)
  have j: "j < 4096" and kij: "k = 4096 * i + j" by (simp_all add: i_def j_def)
  have s: "b + of_nat k = ustep b i + of_nat j" by (simp add: kij ustep_def)
  have S: "aligned (ustep b i)" "ustep b i \<notin> P" using assms(2) i by (auto simp: sources_ok_def)
  show ?thesis unfolding s by (rule same_offD[OF assms(1)]) (use S page_of_offset[OF S(1) j] in simp)
qed

lemma spawn_ok:
  assumes i: "find_idx (\<lambda>p. pstate p = UNUSED) (pool s) = Some i"
    and k: "get_id_by_name name s = Inr k" "0 \<le> k"
    and b: "PGROUNDDOWN (app_info s ! nat k) = b" "PGROUNDUP (app_info s ! nat (k + 1)) = ustep b n"
    and S: "spawnable s fps (pool s ! i) b n"
  shows "\<exists>s' fps' c. spawn name s = Inr (of_int (PID s), s') \<and> pool s' = (pool s)[i := c] \<and> idle s' = idle s \<and>
    curr_proc s' = curr_proc s \<and> filepool s' = filepool s \<and> spawned s (pool s ! i) n b s' c \<and>
    full_table s' (pagetable c) fps' (Suc n) \<and> space_pages (mem s') (pagetable c) (Suc n) \<union> set fps' = set fps \<and>
    same_off (slot_pages (pool s ! i) \<union> set fps) (mem s) (mem s')"
proof -
  let ?q = "pool s ! i" and ?r = "curr_proc s"
  have sp: "kmem_wf s fps" "3 * n + 8 \<le> length fps" "aligned (trapframe ?q)" "aligned (kstack ?q)"
    "slot_pages ?q \<inter> set fps = {}" "4096 * Suc n \<le> unat TRAPFRAME" "unat b + 4096 * n < 2 ^ 64"
    "sources_ok (ustep b) n (slot_pages ?q \<union> set fps)" "trapframe ?q \<noteq> kstack ?q" using S unfolding spawnable_def by blast+
  have il: "i < length (pool s)" using i by (simp add: find_idx_Some)
  have len5: "5 \<le> length fps" using sp(2) by simp
  obtain root s1 fps1 where a: "allocproc s = Inr (Some i, s1)" "root \<noteq> 0" "vm_inv s1 root fps1"
    "bare_table (mem s1) root (trampoline s) (trapframe ?q)"
    "pt_pages (mem s1) root \<union> set fps1 = set fps" "length fps \<le> length fps1 + 5"
    "same_off (slot_pages ?q \<union> set fps) (mem s) (mem s1)"
    "pool s1 = (pool s)[i := new_proc ?q (PID s) root (usertrapret s)]"
    "idle s1 = idle s" "curr_proc s1 = ?r" "ekernel s1 = ekernel s" "PID s1 = PID s + 1"
    "kproc.more s1 = kproc.more s" "filled (mem s1) (trapframe ?q) 0" "e_text s1 = e_text s"
    by (rule allocproc_ok[OF sp(1) len5 i sp(3,4,5,9)]) (rule that; assumption)
  define c1 where "c1 = (new_proc ?q (PID s) root (usertrapret s))\<lparr>parent := Some ?r, pstate := RUNNABLE\<rparr>"
  define s2 where "s2 = s1\<lparr>pool := (pool s)[i := c1]\<rparr>"
  have c1: "pagetable c1 = root" "trapframe c1 = trapframe ?q" "pool s2 ! i = c1" "mem s2 = mem s1"
    using il by (simp_all add: c1_def s2_def new_proc_def)
  have tfn: "trapframe ?q \<notin> set fps" "trapframe ?q \<in> slot_pages ?q" using sp(5) by (auto simp: slot_pages_def)
  have L: "loadable s2 fps1 i (trampoline s) b n"
    unfolding loadable_def Let_def c1(1,2,3,4)
  proof (intro conjI)
    show "vm_inv s2 root fps1" using a(3) by (simp add: s2_def vm_inv_def kmem_wf_def)
    show "trapframe ?q \<notin> pt_pages (mem s1) root \<union> set fps1" using tfn a(5) by blast
    show "sources_ok (ustep b) n (insert (trapframe ?q) (pt_pages (mem s1) root \<union> set fps1))"
      by (rule sources_ok_mono[OF sp(8)]) (use a(5) tfn in auto)
    show "i < length (pool s2)" using il by (simp add: s2_def)
    show "\<forall>x \<in> pt_pages (mem s1) root. page_ok (ekernel s2) x"
      using a(5,11) sp(1) by (auto simp: s2_def kmem_wf_def)
    show "3 * n + 3 \<le> length fps1" using sp(2) a(6) by simp
  qed (use a(4) sp in simp_all)
  obtain s' fps' where d: "bin_loader (app_info s ! nat k) (app_info s ! nat (k + 1)) (Pool i) s2 = Inr s'"
    "full_table s' (pagetable c1) fps' (Suc n)"
    "space_pages (mem s') (pagetable c1) (Suc n) \<union> set fps' = pt_pages (mem s2) (pagetable c1) \<union> set fps1" "image_at (mem s') (pagetable c1) (mem s2) b n"
    "leaf (mem s') (pagetable c1) TRAPFRAME = PA2PTE (trapframe c1) OR 6 OR 1"
    "leaf (mem s') (pagetable c1) TRAMPOLINE = PA2PTE (trampoline s) OR 10 OR 1"
    "same_off (insert (trapframe c1) (pt_pages (mem s2) (pagetable c1) \<union> set fps1)) (mem s2) (mem s')"
    "\<And>k. k < 36 \<Longrightarrow> load64 (mem s') (trapframe c1 + of_nat (8 * k)) =
       (if k = 3 \<or> k = 6 then 4096 else load64 (mem s2) (trapframe c1 + of_nat (8 * k)))"
    "pool s' = (pool s2)[i := c1\<lparr>ustack := 0, psz := 4096 + of_nat (4096 * n)\<rparr>]"
    "idle s' = idle s2" "curr_proc s' = curr_proc s2" "kproc.more s' = kproc.more s2"
    by (rule bin_loader_ok[OF L c1(3) b]) (rule that; assumption)
  note mr = load_more[OF a(13)]
  have more2: "kproc.more s2 = kproc.more s1" by (simp add: s2_def)
  note mr2 = load_more[OF more2] load_more[OF d(12)]
  have ld: "loader k (Pool i) s2 = Inr s'" using d(1) mr mr2(1) by (simp add: loader_def)
  have gid: "get_id_by_name name s2 = Inr k" using get_id_cong[of s2 s name] mr mr2(1) k(1) by simp
  have "spawn name s = Inr (of_int (PID s), s')"
  proof -
    have q: "pool s1 ! i = new_proc ?q (PID s) root (usertrapret s)" "pid (new_proc ?q (PID s) root (usertrapret s)) = PID s"
      using a(8) il by (simp_all add: new_proc_def)
    have e: "s1\<lparr>pool := (pool s1)[i := (pool s1 ! i)\<lparr>parent := Some ?r, pstate := RUNNABLE\<rparr>]\<rparr> = s2"
      unfolding a(8) using il by (simp add: s2_def c1_def)
    show ?thesis
      unfolding spawn_def Let_def a(1) bindE.simps prod.case option.case unfolding e gid unfolding q using k(2) ld by simp
  qed
  moreover define c where "c = c1\<lparr>ustack := 0, psz := 4096 + of_nat (4096 * n)\<rparr>"
  moreover have "pool s' = (pool s)[i := c]" using d(9) by (simp add: s2_def c_def)
  moreover have "idle s' = idle s" "curr_proc s' = ?r" using d(10,11) a(9,10) by (simp_all add: s2_def curr_proc_def)
  moreover have "filepool s' = filepool s" using mr mr2 by simp
  moreover have "spawned s ?q n b s' c"
  proof -
    have z: "load64 (mem s2) (trapframe c1 + of_nat (8 * j)) = 0" if "j < 36" for j
      unfolding c1(2,4) using load64_filled_0[OF a(14), of j] that by simp
    have img: "image_at (mem s') (pagetable c1) (mem s) b n"
      by (rule image_at_cong[OF d(4)]) (use source_bytes[OF a(7) sp(8)] c1(4) in simp)
    show ?thesis
      unfolding spawned_def program_ready_def using d(5,6,8) z img by (simp add: c_def c1_def new_proc_def)
  qed
  moreover have "full_table s' (pagetable c) fps' (Suc n)" "space_pages (mem s') (pagetable c) (Suc n) \<union> set fps' = set fps"
    using d(2,3) a(5) c1(1,4) by (simp_all add: c_def)
  moreover have "same_off (slot_pages ?q \<union> set fps) (mem s) (mem s')"
    by (rule same_off_trans[OF a(7) d(7)[unfolded c1]]) (use a(5) tfn in auto)
  ultimately show ?thesis by blast
qed

end
