(* ===== verification/NewProcess.thy ===== *)
theory NewProcess
  imports ProcImage
begin

text \<open>
  What a new process is: \<open>fork\<close> makes a copy of its caller, \<open>spawn\<close> a process that runs a program. Both
  are stated from the system call down to the bytes its pages hold and the words of its trapframe.
\<close>

section \<open>Examples\<close>

text \<open>Twelve free pages, and a table with one user page, for the examples.\<close>

lemma twelve_pages:
  "\<exists>(s :: kmem) fps. kmem_wf s fps \<and> length fps = 12 \<and> (\<forall>a \<in> set fps. 0x87ff4000 \<le> a) \<and>
     hd fps = 0x87fff000 \<and> ekernel s = 0x80440000"
proof -
  let ?s = "\<lparr>mem = (\<lambda>_. 0), freelist = 0, ekernel = 0x80440000\<rparr>"
  let ?f = "rev (map (\<lambda>i. 0x87ff4000 + of_nat (4096 * i)) [0..<12]) :: u64 list"
  have "\<exists>s'. freerange_loop 0x87ff4000 PHYSTOP ?s = Inr s' \<and> ekernel s' = ekernel ?s \<and> kmem_wf s' (?f @ [])"
    by (rule freerange_loop_ok) (simp_all add: kmem_wf_def aligned_def unat_PHYSTOP)
  then obtain s :: kmem where s: "kmem_wf s ?f" "ekernel s = 0x80440000" by auto
  have "\<forall>a \<in> set ?f. 0x87ff4000 \<le> a" by (simp add: upt_rec)
  moreover have "hd ?f = 0x87fff000" "length ?f = 12" by (simp_all add: upt_rec)
  ultimately show ?thesis using s by blast
qed

lemma one_user_page:
  "\<exists>(s :: kmem) fps. vm_inv s 0x87fff000 fps \<and> 8 \<le> length fps \<and>
     (\<forall>a \<in> set fps \<union> pt_pages (mem s) 0x87fff000. 0x87ff4000 \<le> a) \<and>
     leaf (mem s) 0x87fff000 0 = PA2PTE 0x87000000 OR 30 OR 1 \<and> ekernel s = 0x80440000"
proof -
  obtain s :: kmem and fps where s: "kmem_wf s fps" "length fps = 12" "\<forall>a \<in> set fps. 0x87ff4000 \<le> a"
    "hd fps = 0x87fff000" "ekernel s = 0x80440000" using twelve_pages by blast
  obtain ps and s1 :: kmem where c: "fps = 0x87fff000 # ps" "vm_inv s1 0x87fff000 ps" "filled (mem s1) 0x87fff000 0"
    "ekernel s1 = ekernel s"
  proof (rule uvmcreate_ok[OF s(1)])
    fix root ps and s1 :: kmem
    assume "fps = root # ps" "vm_inv s1 root ps" "filled (mem s1) root 0" "ekernel s1 = ekernel s"
    then show thesis using that[of ps s1] s(4) by simp
  qed (use s(2) in simp)
  note e = empty_table(2,4)[OF c(3)]
  have M: "(0 :: u64) < MAXVA" by (simp add: MAXVA_def)
  have z: "leaf (mem s1) 0x87fff000 0 AND 1 = 0" "2 \<le> length ps" using e(2) s(2) c(1) by simp_all
  obtain s2 ps2 where m: "vm_grow s1 ps 0x87fff000 s2 ps2" "length ps \<le> length ps2 + 2"
    "\<And>va. va < MAXVA \<Longrightarrow> leaf (mem s2) 0x87fff000 va =
       (if PGROUNDDOWN va = 0 then PA2PTE 0x87000000 OR 30 OR PTE_V else leaf (mem s1) 0x87fff000 va)"
    by (rule mappages_one[OF c(2) aligned_0 M z, of "0x87000000" "30"]) (rule that; assumption)
  note g = m(1)[unfolded vm_grow_def e(1)]
  have "\<forall>a \<in> set ps2 \<union> pt_pages (mem s2) 0x87fff000. 0x87ff4000 \<le> a" using g s(3) c(1) by auto
  moreover have "leaf (mem s2) 0x87fff000 0 = PA2PTE 0x87000000 OR 30 OR 1"
    using m(3)[OF M] PGROUNDDOWN_aligned[OF aligned_0] by simp
  moreover have "8 \<le> length ps2" using m(2) s(2) c(1) by simp
  ultimately show ?thesis using g c(4) s(5) by (intro exI[of _ s2] exI[of _ ps2]) simp
qed

text \<open>A running process with one page, and a free slot.\<close>

definition slot_ex :: proc where
  "slot_ex = proc0\<lparr>trapframe := 0x86001000, kstack := 0x86002000\<rparr>"

definition parent_ex :: proc where
  "parent_ex = proc0\<lparr>pstate := RUNNING, pid := 1, pagetable := 0x87fff000, psz := 4096, trapframe := 0x86000000\<rparr>"

definition kload_ex :: "kmem \<Rightarrow> kload" where
  "kload_ex k = (kload0 (mem k) (\<lambda>_. []))\<lparr>mem := mem k, freelist := freelist k, ekernel := ekernel k,
     pool := [parent_ex, slot_ex], current_proc := Some (Pool 0), PID := 2,
     app_num := 1, app_info := [0x80400000, 0x80400400], names := [97 # replicate 99 0]\<rparr>"

lemma kload_ex_find: "find_idx (\<lambda>p. pstate p = UNUSED) (pool (kload_ex k)) = Some 1"
  by (simp add: kload_ex_def parent_ex_def slot_ex_def proc0_def)

lemma kload_ex_proc: "cproc (kload_ex k) = parent_ex" "pool (kload_ex k) ! 1 = slot_ex" "mem (kload_ex k) = mem k"
  "curr_proc (kload_ex k) = Pool 0" "PID (kload_ex k) = 2"
  by (simp_all add: kload_ex_def curr_proc_def proc_at_def)

lemma kload_ex_inv: "vm_inv k root fps \<Longrightarrow> vm_inv (kload_ex k) root fps" "kmem_wf k fps \<Longrightarrow> kmem_wf (kload_ex k) fps"
  "ekernel (kload_ex k) = ekernel k"
  by (simp_all add: kload_ex_def vm_inv_def kmem_wf_def)

lemma fork_example:
  "\<exists>k fps. kmem_wf (kload_ex k) fps \<and> forkable (kload_ex k) fps parent_ex slot_ex \<and> uok (mem k) 0x87fff000 0 \<and>
    0x80800000 \<notin> set fps"
proof -
  obtain k :: kmem and fps where k: "vm_inv k 0x87fff000 fps" "8 \<le> length fps"
    "\<forall>a \<in> set fps \<union> pt_pages (mem k) 0x87fff000. 0x87ff4000 \<le> a"
    "leaf (mem k) 0x87fff000 0 = PA2PTE 0x87000000 OR 30 OR 1" "ekernel k = 0x80440000" using one_user_page by blast
  have low: "a \<notin> set fps" "a \<notin> pt_pages (mem k) 0x87fff000" if "a < 0x87ff4000" for a
    using k(3) that by (auto simp: not_le[symmetric])
  have l: "leaf (mem k) 0x87fff000 0 = 0x21C0001F" using k(4) by (simp add: PA2PTE_def)
  have pc: "page_count 4096 = 1" by (simp add: page_count_def)
  have sp: "slot_pages slot_ex = {0x86001000, 0x86002000}" by (simp add: slot_pages_def slot_ex_def)
  have F: "forkable (kload_ex k) fps parent_ex slot_ex"
    unfolding forkable_def kload_ex_proc(3) kload_ex_inv(3) k(5) Let_def
  proof (intro conjI)
    show "slot_pages slot_ex \<inter> set fps = {}" using low by (simp add: sp)
    show "pt_pages (mem k) (pagetable parent_ex) \<inter> (slot_pages slot_ex \<union> set fps) = {}"
      using low(2) k(1) by (auto simp: sp parent_ex_def vm_inv_def)
    show "pt_wf (mem k) (pagetable parent_ex)" using k(1) by (simp add: parent_ex_def vm_inv_def)
    have u: "unmappable (mem k) 0x87fff000 0" by (rule unmappable_perm[OF k(4)]) simp
    show "\<forall>i<page_count (psz parent_ex). unmappable (mem k) (pagetable parent_ex) (ustep 0 i) \<and>
       page_ok 0x80440000 (PTE2PA (leaf (mem k) (pagetable parent_ex) (ustep 0 i))) \<and>
       PTE2PA (leaf (mem k) (pagetable parent_ex) (ustep 0 i)) \<notin> slot_pages slot_ex \<union> set fps"
      using low(1)[of "0x87000000"] u by (simp add: parent_ex_def pc l PTE2PA_def page_ok_def sp aligned_def PHYSTOP_def)
    show "\<forall>j<16. \<forall>f. files parent_ex ! j = Some f \<longrightarrow> f < length (filepool (kload_ex k))"
      by (simp add: parent_ex_def proc0_def)
    show "trapframe parent_ex \<notin> slot_pages slot_ex \<union> set fps" using low(1)[of "0x86000000"] by (simp add: sp parent_ex_def)
  qed (use k(2) in \<open>simp_all add: parent_ex_def slot_ex_def pc TRAPFRAME_def TRAMPOLINE_def MAXVA_def aligned_def\<close>)
  have "upage (mem k) 0x87fff000 0 \<noteq> 0" by (simp add: upage_def l MAXVA_def PTE2PA_def)
  then have "uok (mem k) 0x87fff000 0" by (simp add: uok_def PGROUNDDOWN_aligned)
  moreover have "kmem_wf (kload_ex k) fps" using kload_ex_inv(2) k(1) by (auto simp: vm_inv_def)
  ultimately show ?thesis using F low(1)[of "0x80800000"] by auto
qed

lemma spawn_example:
  "\<exists>k fps. spawnable (kload_ex k) fps slot_ex 0x80400000 1 \<and> get_id_by_name [97, 0] (kload_ex k) = Inr 0 \<and>
    PGROUNDDOWN (app_info (kload_ex k) ! nat 0) = 0x80400000 \<and>
    PGROUNDUP (app_info (kload_ex k) ! nat (0 + 1)) = ustep 0x80400000 1"
proof -
  obtain k :: kmem and fps where k: "kmem_wf k fps" "length fps = 12" "\<forall>a \<in> set fps. 0x87ff4000 \<le> a"
    using twelve_pages by blast
  have low: "a \<notin> set fps" if "a < 0x87ff4000" for a using k(3) that by (auto simp: not_le[symmetric])
  have sp: "slot_pages slot_ex = {0x86001000, 0x86002000}" by (simp add: slot_pages_def slot_ex_def)
  have "spawnable (kload_ex k) fps slot_ex 0x80400000 1"
    unfolding spawnable_def
    using kload_ex_inv(2)[OF k(1)] k(2) low
    by (simp add: sp sources_ok_def) (simp add: slot_ex_def aligned_def TRAPFRAME_page(3))
  moreover have "strncmp [97, 0] (97 # replicate 99 0) 100 = Inr 0" by code_simp
  then have "get_id_by_name [97, 0] (kload_ex k) = Inr 0"
    by (simp add: get_id_by_name_def kload_ex_def)
  ultimately show ?thesis
    by (intro exI[of _ k] exI[of _ fps]) (simp add: kload_ex_def PGROUNDDOWN_def PGROUNDUP_def ustep_def)
qed


section \<open>Properties\<close>

text \<open>C6: \<open>fork\<close> of a process whose pages are present, with a free slot and enough free frames, returns the
  new pid. The child is runnable, has the caller as parent, shares its open descriptors, each counted once
  more, and resumes with the caller's registers but \<open>a0\<close> = 0; its memory below the caller's size holds
  the same bytes with the same rights, in frames of its own; nothing else in memory changes.\<close>

theorem fork_correct:
  assumes "kmem_wf s fps" "find_idx (\<lambda>p. pstate p = UNUSED) (pool s) = Some i"
    "pstate (cproc s) \<noteq> UNUSED" "forkable s fps (cproc s) (pool s ! i)"
  shows "\<exists>s' fps' c. fork s = Inr (PID s, s') \<and> pool s' = (pool s)[i := c] \<and> idle s' = idle s \<and>
    curr_proc s' = curr_proc s \<and> e_text s' = e_text s \<and>
    filepool s' = counted (filepool s) (files (cproc s)) 0 16 \<and>
    forked s (cproc s) (pool s ! i) s' c \<and> full_table s' (pagetable c) fps' (page_count (psz c)) \<and>
    space_pages (mem s') (pagetable c) (page_count (psz c)) \<union> set fps' = set fps \<and>
    same_memory (mem s) (pagetable (cproc s)) (mem s') (pagetable c) (page_count (psz (cproc s))) \<and>
    own_frames (mem s') (pagetable c) (page_count (psz (cproc s))) (set fps - set fps') \<and>
    same_off (slot_pages (pool s ! i) \<union> set fps) (mem s) (mem s')"
  by (rule fork_ok[OF assms])

theorem fork_correct_witness:
  "\<exists>(s :: kload) s' c. fork s = Inr (2, s') \<and> pool s' ! 1 = c \<and> pstate c = RUNNABLE \<and> pid c = 2 \<and>
     parent c = Some (Pool 0) \<and> uok (mem s) (pagetable (cproc s)) 0 \<and>
     same_memory (mem s) (pagetable (cproc s)) (mem s') (pagetable c) 1"
proof -
  obtain k fps where k: "kmem_wf (kload_ex k) fps" "forkable (kload_ex k) fps parent_ex slot_ex"
    "uok (mem k) 0x87fff000 0" using fork_example by blast
  let ?s = "kload_ex k"
  have u: "pstate (cproc ?s) \<noteq> UNUSED" unfolding kload_ex_proc(1) by (simp add: parent_ex_def)
  have F: "forkable ?s fps (cproc ?s) (pool ?s ! 1)" unfolding kload_ex_proc(1,2) by (rule k(2))
  obtain s' c where r: "fork ?s = Inr (PID ?s, s')" "pool s' = (pool ?s)[1 := c]" "forked ?s (cproc ?s) (pool ?s ! 1) s' c"
    "same_memory (mem ?s) (pagetable (cproc ?s)) (mem s') (pagetable c) (page_count (psz (cproc ?s)))"
    using fork_correct[OF k(1) kload_ex_find u F] by blast
  have pc: "page_count (psz (cproc ?s)) = 1" "pagetable (cproc ?s) = 0x87fff000"
    unfolding kload_ex_proc(1) by (simp_all add: parent_ex_def page_count_def)
  have "pool s' ! 1 = c" using r(2) by (simp add: kload_ex_def)
  moreover have "pstate c = RUNNABLE" "pid c = 2" "parent c = Some (Pool 0)"
    using r(3) unfolding forked_def kload_ex_proc(4,5) by simp_all
  moreover have "uok (mem ?s) (pagetable (cproc ?s)) 0" unfolding pc(2) kload_ex_proc(3) by (rule k(3))
  moreover have "same_memory (mem ?s) (pagetable (cproc ?s)) (mem s') (pagetable c) 1" using r(4) unfolding pc(1) .
  ultimately show ?thesis using r(1)[unfolded kload_ex_proc(5)] by blast
qed

text \<open>C9: \<open>spawn\<close> of a known program, with a free slot and enough free frames, returns the new pid. The new
  process is runnable, has the caller as parent, the program's bytes from \<open>BASE_ADDRESS\<close> on and a cleared
  stack page below, accessible from user mode; it starts at \<open>BASE_ADDRESS\<close> with the stack pointer at the
  top of its stack and all other registers 0. Every page that was free is now free still or the new process's;
  nothing else in memory changes.\<close>

theorem spawn_correct:
  assumes "find_idx (\<lambda>p. pstate p = UNUSED) (pool s) = Some i"
    "get_id_by_name name s = Inr k" "0 \<le> k"
    "PGROUNDDOWN (app_info s ! nat k) = b" "PGROUNDUP (app_info s ! nat (k + 1)) = ustep b n"
    "spawnable s fps (pool s ! i) b n"
  shows "\<exists>s' fps' c. spawn name s = Inr (of_int (PID s), s') \<and> pool s' = (pool s)[i := c] \<and> idle s' = idle s \<and>
    curr_proc s' = curr_proc s \<and> filepool s' = filepool s \<and> spawned s (pool s ! i) n b s' c \<and>
    full_table s' (pagetable c) fps' (Suc n) \<and> space_pages (mem s') (pagetable c) (Suc n) \<union> set fps' = set fps \<and>
    same_off (slot_pages (pool s ! i) \<union> set fps) (mem s) (mem s')"
  by (rule spawn_ok[OF assms])

theorem spawn_correct_witness:
  "\<exists>(s :: kload) s' c. spawn [97, 0] s = Inr (2, s') \<and> pool s' ! 1 = c \<and> pstate c = RUNNABLE \<and>
     parent c = Some (Pool 0) \<and> psz c = 8192 \<and> image_at (mem s') (pagetable c) (mem s) 0x80400000 1"
proof -
  obtain k fps where k: "spawnable (kload_ex k) fps slot_ex 0x80400000 1" "get_id_by_name [97, 0] (kload_ex k) = Inr 0"
    "PGROUNDDOWN (app_info (kload_ex k) ! nat 0) = 0x80400000"
    "PGROUNDUP (app_info (kload_ex k) ! nat (0 + 1)) = ustep 0x80400000 1" using spawn_example by blast
  let ?s = "kload_ex k"
  have S: "spawnable ?s fps (pool ?s ! 1) 0x80400000 1" unfolding kload_ex_proc(2) by (rule k(1))
  obtain s' c where r: "spawn [97, 0] ?s = Inr (of_int (PID ?s), s')" "pool s' = (pool ?s)[1 := c]"
    "spawned ?s (pool ?s ! 1) 1 0x80400000 s' c"
    using spawn_correct[OF kload_ex_find k(2) order_refl k(3,4) S] by blast
  have "pool s' ! 1 = c" using r(2) by (simp add: kload_ex_def)
  moreover have "pstate c = RUNNABLE" "parent c = Some (Pool 0)" "psz c = 8192"
    "image_at (mem s') (pagetable c) (mem ?s) 0x80400000 1"
    using r(3) unfolding spawned_def program_ready_def kload_ex_proc(4,5) by simp_all
  moreover have "spawn [97, 0] ?s = Inr (2, s')" using r(1) by (simp add: kload_ex_proc(5))
  ultimately show ?thesis by blast
qed

end
