(* ===== verification/ExitProcess.thy ===== *)
theory ExitProcess
  imports FreeSpace NewProcess
begin

text \<open>
  The end of a process, \<open>exit\<close> of \<open>kernel/proc.c\<close>: its memory goes back to the allocator, its descriptors
  are given up. With \<open>fork\<close> before and \<open>wait\<close> after it this is the whole life of a child.
\<close>

section \<open>Giving up the descriptors\<close>

text \<open>How many of the descriptors \<open>i\<close> to \<open>i + n\<close> name the file \<open>f\<close>.\<close>

definition uses :: "nat option list \<Rightarrow> nat \<Rightarrow> nat \<Rightarrow> nat \<Rightarrow> nat" where
  "uses ps i n f = length (filter (\<lambda>j. ps ! j = Some f) [i..<i + n])"

definition uncounted :: "ofile list \<Rightarrow> nat option list \<Rightarrow> nat \<Rightarrow> nat \<Rightarrow> ofile list" where
  "uncounted fp ps i n = map (\<lambda>f. (fp ! f)\<lparr>f_ref := f_ref (fp ! f) - int (uses ps i n f)\<rparr>) [0..<length fp]"

definition cleared :: "nat option list \<Rightarrow> nat \<Rightarrow> nat \<Rightarrow> nat option list" where
  "cleared ps i n = map (\<lambda>j. if i \<le> j \<and> j < i + n then None else ps ! j) [0..<length ps]"

text \<open>Every file is open elsewhere too.\<close>

definition elsewhere :: "ofile list \<Rightarrow> nat option list \<Rightarrow> nat \<Rightarrow> nat \<Rightarrow> bool" where
  "elsewhere fp ps i n \<longleftrightarrow>
     (\<forall>j f. i \<le> j \<and> j < i + n \<and> ps ! j = Some f \<longrightarrow> f < length fp \<and> int (uses ps i n f) < f_ref (fp ! f))"

lemma uses_0 [simp]: "uses ps i 0 f = 0"
  by (simp add: uses_def)

lemma uses_Suc: "uses ps i (Suc n) f = (if ps ! i = Some f then 1 else 0) + uses ps (Suc i) n f"
  unfolding uses_def range_Suc by simp

lemma uses_update: "uses (ps[i := d]) (Suc i) n f = uses ps (Suc i) n f"
  unfolding uses_def by (rule arg_cong[of _ _ length], rule filter_cong) auto

lemma uncounted_0 [simp]: "uncounted fp ps i 0 = fp"
  by (rule nth_equalityI) (simp_all add: uncounted_def)

lemma cleared_0 [simp]: "cleared ps i 0 = ps"
  by (rule nth_equalityI) (auto simp: cleared_def)

lemma uncounted_skip: "ps ! i = None \<Longrightarrow> uncounted fp ps i (Suc n) = uncounted fp ps (Suc i) n"
  by (simp add: uncounted_def uses_Suc)

lemma uncounted_step:
  assumes "ps ! i = Some f" "f < length fp"
  shows "uncounted fp ps i (Suc n) = uncounted (fp[f := (fp ! f)\<lparr>f_ref := f_ref (fp ! f) - 1\<rparr>]) (ps[i := None]) (Suc i) n"
  unfolding uncounted_def uses_Suc uses_update using assms by (auto simp: nth_list_update)

lemma cleared_skip: "ps ! i = None \<Longrightarrow> cleared ps i (Suc n) = cleared ps (Suc i) n"
  unfolding cleared_def by (rule map_cong[OF refl]) (auto simp: le_less Suc_le_eq)

lemma cleared_step: "cleared ps i (Suc n) = cleared (ps[i := None]) (Suc i) n"
  unfolding cleared_def by (rule nth_equalityI) (auto simp: nth_list_update le_less Suc_le_eq)

lemma elsewhereD:
  "elsewhere fp ps i n \<Longrightarrow> i \<le> j \<Longrightarrow> j < i + n \<Longrightarrow> ps ! j = Some f \<Longrightarrow> f < length fp \<and> int (uses ps i n f) < f_ref (fp ! f)"
  by (simp add: elsewhere_def)

lemma elsewhere_skip:
  assumes "elsewhere fp ps i (Suc n)" "ps ! i = None"
  shows "elsewhere fp ps (Suc i) n"
  unfolding elsewhere_def
proof (intro allI impI)
  fix j f assume "Suc i \<le> j \<and> j < Suc i + n \<and> ps ! j = Some f"
  then have "f < length fp \<and> int (uses ps i (Suc n) f) < f_ref (fp ! f)"
    by (intro elsewhereD[OF assms(1), of j]) auto
  then show "f < length fp \<and> int (uses ps (Suc i) n f) < f_ref (fp ! f)" using assms(2) by (simp add: uses_Suc)
qed

lemma elsewhere_step:
  assumes "elsewhere fp ps i (Suc n)" "ps ! i = Some f"
  shows "elsewhere (fp[f := (fp ! f)\<lparr>f_ref := f_ref (fp ! f) - 1\<rparr>]) (ps[i := None]) (Suc i) n"
  unfolding elsewhere_def
proof (intro allI impI)
  fix j g assume j: "Suc i \<le> j \<and> j < Suc i + n \<and> ps[i := None] ! j = Some g"
  then have "ps ! j = Some g" by (cases "j = i") auto
  then have "g < length fp \<and> int (uses ps i (Suc n) g) < f_ref (fp ! g)"
    using j by (intro elsewhereD[OF assms(1), of j]) auto
  then show "g < length (fp[f := (fp ! f)\<lparr>f_ref := f_ref (fp ! f) - 1\<rparr>]) \<and>
      int (uses (ps[i := None]) (Suc i) n g) < f_ref (fp[f := (fp ! f)\<lparr>f_ref := f_ref (fp ! f) - 1\<rparr>] ! g)"
    using assms(2) by (cases "f = g") (auto simp: uses_Suc uses_update)
qed

lemma fileclose_shared:
  assumes "1 < f_ref (filepool s ! f)" "f < length (filepool s)"
  shows "fileclose f s = Inr (upd_file f (\<lambda>x. x\<lparr>f_ref := f_ref x - 1\<rparr>) s)"
  using assms by (simp add: fileclose_def Let_def upd_file_def)

lemma close_loop_ok:
  assumes "k < length (pool s)" "elsewhere (filepool s) (files (pool s ! k)) i n" "i + n \<le> length (files (pool s ! k))"
  shows "close_loop n i (Pool k) s = Inr (s\<lparr>filepool := uncounted (filepool s) (files (pool s ! k)) i n,
      pool := (pool s)[k := (pool s ! k)\<lparr>files := cleared (files (pool s ! k)) i n\<rparr>]\<rparr>)"
  using assms
proof (induction n arbitrary: i s)
  case (Suc n)
  let ?ps = "files (pool s ! k)"
  show ?case
  proof (cases "?ps ! i")
    case None
    have "close_loop (Suc n) i (Pool k) s = close_loop n (Suc i) (Pool k) s" using None by (simp add: proc_at_def)
    also have "\<dots> = Inr (s\<lparr>filepool := uncounted (filepool s) ?ps (Suc i) n,
      pool := (pool s)[k := (pool s ! k)\<lparr>files := cleared ?ps (Suc i) n\<rparr>]\<rparr>)"
      using Suc.IH[of s "Suc i"] Suc.prems elsewhere_skip[OF Suc.prems(2) None] by simp
    finally show ?thesis unfolding uncounted_skip[OF None] cleared_skip[OF None] .
  next
    case (Some f)
    let ?fp = "(filepool s)[f := (filepool s ! f)\<lparr>f_ref := f_ref (filepool s ! f) - 1\<rparr>]"
    let ?s = "s\<lparr>filepool := ?fp, pool := (pool s)[k := (pool s ! k)\<lparr>files := ?ps[i := None]\<rparr>]\<rparr>"
    have f: "f < length (filepool s)" "int (uses ?ps i (Suc n) f) < f_ref (filepool s ! f)"
      using elsewhereD[OF Suc.prems(2), of i f] Some by auto
    then have "1 < f_ref (filepool s ! f)" using Some by (simp add: uses_Suc)
    note cl = fileclose_shared[OF this f(1)]
    have "close_loop (Suc n) i (Pool k) s = close_loop n (Suc i) (Pool k) ?s"
      using Some cl by (simp add: upd_file_def set_proc_Pool)
    also have "\<dots> = Inr (?s\<lparr>filepool := uncounted (filepool ?s) (files (pool ?s ! k)) (Suc i) n,
      pool := (pool ?s)[k := (pool ?s ! k)\<lparr>files := cleared (files (pool ?s ! k)) (Suc i) n\<rparr>]\<rparr>)"
      by (rule Suc.IH) (use Suc.prems elsewhere_step[OF Suc.prems(2) Some] in simp_all)
    also have "\<dots> = Inr (s\<lparr>filepool := uncounted (filepool s) ?ps i (Suc n),
      pool := (pool s)[k := (pool s ! k)\<lparr>files := cleared ?ps i (Suc n)\<rparr>]\<rparr>)"
      unfolding uncounted_step[OF Some f(1)] cleared_step[of ?ps] using Suc.prems(1) by simp
    finally show ?thesis .
  qed
qed simp

section \<open>exit\<close>

definition departed :: "proc \<Rightarrow> int \<Rightarrow> proc" where
  "departed p code = p\<lparr>exit_code := of_int code, pagetable := 0, pstate := (if parent p = None then UNUSED else ZOMBIE),
     files := cleared (files p) 0 16\<rparr>"

lemma exit_ok:
  assumes cur: "curr_proc s = Pool i" "i < length (pool s)" and p: "pool s ! i = p"
    and F: "full_table s (pagetable p) fps (page_count (psz p))" and sz: "psz p \<le> TRAPFRAME"
    and e: "elsewhere (filepool s) (files p) 0 16" "16 \<le> length (files p)"
  shows "\<exists>s' fps'. exit code s = Inr s' \<and> pool s' = (pool s)[i := departed p code] \<and> idle s' = idle s \<and>
    current_proc s' = Some Idle \<and> PID s' = PID s \<and> e_text s' = e_text s \<and>
    filepool s' = uncounted (filepool s) (files p) 0 16 \<and>
    kmem_wf s' fps' \<and> set fps' = space_pages (mem s) (pagetable p) (page_count (psz p)) \<union> set fps \<and>
    same_off (space_pages (mem s) (pagetable p) (page_count (psz p))) (mem s) (mem s')"
proof -
  let ?P = "space_pages (mem s) (pagetable p) (page_count (psz p))" and ?p0 = "p\<lparr>exit_code := of_int code\<rparr>"
  let ?s0 = "s\<lparr>pool := (pool s)[i := ?p0]\<rparr>"
  have "vm_inv s (pagetable p) fps" using F by (simp add: full_table_def)
  then have "pt_wf (mem s) (pagetable p)" by (simp add: vm_inv_def)
  then have root: "pagetable p \<noteq> 0" using pt_wf_page[of "mem s" "pagetable p"] root_in_pt_pages by blast
  have F0: "full_table ?s0 (pagetable p) fps (page_count (psz p))"
    using full_table_same_off(1)[OF F, of "{}" ?s0] by simp
  obtain s1 fps1 where a: "proc_freepagetable (pagetable p) (psz p) ?s0 = Inr s1"
    "released ?s0 fps ?P s1 fps1" "same_off ?P (mem s) (mem s1)"
    using proc_freepagetable_ok[OF F0 sz] by auto
  note m = proc_freepagetable_mem_only[OF a(1)]
  note f = mem_only_fields[OF m] mem_only_curr_proc[OF m] mem_only_more[OF m]
  have fp1: "filepool s1 = filepool s" by (rule filepool_more) (use mem_only_more[OF m] in simp)
  let ?p2 = "?p0\<lparr>pagetable := 0, pstate := UNUSED\<rparr>"
  let ?s2 = "s1\<lparr>pool := (pool s)[i := ?p2]\<rparr>"
  have p2: "pool ?s2 ! i = ?p2" "i < length (pool ?s2)" using cur(2) by simp_all
  let ?s3 = "?s2\<lparr>filepool := uncounted (filepool s) (files p) 0 16,
    pool := (pool s)[i := ?p2\<lparr>files := cleared (files p) 0 16\<rparr>]\<rparr>"
  have cl: "close_loop 16 0 (Pool i) ?s2 = Inr ?s3"
    using close_loop_ok[OF p2(2), of 0 16] e fp1 unfolding p2(1) by simp
  have fr: "freeproc (Pool i) ?s0 = Inr ?s3"
    using a(1) cl root f(1) cur(2) by (simp add: freeproc_def proc_at_def set_proc_def)
  let ?s4 = "?s3\<lparr>pool := (pool s)[i := departed p code], current_proc := Some Idle\<rparr>"
  have c3: "curr_proc ?s3 = Pool i" using f cur(1) by (simp add: curr_proc_def)
  have dep: "parent p \<noteq> None \<Longrightarrow> ?p2\<lparr>files := cleared (files p) 0 16, pstate := ZOMBIE\<rparr> = departed p code"
    "parent p = None \<Longrightarrow> ?p2\<lparr>files := cleared (files p) 0 16\<rparr> = departed p code"
    by (cases p; simp add: departed_def)+
  have ex: "exit code s = Inr ?s4"
  proof (cases "parent p = None")
    case True
    then show ?thesis
      using fr p cur c3 by (simp add: exit_def Let_def proc_at_def set_proc_def sched_def dep(2)[OF True, symmetric])
  next
    case False
    then show ?thesis
      using fr p cur c3 by (simp add: exit_def Let_def proc_at_def set_proc_def sched_def curr_proc_def dep(1)[OF False, symmetric] del: not_None_eq)
  qed
  have "kmem_wf ?s4 fps1" "set fps1 = ?P \<union> set fps" using releasedD[OF a(2)] by (simp_all add: kmem_wf_def)
  moreover have "idle ?s4 = idle s" "PID ?s4 = PID s" "e_text ?s4 = e_text s" using f by simp_all
  ultimately show ?thesis using ex a(3) by (intro exI[of _ ?s4] exI[of _ fps1]) simp
qed

section \<open>The life of a child\<close>

text \<open>What \<open>fork\<close> counted, \<open>exit\<close> takes back.\<close>

lemma shared_nth:
  "j < 16 \<Longrightarrow> shared fp ps 0 16 (replicate 16 None) ! j = (if is_open fp (ps ! j) then ps ! j else None)"
  by (simp add: shared_def)

lemma uses_shared:
  assumes "f < length fp"
  shows "uses (shared fp ps 0 16 (replicate 16 None)) 0 16 f = (if f_type (fp ! f) = FD_NONE then 0 else uses ps 0 16 f)"
proof -
  have "filter (\<lambda>j. shared fp ps 0 16 (replicate 16 None) ! j = Some f) [0..<0 + 16] =
      filter (\<lambda>j. ps ! j = Some f \<and> f_type (fp ! f) \<noteq> FD_NONE) [0..<0 + 16]"
    by (rule filter_cong[OF refl]) (auto simp: shared_nth is_open_def split: option.splits if_splits)
  then show ?thesis by (simp add: uses_def)
qed

lemma counted_nth: "f < length fp \<Longrightarrow> counted fp ps 0 16 ! f =
   (if f_type (fp ! f) = FD_NONE then fp ! f else (fp ! f)\<lparr>f_ref := f_ref (fp ! f) + int (uses ps 0 16 f)\<rparr>)"
  by (simp add: counted_def uses_def)

lemma length_counted [simp]: "length (counted fp ps i n) = length fp"
  by (simp add: counted_def)

lemma uncounted_counted:
  "uncounted (counted fp ps 0 16) (shared fp ps 0 16 (replicate 16 None)) 0 16 = fp"
proof (rule nth_equalityI)
  show "length (uncounted (counted fp ps 0 16) (shared fp ps 0 16 (replicate 16 None)) 0 16) = length fp"
    by (simp add: uncounted_def)
next
  fix f assume "f < length (uncounted (counted fp ps 0 16) (shared fp ps 0 16 (replicate 16 None)) 0 16)"
  then have f: "f < length fp" by (simp add: uncounted_def)
  then show "uncounted (counted fp ps 0 16) (shared fp ps 0 16 (replicate 16 None)) 0 16 ! f = fp ! f"
    by (simp add: uncounted_def counted_nth uses_shared)
qed

lemma counted_elsewhere:
  assumes "\<forall>j<16. \<forall>f. ps ! j = Some f \<longrightarrow> f < length fp \<and> 0 < f_ref (fp ! f)"
  shows "elsewhere (counted fp ps 0 16) (shared fp ps 0 16 (replicate 16 None)) 0 16"
  unfolding elsewhere_def
proof (intro allI impI)
  fix j f assume a: "0 \<le> j \<and> j < 0 + 16 \<and> shared fp ps 0 16 (replicate 16 None) ! j = Some f"
  then have p: "ps ! j = Some f" "f_type (fp ! f) \<noteq> FD_NONE"
    by (auto simp: shared_nth is_open_def split: if_splits)
  then have "f < length fp" "0 < f_ref (fp ! f)" using assms a by auto
  then show "f < length (counted fp ps 0 16) \<and>
      int (uses (shared fp ps 0 16 (replicate 16 None)) 0 16 f) < f_ref (counted fp ps 0 16 ! f)"
    using p(2) by (simp add: counted_nth uses_shared)
qed

text \<open>\<open>wait\<close> for a child: it waits for one that runs, and takes the code of one that has exited.\<close>

lemma only_child:
  assumes "i < length ps" "is_child r pd (ps ! i)" "\<And>k. k < length ps \<Longrightarrow> k \<noteq> i \<Longrightarrow> \<not> is_child r pd (ps ! k)"
  shows "find_idx (\<lambda>np. is_child r pd np \<and> pstate np = ZOMBIE) ps = (if pstate (ps ! i) = ZOMBIE then Some i else None)"
    "\<exists>np \<in> set ps. is_child r pd np"
proof -
  show "\<exists>np \<in> set ps. is_child r pd np" using assms(1,2) by (meson nth_mem)
  show "find_idx (\<lambda>np. is_child r pd np \<and> pstate np = ZOMBIE) ps = (if pstate (ps ! i) = ZOMBIE then Some i else None)"
  proof (cases "pstate (ps ! i) = ZOMBIE")
    case True
    then show ?thesis using assms by (auto simp: find_idx_Some)
  next
    case False
    then have "\<forall>x \<in> set ps. \<not> (is_child r pd x \<and> pstate x = ZOMBIE)" using assms(3) by (metis in_set_conv_nth)
    then show ?thesis using False by (simp add: find_idx_None)
  qed
qed

lemma wait_runs:
  assumes "curr_proc s = Pool j" "j < length (pool s)" "i < length (pool s)" "is_child (Pool j) pd (pool s ! i)"
    "\<And>k. k < length (pool s) \<Longrightarrow> k \<noteq> i \<Longrightarrow> \<not> is_child (Pool j) pd (pool s ! k)" "pstate (pool s ! i) \<noteq> ZOMBIE"
  shows "wait pd code s = Inr (Yield 0, s\<lparr>pool := (pool s)[j := (pool s ! j)\<lparr>pstate := RUNNABLE\<rparr>], current_proc := Some Idle\<rparr>)"
proof -
  have "curr_proc (s\<lparr>pool := (pool s)[j := (pool s ! j)\<lparr>pstate := RUNNABLE\<rparr>]\<rparr>) = Pool j"
    using assms(1) by (simp add: curr_proc_def)
  then show ?thesis
    using only_child[OF assms(3-5)] assms(1,2,6) by (simp add: wait_def Let_def set_proc_def proc_at_def sched_def)
qed

lemma wait_takes:
  assumes "curr_proc s = Pool j" "i < length (pool s)" "is_child (Pool j) pd (pool s ! i)"
    "\<And>k. k < length (pool s) \<Longrightarrow> k \<noteq> i \<Longrightarrow> \<not> is_child (Pool j) pd (pool s ! k)" "pstate (pool s ! i) = ZOMBIE"
    "kwritable s code 4"
  shows "wait pd code s = Inr (Ret (pid (pool s ! i)), s\<lparr>pool := (pool s)[i := (pool s ! i)\<lparr>pstate := UNUSED\<rparr>],
    mem := store32 (mem s) code (ucast (exit_code (pool s ! i)))\<rparr>)"
  using only_child[OF assms(2-4)] assms(1,2,5,6) by (simp add: wait_def Let_def kwritable_def)

lemma store32_off:
  assumes "unat a mod 4096 + 4 \<le> 4096"
  shows "same_off {PGROUNDDOWN a} m (store32 m a v)"
proof -
  have "a = PGROUNDDOWN a + of_nat (unat a mod 4096)" by (rule page_split)
  then show ?thesis
    unfolding store32_def using wr_same_off[of "PGROUNDDOWN a" "unat a mod 4096" "to_le 4 v" m] assms
    by (simp add: aligned_PGROUNDDOWN)
qed

text \<open>What the life of a child needs beyond what \<open>fork\<close> needs: nobody else has the new pid, the caller's files are open,
  and the exit code has a place outside the free pages.\<close>

definition raisable :: "'a kfile_scheme \<Rightarrow> u64 list \<Rightarrow> nat \<Rightarrow> nat \<Rightarrow> u64 \<Rightarrow> bool" where
  "raisable s fps j i code \<longleftrightarrow>
     curr_proc s = Pool j \<and> j < length (pool s) \<and> pstate (pool s ! j) = RUNNING \<and> 0 < PID s \<and>
     files (pool s ! i) = replicate 16 None \<and>
     (\<forall>k<16. \<forall>f. files (pool s ! j) ! k = Some f \<longrightarrow> f < length (filepool s) \<and> 0 < f_ref (filepool s ! f)) \<and>
     (\<forall>k<length (pool s). k \<noteq> i \<longrightarrow> pstate (pool s ! k) = UNUSED \<or> pid (pool s ! k) \<noteq> PID s) \<and>
     kwritable s code 4 \<and> unat code mod 4096 + 4 \<le> 4096 \<and> PGROUNDDOWN code \<notin> set fps"

lemma raisableD:
  assumes "raisable s fps j i code"
  shows "curr_proc s = Pool j" "j < length (pool s)" "pstate (pool s ! j) = RUNNING" "0 < PID s"
    "files (pool s ! i) = replicate 16 None"
    "\<forall>k<16. \<forall>f. files (pool s ! j) ! k = Some f \<longrightarrow> f < length (filepool s) \<and> 0 < f_ref (filepool s ! f)"
    "\<And>k. k < length (pool s) \<Longrightarrow> k \<noteq> i \<Longrightarrow> pstate (pool s ! k) = UNUSED \<or> pid (pool s ! k) \<noteq> PID s"
    "kwritable s code 4" "unat code mod 4096 + 4 \<le> 4096" "PGROUNDDOWN code \<notin> set fps"
  using assms unfolding raisable_def by blast+

text \<open>No other process is a child the caller waits for.\<close>

lemma not_child:
  assumes "raisable s fps j i code" "k < length (pool s)" "k \<noteq> i" "slot_of x = slot_of (pool s ! k)"
  shows "\<not> is_child (Pool j) (PID s) x"
  using raisableD(7)[OF assms(1-3)] raisableD(4)[OF assms(1)] assms(4) by (auto simp: is_child_def slot_of_def)

text \<open>The caller forks and waits, and the child runs.\<close>

lemma birth_ok:
  assumes kw: "kmem_wf s fps" and i: "find_idx (\<lambda>p. pstate p = UNUSED) (pool s) = Some i"
    and R: "raisable s fps j i code" and F: "forkable s fps (pool s ! j) (pool s ! i)"
  obtains s1 s2 ch fps1 where "fork s = Inr (PID s, s1)" "wait (PID s) code s1 = Inr (Yield 0, s2)"
    "pool (switch_to i s2) = (pool s)[j := (pool s ! j)\<lparr>pstate := RUNNABLE\<rparr>, i := ch]"
    "curr_proc (switch_to i s2) = Pool i" "e_text (switch_to i s2) = e_text s"
    "pid ch = PID s" "parent ch = Some (Pool j)" "psz ch = psz (pool s ! j)"
    "files ch = shared (filepool s) (files (pool s ! j)) 0 16 (replicate 16 None)"
    "filepool (switch_to i s2) = counted (filepool s) (files (pool s ! j)) 0 16"
    "full_table (switch_to i s2) (pagetable ch) fps1 (page_count (psz ch))"
    "space_pages (mem (switch_to i s2)) (pagetable ch) (page_count (psz ch)) \<union> set fps1 = set fps"
    "same_off (slot_pages (pool s ! i) \<union> set fps) (mem s) (mem (switch_to i s2))"
proof -
  note r = raisableD[OF R]
  let ?p = "pool s ! j" and ?q = "pool s ! i"
  have il: "i < length (pool s)" "pstate ?q = UNUSED" using i by (simp_all add: find_idx_Some)
  have ij: "i \<noteq> j" using il(2) r(3) by auto
  have cp: "cproc s = ?p" using r(1) by (simp add: proc_at_def)
  have u: "pstate (cproc s) \<noteq> UNUSED" "forkable s fps (cproc s) ?q" using r(3) F unfolding cp by simp_all
  obtain s1 fps1 ch where f: "fork s = Inr (PID s, s1)" "pool s1 = (pool s)[i := ch]" "idle s1 = idle s"
    "curr_proc s1 = curr_proc s" "e_text s1 = e_text s" "filepool s1 = counted (filepool s) (files (cproc s)) 0 16"
    "forked s (cproc s) ?q s1 ch" "full_table s1 (pagetable ch) fps1 (page_count (psz ch))"
    "space_pages (mem s1) (pagetable ch) (page_count (psz ch)) \<union> set fps1 = set fps"
    "same_off (slot_pages ?q \<union> set fps) (mem s) (mem s1)"
    using fork_ok[OF kw i u] by blast
  have ch: "pstate ch = RUNNABLE" "pid ch = PID s" "parent ch = Some (Pool j)" "psz ch = psz ?p"
    "files ch = shared (filepool s) (files ?p) 0 16 (replicate 16 None)"
    using f(7) unfolding forked_def cp r(1,5) by simp_all
  define s2 where "s2 = s1\<lparr>pool := (pool s1)[j := (pool s1 ! j)\<lparr>pstate := RUNNABLE\<rparr>], current_proc := Some Idle\<rparr>"
  have w: "wait (PID s) code s1 = Inr (Yield 0, s2)"
    unfolding s2_def
  proof (rule wait_runs[where i = i])
    show "is_child (Pool j) (PID s) (pool s1 ! i)" using f(2) il ch by (simp add: is_child_def)
    show "\<not> is_child (Pool j) (PID s) (pool s1 ! k)" if "k < length (pool s1)" "k \<noteq> i" for k
      using not_child[OF R, of k] that f(2) by simp
  qed (use f(2,4) r(1,2) il ch in auto)
  let ?s = "switch_to i s2"
  have pl: "pool ?s = (pool s)[j := ?p\<lparr>pstate := RUNNABLE\<rparr>, i := ch\<lparr>pstate := RUNNING\<rparr>]"
    using f(2) ij il(1) by (simp add: s2_def switch_to_def Let_def list_update_swap[of i j])
  have sw: "mem ?s = mem s1" "filepool ?s = filepool s1" "e_text ?s = e_text s"
    "freelist ?s = freelist s1" "ekernel ?s = ekernel s1" "curr_proc ?s = Pool i"
    using f(5) by (simp_all add: s2_def switch_to_def Let_def curr_proc_def)
  have T: "full_table ?s (pagetable ch) fps1 (page_count (psz ch))"
    "space_pages (mem ?s) (pagetable ch) (page_count (psz ch)) \<union> set fps1 = set fps"
    using full_table_same_off[OF f(8), of "{}" ?s] f(9) sw by simp_all
  show thesis
    by (rule that[OF f(1) w pl sw(6,3)]) (use ch T f(6,10) sw cp in simp_all)
qed

text \<open>The child has exited, and the caller runs again.\<close>

lemma reap_ok:
  assumes R: "raisable s fps j i code" and i: "i < length (pool s)" "i \<noteq> j"
    and s3: "pool s3 = (pool s)[j := (pool s ! j)\<lparr>pstate := RUNNABLE\<rparr>, i := z]" "e_text s3 = e_text s"
      "kmem_wf s3 fps3" "set fps3 = set fps"
    and z: "pstate z = ZOMBIE" "pid z = PID s" "parent z = Some (Pool j)" "exit_code z = of_int c"
  shows "\<exists>s4. wait (PID s) code (switch_to j s3) = Inr (Ret (PID s), s4) \<and> load32 (mem s4) code = of_int c \<and>
    filepool s4 = filepool s3 \<and> kmem_wf s4 fps3 \<and> curr_proc s4 = Pool j \<and>
    pool s4 = (pool s)[i := z\<lparr>pstate := UNUSED\<rparr>] \<and> same_off {PGROUNDDOWN code} (mem s3) (mem s4)"
proof -
  note r = raisableD[OF R]
  have p3: "pool (switch_to j s3) = (pool s)[i := z]"
  proof -
    have "(pool s ! j)\<lparr>pstate := RUNNING\<rparr> = pool s ! j" using r(3) by (cases "pool s ! j") simp
    then show ?thesis
      using i r(2) by (intro nth_equalityI) (auto simp: switch_to_def Let_def s3(1) nth_list_update)
  qed
  have sw: "mem (switch_to j s3) = mem s3" "filepool (switch_to j s3) = filepool s3" "curr_proc (switch_to j s3) = Pool j"
    "kwritable (switch_to j s3) code 4" "freelist (switch_to j s3) = freelist s3" "ekernel (switch_to j s3) = ekernel s3"
    using s3(2) r(8) by (simp_all add: switch_to_def Let_def curr_proc_def kwritable_def)
  define s4 where "s4 = (switch_to j s3)\<lparr>pool := (pool s)[i := z\<lparr>pstate := UNUSED\<rparr>], mem := store32 (mem s3) code (of_int c)\<rparr>"
  have "wait (PID s) code (switch_to j s3) = Inr (Ret (pid (pool (switch_to j s3) ! i)), (switch_to j s3)\<lparr>
      pool := (pool (switch_to j s3))[i := (pool (switch_to j s3) ! i)\<lparr>pstate := UNUSED\<rparr>],
      mem := store32 (mem (switch_to j s3)) code (ucast (exit_code (pool (switch_to j s3) ! i)))\<rparr>)"
  proof (rule wait_takes[OF sw(3) _ _ _ _ sw(4)])
    show "is_child (Pool j) (PID s) (pool (switch_to j s3) ! i)" using i z by (simp add: p3 is_child_def)
    show "\<not> is_child (Pool j) (PID s) (pool (switch_to j s3) ! k)" if "k < length (pool (switch_to j s3))" "k \<noteq> i" for k
      using not_child[OF R, of k] that by (simp add: p3)
  qed (use i z in \<open>simp_all add: p3\<close>)
  moreover have "(ucast (of_int c :: u64) :: u32) = of_int c"
    by (rule bit_word_eqI) (simp add: bit_simps)
  ultimately have w: "wait (PID s) code (switch_to j s3) = Inr (Ret (PID s), s4)"
    using z i(1) by (simp add: p3 sw(1) s4_def)
  have off: "same_off {PGROUNDDOWN code} (mem s3) (mem s4)" using store32_off[OF r(9)] by (simp add: s4_def)
  have "chain (mem s4) (freelist s3) fps3"
    by (rule chain_same_off[OF _ off]) (use s3(3,4) r(10) in \<open>auto simp: kmem_wf_def\<close>)
  then have "kmem_wf s4 fps3" using s3(3) sw by (simp add: kmem_wf_def s4_def)
  moreover have "load32 (mem s4) code = of_int c" by (simp add: s4_def mem_simps)
  moreover have "filepool s4 = filepool s3" "curr_proc s4 = Pool j" "pool s4 = (pool s)[i := z\<lparr>pstate := UNUSED\<rparr>]"
    using sw(2,3) by (simp_all add: s4_def curr_proc_def)
  ultimately show ?thesis using w off by blast
qed

lemma life_ok:
  assumes kw: "kmem_wf s fps" and i: "find_idx (\<lambda>p. pstate p = UNUSED) (pool s) = Some i"
    and R: "raisable s fps j i code" and F: "forkable s fps (pool s ! j) (pool s ! i)"
  shows "\<exists>s1 s2 s3 s4 fps' z. fork s = Inr (PID s, s1) \<and> wait (PID s) code s1 = Inr (Yield 0, s2) \<and>
    exit c (switch_to i s2) = Inr s3 \<and> wait (PID s) code (switch_to j s3) = Inr (Ret (PID s), s4) \<and>
    load32 (mem s4) code = of_int c \<and> filepool s4 = filepool s \<and> kmem_wf s4 fps' \<and> set fps' = set fps \<and>
    curr_proc s4 = Pool j \<and> pstate z = UNUSED \<and> pool s4 = (pool s)[i := z] \<and>
    same_off (insert (PGROUNDDOWN code) (slot_pages (pool s ! i) \<union> set fps)) (mem s) (mem s4)"
proof -
  note r = raisableD[OF R]
  let ?p = "pool s ! j" and ?q = "pool s ! i"
  have il: "i < length (pool s)" "pstate ?q = UNUSED" using i by (simp_all add: find_idx_Some)
  have ij: "i \<noteq> j" using il(2) r(3) by auto
  obtain s1 s2 ch fps1 where b: "fork s = Inr (PID s, s1)" "wait (PID s) code s1 = Inr (Yield 0, s2)"
    "pool (switch_to i s2) = (pool s)[j := ?p\<lparr>pstate := RUNNABLE\<rparr>, i := ch]"
    "curr_proc (switch_to i s2) = Pool i" "e_text (switch_to i s2) = e_text s"
    "pid ch = PID s" "parent ch = Some (Pool j)" "psz ch = psz ?p"
    "files ch = shared (filepool s) (files ?p) 0 16 (replicate 16 None)"
    "filepool (switch_to i s2) = counted (filepool s) (files ?p) 0 16"
    "full_table (switch_to i s2) (pagetable ch) fps1 (page_count (psz ch))"
    "space_pages (mem (switch_to i s2)) (pagetable ch) (page_count (psz ch)) \<union> set fps1 = set fps"
    "same_off (slot_pages ?q \<union> set fps) (mem s) (mem (switch_to i s2))"
    by (rule birth_ok[OF kw i R F]) (rule that; assumption)
  have i2: "i < length (pool (switch_to i s2))" "pool (switch_to i s2) ! i = ch" unfolding b(3) using il by simp_all
  have sz: "psz ch \<le> TRAPFRAME" using forkableD(1)[OF F] b(8) by simp
  have el: "elsewhere (filepool (switch_to i s2)) (files ch) 0 16" "16 \<le> length (files ch)"
    unfolding b(9,10) using counted_elsewhere[OF r(6)] by (simp_all add: shared_def)
  obtain s3 fps3 where e: "exit c (switch_to i s2) = Inr s3" "pool s3 = (pool (switch_to i s2))[i := departed ch c]"
    "e_text s3 = e_text s" "filepool s3 = filepool s" "kmem_wf s3 fps3" "set fps3 = set fps"
    "same_off (set fps) (mem (switch_to i s2)) (mem s3)"
  proof -
    obtain s3 fps3 where e: "exit c (switch_to i s2) = Inr s3" "pool s3 = (pool (switch_to i s2))[i := departed ch c]"
      "e_text s3 = e_text (switch_to i s2)" "filepool s3 = uncounted (filepool (switch_to i s2)) (files ch) 0 16"
      "kmem_wf s3 fps3" "set fps3 = space_pages (mem (switch_to i s2)) (pagetable ch) (page_count (psz ch)) \<union> set fps1"
      "same_off (space_pages (mem (switch_to i s2)) (pagetable ch) (page_count (psz ch))) (mem (switch_to i s2)) (mem s3)"
      using exit_ok[OF b(4) i2 b(11) sz el, of c] by blast
    have "filepool s3 = filepool s" unfolding e(4) b(9,10) by (rule uncounted_counted)
    moreover have "same_off (set fps) (mem (switch_to i s2)) (mem s3)"
      by (rule same_off_mono[OF e(7)]) (use b(12) in auto)
    ultimately show thesis using that[OF e(1,2)] e(3,5,6) b(5,12) by simp
  qed
  have p3: "pool s3 = (pool s)[j := ?p\<lparr>pstate := RUNNABLE\<rparr>, i := departed ch c]" unfolding e(2) b(3) by simp
  obtain s4 where w: "wait (PID s) code (switch_to j s3) = Inr (Ret (PID s), s4)" "load32 (mem s4) code = of_int c"
    "filepool s4 = filepool s3" "kmem_wf s4 fps3" "curr_proc s4 = Pool j"
    "pool s4 = (pool s)[i := (departed ch c)\<lparr>pstate := UNUSED\<rparr>]" "same_off {PGROUNDDOWN code} (mem s3) (mem s4)"
    using reap_ok[OF R il(1) ij p3 e(3,5,6)] b(6,7) by (force simp: departed_def)
  have "same_off (slot_pages ?q \<union> set fps) (mem s) (mem s3)" by (rule same_off_trans[OF b(13) e(7)]) auto
  then have off: "same_off (insert (PGROUNDDOWN code) (slot_pages ?q \<union> set fps)) (mem s) (mem s4)"
    by (rule same_off_trans[OF _ w(7)]) auto
  have un: "pstate ((departed ch c)\<lparr>pstate := UNUSED\<rparr>) = UNUSED" by simp
  show ?thesis using b(1,2) e(1,4,6) w(1-6) off un by metis
qed


section \<open>Properties\<close>

text \<open>C4: the whole life of a child. Its parent forks and waits for the new pid; the child, when it is switched
  to, exits with code \<open>c\<close>; the parent, when it runs again, gets the pid and the code. Afterwards
  the same pages are free as before the fork, every open file has the count it had, the slot is
  unused and the rest of the table is what it was: nothing of the child is lost or left over.\<close>

theorem child_life:
  assumes "kmem_wf s fps" "find_idx (\<lambda>p. pstate p = UNUSED) (pool s) = Some i"
    "raisable s fps j i code" "forkable s fps (pool s ! j) (pool s ! i)"
  shows "\<exists>s1 s2 s3 s4 fps' z. fork s = Inr (PID s, s1) \<and> wait (PID s) code s1 = Inr (Yield 0, s2) \<and>
    exit c (switch_to i s2) = Inr s3 \<and> wait (PID s) code (switch_to j s3) = Inr (Ret (PID s), s4) \<and>
    load32 (mem s4) code = of_int c \<and> filepool s4 = filepool s \<and> kmem_wf s4 fps' \<and> set fps' = set fps \<and>
    curr_proc s4 = Pool j \<and> pstate z = UNUSED \<and> pool s4 = (pool s)[i := z] \<and>
    same_off (insert (PGROUNDDOWN code) (slot_pages (pool s ! i) \<union> set fps)) (mem s) (mem s4)"
  by (rule life_ok[OF assms])

theorem child_life_witness:
  "\<exists>(s :: kload) fps s1 s2 s3 s4 fps'. kmem_wf s fps \<and> fork s = Inr (2, s1) \<and> wait 2 0x80800000 s1 = Inr (Yield 0, s2) \<and>
     exit 7 (switch_to 1 s2) = Inr s3 \<and> wait 2 0x80800000 (switch_to 0 s3) = Inr (Ret 2, s4) \<and>
     load32 (mem s4) 0x80800000 = 7 \<and> kmem_wf s4 fps' \<and> set fps' = set fps"
proof -
  obtain k fps where k: "kmem_wf (kload_ex k) fps" "forkable (kload_ex k) fps parent_ex slot_ex"
    "(0x80800000 :: u64) \<notin> set fps" using fork_example by blast
  let ?s = "kload_ex k"
  have p: "pool ?s ! 0 = parent_ex" "pool ?s ! 1 = slot_ex" "length (pool ?s) = 2" by (simp_all add: kload_ex_def)
  have R: "raisable ?s fps 0 1 0x80800000"
    unfolding raisable_def p kload_ex_proc(4,5)
    using k(3) by (auto simp: less_2_cases_iff p parent_ex_def slot_ex_def proc0_def kwritable_def kload_ex_def kload0_def
        PHYSTOP_def PGROUNDDOWN_def)
  have F: "forkable ?s fps (pool ?s ! 0) (pool ?s ! 1)" unfolding p by (rule k(2))
  obtain s1 s2 s3 s4 fps' where r: "fork ?s = Inr (PID ?s, s1)" "wait (PID ?s) 0x80800000 s1 = Inr (Yield 0, s2)"
    "exit 7 (switch_to 1 s2) = Inr s3" "wait (PID ?s) 0x80800000 (switch_to 0 s3) = Inr (Ret (PID ?s), s4)"
    "load32 (mem s4) 0x80800000 = of_int 7" "kmem_wf s4 fps'" "set fps' = set fps"
    using child_life[OF k(1) kload_ex_find R F, of 7] by blast
  have "load32 (mem s4) 0x80800000 = 7" using r(5) by simp
  then show ?thesis using k(1) r(1-4,6,7) unfolding kload_ex_proc(5) by blast
qed

end
