(* ===== verification/ExecProcess.thy ===== *)
theory ExecProcess
  imports FreeSpace NewProcess
begin

text \<open>
  \<open>exec\<close> of \<open>kernel/proc.c\<close>: the process gives back its memory and gets the image of another program.
\<close>

section \<open>exec\<close>

text \<open>
  What \<open>exec\<close> needs of the process \<open>p\<close>: its table maps its own pages and nothing else, its trapframe is not
  one of them, and the program is outside all of them.
\<close>

definition executable :: "'a kload_scheme \<Rightarrow> u64 list \<Rightarrow> proc \<Rightarrow> u64 \<Rightarrow> nat \<Rightarrow> bool" where
  "executable s fps p b n \<longleftrightarrow>
     (let P = space_pages (mem s) (pagetable p) (page_count (psz p)) \<union> set fps in
      full_table s (pagetable p) fps (page_count (psz p)) \<and> psz p \<le> TRAPFRAME \<and>
      3 * n + 8 \<le> card P \<and> aligned (trapframe p) \<and> trapframe p \<notin> P \<and>
      4096 * Suc n \<le> unat TRAPFRAME \<and> unat b + 4096 * n < 2 ^ 64 \<and> sources_ok (ustep b) n (insert (trapframe p) P))"

lemma executableD:
  assumes "executable s fps p b n" "P = space_pages (mem s) (pagetable p) (page_count (psz p)) \<union> set fps"
  shows "full_table s (pagetable p) fps (page_count (psz p))" "psz p \<le> TRAPFRAME" "3 * n + 8 \<le> card P"
    "aligned (trapframe p)" "trapframe p \<notin> P" "4096 * Suc n \<le> unat TRAPFRAME" "unat b + 4096 * n < 2 ^ 64"
    "sources_ok (ustep b) n (insert (trapframe p) P)"
  using assms(1) unfolding executable_def Let_def assms(2)[symmetric] by blast+

lemma exec_ok:
  assumes cur: "curr_proc s = Pool i" "i < length (pool s)" and p: "pool s ! i = p"
    and k: "get_id_by_name name s = Inr k" "0 \<le> k"
    and b: "PGROUNDDOWN (app_info s ! nat k) = b" "PGROUNDUP (app_info s ! nat (k + 1)) = ustep b n"
    and X: "executable s fps p b n" and P: "P = space_pages (mem s) (pagetable p) (page_count (psz p)) \<union> set fps"
  shows "\<exists>s' fps' root. let c = p\<lparr>pagetable := root, ustack := 0, psz := 4096 + of_nat (4096 * n)\<rparr> in
    exec name s = Inr (0, s') \<and> pool s' = (pool s)[i := c] \<and> idle s' = idle s \<and> curr_proc s' = curr_proc s \<and>
    filepool s' = filepool s \<and> program_ready (mem s) (mem s') c b n (trampoline s) \<and>
    full_table s' root fps' (Suc n) \<and> space_pages (mem s') root (Suc n) \<union> set fps' = P \<and> same_off (insert (trapframe p) P) (mem s) (mem s')"
proof -
  note x = executableD[OF X P]
  let ?tf = "trapframe p"
  obtain s1 fps1 where a: "proc_freepagetable (pagetable p) (psz p) s = Inr s1"
    "released s fps (space_pages (mem s) (pagetable p) (page_count (psz p))) s1 fps1"
    "same_off (space_pages (mem s) (pagetable p) (page_count (psz p))) (mem s) (mem s1)"
    using proc_freepagetable_ok[OF x(1,2)] by blast
  have f1: "set fps1 = P" "kmem_wf s1 fps1" using releasedD[OF a(2)] P by auto
  have "distinct fps1" using f1(2) by (simp add: kmem_wf_def)
  then have len: "3 * n + 8 \<le> length fps1" using x(3) f1(1) distinct_card by metis
  note m1 = proc_freepagetable_mem_only[OF a(1)]
  define s2 where "s2 = s1\<lparr>pool := (pool s)[i := p\<lparr>psz := 0\<rparr>]\<rparr>"
  have kw2: "kmem_wf s2 fps1" using f1(2) by (simp add: s2_def kmem_wf_def)
  have len5: "5 \<le> length fps1" using len by simp
  have tfn: "?tf \<notin> set fps1" using x(5) f1(1) by simp
  obtain root s3 fps3 where c: "proc_pagetable ?tf s2 = Inr (root, s3)" "root \<noteq> 0" "vm_inv s3 root fps3"
    "bare_table (mem s3) root (trampoline s2) ?tf" "pt_pages (mem s3) root \<union> set fps3 = set fps1"
    "length fps1 \<le> length fps3 + 5" "same_off (insert ?tf (set fps1)) (mem s2) (mem s3)" "mem_only s2 s3"
    "\<And>k. k < 36 \<Longrightarrow> load64 (mem s3) (?tf + of_nat (8 * k)) = 0"
    by (rule proc_pagetable_ok[OF kw2 len5 x(4) tfn]) (rule that; assumption)
  define c4 where "c4 = p\<lparr>psz := 0, pagetable := root\<rparr>"
  define s4 where "s4 = s3\<lparr>pool := (pool s)[i := c4]\<rparr>"
  have c4: "pagetable c4 = root" "trapframe c4 = ?tf" "pool s4 ! i = c4" "mem s4 = mem s3"
    using cur(2) by (simp_all add: c4_def s4_def)
  have L: "loadable s4 fps3 i (trampoline s2) b n"
    unfolding loadable_def Let_def c4
  proof (intro conjI)
    show "vm_inv s4 root fps3" using c(3) by (simp add: s4_def vm_inv_def kmem_wf_def)
    show "?tf \<notin> pt_pages (mem s3) root \<union> set fps3" using tfn c(5) by blast
    show "sources_ok (ustep b) n (insert ?tf (pt_pages (mem s3) root \<union> set fps3))"
      by (rule sources_ok_mono[OF x(8)]) (use c(5) f1(1) in auto)
    show "i < length (pool s4)" using cur(2) by (simp add: s4_def)
    show "\<forall>x \<in> pt_pages (mem s3) root. page_ok (ekernel s4) x"
      using c(5,8) kw2 by (auto simp: s4_def kmem_wf_def mem_only_def)
    show "3 * n + 3 \<le> length fps3" using len c(6) by simp
  qed (use c(4) x in simp_all)
  obtain s' fps' where d: "bin_loader (app_info s ! nat k) (app_info s ! nat (k + 1)) (Pool i) s4 = Inr s'"
    "full_table s' (pagetable c4) fps' (Suc n)"
    "space_pages (mem s') (pagetable c4) (Suc n) \<union> set fps' = pt_pages (mem s4) (pagetable c4) \<union> set fps3" "image_at (mem s') (pagetable c4) (mem s4) b n"
    "leaf (mem s') (pagetable c4) TRAPFRAME = PA2PTE (trapframe c4) OR 6 OR 1"
    "leaf (mem s') (pagetable c4) TRAMPOLINE = PA2PTE (trampoline s2) OR 10 OR 1"
    "same_off (insert (trapframe c4) (pt_pages (mem s4) (pagetable c4) \<union> set fps3)) (mem s4) (mem s')"
    "\<And>k. k < 36 \<Longrightarrow> load64 (mem s') (trapframe c4 + of_nat (8 * k)) =
       (if k = 3 \<or> k = 6 then 4096 else load64 (mem s4) (trapframe c4 + of_nat (8 * k)))"
    "pool s' = (pool s4)[i := c4\<lparr>ustack := 0, psz := 4096 + of_nat (4096 * n)\<rparr>]"
    "idle s' = idle s4" "curr_proc s' = curr_proc s4" "kproc.more s' = kproc.more s4"
    by (rule bin_loader_ok[OF L c4(3) b]) (rule that; assumption)
  note mf1 = mem_only_fields[OF m1] mem_only_curr_proc[OF m1] mem_only_more[OF m1]
  note mf3 = mem_only_fields[OF c(8)] mem_only_curr_proc[OF c(8)] mem_only_more[OF c(8)]
  have m4: "kproc.more s4 = kproc.more s" using mf1(11) mf3(11) by (simp add: s4_def s2_def)
  note mr = load_more[OF m4] load_more[OF d(12)]
  have ld: "loader k (Pool i) s4 = Inr s'" using d(1) mr(1) by (simp add: loader_def)
  have pr: "proc_at s (Pool i) = p" "proc_at s1 (Pool i) = p" "pool s1 = pool s"
    using p mf1(1) by simp_all
  have p2: "trapframe (proc_at s2 (Pool i)) = ?tf" "pool s3 = (pool s)[i := p\<lparr>psz := 0\<rparr>]"
    using cur(2) mf3(1) by (simp_all add: s2_def)
  have ex: "exec name s = Inr (0, s')"
  proof -
    have e2: "set_proc (Pool i) ((proc_at s1 (Pool i))\<lparr>psz := 0\<rparr>) s1 = s2"
      unfolding pr by (simp add: set_proc_Pool s2_def pr(3))
    have e4: "set_proc (Pool i) ((proc_at s3 (Pool i))\<lparr>pagetable := root\<rparr>) s3 = s4"
      using cur(2) p2(2) by (simp add: set_proc_Pool s4_def c4_def)
    have nk: "(k < 0) = False" using k(2) by simp
    show ?thesis
      unfolding exec_def k(1) bindE.simps nk if_False Let_def cur(1) pr(1) a(1) e2 p2(1) c(1) prod.case e4
      using c(2) ld by simp
  qed
  have tr: "trampoline s2 = trampoline s" using mf1(7) by (simp add: s2_def)
  have off4: "same_off (insert ?tf P) (mem s) (mem s4)"
    by (rule same_off_trans[OF a(3), of "insert ?tf (set fps1)"]) (use c(7) c4(4) f1(1) P in \<open>auto simp: s2_def\<close>)
  have off: "same_off (insert ?tf P) (mem s) (mem s')"
    by (rule same_off_trans[OF off4 d(7)]) (use c(5) c4 f1(1) in auto)
  let ?c = "p\<lparr>pagetable := root, ustack := 0, psz := 4096 + of_nat (4096 * n)\<rparr>"
  have img: "image_at (mem s') root (mem s) b n"
    using image_at_cong[OF d(4)] source_bytes[OF off4 x(8)] c4(1) by blast
  have "program_ready (mem s) (mem s') ?c b n (trampoline s)"
    unfolding program_ready_def using d(5,6,8) c(9) c4 tr img by simp
  moreover have "pool s' = (pool s)[i := ?c]" using d(9) by (simp add: s4_def c4_def)
  moreover have "idle s' = idle s" "curr_proc s' = curr_proc s"
    using d(10,11) mf1(2,3) mf3(2,3) by (simp_all add: s4_def s2_def curr_proc_def)
  moreover have "filepool s' = filepool s" using mr by simp
  moreover have "full_table s' root fps' (Suc n)" using d(2) c4(1) by simp
  moreover have "space_pages (mem s') root (Suc n) \<union> set fps' = P" using d(3) c4(1,4) c(5) f1(1) by simp
  ultimately show ?thesis using ex off unfolding Let_def by blast
qed


section \<open>Example\<close>

text \<open>A process with one page of memory, and a program of one page.\<close>

lemma exec_example:
  "\<exists>(s :: kload) fps p. curr_proc s = Pool 0 \<and> pool s = [p, slot_ex] \<and> psz p = 4096 \<and> trapframe p = 0x86000000 \<and>
     files p = replicate 16 None \<and> executable s fps p 0x80400000 1 \<and> get_id_by_name [97, 0] s = Inr 0 \<and> app_info s = [0x80400000, 0x80400400]"
proof -
  obtain k :: kmem and fps where k: "kmem_wf k fps" "length fps = 12" "\<forall>a \<in> set fps. 0x87ff4000 \<le> a"
    "hd fps = 0x87fff000" "ekernel k = 0x80440000" using twelve_pages by blast
  let ?s = "kload_ex k" and ?tf = "0x86000000 :: u64" and ?f = "0x87000000 :: u64"
  have kw: "kmem_wf ?s fps" by (rule kload_ex_inv(2)[OF k(1)])
  have low: "a \<notin> set fps" if "a < 0x87ff4000" for a using k(3) that by (auto simp: not_le[symmetric])
  have c5: "5 \<le> length fps" "aligned ?tf" "?tf \<notin> set fps" using k(2) low[of ?tf] by (simp_all add: aligned_def)
  obtain root s1 fps1 where c: "proc_pagetable ?tf ?s = Inr (root, s1)" "root \<noteq> 0" "vm_inv s1 root fps1"
    "bare_table (mem s1) root (trampoline ?s) ?tf" "pt_pages (mem s1) root \<union> set fps1 = set fps"
    "length fps \<le> length fps1 + 5" "same_off (insert ?tf (set fps)) (mem ?s) (mem s1)" "mem_only ?s s1"
    "\<And>k. k < 36 \<Longrightarrow> load64 (mem s1) (?tf + of_nat (8 * k)) = 0"
    by (rule proc_pagetable_ok[OF kw c5]) (rule that; assumption)
  have B: "leaf (mem s1) root va = (if PGROUNDDOWN va = TRAPFRAME then PA2PTE ?tf OR 6 OR 1
      else if PGROUNDDOWN va = TRAMPOLINE then PA2PTE (trampoline ?s) OR 10 OR 1 else 0)" if "va < MAXVA" for va
    using c(4) that unfolding bare_table_def by blast
  have M: "(0 :: u64) < MAXVA" by (simp add: MAXVA_def)
  have e: "leaf (mem s1) root 0 AND 1 = 0" "2 \<le> length fps1"
    using B[OF M] c(6) k(2) by (simp_all add: PGROUNDDOWN_aligned TRAPFRAME_def TRAMPOLINE_def MAXVA_def)
  obtain s2 fps2 where m: "mappages_loop root 0 0 ?f 30 s1 = Inr (0, s2)" "vm_grow s1 fps1 root s2 fps2"
    "\<And>va. va < MAXVA \<Longrightarrow> leaf (mem s2) root va =
       (if PGROUNDDOWN va = 0 then PA2PTE ?f OR 30 OR PTE_V else leaf (mem s1) root va)"
    by (rule mappages_one[OF c(3) aligned_0 M e, of ?f 30]) (rule that; assumption)
  note g = m(2)[unfolded vm_grow_def]
  note mo = mem_only_trans[OF c(8) mappages_loop_mem_only[OF m(1)]]
  define p where "p = parent_ex\<lparr>pagetable := root\<rparr>"
  define s where "s = s2\<lparr>pool := [p, slot_ex]\<rparr>"
  have p: "pagetable p = root" "psz p = 4096" "trapframe p = ?tf" "page_count 4096 = 1" "files p = replicate 16 None"
    by (simp_all add: p_def parent_ex_def page_count_def proc0_def)
  have s: "mem s = mem s2" "ekernel s = ekernel k" "vm_inv s root fps2"
    using mo vm_grow_inv[OF m(2)] by (simp_all add: s_def mem_only_fields kload_ex_inv) (simp add: vm_inv_def kmem_wf_def)
  have pt: "pt_pages (mem s) root \<union> set fps2 = set fps" using g c(5) unfolding s(1) by blast
  have u: "user_page (mem s) root 0 ?f"
    using m(3)[OF M] by (simp add: user_page_def s(1) PGROUNDDOWN_aligned aligned_def)
  have ul: "uframe_list (mem s) root 0 1 = [?f]"
    using user_page_frame(1)[OF u] by (simp add: uframe_list_def)
  have sp: "space_pages (mem s) root 1 \<union> set fps2 = insert ?f (set fps)"
    using pt unfolding space_pages_def ul by auto
  have top: "leaf (mem s) root va = leaf (mem s1) root va" if "va < MAXVA" "4096 \<le> unat va" for va
  proof -
    have "unat (PGROUNDDOWN va) \<noteq> 0" using that(2) by (simp add: unat_PGROUNDDOWN)
    then show ?thesis using m(3)[OF that(1)] s(1) by auto
  qed
  have T: "leaf (mem s) root TRAPFRAME = PA2PTE ?tf OR 6 OR 1"
    "leaf (mem s) root TRAMPOLINE = PA2PTE (trampoline ?s) OR 10 OR 1"
    using top[OF TRAPFRAME_page(2)] top[OF TRAMPOLINE_page(2)] B[OF TRAPFRAME_page(2)] B[OF TRAMPOLINE_page(2)] TRAPFRAME_page TRAMPOLINE_page
    by (simp_all add: PGROUNDDOWN_aligned)
  have ok: "\<forall>a \<in> set fps. page_ok (ekernel s) a" using k(1) by (simp add: s(2) kmem_wf_def)
  have F: "full_table s root fps2 1"
  proof (rule full_tableI[OF s(3) _ ok T])
    show "pt_pages (mem s) root \<subseteq> set fps" using pt by blast
    show "\<forall>i<1. unmappable (mem s) root (ustep 0 i)" using user_page_frame(2)[OF u] by simp
    show "releasable s root fps2 (uframe_list (mem s) root 0 1)"
      unfolding ul releasable_def using low[of ?f] pt by (auto simp: s(2) k(5) page_ok_def aligned_def PHYSTOP_def)
    show "leaf (mem s) root va AND 1 = 0"
      if "va < MAXVA" "4096 * 1 \<le> unat va" "PGROUNDDOWN va \<noteq> TRAMPOLINE" "PGROUNDDOWN va \<noteq> TRAPFRAME" for va
      using top[OF that(1)] B[OF that(1)] that(2-4) by simp
  qed
  have "card (insert ?f (set fps)) = 13"
    using k(1,2) low[of ?f] by (simp add: kmem_wf_def distinct_card)
  then have "executable s fps2 p 0x80400000 1"
    unfolding executable_def Let_def p(1-3) p(4) sp using F low
    by (auto simp: p sources_ok_def aligned_def TRAPFRAME_page(3) TRAPFRAME_def TRAMPOLINE_def MAXVA_def)
  moreover have mr: "names s = names ?s \<and> app_num s = app_num ?s \<and> app_info s = app_info ?s \<and> filepool s = filepool ?s"
    by (rule load_more) (use mem_only_more[OF mo] in \<open>simp add: s_def\<close>)
  have "curr_proc s = Pool 0" using mem_only_curr_proc[OF mo] kload_ex_proc(4)[of k] by (simp add: s_def curr_proc_def)
  moreover have "strncmp [97, 0] (97 # replicate 99 0) 100 = Inr 0" by code_simp
  then have "get_id_by_name [97, 0] ?s = Inr 0" by (simp add: get_id_by_name_def kload_ex_def)
  then have "get_id_by_name [97, 0] s = Inr 0" using get_id_cong[of s ?s] mr by simp
  moreover have "app_info s = [0x80400000, 0x80400400]" using mr by (simp add: kload_ex_def)
  ultimately show ?thesis using p by (intro exI[of _ s] exI[of _ fps2] exI[of _ p]) (simp add: s_def)
qed

section \<open>Properties\<close>

text \<open>C15: the pages a process has, the frames of its memory and its table's, are exactly what
  \<open>proc_freepagetable\<close> adds to the free list, when the table maps the process's pages, the trampoline and the
  trapframe, and nothing else; the trampoline and the trapframe are not freed, and no other page is written.\<close>

theorem proc_freepagetable_correct:
  assumes "full_table s root fps (page_count sz)" "sz \<le> TRAPFRAME"
  shows "\<exists>s' fps'. proc_freepagetable root sz s = Inr s' \<and>
    released s fps (space_pages (mem s) root (page_count sz)) s' fps' \<and>
    same_off (space_pages (mem s) root (page_count sz)) (mem s) (mem s')"
  by (rule proc_freepagetable_ok[OF assms])

theorem proc_freepagetable_correct_witness:
  "\<exists>(s :: kload) p fps s' fps'. pool s ! 0 = p \<and> psz p = 4096 \<and> proc_freepagetable (pagetable p) (psz p) s = Inr s' \<and>
     pagetable p \<notin> set fps \<and> pagetable p \<in> set fps' \<and> kmem_wf s' fps'"
proof -
  obtain s :: kload and fps p where x: "pool s = [p, slot_ex]" "psz p = 4096" "executable s fps p 0x80400000 1"
    using exec_example by blast
  note d = executableD[OF x(3) refl]
  obtain s' fps' where r: "proc_freepagetable (pagetable p) (psz p) s = Inr s'"
    "released s fps (space_pages (mem s) (pagetable p) (page_count (psz p))) s' fps'"
    using proc_freepagetable_correct[OF d(1,2)] by blast
  have "pagetable p \<notin> set fps" using d(1) root_in_pt_pages unfolding full_table_def vm_inv_def by blast
  moreover have "pagetable p \<in> set fps'" using releasedD(2)[OF r(2)] by (simp add: space_pages_def)
  moreover have "pool s ! 0 = p" using x(1) by simp
  ultimately show ?thesis using x(2) r(1) releasedD(1)[OF r(2)] by blast
qed

text \<open>C10: \<open>exec\<close> of a known program gives all the pages of the process back and builds it anew: the bytes of
  the program from \<open>BASE_ADDRESS\<close> on, a cleared stack page below, and a trapframe that starts it there with
  all other registers 0. What was free or the process's is now free or the process's; no other process, open
  file or page changes.\<close>

theorem exec_correct:
  assumes "curr_proc s = Pool i" "i < length (pool s)" "pool s ! i = p"
    "get_id_by_name name s = Inr k" "0 \<le> k"
    "PGROUNDDOWN (app_info s ! nat k) = b" "PGROUNDUP (app_info s ! nat (k + 1)) = ustep b n"
    "executable s fps p b n" "P = space_pages (mem s) (pagetable p) (page_count (psz p)) \<union> set fps"
  shows "\<exists>s' fps' root. let c = p\<lparr>pagetable := root, ustack := 0, psz := 4096 + of_nat (4096 * n)\<rparr> in
    exec name s = Inr (0, s') \<and> pool s' = (pool s)[i := c] \<and> idle s' = idle s \<and> curr_proc s' = curr_proc s \<and>
    filepool s' = filepool s \<and> program_ready (mem s) (mem s') c b n (trampoline s) \<and>
    full_table s' root fps' (Suc n) \<and> space_pages (mem s') root (Suc n) \<union> set fps' = P \<and>
    same_off (insert (trapframe p) P) (mem s) (mem s')"
  by (rule exec_ok[OF assms])

theorem exec_correct_witness:
  "\<exists>(s :: kload) s' c. exec [97, 0] s = Inr (0, s') \<and> cproc s' = c \<and> psz c = 8192 \<and>
     image_at (mem s') (pagetable c) (mem s) 0x80400000 1"
proof -
  obtain s :: kload and fps p where x: "curr_proc s = Pool 0" "pool s = [p, slot_ex]"
    "executable s fps p 0x80400000 1" "get_id_by_name [97, 0] s = Inr 0" "app_info s = [0x80400000, 0x80400400]"
    using exec_example by blast
  have l: "0 < length (pool s)" "pool s ! 0 = p" using x(2) by simp_all
  have b: "PGROUNDDOWN (app_info s ! nat 0) = 0x80400000" "PGROUNDUP (app_info s ! nat (0 + 1)) = ustep 0x80400000 1"
    unfolding x(5) by (simp_all add: PGROUNDDOWN_def PGROUNDUP_def ustep_def)
  obtain s' root where r: "exec [97, 0] s = Inr (0, s')"
    "pool s' = (pool s)[0 := p\<lparr>pagetable := root, ustack := 0, psz := 4096 + of_nat (4096 * 1)\<rparr>]"
    "curr_proc s' = curr_proc s"
    "program_ready (mem s) (mem s') (p\<lparr>pagetable := root, ustack := 0, psz := 4096 + of_nat (4096 * 1)\<rparr>) 0x80400000 1 (trampoline s)"
    using exec_correct[OF x(1) l x(4) order_refl b x(3) refl] unfolding Let_def by blast
  define c where "c = p\<lparr>pagetable := root, ustack := 0, psz := 4096 + of_nat (4096 * 1)\<rparr>"
  have "cproc s' = c" using r(2,3) x(1) l by (simp add: proc_at_def c_def)
  moreover have "image_at (mem s') (pagetable c) (mem s) 0x80400000 1" using r(4) unfolding program_ready_def c_def by blast
  moreover have "psz c = 8192" by (simp add: c_def)
  ultimately show ?thesis using r(1) by blast
qed

end
