(* ===== verification/TrapProcess.thy ===== *)
theory TrapProcess
  imports Trap ExitProcess ExecProcess VirtioSpec
begin

text \<open>
  What a trap from user mode does to the process: an exception ends it, and it alone; a system call returns to
  the instruction after it. \<open>usertrap\<close> and \<open>usertrapret\<close> of \<open>kernel/trap.c\<close> together with \<open>syscall\<close> and
  \<open>exit\<close>.
\<close>

section \<open>Exceptions\<close>

text \<open>The exit code of a process with an exception that is not a system call.\<close>

definition exception_code :: "u64 \<Rightarrow> int" where
  "exception_code c = (if c \<in> {1, 5, 7, 12, 13, 15} then -2 else if c = 2 then -3 else -1)"

lemma set_kerneltrap_fields:
  "mem (set_kerneltrap s) = mem s" "freelist (set_kerneltrap s) = freelist s" "ekernel (set_kerneltrap s) = ekernel s"
  "pool (set_kerneltrap s) = pool s" "idle (set_kerneltrap s) = idle s" "curr_proc (set_kerneltrap s) = curr_proc s"
  "filepool (set_kerneltrap s) = filepool s" "scause (csr (set_kerneltrap s)) = scause (csr s)"
  "sstatus (csr (set_kerneltrap s)) = sstatus (csr s)" "proc_at (set_kerneltrap s) r = proc_at s r"
  by (simp_all add: set_kerneltrap_def set_csr_def curr_proc_def proc_at_def split: option.splits pref.splits)

lemma usertrap_exception:
  assumes "sstatus (csr s) AND SSTATUS_SPP = 0" "scause (csr s) AND push_bit 63 1 = 0" "scause (csr s) \<noteq> 8"
  shows "usertrap s = bindE (sys_exit (exception_code (scause (csr s))) (set_kerneltrap s)) (\<lambda>r. Inr (kexit r))"
proof -
  have m: "(sstatus (csr s) AND SSTATUS_SPP \<noteq> 0) = False" "(scause (csr s) AND push_bit 63 1 \<noteq> 0) = False"
    using assms(1,2) by (simp_all only: simp_thms)
  show ?thesis
  proof (cases "scause (csr s) \<in> {0, 1, 2, 3, 4, 5, 6, 7, 9, 11, 12, 13, 15}")
    case True
    then show ?thesis
      unfolding usertrap_def Let_def set_kerneltrap_fields(8,9) m if_False
      by (auto simp: exc_codes_def exception_code_def unknown_trap_def)
  next
    case False
    then have "map_of exc_codes (scause (csr s)) = None" using assms(3) by (simp add: exc_codes_def)
    moreover have "exception_code (scause (csr s)) = -1" using False by (simp add: exception_code_def)
    ultimately show ?thesis
      unfolding usertrap_def Let_def set_kerneltrap_fields(8,9) m if_False by (simp add: unknown_trap_def)
  qed
qed

lemma exception_ok:
  assumes mode: "sstatus (csr s) AND SSTATUS_SPP = 0" and cause: "scause (csr s) AND push_bit 63 1 = 0" "scause (csr s) \<noteq> 8"
    and cur: "curr_proc s = Pool i" "i < length (pool s)" and p: "pool s ! i = p"
    and F: "full_table s (pagetable p) fps (page_count (psz p))" "psz p \<le> TRAPFRAME"
    and e: "elsewhere (filepool s) (files p) 0 16" "16 \<le> length (files p)"
  shows "\<exists>s' fps'. usertrap s = Inr (Blocked KNever, s') \<and>
    pool s' = (pool s)[i := departed p (exception_code (scause (csr s)))] \<and> idle s' = idle s \<and>
    curr_proc s' = Idle \<and> filepool s' = uncounted (filepool s) (files p) 0 16 \<and>
    kmem_wf s' fps' \<and> set fps' = space_pages (mem s) (pagetable p) (page_count (psz p)) \<union> set fps \<and>
    same_off (space_pages (mem s) (pagetable p) (page_count (psz p))) (mem s) (mem s')"
proof -
  let ?s = "set_kerneltrap s" and ?c = "exception_code (scause (csr s))"
  note k = set_kerneltrap_fields[of s]
  have cur': "curr_proc ?s = Pool i" "i < length (pool ?s)" "pool ?s ! i = p" using cur p k by simp_all
  have F': "full_table ?s (pagetable p) fps (page_count (psz p))"
    using full_table_same_off(1)[OF F(1), of "{}" ?s] k by simp
  have e': "elsewhere (filepool ?s) (files p) 0 16" using e(1) k by simp
  obtain s' fps' where x: "exit ?c ?s = Inr s'" "pool s' = (pool s)[i := departed p ?c]" "idle s' = idle s"
    "current_proc s' = Some Idle" "filepool s' = uncounted (filepool s) (files p) 0 16" "kmem_wf s' fps'"
    "set fps' = space_pages (mem s) (pagetable p) (page_count (psz p)) \<union> set fps"
    "same_off (space_pages (mem s) (pagetable p) (page_count (psz p))) (mem s) (mem s')"
    using exit_ok[OF cur' F' F(2) e' e(2), of ?c] unfolding k by blast
  have "usertrap s = Inr (Blocked KNever, s')"
    unfolding usertrap_exception[OF mode cause] sys_exit_def x(1) by (simp add: kexit_def)
  moreover have "curr_proc s' = Idle" using x(4) by (simp add: curr_proc_def)
  ultimately show ?thesis using x(2,3,5-8) by blast
qed

section \<open>System calls\<close>

text \<open>Words of the trapframe that \<open>usertrapret\<close> writes: those for the next trap.\<close>

definition trap_words :: "nat set" where
  "trap_words = {0, 1, 2, 4}"

lemma set_tf_fields [simp]:
  "csr (set_tf tf a v s) = csr s" "pool (set_tf tf a v s) = pool s" "curr_proc (set_tf tf a v s) = curr_proc s"
  "proc_at (set_tf tf a v s) r = proc_at s r" "userret (set_tf tf a v s) = userret s" "trampoline (set_tf tf a v s) = trampoline s"
  by (simp_all add: set_tf_def curr_proc_def proc_at_def split: option.splits pref.splits)

lemma set_csr_fields [simp]:
  "mem (set_csr f s) = mem s" "pool (set_csr f s) = pool s" "curr_proc (set_csr f s) = curr_proc s"
  "proc_at (set_csr f s) r = proc_at s r" "userret (set_csr f s) = userret s" "trampoline (set_csr f s) = trampoline s"
  "csr (set_csr f s) = f (csr s)"
  by (simp_all add: set_csr_def curr_proc_def proc_at_def split: option.splits pref.splits)

lemma usertrapret_ok:
  assumes al: "aligned (trapframe (cproc s))"
  obtains s' where "usertrapret s = ((TRAMPOLINE + (userret s - trampoline s), TRAPFRAME, MAKE_SATP (pagetable (cproc s))), s')"
    "sepc (csr s') = load64 (mem s) (trapframe (cproc s) + 24)" "sstatus (csr s') AND SSTATUS_SPP = 0"
    "\<And>k. k < 36 \<Longrightarrow> k \<notin> trap_words \<Longrightarrow>
       load64 (mem s') (trapframe (cproc s) + of_nat (8 * k)) = load64 (mem s) (trapframe (cproc s) + of_nat (8 * k))"
    "same_off {trapframe (cproc s)} (mem s) (mem s')" "pool s' = pool s" "curr_proc s' = curr_proc s"
proof -
  let ?tf = "trapframe (cproc s)" and ?s0 = "set_usertrap s"
  define s1 where "s1 = set_tf ?tf (of_nat (8 * 0)) (satp (csr ?s0)) ?s0"
  define s2 where "s2 = set_tf ?tf (of_nat (8 * 1)) (kstack (cproc s) + PGSIZE) s1"
  define s3 where "s3 = set_tf ?tf (of_nat (8 * 2)) (usertrap_fn s2) s2"
  define s4 where "s4 = set_tf ?tf (of_nat (8 * 4)) (tp (csr s3)) s3"
  define s5 where "s5 = set_csr (\<lambda>c. c\<lparr>sstatus := sstatus c AND NOT SSTATUS_SPP OR SSTATUS_SPIE\<rparr>)
    (set_csr (\<lambda>c. c\<lparr>sepc := load64 (mem s4) (?tf + tf_epc)\<rparr>) s4)"
  have f: "mem ?s0 = mem s" "pool ?s0 = pool s" "curr_proc ?s0 = curr_proc s" "cproc ?s0 = cproc s"
    "userret ?s0 = userret s" "trampoline ?s0 = trampoline s"
    by (simp_all add: set_usertrap_def)
  have w: "load64 (mem s4) (?tf + of_nat (8 * k)) = load64 (mem s) (?tf + of_nat (8 * k))" if "k < 36" "k \<notin> trap_words" for k
  proof -
    have k: "k < 512" "k \<noteq> 0" "k \<noteq> 1" "k \<noteq> 2" "k \<noteq> 4" using that by (auto simp: trap_words_def)
    have "load64 (mem s4) (?tf + of_nat (8 * k)) = load64 (mem s3) (?tf + of_nat (8 * k))"
      unfolding s4_def by (subst set_tf_word[OF al]) (use k in simp_all)
    also have "\<dots> = load64 (mem s2) (?tf + of_nat (8 * k))"
      unfolding s3_def by (subst set_tf_word[OF al]) (use k in simp_all)
    also have "\<dots> = load64 (mem s1) (?tf + of_nat (8 * k))"
      unfolding s2_def by (subst set_tf_word[OF al]) (use k in simp_all)
    also have "\<dots> = load64 (mem s) (?tf + of_nat (8 * k))"
      unfolding s1_def by (subst set_tf_word[OF al]) (use k f(1) in simp_all)
    finally show ?thesis .
  qed
  have off: "same_off {?tf} (mem s) (mem s4)"
  proof -
    have "same_off {?tf} (mem s) (mem s1)" unfolding s1_def f(1)[symmetric] by (rule set_tf_off[OF al]) simp
    moreover have "same_off {?tf} (mem s1) (mem s2)" unfolding s2_def by (rule set_tf_off[OF al]) simp
    moreover have "same_off {?tf} (mem s2) (mem s3)" unfolding s3_def by (rule set_tf_off[OF al]) simp
    moreover have "same_off {?tf} (mem s3) (mem s4)" unfolding s4_def by (rule set_tf_off[OF al]) simp
    ultimately show ?thesis by (simp add: same_off_def)
  qed
  have e: "load64 (mem s4) (?tf + 24) = load64 (mem s) (?tf + 24)"
    using w[of 3] by (simp add: trap_words_def)
  have c: "cproc s4 = cproc s" "pool s4 = pool s" "curr_proc s4 = curr_proc s" "userret s4 = userret s" "trampoline s4 = trampoline s"
    using f by (simp_all add: s1_def s2_def s3_def s4_def)
  have "b AND a = 0 \<Longrightarrow> (x AND NOT a OR b) AND a = 0" for a b x :: u64
    by (simp add: bit.conj_disj_distrib2 and.assoc)
  from this[of SSTATUS_SPIE SSTATUS_SPP] have z: "(x AND NOT SSTATUS_SPP OR SSTATUS_SPIE) AND SSTATUS_SPP = 0" for x :: u64
    by simp
  show thesis
  proof (rule that[of s5])
    show "usertrapret s = ((TRAMPOLINE + (userret s - trampoline s), TRAPFRAME, MAKE_SATP (pagetable (cproc s))), s5)"
      using c f by (simp add: usertrapret_def Let_def s1_def s2_def s3_def s4_def s5_def)
    show "sstatus (csr s5) AND SSTATUS_SPP = 0" unfolding s5_def using z by simp
  qed (use e w off c in \<open>simp_all add: s5_def\<close>)
qed

text \<open>
  The call a process in \<open>s\<close> makes: the number in \<open>a7\<close>, the arguments in \<open>a0\<close> to \<open>a6\<close>; the kernel runs it with the
  program counter already behind the \<open>ecall\<close>.
\<close>

definition called :: "'a ktrap_scheme \<Rightarrow> 'a ktrap_scheme" where
  "called s = set_tf (trapframe (cproc s)) tf_epc (load64 (mem s) (trapframe (cproc s) + tf_epc) + 4) (set_kerneltrap s)"

definition call_result :: "'a ktrap_scheme \<Rightarrow> (kresult \<times> 'a ktrap_scheme) res" where
  "call_result s = (let tf = trapframe (cproc s) in
     case map_of sysids (as_int (load64 (mem s) (tf + tf_a7))) of
       None \<Rightarrow> Inr (Done (-1), called s)
     | Some c \<Rightarrow> dispatch c (map (\<lambda>i. load64 (mem s) (tf + tf_a0 + 8 * of_nat i)) [0..<7]) (called s))"

lemma called_words:
  assumes "aligned (trapframe (cproc s))" "k < 512"
  shows "load64 (mem (called s)) (trapframe (cproc s) + of_nat (8 * k)) =
    (if k = 3 then load64 (mem s) (trapframe (cproc s) + 24) + 4 else load64 (mem s) (trapframe (cproc s) + of_nat (8 * k)))"
  using set_tf_word[OF assms(1) _ assms(2), of 3 "load64 (mem s) (trapframe (cproc s) + 24) + 4" "set_kerneltrap s"]
  by (simp add: called_def set_kerneltrap_fields)

lemma called_cproc: "cproc (called s) = cproc s" "curr_proc (called s) = curr_proc s" "pool (called s) = pool s"
  "proc_at (called s) r = proc_at s r"
  by (simp_all add: called_def set_kerneltrap_fields)

lemma ecall_ok:
  assumes mode: "sstatus (csr s) AND SSTATUS_SPP = 0" and cause: "scause (csr s) = 8"
    and al: "aligned (trapframe (cproc s))" and call: "call_result s = Inr (Done v, s2)"
    and kept: "trapframe (cproc s2) = trapframe (cproc s)"
      "load64 (mem s2) (trapframe (cproc s) + 24) = load64 (mem (called s)) (trapframe (cproc s) + 24)"
  shows "\<exists>s3. usertrap s = Inr (ToUser (TRAMPOLINE + (userret s2 - trampoline s2), TRAPFRAME, MAKE_SATP (pagetable (cproc s2))), s3) \<and>
    sepc (csr s3) = load64 (mem s) (trapframe (cproc s) + 24) + 4 \<and> sstatus (csr s3) AND SSTATUS_SPP = 0 \<and>
    load64 (mem s3) (trapframe (cproc s) + 112) = of_int (as_int v) \<and>
    (\<forall>k<36. k \<notin> insert 14 trap_words \<longrightarrow>
       load64 (mem s3) (trapframe (cproc s) + of_nat (8 * k)) = load64 (mem s2) (trapframe (cproc s) + of_nat (8 * k))) \<and>
    same_off {trapframe (cproc s)} (mem s2) (mem s3) \<and> pool s3 = pool s2 \<and> curr_proc s3 = curr_proc s2"
proof -
  let ?tf = "trapframe (cproc s)"
  let ?t = "set_tf ?tf (of_nat (8 * 14)) (of_int (as_int v)) s2"
  have w: "load64 (mem (called s)) (?tf + of_nat (8 * k)) = load64 (mem s) (?tf + of_nat (8 * k))" if "k < 512" "k \<noteq> 3" for k
    using called_words[OF al that(1)] that(2) by simp
  have a7: "load64 (mem (called s)) (?tf + 168) = load64 (mem s) (?tf + 168)" using w[of 21] by simp
  have as: "map (\<lambda>i. load64 (mem (called s)) (?tf + 112 + 8 * of_nat i)) [0..<7] = map (\<lambda>i. load64 (mem s) (?tf + 112 + 8 * of_nat i)) [0..<7]"
  proof (rule map_cong[OF refl])
    fix i assume "i \<in> set [0..<7]"
    then show "load64 (mem (called s)) (?tf + 112 + 8 * of_nat i) = load64 (mem s) (?tf + 112 + 8 * of_nat i)"
      using w[of "14 + i"] by (simp add: algebra_simps)
  qed
  have sc: "syscall (called s) = Inr (Done v, ?t)"
    using call unfolding syscall_def Let_def called_cproc(1) a7 as call_result_def by (simp add: set_ret_def)
  have al': "aligned (trapframe (cproc ?t))" using al kept(1) by simp
  obtain s3 where r: "usertrapret ?t = ((TRAMPOLINE + (userret ?t - trampoline ?t), TRAPFRAME, MAKE_SATP (pagetable (cproc ?t))), s3)"
    "sepc (csr s3) = load64 (mem ?t) (trapframe (cproc ?t) + 24)" "sstatus (csr s3) AND SSTATUS_SPP = 0"
    "\<And>k. k < 36 \<Longrightarrow> k \<notin> trap_words \<Longrightarrow>
       load64 (mem s3) (trapframe (cproc ?t) + of_nat (8 * k)) = load64 (mem ?t) (trapframe (cproc ?t) + of_nat (8 * k))"
    "same_off {trapframe (cproc ?t)} (mem ?t) (mem s3)" "pool s3 = pool ?t" "curr_proc s3 = curr_proc ?t"
    by (rule usertrapret_ok[OF al']) (rule that; assumption)
  have tf: "trapframe (cproc ?t) = ?tf" using kept(1) by simp
  have m: "(sstatus (csr s) AND SSTATUS_SPP \<noteq> 0) = False" using mode by (simp_all only: simp_thms)
  have n: "((8 :: u64) AND push_bit 63 1 \<noteq> 0) = False" by simp
  have "usertrap s = bindE (syscall (called s)) (\<lambda>r. Inr (kexit r))"
    unfolding usertrap_def Let_def set_kerneltrap_fields(8,9) m if_False cause n
    by (simp add: exc_codes_def called_def set_kerneltrap_fields)
  then have u: "usertrap s = Inr (ToUser (TRAMPOLINE + (userret s2 - trampoline s2), TRAPFRAME, MAKE_SATP (pagetable (cproc s2))), s3)"
    unfolding sc using r(1) by (simp add: kexit_def)
  have W: "load64 (mem ?t) (?tf + of_nat (8 * k)) = (if k = 14 then of_int (as_int v) else load64 (mem s2) (?tf + of_nat (8 * k)))"
    if "k < 512" for k by (rule set_tf_word[OF al _ that]) simp
  have "sepc (csr s3) = load64 (mem s) (?tf + 24) + 4"
    using r(2) W[of 3] kept(2) called_words[OF al, of 3] unfolding tf by simp
  moreover have "load64 (mem s3) (?tf + 112) = of_int (as_int v)"
    using r(4)[of 14] W[of 14] unfolding tf by (simp add: trap_words_def)
  moreover have "\<forall>k<36. k \<notin> insert 14 trap_words \<longrightarrow> load64 (mem s3) (?tf + of_nat (8 * k)) = load64 (mem s2) (?tf + of_nat (8 * k))"
    using r(4) W unfolding tf by simp
  moreover have "same_off {?tf} (mem s2) (mem s3)"
    by (rule same_off_trans[OF set_tf_off[OF al] r(5)[unfolded tf]]) simp_all
  moreover have "pool s3 = pool s2" "curr_proc s3 = curr_proc s2" using r(6,7) by simp_all
  ultimately show ?thesis using u r(3) by blast
qed

section \<open>Examples\<close>

text \<open>A trap with cause \<open>c\<close> in the state \<open>s\<close> of the kernel.\<close>

definition trap_ex :: "kload \<Rightarrow> u64 \<Rightarrow> ktrap" where
  "trap_ex s c = kload.extend s (kdev_ext [] (\<lambda>_. 0) 0 (\<lambda>_. 0) 0 []
     (ktrap_ext \<lparr>sstatus = 0, sie = 0, stvec = 0, sepc = 0, scause = c, satp = 0, tp = 0\<rparr> vdisk0 (\<lambda>_. 0) 0 0
        0x80200000 0x80200080 0x80220000 0x80230000 0 (0, 0) ()))"

lemma trap_ex_fields:
  "mem (trap_ex s c) = mem s" "freelist (trap_ex s c) = freelist s" "ekernel (trap_ex s c) = ekernel s"
  "pool (trap_ex s c) = pool s" "curr_proc (trap_ex s c) = curr_proc s" "filepool (trap_ex s c) = filepool s"
  "scause (csr (trap_ex s c)) = c" "sstatus (csr (trap_ex s c)) = 0" "proc_at (trap_ex s c) r = proc_at s r"
  by (simp_all add: trap_ex_def kload.extend_def curr_proc_def proc_at_def split: pref.splits)

lemma full_table_trap_ex: "full_table (trap_ex s c) root fps n = full_table s root fps n"
  by (simp add: full_table_def vm_inv_def kmem_wf_def releasable_def trap_ex_fields)

section \<open>Properties\<close>



text \<open>C18: a system call that returns a value \<open>v\<close> goes back to user mode at the instruction after the \<open>ecall\<close>, with
  \<open>v\<close>, as a C \<open>int\<close>, in \<open>a0\<close>; all other registers of the process are as the call left them, and the return
  writes nothing but its trapframe. An unknown number returns -1.\<close>

theorem ecall_returns:
  assumes "sstatus (csr s) AND SSTATUS_SPP = 0" "scause (csr s) = 8" "aligned (trapframe (cproc s))"
    "call_result s = Inr (Done v, s2)" "trapframe (cproc s2) = trapframe (cproc s)"
    "load64 (mem s2) (trapframe (cproc s) + 24) = load64 (mem (called s)) (trapframe (cproc s) + 24)"
  shows "\<exists>s3. usertrap s = Inr (ToUser (TRAMPOLINE + (userret s2 - trampoline s2), TRAPFRAME, MAKE_SATP (pagetable (cproc s2))), s3) \<and>
    sepc (csr s3) = load64 (mem s) (trapframe (cproc s) + 24) + 4 \<and> sstatus (csr s3) AND SSTATUS_SPP = 0 \<and>
    load64 (mem s3) (trapframe (cproc s) + 112) = of_int (as_int v) \<and>
    (\<forall>k<36. k \<notin> insert 14 trap_words \<longrightarrow>
       load64 (mem s3) (trapframe (cproc s) + of_nat (8 * k)) = load64 (mem s2) (trapframe (cproc s) + of_nat (8 * k))) \<and>
    same_off {trapframe (cproc s)} (mem s2) (mem s3) \<and> pool s3 = pool s2 \<and> curr_proc s3 = curr_proc s2"
  by (rule ecall_ok[OF assms])

theorem ecall_returns_witness:
  "\<exists>(s :: ktrap) s3 r. load64 (mem s) 168 = 172 \<and> usertrap s = Inr (ToUser r, s3) \<and> sepc (csr s3) = 4 \<and>
     load64 (mem s3) 112 = 5"
proof -
  define k where "k = (kload0 (store64 (\<lambda>_. 0) 168 172) (\<lambda>_. []))\<lparr>pool := [proc0\<lparr>pid := 5\<rparr>], current_proc := Some (Pool 0)\<rparr>"
  let ?s = "trap_ex k 8"
  have k: "mem k = store64 (\<lambda>_. 0) 168 172" "proc_at k (curr_proc k) = proc0\<lparr>pid := 5\<rparr>"
    by (simp_all add: k_def kload0_def curr_proc_def proc_at_def)
  have p: "cproc ?s = proc0\<lparr>pid := 5\<rparr>" using k(2) by (simp add: trap_ex_fields)
  have tf: "trapframe (cproc ?s) = 0" unfolding p by (simp add: proc0_def)
  have a7: "load64 (mem ?s) 168 = 172" by (simp add: trap_ex_fields k(1) mem_simps)
  have epc: "load64 (mem ?s) 24 = 0"
  proof -
    have "load64 (store64 (\<lambda>_. 0) (0 + of_nat (8 * 21)) 172) (0 + of_nat (8 * 3)) = load64 (\<lambda>_. 0) (0 + of_nat (8 * 3))"
      by (rule load64_store64_other) (simp_all add: aligned_def)
    also have "\<dots> = 0" by (rule load64_filled_0) (simp_all add: filled_def)
    finally show ?thesis by (simp add: trap_ex_fields k(1))
  qed
  have "as_int 172 = 172" by (simp add: as_int_def)
  then have c: "call_result ?s = Inr (Done 5, called ?s)"
    using a7 unfolding call_result_def Let_def tf
    by (simp add: sysids_def dispatch_def sys_getpid_def called_cproc p)
  have m: "sstatus (csr ?s) AND SSTATUS_SPP = 0" "scause (csr ?s) = 8" "aligned (trapframe (cproc ?s))"
    by (simp_all add: trap_ex_fields tf[simplified trap_ex_fields] aligned_def)
  have cp: "trapframe (cproc (called ?s)) = trapframe (cproc ?s)" unfolding called_cproc ..
  obtain s3 r where u: "usertrap ?s = Inr (ToUser r, s3)" "sepc (csr s3) = load64 (mem ?s) (trapframe (cproc ?s) + 24) + 4"
    "load64 (mem s3) (trapframe (cproc ?s) + 112) = of_int (as_int 5)"
    using ecall_returns[OF m c cp refl] by blast
  have "as_int 5 = 5" by (simp add: as_int_def)
  then show ?thesis using a7 u epc unfolding tf by (intro exI[of _ ?s] exI[of _ s3] exI[of _ r]) simp
qed

end
