(* ===== verification/UserMap.thy ===== *)
theory UserMap
  imports AddressSpace Syscall
begin

text \<open>
  \<open>sys_mmap\<close> of \<open>kernel/syscall.c\<close>: the length is rounded up by a loop that counts to the next multiple of
  the page size, and the pages are mapped one by one to fresh frames.
\<close>

section \<open>Rounding the length\<close>

lemma round_step:
  assumes "L mod 4096 \<noteq> (0 :: nat)"
  shows "((L + 1) mod 2 ^ 64 + 4095) mod 2 ^ 64 div 4096 = (L + 4095) mod 2 ^ 64 div 4096"
proof -
  let ?x = "(L + 4095) mod 2 ^ 64"
  have m: "?x mod 4096 = (L + 4095) mod 4096" by (simp add: mod_mod_cancel)
  obtain q r where L: "L = 4096 * q + r" "r < 4096" by (metis mult_div_mod_eq mod_less_divisor zero_less_numeral)
  then have r: "0 < r" using assms by (cases r) auto
  have "L + 4095 = 4096 * (q + 1) + (r - 1)" unfolding L(1) using r by simp
  then have "(L + 4095) mod 4096 = r - 1" using L(2) by simp
  then have x: "?x mod 4096 < 4095" unfolding m using L(2) r by simp
  then have "?x \<noteq> 2 ^ 64 - 1" by auto
  then have "?x + 1 < 2 ^ 64" using mod_less_divisor[of "2 ^ 64" "L + 4095"] by (simp del: mod_less_divisor)
  then have "(?x + 1) mod 2 ^ 64 = ?x + 1" by (rule mod_less)
  moreover have "((L + 1) mod 2 ^ 64 + 4095) mod 2 ^ 64 = (?x + 1) mod 2 ^ 64" by (simp add: mod_simps)
  moreover have "(?x + 1) div 4096 = ?x div 4096"
    using x by (simp only: Suc_eq_plus1[symmetric] div_Suc mod_Suc) simp
  ultimately show ?thesis by simp
qed

lemma unat_PGROUNDUP_wrap: "unat (PGROUNDUP len) = (unat len + 4095) mod 2 ^ 64 div 4096 * 4096"
proof -
  have "PGROUNDUP len = PGROUNDDOWN (len + 4095)" by (simp add: PGROUNDUP_def PGROUNDDOWN_def algebra_simps)
  then show ?thesis by (simp add: unat_PGROUNDDOWN unat_word_ariths)
qed

lemma round_len_ok: "round_len len = PGROUNDUP len"
proof (induction len rule: round_len.induct)
  case (1 len)
  have u: "unat len mod 4096 = unat (len mod 4096)" by (simp add: unat_mod)
  show ?case
  proof (cases "len mod 4096 = 0")
    case True
    then have d: "unat len mod 4096 = 0" using u by simp
    then obtain q where q: "unat len = 4096 * q" by auto
    have "unat len + 4095 < 2 ^ 64" using q unat_less_u64[of len] by simp
    then have "unat (PGROUNDUP len) = unat len" unfolding unat_PGROUNDUP_wrap using q by simp
    then have "PGROUNDUP len = len" by (rule unat_eqI)
    then show ?thesis using True by (subst round_len.simps) simp
  next
    case False
    then have d: "unat len mod 4096 \<noteq> 0" using u by (metis unat_eq_0)
    have "unat (PGROUNDUP (len + 1)) = unat (PGROUNDUP len)"
      unfolding unat_PGROUNDUP_wrap using round_step[OF d] by (simp add: unat_word_ariths)
    then have "PGROUNDUP (len + 1) = PGROUNDUP len" by (rule unat_eqI)
    then show ?thesis using False 1[OF False] by (subst round_len.simps) simp
  qed
qed

section \<open>The loop\<close>

text \<open>\<open>kalloc\<close> fills a page with 5, and \<open>sys_mmap\<close> does not clear it.\<close>

lemma mmap_loop_ok:
  assumes "vm_inv s root fps" "aligned start" "unat start + 4096 * (i + n) \<le> unat MAXVA" "3 * n \<le> length fps"
    "unmapped (mem s) root (ustep start i) n"
  shows "\<exists>s' fps' fr. mmap_loop n i 0 root start perm s = Inr (0, s') \<and>
    pages_filled (\<lambda>_. replicate 4096 5) (\<lambda>_. scast perm) root (ustep start i) n s fps s' fps' fr"
  using assms
proof (induction n arbitrary: i s fps)
  case 0
  then show ?case by (auto intro: exI[of _ fps] pages_filled_0)
next
  case (Suc n)
  obtain f ps where fps: "fps = f # ps" using Suc.prems(4) by (cases fps) auto
  let ?a = "ustep start i"
  have len: "2 \<le> length ps" using Suc.prems(4) fps by simp
  have il: "i < i + Suc n" by simp
  note a = ustep_page[OF Suc.prems(2,3) il]
  have e: "leaf (mem s) root ?a AND 1 = 0" using Suc.prems(5)[unfolded unmapped_def, rule_format, of 0] by simp
  obtain s1 s2 ps' where st: "kalloc s = (f, s1)" "f \<noteq> 0" "same_off {f} (mem s) (mem s1)"
    "mappages root ?a 4096 f perm (s1\<lparr>mem := mem s1\<rparr>) = Inr (0, s2)"
    "vm_inv s2 root ps'" "mem_only s s2" "length ps \<le> length ps' + 2" "set ps' \<subseteq> set ps"
    "f \<notin> set ps" "f \<notin> pt_pages (mem s2) root"
    "pt_pages (mem s2) root \<union> set ps' = pt_pages (mem s) root \<union> set ps"
    "same_off (insert f (pt_pages (mem s) root \<union> set ps)) (mem s) (mem s2)"
    "rd (mem s2) f 4096 = rd (mem s1) f 4096"
    "\<And>va. va < MAXVA \<Longrightarrow> leaf (mem s2) root va =
       (if PGROUNDDOWN va = ?a then PA2PTE f OR scast perm OR 1 else leaf (mem s) root va)"
    by (rule fresh_page[OF Suc.prems(1)[unfolded fps] a(2,1) e len same_off_refl]) (rule that; assumption)
  have "kmem_wf s (f # ps)" using Suc.prems(1) fps by (simp add: vm_inv_def)
  then obtain s1' where "kalloc s = (f, s1')" "filled (mem s1') f 5" by (rule kalloc_Cons)
  then have five: "rd (mem s2) f 4096 = replicate 4096 5"
    unfolding st(13) using st(1) by (intro nth_equalityI) (auto simp: filled_def)
  have aS: "unat ?a + 4096 * Suc n \<le> unat MAXVA" using a(4) Suc.prems(3) by simp
  have nx: "ustep start (Suc i) = ?a + 4096" by (simp add: ustep_def algebra_simps)
  have un: "unmapped (mem s2) root (ustep start (Suc i)) n" unfolding unmapped_def nx
  proof (intro allI impI)
    fix j assume j: "j < n"
    have j': "Suc j < Suc n" using j by simp
    note u = ustep_page[OF a(2) aS j']
    have "ustep ?a (Suc j) \<noteq> ?a" using u(4) by auto
    then show "leaf (mem s2) root (ustep (?a + 4096) j) AND 1 = 0"
      using st(14)[OF u(1)] u(3) j Suc.prems(5) by (simp add: unmapped_def ustep_Suc[symmetric])
  qed
  have S: "unat start + 4096 * (Suc i + n) \<le> unat MAXVA" "3 * n \<le> length ps'"
    using Suc.prems(3,4) st(7) fps by simp_all
  obtain s' fps' fr where IH: "mmap_loop n (Suc i) 0 root start perm s2 = Inr (0, s')"
    "pages_filled (\<lambda>_. replicate 4096 5) (\<lambda>_. scast perm) root (?a + 4096) n s2 ps' s' fps' fr"
    using Suc.IH[OF st(5) Suc.prems(2) S un] unfolding nx by blast
  have same: "s1\<lparr>mem := mem s1\<rparr> = s1" by simp
  have ad: "start + of_nat i * PGSIZE = ?a" by (simp add: ustep_def)
  have "mmap_loop (Suc n) i 0 root start perm s = Inr (0, s')"
    using st(1,4)[unfolded same] IH(1) ad by simp
  moreover have "pages_filled (\<lambda>_. replicate 4096 5) (\<lambda>_. scast perm) root ?a (Suc n) s fps s' fps' (f # fr)"
    unfolding fps
    by (rule pages_filled_Suc[where ct = "\<lambda>_. replicate 4096 5" and fl = "\<lambda>_. scast perm",
          OF Suc.prems(1)[unfolded fps] a(2) aS st(5-12) five st(14) IH(2)])
  ultimately show ?case by blast
qed


section \<open>The system call\<close>

definition mmap_flags :: "u64 \<Rightarrow> u64" where
  "mmap_flags port = push_bit 1 port OR 17"

lemma mmap_flags_ok:
  assumes "1 \<le> port" "port \<le> 7"
  shows "scast (ucast (push_bit 1 port OR 16 OR 1) :: u32) = mmap_flags port"
    "unat (mmap_flags port) < 1024" "mmap_flags port AND 1 \<noteq> 0" "mmap_flags port AND 16 \<noteq> 0"
proof -
  have "unat port = 1 \<or> unat port = 2 \<or> unat port = 3 \<or> unat port = 4 \<or> unat port = 5 \<or> unat port = 6 \<or> unat port = 7"
    using assms by (auto simp: word_le_nat_alt)
  then have "port = 1 \<or> port = 2 \<or> port = 3 \<or> port = 4 \<or> port = 5 \<or> port = 6 \<or> port = 7"
    by (simp add: word_unat_eq_iff)
  then show "scast (ucast (push_bit 1 port OR 16 OR 1) :: u32) = mmap_flags port"
    "unat (mmap_flags port) < 1024" "mmap_flags port AND 1 \<noteq> 0" "mmap_flags port AND 16 \<noteq> 0"
    by (auto simp: mmap_flags_def)
qed

text \<open>The pages of the range are in user memory, in the frames \<open>fr\<close>, with the rights asked for.\<close>

definition mmapped :: "bmem \<Rightarrow> u64 \<Rightarrow> u64 \<Rightarrow> u64 list \<Rightarrow> u64 \<Rightarrow> bool" where
  "mmapped m root start fr port \<longleftrightarrow>
     (\<forall>i<length fr. upage m root (ustep start i) = fr ! i \<and>
        PTE_FLAGS (leaf m root (ustep start i)) = mmap_flags port \<and> rd m (fr ! i) 4096 = replicate 4096 5)"

lemma sys_mmap_filled:
  assumes inv: "vm_inv s (pagetable (cproc s)) fps" and n: "n = unat (PGROUNDUP len) div 4096"
    and fit: "unat start + 4096 * n \<le> unat MAXVA" and un: "unmapped (mem s) (pagetable (cproc s)) start n"
    and len: "3 * n \<le> length fps" and port: "\<not> port < 1" "\<not> port > 7" and al: "aligned start"
  obtains s' fps' fr where "sys_mmap start len port s = Inr (PGROUNDUP len, s')"
    "pages_filled (\<lambda>_. replicate 4096 5) (\<lambda>_. mmap_flags port) (pagetable (cproc s)) start n s fps s' fps' fr"
proof -
  let ?root = "pagetable (cproc s)" and ?perm = "ucast (push_bit 1 port OR 16 OR 1) :: u32"
  have p: "1 \<le> port" "port \<le> 7" using port by (simp_all only: not_less)
  note fl = mmap_flags_ok[OF p]
  have un0: "unmapped (mem s) ?root (ustep start 0) n" using un by simp
  have fit0: "unat start + 4096 * (0 + n) \<le> unat MAXVA" using fit by simp
  obtain s' fps' fr where r: "mmap_loop n 0 0 ?root start ?perm s = Inr (0, s')"
    and P: "pages_filled (\<lambda>_. replicate 4096 5) (\<lambda>_. mmap_flags port) ?root start n s fps s' fps' fr"
    using mmap_loop_ok[OF inv al fit0 len un0, of ?perm] unfolding fl(1) by auto
  have nd: "unat (round_len len div PGSIZE) = n" unfolding round_len_ok n by (simp add: unat_div)
  have "(start mod 4096 \<noteq> 0) = False" using al by (simp add: aligned_def)
  moreover have "(port < 1 \<or> port > 7) = False" using port by (simp only: simp_thms)
  ultimately have c: "(port < 1 \<or> port > 7) = False" "(start mod 4096 \<noteq> 0) = False" by iprover+
  have "sys_mmap start len port s = Inr (PGROUNDUP len, s')"
    using r nd unfolding sys_mmap_def Let_def c if_False by (simp add: round_len_ok)
  then show thesis using that P by blast
qed

lemma sys_mmap_ok:
  assumes inv: "vm_inv s (pagetable (cproc s)) fps" and n: "n = unat (PGROUNDUP len) div 4096"
    and fit: "unat start + 4096 * n \<le> unat MAXVA" and un: "unmapped (mem s) (pagetable (cproc s)) start n"
    and len: "3 * n \<le> length fps"
  shows "if port < 1 \<or> port > 7 \<or> \<not> aligned start then sys_mmap start len port s = Inr (-1, s)
    else \<exists>s' fps' fr. sys_mmap start len port s = Inr (PGROUNDUP len, s') \<and> mem_only s s' \<and>
      vm_inv s' (pagetable (cproc s)) fps' \<and> length fr = n \<and> distinct fr \<and> set fr \<subseteq> set fps - set fps' \<and>
      mmapped (mem s') (pagetable (cproc s)) start fr port \<and>
      pt_pages (mem s') (pagetable (cproc s)) \<union> set fps' \<union> set fr = pt_pages (mem s) (pagetable (cproc s)) \<union> set fps \<and>
      (\<forall>va<MAXVA. (\<forall>i<n. PGROUNDDOWN va \<noteq> ustep start i) \<longrightarrow>
         leaf (mem s') (pagetable (cproc s)) va = leaf (mem s) (pagetable (cproc s)) va) \<and>
      same_off (pt_pages (mem s) (pagetable (cproc s)) \<union> set fps) (mem s) (mem s')"
proof (cases "port < 1 \<or> port > 7 \<or> \<not> aligned start")
  case True
  then show ?thesis unfolding sys_mmap_def Let_def aligned_def[symmetric] by auto
next
  case False
  then have port: "\<not> port < 1" "\<not> port > 7" and al: "aligned start" by blast+
  let ?root = "pagetable (cproc s)"
  have "1 \<le> port" "port \<le> 7" using port by (simp_all only: not_less)
  note fl = mmap_flags_ok[OF this]
  obtain s' fps' fr where r: "sys_mmap start len port s = Inr (PGROUNDUP len, s')"
    and P: "pages_filled (\<lambda>_. replicate 4096 5) (\<lambda>_. mmap_flags port) ?root start n s fps s' fps' fr"
    by (rule sys_mmap_filled[OF inv n fit un len port al])
  note C = P[unfolded pages_filled_def]
  have m: "mmapped (mem s') ?root start fr port"
    unfolding mmapped_def
  proof (intro allI impI)
    fix i assume "i < length fr"
    then have i: "i < n" using C by simp
    note w = copied_view[OF P inv al fit i fl(2,3)]
    show "upage (mem s') ?root (ustep start i) = fr ! i \<and>
      PTE_FLAGS (leaf (mem s') ?root (ustep start i)) = mmap_flags port \<and> rd (mem s') (fr ! i) 4096 = replicate 4096 5"
      using w(1,2) fl(4) C i by simp
  qed
  have "set fr \<subseteq> set fps - set fps'" using C by blast
  then show ?thesis
    unfolding if_not_P[OF False]
    by (intro exI[of _ s'] exI[of _ fps'] exI[of _ fr] conjI r m) (use C in blast)+
qed

section \<open>Unmapping\<close>

text \<open>The loop of \<open>sys_munmap\<close> looks at every page of the range before any is unmapped.\<close>

lemma munmap_check_ok:
  assumes wf: "pt_wf (mem s) root"
  shows "aligned a \<Longrightarrow> unat a + 4096 * n \<le> unat MAXVA \<Longrightarrow> \<forall>i<n. leaf (mem s) root (ustep a i) AND PTE_V \<noteq> 0 \<Longrightarrow>
    munmap_check root a (ustep a n) s = Inr True"
proof (induction n arbitrary: a)
  case 0
  then show ?case by (subst munmap_check.simps) simp
next
  case (Suc n)
  have z: "(0 :: nat) < Suc n" by simp
  note u = ustep_page[OF Suc.prems(1,2) z]
  have aM: "a < MAXVA" using u(1) by simp
  have v: "leaf (mem s) root a AND PTE_V \<noteq> 0" using Suc.prems(3)[rule_format, of 0] by simp
  from wf aM obtain t where t: "walk root a False s = Inr (t + 8 * PX 0 a, s)" "t + 8 * PX 0 a \<noteq> 0"
    "load64 (mem s) (t + 8 * PX 0 a) = leaf (mem s) root a"
    by (cases rule: walk_noalloc) (use v in auto)
  have e: "ustep a (Suc n) = ustep (a + 4096) n" by (simp add: ustep_def algebra_simps)
  have b: "unat a + 4096 * Suc n < 2 ^ 64" using Suc.prems(2) by (simp add: unat_MAXVA)
  have lt: "a < ustep a (Suc n)" unfolding word_less_nat_alt unat_ustep[OF b] by simp
  have a4: "unat (a + 4096) = unat a + 4096" using b by (simp add: unat_word_ariths)
  have al: "aligned (a + 4096)" using Suc.prems(1) a4 by (simp add: aligned_unat mod_simps)
  have "\<forall>i<n. leaf (mem s) root (ustep (a + 4096) i) AND PTE_V \<noteq> 0"
    using Suc.prems(3) unfolding ustep_Suc[symmetric] by auto
  then have "munmap_check root (a + 4096) (ustep (a + 4096) n) s = Inr True"
    using Suc.IH[OF al] Suc.prems(2) a4 by simp
  then show ?case using lt t v by (subst munmap_check.simps) (simp add: e)
qed

lemma sys_munmap_ok:
  assumes inv: "vm_inv s (pagetable (cproc s)) fps" and n: "n = unat (PGROUNDUP len) div 4096"
    and al: "aligned start" and fit: "unat start + 4096 * n \<le> unat MAXVA"
    and un: "\<forall>i<n. unmappable (mem s) (pagetable (cproc s)) (ustep start i)"
    and rel: "releasable s (pagetable (cproc s)) fps (uframe_list (mem s) (pagetable (cproc s)) start n)"
  shows "\<exists>s'. sys_munmap start len s = Inr (PGROUNDUP len, s') \<and> mem_only s s' \<and>
    vm_inv s' (pagetable (cproc s)) (rev (uframe_list (mem s) (pagetable (cproc s)) start n) @ fps) \<and>
    pt_pages (mem s') (pagetable (cproc s)) = pt_pages (mem s) (pagetable (cproc s)) \<and>
    (\<forall>va<MAXVA. leaf (mem s') (pagetable (cproc s)) va = clear_range start n (leaf (mem s) (pagetable (cproc s))) va) \<and>
    same_off (pt_pages (mem s) (pagetable (cproc s)) \<union> set (uframe_list (mem s) (pagetable (cproc s)) start n)) (mem s) (mem s')"
proof -
  let ?root = "pagetable (cproc s)" and ?w = "PGROUNDUP len div PGSIZE"
  have w: "unat ?w = n" unfolding n by (simp add: unat_div)
  have st: "start + ?w * PGSIZE = ustep start n"
  proof -
    have "?w = of_nat n" unfolding w[symmetric] by simp
    then show ?thesis by (simp add: ustep_def)
  qed
  have wf: "pt_wf (mem s) ?root" using inv by (simp add: vm_inv_def)
  have c: "munmap_check ?root start (ustep start n) s = Inr True"
    by (rule munmap_check_ok[OF wf al fit]) (use un in \<open>simp add: unmappable_def\<close>)
  have fit': "unat start + 4096 * unat ?w \<le> unat MAXVA" unfolding w by (rule fit)
  have un': "\<forall>i<unat ?w. unmappable (mem s) ?root (ustep start i)" unfolding w by (rule un)
  have "\<exists>s'. uvmunmap ?root start ?w True s = Inr s' \<and>
    vm_inv s' ?root ((if True then rev (uframe_list (mem s) ?root start (unat ?w)) else []) @ fps) \<and>
    pt_pages (mem s') ?root = pt_pages (mem s) ?root \<and> ekernel s' = ekernel s \<and>
    (\<forall>v<MAXVA. leaf (mem s') ?root v = clear_range start (unat ?w) (leaf (mem s) ?root) v) \<and>
    same_off (pt_pages (mem s) ?root \<union> (if True then set (uframe_list (mem s) ?root start (unat ?w)) else {})) (mem s) (mem s')"
    by (rule uvmunmap_ok[OF inv al fit' un']) (unfold w, rule rel)
  then obtain s' where u: "uvmunmap ?root start ?w True s = Inr s'"
    "vm_inv s' ?root (rev (uframe_list (mem s) ?root start n) @ fps)" "pt_pages (mem s') ?root = pt_pages (mem s) ?root"
    "\<forall>v<MAXVA. leaf (mem s') ?root v = clear_range start n (leaf (mem s) ?root) v"
    "same_off (pt_pages (mem s) ?root \<union> set (uframe_list (mem s) ?root start n)) (mem s) (mem s')"
    unfolding w if_True by blast
  have "sys_munmap start len s = Inr (PGROUNDUP len, s')"
    using c u(1) al unfolding sys_munmap_def Let_def round_len_ok st aligned_def by simp
  then show ?thesis using u uvmunmap_mem_only[OF u(1)] by blast
qed

text \<open>\<open>sys_munmap\<close> takes back what \<open>sys_mmap\<close> gave, but for new tables.\<close>

lemma mmap_munmap_ok:
  assumes inv: "vm_inv s (pagetable (cproc s)) fps" and n: "n = unat (PGROUNDUP len) div 4096"
    and fit: "unat start + 4096 * n \<le> unat MAXVA" and un: "unmapped (mem s) (pagetable (cproc s)) start n"
    and len: "3 * n \<le> length fps" and port: "\<not> port < 1" "\<not> port > 7" and al: "aligned start"
  shows "\<exists>s1 s2 fps2. sys_mmap start len port s = Inr (PGROUNDUP len, s1) \<and>
    sys_munmap start len s1 = Inr (PGROUNDUP len, s2) \<and> mem_only s s2 \<and> vm_inv s2 (pagetable (cproc s)) fps2 \<and>
    pt_pages (mem s2) (pagetable (cproc s)) \<union> set fps2 = pt_pages (mem s) (pagetable (cproc s)) \<union> set fps \<and>
    (\<forall>va<MAXVA. leaf (mem s2) (pagetable (cproc s)) va = clear_range start n (leaf (mem s) (pagetable (cproc s))) va) \<and>
    same_off (pt_pages (mem s) (pagetable (cproc s)) \<union> set fps) (mem s) (mem s2)"
proof -
  let ?root = "pagetable (cproc s)"
  have "1 \<le> port" "port \<le> 7" using port by (simp_all only: not_less)
  note fl = mmap_flags_ok[OF this]
  obtain s1 fps1 fr where r: "sys_mmap start len port s = Inr (PGROUNDUP len, s1)"
    and P: "pages_filled (\<lambda>_. replicate 4096 5) (\<lambda>_. mmap_flags port) ?root start n s fps s1 fps1 fr"
    by (rule sys_mmap_filled[OF inv n fit un len port al])
  note C = P[unfolded pages_filled_def]
  have ul: "uframe_list (mem s1) ?root start n = fr" by (rule filled_list[OF P inv]) (simp add: fl(2))
  have mo: "mem_only s s1" and inv1: "vm_inv s1 ?root fps1" using C by blast+
  have rt: "pagetable (cproc s1) = ?root"
    using mem_only_curr_proc[OF mo] mem_only_proc_at[OF mo] by simp
  have "unmappable (mem s1) ?root (ustep start i)" if "i < n" for i
  proof (rule unmappable_perm)
    show "leaf (mem s1) ?root (ustep start i) = PA2PTE (fr ! i) OR mmap_flags port OR 1" using C that by blast
    have "(mmap_flags port AND 1022) AND 16 = mmap_flags port AND 16" by (simp add: and.assoc)
    then show "mmap_flags port AND 1022 \<noteq> 0" using fl(4) by auto
  qed
  then have um: "\<forall>i<n. unmappable (mem s1) (pagetable (cproc s1)) (ustep start i)" unfolding rt by blast
  have rel: "releasable s1 (pagetable (cproc s1)) fps1 (uframe_list (mem s1) (pagetable (cproc s1)) start n)"
    unfolding rt ul by (rule filled_released[OF P inv])
  obtain s2 where u: "sys_munmap start len s1 = Inr (PGROUNDUP len, s2)" "mem_only s1 s2" "vm_inv s2 ?root (rev fr @ fps1)"
    "pt_pages (mem s2) ?root = pt_pages (mem s1) ?root"
    "\<forall>va<MAXVA. leaf (mem s2) ?root va = clear_range start n (leaf (mem s1) ?root) va"
    "same_off (pt_pages (mem s1) ?root \<union> set fr) (mem s1) (mem s2)"
    using sys_munmap_ok[OF _ n al fit um rel] inv1 unfolding rt ul by blast
  have "leaf (mem s2) ?root va = clear_range start n (leaf (mem s) ?root) va" if va: "va < MAXVA" for va
  proof (cases "unat (PGROUNDDOWN va - start) < 4096 * n")
    case True
    then show ?thesis using u(5) va by (simp add: clear_range_def)
  next
    case False
    have "PGROUNDDOWN va \<noteq> ustep start i" if "i < n" for i
    proof
      assume "PGROUNDDOWN va = ustep start i"
      moreover have "unat (of_nat (4096 * i) :: u64) = 4096 * i" using that fit by (intro unat_of_nat_u64) (simp add: unat_MAXVA)
      ultimately show False using False that by (simp add: ustep_def)
    qed
    then have "leaf (mem s1) ?root va = leaf (mem s) ?root va" using C va by blast
    then show ?thesis using u(5) va by (simp add: clear_range_def)
  qed
  moreover have "pt_pages (mem s2) ?root \<union> set (rev fr @ fps1) = pt_pages (mem s) ?root \<union> set fps"
    using C u(4) by auto
  moreover have "same_off (pt_pages (mem s) ?root \<union> set fps) (mem s) (mem s2)"
    by (rule same_off_trans[of "pt_pages (mem s) ?root \<union> set fps" _ "mem s1" "pt_pages (mem s1) ?root \<union> set fr"])
      (use C u(6) in blast)+
  ultimately show ?thesis using r u(1,3) mem_only_trans[OF mo u(2)] by blast
qed


lemma mmap_example:
  "\<exists>(s :: kproc) fps. vm_inv s (pagetable (cproc s)) fps \<and> length fps = 3 \<and>
     unmapped (mem s) (pagetable (cproc s)) 0x10000000 1 \<and> pagetable (cproc s) = 0x87fff000"
proof -
  obtain k :: kmem where k: "vm_inv k 0x87fff000 [0x87ffe000, 0x87ffd000, 0x87ffc000]" "filled (mem k) 0x87fff000 0"
    using new_table by blast
  define s where "s = (kproc0 (mem k))\<lparr>mem := mem k, freelist := freelist k, ekernel := ekernel k,
    pool := [proc0\<lparr>pagetable := 0x87fff000\<rparr>], current_proc := Some (Pool 0)\<rparr>"
  have p: "pagetable (cproc s) = 0x87fff000" by (simp add: s_def curr_proc_def proc_at_def)
  have "vm_inv s (pagetable (cproc s)) [0x87ffe000, 0x87ffd000, 0x87ffc000]"
    unfolding p using k(1) by (simp add: s_def vm_inv_def kmem_wf_def)
  moreover have "unmapped (mem s) (pagetable (cproc s)) 0x10000000 1"
    unfolding p unmapped_def using empty_table(4)[OF k(2)] by (simp add: s_def)
  ultimately show ?thesis using p by (intro exI[of _ s]) auto
qed

section \<open>Properties\<close>



text \<open>C19: \<open>sys_munmap\<close> undoes \<open>sys_mmap\<close> for the same range: both return the rounded length, every frame is
  free again, the addresses of the range have no translation, as before, and no other translation has
  changed. What remains of the mapping are table pages, which are the process's until it ends.\<close>

theorem mmap_munmap:
  assumes "vm_inv s (pagetable (cproc s)) fps" "n = unat (PGROUNDUP len) div 4096"
    "unat start + 4096 * n \<le> unat MAXVA" "unmapped (mem s) (pagetable (cproc s)) start n" "3 * n \<le> length fps"
    "\<not> port < 1" "\<not> port > 7" "aligned start"
  shows "\<exists>s1 s2 fps2. sys_mmap start len port s = Inr (PGROUNDUP len, s1) \<and>
    sys_munmap start len s1 = Inr (PGROUNDUP len, s2) \<and> mem_only s s2 \<and> vm_inv s2 (pagetable (cproc s)) fps2 \<and>
    pt_pages (mem s2) (pagetable (cproc s)) \<union> set fps2 = pt_pages (mem s) (pagetable (cproc s)) \<union> set fps \<and>
    (\<forall>va<MAXVA. leaf (mem s2) (pagetable (cproc s)) va = clear_range start n (leaf (mem s) (pagetable (cproc s))) va) \<and>
    same_off (pt_pages (mem s) (pagetable (cproc s)) \<union> set fps) (mem s) (mem s2)"
  by (rule mmap_munmap_ok[OF assms])

theorem mmap_munmap_witness:
  "\<exists>(s :: kproc) s1 s2 fps2. sys_mmap 0x10000000 10 3 s = Inr (0x1000, s1) \<and> sys_munmap 0x10000000 10 s1 = Inr (0x1000, s2) \<and>
     vm_inv s2 0x87fff000 fps2 \<and> leaf (mem s2) 0x87fff000 0x10000000 = 0"
proof -
  obtain s :: kproc and fps where s: "vm_inv s (pagetable (cproc s)) fps" "length fps = 3"
    "unmapped (mem s) (pagetable (cproc s)) 0x10000000 1" "pagetable (cproc s) = 0x87fff000" using mmap_example by blast
  have r: "PGROUNDUP 10 = 0x1000" "aligned 0x10000000" by (simp_all add: PGROUNDUP_def aligned_def)
  have c: "clear_range 0x10000000 1 lf 0x10000000 = 0" for lf by (simp add: clear_range_def PGROUNDDOWN_aligned[OF r(2)])
  have M: "(0x10000000 :: u64) < MAXVA" by (simp add: MAXVA_def)
  obtain s1 s2 fps2 where u: "sys_mmap 0x10000000 10 3 s = Inr (0x1000, s1)" "sys_munmap 0x10000000 10 s1 = Inr (0x1000, s2)"
    "vm_inv s2 0x87fff000 fps2"
    "\<forall>va<MAXVA. leaf (mem s2) 0x87fff000 va = clear_range 0x10000000 1 (leaf (mem s) 0x87fff000) va"
    using mmap_munmap[OF s(1), of 1 10 "0x10000000" 3] s(2,3) r unfolding s(4) by (auto simp: unat_MAXVA)
  have "leaf (mem s2) 0x87fff000 0x10000000 = 0" using u(4) M c by simp
  then show ?thesis using u(1-3) by blast
qed

end
