(* ===== verification/Spec2Isabelle.thy ===== *)
theory Spec2Isabelle
  imports Mailbox Trap Mkfs UserScan NumberText OutputStream ProcRefine VirtioSpec MkfsBoot TrapProcess UserMap
begin

text \<open>
  A verification development of the uCore teaching kernel of \<open>src/os\<close>: the kernel in
  \<open>os/kernel\<close>, the tool that makes the disk image in \<open>os/nfs\<close> and the library of the user
  programs in \<open>os/user/lib\<close>. Every definition translates the C function of the same name (a suffix
  \<open>_u\<close> is the user library's, \<open>_m\<close> the image tool's, \<open>_loop\<close> the loop of a function); the lemmas state what
  makes the parts correct.

  \<^bold>\<open>How the program is modelled.\<close> Integers have the width of the code (\<open>u8\<close>, \<open>u16\<close>, \<open>u32\<close>, \<open>u64\<close>
  of \<^theory_text>\<open>Prelude\<close>) and wrap as it does; C \<open>int\<close>s are \<open>int\<close> where the code cannot overflow them and the
  conversion is written out where it can. A function that can panic or do something undefined has
  type \<open>fault + 'a\<close>: \<open>Inl (Panic msg)\<close> is a call of \<open>panic\<close>, \<open>Inl (Wild msg)\<close> an access outside an object
  or through a null pointer; \<open>bindE\<close> sequences. State is a record, extended along the
  calls: \<open>kmem\<close> (memory and free list), \<open>kproc\<close> (processes), \<open>kdisk\<close> (disk and buffer cache),
  \<open>kfs\<close> (super block, inode table), \<open>kfile\<close> (open files), \<open>kload\<close> (linked-in programs), \<open>kdev\<close> (console
  and timer), \<open>ktrap\<close> (control registers, interrupt controller, disk driver). Physical memory is one
  map from addresses to bytes: page tables, the free list, trap frames, pipes and user pages are read and written
  there, so that aliasing is what it is in the code. Blocking is a value: a call that would give up the
  processor returns \<open>Block k\<close> with the continuation \<open>k\<close>, and \<open>resume\<close> goes on from it.

  \<^bold>\<open>Theories and source files.\<close>
  \<^item> \<open>Prelude\<close>, \<open>Memory\<close>: results, widths, the byte memory; \<open>CString\<close>: \<open>string.c\<close>.
  \<^item> \<open>Kalloc\<close>: \<open>kalloc.c\<close>, the free list threaded through the free pages, with the locale
    \<open>page_pool\<close> of what its clients rely on.
  \<^item> \<open>Vm\<close>: \<open>vm.c\<close>; \<open>PageTable\<close>: the three-level tables as a partial map of pages; \<open>UserMem\<close>: the copies to and from
    user space; \<open>MemOnly\<close>, \<open>LifeFrame\<close>: what operations leave alone.
  \<^item> \<open>Proc\<close>, \<open>Lifecycle\<close>: \<open>proc.c\<close> (table, \<open>fork\<close>, \<open>exec\<close>, \<open>spawn\<close>, \<open>wait\<close>, \<open>exit\<close>, \<open>scheduler\<close>);
    \<open>ProcTable\<close>: the abstract process table and its transitions; \<open>ProcRefine\<close>: every
    operation refines a transition; \<open>Scheduler\<close>: order and fairness.
  \<^item> \<open>AddressSpace\<close>: runs of pages that are filled and mapped, as \<open>uvmcopy\<close>, the loader and \<open>sys_mmap\<close> make
    them; \<open>ProcMemory\<close>, \<open>ProcImage\<close>, \<open>NewProcess\<close>: the memory and registers of the process that \<open>fork\<close>
    and \<open>spawn\<close> make; \<open>UserMap\<close>: \<open>sys_mmap\<close>.
  \<^item> \<open>FreeWalk\<close>, \<open>FreeSpace\<close>: what releasing a table and an address space gives back; \<open>ExecProcess\<close>: \<open>exec\<close>;
    \<open>ExitProcess\<close>: \<open>exit\<close>, and the life of a child from \<open>fork\<close> to \<open>wait\<close>. \<open>full_table\<close> is the state of an
    address space that all of them keep, and each accounts for every page that was free or the process's.
    \<open>TrapProcess\<close>: what an exception and a system call do to the process that traps.
  \<^item> \<open>Fifo\<close>: the locale of bounded queues; \<open>Pipe\<close> (\<open>pipe.c\<close>) and \<open>Mailbox\<close> (\<open>mail_read\<close>, \<open>mail_write\<close>
    of \<open>proc.c\<close>) interpret it on their rings.
  \<^item> \<open>Bio\<close>: \<open>bio.c\<close>; \<open>Cache\<close>: the cache is transparent (locale \<open>block_store\<close>) and replaces the least
    recently used buffer. The cache reads whole blocks from a disk that is a map.
  \<^item> \<open>Virtio\<close>: \<open>virtio_disk.c\<close>, against a device that is a parameter; \<open>VirtioSpec\<close>: with a device that serves its
    requests the driver is the disk of the buffer cache.
  \<^item> \<open>Fs\<close>: \<open>fs.c\<close>; \<open>FsBlocks\<close> (bitmap), \<open>FsInodes\<close> (inodes on disk and in the table),
    \<open>FsFile\<close> (the blocks of a file), \<open>FsRw\<close> (\<open>readi\<close>, \<open>writei\<close>), \<open>FsDir\<close> (directories as maps): its
    correctness, layer by layer.
  \<^item> \<open>File\<close>: \<open>file.c\<close>; \<open>Loader\<close>: \<open>loader.c\<close>; \<open>Syscall\<close>: \<open>syscall.c\<close>, \<open>console.c\<close>; \<open>Trap\<close>: \<open>trap.c\<close>,
    \<open>timer.c\<close>, \<open>plic.c\<close>, \<open>main.c\<close>, the registers of \<open>riscv.h\<close>; \<open>Printf\<close>: \<open>printf.c\<close>, \<open>logger.h\<close>.
  \<^item> \<open>UserString\<close>, \<open>UserScan\<close>, \<open>UserStdio\<close>, \<open>NumberText\<close>, \<open>OutputStream\<close>: \<open>user/lib\<close>, with the word-wise
    string loops, the buffered output and numbers as text.
  \<^item> \<open>Mkfs\<close>: \<open>nfs/fs.c\<close>; \<open>MkfsImage\<close>: what a well-formed image is, and that appending to a file keeps it;
    \<open>MkfsBuild\<close>: the image \<open>main\<close> writes; \<open>MkfsBoot\<close>: the kernel that boots on it finds every file by name
    and reads its bytes.

  \<^bold>\<open>Bounds and fuel.\<close> Recursion follows the code's loops and is total by a measure. Fuel is used where the code
  chases pointers: \<open>bsearch\<close> goes round the ring of 31 buffers, which has 31 members; \<open>free_chain\<close>
  follows at most the 8 descriptors; \<open>freewalk\<close> descends at most two levels, as deep as a table is; \<open>digit_loop\<close> prints at most
  the digits of the buffer of 16. There the bound running out is a fault,
  which the correctness lemmas exclude. The loop that waits for the disk polls as often as its parameter says; \<open>virtio_disk_rw\<close>
  is shown to return whenever that is more than the delay of a device that serves its requests.

  \<^bold>\<open>Not modelled.\<close> The assembly (\<open>entry.S\<close>, \<open>trampoline.S\<close>, \<open>kernelvec.S\<close>, \<open>switch.S\<close>): a switch of stacks is
  the choice of who runs next, a return to user mode the address and arguments jumped to. The
  firmware calls of \<open>sbi.c\<close>, \<open>kernelld.py\<close> and \<open>pack.py\<close>, and the test programs of \<open>user/src\<close>. The kernel runs with interrupts
  off on one hart, so its operations are atomic between two points where it gives up the processor. Memory barriers and the ordering
  of device accesses are not modelled, nor the TLB.
\<close>

end
